(* ===== verification/Orch_Prelude.thy ===== *)
theory Orch_Prelude
  imports Complex_Main
begin

text \<open>
  The prelude of the development: the collections of simplification rules the component
  theories fill, the data types several components share (JSON values, hash field values,
  exceptions), the model of a Redis key with a time to live, and the small language of
  stateful, fallible computations in which the asynchronous procedures of the program are
  written.

  Numbers: Python integers are \<^typ>\<open>int\<close>; Python floats and Lua numbers are \<^typ>\<open>real\<close>
  (rounding of doubles is not modelled).
\<close>

named_theorems cell_simps \<open>reading and writing keys that carry a time to live\<close>
named_theorems io_simps \<open>unfolding of stateful, fallible computations\<close>
named_theorems wp_simps \<open>weakest preconditions of the ways to combine computations\<close>

section \<open>Shared data\<close>

text \<open>A decoded JSON value, as \<^verbatim>\<open>json.loads\<close> and \<^verbatim>\<open>response.json()\<close> return it.\<close>

datatype json =
    JNull
  | JBool bool
  | JNum real
  | JStr string
  | JArr "json list"
  | JObj "(string \<times> json) list"

text \<open>\<^verbatim>\<open>obj.get(key)\<close> on a decoded JSON object.\<close>

fun json_get :: "string \<Rightarrow> json \<Rightarrow> json option" where
  "json_get k (JObj kvs) = map_of kvs k"
| "json_get k _ = None"

text \<open>
  A value written to a Redis hash field. The program writes \<^verbatim>\<open>str(value)\<close>; the model keeps
  the value the string was made from.
\<close>

datatype field_value =
    VStr string
  | VInt int
  | VReal real
  | VJson json

text \<open>
  The exceptions the code tells apart. An HTTP error carries its status and its
  headers; a header value is given as the number \<^verbatim>\<open>float(value)\<close> returns, or \<^const>\<open>None\<close>
  where that call raises \<^verbatim>\<open>ValueError\<close>. The API's own \<^verbatim>\<open>HTTPException\<close> carries the status and the
  \<^verbatim>\<open>Retry-After\<close> it is sent with. \<^verbatim>\<open>asyncio.CancelledError\<close> is a
  \<^verbatim>\<open>BaseException\<close> and not an \<^verbatim>\<open>Exception\<close>; every other one is both.
\<close>

datatype exc =
    RateLimitTimeout (exc_endpoint: string) (exc_retry_after_s: real) (exc_waited_s: real)
  | CircuitOpen (exc_endpoint: string) (exc_retry_after_s: real)
  | HTTPStatusError (exc_status: int) (exc_headers: "(string \<times> real option) list")
  | TimeoutException
  | TransportError
  | RedisError
  | ResponseError (exc_msg: string)
  | HTTPException (exc_code: int) (exc_retry: "int option")
  | OtherException (exc_name: string)
  | CancelledError

definition is_Exception :: "exc \<Rightarrow> bool" where
  "is_Exception e \<longleftrightarrow> e \<noteq> CancelledError"

text \<open>
  How an await on a remote service can fail: before the request took effect, or after, when
  only the reply is lost.
\<close>

datatype fault = Lost_Request exc | Lost_Reply exc

section \<open>Text\<close>

text \<open>\<^verbatim>\<open>str(n)\<close> and \<^verbatim>\<open>int(s)\<close> of Python, on ASCII text; \<^const>\<open>None\<close> is \<^verbatim>\<open>ValueError\<close>.\<close>

fun str_nat :: "nat \<Rightarrow> string" where
  "str_nat n = (if n < 10 then [char_of (48 + n)] else str_nat (n div 10) @ [char_of (48 + n mod 10)])"

declare str_nat.simps [simp del]

definition str_int :: "int \<Rightarrow> string" where
  "str_int n = (if n < 0 then CHR ''-'' # str_nat (nat (- n)) else str_nat (nat n))"

definition is_digit :: "char \<Rightarrow> bool" where
  "is_digit c \<longleftrightarrow> 48 \<le> (of_char c :: nat) \<and> (of_char c :: nat) \<le> 57"

definition digit_val :: "char \<Rightarrow> nat" where
  "digit_val c = of_char c - 48"

definition is_space :: "char \<Rightarrow> bool" where
  "is_space c \<longleftrightarrow> (of_char c :: nat) \<in> {9, 10, 11, 12, 13, 28, 29, 30, 31, 32}"

text \<open>The digits after the first one; a single underscore may stand between two digits.\<close>

fun dec_digits :: "nat \<Rightarrow> string \<Rightarrow> nat option" where
  "dec_digits acc [] = Some acc"
| "dec_digits acc (c # cs) =
     (if is_digit c then dec_digits (10 * acc + digit_val c) cs
      else if c = CHR ''_'' then
        (case cs of [] \<Rightarrow> None
         | d # ds \<Rightarrow> if is_digit d then dec_digits (10 * acc + digit_val d) ds else None)
      else None)"

fun py_nat :: "string \<Rightarrow> nat option" where
  "py_nat [] = None"
| "py_nat (c # cs) = (if is_digit c then dec_digits (digit_val c) cs else None)"

definition str_strip :: "string \<Rightarrow> string" where
  "str_strip s = rev (dropWhile is_space (rev (dropWhile is_space s)))"

definition py_int :: "string \<Rightarrow> int option" where
  "py_int s =
     (case str_strip s of
        [] \<Rightarrow> None
      | c # cs \<Rightarrow>
          if c = CHR ''-'' then map_option (\<lambda>n. - int n) (py_nat cs)
          else if c = CHR ''+'' then map_option int (py_nat cs)
          else map_option int (py_nat (c # cs)))"

text \<open>\<^verbatim>\<open>pat in s\<close>.\<close>

fun str_in :: "string \<Rightarrow> string \<Rightarrow> bool" where
  "str_in pat [] = (pat = [])"
| "str_in pat (c # cs) = (take (length pat) (c # cs) = pat \<or> str_in pat cs)"

text \<open>Rounding, as \<^verbatim>\<open>round(x)\<close> and \<^verbatim>\<open>{x:.0f}\<close> do it: ties go to the even neighbour.\<close>

definition round_half_even :: "real \<Rightarrow> int" where
  "round_half_even x =
     (let f = \<lfloor>x\<rfloor>; d = x - of_int f
      in if d < 1 / 2 then f else if d > 1 / 2 then f + 1 else if even f then f else f + 1)"

lemma of_char_digit: "n < 10 \<Longrightarrow> (of_char (char_of (48 + n :: nat)) :: nat) = 48 + n"
  by (simp only: of_char_of) simp

lemma is_digit_char_of: "n < 10 \<Longrightarrow> is_digit (char_of (48 + n :: nat))"
  by (simp add: is_digit_def of_char_digit del: of_char_of)

lemma digit_val_char_of: "n < 10 \<Longrightarrow> digit_val (char_of (48 + n :: nat)) = n"
  by (simp add: digit_val_def of_char_digit del: of_char_of)

lemma str_nat_small: "n < 10 \<Longrightarrow> str_nat n = [char_of (48 + n)]"
  by (simp add: str_nat.simps)

lemma str_nat_step: "\<not> n < 10 \<Longrightarrow> str_nat n = str_nat (n div 10) @ [char_of (48 + n mod 10)]"
  by (subst str_nat.simps) simp

lemma str_nat_digits: "list_all is_digit (str_nat n) \<and> str_nat n \<noteq> []"
proof (induction n rule: str_nat.induct)
  case (1 n)
  then show ?case
    by (cases "n < 10") (simp_all add: str_nat_small str_nat_step is_digit_char_of)
qed

lemma dec_digits_foldl:
  "list_all is_digit ds \<Longrightarrow> dec_digits acc ds = Some (foldl (\<lambda>a c. 10 * a + digit_val c) acc ds)"
  by (induction ds arbitrary: acc) auto

lemma foldl_str_nat: "foldl (\<lambda>a c. 10 * a + digit_val c) 0 (str_nat n) = n"
proof (induction n rule: str_nat.induct)
  case (1 n)
  then show ?case
    by (cases "n < 10") (simp_all add: str_nat_small str_nat_step digit_val_char_of)
qed

lemma py_nat_str_nat [simp]: "py_nat (str_nat n) = Some n"
proof -
  obtain c cs where s: "str_nat n = c # cs" using str_nat_digits by (cases "str_nat n") auto
  have "list_all is_digit (c # cs)" using str_nat_digits s by metis
  then show ?thesis
    using foldl_str_nat [of n] by (simp add: s dec_digits_foldl)
qed

lemma digit_not_space: "is_digit c \<Longrightarrow> \<not> is_space c"
  by (auto simp: is_digit_def is_space_def)

lemma strip_id:
  assumes "s \<noteq> []" and "\<not> is_space (hd s)" and "\<not> is_space (last s)"
  shows "str_strip s = s"
proof -
  have "dropWhile is_space s = s" using assms by (cases s) simp_all
  moreover have "\<not> is_space (hd (rev s))" using assms by (simp add: hd_rev)
  then have "dropWhile is_space (rev s) = rev s" by (cases "rev s") simp_all
  ultimately show ?thesis by (simp add: str_strip_def)
qed

lemma str_nat_ends: "is_digit (hd (str_nat n))" "is_digit (last (str_nat n))"
  using str_nat_digits [of n] by (auto simp: list_all_iff)

text \<open>Printing and reading back an integer.\<close>

lemma py_int_str_int [simp]: "py_int (str_int n) = Some n"
proof (cases "n < 0")
  case True
  have "str_strip (CHR ''-'' # str_nat (nat (- n))) = CHR ''-'' # str_nat (nat (- n))"
  proof (rule strip_id)
    show "\<not> is_space (hd (CHR ''-'' # str_nat (nat (- n))))" by (simp add: is_space_def)
    show "\<not> is_space (last (CHR ''-'' # str_nat (nat (- n))))"
      using str_nat_ends(2) [of "nat (- n)"] str_nat_digits [of "nat (- n)"] by (simp add: digit_not_space)
  qed simp
  with True show ?thesis by (simp add: py_int_def str_int_def)
next
  case False
  obtain c cs where s: "str_nat (nat n) = c # cs"
    using str_nat_digits [of "nat n"] by (cases "str_nat (nat n)") auto
  have "str_strip (c # cs) = c # cs"
    using str_nat_ends [of "nat n"] by (intro strip_id) (simp_all add: s digit_not_space)
  moreover have "is_digit c" using str_nat_ends(1) [of "nat n"] by (simp add: s)
  then have "c \<noteq> CHR ''-''" "c \<noteq> CHR ''+''" by (auto simp: is_digit_def)
  ultimately show ?thesis
    using False py_nat_str_nat [of "nat n"] by (simp add: py_int_def str_int_def s)
qed

section \<open>Keys with a time to live\<close>

text \<open>
  The content of a Redis key: absent, or a value with the server time (milliseconds) at
  which it expires, if it has a time to live. A key whose expiry time has come is absent.
\<close>

type_synonym 'v cell = "('v \<times> int option) option"

definition expired :: "int \<Rightarrow> int option \<Rightarrow> bool" where
  "expired t e = (case e of None \<Rightarrow> False | Some x \<Rightarrow> x \<le> t)"

definition get_live :: "int \<Rightarrow> 'v cell \<Rightarrow> 'v option" where
  "get_live t c =
     (case c of None \<Rightarrow> None | Some (v, e) \<Rightarrow> if expired t e then None else Some v)"

text \<open>
  A write to some fields (\<^verbatim>\<open>HSET\<close>, \<^verbatim>\<open>HINCRBY\<close>): it keeps the expiry of a live key and
  creates an absent key with no expiry, starting from the empty hash \<open>z\<close>.
\<close>

definition put_fields :: "int \<Rightarrow> 'v \<Rightarrow> ('v \<Rightarrow> 'v) \<Rightarrow> 'v cell \<Rightarrow> 'v cell" where
  "put_fields t z f c =
     (case c of
        None \<Rightarrow> Some (f z, None)
      | Some (v, e) \<Rightarrow> if expired t e then Some (f z, None) else Some (f v, e))"

text \<open>\<^verbatim>\<open>PEXPIRE\<close>: sets the expiry of a live key and does nothing to an absent one.\<close>

definition pexpire :: "int \<Rightarrow> int \<Rightarrow> 'v cell \<Rightarrow> 'v cell" where
  "pexpire t ttl c =
     (case c of
        None \<Rightarrow> None
      | Some (v, e) \<Rightarrow> if expired t e then None else Some (v, Some (t + ttl)))"

lemma expired_None [simp]: "\<not> expired t None"
  by (simp add: expired_def)

lemma expired_Some [simp]: "expired t (Some x) \<longleftrightarrow> x \<le> t"
  by (simp add: expired_def)

lemma expired_mono: "expired t e \<Longrightarrow> t \<le> t' \<Longrightarrow> expired t' e"
  by (cases e) simp_all

lemma get_live_None [cell_simps]: "get_live t None = None"
  by (simp add: get_live_def)

lemma get_live_Some [cell_simps]:
  "get_live t (Some (v, e)) = (if expired t e then None else Some v)"
  by (simp add: get_live_def)

lemma get_live_put_fields [cell_simps]:
  "get_live t (put_fields t z f c) =
     Some (f (case get_live t c of None \<Rightarrow> z | Some v \<Rightarrow> v))"
  by (auto simp: put_fields_def get_live_def split: option.splits)

lemma get_live_pexpire [cell_simps]:
  "0 < ttl \<Longrightarrow> get_live t (pexpire t ttl c) = get_live t c"
  by (auto simp: pexpire_def get_live_def split: option.splits)

lemma get_live_pexpire_later:
  assumes "get_live t c = Some v" and "t \<le> t'" and "t' < t + ttl"
  shows "get_live t' (pexpire t ttl c) = Some v"
  using assms by (auto simp: pexpire_def get_live_def split: option.splits if_splits)

lemma get_live_mono:
  assumes "get_live t' c = Some v" and "t \<le> t'"
  shows "get_live t c = Some v"
  using assms expired_mono
  by (fastforce simp: get_live_def split: option.splits if_splits)

text \<open>A whole hash written and given a lifetime, as the scripts end.\<close>

lemma pexpire_put_const [cell_simps]:
  "pexpire t ttl (put_fields t z (\<lambda>_. v) c) = Some (v, Some (t + ttl))"
  by (auto simp: pexpire_def put_fields_def split: option.split)

text \<open>Comparing a clock difference with half a time to live, as the scripts do in Lua.\<close>

lemma half_less_of_int: "real_of_int a / 2 < real_of_int b \<longleftrightarrow> a < 2 * b"
  by linarith

section \<open>Results\<close>

text \<open>A step that may raise, and what is done with its value.\<close>

definition sum_bind :: "'e + 'a \<Rightarrow> ('a \<Rightarrow> 'e + 'b) \<Rightarrow> 'e + 'b" where
  "sum_bind r f = (case r of Inl e \<Rightarrow> Inl e | Inr a \<Rightarrow> f a)"

lemma sum_bind_simps [simp]: "sum_bind (Inr a) f = f a" "sum_bind (Inl e) f = Inl e"
  by (simp_all add: sum_bind_def)

section \<open>Stateful, fallible computations\<close>

text \<open>
  A procedure of the program maps the state of its world to a result or a raised exception,
  and to the state it leaves behind; the state survives an exception. \<^term>\<open>io_bind\<close> is
  sequencing (\<^verbatim>\<open>x = await m; f(x)\<close>) and \<^term>\<open>io_catch\<close> is \<^verbatim>\<open>try: m except e: h(e)\<close>, where
  \<open>h\<close> raises again what it does not handle.
\<close>

type_synonym ('w, 'a) io = "'w \<Rightarrow> (exc + 'a) \<times> 'w"

definition io_ret :: "'a \<Rightarrow> ('w, 'a) io" where
  "io_ret a = (\<lambda>w. (Inr a, w))"

definition io_raise :: "exc \<Rightarrow> ('w, 'a) io" where
  "io_raise e = (\<lambda>w. (Inl e, w))"

definition io_bind :: "('w, 'a) io \<Rightarrow> ('a \<Rightarrow> ('w, 'b) io) \<Rightarrow> ('w, 'b) io" where
  "io_bind m f =
     (\<lambda>w. case m w of (Inl e, w') \<Rightarrow> (Inl e, w') | (Inr a, w') \<Rightarrow> f a w')"

definition io_catch :: "('w, 'a) io \<Rightarrow> (exc \<Rightarrow> ('w, 'a) io) \<Rightarrow> ('w, 'a) io" where
  "io_catch m h =
     (\<lambda>w. case m w of (Inl e, w') \<Rightarrow> h e w' | (Inr a, w') \<Rightarrow> (Inr a, w'))"

definition io_seq :: "('w, 'a) io \<Rightarrow> ('w, 'b) io \<Rightarrow> ('w, 'b) io" where
  "io_seq m k = io_bind m (\<lambda>_. k)"

definition io_modify :: "('w \<Rightarrow> 'w) \<Rightarrow> ('w, unit) io" where
  "io_modify f = (\<lambda>w. (Inr (), f w))"

definition io_gets :: "('w \<Rightarrow> 'a) \<Rightarrow> ('w, 'a) io" where
  "io_gets f = (\<lambda>w. (Inr (f w), w))"

definition io_when :: "bool \<Rightarrow> ('w, unit) io \<Rightarrow> ('w, unit) io" where
  "io_when b m = (if b then m else io_ret ())"

text \<open>A \<^verbatim>\<open>for\<close> loop whose body awaits, collecting what each round returns.\<close>

fun io_mapM :: "('a \<Rightarrow> ('w, 'b) io) \<Rightarrow> 'a list \<Rightarrow> ('w, 'b list) io" where
  "io_mapM f [] = io_ret []"
| "io_mapM f (x # xs) = io_bind (f x) (\<lambda>y. io_bind (io_mapM f xs) (\<lambda>ys. io_ret (y # ys)))"

lemma io_ret_apply [io_simps]: "io_ret a w = (Inr a, w)"
  by (simp add: io_ret_def)

lemma io_raise_apply [io_simps]: "io_raise e w = (Inl e, w)"
  by (simp add: io_raise_def)

lemma io_bind_apply [io_simps]:
  "io_bind m f w = (case m w of (Inl e, w') \<Rightarrow> (Inl e, w') | (Inr a, w') \<Rightarrow> f a w')"
  by (simp add: io_bind_def)

lemma io_catch_apply [io_simps]:
  "io_catch m h w = (case m w of (Inl e, w') \<Rightarrow> h e w' | (Inr a, w') \<Rightarrow> (Inr a, w'))"
  by (simp add: io_catch_def)

lemma io_seq_apply [io_simps]:
  "io_seq m k w = (case m w of (Inl e, w') \<Rightarrow> (Inl e, w') | (Inr a, w') \<Rightarrow> k w')"
  by (simp add: io_seq_def io_bind_apply)

lemma io_modify_apply [io_simps]: "io_modify f w = (Inr (), f w)"
  by (simp add: io_modify_def)

lemma io_gets_apply [io_simps]: "io_gets f w = (Inr (f w), w)"
  by (simp add: io_gets_def)

lemma io_when_apply [io_simps]: "io_when b m w = (if b then m w else (Inr (), w))"
  by (simp add: io_when_def io_ret_apply)

text \<open>
  \<open>preserves I m\<close>: whatever \<open>m\<close> does, raising included, it keeps the invariant \<open>I\<close> of
  the world. The rules below compose, so an invariant of a whole procedure follows from the
  invariant of each operation it calls.
\<close>

definition preserves :: "('w \<Rightarrow> bool) \<Rightarrow> ('w, 'a) io \<Rightarrow> bool" where
  "preserves I m \<longleftrightarrow> (\<forall>w. I w \<longrightarrow> I (snd (m w)))"

lemma preservesD: "preserves I m \<Longrightarrow> I w \<Longrightarrow> I (snd (m w))"
  by (simp add: preserves_def)

lemma preserves_ret [intro]: "preserves I (io_ret a)"
  by (simp add: preserves_def io_simps)

lemma preserves_raise [intro]: "preserves I (io_raise e)"
  by (simp add: preserves_def io_simps)

lemma preserves_gets [intro]: "preserves I (io_gets f)"
  by (simp add: preserves_def io_simps)

lemma preserves_bind [intro]:
  assumes "preserves I m" and "\<And>a. preserves I (f a)"
  shows "preserves I (io_bind m f)"
proof (unfold preserves_def, intro allI impI)
  fix w assume "I w"
  then have "I (snd (m w))" by (rule preservesD [OF assms(1)])
  then show "I (snd (io_bind m f w))"
    using assms(2) by (cases "m w") (auto simp: io_simps preserves_def split: sum.split)
qed

lemma preserves_seq [intro]:
  "preserves I m \<Longrightarrow> preserves I k \<Longrightarrow> preserves I (io_seq m k)"
  unfolding io_seq_def by (rule preserves_bind)

lemma preserves_catch [intro]:
  assumes "preserves I m" and "\<And>e. preserves I (h e)"
  shows "preserves I (io_catch m h)"
proof (unfold preserves_def, intro allI impI)
  fix w assume "I w"
  then have "I (snd (m w))" by (rule preservesD [OF assms(1)])
  then show "I (snd (io_catch m h w))"
    using assms(2) by (cases "m w") (auto simp: io_simps preserves_def split: sum.split)
qed

lemma preserves_when [intro]: "preserves I m \<Longrightarrow> preserves I (io_when b m)"
  by (auto simp: preserves_def io_simps)

lemma preserves_if [intro]:
  "(b \<Longrightarrow> preserves I m) \<Longrightarrow> (\<not> b \<Longrightarrow> preserves I k) \<Longrightarrow>
   preserves I (if b then m else k)"
  by simp

lemma preserves_modify [intro]: "(\<And>w. I w \<Longrightarrow> I (f w)) \<Longrightarrow> preserves I (io_modify f)"
  by (simp add: preserves_def io_simps)

lemma preserves_option [intro]:
  "(x = None \<Longrightarrow> preserves I m) \<Longrightarrow> (\<And>a. x = Some a \<Longrightarrow> preserves I (k a)) \<Longrightarrow>
   preserves I (case x of None \<Rightarrow> m | Some a \<Rightarrow> k a)"
  by (cases x) simp_all

lemma preserves_sum [intro]:
  "(\<And>a. x = Inl a \<Longrightarrow> preserves I (m a)) \<Longrightarrow> (\<And>a. x = Inr a \<Longrightarrow> preserves I (k a)) \<Longrightarrow>
   preserves I (case x of Inl a \<Rightarrow> m a | Inr a \<Rightarrow> k a)"
  by (cases x) simp_all

lemma preserves_prod [intro]:
  "(\<And>a b. x = (a, b) \<Longrightarrow> preserves I (m a b)) \<Longrightarrow> preserves I (case x of (a, b) \<Rightarrow> m a b)"
  by (cases x) simp_all

lemma preserves_mapM [intro]: "(\<And>x. x \<in> set xs \<Longrightarrow> preserves I (f x)) \<Longrightarrow> preserves I (io_mapM f xs)"
proof (induction xs)
  case (Cons x xs)
  then show ?case by (auto intro!: preserves_bind preserves_ret)
qed (simp add: preserves_ret)

lemmas preserves_rules = preserves_ret preserves_raise preserves_gets preserves_bind preserves_seq
  preserves_catch preserves_when preserves_if preserves_modify preserves_option preserves_sum
  preserves_prod preserves_mapM

text \<open>\<open>wp m Q w\<close>: run from \<open>w\<close>, \<open>m\<close> ends with a result and a world that satisfy \<open>Q\<close>.\<close>

definition wp :: "('w, 'a) io \<Rightarrow> (exc + 'a \<Rightarrow> 'w \<Rightarrow> bool) \<Rightarrow> 'w \<Rightarrow> bool" where
  "wp m Q w \<longleftrightarrow> Q (fst (m w)) (snd (m w))"

lemma wpD: "wp m Q w \<Longrightarrow> m w = (r, w') \<Longrightarrow> Q r w'"
  by (simp add: wp_def)

lemma wp_mono: "wp m P w \<Longrightarrow> (\<And>r w'. P r w' \<Longrightarrow> Q r w') \<Longrightarrow> wp m Q w"
  by (simp add: wp_def)

lemma wp_ret [wp_simps]: "wp (io_ret a) Q w \<longleftrightarrow> Q (Inr a) w"
  by (simp add: wp_def io_simps)

lemma wp_raise [wp_simps]: "wp (io_raise e) Q w \<longleftrightarrow> Q (Inl e) w"
  by (simp add: wp_def io_simps)

lemma wp_bind [wp_simps]:
  "wp (io_bind m f) Q w \<longleftrightarrow> wp m (\<lambda>r w'. case r of Inl e \<Rightarrow> Q (Inl e) w' | Inr a \<Rightarrow> wp (f a) Q w') w"
  by (cases "m w") (auto simp: wp_def io_simps split: sum.split)

lemma wp_seq [wp_simps]:
  "wp (io_seq m k) Q w \<longleftrightarrow> wp m (\<lambda>r w'. case r of Inl e \<Rightarrow> Q (Inl e) w' | Inr a \<Rightarrow> wp k Q w') w"
  by (simp add: io_seq_def wp_bind)

lemma wp_catch [wp_simps]:
  "wp (io_catch m h) Q w \<longleftrightarrow> wp m (\<lambda>r w'. case r of Inl e \<Rightarrow> wp (h e) Q w' | Inr a \<Rightarrow> Q (Inr a) w') w"
  by (cases "m w") (auto simp: wp_def io_simps split: sum.split)

text \<open>
  \<open>guarantees R m\<close>: whatever \<open>m\<close> does, raising included, the worlds before and after are related
  by \<open>R\<close>. For a reflexive and transitive \<open>R\<close> the rules compose like those of \<^const>\<open>preserves\<close>.
\<close>

definition guarantees :: "('w \<Rightarrow> 'w \<Rightarrow> bool) \<Rightarrow> ('w, 'a) io \<Rightarrow> bool" where
  "guarantees R m \<longleftrightarrow> (\<forall>w. R w (snd (m w)))"

lemma guaranteesD: "guarantees R m \<Longrightarrow> m w = (r, w') \<Longrightarrow> R w w'"
  unfolding guarantees_def by (metis snd_conv)

locale world_order =
  fixes R :: "'w \<Rightarrow> 'w \<Rightarrow> bool"
  assumes refl: "R w w" and trans: "R a b \<Longrightarrow> R b c \<Longrightarrow> R a c"
begin

lemma g_ret: "guarantees R (io_ret a)" and g_raise: "guarantees R (io_raise e)"
  and g_gets: "guarantees R (io_gets f)"
  by (simp_all add: guarantees_def io_simps refl)

lemma g_bind:
  assumes "guarantees R m" and "\<And>a. guarantees R (f a)"
  shows "guarantees R (io_bind m f)"
proof (unfold guarantees_def, intro allI)
  fix w
  have "R w (snd (m w))" using assms(1) by (simp add: guarantees_def)
  then show "R w (snd (io_bind m f w))"
    using assms(2) trans by (cases "m w") (auto simp: io_simps guarantees_def split: sum.split)
qed

lemma g_seq: "guarantees R m \<Longrightarrow> guarantees R k \<Longrightarrow> guarantees R (io_seq m k)"
  unfolding io_seq_def by (rule g_bind)

lemma g_catch:
  assumes "guarantees R m" and "\<And>e. guarantees R (h e)"
  shows "guarantees R (io_catch m h)"
proof (unfold guarantees_def, intro allI)
  fix w
  have "R w (snd (m w))" using assms(1) by (simp add: guarantees_def)
  then show "R w (snd (io_catch m h w))"
    using assms(2) trans by (cases "m w") (auto simp: io_simps guarantees_def split: sum.split)
qed

lemma g_when: "guarantees R m \<Longrightarrow> guarantees R (io_when b m)"
  by (auto simp: guarantees_def io_simps refl)

lemma g_if: "(b \<Longrightarrow> guarantees R m) \<Longrightarrow> (\<not> b \<Longrightarrow> guarantees R k) \<Longrightarrow> guarantees R (if b then m else k)"
  by simp

lemma g_modify: "(\<And>w. R w (f w)) \<Longrightarrow> guarantees R (io_modify f)"
  by (simp add: guarantees_def io_simps)

lemma g_option:
  "(x = None \<Longrightarrow> guarantees R m) \<Longrightarrow> (\<And>a. x = Some a \<Longrightarrow> guarantees R (k a)) \<Longrightarrow>
   guarantees R (case x of None \<Rightarrow> m | Some a \<Rightarrow> k a)"
  by (cases x) simp_all

lemma g_sum:
  "(\<And>a. x = Inl a \<Longrightarrow> guarantees R (m a)) \<Longrightarrow> (\<And>a. x = Inr a \<Longrightarrow> guarantees R (k a)) \<Longrightarrow>
   guarantees R (case x of Inl a \<Rightarrow> m a | Inr a \<Rightarrow> k a)"
  by (cases x) simp_all

text \<open>The same from an earlier world \<open>a\<close>.\<close>

lemma rel_catch:
  assumes "R a (snd (m w))" and "\<And>e. guarantees R (h e)"
  shows "R a (snd (io_catch m h w))"
  using assms trans by (cases "m w") (auto simp: io_simps guarantees_def split: sum.split)

lemma rel_seq:
  assumes "R a (snd (m w))" and "guarantees R k"
  shows "R a (snd (io_seq m k w))"
  using assms trans by (cases "m w") (auto simp: io_simps guarantees_def split: sum.split)

lemmas g_rules = g_ret g_raise g_gets g_bind g_seq g_catch g_when g_if g_modify g_option g_sum

end

end
