(* ===== verification/Page_State.thy ===== *)
theory Page_State
  imports Orch_Prelude
begin

text \<open>
  The page state machine and its store, \<^verbatim>\<open>src/app/queue/state.py\<close>: the transition table and
  what is derived from it, the compare-and-set script \<^verbatim>\<open>_TRANSITION_LUA\<close> on the page hash and
  the job hash, and the operations of \<^verbatim>\<open>PageStateStore\<close>.

  The two hashes are records with one field per hash field the program names; a field that may
  be absent is an \<^typ>\<open>'a option\<close>. The result fields a transition writes beside the state
  (\<^verbatim>\<open>layout\<close>, \<^verbatim>\<open>vlm\<close>, \<^verbatim>\<open>confidence\<close>, \<^verbatim>\<open>degraded\<close>, \<^verbatim>\<open>fallback_reason\<close>, \<^verbatim>\<open>error\<close>) are the
  map \<open>ph_fields\<close>. Keys are the pair (job, page index) and the job id; \<open>page_key\<close> and
  \<open>job_key\<close> give the key strings, and no two of them clash on ids without a colon
  (\<open>page_key_inj\<close>, \<open>job_key_no_page\<close>).
\<close>

section \<open>The transition table\<close>

datatype page_state =
    PENDING
  | LAYOUT_RUNNING
  | LAYOUT_DONE
  | VLM_RUNNING
  | DONE
  | FALLBACK_DONE
  | FAILED

datatype job_state = JOB_INGESTING | JOB_RUNNING | JOB_COMPLETE | JOB_FAILED

text \<open>The order in which Python iterates over the members of \<^verbatim>\<open>PageState\<close>.\<close>

definition all_page_states :: "page_state list" where
  "all_page_states =
     [PENDING, LAYOUT_RUNNING, LAYOUT_DONE, VLM_RUNNING, DONE, FALLBACK_DONE, FAILED]"

instantiation page_state :: enum
begin

definition enum_page_state_def: "enum_class.enum = all_page_states"

definition enum_all_page_state_def: "enum_class.enum_all P = list_all P all_page_states"

definition enum_ex_page_state_def: "enum_class.enum_ex P = list_ex P all_page_states"

instance
proof
  have univ: "x \<in> set all_page_states" for x
    by (cases x) (simp_all add: all_page_states_def)
  then show "UNIV = set (enum_class.enum :: page_state list)"
    by (auto simp: enum_page_state_def)
  show "distinct (enum_class.enum :: page_state list)"
    by (simp add: enum_page_state_def all_page_states_def)
  show "enum_class.enum_all P \<longleftrightarrow> Ball UNIV P" for P :: "page_state \<Rightarrow> bool"
    using univ by (auto simp: enum_all_page_state_def list_all_iff)
  show "enum_class.enum_ex P \<longleftrightarrow> Bex UNIV P" for P :: "page_state \<Rightarrow> bool"
    using univ by (auto simp: enum_ex_page_state_def list_ex_iff)
qed

end

fun state_value :: "page_state \<Rightarrow> string" where
  "state_value PENDING = ''PENDING''"
| "state_value LAYOUT_RUNNING = ''LAYOUT_RUNNING''"
| "state_value LAYOUT_DONE = ''LAYOUT_DONE''"
| "state_value VLM_RUNNING = ''VLM_RUNNING''"
| "state_value DONE = ''DONE''"
| "state_value FALLBACK_DONE = ''FALLBACK_DONE''"
| "state_value FAILED = ''FAILED''"

fun TRANSITIONS :: "page_state \<Rightarrow> page_state set" where
  "TRANSITIONS PENDING = {LAYOUT_RUNNING, FAILED}"
| "TRANSITIONS LAYOUT_RUNNING = {LAYOUT_DONE, PENDING, FAILED}"
| "TRANSITIONS LAYOUT_DONE = {VLM_RUNNING, FALLBACK_DONE}"
| "TRANSITIONS VLM_RUNNING = {DONE, LAYOUT_DONE, FALLBACK_DONE, FAILED}"
| "TRANSITIONS DONE = {}"
| "TRANSITIONS FALLBACK_DONE = {}"
| "TRANSITIONS FAILED = {}"

definition TERMINAL_STATES :: "page_state list" where
  "TERMINAL_STATES = filter (\<lambda>s. TRANSITIONS s = {}) all_page_states"

definition RUNNING_STATES :: "page_state list" where
  "RUNNING_STATES = [LAYOUT_RUNNING, VLM_RUNNING]"

text \<open>\<^verbatim>\<open>RECLAIM_TARGET[s]\<close>; \<^const>\<open>None\<close> where the lookup raises \<^verbatim>\<open>KeyError\<close>.\<close>

fun RECLAIM_TARGET :: "page_state \<Rightarrow> page_state option" where
  "RECLAIM_TARGET LAYOUT_RUNNING = Some PENDING"
| "RECLAIM_TARGET VLM_RUNNING = Some LAYOUT_DONE"
| "RECLAIM_TARGET _ = None"

definition PREDECESSORS :: "page_state \<Rightarrow> page_state list" where
  "PREDECESSORS target = filter (\<lambda>src. target \<in> TRANSITIONS src) all_page_states"

definition can_transition :: "page_state \<Rightarrow> page_state \<Rightarrow> bool" where
  "can_transition src dst \<longleftrightarrow> dst \<in> TRANSITIONS src"

section \<open>The hashes and the store\<close>

record page_hash =
  ph_page_index :: "int option"
  ph_state :: "page_state option"
  ph_attempts :: "int option"
  ph_updated_at :: "int option"
  ph_fields :: "string \<Rightarrow> field_value option"

definition empty_page :: page_hash where
  "empty_page = \<lparr>ph_page_index = None, ph_state = None, ph_attempts = None,
     ph_updated_at = None, ph_fields = (\<lambda>_. None)\<rparr>"

record job_hash =
  jh_job_id :: "string option"
  jh_total_pages :: "int option"
  jh_done_count :: "int option"
  jh_state :: "job_state option"
  jh_created_at :: "int option"
  jh_pages_renewed_at :: "int option"
  jh_meta :: "string \<Rightarrow> string option"

definition empty_job :: job_hash where
  "empty_job = \<lparr>jh_job_id = None, jh_total_pages = None, jh_done_count = None, jh_state = None,
     jh_created_at = None, jh_pages_renewed_at = None, jh_meta = (\<lambda>_. None)\<rparr>"

record store =
  st_pages :: "string \<times> int \<Rightarrow> page_hash cell"
  st_jobs :: "string \<Rightarrow> job_hash cell"

definition empty_store :: store where
  "empty_store = \<lparr>st_pages = (\<lambda>_. None), st_jobs = (\<lambda>_. None)\<rparr>"

text \<open>\<^verbatim>\<open>tonumber(redis.call('HGET', key, field)) or d\<close>.\<close>

definition hget_or :: "('h \<Rightarrow> int option) \<Rightarrow> int \<Rightarrow> 'h option \<Rightarrow> int" where
  "hget_or f d h = (case h of None \<Rightarrow> d | Some v \<Rightarrow> (case f v of None \<Rightarrow> d | Some n \<Rightarrow> n))"

text \<open>The keys as strings.\<close>

definition job_key :: "string \<Rightarrow> string" where "job_key job = ''job:'' @ job"

definition page_key :: "string \<Rightarrow> int \<Rightarrow> string" where
  "page_key job page_index = ''job:'' @ job @ '':page:'' @ str_int page_index"

section \<open>The compare-and-set script\<close>

record lua_reply =
  lr_ok :: bool
  lr_observed :: "page_state option"
  lr_done :: int
  lr_total :: int
  lr_sweep :: int

definition write_fields :: "(string \<times> field_value) list \<Rightarrow> page_hash \<Rightarrow> page_hash" where
  "write_fields fvs h = fold (\<lambda>(k, v) g. g\<lparr>ph_fields := (ph_fields g)(k \<mapsto> v)\<rparr>) fvs h"

text \<open>
  \<open>transition_lua t new_state now terminal ttl_ms allowed fvs page job\<close>: \<open>t\<close> is the clock
  of the Redis server, which decides expiry; \<open>now\<close> is the caller's clock, \<^verbatim>\<open>ARGV[2]\<close>. The
  reply \<^verbatim>\<open>'MISSING'\<close> is the observed state \<^const>\<open>None\<close>.
\<close>

definition transition_lua ::
  "int \<Rightarrow> page_state \<Rightarrow> int \<Rightarrow> bool \<Rightarrow> int \<Rightarrow> page_state list \<Rightarrow> (string \<times> field_value) list
   \<Rightarrow> page_hash cell \<Rightarrow> job_hash cell \<Rightarrow> lua_reply \<times> page_hash cell \<times> job_hash cell" where
  "transition_lua t new_state now terminal ttl_ms allowed fvs page job =
     (case Option.bind (get_live t page) ph_state of
        None \<Rightarrow> (\<lparr>lr_ok = False, lr_observed = None, lr_done = -1, lr_total = -1, lr_sweep = 0\<rparr>,
                 page, job)
      | Some current \<Rightarrow>
          if current \<notin> set allowed
          then (\<lparr>lr_ok = False, lr_observed = Some current, lr_done = -1, lr_total = -1,
                 lr_sweep = 0\<rparr>, page, job)
          else
            let page1 = put_fields t empty_page
                          (\<lambda>h. h\<lparr>ph_state := Some new_state, ph_updated_at := Some now\<rparr>) page;
                page2 = put_fields t empty_page (write_fields fvs) page1;
                page3 = pexpire t ttl_ms page2;
                job1 = pexpire t ttl_ms job;
                last_sweep = hget_or jh_pages_renewed_at 0 (get_live t job1);
                stale = (real_of_int (now - last_sweep) > real_of_int ttl_ms / 2);
                sweep = (if stale then hget_or jh_total_pages 0 (get_live t job1) else 0);
                job2 = (if stale
                        then put_fields t empty_job (\<lambda>j. j\<lparr>jh_pages_renewed_at := Some now\<rparr>) job1
                        else job1);
                done_n = (if terminal then hget_or jh_done_count 0 (get_live t job2) + 1 else -1);
                job3 = (if terminal
                        then put_fields t empty_job (\<lambda>j. j\<lparr>jh_done_count := Some done_n\<rparr>) job2
                        else job2);
                tot = (if terminal then hget_or jh_total_pages (-1) (get_live t job3) else -1)
            in (\<lparr>lr_ok = True, lr_observed = Some new_state, lr_done = done_n, lr_total = tot,
                 lr_sweep = sweep\<rparr>, page3, job3))"

section \<open>The store's operations\<close>

record transition_result =
  tr_ok :: bool
  tr_observed :: "page_state option"
  tr_done_count :: int
  tr_total_pages :: int
  tr_requested :: page_state

definition already_applied :: "transition_result \<Rightarrow> bool" where
  "already_applied r \<longleftrightarrow> \<not> tr_ok r \<and> tr_observed r = Some (tr_requested r)"

definition tr_missing :: "transition_result \<Rightarrow> bool" where
  "tr_missing r \<longleftrightarrow> tr_observed r = None"

definition completed_job :: "transition_result \<Rightarrow> bool" where
  "completed_job r \<longleftrightarrow> tr_ok r \<and> 0 < tr_total_pages r \<and> tr_total_pages r \<le> tr_done_count r"

text \<open>
  \<^verbatim>\<open>_renew_job_pages\<close> pipelines one \<^verbatim>\<open>PEXPIRE\<close> per page and swallows a failure, so any prefix
  of them may have reached the server: \<open>swept\<close> is its length, at least \<open>tot\<close> when nothing
  failed.
\<close>

definition renew_job_pages :: "int \<Rightarrow> int \<Rightarrow> int \<Rightarrow> string \<Rightarrow> int \<Rightarrow> store \<Rightarrow> store" where
  "renew_job_pages t ttl_s swept job tot s =
     s\<lparr>st_pages := (\<lambda>(j, i).
        if j = job \<and> 0 \<le> i \<and> i < tot \<and> i < swept
        then pexpire t (ttl_s * 1000) (st_pages s (j, i)) else st_pages s (j, i))\<rparr>"

definition init_job ::
  "int \<Rightarrow> int \<Rightarrow> int \<Rightarrow> string \<Rightarrow> int \<Rightarrow> (string \<times> string) list \<Rightarrow> store \<Rightarrow> store" where
  "init_job t now ttl_s job tot meta s =
     s\<lparr>st_jobs := (st_jobs s)(job :=
          pexpire t (ttl_s * 1000) (put_fields t empty_job
            (\<lambda>h. h\<lparr>jh_job_id := Some job, jh_total_pages := Some tot, jh_done_count := Some 0,
                   jh_state := Some JOB_RUNNING, jh_created_at := Some now,
                   jh_pages_renewed_at := Some now, jh_meta := jh_meta h ++ map_of (rev meta)\<rparr>)
            (st_jobs s job))),
       st_pages := (\<lambda>(j, i).
          if j = job \<and> 0 \<le> i \<and> i < tot
          then pexpire t (ttl_s * 1000) (put_fields t empty_page
                 (\<lambda>h. h\<lparr>ph_page_index := Some i, ph_state := Some PENDING,
                        ph_attempts := Some 0, ph_updated_at := Some now\<rparr>)
                 (st_pages s (j, i)))
          else st_pages s (j, i))\<rparr>"

text \<open>\<^const>\<open>None\<close> is the \<^verbatim>\<open>ValueError\<close> raised for an empty set of source states.\<close>

definition transition ::
  "int \<Rightarrow> int \<Rightarrow> int \<Rightarrow> int \<Rightarrow> string \<Rightarrow> int \<Rightarrow> page_state \<Rightarrow> page_state list option
   \<Rightarrow> (string \<times> field_value) list \<Rightarrow> store \<Rightarrow> (transition_result \<times> store) option" where
  "transition t now ttl_s swept job page_index to allowed_from fvs s =
     (let sources = (case allowed_from of Some xs \<Rightarrow> xs | None \<Rightarrow> PREDECESSORS to)
      in if sources = [] then None
         else
           let (reply, page, jobh) = transition_lua t to now (to \<in> set TERMINAL_STATES)
                 (ttl_s * 1000) sources fvs (st_pages s (job, page_index)) (st_jobs s job);
               s1 = s\<lparr>st_pages := (st_pages s)((job, page_index) := page),
                      st_jobs := (st_jobs s)(job := jobh)\<rparr>;
               s2 = (if lr_sweep reply > 0
                     then renew_job_pages t ttl_s swept job (lr_sweep reply) s1 else s1)
           in Some (\<lparr>tr_ok = lr_ok reply, tr_observed = lr_observed reply,
                     tr_done_count = lr_done reply, tr_total_pages = lr_total reply,
                     tr_requested = to\<rparr>, s2))"

definition bump_attempts :: "int \<Rightarrow> string \<Rightarrow> int \<Rightarrow> store \<Rightarrow> int \<times> store" where
  "bump_attempts t job page_index s =
     (let c = st_pages s (job, page_index);
          n = hget_or ph_attempts 0 (get_live t c) + 1
      in (n, s\<lparr>st_pages := (st_pages s)((job, page_index) :=
                 put_fields t empty_page (\<lambda>h. h\<lparr>ph_attempts := Some n\<rparr>) c)\<rparr>))"

definition get_page :: "int \<Rightarrow> string \<Rightarrow> int \<Rightarrow> store \<Rightarrow> page_hash option" where
  "get_page t job page_index s = get_live t (st_pages s (job, page_index))"

definition get_job :: "int \<Rightarrow> string \<Rightarrow> store \<Rightarrow> job_hash option" where
  "get_job t job s = get_live t (st_jobs s job)"

definition progress :: "int \<Rightarrow> string \<Rightarrow> store \<Rightarrow> int \<times> int" where
  "progress t job s =
     (hget_or jh_done_count 0 (get_job t job s), hget_or jh_total_pages 0 (get_job t job s))"

definition page_states :: "int \<Rightarrow> string \<Rightarrow> int \<Rightarrow> store \<Rightarrow> page_state option list" where
  "page_states t job tot s =
     map (\<lambda>i. Option.bind (get_page t job i s) ph_state) [0..tot - 1]"

section \<open>Facts about the keys\<close>

lemma colon_not_in_str_int: "CHR '':'' \<notin> set (str_int n)"
proof -
  have "\<not> is_digit (CHR '':'')" by (simp add: is_digit_def)
  then have "CHR '':'' \<notin> set (str_nat m)" for m using str_nat_digits [of m] by (auto simp: list_all_iff)
  then show ?thesis by (simp add: str_int_def)
qed

lemma split_first: "c \<notin> set a \<Longrightarrow> c \<notin> set a' \<Longrightarrow> a @ c # b = a' @ c # b' \<Longrightarrow> a = a' \<and> b = b'"
proof (induction a arbitrary: a')
  case (Cons x a)
  then show ?case by (cases a') auto
qed (auto simp: Cons_eq_append_conv)

lemma split_last:
  assumes "c \<notin> set b" "c \<notin> set d" "a @ c # b = a' @ c # d"
  shows "a = a' \<and> b = d"
  using split_first [of c "rev b" "rev d" "rev a" "rev a'"] arg_cong [OF assms(3), of rev] assms(1,2) by simp

text \<open>The pair of a job and a page index names the page's key, and no job without a colon in its id has the key of a page.\<close>

lemma page_key_inj: "page_key j i = page_key j' i' \<longleftrightarrow> j = j' \<and> i = i'"
proof
  assume "page_key j i = page_key j' i'"
  then have "(j @ '':page'') @ CHR '':'' # str_int i = (j' @ '':page'') @ CHR '':'' # str_int i'" by (simp add: page_key_def)
  then have "j @ '':page'' = j' @ '':page'' \<and> str_int i = str_int i'" by (rule split_last [OF colon_not_in_str_int colon_not_in_str_int])
  then have "j = j'" "str_int i = str_int i'" by simp_all
  then show "j = j' \<and> i = i'" using py_int_str_int by (metis option.inject)
qed simp

lemma job_key_inj: "job_key j = job_key j' \<longleftrightarrow> j = j'"
  and job_key_no_page: "CHR '':'' \<notin> set j \<Longrightarrow> job_key j \<noteq> page_key j' i"
  by (auto simp: job_key_def page_key_def)
section \<open>Facts about the table\<close>

lemma set_TERMINAL_STATES [simp]: "set TERMINAL_STATES = {DONE, FALLBACK_DONE, FAILED}"
  by (auto simp: TERMINAL_STATES_def all_page_states_def)

lemma set_RUNNING_STATES [simp]: "set RUNNING_STATES = {LAYOUT_RUNNING, VLM_RUNNING}"
  by (simp add: RUNNING_STATES_def)

lemma PREDECESSORS_iff: "src \<in> set (PREDECESSORS dst) \<longleftrightarrow> can_transition src dst"
  by (cases src) (auto simp: PREDECESSORS_def can_transition_def all_page_states_def)

lemma PREDECESSORS_eval [simp]:
  "PREDECESSORS PENDING = [LAYOUT_RUNNING]"
  "PREDECESSORS LAYOUT_RUNNING = [PENDING]"
  "PREDECESSORS LAYOUT_DONE = [LAYOUT_RUNNING, VLM_RUNNING]"
  "PREDECESSORS VLM_RUNNING = [LAYOUT_DONE]"
  "PREDECESSORS DONE = [VLM_RUNNING]"
  "PREDECESSORS FALLBACK_DONE = [LAYOUT_DONE, VLM_RUNNING]"
  "PREDECESSORS FAILED = [PENDING, LAYOUT_RUNNING, VLM_RUNNING]"
  by (simp_all add: PREDECESSORS_def all_page_states_def)

lemma PREDECESSORS_nonempty [simp]: "PREDECESSORS to \<noteq> []"
  by (cases to) simp_all

lemma terminal_not_predecessor: "s \<in> set TERMINAL_STATES \<Longrightarrow> s \<notin> set (PREDECESSORS dst)"
  by (cases dst) auto

section \<open>One transition\<close>

text \<open>The state a caller observes: absent for a missing or expired page hash.\<close>

definition page_st :: "int \<Rightarrow> store \<Rightarrow> string \<Rightarrow> int \<Rightarrow> page_state option" where
  "page_st t s job i = Option.bind (get_page t job i s) ph_state"

definition sources_of :: "page_state list option \<Rightarrow> page_state \<Rightarrow> page_state list" where
  "sources_of allowed to = (case allowed of Some xs \<Rightarrow> xs | None \<Rightarrow> PREDECESSORS to)"

lemma sources_of_simps [simp]:
  "sources_of None to = PREDECESSORS to"
  "sources_of (Some xs) to = xs"
  by (simp_all add: sources_of_def)

lemma transition_lua_reject:
  assumes "case Option.bind (get_live t page) ph_state of None \<Rightarrow> True | Some c \<Rightarrow> c \<notin> set allowed"
  shows "transition_lua t new_state now tm ttl_ms allowed fvs page job =
     (\<lparr>lr_ok = False, lr_observed = Option.bind (get_live t page) ph_state,
       lr_done = -1, lr_total = -1, lr_sweep = 0\<rparr>, page, job)"
  using assms by (auto simp: transition_lua_def split: option.splits)

lemma transition_lua_accept:
  assumes "get_live t page = Some h" and "ph_state h = Some c" and "c \<in> set allowed"
  shows "lr_ok (fst (transition_lua t new_state now tm ttl_ms allowed fvs page job))"
    and "lr_observed (fst (transition_lua t new_state now tm ttl_ms allowed fvs page job))
          = Some new_state"
    and "fst (snd (transition_lua t new_state now tm ttl_ms allowed fvs page job)) =
          Some (write_fields fvs
            (h\<lparr>ph_state := Some new_state, ph_updated_at := Some now\<rparr>), Some (t + ttl_ms))"
proof -
  obtain e where page: "page = Some (h, e)" and live: "\<not> expired t e"
    using assms(1) by (auto simp: get_live_def split: option.splits if_splits)
  show "lr_ok (fst (transition_lua t new_state now tm ttl_ms allowed fvs page job))"
    and "lr_observed (fst (transition_lua t new_state now tm ttl_ms allowed fvs page job))
          = Some new_state"
    and "fst (snd (transition_lua t new_state now tm ttl_ms allowed fvs page job)) =
          Some (write_fields fvs
            (h\<lparr>ph_state := Some new_state, ph_updated_at := Some now\<rparr>), Some (t + ttl_ms))"
    using assms(2,3) live
    by (simp_all add: transition_lua_def page cell_simps Let_def put_fields_def pexpire_def)
qed

lemma ph_state_write_fields [simp]: "ph_state (write_fields fvs h) = ph_state h"
  unfolding write_fields_def
  by (induction fvs arbitrary: h) (auto split: prod.split)

lemma ph_fields_write_fields: "ph_fields (write_fields fvs h) = ph_fields h ++ map_of (rev fvs)"
  unfolding write_fields_def
proof (induction fvs arbitrary: h)
  case (Cons kv fvs)
  then show ?case
    by (cases kv) (auto simp: map_add_def fun_eq_iff split: option.split)
qed simp

lemma transition_None_iff: "transition t now ttl sw job i to al fvs s = None \<longleftrightarrow> al = Some []"
  by (auto simp: transition_def Let_def split: option.splits prod.splits)

lemma transition_reject:
  assumes "sources_of al to \<noteq> []"
    and "case page_st t s job i of None \<Rightarrow> True | Some c \<Rightarrow> c \<notin> set (sources_of al to)"
  shows "transition t now ttl sw job i to al fvs s =
     Some (\<lparr>tr_ok = False, tr_observed = page_st t s job i, tr_done_count = -1,
            tr_total_pages = -1, tr_requested = to\<rparr>, s)"
  using assms
  by (auto simp: transition_def sources_of_def page_st_def get_page_def transition_lua_reject
      Let_def split: option.splits)

lemma transition_accept:
  assumes "page_st t s job i = Some c" and "c \<in> set (sources_of al to)" and "0 < ttl"
  obtains r s' where "transition t now ttl sw job i to al fvs s = Some (r, s')"
    and "tr_ok r" and "tr_observed r = Some to" and "tr_requested r = to"
    and "page_st t s' job i = Some to"
    and "\<exists>h h'. get_page t job i s = Some h \<and> get_page t job i s' = Some h'
           \<and> ph_fields h' = ph_fields h ++ map_of (rev fvs)"
proof -
  obtain h where h: "get_live t (st_pages s (job, i)) = Some h" "ph_state h = Some c"
    using assms(1) by (auto simp: page_st_def get_page_def split: Option.bind_splits)
  obtain reply page jobh where lua:
    "transition_lua t to now (to \<in> set TERMINAL_STATES) (ttl * 1000) (sources_of al to) fvs
       (st_pages s (job, i)) (st_jobs s job) = (reply, page, jobh)"
    by (metis prod_cases3)
  note acc = transition_lua_accept [OF h assms(2), of to now "to \<in> set TERMINAL_STATES"
      "ttl * 1000" fvs "st_jobs s job", unfolded lua fst_conv snd_conv]
  let ?s1 = "s\<lparr>st_pages := (st_pages s)((job, i) := page),
               st_jobs := (st_jobs s)(job := jobh)\<rparr>"
  let ?s2 = "if lr_sweep reply > 0 then renew_job_pages t ttl sw job (lr_sweep reply) ?s1 else ?s1"
  let ?h' = "write_fields fvs (h\<lparr>ph_state := Some to, ph_updated_at := Some now\<rparr>)"
  have "sources_of al to \<noteq> []" using assms(2) by auto
  then have tr: "transition t now ttl sw job i to al fvs s =
      Some (\<lparr>tr_ok = lr_ok reply, tr_observed = lr_observed reply, tr_done_count = lr_done reply,
        tr_total_pages = lr_total reply, tr_requested = to\<rparr>, ?s2)"
    using lua by (simp add: transition_def sources_of_def Let_def)
  have page': "get_page t job i ?s2 = Some ?h'"
    using acc(3) assms(3)
    by (simp add: get_page_def renew_job_pages_def cell_simps pexpire_def)
  show thesis
  proof (rule that [OF tr])
    show "page_st t ?s2 job i = Some to"
      by (simp add: page_st_def page')
    show "\<exists>ha h'. get_page t job i s = Some ha \<and> get_page t job i ?s2 = Some h'
           \<and> ph_fields h' = ph_fields ha ++ map_of (rev fvs)"
      using h(1) page' by (auto simp: get_page_def ph_fields_write_fields)
  qed (use acc in simp_all)
qed

text \<open>
  The state recorded for a page, whether or not its key has expired, and what a transition
  does to the other keys: they keep their value, or are dropped if they had expired.
\<close>

definition raw_st :: "store \<Rightarrow> string \<times> int \<Rightarrow> page_state option" where
  "raw_st s k = (case st_pages s k of None \<Rightarrow> None | Some (h, _) \<Rightarrow> ph_state h)"

lemma page_st_raw: "page_st t s job i = Some c \<Longrightarrow> raw_st s (job, i) = Some c"
  by (auto simp: page_st_def get_page_def raw_st_def get_live_def
      split: option.splits if_splits Option.bind_splits)

lemma transition_frame:
  assumes "transition t now ttl sw job i to al fvs s = Some (r, s')" and "k \<noteq> (job, i)"
  shows "raw_st s' k = raw_st s k \<or> raw_st s' k = None"
    and "0 < ttl \<Longrightarrow> page_st t s' (fst k) (snd k) = page_st t s (fst k) (snd k)"
    and "j \<noteq> job \<Longrightarrow> st_jobs s' j = st_jobs s j"
  using assms
  by (auto simp: transition_def renew_job_pages_def raw_st_def pexpire_def page_st_def get_page_def
      get_live_def Let_def split: option.splits if_splits prod.splits)

lemma transition_commit_raw:
  assumes "transition t now ttl sw job i to al fvs s = Some (r, s')" and "tr_ok r"
  obtains c where "page_st t s job i = Some c" and "c \<in> set (sources_of al to)"
    and "raw_st s' (job, i) = Some to \<or> raw_st s' (job, i) = None"
proof -
  have src: "sources_of al to \<noteq> []"
    using assms(1) transition_None_iff [of t now ttl sw job i to al fvs s]
    by (auto simp: sources_of_def split: option.split)
  obtain c where c: "page_st t s job i = Some c" "c \<in> set (sources_of al to)"
  proof (cases "\<exists>c. page_st t s job i = Some c \<and> c \<in> set (sources_of al to)")
    case False
    then show ?thesis
      using transition_reject [OF src, of t s job i now ttl sw fvs] assms
      by (cases "page_st t s job i") auto
  qed (use that in blast)
  obtain h where h: "get_live t (st_pages s (job, i)) = Some h" "ph_state h = Some c"
    using c(1) by (auto simp: page_st_def get_page_def split: Option.bind_splits)
  show thesis
  proof (rule that [OF c])
    show "raw_st s' (job, i) = Some to \<or> raw_st s' (job, i) = None"
      using assms(1) transition_lua_accept(3) [OF h c(2), of to now
          "to \<in> set TERMINAL_STATES" "ttl * 1000" fvs "st_jobs s job"] src
      by (auto simp: transition_def renew_job_pages_def raw_st_def pexpire_def Let_def
          sources_of_def split: option.splits if_splits prod.splits)
  qed
qed

lemma transition_reject_same:
  "transition t now ttl sw job i to al fvs s = Some (r, s') \<Longrightarrow> \<not> tr_ok r \<Longrightarrow> s' = s"
  by (auto simp: transition_def transition_lua_def Let_def split: option.splits if_splits)

end
