(* ===== verification/Page_Protocol.thy ===== *)
theory Page_Protocol
  imports Page_State
begin

text \<open>
  What the compare-and-set gives its users, over whole sequences of transitions by any number
  of workers and reapers in any order: the interface \<open>cas_store\<close> and its interpretation on
  \<open>transition\<close>; the count of finished pages and the single report of completion
  (\<open>job_inv\<close>); and the renewal of expiry by progress.
\<close>

section \<open>The interface of a compare-and-set store\<close>

text \<open>Running a list of operations one after the other, keeping each one's verdict.\<close>

fun cas_run :: "('o \<Rightarrow> 's \<Rightarrow> bool \<times> 's) \<Rightarrow> 'o list \<Rightarrow> 's \<Rightarrow> bool list \<times> 's" where
  "cas_run cas [] s = ([], s)"
| "cas_run cas (a # as) s =
     (let (b, s') = cas a s; (bs, s'') = cas_run cas as s' in (b # bs, s''))"

locale cas_store =
  fixes obs :: "'s \<Rightarrow> 'k \<Rightarrow> page_state option"
    and key :: "'o \<Rightarrow> 'k"
    and tgt :: "'o \<Rightarrow> page_state"
    and srcs :: "'o \<Rightarrow> page_state list"
    and cas :: "'o \<Rightarrow> 's \<Rightarrow> bool \<times> 's"
  assumes commit: "cas a s = (True, s') \<Longrightarrow>
      (\<exists>c \<in> set (srcs a). obs s (key a) = Some c) \<and>
      (obs s' (key a) = Some (tgt a) \<or> obs s' (key a) = None)"
    and reject: "cas a s = (False, s') \<Longrightarrow> s' = s"
    and frame: "cas a s = (b, s') \<Longrightarrow> k \<noteq> key a \<Longrightarrow> obs s' k = obs s k \<or> obs s' k = None"
begin

text \<open>An operation is legal when it only accepts sources the table allows.\<close>

lemma step_settled:
  assumes "cas a s = (b, s')" and "set (srcs a) \<subseteq> set (PREDECESSORS (tgt a))"
    and "obs s k = None \<or> (\<exists>c. obs s k = Some c \<and> c \<in> set TERMINAL_STATES)"
  shows "obs s' k = obs s k \<or> obs s' k = None"
    and "key a = k \<Longrightarrow> \<not> b"
proof -
  show kb: "key a = k \<Longrightarrow> \<not> b"
  proof
    assume "key a = k" and b
    then obtain c where "c \<in> set (srcs a)" and "obs s k = Some c"
      using commit [of a s s'] assms(1) by auto
    then show False
      using assms(2,3) terminal_not_predecessor by auto
  qed
  show "obs s' k = obs s k \<or> obs s' k = None"
  proof (cases "key a = k")
    case True
    then have "s' = s" using kb reject assms(1) by (cases b) auto
    then show ?thesis by simp
  qed (use frame assms(1) in auto)
qed

text \<open>Once a page is terminal (or its key is gone) no later operation on it is accepted.\<close>

lemma run_settled:
  assumes "\<forall>a \<in> set as. set (srcs a) \<subseteq> set (PREDECESSORS (tgt a))"
    and "obs s k = None \<or> (\<exists>c. obs s k = Some c \<and> c \<in> set TERMINAL_STATES)"
    and "cas_run cas as s = (bs, s')"
  shows "(obs s' k = obs s k \<or> obs s' k = None) \<and>
         (\<forall>(a, b) \<in> set (zip as bs). key a = k \<longrightarrow> \<not> b)"
  using assms
proof (induction as arbitrary: s bs)
  case (Cons a as)
  obtain b s1 bs1 where st: "cas a s = (b, s1)" and rn: "cas_run cas as s1 = (bs1, s')"
    and bs: "bs = b # bs1"
    using Cons.prems(3) by (auto simp: Let_def split: prod.splits)
  have set1: "obs s1 k = obs s k \<or> obs s1 k = None" and nb: "key a = k \<Longrightarrow> \<not> b"
    using step_settled [OF st] Cons.prems(1,2) by auto
  from set1 Cons.prems(2)
  have "obs s1 k = None \<or> (\<exists>c. obs s1 k = Some c \<and> c \<in> set TERMINAL_STATES)"
    by auto
  from Cons.IH [OF _ this rn] Cons.prems(1) set1 nb show ?case
    by (auto simp: bs)
qed auto

text \<open>A page is finalised at most once in any run.\<close>

lemma final_at_most_once:
  assumes "\<forall>a \<in> set as. set (srcs a) \<subseteq> set (PREDECESSORS (tgt a))"
    and "cas_run cas as s = (bs, s')"
  shows "length (filter (\<lambda>(a, b). b \<and> key a = k \<and> tgt a \<in> set TERMINAL_STATES) (zip as bs)) \<le> 1"
  using assms
proof (induction as arbitrary: s bs)
  case (Cons a as)
  obtain b s1 bs1 where st: "cas a s = (b, s1)" and rn: "cas_run cas as s1 = (bs1, s')"
    and bs: "bs = b # bs1"
    using Cons.prems(2) by (auto simp: Let_def split: prod.splits)
  have ih: "length (filter (\<lambda>(a, b). b \<and> key a = k \<and> tgt a \<in> set TERMINAL_STATES)
      (zip as bs1)) \<le> 1"
    using Cons.IH [OF _ rn] Cons.prems(1) by simp
  show ?case
  proof (cases "b \<and> key a = k \<and> tgt a \<in> set TERMINAL_STATES")
    case True
    then have "obs s1 k = Some (tgt a) \<or> obs s1 k = None"
      using commit [of a s s1] st by auto
    then have "\<forall>(a, b) \<in> set (zip as bs1). key a = k \<longrightarrow> \<not> b"
      using run_settled [OF _ _ rn, of k] Cons.prems(1) True by auto
    then have "filter (\<lambda>(a, b). b \<and> key a = k \<and> tgt a \<in> set TERMINAL_STATES) (zip as bs1) = []"
      by (auto simp: filter_empty_conv)
    then show ?thesis by (simp add: bs)
  qed (use ih in \<open>auto simp: bs\<close>)
qed simp

text \<open>
  Claims exclude each other: after an accepted claim to \<open>c\<close> the same claim is refused until
  some operation has moved the page away from \<open>c\<close>.
\<close>

lemma claim_exclusive:
  assumes "cas a s = (True, s1)" and "tgt a \<notin> set (srcs a')" and "key a' = key a"
    and "cas_run cas as s1 = (bs, s2)"
    and "\<forall>(b, ok) \<in> set (zip as bs). key b = key a \<longrightarrow> \<not> ok"
  shows "\<not> fst (cas a' s2)"
proof -
  have keep: "obs s2 (key a) = obs s1 (key a) \<or> obs s2 (key a) = None"
    using assms(4,5)
  proof (induction as arbitrary: s1 bs)
    case (Cons b as)
    obtain ok s3 bs1 where st: "cas b s1 = (ok, s3)" and rn: "cas_run cas as s3 = (bs1, s2)"
      and bs: "bs = ok # bs1"
      using Cons.prems(1) by (auto simp: Let_def split: prod.splits)
    have "obs s3 (key a) = obs s1 (key a) \<or> obs s3 (key a) = None"
      using frame [OF st, of "key a"] reject [of b s1 s3] st Cons.prems(2)
      by (cases "key b = key a") (auto simp: bs)
    moreover have "obs s2 (key a) = obs s3 (key a) \<or> obs s2 (key a) = None"
      using Cons.IH [OF rn] Cons.prems(2) by (auto simp: bs)
    ultimately show ?case by auto
  qed simp
  have "obs s2 (key a) = Some (tgt a) \<or> obs s2 (key a) = None"
    using keep commit [OF assms(1)] by auto
  then show ?thesis
    using commit [of a' s2 "snd (cas a' s2)"] assms(2,3) by (cases "cas a' s2") auto
qed

end

section \<open>The page store is such a store\<close>

text \<open>
  One call of \<^verbatim>\<open>PageStateStore.transition\<close>, with the clocks it ran at. The store's \<^verbatim>\<open>ttl_s\<close> is
  fixed for the whole deployment.
\<close>

record store_op =
  so_t :: int
  so_now :: int
  so_swept :: int
  so_job :: string
  so_page :: int
  so_to :: page_state
  so_allowed :: "page_state list option"
  so_fields :: "(string \<times> field_value) list"

definition apply_op :: "int \<Rightarrow> store_op \<Rightarrow> store \<Rightarrow> (transition_result \<times> store) option" where
  "apply_op ttl_s a s =
     transition (so_t a) (so_now a) ttl_s (so_swept a) (so_job a) (so_page a) (so_to a)
       (so_allowed a) (so_fields a) s"

definition store_cas :: "int \<Rightarrow> store_op \<Rightarrow> store \<Rightarrow> bool \<times> store" where
  "store_cas ttl_s a s =
     (case apply_op ttl_s a s of None \<Rightarrow> (False, s) | Some (r, s') \<Rightarrow> (tr_ok r, s'))"

definition so_key :: "store_op \<Rightarrow> string \<times> int" where
  "so_key a = (so_job a, so_page a)"

definition so_srcs :: "store_op \<Rightarrow> page_state list" where
  "so_srcs a = sources_of (so_allowed a) (so_to a)"

definition legal_op :: "store_op \<Rightarrow> bool" where
  "legal_op a \<longleftrightarrow> so_srcs a \<noteq> [] \<and> set (so_srcs a) \<subseteq> set (PREDECESSORS (so_to a))"

lemma legal_op_default: "so_allowed a = None \<Longrightarrow> legal_op a"
  by (simp add: legal_op_def so_srcs_def)

lemma store_cas_cases:
  assumes "store_cas ttl_s a s = (b, s')"
  obtains "\<not> b" and "s' = s"
  | r where "apply_op ttl_s a s = Some (r, s')" and "b = tr_ok r"
  using assms by (auto simp: store_cas_def split: option.splits)

interpretation page_cas: cas_store raw_st so_key so_to so_srcs "store_cas ttl_s"
  for ttl_s :: int
proof unfold_locales
  fix a s s' b k
  show "(\<exists>c \<in> set (so_srcs a). raw_st s (so_key a) = Some c) \<and>
        (raw_st s' (so_key a) = Some (so_to a) \<or> raw_st s' (so_key a) = None)"
    if "store_cas ttl_s a s = (True, s')"
    using that
  proof (cases rule: store_cas_cases)
    case (2 r)
    then show ?thesis
      by (auto simp: apply_op_def so_key_def so_srcs_def
          elim!: transition_commit_raw dest!: page_st_raw)
  qed simp
  show "s' = s" if "store_cas ttl_s a s = (False, s')"
    using that
  proof (cases rule: store_cas_cases)
    case (2 r)
    then show ?thesis
      by (simp add: apply_op_def transition_reject_same)
  qed simp
  show "raw_st s' k = raw_st s k \<or> raw_st s' k = None"
    if cas: "store_cas ttl_s a s = (b, s')" and k: "k \<noteq> so_key a"
    using cas
  proof (cases rule: store_cas_cases)
    case (2 r)
    from 2(1) k show ?thesis
      unfolding apply_op_def so_key_def by (rule transition_frame(1))
  qed simp
qed

section \<open>Counting finished pages\<close>

definition finished_pages :: "store \<Rightarrow> string \<Rightarrow> int \<Rightarrow> int set" where
  "finished_pages s job n =
     {i. 0 \<le> i \<and> i < n \<and> (\<exists>c \<in> set TERMINAL_STATES. raw_st s (job, i) = Some c)}"

text \<open>
  The invariant of a job of \<open>n\<close> pages whose last committed transition was at \<open>t\<close>, whose page
  keys were last renewed together at \<open>r\<close> and whose counter reads \<open>d\<close>. Both clocks are taken
  to agree.
\<close>

definition job_inv :: "int \<Rightarrow> string \<Rightarrow> int \<Rightarrow> int \<Rightarrow> int \<Rightarrow> int \<Rightarrow> store \<Rightarrow> bool" where
  "job_inv ttl_ms job n t r d s \<longleftrightarrow>
     (\<exists>jh e. st_jobs s job = Some (jh, Some e) \<and> jh_total_pages jh = Some n
        \<and> jh_done_count jh = Some d \<and> jh_pages_renewed_at jh = Some r \<and> t + ttl_ms \<le> e)
     \<and> r \<le> t \<and> 2 * (t - r) \<le> ttl_ms
     \<and> (\<forall>i. 0 \<le> i \<and> i < n \<longrightarrow>
          (\<exists>h e c. st_pages s (job, i) = Some (h, Some e) \<and> ph_state h = Some c \<and> r + ttl_ms \<le> e))
     \<and> d = int (card (finished_pages s job n))"

definition job_op :: "string \<Rightarrow> int \<Rightarrow> store_op \<Rightarrow> bool" where
  "job_op job n a \<longleftrightarrow> legal_op a \<and> so_job a = job \<and> 0 \<le> so_page a \<and> so_page a < n
     \<and> so_now a = so_t a \<and> n \<le> so_swept a"

lemma finite_finished_pages [simp]: "finite (finished_pages s job n)"
  by (rule finite_subset [of _ "{0..<n}"]) (auto simp: finished_pages_def)

lemma init_job_inv:
  assumes "0 < ttl_s"
    and "st_jobs s job = None" and "\<And>i. st_pages s (job, i) = None"
  shows "job_inv (ttl_s * 1000) job n t t 0 (init_job t t ttl_s job n meta s)"
  using assms
  by (auto simp: job_inv_def init_job_def put_fields_def pexpire_def finished_pages_def raw_st_def
      empty_page_def)

lemma job_inv_live_page:
  assumes "job_inv ttl_ms job n t r d s" and "2 * (t' - t) < ttl_ms" and "0 \<le> i" and "i < n"
  obtains h e c where "st_pages s (job, i) = Some (h, Some e)" and "ph_state h = Some c"
    and "t' < e" and "r + ttl_ms \<le> e"
  using assms unfolding job_inv_def by (fastforce intro: that)

lemma job_inv_live_job:
  assumes "job_inv ttl_ms job n t r d s" and "2 * (t' - t) < ttl_ms" and "t \<le> t'"
  obtains jh e where "st_jobs s job = Some (jh, Some e)" and "jh_total_pages jh = Some n"
    and "jh_done_count jh = Some d" and "jh_pages_renewed_at jh = Some r" and "t' < e"
  using assms unfolding job_inv_def by (fastforce intro: that)

text \<open>
  The cells an accepted transition leaves for a live page \<open>i\<close> of a live job: both keys are given
  a full lifetime, and every other page is too if the sweep was due (\<open>stale\<close>).
\<close>

definition committed_cells ::
  "int \<Rightarrow> int \<Rightarrow> string \<Rightarrow> int \<Rightarrow> int \<Rightarrow> page_state \<Rightarrow> int \<Rightarrow> int \<Rightarrow> bool \<Rightarrow> store \<Rightarrow> store \<Rightarrow> bool" where
  "committed_cells t ttl_ms job n i to d r stale s s' \<longleftrightarrow>
     (\<exists>jh'. st_jobs s' job = Some (jh', Some (t + ttl_ms)) \<and> jh_total_pages jh' = Some n
        \<and> jh_done_count jh' = Some (if to \<in> set TERMINAL_STATES then d + 1 else d)
        \<and> jh_pages_renewed_at jh' = Some (if stale then t else r))
     \<and> (\<exists>h'. st_pages s' (job, i) = Some (h', Some (t + ttl_ms)) \<and> ph_state h' = Some to)
     \<and> (\<forall>k. k \<noteq> i \<longrightarrow> st_pages s' (job, k) =
           (if stale \<and> 0 \<le> k \<and> k < n
            then pexpire t ttl_ms (st_pages s (job, k)) else st_pages s (job, k)))"

lemma transition_accept_cells:
  assumes pg: "st_pages s (job, i) = Some (h, Some e)" "t < e" "ph_state h = Some c"
    and c: "c \<in> set (sources_of al to)"
    and jb: "st_jobs s job = Some (jh, Some e')" "t < e'" "jh_total_pages jh = Some n"
      "jh_done_count jh = Some d" "jh_pages_renewed_at jh = Some r"
    and ttl: "0 < ttl" and sw: "n \<le> sw"
    and stale: "stale \<longleftrightarrow> 2 * (t - r) > ttl * 1000"
  shows "\<exists>s'. transition t t ttl sw job i to al fvs s =
       Some (\<lparr>tr_ok = True, tr_observed = Some to,
         tr_done_count = (if to \<in> set TERMINAL_STATES then d + 1 else -1),
         tr_total_pages = (if to \<in> set TERMINAL_STATES then n else -1), tr_requested = to\<rparr>, s')
     \<and> committed_cells t (ttl * 1000) job n i to d r stale s s'"
proof -
  let ?tm = "to \<in> set TERMINAL_STATES"
  let ?h' = "write_fields fvs (h\<lparr>ph_state := Some to, ph_updated_at := Some t\<rparr>)"
  let ?jh' = "(if ?tm then (\<lambda>j. j\<lparr>jh_done_count := Some (d + 1)\<rparr>) else id)
              ((if stale then (\<lambda>j. j\<lparr>jh_pages_renewed_at := Some t\<rparr>) else id) jh)"
  let ?reply = "\<lparr>lr_ok = True, lr_observed = Some to, lr_done = (if ?tm then d + 1 else -1),
                 lr_total = (if ?tm then n else -1), lr_sweep = (if stale then n else 0)\<rparr>"
  have st: "real_of_int (t - r) > real_of_int (ttl * 1000) / 2 \<longleftrightarrow> stale"
    unfolding stale by (rule half_less_of_int)
  have lua: "transition_lua t to t ?tm (ttl * 1000) (sources_of al to) fvs
      (st_pages s (job, i)) (st_jobs s job) =
      (?reply, Some (?h', Some (t + ttl * 1000)), Some (?jh', Some (t + ttl * 1000)))"
    using pg c jb ttl
    by (auto simp: transition_lua_def cell_simps put_fields_def pexpire_def hget_or_def Let_def
        st [symmetric])
  let ?s1 = "s\<lparr>st_pages := (st_pages s)((job, i) := Some (?h', Some (t + ttl * 1000))),
      st_jobs := (st_jobs s)(job := Some (?jh', Some (t + ttl * 1000)))\<rparr>"
  let ?s' = "if (if stale then n else 0) > 0
      then renew_job_pages t ttl sw job (if stale then n else 0) ?s1 else ?s1"
  have "sources_of al to \<noteq> []" using c by auto
  then have "transition t t ttl sw job i to al fvs s =
      Some (\<lparr>tr_ok = True, tr_observed = Some to, tr_done_count = (if ?tm then d + 1 else -1),
        tr_total_pages = (if ?tm then n else -1), tr_requested = to\<rparr>, ?s')"
    using lua by (simp add: transition_def sources_of_def Let_def)
  moreover have "committed_cells t (ttl * 1000) job n i to d r stale s ?s'"
    using ttl jb sw by (auto simp: committed_cells_def renew_job_pages_def pexpire_def)
  ultimately show ?thesis by blast
qed

text \<open>How the set of finished pages changes when page \<open>i\<close> moves from \<open>c\<close> to \<open>to\<close>.\<close>

lemma finished_pages_step:
  assumes "raw_st s (job, i) = Some c" and "c \<notin> set TERMINAL_STATES"
    and "raw_st s' (job, i) = Some to" and "0 \<le> i" and "i < n"
    and "\<And>k. 0 \<le> k \<Longrightarrow> k < n \<Longrightarrow> k \<noteq> i \<Longrightarrow> raw_st s' (job, k) = raw_st s (job, k)"
  shows "int (card (finished_pages s' job n)) =
     int (card (finished_pages s job n)) + (if to \<in> set TERMINAL_STATES then 1 else 0)"
proof -
  have notin: "i \<notin> finished_pages s job n"
    using assms(1,2) by (auto simp: finished_pages_def)
  have "finished_pages s' job n =
      (if to \<in> set TERMINAL_STATES then insert i (finished_pages s job n) else finished_pages s job n)"
  proof (rule set_eqI)
    fix k
    show "k \<in> finished_pages s' job n \<longleftrightarrow>
      k \<in> (if to \<in> set TERMINAL_STATES then insert i (finished_pages s job n) else finished_pages s job n)"
      using assms(3,4,5) assms(6) [of k] notin
      by (cases "k = i") (auto simp: finished_pages_def)
  qed
  then show ?thesis
    using notin by (simp only: card_insert_disjoint finite_finished_pages split: if_split) simp
qed

lemma card_finished_le: "int (card (finished_pages s job n)) \<le> max 0 n"
proof -
  have "card (finished_pages s job n) \<le> card {0..<n}"
    by (rule card_mono) (auto simp: finished_pages_def)
  then show ?thesis by simp
qed

lemma job_inv_commit:
  assumes inv: "job_inv ttl_ms job n t r d s" and ttl: "0 < ttl_ms"
    and time: "t \<le> t'" "2 * (t' - t) < ttl_ms" and pg: "0 \<le> i" "i < n"
    and c: "raw_st s (job, i) = Some c" "c \<notin> set TERMINAL_STATES"
    and stale: "stale \<longleftrightarrow> 2 * (t' - r) > ttl_ms"
    and cells: "committed_cells t' ttl_ms job n i to d r stale s s'"
  shows "job_inv ttl_ms job n t' (if stale then t' else r)
     (d + (if to \<in> set TERMINAL_STATES then 1 else 0)) s'"
proof -
  let ?r' = "if stale then t' else r" and ?tm = "to \<in> set TERMINAL_STATES"
  have other: "\<exists>h e c. st_pages s' (job, k) = Some (h, Some e) \<and> ph_state h = Some c
      \<and> ?r' + ttl_ms \<le> e \<and> raw_st s' (job, k) = raw_st s (job, k)"
    if k: "0 \<le> k" "k < n" "k \<noteq> i" for k
  proof -
    obtain h e c where "st_pages s (job, k) = Some (h, Some e)" "ph_state h = Some c"
        "t' < e" "r + ttl_ms \<le> e"
      by (rule job_inv_live_page [OF inv time(2) k(1,2)])
    then show ?thesis using cells k by (auto simp: committed_cells_def pexpire_def raw_st_def)
  qed
  have "raw_st s' (job, i) = Some to"
    using cells by (auto simp: committed_cells_def raw_st_def)
  then have "int (card (finished_pages s' job n)) =
      int (card (finished_pages s job n)) + (if ?tm then 1 else 0)"
    by (rule finished_pages_step [OF c _ pg]) (use other in blast)
  moreover have "?r' \<le> t'" and "2 * (t' - ?r') \<le> ttl_ms"
    using inv time ttl by (auto simp: job_inv_def stale)
  moreover have "\<exists>h e c. st_pages s' (job, k) = Some (h, Some e) \<and> ph_state h = Some c
      \<and> ?r' + ttl_ms \<le> e" if "0 \<le> k \<and> k < n" for k
    using other [of k] cells that inv time
    by (cases "k = i") (auto simp: job_inv_def committed_cells_def)
  ultimately show ?thesis
    using cells inv unfolding job_inv_def committed_cells_def by auto
qed

lemma job_inv_step:
  assumes inv: "job_inv (ttl * 1000) job n t r d s" and op: "job_op job n a"
    and time: "t \<le> so_t a" "2 * (so_t a - t) < ttl * 1000" and ttl: "0 < ttl"
  obtains res s' where "apply_op ttl a s = Some (res, s')"
    and "\<not> tr_ok res \<longrightarrow> s' = s"
    and "tr_ok res \<longrightarrow> (\<exists>r'. job_inv (ttl * 1000) job n (so_t a) r'
           (d + (if so_to a \<in> set TERMINAL_STATES then 1 else 0)) s')"
    and "completed_job res \<longleftrightarrow>
           tr_ok res \<and> so_to a \<in> set TERMINAL_STATES \<and> 0 < n \<and> n \<le> d + 1"
proof -
  let ?t = "so_t a" and ?i = "so_page a" and ?to = "so_to a"
  define stale where "stale \<longleftrightarrow> 2 * (?t - r) > ttl * 1000"
  from op have legal: "legal_op a" and jb: "so_job a = job" and pg: "0 \<le> ?i" "?i < n"
    and now: "so_now a = ?t" and sw: "n \<le> so_swept a"
    by (auto simp: job_op_def)
  obtain h e c where h: "st_pages s (job, ?i) = Some (h, Some e)" "ph_state h = Some c" "?t < e"
    by (rule job_inv_live_page [OF inv time(2) pg])
  obtain jh e' where jh: "st_jobs s job = Some (jh, Some e')" "jh_total_pages jh = Some n"
      "jh_done_count jh = Some d" "jh_pages_renewed_at jh = Some r" "?t < e'"
    by (rule job_inv_live_job [OF inv time(2,1)])
  show thesis
  proof (cases "c \<in> set (so_srcs a)")
    case False
    moreover have "page_st ?t s job ?i = Some c"
      using h by (simp add: page_st_def get_page_def cell_simps)
    ultimately have "apply_op ttl a s = Some (\<lparr>tr_ok = False, tr_observed = Some c,
        tr_done_count = -1, tr_total_pages = -1, tr_requested = ?to\<rparr>, s)"
      using legal by (simp add: apply_op_def so_srcs_def jb transition_reject legal_op_def)
    then show thesis by (rule that) (auto simp: completed_job_def)
  next
    case True
    have c: "raw_st s (job, ?i) = Some c" "c \<notin> set TERMINAL_STATES"
      using True legal terminal_not_predecessor h by (auto simp: legal_op_def raw_st_def)
    obtain s' where ap: "apply_op ttl a s = Some (\<lparr>tr_ok = True, tr_observed = Some ?to,
         tr_done_count = (if ?to \<in> set TERMINAL_STATES then d + 1 else -1),
         tr_total_pages = (if ?to \<in> set TERMINAL_STATES then n else -1), tr_requested = ?to\<rparr>, s')"
      and cells: "committed_cells ?t (ttl * 1000) job n ?i ?to d r stale s s'"
      using transition_accept_cells [OF h(1,3,2) True [unfolded so_srcs_def] jh(1,5,2,3,4)
          ttl sw stale_def] by (auto simp: apply_op_def jb now)
    have "job_inv (ttl * 1000) job n ?t (if stale then ?t else r)
        (d + (if ?to \<in> set TERMINAL_STATES then 1 else 0)) s'"
      by (rule job_inv_commit [OF inv _ time pg c stale_def cells]) (use ttl in simp)
    then show thesis
      by (intro that [OF ap]) (auto simp: completed_job_def)
  qed
qed

section \<open>Whole runs of a job\<close>

text \<open>
  A run: any list of transitions on the job's pages, by any workers, in the order Redis serves
  them. \<open>paced\<close> says that less than half the lifetime passes between one committed transition
  and the next call, and \<open>last_commit\<close> is the time of the last committed one.
\<close>

fun run_ops :: "int \<Rightarrow> store_op list \<Rightarrow> store \<Rightarrow> transition_result list \<times> store" where
  "run_ops ttl_s [] s = ([], s)"
| "run_ops ttl_s (a # as) s =
     (case apply_op ttl_s a s of
        None \<Rightarrow> run_ops ttl_s as s
      | Some (r, s') \<Rightarrow> (let (rs, s'') = run_ops ttl_s as s' in (r # rs, s'')))"

fun paced :: "int \<Rightarrow> int \<Rightarrow> store_op list \<Rightarrow> store \<Rightarrow> bool" where
  "paced ttl_s t [] s = True"
| "paced ttl_s t (a # as) s =
     (t \<le> so_t a \<and> 2 * (so_t a - t) < ttl_s * 1000 \<and>
      (case apply_op ttl_s a s of
         None \<Rightarrow> paced ttl_s t as s
       | Some (r, s') \<Rightarrow> paced ttl_s (if tr_ok r then so_t a else t) as s'))"

fun last_commit :: "int \<Rightarrow> int \<Rightarrow> store_op list \<Rightarrow> store \<Rightarrow> int" where
  "last_commit ttl_s t [] s = t"
| "last_commit ttl_s t (a # as) s =
     (case apply_op ttl_s a s of
        None \<Rightarrow> last_commit ttl_s t as s
      | Some (r, s') \<Rightarrow> last_commit ttl_s (if tr_ok r then so_t a else t) as s')"

lemma job_inv_count_le: "job_inv ttl_ms job n t r d s \<Longrightarrow> 0 < n \<Longrightarrow> d \<le> n"
  using card_finished_le [of s job n] by (simp add: job_inv_def)

lemma run_ops_inv:
  assumes "job_inv (ttl * 1000) job n t r d s" and "\<forall>a \<in> set as. job_op job n a"
    and "paced ttl t as s" and "0 < ttl" and "0 < n"
  shows "\<exists>r' d'. job_inv (ttl * 1000) job n (last_commit ttl t as s) r' d' (snd (run_ops ttl as s))
     \<and> length (filter completed_job (fst (run_ops ttl as s))) + of_bool (d = n) = of_bool (d' = n)"
  using assms
proof (induction as arbitrary: t r d s)
  case Nil
  then show ?case by auto
next
  case (Cons a as)
  from Cons.prems have op: "job_op job n a" and time: "t \<le> so_t a" "2 * (so_t a - t) < ttl * 1000"
    by auto
  obtain res s1 where ap: "apply_op ttl a s = Some (res, s1)" and rej: "\<not> tr_ok res \<longrightarrow> s1 = s"
    and acc: "tr_ok res \<longrightarrow> (\<exists>r'. job_inv (ttl * 1000) job n (so_t a) r'
           (d + (if so_to a \<in> set TERMINAL_STATES then 1 else 0)) s1)"
    and cj: "completed_job res \<longleftrightarrow>
           tr_ok res \<and> so_to a \<in> set TERMINAL_STATES \<and> 0 < n \<and> n \<le> d + 1"
    by (rule job_inv_step [OF Cons.prems(1) op time Cons.prems(4)])
  let ?d1 = "d + (if tr_ok res \<and> so_to a \<in> set TERMINAL_STATES then 1 else 0)"
  let ?t1 = "if tr_ok res then so_t a else t"
  obtain r1 where inv1: "job_inv (ttl * 1000) job n ?t1 r1 ?d1 s1"
    using acc rej Cons.prems(1) by (cases "tr_ok res") auto
  obtain r' d' where ih: "job_inv (ttl * 1000) job n (last_commit ttl ?t1 as s1) r' d'
        (snd (run_ops ttl as s1))"
      "length (filter completed_job (fst (run_ops ttl as s1))) + of_bool (?d1 = n) = of_bool (d' = n)"
    using Cons.IH [OF inv1] Cons.prems(2-5) ap by auto
  have one: "of_bool (completed_job res) + of_bool (d = n) = (of_bool (?d1 = n) :: nat)"
    using cj job_inv_count_le [OF inv1 Cons.prems(5)] job_inv_count_le [OF Cons.prems(1,5)]
      Cons.prems(5) by auto
  have run: "run_ops ttl (a # as) s = (res # fst (run_ops ttl as s1), snd (run_ops ttl as s1))"
    using ap by (simp add: Let_def split: prod.split)
  have "length (filter completed_job (fst (run_ops ttl (a # as) s))) =
      of_bool (completed_job res) + length (filter completed_job (fst (run_ops ttl as s1)))"
    by (simp only: run fst_conv filter.simps split: if_split) simp
  with ih(2) one have "length (filter completed_job (fst (run_ops ttl (a # as) s)))
      + of_bool (d = n) = of_bool (d' = n)"
    by linarith
  moreover have "job_inv (ttl * 1000) job n (last_commit ttl t (a # as) s) r' d'
      (snd (run_ops ttl (a # as) s))"
    unfolding run using ih(1) ap by simp
  ultimately show ?case by blast
qed

text \<open>
  C2. Completion is reported exactly once. Take a fresh job of \<open>n > 0\<close> pages and any sequence of
  legal transitions of its pages, accepted or refused, in which progress never pauses for half
  the keys' lifetime. The number of calls whose result has \<^verbatim>\<open>completed_job\<close> set is 1 if every
  page has reached a terminal state and 0 otherwise; and \<^verbatim>\<open>done_count\<close> in the job hash is the
  number of terminal pages.
\<close>

theorem job_completes_once:
  assumes "0 < ttl_s" and "0 < n"
    and "\<forall>a \<in> set ops. job_op job n a"
    and "s0 = init_job t0 t0 ttl_s job n meta empty_store"
    and "paced ttl_s t0 ops s0"
    and "run_ops ttl_s ops s0 = (results, s)"
  shows "length (filter completed_job results) = of_bool (finished_pages s job n = {0..<n})
     \<and> progress (last_commit ttl_s t0 ops s0) job s = (int (card (finished_pages s job n)), n)"
proof
  have "job_inv (ttl_s * 1000) job n t0 t0 0 s0"
    unfolding assms(4) by (rule init_job_inv [OF assms(1)]) (simp_all add: empty_store_def)
  then obtain r d where inv: "job_inv (ttl_s * 1000) job n (last_commit ttl_s t0 ops s0) r d s"
    and cnt: "length (filter completed_job results) = of_bool (d = n)"
    using run_ops_inv [OF _ assms(3,5,1,2)] assms(2,6) by fastforce
  have d: "d = int (card (finished_pages s job n))"
    using inv by (simp add: job_inv_def)
  have sub: "finished_pages s job n \<subseteq> {0..<n}" by (auto simp: finished_pages_def)
  have "d = n \<longleftrightarrow> card (finished_pages s job n) = card {0..<n}"
    using assms(2) by (auto simp: d)
  also have "\<dots> \<longleftrightarrow> finished_pages s job n = {0..<n}"
    using card_subset_eq [OF _ sub] by auto
  finally show "length (filter completed_job results) = of_bool (finished_pages s job n = {0..<n})"
    using cnt by simp
  show "progress (last_commit ttl_s t0 ops s0) job s = (int (card (finished_pages s job n)), n)"
    using inv assms(1) unfolding d [symmetric]
    by (auto simp: job_inv_def progress_def get_job_def cell_simps hget_or_def)
qed

text \<open>A two-page job: one page runs through both stages, the other fails, twice.\<close>

definition demo_op :: "int \<Rightarrow> int \<Rightarrow> page_state \<Rightarrow> store_op" where
  "demo_op t i to = \<lparr>so_t = t, so_now = t, so_swept = 2, so_job = ''j'', so_page = i, so_to = to,
     so_allowed = None, so_fields = []\<rparr>"

definition demo_ops :: "store_op list" where
  "demo_ops = [demo_op 10 0 LAYOUT_RUNNING, demo_op 60 0 LAYOUT_DONE, demo_op 70 0 VLM_RUNNING,
     demo_op 2000 0 DONE, demo_op 2100 1 FAILED, demo_op 2200 1 FAILED]"

definition demo_store :: store where
  "demo_store = init_job 0 0 3600 ''j'' 2 [] empty_store"

lemma demo_job_ops: "\<forall>a \<in> set demo_ops. job_op ''j'' 2 a"
  by (simp add: demo_ops_def demo_op_def job_op_def legal_op_def so_srcs_def)

lemma demo_paced: "paced 3600 0 demo_ops demo_store"
  by code_simp

theorem job_completes_once_witness:
  "map completed_job (fst (run_ops 3600 demo_ops demo_store)) =
     [False, False, False, False, True, False] \<and>
   length (filter completed_job (fst (run_ops 3600 demo_ops demo_store))) =
     of_bool (finished_pages (snd (run_ops 3600 demo_ops demo_store)) ''j'' 2 = {0..<2})"
proof
  show "map completed_job (fst (run_ops 3600 demo_ops demo_store)) =
     [False, False, False, False, True, False]"
    by code_simp
  show "length (filter completed_job (fst (run_ops 3600 demo_ops demo_store))) =
     of_bool (finished_pages (snd (run_ops 3600 demo_ops demo_store)) ''j'' 2 = {0..<2})"
    using job_completes_once [OF _ _ demo_job_ops demo_store_def demo_paced prod.collapse [symmetric]]
    by simp
qed

section \<open>Exclusion and its limit\<close>

text \<open>
  One terminal commit per page. In any run of legal transitions by any callers at any times,
  expiry included, at most one accepted call moves a given page to a terminal state; every
  redelivered or late commit after it is refused.
\<close>

theorem page_finalised_once:
  assumes "\<forall>a \<in> set ops. legal_op a" and "cas_run (store_cas ttl_s) ops s = (oks, s')"
  shows "length (filter (\<lambda>(a, ok). ok \<and> so_key a = k \<and> so_to a \<in> set TERMINAL_STATES) (zip ops oks)) \<le> 1"
  by (rule page_cas.final_at_most_once [OF _ assms(2)]) (use assms(1) in \<open>auto simp: legal_op_def\<close>)

theorem page_finalised_once_witness:
  "length (filter (\<lambda>(a, ok). ok \<and> so_key a = (''j'', 1) \<and> so_to a \<in> set TERMINAL_STATES)
     (zip demo_ops (fst (cas_run (store_cas 3600) demo_ops demo_store)))) \<le> 1"
  by (rule page_finalised_once [OF _ prod.collapse [symmetric]]) (use demo_job_ops in \<open>simp add: job_op_def\<close>)

text \<open>
  A claim excludes every other claim of the same stage. After an accepted claim, whatever is
  done to other pages and whatever is refused on this one, a second worker's claim is refused,
  until an accepted transition has moved the page on.
\<close>

theorem claim_is_exclusive:
  assumes "store_cas ttl_s a s = (True, s1)" and "so_to a \<in> set RUNNING_STATES"
    and "so_key a' = so_key a" and "so_to a' = so_to a" and "so_allowed a' = None"
    and "cas_run (store_cas ttl_s) ops s1 = (oks, s2)"
    and "\<forall>(b, ok) \<in> set (zip ops oks). so_key b = so_key a \<longrightarrow> \<not> ok"
  shows "\<not> fst (store_cas ttl_s a' s2)"
  by (rule page_cas.claim_exclusive [OF assms(1) _ assms(3,6,7)])
     (use assms(2,4,5) in \<open>auto simp: so_srcs_def\<close>)

theorem claim_is_exclusive_witness:
  "\<not> fst (store_cas 3600 (demo_op 30 0 LAYOUT_RUNNING)
      (snd (cas_run (store_cas 3600) [demo_op 20 1 LAYOUT_RUNNING]
        (snd (store_cas 3600 (demo_op 10 0 LAYOUT_RUNNING) demo_store)))))"
proof (rule claim_is_exclusive [OF _ _ _ _ _ prod.collapse [symmetric]])
  have "fst (store_cas 3600 (demo_op 10 0 LAYOUT_RUNNING) demo_store)" by code_simp
  then show "store_cas 3600 (demo_op 10 0 LAYOUT_RUNNING) demo_store =
      (True, snd (store_cas 3600 (demo_op 10 0 LAYOUT_RUNNING) demo_store))"
    by (simp add: prod_eq_iff)
qed (auto simp: demo_op_def so_key_def dest!: set_zip_leftD)

text \<open>
  The exclusion ends where the table names two predecessors. A layout commit is also accepted
  from \<^const>\<open>VLM_RUNNING\<close>, so a worker whose layout claim was reclaimed and passed on can, when its
  late answer arrives, take a page another worker is already running its second stage on back
  to \<^const>\<open>LAYOUT_DONE\<close>; the other worker's \<^const>\<open>DONE\<close> is then refused.
\<close>

theorem stale_commit_revokes_claim:
  assumes "page_st t s job i = Some VLM_RUNNING" and "0 < ttl_s"
    and "transition t t ttl_s sw job i LAYOUT_DONE None fvs s = Some (r1, s1)"
    and "transition t t ttl_s sw job i DONE None fvs' s1 = Some (r2, s2)"
  shows "tr_ok r1 \<and> \<not> tr_ok r2 \<and> page_st t s2 job i = Some LAYOUT_DONE"
proof -
  obtain s' r' where "transition t t ttl_s sw job i LAYOUT_DONE None fvs s = Some (r', s')" "tr_ok r'"
      and st: "page_st t s' job i = Some LAYOUT_DONE"
    by (rule transition_accept [OF assms(1) _ assms(2), of None LAYOUT_DONE t sw fvs]) simp
  then have 1: "tr_ok r1" "page_st t s1 job i = Some LAYOUT_DONE" using assms(3) by auto
  then show ?thesis
    using assms(4) transition_reject [of None DONE t s1 job i t ttl_s sw fvs'] by auto
qed

theorem stale_commit_revokes_claim_witness:
  "map tr_ok (fst (run_ops 3600
     [demo_op 10 0 LAYOUT_RUNNING, (demo_op 20 0 PENDING)\<lparr>so_allowed := Some [LAYOUT_RUNNING]\<rparr>,
      demo_op 20 0 LAYOUT_RUNNING, demo_op 20 0 LAYOUT_DONE, demo_op 20 0 VLM_RUNNING,
      demo_op 20 0 LAYOUT_DONE, demo_op 20 0 DONE] demo_store)) = [True, True, True, True, True, True, False]
   \<and> (let s = snd (run_ops 3600 [demo_op 20 0 LAYOUT_RUNNING, demo_op 20 0 LAYOUT_DONE, demo_op 20 0 VLM_RUNNING] demo_store)
      in \<exists>r1 s1. transition 20 20 3600 2 ''j'' 0 LAYOUT_DONE None [] s = Some (r1, s1) \<and> tr_ok r1)"
proof
  let ?s = "snd (run_ops 3600 [demo_op 20 0 LAYOUT_RUNNING, demo_op 20 0 LAYOUT_DONE, demo_op 20 0 VLM_RUNNING] demo_store)"
  have st: "page_st 20 ?s ''j'' 0 = Some VLM_RUNNING" by code_simp
  obtain r1 s1 r2 s2 where t1: "transition 20 20 3600 2 ''j'' 0 LAYOUT_DONE None [] ?s = Some (r1, s1)"
    and t2: "transition 20 20 3600 2 ''j'' 0 DONE None [] s1 = Some (r2, s2)"
    using transition_None_iff by (metis not_None_eq option.distinct(1) surj_pair)
  from stale_commit_revokes_claim [OF st _ t1 t2]
  show "let s = ?s in \<exists>r1 s1. transition 20 20 3600 2 ''j'' 0 LAYOUT_DONE None [] s = Some (r1, s1) \<and> tr_ok r1"
    using t1 by (simp add: Let_def)
qed code_simp

end
