(* ===== verification/Result_Stream.thy ===== *)
theory Result_Stream
  imports Orch_Prelude
begin

text \<open>
  The per-job stream of results, \<^verbatim>\<open>src/app/queue/results.py\<close>: the publishing script
  \<^verbatim>\<open>_PUBLISH_LUA\<close>, the publisher and the reader with its test for a gap. An entry id is kept
  as the pair of numbers Redis generates; \<open>id_str\<close> is its text. A payload is kept as the JSON value
  that is stored and read back. \<^verbatim>\<open>MAXLEN ~\<close> lets the server drop any number of the oldest
  entries beyond the limit: \<open>slack\<close> is how many it drops at most.
\<close>

section \<open>Entry ids\<close>

definition PAGE_PARTIAL :: string where "PAGE_PARTIAL = ''page.partial''"
definition PAGE_FINAL :: string where "PAGE_FINAL = ''page.final''"
definition JOB_COMPLETE_EVENT :: string where "JOB_COMPLETE_EVENT = ''job.complete''"

definition out_stream :: "string \<Rightarrow> string" where
  "out_stream job_id = ''stream:out:'' @ job_id"

definition seq_key :: "string \<Rightarrow> string" where
  "seq_key job_id = ''stream:out:'' @ job_id @ '':seq''"

type_synonym stream_id = "nat \<times> nat"

definition id_str :: "stream_id \<Rightarrow> string" where
  "id_str p = str_nat (fst p) @ ''-'' @ str_nat (snd p)"

text \<open>\<^verbatim>\<open>entry_id.partition("-")\<close>: before the first dash, and after it.\<close>

fun partition_dash :: "string \<Rightarrow> string \<times> string" where
  "partition_dash [] = ([], [])"
| "partition_dash (c # cs) =
     (if c = CHR ''-'' then ([], cs) else (let (a, b) = partition_dash cs in (c # a, b)))"

text \<open>\<^verbatim>\<open>id_tuple\<close>; \<^const>\<open>None\<close> is the \<^verbatim>\<open>ValueError\<close> of \<^verbatim>\<open>int\<close>.\<close>

definition id_tuple :: "string \<Rightarrow> (int \<times> int) option" where
  "id_tuple entry_id =
     (let (ms, sq) = partition_dash entry_id
      in Option.bind (py_int ms) (\<lambda>m.
         Option.bind (if sq = [] then Some 0 else py_int sq) (\<lambda>q. Some (m, q))))"

definition tuple_less :: "int \<times> int \<Rightarrow> int \<times> int \<Rightarrow> bool" where
  "tuple_less a b \<longleftrightarrow> fst a < fst b \<or> fst a = fst b \<and> snd a < snd b"

text \<open>The regular expression \<^verbatim>\<open>\A\d+-\d+\Z\<close>, on ASCII text.\<close>

definition matches_id :: "string \<Rightarrow> bool" where
  "matches_id s =
     (let (a, b) = partition_dash s
      in CHR ''-'' \<in> set s \<and> a \<noteq> [] \<and> b \<noteq> [] \<and> list_all is_digit a \<and> list_all is_digit b)"

definition parse_entry_id :: "string option \<Rightarrow> string option" where
  "parse_entry_id raw =
     (case raw of
        None \<Rightarrow> None
      | Some r \<Rightarrow>
          if r = [] then None
          else let t = str_strip r in if matches_id t then Some t else None)"

section \<open>Publishing\<close>

record result_event =
  re_id :: stream_id
  re_seq :: int
  re_event :: string
  re_data :: json

record out_log =
  ol_entries :: "result_event list"
  ol_last :: stream_id

record out_keys =
  ok_stream :: "out_log cell"
  ok_seq :: "int cell"

definition empty_out :: out_keys where
  "empty_out = \<lparr>ok_stream = None, ok_seq = None\<rparr>"

record publisher =
  pb_maxlen :: nat
  pb_ttl_s :: int

text \<open>The id \<^verbatim>\<open>XADD ... *\<close> generates after \<open>prev\<close> at the server time \<open>t\<close>.\<close>

definition next_id :: "int \<Rightarrow> stream_id \<Rightarrow> stream_id" where
  "next_id t prev = (if fst prev < nat t then (nat t, 0) else (fst prev, Suc (snd prev)))"

definition trim_log :: "nat \<Rightarrow> nat \<Rightarrow> result_event list \<Rightarrow> result_event list" where
  "trim_log slack maxlen es = drop (min slack (length es - maxlen)) es"

definition publish_lua ::
  "int \<Rightarrow> nat \<Rightarrow> publisher \<Rightarrow> string \<Rightarrow> json \<Rightarrow> out_keys \<Rightarrow> (stream_id \<times> int) \<times> out_keys" where
  "publish_lua t slack pb event data k =
     (let seq = (case get_live t (ok_seq k) of None \<Rightarrow> 0 | Some n \<Rightarrow> n) + 1;
          seq_cell = put_fields t 0 (\<lambda>_. seq) (ok_seq k);
          lg = (case get_live t (ok_stream k) of None \<Rightarrow> \<lparr>ol_entries = [], ol_last = (0, 0)\<rparr> | Some l \<Rightarrow> l);
          i = next_id t (ol_last lg);
          lg' = \<lparr>ol_entries = trim_log slack (pb_maxlen pb) (ol_entries lg @
                    [\<lparr>re_id = i, re_seq = seq, re_event = event, re_data = data\<rparr>]),
                 ol_last = i\<rparr>;
          stream_cell = put_fields t lg' (\<lambda>_. lg') (ok_stream k)
      in ((i, seq),
          \<lparr>ok_stream = pexpire t (pb_ttl_s pb * 1000) stream_cell,
           ok_seq = pexpire t (pb_ttl_s pb * 1000) seq_cell\<rparr>))"

definition merge_json :: "json \<Rightarrow> (string \<times> json) list \<Rightarrow> json" where
  "merge_json base extra =
     (case base of JObj kvs \<Rightarrow> JObj (filter (\<lambda>(k, _). k \<notin> set (map fst extra)) kvs @ extra) | j \<Rightarrow> j)"

definition publish ::
  "int \<Rightarrow> nat \<Rightarrow> publisher \<Rightarrow> string \<Rightarrow> string \<Rightarrow> (string \<times> json) list \<Rightarrow> out_keys
   \<Rightarrow> result_event \<times> out_keys" where
  "publish t slack pb job_id event payload k =
     (let data = merge_json (JObj [(''job_id'', JStr job_id), (''emitted_at_ms'', JNum (of_int t))]) payload;
          ((i, seq), k') = publish_lua t slack pb event data k
      in (\<lparr>re_id = i, re_seq = seq, re_event = event, re_data = data\<rparr>, k'))"

section \<open>Reading\<close>

definition live_entries :: "int \<Rightarrow> out_keys \<Rightarrow> result_event list" where
  "live_entries t k = (case get_live t (ok_stream k) of None \<Rightarrow> [] | Some l \<Rightarrow> ol_entries l)"

definition window :: "int \<Rightarrow> out_keys \<Rightarrow> string option \<times> string option" where
  "window t k =
     (case live_entries t k of
        [] \<Rightarrow> (None, None)
      | e # es \<Rightarrow> (Some (id_str (re_id e)), Some (id_str (re_id (last (e # es))))))"

text \<open>\<^verbatim>\<open>gap_after\<close>; \<^const>\<open>None\<close> where a cursor does not parse.\<close>

definition gap_after :: "int \<Rightarrow> string \<Rightarrow> out_keys \<Rightarrow> bool option" where
  "gap_after t last_id k =
     (case fst (window t k) of
        None \<Rightarrow> Some False
      | Some lo \<Rightarrow>
          Option.bind (id_tuple last_id) (\<lambda>a. Option.bind (id_tuple lo) (\<lambda>b. Some (tuple_less a b))))"

definition id_less :: "stream_id \<Rightarrow> stream_id \<Rightarrow> bool" where
  "id_less a b \<longleftrightarrow> fst a < fst b \<or> fst a = fst b \<and> snd a < snd b"

definition history :: "int \<Rightarrow> stream_id option \<Rightarrow> nat \<Rightarrow> out_keys \<Rightarrow> result_event list" where
  "history t after count k =
     take count (filter (\<lambda>e. case after of None \<Rightarrow> True | Some a \<Rightarrow> id_less a (re_id e)) (live_entries t k))"

text \<open>What \<^verbatim>\<open>tail\<close> returns once its block ends at time \<open>t\<close>.\<close>

definition tail_events :: "int \<Rightarrow> stream_id \<Rightarrow> nat \<Rightarrow> out_keys \<Rightarrow> result_event list" where
  "tail_events t last_id count k = take count (filter (\<lambda>e. id_less last_id (re_id e)) (live_entries t k))"

section \<open>Ids and their text\<close>

lemma partition_dash_digits:
  "list_all is_digit a \<Longrightarrow> partition_dash (a @ CHR ''-'' # b) = (a, b)"
  by (induction a) (auto simp: is_digit_def)

lemma py_int_str_nat [simp]: "py_int (str_nat n) = Some (int n)"
  using py_int_str_int [of "int n"] by (simp add: str_int_def)

lemma id_tuple_id_str: "id_tuple (id_str p) = Some (int (fst p), int (snd p))"
  using str_nat_digits [of "fst p"] str_nat_digits [of "snd p"]
  by (simp add: id_tuple_def id_str_def partition_dash_digits)

lemma tuple_less_ids: "tuple_less (int (fst a), int (snd a)) (int (fst b), int (snd b)) \<longleftrightarrow> id_less a b"
  by (auto simp: tuple_less_def id_less_def)

lemma id_less_trans: "id_less a b \<Longrightarrow> id_less b c \<Longrightarrow> id_less a c"
  by (auto simp: id_less_def)

lemma id_less_irrefl [simp]: "\<not> id_less a a"
  by (simp add: id_less_def)

lemma next_id_less: "id_less prev (next_id t prev)"
  by (simp add: id_less_def next_id_def)

section \<open>What a subscriber can rely on\<close>

text \<open>A run of publishes (time, slack, event, payload) on one job, with every event published.\<close>

fun publish_run ::
  "publisher \<Rightarrow> string \<Rightarrow> (int \<times> nat \<times> string \<times> (string \<times> json) list) list \<Rightarrow> out_keys
   \<Rightarrow> result_event list \<times> out_keys" where
  "publish_run pb job [] k = ([], k)"
| "publish_run pb job ((t, slack, event, payload) # evs) k =
     (let (e, k') = publish t slack pb job event payload k; (es, k'') = publish_run pb job evs k'
      in (e # es, k''))"

fun publish_alive :: "publisher \<Rightarrow> int \<Rightarrow> (int \<times> nat \<times> string \<times> (string \<times> json) list) list \<Rightarrow> bool" where
  "publish_alive pb e [] = True"
| "publish_alive pb e ((t, _) # evs) = (t < e \<and> publish_alive pb (t + pb_ttl_s pb * 1000) evs)"

text \<open>The keys after the events \<open>P\<close> were published, the oldest \<open>d\<close> of them dropped.\<close>

definition published :: "publisher \<Rightarrow> result_event list \<Rightarrow> nat \<Rightarrow> int \<Rightarrow> out_keys \<Rightarrow> bool" where
  "published pb P d e k \<longleftrightarrow>
     k = \<lparr>ok_stream = Some (\<lparr>ol_entries = drop d P, ol_last = re_id (last P)\<rparr>, Some e),
          ok_seq = Some (int (length P), Some e)\<rparr>
     \<and> P \<noteq> [] \<and> sorted_wrt id_less (map re_id P) \<and> d \<le> length P - pb_maxlen pb
     \<and> map re_seq P = map int [1..<Suc (length P)]"

lemma sorted_ids_append:
  assumes "sorted_wrt id_less (map re_id (A @ x # B))" and "y \<in> set A"
  shows "id_less (re_id y) (re_id x)"
  using assms by (auto simp: sorted_wrt_append)

lemma sorted_ids_snoc:
  assumes "sorted_wrt id_less (map re_id P)" and "P \<noteq> []" and "id_less (re_id (last P)) (re_id e)"
  shows "sorted_wrt id_less (map re_id (P @ [e]))"
proof -
  obtain P0 l where P: "P = P0 @ [l]" using assms(2) by (cases P rule: rev_cases) auto
  have "id_less (re_id x) (re_id e)" if "x \<in> set P" for x
  proof (cases "x \<in> set P0")
    case True
    have "id_less (re_id x) (re_id l)"
      by (rule sorted_ids_append [OF _ True, of l "[]"]) (use assms(1) P in simp)
    then show ?thesis using assms(3) id_less_trans P by auto
  qed (use that assms(3) P in simp)
  with assms(1) show ?thesis by (auto simp: sorted_wrt_append)
qed

lemma trim_drop:
  assumes "d \<le> length P - m"
  shows "\<exists>d'. trim_log slack m (drop d P @ [x]) = drop d' (P @ [x]) \<and> d' \<le> length (P @ [x]) - m"
proof -
  have "d \<le> length P" using assms by simp
  then have "drop d P @ [x] = drop d (P @ [x])" by simp
  then have "trim_log slack m (drop d P @ [x]) = drop (min slack (length (drop d P @ [x]) - m) + d) (P @ [x])"
    unfolding trim_log_def by (simp only: drop_drop)
  moreover have "min slack (length (drop d P @ [x]) - m) + d \<le> length (P @ [x]) - m"
    using assms by auto
  ultimately show ?thesis by blast
qed

lemma publish_step:
  assumes "published pb P d e k" and "t < e" and "publish t slack pb job event payload k = (ev, k')"
  shows "\<exists>d'. published pb (P @ [ev]) d' (t + pb_ttl_s pb * 1000) k'"
proof -
  obtain d' where d': "trim_log slack (pb_maxlen pb) (drop d P @ [ev]) = drop d' (P @ [ev])"
      "d' \<le> length (P @ [ev]) - pb_maxlen pb"
    using trim_drop assms(1) unfolding published_def by blast
  have ev: "re_id ev = next_id t (re_id (last P))" "re_seq ev = int (length P) + 1"
    and k': "k' = \<lparr>ok_stream = Some (\<lparr>ol_entries = drop d' (P @ [ev]), ol_last = re_id ev\<rparr>,
          Some (t + pb_ttl_s pb * 1000)),
        ok_seq = Some (int (length P) + 1, Some (t + pb_ttl_s pb * 1000))\<rparr>"
    using assms d'(1)
    by (auto simp: published_def publish_def publish_lua_def cell_simps Let_def)
  have "sorted_wrt id_less (map re_id (P @ [ev]))"
    using assms(1) sorted_ids_snoc [of P ev] next_id_less by (auto simp: published_def ev)
  then show ?thesis
    using assms(1) d'(2) ev(2) by (intro exI [of _ d']) (auto simp: published_def k')
qed

lemma publish_first:
  assumes "publish t slack pb job event payload empty_out = (ev, k')" and "1 \<le> pb_maxlen pb"
  shows "published pb [ev] 0 (t + pb_ttl_s pb * 1000) k'"
  using assms
  by (auto simp: published_def publish_def publish_lua_def empty_out_def cell_simps Let_def trim_log_def)

lemma publish_run_published:
  assumes "published pb P d e k" and "publish_alive pb e evs" and "publish_run pb job evs k = (es, k')"
  shows "\<exists>d' e'. published pb (P @ es) d' e' k'"
  using assms
proof (induction evs arbitrary: P d e k es)
  case (Cons x evs)
  obtain t slack event payload where x: "x = (t, slack, event, payload)" by (cases x)
  obtain ev k1 where 1: "publish t slack pb job event payload k = (ev, k1)" by fastforce
  obtain es1 where 2: "publish_run pb job evs k1 = (es1, k')" and es: "es = ev # es1"
    using Cons.prems(3) 1 by (auto simp: x split: prod.splits)
  obtain d1 where "published pb (P @ [ev]) d1 (t + pb_ttl_s pb * 1000) k1"
    using publish_step [OF Cons.prems(1) _ 1] Cons.prems(2) by (auto simp: x)
  from Cons.IH [OF this _ 2] Cons.prems(2) show ?case by (simp add: x es)
qed auto

lemma publish_run_from_empty:
  assumes "evs = (t, slack, event, payload) # rest" and "1 \<le> pb_maxlen pb"
    and "publish_alive pb (t + 1) evs" and "publish_run pb job evs empty_out = (es, k)"
  shows "\<exists>d e. published pb es d e k"
proof -
  obtain ev k1 where 1: "publish t slack pb job event payload empty_out = (ev, k1)" by fastforce
  obtain es1 where 2: "publish_run pb job rest k1 = (es1, k)" and es: "es = ev # es1"
    using assms(1,4) 1 by (auto split: prod.splits)
  from publish_run_published [OF publish_first [OF 1 assms(2)] _ 2] assms(1,3) show ?thesis
    by (simp add: es)
qed

text \<open>
  Events of a job are numbered and ordered. Over any sequence of publishes by any workers
  that keeps the keys alive, the sequence numbers are 1, 2, 3 and so on without a gap, the entry
  ids strictly increase, and at least the newest \<^verbatim>\<open>maxlen\<close> events are still in the stream.
\<close>

theorem events_numbered_in_order:
  assumes "evs = (t, slack, event, payload) # rest" and "1 \<le> pb_maxlen pb"
    and "publish_alive pb (t + 1) evs" and "publish_run pb job evs empty_out = (es, k)"
  shows "map re_seq es = map int [1..<Suc (length es)] \<and> sorted_wrt id_less (map re_id es)
     \<and> (\<exists>d l e. ok_stream k = Some (l, e) \<and> ol_entries l = drop d es \<and> d \<le> length es - pb_maxlen pb)"
  using publish_run_from_empty [OF assms] by (auto simp: published_def)

definition demo_events :: "(int \<times> nat \<times> string \<times> (string \<times> json) list) list" where
  "demo_events = [(100, 0, PAGE_PARTIAL, []), (100, 0, PAGE_FINAL, []), (150, 5, JOB_COMPLETE_EVENT, [])]"

definition demo_publisher :: publisher where
  "demo_publisher = \<lparr>pb_maxlen = 2, pb_ttl_s = 3600\<rparr>"

theorem events_numbered_in_order_witness:
  "map re_seq (fst (publish_run demo_publisher ''j'' demo_events empty_out)) = map int [1..<Suc 3]"
proof -
  let ?r = "publish_run demo_publisher ''j'' demo_events empty_out"
  have n: "length (fst ?r) = 3" by code_simp
  have "1 \<le> pb_maxlen demo_publisher" "publish_alive demo_publisher (100 + 1) demo_events"
    by code_simp+
  from events_numbered_in_order [OF demo_events_def this prod.collapse [symmetric], of "''j''"] n
  show ?thesis by metis
qed

lemma filter_suffix:
  assumes "sorted_wrt id_less (map re_id P)" and "drop d P = x # xs" and "\<not> id_less c (re_id x)"
  shows "filter (\<lambda>e. id_less c (re_id e)) (drop d P) = filter (\<lambda>e. id_less c (re_id e)) P"
proof -
  have P: "P = take d P @ (x # xs)" using assms(2) by (metis append_take_drop_id)
  have "\<not> id_less c (re_id y)" if "y \<in> set (take d P)" for y
  proof
    assume "id_less c (re_id y)"
    moreover have "id_less (re_id y) (re_id x)"
      by (rule sorted_ids_append [OF _ that, of x xs]) (use assms(1) P in simp)
    ultimately show False using assms(3) id_less_trans by blast
  qed
  then have "filter (\<lambda>e. id_less c (re_id e)) (take d P) = []" by (simp add: filter_empty_conv)
  then show ?thesis using P assms(2) by (metis append_Nil filter_append)
qed



text \<open>
  The gap test can also answer yes when nothing was missed: the cursor is the last event dropped
  and everything after it is still there.
\<close>

lemma gap_without_loss:
  "gap_after 200 (id_str (100, 0)) (snd (publish_run demo_publisher ''j'' demo_events empty_out)) = Some True
   \<and> history 200 (Some (100, 0)) 500 (snd (publish_run demo_publisher ''j'' demo_events empty_out))
     = filter (\<lambda>e. id_less (100, 0) (re_id e)) (fst (publish_run demo_publisher ''j'' demo_events empty_out))"
  by code_simp

text \<open>
  The validation of a client's cursor bounds its form and not its size: a number beyond the 64
  bits of a stream id is accepted.
\<close>

lemma parse_entry_id_id_str: "parse_entry_id (Some (id_str p)) = Some (id_str p)"
proof -
  have d: "list_all is_digit (str_nat (fst p))" "str_nat (fst p) \<noteq> []"
      "list_all is_digit (str_nat (snd p))" "str_nat (snd p) \<noteq> []"
    using str_nat_digits by blast+
  have "str_strip (id_str p) = id_str p"
    by (rule strip_id) (use d str_nat_ends(1) [of "fst p"] str_nat_ends(2) [of "snd p"] digit_not_space
        in \<open>auto simp: id_str_def\<close>)
  moreover have "matches_id (id_str p)"
    using d by (simp add: matches_id_def id_str_def partition_dash_digits)
  moreover have "id_str p \<noteq> []" by (simp add: id_str_def)
  ultimately show ?thesis by (simp add: parse_entry_id_def Let_def)
qed

lemma oversized_cursor_accepted: "parse_entry_id (Some (id_str (2 ^ 64, 0))) = Some (id_str (2 ^ 64, 0))"
  by (rule parse_entry_id_id_str)

end
