(* ===== verification/Circuit_Breaker.thy ===== *)
theory Circuit_Breaker
  imports Orch_Prelude
begin

text \<open>
  The distributed circuit breaker, \<^verbatim>\<open>src/app/ratelimit/breaker.py\<close>: the script
  \<^verbatim>\<open>_BREAKER_LUA\<close> on the breaker's hash and the methods of \<^verbatim>\<open>CircuitBreaker\<close>. Only the
  script writes the hash, all seven fields together, so the hash is a record and its absence
  is the absence of the key. Times are milliseconds; \<open>now\<close> is the server's clock, read
  inside the script.
\<close>

section \<open>The script\<close>

datatype breaker_state = CLOSED | OPEN | HALF_OPEN

datatype breaker_op = op_allow | op_success | op_failure | op_peek

record breaker_hash =
  bh_state :: breaker_state
  bh_window_start :: real
  bh_failures :: int
  bh_successes :: int
  bh_opened_at :: real
  bh_probes :: int
  bh_probe_ok :: int

record breaker_args =
  ba_window_ms :: real
  ba_min_volume :: int
  ba_failure_ratio :: real
  ba_cooldown_ms :: real
  ba_max_probes :: int
  ba_probe_successes :: int
  ba_ttl_ms :: int

record breaker_verdict =
  bv_allowed :: bool
  bv_state :: breaker_state
  bv_retry_after_s :: real
  bv_failures :: int
  bv_successes :: int

text \<open>
  \<^verbatim>\<open>CircuitBreaker.__init__\<close>: the validated configuration, or \<^const>\<open>None\<close> where the constructor
  raises \<^verbatim>\<open>ValueError\<close>.
\<close>

definition CircuitBreaker ::
  "real \<Rightarrow> int \<Rightarrow> real \<Rightarrow> real \<Rightarrow> int \<Rightarrow> int \<Rightarrow> int \<Rightarrow> breaker_args option" where
  "CircuitBreaker window_s min_volume failure_ratio cooldown_s max_probes probe_successes ttl_s =
     (if \<not> (0 < failure_ratio \<and> failure_ratio \<le> 1) then None
      else if min_volume < 1 \<or> max_probes < 1 \<or> probe_successes < 1 then None
      else Some \<lparr>ba_window_ms = window_s * 1000, ba_min_volume = min_volume,
                 ba_failure_ratio = failure_ratio, ba_cooldown_ms = cooldown_s * 1000,
                 ba_max_probes = max_probes, ba_probe_successes = probe_successes,
                 ba_ttl_ms = ttl_s * 1000\<rparr>)"

text \<open>The defaults \<^verbatim>\<open>HMGET\<close> leaves for a missing key.\<close>

definition breaker_load :: "real \<Rightarrow> breaker_hash cell \<Rightarrow> breaker_hash" where
  "breaker_load now c = (case get_live \<lfloor>now\<rfloor> c of
     Some h \<Rightarrow> h
   | None \<Rightarrow> \<lparr>bh_state = CLOSED, bh_window_start = now, bh_failures = 0, bh_successes = 0,
              bh_opened_at = 0, bh_probes = 0, bh_probe_ok = 0\<rparr>)"

text \<open>The two lazy expiries: the window rolls while closed, an elapsed cooldown half-opens.\<close>

definition breaker_roll :: "breaker_args \<Rightarrow> real \<Rightarrow> breaker_hash \<Rightarrow> breaker_hash" where
  "breaker_roll a now h =
     (if bh_state h = CLOSED \<and> now - bh_window_start h \<ge> ba_window_ms a
      then h\<lparr>bh_window_start := now, bh_failures := 0, bh_successes := 0\<rparr> else h)"

definition breaker_cool :: "breaker_args \<Rightarrow> real \<Rightarrow> breaker_hash \<Rightarrow> breaker_hash" where
  "breaker_cool a now h =
     (if bh_state h = OPEN \<and> now - bh_opened_at h \<ge> ba_cooldown_ms a
      then h\<lparr>bh_state := HALF_OPEN, bh_probes := 0, bh_probe_ok := 0\<rparr> else h)"

definition open_retry_ms :: "breaker_args \<Rightarrow> real \<Rightarrow> breaker_hash \<Rightarrow> real" where
  "open_retry_ms a now h =
     (let w = of_int \<lceil>ba_cooldown_ms a - (now - bh_opened_at h)\<rceil> in if w < 0 then 0 else w)"

definition trip :: "real \<Rightarrow> breaker_hash \<Rightarrow> breaker_hash" where
  "trip now h = h\<lparr>bh_state := OPEN, bh_opened_at := now, bh_probes := 0, bh_probe_ok := 0\<rparr>"

text \<open>The dispatch on the operation: \<^verbatim>\<open>allowed\<close>, \<^verbatim>\<open>retry_after_ms\<close> and the new hash.\<close>

fun breaker_dispatch ::
  "breaker_args \<Rightarrow> breaker_op \<Rightarrow> real \<Rightarrow> breaker_hash \<Rightarrow> bool \<times> real \<times> breaker_hash" where
  "breaker_dispatch a op_allow now h =
     (case bh_state h of
        OPEN \<Rightarrow> (False, open_retry_ms a now h, h)
      | HALF_OPEN \<Rightarrow>
          if bh_probes h < ba_max_probes a
          then (True, 0, h\<lparr>bh_probes := bh_probes h + 1\<rparr>)
          else (False, of_int \<lceil>ba_cooldown_ms a / 4\<rceil>, h)
      | CLOSED \<Rightarrow> (True, 0, h))"
| "breaker_dispatch a op_peek now h =
     (case bh_state h of
        OPEN \<Rightarrow> (False, open_retry_ms a now h, h)
      | HALF_OPEN \<Rightarrow> (bh_probes h < ba_max_probes a, 0, h)
      | CLOSED \<Rightarrow> (True, 0, h))"
| "breaker_dispatch a op_success now h =
     (if bh_state h = HALF_OPEN
      then
        let h1 = h\<lparr>bh_probe_ok := bh_probe_ok h + 1,
                   bh_probes := (if bh_probes h > 0 then bh_probes h - 1 else bh_probes h)\<rparr>
        in if bh_probe_ok h1 \<ge> ba_probe_successes a
           then (True, 0, h1\<lparr>bh_state := CLOSED, bh_window_start := now, bh_failures := 0,
                             bh_successes := 0, bh_probes := 0, bh_probe_ok := 0\<rparr>)
           else (True, 0, h1)
      else (True, 0, h\<lparr>bh_successes := bh_successes h + 1\<rparr>))"
| "breaker_dispatch a op_failure now h =
     (if bh_state h = HALF_OPEN
      then (False, ba_cooldown_ms a, trip now h)
      else
        let h1 = h\<lparr>bh_failures := bh_failures h + 1\<rparr>;
            tot = bh_failures h1 + bh_successes h1
        in if tot \<ge> ba_min_volume a \<and> of_int (bh_failures h1) / of_int tot \<ge> ba_failure_ratio a
           then (False, ba_cooldown_ms a, trip now h1)
           else (False, 0, h1))"

definition breaker_lua ::
  "breaker_args \<Rightarrow> breaker_op \<Rightarrow> real \<Rightarrow> breaker_hash cell \<Rightarrow> breaker_verdict \<times> breaker_hash cell" where
  "breaker_lua a op now c =
     (let h = breaker_cool a now (breaker_roll a now (breaker_load now c));
          (allowed, retry_ms, h') = breaker_dispatch a op now h
      in (\<lparr>bv_allowed = allowed, bv_state = bh_state h', bv_retry_after_s = of_int \<lfloor>retry_ms\<rfloor> / 1000,
           bv_failures = bh_failures h', bv_successes = bh_successes h'\<rparr>,
          pexpire \<lfloor>now\<rfloor> (ba_ttl_ms a) (put_fields \<lfloor>now\<rfloor> h' (\<lambda>_. h') c)))"

definition breaker_allow ::
  "breaker_args \<Rightarrow> real \<Rightarrow> breaker_hash cell \<Rightarrow> breaker_verdict \<times> breaker_hash cell" where
  "breaker_allow a now c = breaker_lua a op_allow now c"

definition record_success ::
  "breaker_args \<Rightarrow> real \<Rightarrow> breaker_hash cell \<Rightarrow> breaker_verdict \<times> breaker_hash cell" where
  "record_success a now c = breaker_lua a op_success now c"

definition record_failure ::
  "breaker_args \<Rightarrow> real \<Rightarrow> breaker_hash cell \<Rightarrow> breaker_verdict \<times> breaker_hash cell" where
  "record_failure a now c = breaker_lua a op_failure now c"

definition breaker_peek ::
  "breaker_args \<Rightarrow> real \<Rightarrow> breaker_hash cell \<Rightarrow> breaker_verdict \<times> breaker_hash cell" where
  "breaker_peek a now c = breaker_lua a op_peek now c"

definition breaker_reset :: "breaker_hash cell \<Rightarrow> breaker_hash cell" where
  "breaker_reset c = None"

section \<open>Sequences of calls by any number of replicas\<close>

fun breaker_run ::
  "breaker_args \<Rightarrow> (breaker_op \<times> real) list \<Rightarrow> breaker_hash cell
   \<Rightarrow> breaker_verdict list \<times> breaker_hash cell" where
  "breaker_run a [] c = ([], c)"
| "breaker_run a ((op, now) # evs) c =
     (let (v, c') = breaker_lua a op now c; (vs, c'') = breaker_run a evs c' in (v # vs, c''))"

definition breaker_valid :: "breaker_args \<Rightarrow> bool" where
  "breaker_valid a \<longleftrightarrow> 0 < ba_failure_ratio a \<and> ba_failure_ratio a \<le> 1 \<and> 1 \<le> ba_min_volume a
     \<and> 1 \<le> ba_max_probes a \<and> 1 \<le> ba_probe_successes a"

lemma CircuitBreaker_valid:
  "CircuitBreaker ws mv fr cs mp ps ttl = Some a \<Longrightarrow> breaker_valid a"
  by (auto simp: CircuitBreaker_def breaker_valid_def split: if_splits)

text \<open>The well-formedness of the hash.\<close>

definition breaker_wf :: "breaker_args \<Rightarrow> breaker_hash \<Rightarrow> bool" where
  "breaker_wf a h \<longleftrightarrow> 0 \<le> bh_failures h \<and> 0 \<le> bh_successes h
     \<and> 0 \<le> bh_probes h \<and> bh_probes h \<le> ba_max_probes a
     \<and> 0 \<le> bh_probe_ok h \<and> bh_probe_ok h < ba_probe_successes a
     \<and> (bh_state h \<noteq> HALF_OPEN \<longrightarrow> bh_probes h = 0 \<and> bh_probe_ok h = 0)"

definition cell_wf :: "breaker_args \<Rightarrow> breaker_hash cell \<Rightarrow> bool" where
  "cell_wf a c \<longleftrightarrow> (case c of None \<Rightarrow> True | Some (h, _) \<Rightarrow> breaker_wf a h)"

text \<open>The hash an operation dispatches on, and what it leaves.\<close>

definition breaker_pre :: "breaker_args \<Rightarrow> real \<Rightarrow> breaker_hash cell \<Rightarrow> breaker_hash" where
  "breaker_pre a now c = breaker_cool a now (breaker_roll a now (breaker_load now c))"

lemma breaker_lua_eq:
  "breaker_lua a op now c =
     (let (allowed, retry_ms, h') = breaker_dispatch a op now (breaker_pre a now c)
      in (\<lparr>bv_allowed = allowed, bv_state = bh_state h', bv_retry_after_s = of_int \<lfloor>retry_ms\<rfloor> / 1000,
           bv_failures = bh_failures h', bv_successes = bh_successes h'\<rparr>,
          Some (h', Some (\<lfloor>now\<rfloor> + ba_ttl_ms a))))"
  by (simp add: breaker_lua_def breaker_pre_def cell_simps Let_def split: prod.split)

lemmas breaker_steps = breaker_pre_def breaker_load_def breaker_roll_def breaker_cool_def
  cell_simps Let_def

lemma breaker_pre_wf:
  assumes "breaker_valid a" and "cell_wf a c"
  shows "breaker_wf a (breaker_pre a now c)"
  using assms
  by (auto simp: breaker_steps breaker_wf_def breaker_valid_def cell_wf_def get_live_def
      split: option.splits if_splits prod.splits)

lemma breaker_dispatch_wf:
  assumes "breaker_valid a" and "breaker_wf a h"
  shows "breaker_wf a (snd (snd (breaker_dispatch a op now h)))"
  using assms
  by (cases op) (auto simp: breaker_wf_def breaker_valid_def trip_def Let_def
      split: breaker_state.split)

text \<open>The pairs a run visits, as an inductive relation, and the invariant by rule induction.\<close>

inductive breaker_reach :: "breaker_args \<Rightarrow> breaker_hash cell \<Rightarrow> bool" for a where
  reach_absent: "breaker_reach a None"
| reach_step: "breaker_reach a c \<Longrightarrow> breaker_reach a (snd (breaker_lua a op now c))"
| reach_reset: "breaker_reach a c \<Longrightarrow> breaker_reach a (breaker_reset c)"

lemma cell_wf_step:
  assumes "breaker_valid a" and "cell_wf a c"
  shows "cell_wf a (snd (breaker_lua a op now c))"
  using breaker_dispatch_wf [OF assms(1) breaker_pre_wf [OF assms], of op now now]
  by (auto simp: breaker_lua_eq cell_wf_def split: prod.splits)

lemma breaker_reach_wf: "breaker_reach a c \<Longrightarrow> breaker_valid a \<Longrightarrow> cell_wf a c"
  by (induction rule: breaker_reach.induct)
     (auto simp: cell_wf_step, simp_all add: cell_wf_def breaker_reset_def)

section \<open>An open breaker stays open for its whole cooldown\<close>

definition open_cell :: "breaker_args \<Rightarrow> real \<Rightarrow> breaker_hash cell \<Rightarrow> bool" where
  "open_cell a t0 c \<longleftrightarrow> (\<exists>h e. c = Some (h, Some e) \<and> bh_state h = OPEN \<and> t0 \<le> bh_opened_at h
     \<and> \<lfloor>t0\<rfloor> + ba_ttl_ms a \<le> e)"

lemma open_cell_pre:
  assumes "open_cell a t0 c" and "t0 \<le> now" and "now < t0 + ba_cooldown_ms a"
    and "ba_cooldown_ms a + 1 \<le> of_int (ba_ttl_ms a)"
  shows "\<exists>h. breaker_pre a now c = h \<and> bh_state h = OPEN \<and> t0 \<le> bh_opened_at h"
proof -
  from assms have "\<lfloor>now\<rfloor> < \<lfloor>t0\<rfloor> + ba_ttl_ms a" by linarith
  with assms show ?thesis
    by (auto simp: open_cell_def breaker_steps)
qed

lemma open_cell_step:
  assumes "open_cell a t0 c" and "t0 \<le> now" and "now < t0 + ba_cooldown_ms a"
    and "ba_cooldown_ms a + 1 \<le> of_int (ba_ttl_ms a)"
    and "breaker_lua a op now c = (v, c')"
  shows "open_cell a t0 c' \<and> bv_state v = OPEN \<and> (op = op_allow \<longrightarrow> \<not> bv_allowed v)"
proof -
  obtain h where h: "breaker_pre a now c = h" "bh_state h = OPEN" "t0 \<le> bh_opened_at h"
    using open_cell_pre [OF assms(1-4)] by blast
  have "\<lfloor>t0\<rfloor> \<le> \<lfloor>now\<rfloor>" using assms(2) by (rule floor_mono)
  with h assms(2,5) show ?thesis
    by (cases op) (auto simp: breaker_lua_eq open_cell_def trip_def Let_def split: if_splits)
qed

text \<open>
  C16. Once tripped, a breaker refuses every call on every replica until its cooldown is over.
  From any open hash, whatever calls arrive in any order, successes and failures reported
  late by calls already under way included, each \<^verbatim>\<open>allow\<close> before \<^verbatim>\<open>opened_at + cooldown\<close> is
  refused and the state stays \<^verbatim>\<open>OPEN\<close>. The hash's lifetime is longer than the cooldown.
\<close>

theorem open_for_cooldown:
  assumes "bh_state h = OPEN" and "\<lfloor>bh_opened_at h\<rfloor> + ba_ttl_ms a \<le> e"
    and "ba_cooldown_ms a + 1 \<le> of_int (ba_ttl_ms a)"
    and "\<forall>(op, now) \<in> set evs. bh_opened_at h \<le> now \<and> now < bh_opened_at h + ba_cooldown_ms a"
  shows "list_all2 (\<lambda>(op, _) v. bv_state v = OPEN \<and> (op = op_allow \<longrightarrow> \<not> bv_allowed v))
     evs (fst (breaker_run a evs (Some (h, Some e))))"
proof -
  have "open_cell a (bh_opened_at h) (Some (h, Some e))"
    using assms(1,2) by (simp add: open_cell_def)
  moreover have "list_all2 (\<lambda>(op, _) v. bv_state v = OPEN \<and> (op = op_allow \<longrightarrow> \<not> bv_allowed v))
      evs (fst (breaker_run a evs c))" if "open_cell a (bh_opened_at h) c" for c
    using that assms(4)
  proof (induction evs arbitrary: c)
    case (Cons ev evs)
    obtain op now where ev: "ev = (op, now)" by fastforce
    obtain v c' where st: "breaker_lua a op now c = (v, c')" by fastforce
    have "open_cell a (bh_opened_at h) c' \<and> bv_state v = OPEN \<and> (op = op_allow \<longrightarrow> \<not> bv_allowed v)"
      by (rule open_cell_step [OF Cons.prems(1) _ _ assms(3) st]) (use Cons.prems(2) ev in auto)
    with Cons.IH [of c'] Cons.prems(2) show ?case
      by (auto simp: ev st Let_def split: prod.splits)
  qed simp
  ultimately show ?thesis by blast
qed

text \<open>A breaker tripped at 1000 ms, asked again at 1200 and told of a late success and failure.\<close>

definition demo_breaker :: breaker_args where
  "demo_breaker = \<lparr>ba_window_ms = 10000, ba_min_volume = 10, ba_failure_ratio = 1 / 2,
     ba_cooldown_ms = 5000, ba_max_probes = 3, ba_probe_successes = 2, ba_ttl_ms = 300000\<rparr>"

definition demo_open :: breaker_hash where
  "demo_open = \<lparr>bh_state = OPEN, bh_window_start = 0, bh_failures = 6, bh_successes = 4,
     bh_opened_at = 1000, bh_probes = 0, bh_probe_ok = 0\<rparr>"

definition demo_calls :: "(breaker_op \<times> real) list" where
  "demo_calls = [(op_allow, 1200), (op_success, 1300), (op_failure, 2000), (op_allow, 5999)]"

theorem open_for_cooldown_witness:
  "list_all2 (\<lambda>(op, _) v. bv_state v = OPEN \<and> (op = op_allow \<longrightarrow> \<not> bv_allowed v)) demo_calls
     (fst (breaker_run demo_breaker demo_calls (Some (demo_open, Some 301000))))"
  by (rule open_for_cooldown) (simp_all add: demo_breaker_def demo_open_def demo_calls_def)

section \<open>Probes of a half-open breaker\<close>

definition probes_of :: "breaker_hash cell \<Rightarrow> int" where
  "probes_of c = (case c of None \<Rightarrow> 0 | Some (h, _) \<Rightarrow> if bh_state h = HALF_OPEN then bh_probes h else 0)"

lemma half_open_pre:
  assumes "bh_state (breaker_pre a now c) = HALF_OPEN"
  shows "bh_probes (breaker_pre a now c) = probes_of c"
  using assms
  by (auto simp: breaker_steps probes_of_def get_live_def split: option.splits if_splits)

text \<open>One call that leaves the breaker half-open: a granted probe takes a slot, a success frees one.\<close>

lemma probe_step:
  assumes "breaker_lua a op now c = (v, c')" and "bv_state v = HALF_OPEN"
  shows "of_bool (op = op_allow \<and> bv_allowed v) + probes_of c \<le> probes_of c' + of_bool (op = op_success)"
proof -
  have "bh_state (breaker_pre a now c) = HALF_OPEN"
    using assms
    by (cases op) (auto simp: breaker_lua_eq trip_def Let_def
        split: if_splits breaker_state.splits prod.splits)
  moreover from this have "bh_probes (breaker_pre a now c) = probes_of c"
    by (rule half_open_pre)
  ultimately show ?thesis
    using assms
    by (cases op) (auto simp: breaker_lua_eq probes_of_def trip_def Let_def split: if_splits)
qed

lemma probes_le_max:
  assumes "breaker_valid a" and "cell_wf a c"
  shows "probes_of c \<le> ba_max_probes a"
  using assms by (auto simp: probes_of_def cell_wf_def breaker_wf_def breaker_valid_def
      split: option.split)

text \<open>
  Half-open traffic is bounded across all replicas: while a breaker remains half-open, the
  calls it lets through number at most \<^verbatim>\<open>max_probes\<close> plus the successes reported meanwhile, so
  never more than \<^verbatim>\<open>max_probes\<close> are under way at once. It starts from any reachable hash.
\<close>

theorem half_open_probe_bound:
  assumes "breaker_valid a" and "breaker_reach a c"
    and "breaker_run a evs c = (vs, c')" and "\<forall>v \<in> set vs. bv_state v = HALF_OPEN"
  shows "int (length (filter (\<lambda>((op, _), v). op = op_allow \<and> bv_allowed v) (zip evs vs)))
     \<le> ba_max_probes a + int (length (filter (\<lambda>(op, _). op = op_success) evs))"
proof -
  have "int (length (filter (\<lambda>((op, _), v). op = op_allow \<and> bv_allowed v) (zip evs vs)))
      + probes_of c \<le> ba_max_probes a + int (length (filter (\<lambda>(op, _). op = op_success) evs))"
    using breaker_reach_wf [OF assms(2,1)] assms(3,4)
  proof (induction evs arbitrary: c vs)
    case Nil
    then show ?case using probes_le_max [OF assms(1)] by simp
  next
    case (Cons ev evs)
    obtain op now where ev: "ev = (op, now)" by fastforce
    obtain v c1 where st: "breaker_lua a op now c = (v, c1)" by fastforce
    obtain vs1 where vs: "vs = v # vs1" and rn: "breaker_run a evs c1 = (vs1, c')"
      using Cons.prems(2) by (auto simp: ev st Let_def split: prod.splits)
    have "cell_wf a c1"
      using cell_wf_step [OF assms(1) Cons.prems(1), of op now] by (simp add: st)
    from Cons.IH [OF this rn] Cons.prems(3) probe_step [OF st] show ?case
      by (auto simp: ev vs of_bool_def split: if_splits)
  qed
  moreover have "0 \<le> probes_of c"
    using breaker_reach_wf [OF assms(2,1)]
    by (auto simp: probes_of_def cell_wf_def breaker_wf_def split: option.split)
  ultimately show ?thesis by linarith
qed

definition demo_tripped :: "breaker_hash cell" where
  "demo_tripped = snd (breaker_run (demo_breaker\<lparr>ba_min_volume := 1\<rparr>) [(op_failure, 1000)] None)"

lemma demo_tripped_reach: "breaker_reach (demo_breaker\<lparr>ba_min_volume := 1\<rparr>) demo_tripped"
proof -
  have "demo_tripped = snd (breaker_lua (demo_breaker\<lparr>ba_min_volume := 1\<rparr>) op_failure 1000 None)"
    by (simp add: demo_tripped_def split: prod.split)
  with reach_step [OF reach_absent] show ?thesis by metis
qed

definition demo_probes :: "(breaker_op \<times> real) list" where
  "demo_probes = map (Pair op_allow) [6000, 6001, 6002, 6003, 6004]"

lemma demo_probes_run:
  "map (\<lambda>v. (bv_state v, bv_allowed v))
     (fst (breaker_run (demo_breaker\<lparr>ba_min_volume := 1\<rparr>) demo_probes demo_tripped)) =
   [(HALF_OPEN, True), (HALF_OPEN, True), (HALF_OPEN, True), (HALF_OPEN, False), (HALF_OPEN, False)]"
  by (simp add: demo_probes_def demo_tripped_def demo_breaker_def breaker_lua_eq breaker_steps
      trip_def)

theorem half_open_probe_bound_witness:
  "int (length (filter (\<lambda>((op, _), v). op = op_allow \<and> bv_allowed v)
      (zip demo_probes (fst (breaker_run (demo_breaker\<lparr>ba_min_volume := 1\<rparr>) demo_probes demo_tripped)))))
   \<le> 3"
  using half_open_probe_bound [OF _ demo_tripped_reach prod.collapse [symmetric], of demo_probes]
    arg_cong [OF demo_probes_run, of "\<lambda>xs. \<forall>x \<in> set xs. fst x = HALF_OPEN"]
  by (simp add: breaker_valid_def demo_breaker_def) (simp add: demo_probes_def)

section \<open>Leaving the half-open state\<close>

text \<open>The calls of a run keep the key alive: each comes before the previous one's lifetime ends.\<close>

fun kept_alive :: "int \<Rightarrow> int \<Rightarrow> (breaker_op \<times> real) list \<Rightarrow> bool" where
  "kept_alive ttl e [] = True"
| "kept_alive ttl e ((op, now) # evs) = (\<lfloor>now\<rfloor> < e \<and> kept_alive ttl (\<lfloor>now\<rfloor> + ttl) evs)"

lemma half_open_load:
  assumes "bh_state h = HALF_OPEN" and "\<lfloor>now\<rfloor> < e"
  shows "breaker_pre a now (Some (h, Some e)) = h"
  using assms by (simp add: breaker_steps)

text \<open>
  Probe slots that are never reported back close the breaker for good: once \<^verbatim>\<open>max_probes\<close>
  slots are held in the half-open state and no caller reports, every further \<^verbatim>\<open>allow\<close> and
  \<^verbatim>\<open>peek\<close> is refused however long it goes on, because the refusals themselves renew the hash's
  lifetime and no cooldown runs in this state.
\<close>

theorem unreported_probes_wedge:
  assumes "bh_state h = HALF_OPEN" and "ba_max_probes a \<le> bh_probes h"
    and "\<forall>(op, _) \<in> set evs. op = op_allow \<or> op = op_peek"
    and "kept_alive (ba_ttl_ms a) e evs"
  shows "\<forall>v \<in> set (fst (breaker_run a evs (Some (h, Some e)))). \<not> bv_allowed v \<and> bv_state v = HALF_OPEN"
  using assms
proof (induction evs arbitrary: e)
  case (Cons ev evs)
  obtain op now where ev: "ev = (op, now)" by fastforce
  have "\<lfloor>now\<rfloor> < e" using Cons.prems(4) by (simp add: ev)
  note pre = half_open_load [OF Cons.prems(1) this]
  obtain v where st: "breaker_lua a op now (Some (h, Some e)) = (v, Some (h, Some (\<lfloor>now\<rfloor> + ba_ttl_ms a)))"
      "\<not> bv_allowed v" "bv_state v = HALF_OPEN"
    using Cons.prems(1-3) by (cases op) (auto simp: ev breaker_lua_eq pre)
  have "\<forall>v \<in> set (fst (breaker_run a evs (Some (h, Some (\<lfloor>now\<rfloor> + ba_ttl_ms a))))).
      \<not> bv_allowed v \<and> bv_state v = HALF_OPEN"
    using Cons.prems by (intro Cons.IH) (auto simp: ev)
  with st show ?case
    by (auto simp: ev Let_def split: prod.splits)
qed simp

theorem unreported_probes_wedge_witness:
  "list_all (\<lambda>v. \<not> bv_allowed v \<and> bv_state v = HALF_OPEN)
     (fst (breaker_run demo_breaker [(op_peek, 200000), (op_allow, 400000)]
      (Some (demo_open\<lparr>bh_state := HALF_OPEN, bh_probes := 3\<rparr>, Some 300000))))"
  unfolding list_all_iff
  by (rule unreported_probes_wedge) (simp_all add: demo_open_def demo_breaker_def)

text \<open>
  A recovering endpoint: after the cooldown, callers take turns, each allowed and then reporting
  success; \<open>turns\<close> lists when each one asked and reported.
\<close>

fun turn_events :: "(real \<times> real) list \<Rightarrow> (breaker_op \<times> real) list" where
  "turn_events [] = []"
| "turn_events ((t1, t2) # ts) = (op_allow, t1) # (op_success, t2) # turn_events ts"

lemma half_open_turns:
  assumes "bh_state h = HALF_OPEN" and "bh_probes h = 0"
    and "int (length turns) + bh_probe_ok h = ba_probe_successes a" and "turns \<noteq> []"
    and "kept_alive (ba_ttl_ms a) e (turn_events turns)" and "1 \<le> ba_max_probes a"
  shows "(\<forall>v \<in> set (fst (breaker_run a (turn_events turns) (Some (h, Some e)))). bv_allowed v)
    \<and> (\<exists>h' e'. snd (breaker_run a (turn_events turns) (Some (h, Some e))) = Some (h', e')
         \<and> bh_state h' = CLOSED \<and> bh_failures h' = 0 \<and> bh_successes h' = 0)"
  using assms
proof (induction turns arbitrary: h e)
  case (Cons turn turns)
  obtain t1 t2 where turn: "turn = (t1, t2)" by fastforce
  have al: "\<lfloor>t1\<rfloor> < e" "\<lfloor>t2\<rfloor> < \<lfloor>t1\<rfloor> + ba_ttl_ms a"
    using Cons.prems(5) by (simp_all add: turn)
  let ?h1 = "h\<lparr>bh_probes := 1\<rparr>" and ?h2 = "h\<lparr>bh_probes := 0, bh_probe_ok := bh_probe_ok h + 1\<rparr>"
  have a1: "\<exists>v. breaker_lua a op_allow t1 (Some (h, Some e)) =
      (v, Some (?h1, Some (\<lfloor>t1\<rfloor> + ba_ttl_ms a))) \<and> bv_allowed v"
    using Cons.prems(1,2,6) half_open_load [OF Cons.prems(1) al(1)] by (simp add: breaker_lua_eq)
  have pre: "breaker_pre a t2 (Some (?h1, Some (\<lfloor>t1\<rfloor> + ba_ttl_ms a))) = ?h1"
    by (rule half_open_load) (use Cons.prems(1) al in simp_all)
  show ?case
  proof (cases "turns = []")
    case True
    then have "\<exists>v h'. breaker_lua a op_success t2 (Some (?h1, Some (\<lfloor>t1\<rfloor> + ba_ttl_ms a))) =
        (v, Some (h', Some (\<lfloor>t2\<rfloor> + ba_ttl_ms a))) \<and> bv_allowed v
        \<and> bh_state h' = CLOSED \<and> bh_failures h' = 0 \<and> bh_successes h' = 0"
      using pre Cons.prems(1,3) by (simp add: breaker_lua_eq Let_def)
    with a1 True show ?thesis by (auto simp: turn)
  next
    case False
    then have more: "bh_probe_ok h + 1 < ba_probe_successes a"
      using Cons.prems(3) by (cases turns) auto
    have a2: "\<exists>v. breaker_lua a op_success t2 (Some (?h1, Some (\<lfloor>t1\<rfloor> + ba_ttl_ms a))) =
        (v, Some (?h2, Some (\<lfloor>t2\<rfloor> + ba_ttl_ms a))) \<and> bv_allowed v"
      using pre more Cons.prems(1) by (simp add: breaker_lua_eq Let_def)
    have "(\<forall>v \<in> set (fst (breaker_run a (turn_events turns) (Some (?h2, Some (\<lfloor>t2\<rfloor> + ba_ttl_ms a))))).
          bv_allowed v)
      \<and> (\<exists>h' e'. snd (breaker_run a (turn_events turns) (Some (?h2, Some (\<lfloor>t2\<rfloor> + ba_ttl_ms a)))) = Some (h', e')
         \<and> bh_state h' = CLOSED \<and> bh_failures h' = 0 \<and> bh_successes h' = 0)"
      by (rule Cons.IH) (use Cons.prems False in \<open>auto simp: turn\<close>)
    with a1 a2 show ?thesis
      by (auto simp: turn Let_def split: prod.splits)
  qed
qed simp

text \<open>
  C17. A recovered endpoint is used again: when the cooldown of an open breaker is over, the next
  \<^verbatim>\<open>probe_successes\<close> callers that each report success before the following one asks are all
  let through, and the last report closes the breaker with its counters cleared.
\<close>

theorem recovers_after_probes:
  assumes "breaker_valid a" and "bh_state h = OPEN" and "turns = (t1, t2) # rest"
    and "bh_opened_at h + ba_cooldown_ms a \<le> t1"
    and "int (length turns) = ba_probe_successes a"
    and "kept_alive (ba_ttl_ms a) e (turn_events turns)"
  shows "(\<forall>v \<in> set (fst (breaker_run a (turn_events turns) (Some (h, Some e)))). bv_allowed v)
    \<and> (\<exists>h' e'. snd (breaker_run a (turn_events turns) (Some (h, Some e))) = Some (h', e')
         \<and> bh_state h' = CLOSED \<and> bh_failures h' = 0 \<and> bh_successes h' = 0)"
proof -
  let ?h = "h\<lparr>bh_state := HALF_OPEN, bh_probes := 0, bh_probe_ok := 0\<rparr>"
  have e: "\<lfloor>t1\<rfloor> < e" using assms(3,6) by simp
  have "breaker_pre a t1 (Some (h, Some e)) = breaker_pre a t1 (Some (?h, Some e))"
    using e assms(2,4) by (simp add: breaker_steps)
  then have "breaker_run a (turn_events turns) (Some (h, Some e)) =
      breaker_run a (turn_events turns) (Some (?h, Some e))"
    by (simp add: assms(3) breaker_lua_eq)
  moreover note half_open_turns [of ?h turns a e]
  ultimately show ?thesis
    using assms(1,3,5,6) by (simp add: breaker_valid_def)
qed

theorem recovers_after_probes_witness:
  "list_all bv_allowed (fst (breaker_run demo_breaker (turn_events [(6000, 6100), (6200, 6300)])
       (Some (demo_open, Some 301000))))
    \<and> (\<exists>h' e'. snd (breaker_run demo_breaker (turn_events [(6000, 6100), (6200, 6300)])
         (Some (demo_open, Some 301000))) = Some (h', e')
         \<and> bh_state h' = CLOSED \<and> bh_failures h' = 0 \<and> bh_successes h' = 0)"
  unfolding list_all_iff
  by (rule recovers_after_probes [OF _ _ refl])
     (simp_all add: demo_breaker_def demo_open_def breaker_valid_def)

text \<open>
  Evidence is not frozen while the breaker is open: a failure reported during the cooldown is
  counted and, if the ratio still holds, moves \<^verbatim>\<open>opened_at\<close> forward and so prolongs it.
\<close>

lemma late_failure_prolongs:
  "snd (breaker_lua demo_breaker op_failure 3000 (Some (demo_open, Some 301000))) =
     Some (demo_open\<lparr>bh_failures := 7, bh_opened_at := 3000\<rparr>, Some 303000)"
  by (simp add: breaker_lua_eq breaker_steps demo_open_def demo_breaker_def trip_def)

end
