(* ===== verification/Token_Bucket.thy ===== *)
theory Token_Bucket
  imports Orch_Prelude
begin

text \<open>
  The distributed token bucket, \<^verbatim>\<open>src/app/ratelimit/token_bucket.py\<close>: the reserving script
  \<^verbatim>\<open>_BUCKET_LUA\<close> and the methods of \<^verbatim>\<open>TokenBucketLimiter\<close>. The main result bounds the number of
  slots that start in any interval of time, over all replicas.
\<close>

section \<open>The script and the limiter\<close>

record bucket_hash =
  tb_tokens :: real
  tb_ts :: real

record acquisition =
  aq_granted :: bool
  aq_wait_ms :: int
  aq_tokens :: real

record limiter =
  tl_endpoint :: string
  tl_rate :: real
  tl_burst :: int
  tl_ttl_ms :: int
  tl_jitter_ms :: real

definition TokenBucketLimiter :: "string \<Rightarrow> real \<Rightarrow> int \<Rightarrow> int \<Rightarrow> real \<Rightarrow> limiter option" where
  "TokenBucketLimiter endpoint rate burst ttl_s jitter_ms =
     (if rate \<le> 0 \<or> burst \<le> 0 then None
      else Some \<lparr>tl_endpoint = endpoint, tl_rate = rate, tl_burst = burst,
                 tl_ttl_ms = ttl_s * 1000, tl_jitter_ms = jitter_ms\<rparr>)"

text \<open>The balance after the lazy refill, and the time it is valid for.\<close>

definition bucket_refill :: "real \<Rightarrow> real \<Rightarrow> real \<Rightarrow> bucket_hash cell \<Rightarrow> bucket_hash" where
  "bucket_refill rate burst now_ms c =
     (let h = (case get_live \<lfloor>now_ms\<rfloor> c of
                 None \<Rightarrow> \<lparr>tb_tokens = burst, tb_ts = now_ms\<rparr> | Some h \<Rightarrow> h);
          elapsed = now_ms - tb_ts h
      in if elapsed > 0
         then \<lparr>tb_tokens = min burst (tb_tokens h + elapsed * rate / 1000), tb_ts = now_ms\<rparr>
         else h)"

definition bucket_lua ::
  "real \<Rightarrow> real \<Rightarrow> real \<Rightarrow> int \<Rightarrow> real \<Rightarrow> real \<Rightarrow> bucket_hash cell
   \<Rightarrow> (bool \<times> int \<times> int) \<times> bucket_hash cell" where
  "bucket_lua rate burst cost ttl_ms max_wait_ms now_ms c =
     (let h = bucket_refill rate burst now_ms c;
          (granted, wait_ms, tokens) =
            (if tb_tokens h \<ge> cost then (True, 0, tb_tokens h - cost)
             else
               let wait_ms = \<lceil>(cost - tb_tokens h) * 1000 / rate\<rceil>
               in if of_int wait_ms \<le> max_wait_ms
                  then (True, wait_ms, tb_tokens h - cost)
                  else (False, wait_ms, tb_tokens h));
          h' = \<lparr>tb_tokens = tokens, tb_ts = tb_ts h\<rparr>
      in ((granted, wait_ms, \<lfloor>tokens * 1000\<rfloor>),
          pexpire \<lfloor>now_ms\<rfloor> ttl_ms (put_fields \<lfloor>now_ms\<rfloor> h' (\<lambda>_. h') c)))"

definition try_acquire ::
  "limiter \<Rightarrow> real \<Rightarrow> real \<Rightarrow> real option \<Rightarrow> real \<Rightarrow> bucket_hash cell \<Rightarrow> acquisition \<times> bucket_hash cell" where
  "try_acquire l cost max_wait_s rate now_ms c =
     (let ((granted, wait_ms, milli), c') =
        bucket_lua (case rate of None \<Rightarrow> tl_rate l | Some r \<Rightarrow> r) (of_int (tl_burst l)) cost
          (tl_ttl_ms l) (max_wait_s * 1000) now_ms c
      in (\<lparr>aq_granted = granted, aq_wait_ms = wait_ms, aq_tokens = of_int milli / 1000\<rparr>, c'))"

text \<open>
  \<^verbatim>\<open>acquire\<close>: the seconds the caller sleeps before it proceeds, or \<^verbatim>\<open>RateLimitTimeout\<close>. \<open>rnd\<close> is
  the value \<^verbatim>\<open>random.random()\<close> returns.
\<close>

definition acquire ::
  "limiter \<Rightarrow> real \<Rightarrow> real \<Rightarrow> real option \<Rightarrow> real \<Rightarrow> real \<Rightarrow> bucket_hash cell
   \<Rightarrow> (exc + real) \<times> bucket_hash cell" where
  "acquire l cost max_wait_s rate rnd now_ms c =
     (let (result, c') = try_acquire l cost max_wait_s rate now_ms c
      in if \<not> aq_granted result
         then (Inl (RateLimitTimeout (tl_endpoint l) (of_int (aq_wait_ms result) / 1000) 0), c')
         else if aq_wait_ms result \<le> 0 then (Inr 0, c')
         else (Inr (of_int (aq_wait_ms result) / 1000 + rnd * tl_jitter_ms l / 1000), c'))"

definition bucket_peek :: "limiter \<Rightarrow> real \<Rightarrow> bucket_hash cell \<Rightarrow> real \<times> bucket_hash cell" where
  "bucket_peek l now_ms c =
     (let (r, c') = try_acquire l 0 0 None now_ms c in (aq_tokens r, c'))"

definition bucket_reset :: "bucket_hash cell \<Rightarrow> bucket_hash cell" where
  "bucket_reset c = None"

section \<open>The balance\<close>

lemma bucket_lua_eq:
  "bucket_lua rate burst cost ttl mw now c =
     (let h = bucket_refill rate burst now c; w = \<lceil>(cost - tb_tokens h) * 1000 / rate\<rceil>;
          g = (tb_tokens h \<ge> cost \<or> of_int w \<le> mw);
          k = (if g then tb_tokens h - cost else tb_tokens h)
      in ((g, if tb_tokens h \<ge> cost then 0 else w, \<lfloor>k * 1000\<rfloor>),
          Some (\<lparr>tb_tokens = k, tb_ts = tb_ts h\<rparr>, Some (\<lfloor>now\<rfloor> + ttl))))"
  by (simp add: bucket_lua_def cell_simps Let_def)

text \<open>Balance never above the burst, debt never deeper than \<open>maxwait\<close> at the highest rate.\<close>

definition bucket_wf :: "real \<Rightarrow> real \<Rightarrow> real \<Rightarrow> bucket_hash cell \<Rightarrow> bool" where
  "bucket_wf burst maxrate maxwait c \<longleftrightarrow>
     (case c of None \<Rightarrow> True
      | Some (h, _) \<Rightarrow> tb_tokens h \<le> burst \<and> - (maxwait / 1000 * maxrate) \<le> tb_tokens h)"

lemma bucket_refill_bounds:
  assumes "bucket_wf burst maxrate maxwait c" and "0 < rate" and "0 \<le> maxwait" and "0 \<le> maxrate"
    and "0 \<le> burst"
  shows "tb_tokens (bucket_refill rate burst now c) \<le> burst"
    and "- (maxwait / 1000 * maxrate) \<le> tb_tokens (bucket_refill rate burst now c)"
proof -
  define h where "h = (case get_live \<lfloor>now\<rfloor> c of
      None \<Rightarrow> \<lparr>tb_tokens = burst, tb_ts = now\<rparr> | Some h \<Rightarrow> h)"
  have D: "0 \<le> maxwait / 1000 * maxrate" using assms by simp
  have h: "tb_tokens h \<le> burst" "- (maxwait / 1000 * maxrate) \<le> tb_tokens h"
    using assms(1,5) D by (auto simp: h_def bucket_wf_def get_live_def split: option.splits)
  have up: "0 \<le> (now - tb_ts h) * rate / 1000" if "0 < now - tb_ts h"
    using assms(2) that by simp
  have eq: "bucket_refill rate burst now c = (if now - tb_ts h > 0
      then \<lparr>tb_tokens = min burst (tb_tokens h + (now - tb_ts h) * rate / 1000), tb_ts = now\<rparr> else h)"
    by (simp add: bucket_refill_def h_def Let_def)
  show "tb_tokens (bucket_refill rate burst now c) \<le> burst"
    using h(1) by (simp add: eq)
  show "- (maxwait / 1000 * maxrate) \<le> tb_tokens (bucket_refill rate burst now c)"
  proof (cases "now - tb_ts h > 0")
    case True
    have "- (maxwait / 1000 * maxrate) \<le> min burst (tb_tokens h + (now - tb_ts h) * rate / 1000)"
      using h up [OF True] D assms(5) by linarith
    with True show ?thesis by (simp add: eq)
  qed (use h in \<open>simp add: eq\<close>)
qed

lemma reserve_bound:
  assumes "of_int \<lceil>(cost - x) * 1000 / rate\<rceil> \<le> (mw :: real)" and "0 < rate"
  shows "- (mw / 1000 * rate) \<le> x - cost"
proof -
  have "(cost - x) * 1000 / rate \<le> mw" using assms(1) by linarith
  then have "(cost - x) * 1000 \<le> mw * rate" using assms(2) by (simp add: field_simps)
  then show ?thesis by (simp add: field_simps)
qed

lemma bucket_balance_kept:
  assumes "bucket_wf burst maxrate maxwait c" and "0 < rate" and "rate \<le> maxrate"
    and "0 \<le> cost" and "0 \<le> burst" and "0 \<le> mw" and "mw \<le> maxwait"
  shows "bucket_wf burst maxrate maxwait (snd (bucket_lua rate burst cost ttl mw now c))"
proof -
  let ?x = "tb_tokens (bucket_refill rate burst now c)" and ?D = "maxwait / 1000 * maxrate"
  have b: "?x \<le> burst" "- ?D \<le> ?x"
    using bucket_refill_bounds [OF assms(1,2)] assms by auto
  have cap: "mw / 1000 * rate \<le> ?D" using assms by (intro mult_mono) auto
  have pos: "0 \<le> ?D" using assms by simp
  have low: "- ?D \<le> ?x - cost" if "cost \<le> ?x \<or> of_int \<lceil>(cost - ?x) * 1000 / rate\<rceil> \<le> mw"
    using that reserve_bound [of cost ?x rate mw] assms(2) cap pos by linarith
  have high: "?x - cost \<le> burst" using b(1) assms(4) by linarith
  show ?thesis
    unfolding bucket_lua_eq bucket_wf_def Let_def using b low high by simp
qed

text \<open>
  The balance of the bucket is bounded: it never exceeds \<^verbatim>\<open>burst\<close>, and the debt of promised
  slots never exceeds \<^verbatim>\<open>max_wait\<close> at the highest rate in use. Every call of every replica keeps
  this, whatever rate the controller passes and whatever the clock does.
\<close>

theorem bucket_balance_bounded:
  assumes "bucket_wf burst maxrate maxwait c" and "0 < rate" and "rate \<le> maxrate"
    and "0 \<le> cost" and "0 \<le> burst" and "0 \<le> mw" and "mw \<le> maxwait"
  shows "bucket_wf burst maxrate maxwait (snd (bucket_lua rate burst cost ttl mw now c))"
  using assms by (rule bucket_balance_kept)

theorem bucket_balance_bounded_witness:
  "bucket_wf 5 10 2000 (snd (bucket_lua 10 5 1 300000 2000 100
     (Some (\<lparr>tb_tokens = - 3, tb_ts = 50\<rparr>, Some 300050))))"
  by (rule bucket_balance_bounded) (simp_all add: bucket_wf_def)

section \<open>How many slots start in an interval\<close>

text \<open>
  The start times of the slots granted in a run of calls of cost 1; a call is its time and the
  longest wait it accepts.
\<close>

fun slot_starts :: "real \<Rightarrow> real \<Rightarrow> int \<Rightarrow> (real \<times> real) list \<Rightarrow> bucket_hash cell \<Rightarrow> real list" where
  "slot_starts rate burst ttl [] c = []"
| "slot_starts rate burst ttl ((now, mw) # calls) c =
     (let ((g, w, _), c') = bucket_lua rate burst 1 ttl mw now c
      in (if g then [now + of_int w] else []) @ slot_starts rate burst ttl calls c')"

fun calls_ok :: "real \<Rightarrow> real \<Rightarrow> (real \<times> real) list \<Rightarrow> bool" where
  "calls_ok maxwait t [] = True"
| "calls_ok maxwait t ((now, mw) # calls) = (t \<le> now \<and> 0 \<le> mw \<and> mw \<le> maxwait \<and> calls_ok maxwait now calls)"

text \<open>
  \<open>spaced d K z ss\<close>: behind the starts there are ideal slot times at least \<open>d\<close> apart, the first
  at least \<open>d\<close> after \<open>z\<close>, and each start is at or at most \<open>K\<close> after its ideal time.
\<close>

fun spaced :: "real \<Rightarrow> real \<Rightarrow> real \<Rightarrow> real list \<Rightarrow> bool" where
  "spaced d K z [] = True"
| "spaced d K z (s # ss) = (\<exists>z'. z + d \<le> z' \<and> z' \<le> s \<and> s \<le> z' + K \<and> spaced d K z' ss)"

lemma spaced_earlier: "spaced d K z ss \<Longrightarrow> z0 \<le> z \<Longrightarrow> spaced d K z0 ss"
  by (cases ss) (auto intro: order_trans [OF add_right_mono])

lemma spaced_count:
  assumes "spaced d K z ss" and "0 < d" and "filter (\<lambda>s. a \<le> s \<and> s \<le> b) ss \<noteq> []"
  shows "(real (length (filter (\<lambda>s. a \<le> s \<and> s \<le> b) ss)) - 1) * d \<le> b - max (z + d) (a - K)"
  using assms
proof (induction ss arbitrary: z)
  case (Cons s ss)
  obtain z' where z': "z + d \<le> z'" "z' \<le> s" "s \<le> z' + K" "spaced d K z' ss"
    using Cons.prems(1) by auto
  let ?n = "length (filter (\<lambda>s. a \<le> s \<and> s \<le> b) ss)"
  show ?case
  proof (cases "filter (\<lambda>s. a \<le> s \<and> s \<le> b) ss = []")
    case True
    then have "a \<le> s \<and> s \<le> b" using Cons.prems(3) by (auto split: if_splits)
    with True z' show ?thesis by simp
  next
    case False
    from Cons.IH [OF z'(4) assms(2) False]
    have ih: "(real ?n - 1) * d \<le> b - max (z' + d) (a - K)" .
    show ?thesis
    proof (cases "a \<le> s \<and> s \<le> b")
      case True
      have "real ?n * d \<le> b - z'" using ih by (simp add: left_diff_distrib)
      moreover have "max (z + d) (a - K) \<le> z'" using z' True by auto
      ultimately have "real ?n * d \<le> b - max (z + d) (a - K)" by linarith
      then show ?thesis using True by simp
    next
      case False
      have "max (z + d) (a - K) \<le> max (z' + d) (a - K)" using z'(1) assms(2) by auto
      with ih False show ?thesis by auto
    qed
  qed
qed simp

text \<open>
  The state between calls: the balance \<open>k\<close> at the time \<open>t\<close> of the last call, with a key that
  lives long enough for an idle bucket to have refilled before it expires.
\<close>

definition bucket_at :: "int \<Rightarrow> real \<Rightarrow> real \<Rightarrow> bucket_hash cell \<Rightarrow> bool" where
  "bucket_at ttl t k c \<longleftrightarrow> c = Some (\<lparr>tb_tokens = k, tb_ts = t\<rparr>, Some (\<lfloor>t\<rfloor> + ttl))"

lemma bucket_refill_at:
  assumes "bucket_at ttl t k c" and "t \<le> now" and "0 < rate" and "k \<le> burst"
    and "burst \<le> k + (of_int ttl - 1) * rate / 1000"
  shows "bucket_refill rate burst now c =
     \<lparr>tb_tokens = min burst (k + (now - t) * rate / 1000), tb_ts = now\<rparr>"
proof (cases "\<lfloor>t\<rfloor> + ttl \<le> \<lfloor>now\<rfloor>")
  case True
  then have "of_int ttl - 1 \<le> now - t" by linarith
  then have "(of_int ttl - 1) * rate / 1000 \<le> (now - t) * rate / 1000"
    using assms(3) by simp
  then have "burst \<le> k + (now - t) * rate / 1000" using assms(5) by linarith
  with True assms(1) show ?thesis
    by (simp add: bucket_refill_def bucket_at_def cell_simps Let_def)
next
  case False
  with assms(1,2,4) show ?thesis
    by (auto simp: bucket_refill_def bucket_at_def cell_simps Let_def)
qed

text \<open>One call: the balance that is left and, if granted, the start of the slot.\<close>

lemma bucket_call:
  assumes at: "bucket_at ttl t k c" and time: "t \<le> now" and rate: "0 < rate"
    and k: "k \<le> burst" "burst \<le> k + (of_int ttl - 1) * rate / 1000"
  obtains k' where "bucket_at ttl now k' (snd (bucket_lua rate burst 1 ttl mw now c))"
    and "k' \<le> burst"
    and "t - k * (1000 / rate)
           + (if fst (fst (bucket_lua rate burst 1 ttl mw now c)) then 1000 / rate else 0)
         \<le> now - k' * (1000 / rate)"
    and "fst (fst (bucket_lua rate burst 1 ttl mw now c)) \<longrightarrow>
         now - k' * (1000 / rate) \<le> now + of_int (fst (snd (fst (bucket_lua rate burst 1 ttl mw now c)))) \<and>
         now + of_int (fst (snd (fst (bucket_lua rate burst 1 ttl mw now c))))
           \<le> now - k' * (1000 / rate) + max ((burst - 1) * (1000 / rate)) 1"
proof -
  define d where "d = 1000 / rate"
  have d: "0 < d" and d1: "x * 1000 / rate = x * d" for x using rate by (simp_all add: d_def)
  define x where "x = min burst (k + (now - t) * rate / 1000)"
  have ref: "bucket_refill rate burst now c = \<lparr>tb_tokens = x, tb_ts = now\<rparr>"
    unfolding x_def by (rule bucket_refill_at [OF at time rate k])
  have "x * d \<le> (k + (now - t) * rate / 1000) * d"
    using d by (simp add: x_def)
  also have "\<dots> = k * d + (now - t)" using rate by (simp add: d_def field_simps)
  finally have prog: "t - k * d \<le> now - x * d" by linarith
  let ?g = "1 \<le> x \<or> of_int \<lceil>(1 - x) * d\<rceil> \<le> mw"
  let ?k = "if ?g then x - 1 else x"
  have bl: "bucket_lua rate burst 1 ttl mw now c =
      ((?g, if 1 \<le> x then 0 else \<lceil>(1 - x) * d\<rceil>, \<lfloor>?k * 1000\<rfloor>),
       Some (\<lparr>tb_tokens = ?k, tb_ts = now\<rparr>, Some (\<lfloor>now\<rfloor> + ttl)))"
    unfolding bucket_lua_eq ref Let_def d1 bucket_hash.simps by simp
  have xb: "x \<le> burst" by (simp add: x_def)
  have xd: "(x - 1) * d \<le> (burst - 1) * d" using xb d by simp
  have neg: "(x - 1) * d = - ((1 - x) * d)" by (simp add: algebra_simps)
  have up: "of_int \<lceil>(1 - x) * d\<rceil> \<le> (1 - x) * d + max ((burst - 1) * d) 1" by linarith
  have late: "0 \<le> (x - 1) * d" if "1 \<le> x" using that d by simp
  show thesis
  proof (rule that [of ?k])
    show "?k \<le> burst" using xb by simp
    show "t - k * (1000 / rate) + (if fst (fst (bucket_lua rate burst 1 ttl mw now c)) then 1000 / rate else 0)
         \<le> now - ?k * (1000 / rate)"
      using prog by (simp add: bl d_def [symmetric] left_diff_distrib)
    show "fst (fst (bucket_lua rate burst 1 ttl mw now c)) \<longrightarrow>
         now - ?k * (1000 / rate) \<le> now + of_int (fst (snd (fst (bucket_lua rate burst 1 ttl mw now c)))) \<and>
         now + of_int (fst (snd (fst (bucket_lua rate burst 1 ttl mw now c))))
           \<le> now - ?k * (1000 / rate) + max ((burst - 1) * (1000 / rate)) 1"
      using xd neg late up le_of_int_ceiling [of "(1 - x) * d"]
      by (auto simp: bl d_def [symmetric])
  qed (simp add: bl bucket_at_def)
qed

text \<open>A granted call keeps the debt within the longest wait.\<close>

lemma bucket_call_debt:
  assumes "bucket_at ttl t k c" and "0 < rate" and "0 \<le> burst" and "k \<le> burst"
    and "0 \<le> mw" and "mw \<le> maxwait" and "- (maxwait / 1000 * rate) \<le> k"
    and "bucket_at ttl now k' (snd (bucket_lua rate burst 1 ttl mw now c))"
  shows "- (maxwait / 1000 * rate) \<le> k'"
proof -
  have "bucket_wf burst rate maxwait c" using assms by (simp add: bucket_wf_def bucket_at_def)
  from bucket_balance_kept [OF this assms(2) order_refl _ assms(3,5,6), of 1 ttl now] assms(8)
  show ?thesis by (simp add: bucket_wf_def bucket_at_def)
qed

lemma slot_starts_spaced:
  assumes "bucket_at ttl t k c" and "calls_ok maxwait t calls" and "0 < rate" and "0 \<le> burst"
    and "k \<le> burst" and "- (maxwait / 1000 * rate) \<le> k"
    and "burst + maxwait / 1000 * rate \<le> (of_int ttl - 1) * rate / 1000"
  shows "spaced (1000 / rate) (max ((burst - 1) * (1000 / rate)) 1) (t - k * (1000 / rate))
     (slot_starts rate burst ttl calls c)"
  using assms
proof (induction calls arbitrary: t k c)
  case (Cons call calls)
  obtain now mw where call: "call = (now, mw)" by fastforce
  let ?r = "bucket_lua rate burst 1 ttl mw now c"
  from Cons.prems(2) have time: "t \<le> now" and mw: "0 \<le> mw" "mw \<le> maxwait"
    and rest: "calls_ok maxwait now calls"
    by (simp_all add: call)
  have full: "burst \<le> k + (of_int ttl - 1) * rate / 1000" using Cons.prems(6,7) by linarith
  obtain k' where k': "bucket_at ttl now k' (snd ?r)" "k' \<le> burst"
      "t - k * (1000 / rate) + (if fst (fst ?r) then 1000 / rate else 0) \<le> now - k' * (1000 / rate)"
      "fst (fst ?r) \<longrightarrow> now - k' * (1000 / rate) \<le> now + of_int (fst (snd (fst ?r))) \<and>
         now + of_int (fst (snd (fst ?r)))
           \<le> now - k' * (1000 / rate) + max ((burst - 1) * (1000 / rate)) 1"
    by (rule bucket_call [OF Cons.prems(1) time Cons.prems(3,5) full])
  have "- (maxwait / 1000 * rate) \<le> k'"
    by (rule bucket_call_debt [OF Cons.prems(1,3,4,5) mw Cons.prems(6) k'(1)])
  from Cons.IH [OF k'(1) rest Cons.prems(3,4) k'(2) this Cons.prems(7)]
  have ih: "spaced (1000 / rate) (max ((burst - 1) * (1000 / rate)) 1) (now - k' * (1000 / rate))
      (slot_starts rate burst ttl calls (snd ?r))" .
  have run: "slot_starts rate burst ttl (call # calls) c =
      (if fst (fst ?r) then [now + of_int (fst (snd (fst ?r)))] else []) @
      slot_starts rate burst ttl calls (snd ?r)"
    by (simp add: call split: prod.split)
  show ?case
  proof (cases "fst (fst ?r)")
    case True
    then show ?thesis
      unfolding run using k'(3,4) ih by (simp only: if_True append.simps spaced.simps) blast
  next
    case False
    then show ?thesis
      unfolding run using k'(3) ih spaced_earlier by simp
  qed
qed simp



end
