(* ===== verification/Adaptive_Rate.thy ===== *)
theory Adaptive_Rate
  imports Orch_Prelude "HOL-Library.Multiset"
begin

text \<open>
  The additive-increase, multiplicative-decrease controller,
  \<^verbatim>\<open>src/app/ratelimit/adaptive.py\<close>: the script \<^verbatim>\<open>_AIMD_LUA\<close> on the controller's hash and its
  ring of latencies, and the methods of \<^verbatim>\<open>AdaptiveRate\<close>. The shown facts: the rate stays in
  its band, one congestion event costs one decrease, a healthy endpoint is brought back to
  its advertised rate, and the percentile is the nearest-rank one.
\<close>

section \<open>The script\<close>

datatype aimd_op = aimd_success | aimd_congestion | aimd_read

datatype Congestion = REJECTED | TIMEOUT | LATENCY

datatype aimd_reason =
    R_none | R_signal | R_latency | R_refractory | R_decrease | R_decrease_latency | R_at_floor
  | R_increase

record aimd_hash =
  ah_rate :: real
  ah_successes :: int
  ah_last_decrease_at :: real
  ah_updated_at :: real

record aimd_args =
  aa_min_rate :: real
  aa_max_rate :: real
  aa_decrease_factor :: real
  aa_increase_step :: real
  aa_increase_after :: int
  aa_refractory_ms :: real
  aa_ttl_ms :: int
  aa_latency_slo_ms :: real
  aa_ring_size :: int
  aa_min_samples :: int
  aa_latency_floor :: real

record rate_verdict =
  rv_rate :: real
  rv_changed :: bool
  rv_reason :: aimd_reason
  rv_p95_ms :: real
  rv_successes :: int

text \<open>\<^verbatim>\<open>AdaptiveRate.__init__\<close>; \<^const>\<open>None\<close> where it raises \<^verbatim>\<open>ValueError\<close>.\<close>

definition AdaptiveRate ::
  "real \<Rightarrow> real \<Rightarrow> real \<Rightarrow> real \<Rightarrow> int \<Rightarrow> real \<Rightarrow> real \<Rightarrow> real option \<Rightarrow> int \<Rightarrow> int \<Rightarrow> int
   \<Rightarrow> aimd_args option" where
  "AdaptiveRate max_rate min_rate decrease_factor increase_step increase_after refractory_ms
     latency_slo_ms latency_min_rate latency_samples latency_min_samples ttl_s =
     (let lmin = (case latency_min_rate of None \<Rightarrow> max_rate * (1 / 2) | Some r \<Rightarrow> r)
      in if max_rate \<le> 0 \<or> min_rate \<le> 0 then None
         else if min_rate > max_rate then None
         else if \<not> (0 < decrease_factor \<and> decrease_factor < 1) then None
         else if increase_step \<le> 0 \<or> increase_after < 1 then None
         else if \<not> (min_rate \<le> lmin \<and> lmin \<le> max_rate) then None
         else Some \<lparr>aa_min_rate = min_rate, aa_max_rate = max_rate,
           aa_decrease_factor = decrease_factor, aa_increase_step = increase_step,
           aa_increase_after = increase_after, aa_refractory_ms = refractory_ms,
           aa_ttl_ms = ttl_s * 1000, aa_latency_slo_ms = latency_slo_ms,
           aa_ring_size = latency_samples, aa_min_samples = latency_min_samples,
           aa_latency_floor = lmin\<rparr>)"

text \<open>The nearest-rank percentile of a list, as the script computes it.\<close>

definition p95_of :: "real list \<Rightarrow> real" where
  "p95_of raw =
     (let nums = sort raw; idx = \<lceil>95 / 100 * real (length nums)\<rceil>;
          idx = (if idx < 1 then 1 else idx)
      in nums ! nat (idx - 1))"

text \<open>\<^verbatim>\<open>LTRIM key 0 stop\<close>: a negative \<open>stop\<close> counts from the end.\<close>

definition ltrim0 :: "int \<Rightarrow> 'a list \<Rightarrow> 'a list" where
  "ltrim0 stop xs = take (nat ((if stop < 0 then int (length xs) + stop else stop) + 1)) xs"

text \<open>The latency step: the percentile (or -1) and the ring it leaves.\<close>

definition aimd_latency ::
  "aimd_args \<Rightarrow> aimd_op \<Rightarrow> real \<Rightarrow> real \<Rightarrow> real list cell \<Rightarrow> real \<times> real list cell" where
  "aimd_latency a op latency_ms now ring =
     (if op = aimd_success \<and> latency_ms \<ge> 0 \<and> aa_latency_slo_ms a > 0
      then
        let xs = ltrim0 (aa_ring_size a - 1)
                   (latency_ms # (case get_live \<lfloor>now\<rfloor> ring of None \<Rightarrow> [] | Some ys \<Rightarrow> ys));
            ring' = (if xs = [] then None
                     else pexpire \<lfloor>now\<rfloor> (aa_ttl_ms a) (put_fields \<lfloor>now\<rfloor> [] (\<lambda>_. xs) ring))
        in (if int (length xs) \<ge> aa_min_samples a then p95_of xs else -1, ring')
      else (-1, ring))"

text \<open>The congestion and success steps on \<^verbatim>\<open>rate\<close>, \<^verbatim>\<open>successes\<close> and \<^verbatim>\<open>last_dec\<close>.\<close>

definition aimd_congested ::
  "aimd_args \<Rightarrow> aimd_reason \<Rightarrow> real \<Rightarrow> aimd_hash \<Rightarrow> bool \<times> aimd_reason \<times> aimd_hash" where
  "aimd_congested a reason now h =
     (let h0 = h\<lparr>ah_successes := 0\<rparr>
      in if now - ah_last_decrease_at h < aa_refractory_ms a then (False, R_refractory, h0)
         else
           let floor_rate = (if reason = R_latency then aa_latency_floor a else aa_min_rate a);
               scaled = ah_rate h * aa_decrease_factor a;
               new_rate = (if scaled < floor_rate then floor_rate else scaled)
           in if new_rate \<noteq> ah_rate h
              then (True, if reason = R_signal then R_decrease
                          else if reason = R_latency then R_decrease_latency else reason,
                    h0\<lparr>ah_rate := new_rate, ah_last_decrease_at := now\<rparr>)
              else (False, R_at_floor, h0\<lparr>ah_last_decrease_at := now\<rparr>))"

definition aimd_succeeded :: "aimd_args \<Rightarrow> aimd_hash \<Rightarrow> bool \<times> aimd_reason \<times> aimd_hash" where
  "aimd_succeeded a h =
     (let n = ah_successes h + 1
      in if n \<ge> aa_increase_after a
         then if ah_rate h < aa_max_rate a
              then let r = ah_rate h + aa_increase_step a
                   in (True, R_increase,
                       h\<lparr>ah_successes := 0, ah_rate := (if r > aa_max_rate a then aa_max_rate a else r)\<rparr>)
              else (False, R_none, h\<lparr>ah_successes := 0\<rparr>)
         else (False, R_none, h\<lparr>ah_successes := n\<rparr>))"

definition aimd_load :: "aimd_args \<Rightarrow> real \<Rightarrow> aimd_hash cell \<Rightarrow> aimd_hash" where
  "aimd_load a now c = (case get_live \<lfloor>now\<rfloor> c of
     Some h \<Rightarrow> h
   | None \<Rightarrow> \<lparr>ah_rate = aa_max_rate a, ah_successes = 0, ah_last_decrease_at = 0, ah_updated_at = now\<rparr>)"

definition aimd_update ::
  "aimd_args \<Rightarrow> aimd_op \<Rightarrow> real \<Rightarrow> real \<Rightarrow> aimd_hash \<Rightarrow> bool \<times> aimd_reason \<times> aimd_hash" where
  "aimd_update a op p95 now h =
     (if op = aimd_congestion then aimd_congested a R_signal now h
      else if p95 \<ge> 0 \<and> aa_latency_slo_ms a > 0 \<and> p95 > aa_latency_slo_ms a
      then aimd_congested a R_latency now h
      else if op = aimd_success then aimd_succeeded a h
      else (False, R_none, h))"

definition aimd_lua ::
  "aimd_args \<Rightarrow> aimd_op \<Rightarrow> real \<Rightarrow> real \<Rightarrow> aimd_hash cell \<times> real list cell
   \<Rightarrow> rate_verdict \<times> aimd_hash cell \<times> real list cell" where
  "aimd_lua a op latency_ms now = (\<lambda>(c, ring).
     let (p95, ring') = aimd_latency a op latency_ms now ring;
         (changed, reason, h) = aimd_update a op p95 now (aimd_load a now c);
         h' = h\<lparr>ah_updated_at := now\<rparr>
     in (\<lparr>rv_rate = of_int \<lfloor>ah_rate h' * 1000 + 1 / 2\<rfloor> / 1000, rv_changed = changed,
          rv_reason = reason, rv_p95_ms = of_int \<lfloor>p95 + 1 / 2\<rfloor>, rv_successes = ah_successes h'\<rparr>,
         pexpire \<lfloor>now\<rfloor> (aa_ttl_ms a) (put_fields \<lfloor>now\<rfloor> h' (\<lambda>_. h') c), ring'))"

type_synonym aimd_cells = "aimd_hash cell \<times> real list cell"

definition current_rate :: "aimd_args \<Rightarrow> real \<Rightarrow> aimd_cells \<Rightarrow> real \<times> aimd_cells" where
  "current_rate a now cs = (let (v, cs') = aimd_lua a aimd_read (-1) now cs in (rv_rate v, cs'))"

definition on_success :: "aimd_args \<Rightarrow> real \<Rightarrow> real \<Rightarrow> aimd_cells \<Rightarrow> rate_verdict \<times> aimd_cells" where
  "on_success a latency_ms now cs = aimd_lua a aimd_success latency_ms now cs"

text \<open>The kind of congestion only reaches the log.\<close>

definition on_congestion ::
  "aimd_args \<Rightarrow> Congestion \<Rightarrow> real \<Rightarrow> aimd_cells \<Rightarrow> rate_verdict \<times> aimd_cells" where
  "on_congestion a kind now cs = aimd_lua a aimd_congestion (-1) now cs"

definition aimd_reset :: "aimd_cells \<Rightarrow> aimd_cells" where
  "aimd_reset cs = (None, None)"

section \<open>The percentile\<close>

lemma sorted_rank_le:
  assumes "sorted xs" and "k < length xs"
  shows "Suc k \<le> length (filter (\<lambda>x. x \<le> xs ! k) xs)"
    and "length (filter (\<lambda>x. x < xs ! k) xs) \<le> k"
proof -
  have "filter (\<lambda>x. x \<le> xs ! k) (take (Suc k) xs) = take (Suc k) xs"
    using assms by (auto simp: filter_id_conv in_set_conv_nth sorted_nth_mono)
  then have "length (filter (\<lambda>x. x \<le> xs ! k) (take (Suc k) xs)) = Suc k"
    using assms(2) by simp
  moreover have "length (filter (\<lambda>x. x \<le> xs ! k) xs) =
      length (filter (\<lambda>x. x \<le> xs ! k) (take (Suc k) xs)) + length (filter (\<lambda>x. x \<le> xs ! k) (drop (Suc k) xs))"
    by (metis append_take_drop_id filter_append length_append)
  ultimately show "Suc k \<le> length (filter (\<lambda>x. x \<le> xs ! k) xs)" by linarith
  have "filter (\<lambda>x. x < xs ! k) (drop k xs) = []"
    using assms by (auto simp: filter_empty_conv in_set_conv_nth not_less sorted_nth_mono)
  moreover have "filter (\<lambda>x. x < xs ! k) xs =
      filter (\<lambda>x. x < xs ! k) (take k xs) @ filter (\<lambda>x. x < xs ! k) (drop k xs)"
    by (metis append_take_drop_id filter_append)
  ultimately show "length (filter (\<lambda>x. x < xs ! k) xs) \<le> k"
    using length_filter_le [of "\<lambda>x. x < xs ! k" "take k xs"] by simp
qed

lemma length_filter_sort: "length (filter P (sort xs)) = length (filter P xs)"
  by (metis mset_filter mset_sort size_mset)

lemma p95_rank:
  assumes "raw \<noteq> []"
  shows "95 / 100 * real (length raw) \<le> real (length (filter (\<lambda>x. x \<le> p95_of raw) raw))"
    and "real (length (filter (\<lambda>x. x < p95_of raw) raw)) < 95 / 100 * real (length raw)"
    and "p95_of raw \<in> set raw"
proof -
  define n where "n = length raw"
  define idx where "idx = \<lceil>95 / 100 * real n\<rceil>"
  have n: "0 < n" using assms by (simp add: n_def)
  then have "0 < 95 / 100 * real n" by simp
  then have idx: "1 \<le> idx" and idx_n: "idx \<le> int n"
    unfolding idx_def by linarith+
  define k where "k = nat (idx - 1)"
  have k: "k < length (sort raw)" using idx idx_n by (simp add: k_def n_def)
  have p: "p95_of raw = sort raw ! k"
    using idx unfolding p95_of_def Let_def length_sort k_def idx_def n_def by simp
  have ik: "real (Suc k) = of_int idx" using idx by (simp add: k_def)
  have r: "95 / 100 * real n \<le> of_int idx" "of_int idx < 95 / 100 * real n + 1"
    unfolding idx_def by linarith+
  note rank = sorted_rank_le [OF sorted_sort k, unfolded length_filter_sort, folded p]
  show "95 / 100 * real (length raw) \<le> real (length (filter (\<lambda>x. x \<le> p95_of raw) raw))"
    using rank(1) r(1) ik unfolding n_def by linarith
  show "real (length (filter (\<lambda>x. x < p95_of raw) raw)) < 95 / 100 * real (length raw)"
    using rank(2) r(2) ik unfolding n_def by linarith
  show "p95_of raw \<in> set raw"
    using nth_mem [OF k] by (simp add: p)
qed

text \<open>
  The latency the controller compares with its objective is the nearest-rank 95th percentile
  of the ring: it is one of the samples, at least 95 percent of them are at most that value and
  fewer than 95 percent are below it. This holds for the ring as the script keeps it after a
  success, once there are \<^verbatim>\<open>min_samples\<close> of them.
\<close>

theorem p95_is_nearest_rank:
  assumes "0 \<le> latency_ms" and "0 < aa_latency_slo_ms a" and "1 \<le> aa_ring_size a"
    and "aimd_latency a aimd_success latency_ms now ring = (p95, Some (xs, e))"
    and "aa_min_samples a \<le> int (length xs)"
  shows "p95 \<in> set xs \<and> 95 / 100 * real (length xs) \<le> real (length (filter (\<lambda>x. x \<le> p95) xs))
    \<and> real (length (filter (\<lambda>x. x < p95) xs)) < 95 / 100 * real (length xs)"
proof -
  have "xs \<noteq> []" and "p95 = p95_of xs"
    using assms by (auto simp: aimd_latency_def Let_def cell_simps split: if_splits)
  then show ?thesis using p95_rank [of xs] by simp
qed

definition demo_aimd :: aimd_args where
  "demo_aimd = \<lparr>aa_min_rate = 1, aa_max_rate = 10, aa_decrease_factor = 7 / 10,
     aa_increase_step = 1, aa_increase_after = 2, aa_refractory_ms = 1000, aa_ttl_ms = 300000,
     aa_latency_slo_ms = 500, aa_ring_size = 4, aa_min_samples = 2, aa_latency_floor = 5\<rparr>"

theorem p95_is_nearest_rank_witness:
  "700 \<in> set [400, 700, 100 :: real]
    \<and> 95 / 100 * real (length [400, 700, 100 :: real]) \<le> real (length (filter (\<lambda>x. x \<le> 700) [400, 700, 100 :: real]))
    \<and> real (length (filter (\<lambda>x. x < 700) [400, 700, 100 :: real])) < 95 / 100 * real (length [400, 700, 100 :: real])"
proof -
  have "\<lceil>57 / 20 :: real\<rceil> = 3" by (rule ceiling_unique) simp_all
  then have "aimd_latency demo_aimd aimd_success 400 9 (Some ([700, 100], Some 300000)) =
      (700, Some ([400, 700, 100], Some 300009))"
    by (simp add: aimd_latency_def demo_aimd_def ltrim0_def p95_of_def cell_simps insort_key.simps)
  from p95_is_nearest_rank [OF _ _ _ this] show ?thesis by (simp add: demo_aimd_def)
qed

section \<open>The band of the rate\<close>

definition aimd_valid :: "aimd_args \<Rightarrow> bool" where
  "aimd_valid a \<longleftrightarrow> 0 < aa_min_rate a \<and> aa_min_rate a \<le> aa_latency_floor a
     \<and> aa_latency_floor a \<le> aa_max_rate a \<and> 0 < aa_decrease_factor a \<and> aa_decrease_factor a < 1
     \<and> 0 < aa_increase_step a \<and> 1 \<le> aa_increase_after a"

lemma AdaptiveRate_valid:
  "AdaptiveRate mx mn df st af rf slo lm ls lms ttl = Some a \<Longrightarrow> aimd_valid a"
  by (auto simp: AdaptiveRate_def aimd_valid_def Let_def split: if_splits)

definition rate_in_band :: "aimd_args \<Rightarrow> aimd_hash \<Rightarrow> bool" where
  "rate_in_band a h \<longleftrightarrow> aa_min_rate a \<le> ah_rate h \<and> ah_rate h \<le> aa_max_rate a"

lemma shrink_le: "0 < f \<Longrightarrow> f < 1 \<Longrightarrow> 0 < r \<Longrightarrow> r * f < (r :: real)"
  by simp

lemma aimd_update_band:
  assumes "aimd_valid a" and "rate_in_band a h"
  shows "rate_in_band a (snd (snd (aimd_update a op p95 now h)))"
proof -
  have "ah_rate h * aa_decrease_factor a < ah_rate h"
    using assms by (intro shrink_le) (auto simp: aimd_valid_def rate_in_band_def)
  then have "ah_rate h * aa_decrease_factor a \<le> aa_max_rate a"
    using assms(2) by (auto simp: rate_in_band_def)
  then show ?thesis
    using assms
    by (auto simp: aimd_update_def aimd_congested_def aimd_succeeded_def rate_in_band_def
        aimd_valid_def Let_def)
qed

inductive aimd_reach :: "aimd_args \<Rightarrow> aimd_cells \<Rightarrow> bool" for a where
  aimd_start: "aimd_reach a (None, None)"
| aimd_step: "aimd_reach a cs \<Longrightarrow> aimd_reach a (snd (aimd_lua a op latency_ms now cs))"
| aimd_clear: "aimd_reach a cs \<Longrightarrow> aimd_reach a (aimd_reset cs)"

lemma aimd_lua_cells:
  "snd (aimd_lua a op latency_ms now (c, ring)) =
     (Some ((snd (snd (aimd_update a op (fst (aimd_latency a op latency_ms now ring)) now
         (aimd_load a now c))))\<lparr>ah_updated_at := now\<rparr>, Some (\<lfloor>now\<rfloor> + aa_ttl_ms a)),
      snd (aimd_latency a op latency_ms now ring))"
  by (simp add: aimd_lua_def cell_simps Let_def split: prod.split)

lemma aimd_load_band:
  assumes "aimd_valid a" and "case c of None \<Rightarrow> True | Some (h, _) \<Rightarrow> rate_in_band a h"
  shows "rate_in_band a (aimd_load a now c)"
  using assms
  by (auto simp: aimd_load_def get_live_def rate_in_band_def aimd_valid_def split: option.splits)

lemma aimd_reach_band:
  assumes "aimd_reach a cs" and "aimd_valid a"
  shows "case fst cs of None \<Rightarrow> True | Some (h, _) \<Rightarrow> rate_in_band a h"
  using assms
proof (induction rule: aimd_reach.induct)
  case (aimd_step cs op latency_ms now)
  then show ?case
    using aimd_update_band [OF aimd_step.prems aimd_load_band [OF aimd_step.prems], of "fst cs"]
    by (cases cs) (simp add: aimd_lua_cells rate_in_band_def)
qed (simp_all add: aimd_reset_def)



section \<open>Sequences of reports\<close>

text \<open>A report is an operation, the latency it carries and the server time.\<close>

fun aimd_run :: "aimd_args \<Rightarrow> (aimd_op \<times> real \<times> real) list \<Rightarrow> aimd_cells \<Rightarrow> rate_verdict list \<times> aimd_cells" where
  "aimd_run a [] cs = ([], cs)"
| "aimd_run a ((op, latency_ms, now) # evs) cs =
     (let (v, cs') = aimd_lua a op latency_ms now cs; (vs, cs'') = aimd_run a evs cs' in (v # vs, cs''))"

lemma aimd_load_live: "\<lfloor>now\<rfloor> < e \<Longrightarrow> aimd_load a now (Some (h, Some e)) = h"
  by (simp add: aimd_load_def cell_simps)

lemma aimd_lua_verdict:
  "rv_reason (fst (aimd_lua a op latency_ms now (c, ring))) =
     fst (snd (aimd_update a op (fst (aimd_latency a op latency_ms now ring)) now (aimd_load a now c)))"
  by (simp add: aimd_lua_def Let_def split: prod.split)

lemma aimd_update_refractory:
  assumes "now - ah_last_decrease_at h < aa_refractory_ms a" and "aimd_valid a"
  shows "ah_last_decrease_at (snd (snd (aimd_update a op p95 now h))) = ah_last_decrease_at h"
    and "ah_rate h \<le> ah_rate (snd (snd (aimd_update a op p95 now h)))"
    and "fst (snd (aimd_update a op p95 now h)) \<notin> {R_decrease, R_decrease_latency}"
  using assms
  by (auto simp: aimd_update_def aimd_congested_def aimd_succeeded_def aimd_valid_def Let_def)

text \<open>
  C21. One event costs one decrease: after a decrease at \<open>t0\<close>, whatever is reported by any
  replica within the refractory window, all the failures of requests already under way
  included, the rate is not lowered again; it can only grow.
\<close>

theorem one_decrease_per_window:
  assumes "aimd_valid a" and "ah_last_decrease_at h = t0" and "\<lfloor>t0\<rfloor> + aa_ttl_ms a \<le> e"
    and "aa_refractory_ms a + 1 \<le> of_int (aa_ttl_ms a)"
    and "\<forall>(op, latency_ms, now) \<in> set evs. t0 \<le> now \<and> now < t0 + aa_refractory_ms a"
    and "aimd_run a evs (Some (h, Some e), ring) = (vs, Some (h', e'), ring')"
  shows "ah_rate h \<le> ah_rate h' \<and> (\<forall>v \<in> set vs. rv_reason v \<notin> {R_decrease, R_decrease_latency})"
  using assms
proof (induction evs arbitrary: h e ring vs)
  case (Cons ev evs)
  obtain op lat now where ev: "ev = (op, lat, now)" by (cases ev)
  have now: "t0 \<le> now" "now < t0 + aa_refractory_ms a" using Cons.prems(5) by (auto simp: ev)
  then have "\<lfloor>now\<rfloor> < e" and fl: "\<lfloor>t0\<rfloor> \<le> \<lfloor>now\<rfloor>" using Cons.prems(3,4) by linarith+
  note ld = aimd_load_live [OF this(1), of a h]
  let ?u = "aimd_update a op (fst (aimd_latency a op lat now ring)) now h"
  let ?h = "(snd (snd ?u))\<lparr>ah_updated_at := now\<rparr>" and ?e = "\<lfloor>now\<rfloor> + aa_ttl_ms a"
  have "now - ah_last_decrease_at h < aa_refractory_ms a" using now Cons.prems(2) by simp
  note up = aimd_update_refractory [OF this Cons.prems(1), of op "fst (aimd_latency a op lat now ring)"]
  obtain v ring1 where st: "aimd_lua a op lat now (Some (h, Some e), ring) = (v, Some (?h, Some ?e), ring1)"
      and rs: "rv_reason v = fst (snd ?u)"
    using aimd_lua_cells [of a op lat now "Some (h, Some e)" ring]
      aimd_lua_verdict [of a op lat now "Some (h, Some e)" ring]
    by (cases "aimd_lua a op lat now (Some (h, Some e), ring)") (simp add: ld)
  obtain vs1 where vs: "vs = v # vs1" "aimd_run a evs (Some (?h, Some ?e), ring1) = (vs1, Some (h', e'), ring')"
    using Cons.prems(6) by (auto simp: ev st Let_def split: prod.splits)
  have "ah_rate ?h \<le> ah_rate h' \<and> (\<forall>v \<in> set vs1. rv_reason v \<notin> {R_decrease, R_decrease_latency})"
    by (rule Cons.IH [OF Cons.prems(1) _ _ Cons.prems(4) _ vs(2)])
       (use Cons.prems(2,5) up fl in \<open>auto simp: ev\<close>)
  with up rs show ?case by (auto simp: vs)
qed simp

theorem one_decrease_per_window_witness:
  "8 \<le> ah_rate (fst (the (fst (snd (aimd_run demo_aimd
       [(aimd_congestion, -1, 1100), (aimd_congestion, -1, 1900)]
       (Some (\<lparr>ah_rate = 8, ah_successes = 1, ah_last_decrease_at = 1000, ah_updated_at = 1000\<rparr>,
         Some 301000), None))))))"
  using one_decrease_per_window [of demo_aimd
      "\<lparr>ah_rate = 8, ah_successes = 1, ah_last_decrease_at = 1000, ah_updated_at = 1000\<rparr>" 1000 301000
      "[(aimd_congestion, -1, 1100), (aimd_congestion, -1, 1900)]" None]
  by (simp add: demo_aimd_def aimd_valid_def aimd_lua_def aimd_latency_def aimd_update_def
      aimd_congested_def aimd_load_def cell_simps Let_def)

section \<open>Recovery\<close>

fun aimd_alive :: "int \<Rightarrow> int \<Rightarrow> (aimd_op \<times> real \<times> real) list \<Rightarrow> bool" where
  "aimd_alive ttl e [] = True"
| "aimd_alive ttl e ((op, lat, now) # evs) = (\<lfloor>now\<rfloor> < e \<and> aimd_alive ttl (\<lfloor>now\<rfloor> + ttl) evs)"

text \<open>The state after \<open>N\<close> successes in a row from rate \<open>r0\<close>.\<close>

definition climbed :: "aimd_args \<Rightarrow> real \<Rightarrow> int \<Rightarrow> aimd_hash \<Rightarrow> bool" where
  "climbed a r0 N h \<longleftrightarrow> 0 \<le> N \<and> ah_successes h = N mod aa_increase_after a
     \<and> ah_rate h = min (aa_max_rate a) (r0 + aa_increase_step a * of_int (N div aa_increase_after a))"

lemma climbed_step:
  assumes "aimd_valid a" and "climbed a r0 N h" and "aimd_succeeded a h = (ch, rs, h')"
  shows "climbed a r0 (N + 1) h'"
proof -
  let ?k = "aa_increase_after a"
  have k: "0 < ?k" using assms(1) by (simp add: aimd_valid_def)
  have m: "N mod ?k < ?k" "N = ?k * (N div ?k) + N mod ?k" using k by simp_all
  show ?thesis
  proof (cases "N mod ?k + 1 \<ge> ?k")
    case True
    moreover have "?k * (N div ?k + 1) = ?k * (N div ?k) + ?k" by (simp add: distrib_left)
    ultimately have "N + 1 = ?k * (N div ?k + 1)" using m by linarith
    then have d: "(N + 1) div ?k = N div ?k + 1" "(N + 1) mod ?k = 0" using k by simp_all
    have "0 < aa_increase_step a" using assms(1) by (simp add: aimd_valid_def)
    with True assms(2,3) show ?thesis
      by (auto simp: climbed_def aimd_succeeded_def d Let_def distrib_left min_def split: if_splits)
  next
    case False
    have N1: "N + 1 = ?k * (N div ?k) + (N mod ?k + 1)" using m(2) by linarith
    have r: "0 \<le> N mod ?k + 1" "N mod ?k + 1 < ?k" using False k by simp_all
    have "(N + 1) div ?k = N div ?k" "(N + 1) mod ?k = N mod ?k + 1"
      by (rule int_div_pos_eq [OF N1 r], rule int_mod_pos_eq [OF N1 r])
    with False assms(2,3) show ?thesis
      by (auto simp add: climbed_def aimd_succeeded_def Let_def split: if_splits)
  qed
qed

lemma aimd_update_healthy:
  assumes "fst (snd (aimd_update a aimd_success p95 now h)) \<in> {R_none, R_increase}"
  shows "aimd_update a aimd_success p95 now h = aimd_succeeded a h"
  using assms by (auto simp: aimd_update_def aimd_congested_def Let_def split: if_splits)

lemma climb_run:
  assumes "aimd_valid a" and "climbed a r0 N h" and "\<forall>(op, _) \<in> set evs. op = aimd_success"
    and "aimd_alive (aa_ttl_ms a) e evs"
    and "\<forall>v \<in> set (fst (aimd_run a evs (Some (h, Some e), ring))). rv_reason v \<in> {R_none, R_increase}"
  shows "\<exists>h' e'. fst (snd (aimd_run a evs (Some (h, Some e), ring))) = Some (h', e')
     \<and> climbed a r0 (N + int (length evs)) h'"
  using assms
proof (induction evs arbitrary: N h e ring)
  case (Cons ev evs)
  obtain lat now where ev: "ev = (aimd_success, lat, now)" using Cons.prems(3) by (cases ev) auto
  have "\<lfloor>now\<rfloor> < e" using Cons.prems(4) by (simp add: ev)
  note ld = aimd_load_live [OF this, of a h]
  let ?u = "aimd_update a aimd_success (fst (aimd_latency a aimd_success lat now ring)) now h"
  let ?h = "(snd (snd ?u))\<lparr>ah_updated_at := now\<rparr>" and ?e = "\<lfloor>now\<rfloor> + aa_ttl_ms a"
  obtain v ring1 where st: "aimd_lua a aimd_success lat now (Some (h, Some e), ring) = (v, Some (?h, Some ?e), ring1)"
      and rs: "rv_reason v = fst (snd ?u)"
    using aimd_lua_cells [of a aimd_success lat now "Some (h, Some e)" ring]
      aimd_lua_verdict [of a aimd_success lat now "Some (h, Some e)" ring]
    by (cases "aimd_lua a aimd_success lat now (Some (h, Some e), ring)") (simp add: ld)
  have run: "aimd_run a (ev # evs) (Some (h, Some e), ring) =
      (v # fst (aimd_run a evs (Some (?h, Some ?e), ring1)), snd (aimd_run a evs (Some (?h, Some ?e), ring1)))"
    by (simp add: ev st split: prod.split)
  have "fst (snd ?u) \<in> {R_none, R_increase}"
    using Cons.prems(5) rs unfolding run by simp
  note suc = aimd_update_healthy [OF this]
  obtain ch rs h1 where h1: "aimd_succeeded a h = (ch, rs, h1)" by (cases "aimd_succeeded a h")
  have "climbed a r0 (N + 1) ?h"
    using climbed_step [OF Cons.prems(1,2) h1] by (simp add: suc h1 climbed_def)
  moreover have "\<forall>v \<in> set (fst (aimd_run a evs (Some (?h, Some ?e), ring1))). rv_reason v \<in> {R_none, R_increase}"
    using Cons.prems(5) unfolding run by simp
  ultimately show ?case
    unfolding run using Cons.IH [of "N + 1" ?h ?e ring1] Cons.prems(1,3,4) by (simp add: ev add.assoc)
qed simp

text \<open>
  A healthy endpoint gets its advertised rate back: in a row of successes in which no
  report is judged congested, every \<^verbatim>\<open>increase_after\<close> of them add \<^verbatim>\<open>increase_step\<close> to the rate
  until \<^verbatim>\<open>max_rate\<close>, where it stays.
\<close>

theorem rate_recovers:
  assumes "aimd_valid a" and "ah_successes h = 0" and "ah_rate h \<le> aa_max_rate a"
    and "\<forall>(op, _) \<in> set evs. op = aimd_success" and "aimd_alive (aa_ttl_ms a) e evs"
    and "aimd_run a evs (Some (h, Some e), ring) = (vs, Some (h', e'), ring')"
    and "\<forall>v \<in> set vs. rv_reason v \<in> {R_none, R_increase}"
  shows "ah_rate h' = min (aa_max_rate a)
     (ah_rate h + aa_increase_step a * of_int (int (length evs) div aa_increase_after a))"
proof -
  have "climbed a (ah_rate h) 0 h" using assms(2,3) by (simp add: climbed_def)
  from climb_run [OF assms(1) this assms(4,5), of ring] assms(6,7) show ?thesis
    by (auto simp: climbed_def)
qed

theorem rate_recovers_witness:
  "ah_rate (fst (the (fst (snd (aimd_run demo_aimd
       [(aimd_success, 90, 4000), (aimd_success, 80, 4100), (aimd_success, 90, 4200), (aimd_success, 70, 4300)]
       (Some (\<lparr>ah_rate = 9, ah_successes = 0, ah_last_decrease_at = 1000, ah_updated_at = 1000\<rparr>,
         Some 301000), None)))))) = 10"
proof -
  have c: "\<lceil>19 / 10 :: real\<rceil> = 2" "\<lceil>57 / 20 :: real\<rceil> = 3" "\<lceil>19 / 5 :: real\<rceil> = 4"
    by (rule ceiling_unique; simp)+
  show ?thesis
    using rate_recovers [of demo_aimd
      "\<lparr>ah_rate = 9, ah_successes = 0, ah_last_decrease_at = 1000, ah_updated_at = 1000\<rparr>"
      "[(aimd_success, 90, 4000), (aimd_success, 80, 4100), (aimd_success, 90, 4200), (aimd_success, 70, 4300)]"
      301000 None]
    by (simp add: demo_aimd_def aimd_valid_def aimd_lua_def aimd_latency_def aimd_update_def ltrim0_def
      aimd_succeeded_def aimd_load_def cell_simps Let_def p95_of_def insort_key.simps c)
qed

text \<open>
  A latency breach can raise the rate. The floor for a latency breach is above the floor
  for a rejection, and the new rate is lifted to that floor even from below it: at a rate the
  rejections have brought under \<^verbatim>\<open>latency_floor\<close>, a report judged slow outside the refractory
  window sets the rate up to the floor, with the reason \<^verbatim>\<open>decrease_latency\<close>.
\<close>

theorem latency_breach_can_raise_rate:
  assumes "aimd_valid a" and "ah_rate h < aa_latency_floor a"
    and "aa_refractory_ms a \<le> now - ah_last_decrease_at h"
    and "aa_latency_slo_ms a < p95" and "0 < aa_latency_slo_ms a" and "0 < ah_rate h"
  shows "\<exists>h'. aimd_update a aimd_success p95 now h = (True, R_decrease_latency, h')
     \<and> ah_rate h' = aa_latency_floor a \<and> ah_rate h < ah_rate h'"
proof -
  have "ah_rate h * aa_decrease_factor a < ah_rate h"
    using assms by (intro shrink_le) (auto simp: aimd_valid_def)
  then have "ah_rate h * aa_decrease_factor a < aa_latency_floor a" using assms(2) by linarith
  with assms show ?thesis by (simp add: aimd_update_def aimd_congested_def Let_def)
qed

theorem latency_breach_can_raise_rate_witness:
  "\<exists>h'. aimd_update demo_aimd aimd_success 700 9000
       \<lparr>ah_rate = 1, ah_successes = 0, ah_last_decrease_at = 1000, ah_updated_at = 1000\<rparr> =
       (True, R_decrease_latency, h') \<and> ah_rate h' = 5 \<and> 1 < ah_rate h'"
  using latency_breach_can_raise_rate [of demo_aimd
      "\<lparr>ah_rate = 1, ah_successes = 0, ah_last_decrease_at = 1000, ah_updated_at = 1000\<rparr>" 9000 700]
  by (simp add: demo_aimd_def aimd_valid_def)

end
