(* ===== verification/Retry_Policy.thy ===== *)
theory Retry_Policy
  imports Orch_Prelude
begin

text \<open>
  Which failures are retried and how long to wait, \<^verbatim>\<open>src/app/ratelimit/retry.py\<close>.
\<close>

definition RETRYABLE_STATUSES :: "int list" where
  "RETRYABLE_STATUSES = [408, 425, 429, 500, 502, 503, 504]"

datatype Disposition = RETRY | PERMANENT | SATURATED | CIRCUIT_OPEN

fun classify :: "exc \<Rightarrow> Disposition" where
  "classify (CircuitOpen _ _) = CIRCUIT_OPEN"
| "classify (RateLimitTimeout _ _ _) = SATURATED"
| "classify (HTTPStatusError status _) =
     (if status \<in> set RETRYABLE_STATUSES then RETRY else PERMANENT)"
| "classify TimeoutException = RETRY"
| "classify TransportError = RETRY"
| "classify _ = PERMANENT"

text \<open>
  \<^verbatim>\<open>headers.get(name)\<close> is \<open>map_of\<close>; the value is the number the header parses to, if it does.
\<close>

fun retry_after_ms :: "exc \<Rightarrow> real option" where
  "retry_after_ms (HTTPStatusError _ headers) =
     (case map_of headers ''x-retry-after-ms'' of
        Some (Some precise) \<Rightarrow> Some (max 0 precise)
      | _ \<Rightarrow>
          (case map_of headers ''retry-after'' of
             Some (Some seconds) \<Rightarrow> Some (max 0 (seconds * 1000))
           | _ \<Rightarrow> None))"
| "retry_after_ms _ = None"

text \<open>\<open>u1\<close> and \<open>u2\<close> are the draws of \<^verbatim>\<open>random.random()\<close> behind the two uniform draws.\<close>

definition backoff_delay_s :: "nat \<Rightarrow> real \<Rightarrow> real \<Rightarrow> real option \<Rightarrow> real \<Rightarrow> real \<Rightarrow> real" where
  "backoff_delay_s attempt base_ms max_ms hint u1 u2 =
     (let ceiling_ms = min max_ms (base_ms * 2 ^ attempt);
          delay_ms = ceiling_ms * u1
      in (case hint of
            None \<Rightarrow> delay_ms
          | Some h \<Rightarrow> max delay_ms h + base_ms * u2) / 1000)"

lemma retry_after_ms_nonneg: "retry_after_ms e = Some h \<Longrightarrow> 0 \<le> h"
  by (cases e) (auto split: option.splits)

text \<open>
  The wait before a retry honours the server and the cap: it is at least what the server
  asked for and at most the larger of the hint and the cap, plus one base step of jitter; with
  no hint it is at most the cap and at most the exponential ceiling.
\<close>

theorem backoff_bounds:
  assumes "0 \<le> base_ms" and "0 \<le> max_ms" and "0 \<le> u1" and "u1 \<le> 1" and "0 \<le> u2" and "u2 \<le> 1"
    and "delay = backoff_delay_s attempt base_ms max_ms (retry_after_ms e) u1 u2"
  shows "(case retry_after_ms e of
            None \<Rightarrow> 0 \<le> delay \<and> delay * 1000 \<le> max_ms \<and> delay * 1000 \<le> base_ms * 2 ^ attempt
          | Some h \<Rightarrow> h \<le> delay * 1000 \<and> delay * 1000 \<le> max max_ms h + base_ms)"
proof -
  let ?c = "min max_ms (base_ms * 2 ^ attempt)"
  have c: "0 \<le> ?c" using assms by simp
  then have d: "0 \<le> ?c * u1" "?c * u1 \<le> ?c"
    using mult_nonneg_nonneg [OF c assms(3)] mult_left_le [OF assms(4) c] by blast+
  have j: "0 \<le> base_ms * u2" "base_ms * u2 \<le> base_ms" using assms by (simp_all add: mult_left_le)
  have m: "?c \<le> max_ms" "?c \<le> base_ms * 2 ^ attempt" by simp_all
  show ?thesis
  proof (cases "retry_after_ms e")
    case None
    have "delay * 1000 = ?c * u1" using assms(7) None by (simp add: backoff_delay_s_def Let_def)
    then have "0 \<le> delay * 1000 \<and> delay * 1000 \<le> max_ms \<and> delay * 1000 \<le> base_ms * 2 ^ attempt"
      using d m by linarith
    with None show ?thesis by simp
  next
    case (Some h)
    have "delay * 1000 = max (?c * u1) h + base_ms * u2"
      using assms(7) Some by (simp add: backoff_delay_s_def Let_def)
    then have "h \<le> delay * 1000 \<and> delay * 1000 \<le> max max_ms h + base_ms"
      using d m j by linarith
    with Some show ?thesis by simp
  qed
qed

theorem backoff_bounds_witness:
  "1500 \<le> backoff_delay_s 2 200 5000 (retry_after_ms (HTTPStatusError 429 [(''retry-after'', Some (3 / 2))])) (1 / 2) (1 / 4) * 1000"
  using backoff_bounds [of 200 5000 "1 / 2" "1 / 4" _ 2 "HTTPStatusError 429 [(''retry-after'', Some (3 / 2))]"]
  by simp

end
