(* ===== verification/Model_Client.thy ===== *)
theory Model_Client
  imports Circuit_Breaker Token_Bucket Adaptive_Rate Retry_Policy
begin

text \<open>
  The worker's HTTP client of the model service, \<^verbatim>\<open>src/app/worker/client.py\<close>: the gates in
  front of a request (breaker, controller, token bucket), what each outcome reports back to
  them, and the bounded retry loop.

  The world of a call is the Redis side (\<open>redis_side\<close>: server clock and the cells of the three
  gates per endpoint) and the client's own counters and the requests it has sent. Between two
  awaits other replicas act and time passes: the parameter \<open>env\<close> is what happens at the n-th
  await, and it may also make that await raise (a failing Redis connection, a cancellation).
  The HTTP service is the parameter \<open>http\<close>: what the n-th request is answered with. \<open>rnd\<close> gives
  the random draws, \<open>digest\<close> is the hash of the idempotency key. Logs and metrics are left out.
\<close>

section \<open>World and parameters\<close>

record redis_side =
  rs_now :: real
  rs_breaker :: "string \<Rightarrow> breaker_hash cell"
  rs_bucket :: "string \<Rightarrow> bucket_hash cell"
  rs_aimd :: "string \<Rightarrow> aimd_cells"

record http_request =
  hr_path :: string
  hr_job_id :: string
  hr_page_index :: int
  hr_page_ref :: "string option"
  hr_page :: "json option"
  hr_idempotency_key :: string

record client_world =
  cw_redis :: redis_side
  cw_tick :: nat
  cw_sent :: "http_request list"
  cw_rate_limit_wait_s :: real
  cw_retries :: int
  cw_retry_successes :: int
  cw_last_state :: "string \<Rightarrow> breaker_state option"

text \<open>\<^verbatim>\<open>ModelClient.__init__\<close>: the gates are optional per endpoint.\<close>

record client_config =
  cc_limiters :: "string \<Rightarrow> limiter option"
  cc_breakers :: "string \<Rightarrow> breaker_args option"
  cc_controllers :: "string \<Rightarrow> aimd_args option"
  cc_max_wait_s :: real
  cc_max_attempts :: nat
  cc_backoff_base_ms :: real
  cc_backoff_max_ms :: real

type_synonym client_env = "nat \<Rightarrow> redis_side \<Rightarrow> fault option \<times> redis_side"

text \<open>A response: how long it took (milliseconds) and the exception or the decoded body.\<close>

type_synonym http_service = "nat \<Rightarrow> http_request \<Rightarrow> real \<times> (exc + json option)"

definition LAYOUT_PATH :: string where "LAYOUT_PATH = ''/v1/predict/layout''"
definition VLM_PATH :: string where "VLM_PATH = ''/v1/predict/vlm''"
definition LAYOUT :: string where "LAYOUT = ''layout''"
definition VLM :: string where "VLM = ''vlm''"

definition idempotency_key :: "(string \<Rightarrow> string) \<Rightarrow> string \<Rightarrow> int \<Rightarrow> string \<Rightarrow> string" where
  "idempotency_key digest job_id page_index stage =
     take 32 (digest (job_id @ '':'' @ str_int page_index @ '':'' @ stage))"

text \<open>One await on Redis: the environment acts, then the script \<open>f\<close> runs or the await raises.\<close>

definition redis_call ::
  "client_env \<Rightarrow> (redis_side \<Rightarrow> 'a \<times> redis_side) \<Rightarrow> (client_world, 'a) io" where
  "redis_call env f = (\<lambda>w.
     case env (cw_tick w) (cw_redis w) of
       (Some (Lost_Request e), r) \<Rightarrow> (Inl e, w\<lparr>cw_tick := Suc (cw_tick w), cw_redis := r\<rparr>)
     | (Some (Lost_Reply e), r) \<Rightarrow>
         (Inl e, w\<lparr>cw_tick := Suc (cw_tick w), cw_redis := snd (f r)\<rparr>)
     | (None, r) \<Rightarrow>
         let (a, r') = f r in (Inr a, w\<lparr>cw_tick := Suc (cw_tick w), cw_redis := r'\<rparr>))"

definition on_breaker ::
  "string \<Rightarrow> (real \<Rightarrow> breaker_hash cell \<Rightarrow> 'a \<times> breaker_hash cell) \<Rightarrow> redis_side \<Rightarrow> 'a \<times> redis_side" where
  "on_breaker stage f r =
     (let (a, c) = f (rs_now r) (rs_breaker r stage)
      in (a, r\<lparr>rs_breaker := (rs_breaker r)(stage := c)\<rparr>))"

definition on_bucket ::
  "string \<Rightarrow> (real \<Rightarrow> bucket_hash cell \<Rightarrow> 'a \<times> bucket_hash cell) \<Rightarrow> redis_side \<Rightarrow> 'a \<times> redis_side" where
  "on_bucket stage f r =
     (let (a, c) = f (rs_now r) (rs_bucket r stage)
      in (a, r\<lparr>rs_bucket := (rs_bucket r)(stage := c)\<rparr>))"

definition on_aimd ::
  "string \<Rightarrow> (real \<Rightarrow> aimd_cells \<Rightarrow> 'a \<times> aimd_cells) \<Rightarrow> redis_side \<Rightarrow> 'a \<times> redis_side" where
  "on_aimd stage f r =
     (let (a, c) = f (rs_now r) (rs_aimd r stage) in (a, r\<lparr>rs_aimd := (rs_aimd r)(stage := c)\<rparr>))"

text \<open>Time that passes while the client sleeps or waits for a response.\<close>

definition advance :: "real \<Rightarrow> client_world \<Rightarrow> client_world" where
  "advance ms w = w\<lparr>cw_redis := (cw_redis w)\<lparr>rs_now := rs_now (cw_redis w) + ms\<rparr>\<rparr>"

section \<open>One request\<close>

definition breaker_gate :: "client_config \<Rightarrow> client_env \<Rightarrow> string \<Rightarrow> (client_world, unit) io" where
  "breaker_gate cfg env stage =
     (case cc_breakers cfg stage of
        None \<Rightarrow> io_ret ()
      | Some b \<Rightarrow>
          io_bind (redis_call env (on_breaker stage (breaker_allow b))) (\<lambda>verdict.
            if \<not> bv_allowed verdict then io_raise (CircuitOpen stage (bv_retry_after_s verdict))
            else io_ret ()))"

definition controller_rate ::
  "client_config \<Rightarrow> client_env \<Rightarrow> string \<Rightarrow> (client_world, real option) io" where
  "controller_rate cfg env stage =
     (case cc_controllers cfg stage of
        None \<Rightarrow> io_ret None
      | Some a \<Rightarrow> io_bind (redis_call env (on_aimd stage (current_rate a))) (\<lambda>r. io_ret (Some r)))"

definition limiter_gate ::
  "client_config \<Rightarrow> client_env \<Rightarrow> (nat \<Rightarrow> real) \<Rightarrow> string \<Rightarrow> real option \<Rightarrow> (client_world, unit) io" where
  "limiter_gate cfg env rnd stage rate =
     (case cc_limiters cfg stage of
        None \<Rightarrow> io_ret ()
      | Some l \<Rightarrow>
          io_bind (io_gets (\<lambda>w. rnd (cw_tick w))) (\<lambda>u.
          io_bind (redis_call env (on_bucket stage (acquire l 1 (cc_max_wait_s cfg) rate u))) (\<lambda>res.
            case res of
              Inl e \<Rightarrow> io_raise e
            | Inr waited \<Rightarrow>
                io_when (waited > 0)
                  (io_modify (\<lambda>w. advance (waited * 1000)
                     (w\<lparr>cw_rate_limit_wait_s := cw_rate_limit_wait_s w + waited\<rparr>))))))"

text \<open>
  \<^verbatim>\<open>self._client.post(...)\<close> and \<^verbatim>\<open>raise_for_status\<close>: the request is recorded as sent, its duration
  passes, and the body or the exception is returned.
\<close>

definition send_request ::
  "http_service \<Rightarrow> http_request \<Rightarrow> (client_world, real \<times> json option) io" where
  "send_request http req = (\<lambda>w.
     let (ms, res) = http (length (cw_sent w)) req;
         w' = advance ms (w\<lparr>cw_sent := cw_sent w @ [req]\<rparr>)
     in case res of Inl e \<Rightarrow> (Inl e, w') | Inr body \<Rightarrow> (Inr (ms, body), w'))"

text \<open>The reports of a failed call, in the order of the \<^verbatim>\<open>except\<close> block, which then raises again.\<close>

definition report_failure ::
  "client_config \<Rightarrow> client_env \<Rightarrow> string \<Rightarrow> exc \<Rightarrow> (client_world, unit) io" where
  "report_failure cfg env stage e =
     io_seq
       (case cc_controllers cfg stage of
          None \<Rightarrow> io_ret ()
        | Some a \<Rightarrow>
            (case e of
               HTTPStatusError code _ \<Rightarrow>
                 io_when (code = 429)
                   (io_bind (redis_call env (on_aimd stage (on_congestion a REJECTED))) (\<lambda>_. io_ret ()))
             | TimeoutException \<Rightarrow>
                 io_bind (redis_call env (on_aimd stage (on_congestion a TIMEOUT))) (\<lambda>_. io_ret ())
             | _ \<Rightarrow> io_ret ()))
       (case cc_breakers cfg stage of
          None \<Rightarrow> io_ret ()
        | Some b \<Rightarrow>
            io_when (classify e \<noteq> SATURATED)
              (io_bind (redis_call env (on_breaker stage (record_failure b))) (\<lambda>_. io_ret ())))"

definition report_success ::
  "client_config \<Rightarrow> client_env \<Rightarrow> string \<Rightarrow> real \<Rightarrow> (client_world, unit) io" where
  "report_success cfg env stage ms =
     io_seq
       (case cc_controllers cfg stage of
          None \<Rightarrow> io_ret ()
        | Some a \<Rightarrow> io_bind (redis_call env (on_aimd stage (on_success a ms))) (\<lambda>_. io_ret ()))
       (case cc_breakers cfg stage of
          None \<Rightarrow> io_ret ()
        | Some b \<Rightarrow>
            io_bind (redis_call env (on_breaker stage (record_success b))) (\<lambda>verdict.
              io_modify (\<lambda>w. w\<lparr>cw_last_state := (cw_last_state w)(stage \<mapsto> bv_state verdict)\<rparr>)))"

definition post_once ::
  "client_config \<Rightarrow> client_env \<Rightarrow> http_service \<Rightarrow> (nat \<Rightarrow> real) \<Rightarrow> (string \<Rightarrow> string)
   \<Rightarrow> string \<Rightarrow> string \<Rightarrow> string \<Rightarrow> int \<Rightarrow> string option \<Rightarrow> json option \<Rightarrow> (client_world, json) io" where
  "post_once cfg env http rnd digest path stage job_id page_index page_ref page_content =
     io_seq (breaker_gate cfg env stage)
     (io_bind (controller_rate cfg env stage) (\<lambda>rate.
      io_seq (limiter_gate cfg env rnd stage rate)
     (io_bind
        (io_catch
          (send_request http
             \<lparr>hr_path = path, hr_job_id = job_id, hr_page_index = page_index,
              hr_page_ref = page_ref, hr_page = page_content,
              hr_idempotency_key = idempotency_key digest job_id page_index stage\<rparr>)
          (\<lambda>e. io_seq (report_failure cfg env stage e) (io_raise e)))
        (\<lambda>(ms, body).
           io_seq (report_success cfg env stage ms)
             (case body of None \<Rightarrow> io_raise (OtherException ''JSONDecodeError'') | Some j \<Rightarrow> io_ret j)))))"

section \<open>The retry loop\<close>

text \<open>
  \<^verbatim>\<open>for attempt in range(max_attempts)\<close>: \<open>k\<close> attempts are left. With none allowed at all the
  loop falls through to its \<^verbatim>\<open>RuntimeError\<close>.
\<close>

fun post_loop ::
  "client_config \<Rightarrow> (nat \<Rightarrow> real) \<Rightarrow> (client_world, json) io \<Rightarrow> nat \<Rightarrow> nat \<Rightarrow> (client_world, json) io" where
  "post_loop cfg rnd post attempt 0 = io_raise (OtherException ''RuntimeError'')"
| "post_loop cfg rnd post attempt (Suc k) = (\<lambda>w.
     case post w of
       (Inr j, w1) \<Rightarrow>
         (Inr j, if attempt > 0 then w1\<lparr>cw_retry_successes := cw_retry_successes w1 + 1\<rparr> else w1)
     | (Inl e, w1) \<Rightarrow>
         if classify e \<in> {SATURATED, CIRCUIT_OPEN} then (Inl e, w1)
         else if classify e = PERMANENT then (Inl e, w1)
         else if k = 0 then (Inl e, w1)
         else
           let delay_s = backoff_delay_s attempt (cc_backoff_base_ms cfg) (cc_backoff_max_ms cfg)
                 (retry_after_ms e) (rnd (cw_tick w1)) (rnd (Suc (cw_tick w1)));
               w2 = advance (delay_s * 1000)
                      (w1\<lparr>cw_retries := cw_retries w1 + 1, cw_tick := cw_tick w1 + 2\<rparr>)
           in post_loop cfg rnd post (Suc attempt) k w2)"

definition post_with_retries ::
  "client_config \<Rightarrow> client_env \<Rightarrow> http_service \<Rightarrow> (nat \<Rightarrow> real) \<Rightarrow> (string \<Rightarrow> string)
   \<Rightarrow> string \<Rightarrow> string \<Rightarrow> string \<Rightarrow> int \<Rightarrow> string option \<Rightarrow> json option \<Rightarrow> (client_world, json) io" where
  "post_with_retries cfg env http rnd digest path stage job_id page_index page_ref page_content =
     post_loop cfg rnd
       (post_once cfg env http rnd digest path stage job_id page_index page_ref page_content)
       0 (cc_max_attempts cfg)"

definition client_layout where
  "client_layout cfg env http rnd digest job_id page_index page_ref page_content =
     post_with_retries cfg env http rnd digest LAYOUT_PATH LAYOUT job_id page_index page_ref page_content"

definition client_vlm where
  "client_vlm cfg env http rnd digest job_id page_index page_ref page_content =
     post_with_retries cfg env http rnd digest VLM_PATH VLM job_id page_index page_ref page_content"

section \<open>What a call leaves alone\<close>

text \<open>
  The awaits on Redis change neither the requests sent nor the retry counter, so these are
  invariants of everything but \<^const>\<open>send_request\<close> and the loop itself.
\<close>

lemma redis_call_frame:
  "preserves (\<lambda>w. cw_sent w = L) (redis_call env f)"
  "preserves (\<lambda>w. cw_retries w = n) (redis_call env f)"
  by (auto simp: preserves_def redis_call_def Let_def split: prod.split option.split fault.split)

lemma breaker_gate_frame:
  "preserves (\<lambda>w. cw_sent w = L) (breaker_gate cfg env stage)"
  "preserves (\<lambda>w. cw_retries w = n) (breaker_gate cfg env stage)"
  unfolding breaker_gate_def
  by (auto intro!: redis_call_frame split: option.split)

lemma controller_rate_frame:
  "preserves (\<lambda>w. cw_sent w = L) (controller_rate cfg env stage)"
  "preserves (\<lambda>w. cw_retries w = n) (controller_rate cfg env stage)"
  unfolding controller_rate_def
  by (auto intro!: redis_call_frame split: option.split)

lemma limiter_gate_frame:
  "preserves (\<lambda>w. cw_sent w = L) (limiter_gate cfg env rnd stage rate)"
  "preserves (\<lambda>w. cw_retries w = n) (limiter_gate cfg env rnd stage rate)"
  unfolding limiter_gate_def
  by (auto intro!: redis_call_frame preserves_rules simp: advance_def)

lemma report_failure_frame:
  "preserves (\<lambda>w. cw_sent w = L) (report_failure cfg env stage e)"
  "preserves (\<lambda>w. cw_retries w = n) (report_failure cfg env stage e)"
  unfolding report_failure_def
  by (auto intro!: redis_call_frame split: option.split exc.split)

lemma report_success_frame:
  "preserves (\<lambda>w. cw_sent w = L) (report_success cfg env stage ms)"
  "preserves (\<lambda>w. cw_retries w = n) (report_success cfg env stage ms)"
  unfolding report_success_def
  by (auto intro!: redis_call_frame preserves_rules)

lemmas gate_frames = breaker_gate_frame controller_rate_frame limiter_gate_frame
  report_failure_frame report_success_frame

definition page_request ::
  "(string \<Rightarrow> string) \<Rightarrow> string \<Rightarrow> string \<Rightarrow> string \<Rightarrow> int \<Rightarrow> string option \<Rightarrow> json option \<Rightarrow> http_request" where
  "page_request digest path stage job_id page_index page_ref page_content =
     \<lparr>hr_path = path, hr_job_id = job_id, hr_page_index = page_index, hr_page_ref = page_ref,
      hr_page = page_content, hr_idempotency_key = idempotency_key digest job_id page_index stage\<rparr>"

text \<open>The part of \<^const>\<open>post_once\<close> behind the gates.\<close>

definition post_body where
  "post_body cfg env http stage req =
     io_bind
        (io_catch (send_request http req) (\<lambda>e. io_seq (report_failure cfg env stage e) (io_raise e)))
        (\<lambda>(ms, body).
           io_seq (report_success cfg env stage ms)
             (case body of None \<Rightarrow> io_raise (OtherException ''JSONDecodeError'') | Some j \<Rightarrow> io_ret j))"

lemma post_once_eq:
  "post_once cfg env http rnd digest path stage job_id page_index page_ref page_content =
     io_seq (breaker_gate cfg env stage)
     (io_bind (controller_rate cfg env stage) (\<lambda>rate.
      io_seq (limiter_gate cfg env rnd stage rate)
        (post_body cfg env http stage
          (page_request digest path stage job_id page_index page_ref page_content))))"
  by (simp add: post_once_def post_body_def page_request_def)

lemma io_seq_raise:
  obtains e' w' where "io_seq m (io_raise e) w = (Inl e', w')"
  by (cases "m w"; cases "fst (m w)") (auto simp: io_simps)

lemma post_body_sent:
  "cw_sent (snd (post_body cfg env http stage req w)) = cw_sent w @ [req]"
  "cw_retries (snd (post_body cfg env http stage req w)) = cw_retries w"
proof -
  obtain ms res where h: "http (length (cw_sent w)) req = (ms, res)" by fastforce
  let ?w = "advance ms (w\<lparr>cw_sent := cw_sent w @ [req]\<rparr>)"
  have "preserves (\<lambda>w. cw_sent w = L) (io_seq (report_failure cfg env stage e)
       (io_raise e :: (client_world, real \<times> json option) io))"
    "preserves (\<lambda>w. cw_retries w = n) (io_seq (report_failure cfg env stage e)
       (io_raise e :: (client_world, real \<times> json option) io))"
    "preserves (\<lambda>w. cw_sent w = L) (io_seq (report_success cfg env stage ms)
       (case body of None \<Rightarrow> io_raise (OtherException ''JSONDecodeError'') | Some j \<Rightarrow> io_ret j))"
    "preserves (\<lambda>w. cw_retries w = n) (io_seq (report_success cfg env stage ms)
       (case body of None \<Rightarrow> io_raise (OtherException ''JSONDecodeError'') | Some j \<Rightarrow> io_ret j))"
    for L n e ms and body :: "json option"
    by (auto intro!: gate_frames split: option.split)
  note fr = this [THEN preservesD]
  have s: "cw_sent ?w = cw_sent w @ [req]" "cw_retries ?w = cw_retries w"
    by (simp_all add: advance_def)
  have "cw_sent (snd (post_body cfg env http stage req w)) = cw_sent w @ [req]
      \<and> cw_retries (snd (post_body cfg env http stage req w)) = cw_retries w"
  proof (cases res)
    case (Inl e)
    obtain e' w' where seq: "io_seq (report_failure cfg env stage e)
        (io_raise e :: (client_world, real \<times> json option) io) ?w = (Inl e', w')"
      by (rule io_seq_raise)
    then have "post_body cfg env http stage req w = (Inl e', w')"
      by (simp add: post_body_def io_bind_apply io_catch_apply send_request_def h Inl)
    then show ?thesis
      using fr(1) [OF s(1), of e] fr(2) [OF s(2), of e] seq by simp
  next
    case (Inr body)
    then have "post_body cfg env http stage req w = io_seq (report_success cfg env stage ms)
        (case body of None \<Rightarrow> io_raise (OtherException ''JSONDecodeError'') | Some j \<Rightarrow> io_ret j) ?w"
      by (simp add: post_body_def io_bind_apply io_catch_apply send_request_def h)
    then show ?thesis using fr(3) [OF s(1)] fr(4) [OF s(2)] by simp
  qed
  then show "cw_sent (snd (post_body cfg env http stage req w)) = cw_sent w @ [req]"
    "cw_retries (snd (post_body cfg env http stage req w)) = cw_retries w"
    by simp_all
qed

lemma post_once_sent:
  fixes cfg env http rnd digest path stage job_id page_index page_ref page_content w
  defines "post \<equiv> post_once cfg env http rnd digest path stage job_id page_index page_ref page_content"
    and "req \<equiv> page_request digest path stage job_id page_index page_ref page_content"
  shows "cw_sent (snd (post w)) = cw_sent w \<or> cw_sent (snd (post w)) = cw_sent w @ [req]"
    and "cw_retries (snd (post w)) = cw_retries w"
proof -
  let ?I = "\<lambda>w'. cw_sent w' = cw_sent w \<or> cw_sent w' = cw_sent w @ [req]"
  have pre: "cw_sent (snd (m w)) = cw_sent w \<and> cw_retries (snd (m w)) = cw_retries w"
    if "\<And>L. preserves (\<lambda>w. cw_sent w = L) m" "\<And>n. preserves (\<lambda>w. cw_retries w = n) m"
    for m :: "(client_world, 'z) io" and w
    using that [THEN preservesD] by blast
  note g1 = pre [OF breaker_gate_frame] and g2 = pre [OF controller_rate_frame]
    and g3 = pre [OF limiter_gate_frame]
  obtain r1 w1 where 1: "breaker_gate cfg env stage w = (r1, w1)" by fastforce
  obtain r2 w2 where 2: "controller_rate cfg env stage w1 = (r2, w2)" by fastforce
  have f2: "cw_sent w2 = cw_sent w" "cw_retries w2 = cw_retries w" "cw_sent w1 = cw_sent w"
      "cw_retries w1 = cw_retries w"
    using g1 [of cfg env stage w] g2 [of cfg env stage w1] 1 2 by simp_all
  have "?I (snd (post w)) \<and> cw_retries (snd (post w)) = cw_retries w"
  proof (cases r1)
    case (Inr u)
    show ?thesis
    proof (cases r2)
      case (Inr rate)
      obtain r3 w3 where 3: "limiter_gate cfg env rnd stage rate w2 = (r3, w3)" by fastforce
      then show ?thesis
        using 1 2 \<open>r1 = Inr u\<close> Inr f2 g3 [of cfg env rnd stage rate w2]
        by (cases r3) (simp_all add: post_def post_once_eq io_seq_apply io_bind_apply post_body_sent req_def)
    qed (use 1 2 \<open>r1 = Inr u\<close> f2 in \<open>simp add: post_def post_once_eq io_seq_apply io_bind_apply\<close>)
  qed (use 1 f2 in \<open>simp add: post_def post_once_eq io_seq_apply\<close>)
  then show "?I (snd (post w))" and "cw_retries (snd (post w)) = cw_retries w" by auto
qed

section \<open>The retry loop is bounded and repeats one request\<close>

lemma post_loop_cases:
  assumes "post_loop cfg rnd post attempt (Suc k) w = (res, w')"
  obtains w1 where "snd (post w) = w1" and "cw_sent w' = cw_sent w1" and "cw_retries w' = cw_retries w1"
      and "\<forall>e. res = Inl e \<and> classify e = RETRY \<longrightarrow> k = 0"
  | w1 w2 where "snd (post w) = w1" and "cw_sent w2 = cw_sent w1"
      and "cw_retries w2 = cw_retries w1 + 1" and "0 < k"
      and "post_loop cfg rnd post (Suc attempt) k w2 = (res, w')"
proof -
  obtain r w1 where p: "post w = (r, w1)" by fastforce
  show thesis
  proof (cases "\<exists>e. r = Inl e \<and> classify e = RETRY \<and> 0 < k")
    case True
    then obtain e where e: "r = Inl e" "classify e = RETRY" "0 < k" by blast
    show ?thesis
      by (rule that(2) [of w1]) (use assms p e in \<open>auto simp: Let_def advance_def\<close>)
  next
    case False
    show ?thesis
    proof (rule that(1) [of w1])
      show "snd (post w) = w1" by (simp add: p)
      show "cw_sent w' = cw_sent w1" "cw_retries w' = cw_retries w1"
        "\<forall>e. res = Inl e \<and> classify e = RETRY \<longrightarrow> k = 0"
        using assms p False by (cases r; cases "classify (projl r)"; auto split: if_splits)+
    qed
  qed
qed

lemma sent_replicate:
  assumes "xs = ys \<or> xs = ys @ [r]"
  shows "\<exists>n \<le> Suc 0. xs = ys @ replicate n r"
proof (cases "xs = ys")
  case False
  then have "xs = ys @ replicate (Suc 0) r" using assms by simp
  then show ?thesis by blast
qed auto

lemma post_loop_bounds:
  assumes "\<And>w. cw_sent (snd (post w)) = cw_sent w \<or> cw_sent (snd (post w)) = cw_sent w @ [req]"
    and "\<And>w. cw_retries (snd (post w)) = cw_retries w"
    and "post_loop cfg rnd post attempt (Suc k) w = (res, w')"
  shows "\<exists>n m. n \<le> Suc m \<and> m \<le> k \<and> cw_sent w' = cw_sent w @ replicate n req
     \<and> cw_retries w' = cw_retries w + int m \<and> (\<forall>e. res = Inl e \<and> classify e = RETRY \<longrightarrow> m = k)"
  using assms(3)
proof (induction k arbitrary: attempt w)
  case 0
  then show ?case
  proof (cases rule: post_loop_cases)
    case (1 w1)
    then show ?thesis
      using sent_replicate [OF assms(1) [of w]] assms(2) [of w] by auto
  qed simp
next
  case (Suc k)
  from Suc.prems show ?case
  proof (cases rule: post_loop_cases)
    case (1 w1)
    then show ?thesis
      using sent_replicate [OF assms(1) [of w]] assms(2) [of w] by (auto intro: exI [of _ 0])
  next
    case (2 w1 w2)
    from Suc.IH [OF 2(5)] obtain n m where ih: "n \<le> Suc m" "m \<le> k"
        "cw_sent w' = cw_sent w2 @ replicate n req" "cw_retries w' = cw_retries w2 + int m"
        "\<forall>e. res = Inl e \<and> classify e = RETRY \<longrightarrow> m = k"
      by blast
    obtain n0 where n0: "n0 \<le> Suc 0" "cw_sent w1 = cw_sent w @ replicate n0 req"
      using sent_replicate [OF assms(1) [of w]] 2(1) by blast
    have "cw_sent w' = cw_sent w @ replicate (n0 + n) req"
      using ih(3) n0(2) 2(2) by (simp add: replicate_add)
    moreover have "cw_retries w' = cw_retries w + int (Suc m)"
      using ih(4) 2(1,3) assms(2) [of w] by simp
    ultimately show ?thesis
      using ih(1,2,5) n0(1) by (intro exI [of _ "n0 + n"] exI [of _ "Suc m"]) auto
  qed
qed

text \<open>
  C14. Retries are bounded and identical. Whatever the service answers, whatever other replicas
  do and whichever awaits fail, one call sends at most \<^verbatim>\<open>max_attempts\<close> requests, all of them the
  same request with the same idempotency key; it sends at most one more than the retries it
  counts; and a retryable failure is only raised when the whole budget was used.
\<close>

theorem retries_bounded_and_idempotent:
  assumes "cc_max_attempts cfg = Suc k"
    and "post_with_retries cfg env http rnd digest path stage job page page_ref content w = (res, w')"
  shows "\<exists>n m. n \<le> Suc m \<and> m \<le> k
     \<and> cw_sent w' = cw_sent w @ replicate n (page_request digest path stage job page page_ref content)
     \<and> cw_retries w' = cw_retries w + int m
     \<and> (\<forall>e. res = Inl e \<and> classify e = RETRY \<longrightarrow> m = k)"
  using assms(2) unfolding post_with_retries_def assms(1)
  by (rule post_loop_bounds [OF post_once_sent])

definition demo_client :: client_config where
  "demo_client = \<lparr>cc_limiters = (\<lambda>_. None), cc_breakers = (\<lambda>_. None), cc_controllers = (\<lambda>_. None),
     cc_max_wait_s = 5, cc_max_attempts = 3, cc_backoff_base_ms = 200, cc_backoff_max_ms = 5000\<rparr>"

definition demo_client_world :: client_world where
  "demo_client_world = \<lparr>cw_redis = \<lparr>rs_now = 1000, rs_breaker = (\<lambda>_. None), rs_bucket = (\<lambda>_. None),
       rs_aimd = (\<lambda>_. (None, None))\<rparr>, cw_tick = 0, cw_sent = [], cw_rate_limit_wait_s = 0,
     cw_retries = 0, cw_retry_successes = 0, cw_last_state = (\<lambda>_. None)\<rparr>"

definition quiet :: client_env where
  "quiet n r = (None, r)"

theorem retries_bounded_and_idempotent_witness:
  "\<exists>n m. n \<le> Suc m \<and> m \<le> 2
     \<and> cw_sent (snd (post_with_retries demo_client quiet (\<lambda>_ _. (10, Inl TimeoutException)) (\<lambda>_. 0) id
         VLM_PATH VLM ''j'' 0 None None demo_client_world))
       = cw_sent demo_client_world @ replicate n (page_request id VLM_PATH VLM ''j'' 0 None None)"
  using retries_bounded_and_idempotent [of demo_client 2 quiet "\<lambda>_ _. (10, Inl TimeoutException)" "\<lambda>_. 0" id
      VLM_PATH VLM "''j''" 0 None None demo_client_world, OF _ prod.collapse [symmetric]]
  by (fastforce simp: demo_client_def)

section \<open>The gates\<close>

text \<open>
  An open circuit sends nothing and takes no token. When the breaker refuses, the call
  raises \<^verbatim>\<open>CircuitOpen\<close> with the breaker's own estimate, and the only change to the world is
  what the environment and the breaker's script made: no request, and the bucket and the
  controller are untouched.
\<close>

theorem open_circuit_sends_nothing:
  assumes "cc_breakers cfg stage = Some b" and "env (cw_tick w) (cw_redis w) = (None, r)"
    and "breaker_allow b (rs_now r) (rs_breaker r stage) = (v, c)" and "\<not> bv_allowed v"
  shows "post_once cfg env http rnd digest path stage job page page_ref content w =
     (Inl (CircuitOpen stage (bv_retry_after_s v)),
      w\<lparr>cw_tick := Suc (cw_tick w), cw_redis := r\<lparr>rs_breaker := (rs_breaker r)(stage := c)\<rparr>\<rparr>)"
  using assms
  by (simp add: post_once_eq breaker_gate_def io_simps redis_call_def on_breaker_def)

definition gated_client :: client_config where
  "gated_client = demo_client\<lparr>cc_breakers := (\<lambda>_. Some demo_breaker),
     cc_limiters := (\<lambda>s. TokenBucketLimiter s 10 5 300 25)\<rparr>"

theorem open_circuit_sends_nothing_witness:
  "\<exists>v c. fst (post_once gated_client quiet (\<lambda>_ _. (10, Inl TimeoutException)) (\<lambda>_. 0) id
       VLM_PATH VLM ''j'' 0 None None
       (demo_client_world\<lparr>cw_redis := (cw_redis demo_client_world)\<lparr>rs_now := 1500,
          rs_breaker := (\<lambda>_. Some (demo_open, Some 301000))\<rparr>\<rparr>))
     = Inl (CircuitOpen VLM (bv_retry_after_s v))
     \<and> breaker_allow demo_breaker 1500 (Some (demo_open, Some 301000)) = (v, c) \<and> \<not> bv_allowed v"
proof -
  obtain v c where al: "breaker_allow demo_breaker 1500 (Some (demo_open, Some 301000)) = (v, c)"
    by fastforce
  have nv: "\<not> bv_allowed v"
    using al by (auto simp: breaker_allow_def breaker_lua_eq breaker_steps demo_open_def demo_breaker_def)
  show ?thesis
    by (intro exI conjI, subst open_circuit_sends_nothing [OF _ _ _ nv])
       (use al nv in \<open>auto simp: gated_client_def quiet_def\<close>)
qed

text \<open>
  A saturated call in the half-open state keeps its probe slot. If the breaker grants a
  probe and the token bucket then refuses, the call raises \<^verbatim>\<open>RateLimitTimeout\<close> with no request
  sent and without reporting to the breaker: the slot stays taken. As many such calls as there
  are slots leave the breaker refusing for good (\<^verbatim>\<open>unreported_probes_wedge\<close>).
\<close>

theorem saturated_call_leaks_probe:
  assumes "cc_breakers cfg stage = Some b" and "cc_controllers cfg stage = None"
    and "cc_limiters cfg stage = Some l"
    and "rs_breaker (cw_redis w) stage = Some (h, Some e)" and "bh_state h = HALF_OPEN"
    and "\<lfloor>rs_now (cw_redis w)\<rfloor> < e" and "bh_probes h < ba_max_probes b"
    and "try_acquire l 1 (cc_max_wait_s cfg) None (rs_now (cw_redis w)) (rs_bucket (cw_redis w) stage) = (aq, c)"
    and "\<not> aq_granted aq"
    and "post_once cfg quiet http rnd digest path stage job page page_ref content w = (res, w')"
  shows "res = Inl (RateLimitTimeout (tl_endpoint l) (of_int (aq_wait_ms aq) / 1000) 0)
     \<and> cw_sent w' = cw_sent w
     \<and> rs_breaker (cw_redis w') stage =
         Some (h\<lparr>bh_probes := bh_probes h + 1\<rparr>, Some (\<lfloor>rs_now (cw_redis w)\<rfloor> + ba_ttl_ms b))"
proof -
  have "breaker_allow b (rs_now (cw_redis w)) (rs_breaker (cw_redis w) stage) =
      (\<lparr>bv_allowed = True, bv_state = HALF_OPEN, bv_retry_after_s = 0, bv_failures = bh_failures h,
        bv_successes = bh_successes h\<rparr>,
       Some (h\<lparr>bh_probes := bh_probes h + 1\<rparr>, Some (\<lfloor>rs_now (cw_redis w)\<rfloor> + ba_ttl_ms b)))"
    using assms(4,5,7) half_open_load [OF assms(5,6), of b]
    by (simp add: breaker_allow_def breaker_lua_eq)
  with assms(1,2,3,8,9,10) show ?thesis
    by (auto simp: post_once_eq breaker_gate_def controller_rate_def limiter_gate_def io_simps
        redis_call_def on_breaker_def on_bucket_def acquire_def quiet_def)
qed

text \<open>A half-open breaker in front of a bucket with 60 promised slots at 10 per second.\<close>

definition leak_world :: client_world where
  "leak_world = demo_client_world\<lparr>cw_redis := (cw_redis demo_client_world)\<lparr>rs_now := 7000,
     rs_breaker := (\<lambda>_. Some (demo_open\<lparr>bh_state := HALF_OPEN\<rparr>, Some 301000)),
     rs_bucket := (\<lambda>_. Some (\<lparr>tb_tokens = - 60, tb_ts = 7000\<rparr>, Some 307000))\<rparr>\<rparr>"

theorem saturated_call_leaks_probe_witness:
  "rs_breaker (cw_redis (snd (post_once gated_client quiet (\<lambda>_ _. (10, Inl TimeoutException)) (\<lambda>_. 0) id
       VLM_PATH VLM ''j'' 0 None None leak_world))) VLM
     = Some (demo_open\<lparr>bh_state := HALF_OPEN, bh_probes := 1\<rparr>, Some 307000)"
proof -
  obtain l where l: "TokenBucketLimiter VLM 10 5 300 25 = Some l" "tl_rate l = 10" "tl_burst l = 5"
    by (simp add: TokenBucketLimiter_def)
  obtain aq c where aq: "try_acquire l 1 5 None 7000 (Some (\<lparr>tb_tokens = - 60, tb_ts = 7000\<rparr>, Some 307000)) = (aq, c)"
    by fastforce
  have "\<not> aq_granted aq"
    using aq l by (auto simp: try_acquire_def bucket_lua_eq bucket_refill_def cell_simps Let_def)
  from saturated_call_leaks_probe [of gated_client VLM demo_breaker l leak_world
      "demo_open\<lparr>bh_state := HALF_OPEN\<rparr>" 301000 aq c "\<lambda>_ _. (10, Inl TimeoutException)" "\<lambda>_. 0" id VLM_PATH
      "''j''" 0 None None, OF _ _ _ _ _ _ _ _ this prod.collapse [symmetric]] aq l
  show ?thesis
    by (simp add: gated_client_def demo_client_def leak_world_def demo_breaker_def demo_open_def)
qed

text \<open>
  Only load signals steer the rate. Of the failures of a request, a 429 and a timeout are
  reported to the controller, once each; any other failure, a 5xx among them, leaves its state
  exactly as it was. The breaker is told of every failed request.
\<close>

theorem only_load_signals_steer:
  assumes "cc_controllers cfg stage = Some a" and "cc_breakers cfg stage = Some b"
    and "classify e \<noteq> SATURATED"
    and "report_failure cfg quiet stage e w = (res, w')"
  shows "rs_aimd (cw_redis w') stage =
      (if e = TimeoutException \<or> (\<exists>hs. e = HTTPStatusError 429 hs)
       then snd (aimd_lua a aimd_congestion (-1) (rs_now (cw_redis w)) (rs_aimd (cw_redis w) stage))
       else rs_aimd (cw_redis w) stage)
    \<and> rs_breaker (cw_redis w') stage =
      snd (record_failure b (rs_now (cw_redis w)) (rs_breaker (cw_redis w) stage))"
proof -
  have "w' = snd (report_failure cfg quiet stage e w)" using assms(4) by simp
  then show ?thesis
    using assms(1-3)
    by (cases e) (simp_all add: report_failure_def io_simps redis_call_def quiet_def
        on_aimd_def on_breaker_def on_congestion_def Let_def case_prod_beta)
qed

theorem only_load_signals_steer_witness:
  "rs_aimd (cw_redis (snd (report_failure
       (gated_client\<lparr>cc_controllers := (\<lambda>_. Some demo_aimd)\<rparr>) quiet VLM (HTTPStatusError 503 []) leak_world))) VLM
     = rs_aimd (cw_redis leak_world) VLM"
  using only_load_signals_steer [of "gated_client\<lparr>cc_controllers := (\<lambda>_. Some demo_aimd)\<rparr>" VLM demo_aimd
      demo_breaker "HTTPStatusError 503 []" leak_world, OF _ _ _ prod.collapse [symmetric]]
  by (simp add: gated_client_def RETRYABLE_STATUSES_def)

end
