(* ===== verification/Page_Pipeline.thy ===== *)
theory Page_Pipeline
  imports Page_Protocol Result_Stream Model_Client
begin

text \<open>
  One page through its two stages, \<^verbatim>\<open>src/app/worker/pipeline.py\<close>: the events it publishes, the
  claims it takes and releases, and where every failure leaves the page.

  The world is the page store, the result streams, the model client's side and the clock. At
  each await the parameter \<open>pl_env\<close> says what other workers, reapers and time do first, and
  whether the await fails (before or after its effect). The calls of the model client are the
  parameters \<open>pl_layout\<close> and \<open>pl_vlm\<close>; the worker passes the client's own \<^verbatim>\<open>layout\<close> and \<^verbatim>\<open>vlm\<close>.
  \<open>pl_str\<close> is \<^verbatim>\<open>str(exc)\<close>. Results are kept as JSON values, logs are left out.
\<close>

section \<open>World\<close>

record pworld =
  pw_store :: store
  pw_out :: "string \<Rightarrow> out_keys"
  pw_client :: client_world
  pw_now :: int
  pw_tick :: nat

type_synonym page_env = "nat \<Rightarrow> pworld \<Rightarrow> fault option \<times> pworld"

record pipeline =
  pl_ttl_s :: int
  pl_publisher :: "publisher option"
  pl_layout :: "string \<Rightarrow> int \<Rightarrow> string option \<Rightarrow> json option \<Rightarrow> (client_world, json) io"
  pl_vlm :: "string \<Rightarrow> int \<Rightarrow> string option \<Rightarrow> json option \<Rightarrow> (client_world, json) io"
  pl_env :: page_env
  pl_swept :: "nat \<Rightarrow> int"
  pl_slack :: "nat \<Rightarrow> nat"
  pl_str :: "exc \<Rightarrow> string"

definition pw_await :: "pipeline \<Rightarrow> (pworld, 'a) io \<Rightarrow> (pworld, 'a) io" where
  "pw_await pl f = (\<lambda>w.
     let (fo, w0) = pl_env pl (pw_tick w) w; w1 = w0\<lparr>pw_tick := Suc (pw_tick w)\<rparr>
     in case fo of
          None \<Rightarrow> f w1
        | Some (Lost_Request e) \<Rightarrow> (Inl e, w1)
        | Some (Lost_Reply e) \<Rightarrow> (Inl e, snd (f w1)))"

definition st_transition ::
  "pipeline \<Rightarrow> string \<Rightarrow> int \<Rightarrow> page_state \<Rightarrow> page_state list option \<Rightarrow> (string \<times> field_value) list
   \<Rightarrow> (pworld, transition_result) io" where
  "st_transition pl job page to allowed fvs = pw_await pl (\<lambda>w.
     case transition (pw_now w) (pw_now w) (pl_ttl_s pl) (pl_swept pl (pw_tick w)) job page to allowed fvs
            (pw_store w) of
       None \<Rightarrow> (Inl (OtherException ''ValueError''), w)
     | Some (r, s) \<Rightarrow> (Inr r, w\<lparr>pw_store := s\<rparr>))"

definition st_get_page :: "pipeline \<Rightarrow> string \<Rightarrow> int \<Rightarrow> (pworld, page_hash option) io" where
  "st_get_page pl job page = pw_await pl (\<lambda>w. (Inr (get_page (pw_now w) job page (pw_store w)), w))"

definition pub_publish :: "pipeline \<Rightarrow> publisher \<Rightarrow> string \<Rightarrow> string \<Rightarrow> (string \<times> json) list \<Rightarrow> (pworld, unit) io" where
  "pub_publish pl pb job event payload = pw_await pl (\<lambda>w.
     (Inr (), w\<lparr>pw_out := (pw_out w)(job :=
        snd (publish (pw_now w) (pl_slack pl (pw_tick w)) pb job event payload (pw_out w job)))\<rparr>))"

definition call_client :: "(client_world, 'a) io \<Rightarrow> (pworld, 'a) io" where
  "call_client m = (\<lambda>w. let (r, c) = m (pw_client w) in (r, w\<lparr>pw_client := c\<rparr>))"

section \<open>Outcomes and errors\<close>

datatype Outcome =
    COMPLETED | RESUMED | ALREADY_TERMINAL | OWNED_BY_OTHER | DEGRADED | HANDOFF | SATURATED_PAGE
  | FAILED_PAGE

record page_result =
  pr_outcome :: Outcome
  pr_detail :: string
  pr_retry_after_s :: real

definition page_outcome :: "Outcome \<Rightarrow> string \<Rightarrow> page_result" where
  "page_outcome oc detail = \<lparr>pr_outcome = oc, pr_detail = detail, pr_retry_after_s = 0\<rparr>"

text \<open>\<^verbatim>\<open>type(exc).__name__\<close>.\<close>

fun exc_type :: "exc \<Rightarrow> string" where
  "exc_type (RateLimitTimeout _ _ _) = ''RateLimitTimeout''"
| "exc_type (CircuitOpen _ _) = ''CircuitOpen''"
| "exc_type (HTTPStatusError _ _) = ''HTTPStatusError''"
| "exc_type TimeoutException = ''TimeoutException''"
| "exc_type TransportError = ''TransportError''"
| "exc_type RedisError = ''RedisError''"
| "exc_type (ResponseError _) = ''ResponseError''"
| "exc_type (HTTPException _ _) = ''HTTPException''"
| "exc_type (OtherException n) = n"
| "exc_type CancelledError = ''CancelledError''"

definition state_or_missing :: "page_state option \<Rightarrow> string" where
  "state_or_missing st = (case st of None \<Rightarrow> ''MISSING'' | Some s \<Rightarrow> state_value s)"

definition FALLBACK_CONFIDENCE :: real where
  "FALLBACK_CONFIDENCE = 4 / 10"

section \<open>Events\<close>

definition emit ::
  "pipeline \<Rightarrow> string \<Rightarrow> transition_result \<Rightarrow> string \<Rightarrow> int \<Rightarrow> (string \<times> json) list \<Rightarrow> (pworld, unit) io" where
  "emit pl event tr job page payload =
     (case pl_publisher pl of
        None \<Rightarrow> io_ret ()
      | Some pb \<Rightarrow>
          if \<not> tr_ok tr then io_ret ()
          else
            io_catch
              (io_seq
                (pub_publish pl pb job event
                   ([(''page_index'', JNum (of_int page)), (''state'', JStr (state_value (tr_requested tr)))]
                    @ payload))
                (io_when (completed_job tr)
                  (pub_publish pl pb job JOB_COMPLETE_EVENT
                     [(''total_pages'', JNum (of_int (tr_total_pages tr))),
                      (''done'', JNum (of_int (tr_done_count tr)))])))
              (\<lambda>e. if is_Exception e then io_ret () else io_raise e))"

definition degrade_reason :: "exc \<Rightarrow> string" where
  "degrade_reason e = (case e of HTTPStatusError code _ \<Rightarrow> ''HTTP '' @ str_int code | _ \<Rightarrow> exc_type e)"

definition degraded_fields :: "string \<Rightarrow> (string \<times> field_value) list" where
  "degraded_fields reason =
     [(''degraded'', VInt 1), (''confidence'', VReal FALLBACK_CONFIDENCE), (''fallback_reason'', VStr reason)]"

definition degrade :: "pipeline \<Rightarrow> string \<Rightarrow> int \<Rightarrow> exc \<Rightarrow> (pworld, page_result) io" where
  "degrade pl job page cause =
     (let reason = degrade_reason cause
      in io_bind (st_transition pl job page FALLBACK_DONE None (degraded_fields reason)) (\<lambda>result.
         io_seq (emit pl PAGE_FINAL result job page
                   [(''complete'', JBool True), (''degraded'', JBool True),
                    (''confidence'', JNum FALLBACK_CONFIDENCE), (''fallback_reason'', JStr reason)])
           (io_ret (page_outcome DEGRADED reason))))"

text \<open>\<^verbatim>\<open>PageState(page["state"])\<close>; the lookup raises \<^verbatim>\<open>KeyError\<close> on a hash with no such field.\<close>

definition hash_state :: "page_hash \<Rightarrow> (pworld, page_state) io" where
  "hash_state h = (case ph_state h of None \<Rightarrow> io_raise (OtherException ''KeyError'') | Some s \<Rightarrow> io_ret s)"

definition release_claim :: "pipeline \<Rightarrow> string \<Rightarrow> int \<Rightarrow> (pworld, unit) io" where
  "release_claim pl job page =
     io_bind (st_get_page pl job page) (\<lambda>pg.
       case pg of
         None \<Rightarrow> io_ret ()
       | Some h \<Rightarrow>
           io_bind (hash_state h) (\<lambda>current.
             case RECLAIM_TARGET current of
               None \<Rightarrow> io_ret ()
             | Some target \<Rightarrow>
                 io_seq (st_transition pl job page target (Some [current]) []) (io_ret ())))"

definition force_terminal :: "pipeline \<Rightarrow> string \<Rightarrow> int \<Rightarrow> string \<Rightarrow> (pworld, string) io" where
  "force_terminal pl job page reason =
     io_bind (st_get_page pl job page) (\<lambda>pg.
       case pg of
         None \<Rightarrow> io_ret ''MISSING''
       | Some h \<Rightarrow>
           io_bind (hash_state h) (\<lambda>state.
             if state \<in> set TERMINAL_STATES then io_ret (state_value state)
             else
               let degradable = (FALLBACK_DONE \<in> TRANSITIONS state);
                   target = (if degradable then FALLBACK_DONE else FAILED)
               in io_bind (st_transition pl job page target None
                            (if degradable then degraded_fields reason else [(''error'', VStr reason)]))
                    (\<lambda>applied.
                       if \<not> tr_ok applied then io_ret (state_or_missing (tr_observed applied))
                       else
                         io_seq (emit pl PAGE_FINAL applied job page
                           ([(''complete'', JBool True), (''degraded'', JBool degradable)]
                            @ (if degradable then [(''confidence'', JNum FALLBACK_CONFIDENCE)]
                               else [(''error'', JStr reason)])))
                         (io_ret (state_value target)))))"

section \<open>The two stages\<close>

definition layout_stage ::
  "pipeline \<Rightarrow> string \<Rightarrow> int \<Rightarrow> string option \<Rightarrow> json option \<Rightarrow> bool \<Rightarrow> (pworld, page_result option) io" where
  "layout_stage pl job page page_ref content handoff =
     io_bind (st_transition pl job page LAYOUT_RUNNING None []) (\<lambda>claim.
       if \<not> tr_ok claim
       then io_ret (Some (page_outcome OWNED_BY_OTHER (state_or_missing (tr_observed claim))))
       else
         io_bind (call_client (pl_layout pl job page page_ref content)) (\<lambda>layout.
         io_bind (st_transition pl job page LAYOUT_DONE None [(''layout'', VJson layout)]) (\<lambda>committed.
         io_seq (emit pl PAGE_PARTIAL committed job page
                   [(''complete'', JBool False), (''layout'', layout)])
           (io_ret (if handoff then Some (page_outcome HANDOFF ''layout'') else None)))))"

text \<open>The model call of the second stage with its handlers: a finished result, or the answer.\<close>

definition vlm_call ::
  "pipeline \<Rightarrow> string \<Rightarrow> int \<Rightarrow> string option \<Rightarrow> json option \<Rightarrow> bool \<Rightarrow> (pworld, page_result + json) io" where
  "vlm_call pl job page page_ref content final_attempt =
     io_catch
       (io_bind (call_client (pl_vlm pl job page page_ref content)) (\<lambda>v. io_ret (Inr v)))
       (\<lambda>e. if classify e \<in> {SATURATED, CIRCUIT_OPEN} \<and> \<not> final_attempt then io_raise e
            else io_bind (degrade pl job page e) (\<lambda>r. io_ret (Inl r)))"

text \<open>\<^verbatim>\<open>vlm.get("confidence", 1.0)\<close>; a body that is no object has no \<^verbatim>\<open>get\<close>.\<close>

definition vlm_confidence :: "json \<Rightarrow> (pworld, json) io" where
  "vlm_confidence v =
     (case v of
        JObj kvs \<Rightarrow> io_ret (case map_of kvs ''confidence'' of None \<Rightarrow> JNum 1 | Some c \<Rightarrow> c)
      | _ \<Rightarrow> io_raise (OtherException ''AttributeError''))"

definition vlm_stage ::
  "pipeline \<Rightarrow> string \<Rightarrow> int \<Rightarrow> string option \<Rightarrow> json option \<Rightarrow> bool \<Rightarrow> bool \<Rightarrow> (pworld, page_result) io" where
  "vlm_stage pl job page page_ref content final_attempt resumed =
     io_bind (st_transition pl job page VLM_RUNNING None []) (\<lambda>claim.
       if \<not> tr_ok claim
       then io_ret (page_outcome OWNED_BY_OTHER (state_or_missing (tr_observed claim)))
       else
         io_bind (vlm_call pl job page page_ref content final_attempt) (\<lambda>answer.
           case answer of
             Inl r \<Rightarrow> io_ret r
           | Inr v \<Rightarrow>
               io_bind (vlm_confidence v) (\<lambda>conf.
               io_bind (st_transition pl job page DONE None
                  [(''vlm'', VJson v), (''confidence'', VJson conf), (''degraded'', VInt 0)]) (\<lambda>committed.
               io_seq (emit pl PAGE_FINAL committed job page
                   [(''complete'', JBool True), (''degraded'', JBool False), (''confidence'', conf), (''vlm'', v)])
                 (io_ret (page_outcome (if resumed then RESUMED else COMPLETED) []))))))"

section \<open>The handlers and the whole page\<close>

definition fail_page :: "pipeline \<Rightarrow> string \<Rightarrow> int \<Rightarrow> string \<Rightarrow> string \<Rightarrow> (pworld, page_result) io" where
  "fail_page pl job page error detail =
     io_bind (st_transition pl job page FAILED None [(''error'', VStr error)]) (\<lambda>failed.
     io_seq (emit pl PAGE_FINAL failed job page
               [(''complete'', JBool True), (''degraded'', JBool False), (''error'', JStr error)])
       (io_ret (page_outcome FAILED_PAGE detail)))"

definition on_saturated :: "pipeline \<Rightarrow> string \<Rightarrow> int \<Rightarrow> bool \<Rightarrow> exc \<Rightarrow> (pworld, page_result) io" where
  "on_saturated pl job page final_attempt e =
     io_seq (release_claim pl job page)
       (if final_attempt
        then fail_page pl job page (exc_type e @ '': '' @ exc_endpoint e @ '' unavailable'') (exc_endpoint e)
        else io_ret \<lparr>pr_outcome = SATURATED_PAGE, pr_detail = exc_endpoint e,
                     pr_retry_after_s = exc_retry_after_s e\<rparr>)"

definition on_exception :: "pipeline \<Rightarrow> string \<Rightarrow> int \<Rightarrow> exc \<Rightarrow> (pworld, page_result) io" where
  "on_exception pl job page e =
     fail_page pl job page (exc_type e @ '': '' @ take 200 (pl_str pl e)) (exc_type e)"

definition run_stages ::
  "pipeline \<Rightarrow> string \<Rightarrow> int \<Rightarrow> string option \<Rightarrow> json option \<Rightarrow> bool \<Rightarrow> bool \<Rightarrow> page_state
   \<Rightarrow> (pworld, page_result) io" where
  "run_stages pl job page page_ref content final_attempt handoff state =
     io_catch
       (io_bind (if state = PENDING then layout_stage pl job page page_ref content handoff else io_ret None)
          (\<lambda>early. case early of
             Some r \<Rightarrow> io_ret r
           | None \<Rightarrow> vlm_stage pl job page page_ref content final_attempt (state = LAYOUT_DONE)))
       (\<lambda>e. if classify e \<in> {SATURATED, CIRCUIT_OPEN} then on_saturated pl job page final_attempt e
            else if is_Exception e then on_exception pl job page e
            else io_raise e)"

definition process_page ::
  "pipeline \<Rightarrow> string \<Rightarrow> int \<Rightarrow> string option \<Rightarrow> json option \<Rightarrow> bool \<Rightarrow> bool \<Rightarrow> bool \<Rightarrow> (pworld, page_result) io" where
  "process_page pl job page page_ref content final_attempt handoff reclaim =
     io_bind (st_get_page pl job page) (\<lambda>pg.
       case pg of
         None \<Rightarrow> io_ret (page_outcome FAILED_PAGE ''page state missing'')
       | Some h \<Rightarrow>
           io_bind (hash_state h) (\<lambda>state.
             if state \<in> set TERMINAL_STATES then io_ret (page_outcome ALREADY_TERMINAL (state_value state))
             else if state \<in> set RUNNING_STATES
             then
               if \<not> reclaim then io_ret (page_outcome OWNED_BY_OTHER (state_value state))
               else
                 io_seq (release_claim pl job page)
                 (io_bind (st_get_page pl job page) (\<lambda>pg2.
                   case pg2 of
                     None \<Rightarrow> io_ret (page_outcome FAILED_PAGE ''page state missing'')
                   | Some h2 \<Rightarrow>
                       io_bind (hash_state h2) (\<lambda>state2.
                         if state2 \<in> set TERMINAL_STATES
                         then io_ret (page_outcome ALREADY_TERMINAL (state_value state2))
                         else if state2 \<in> set RUNNING_STATES
                         then io_ret (page_outcome OWNED_BY_OTHER (state_value state2))
                         else run_stages pl job page page_ref content final_attempt handoff state2)))
             else run_stages pl job page page_ref content final_attempt handoff state))"

section \<open>What one page's processing guarantees to the rest of the system\<close>

text \<open>
  A page is settled when its state is terminal or its key is gone. \<open>finals\<close> counts the
  \<^verbatim>\<open>page.final\<close> events of a page in its job's stream. \<open>settle_rel\<close> is both what a worker relies on
  and what it guarantees: pages stay settled, and a \<^verbatim>\<open>page.final\<close> event is only added by whoever
  made the page settled.
\<close>

definition settled :: "store \<Rightarrow> string \<times> int \<Rightarrow> bool" where
  "settled s k \<longleftrightarrow> (case raw_st s k of None \<Rightarrow> True | Some c \<Rightarrow> c \<in> set TERMINAL_STATES)"

definition is_final :: "int \<Rightarrow> result_event \<Rightarrow> bool" where
  "is_final i e \<longleftrightarrow> re_event e = PAGE_FINAL \<and> json_get ''page_index'' (re_data e) = Some (JNum (of_int i))"

definition log_entries :: "out_keys \<Rightarrow> result_event list" where
  "log_entries k = (case ok_stream k of None \<Rightarrow> [] | Some (l, _) \<Rightarrow> ol_entries l)"

definition finals :: "pworld \<Rightarrow> string \<times> int \<Rightarrow> nat" where
  "finals w k = length (filter (is_final (snd k)) (log_entries (pw_out w (fst k))))"

definition settle_rel :: "pworld \<Rightarrow> pworld \<Rightarrow> bool" where
  "settle_rel w w' \<longleftrightarrow> (\<forall>k. (settled (pw_store w) k \<longrightarrow> settled (pw_store w') k)
     \<and> finals w' k + of_bool (settled (pw_store w) k) \<le> finals w k + of_bool (settled (pw_store w') k))"

text \<open>The same, with the right to publish one more \<^verbatim>\<open>page.final\<close> for the page \<open>k\<close> still unused.\<close>

definition settle_gain :: "string \<times> int \<Rightarrow> pworld \<Rightarrow> pworld \<Rightarrow> bool" where
  "settle_gain k w w' \<longleftrightarrow> settle_rel w w'
     \<and> Suc (finals w' k + of_bool (settled (pw_store w) k)) \<le> finals w k + of_bool (settled (pw_store w') k)"

lemma settle_relD:
  assumes "settle_rel w w'"
  shows "settled (pw_store w) k \<Longrightarrow> settled (pw_store w') k"
    and "finals w' k + of_bool (settled (pw_store w) k) \<le> finals w k + of_bool (settled (pw_store w') k)"
  using assms unfolding settle_rel_def by blast+

interpretation sr: world_order settle_rel
proof
  show "settle_rel w w" for w by (simp add: settle_rel_def)
  show "settle_rel a c" if "settle_rel a b" and "settle_rel b c" for a b c
    unfolding settle_rel_def
  proof (intro allI)
    fix k
    note ab = settle_relD [OF that(1), of k] and bc = settle_relD [OF that(2), of k]
    from ab(2) bc(2)
    have "finals c k + of_bool (settled (pw_store a) k) \<le> finals a k + of_bool (settled (pw_store c) k)"
      by linarith
    with ab(1) bc(1) show "(settled (pw_store a) k \<longrightarrow> settled (pw_store c) k)
        \<and> finals c k + of_bool (settled (pw_store a) k) \<le> finals a k + of_bool (settled (pw_store c) k)"
      by blast
  qed
qed

lemma gain_trans:
  assumes "settle_gain k a b" and "settle_rel b c"
  shows "settle_gain k a c"
proof -
  from assms(1) have ab: "settle_rel a b"
      "Suc (finals b k + of_bool (settled (pw_store a) k)) \<le> finals a k + of_bool (settled (pw_store b) k)"
    by (auto simp: settle_gain_def)
  have "Suc (finals c k + of_bool (settled (pw_store a) k)) \<le> finals a k + of_bool (settled (pw_store c) k)"
    using ab(2) settle_relD(2) [OF assms(2), of k] by linarith
  then show ?thesis
    using sr.trans [OF ab(1) assms(2)] unfolding settle_gain_def by blast
qed

lemma settle_rel_same:
  "pw_store w' = pw_store w \<Longrightarrow> pw_out w' = pw_out w \<Longrightarrow> settle_rel w w'"
  by (simp add: settle_rel_def finals_def)

definition env_ok :: "pipeline \<Rightarrow> bool" where
  "env_ok pl \<longleftrightarrow> (\<forall>n w. settle_rel w (snd (pl_env pl n w)))"

lemma pw_await_g:
  assumes "env_ok pl" and "guarantees settle_rel f"
  shows "guarantees settle_rel (pw_await pl f)"
proof (unfold guarantees_def, intro allI)
  fix w
  obtain fo w0 where e: "pl_env pl (pw_tick w) w = (fo, w0)" by fastforce
  let ?w1 = "w0\<lparr>pw_tick := Suc (pw_tick w)\<rparr>"
  have "settle_rel w w0" using assms(1) e by (metis env_ok_def snd_conv)
  then have r1: "settle_rel w ?w1" by (rule sr.trans) (simp add: settle_rel_same)
  have r2: "settle_rel ?w1 (snd (f ?w1))" using assms(2) by (simp add: guarantees_def)
  show "settle_rel w (snd (pw_await pl f w))"
    using r1 sr.trans [OF r1 r2]
    by (auto simp: pw_await_def e Let_def split: option.split fault.split)
qed

section \<open>Transitions and events under the relation\<close>

lemma transition_settled:
  assumes "transition t now ttl sw job i to al fvs s = Some (r, s')"
    and "set (sources_of al to) \<subseteq> set (PREDECESSORS to)"
  shows "settled s k \<longrightarrow> settled s' k"
    and "tr_ok r \<longrightarrow> \<not> settled s (job, i) \<and> (to \<in> set TERMINAL_STATES \<longrightarrow> settled s' (job, i))"
proof -
  have acc: "\<not> settled s (job, i) \<and> (raw_st s' (job, i) = Some to \<or> raw_st s' (job, i) = None)" if ok: "tr_ok r"
  proof -
    obtain c where "page_st t s job i = Some c" "c \<in> set (sources_of al to)"
        "raw_st s' (job, i) = Some to \<or> raw_st s' (job, i) = None"
      by (rule transition_commit_raw [OF assms(1) ok])
    moreover from this have "c \<notin> set TERMINAL_STATES" using assms(2) terminal_not_predecessor by blast
    ultimately show ?thesis using page_st_raw by (fastforce simp: settled_def)
  qed
  then show "tr_ok r \<longrightarrow> \<not> settled s (job, i) \<and> (to \<in> set TERMINAL_STATES \<longrightarrow> settled s' (job, i))"
    by (auto simp: settled_def)
  show "settled s k \<longrightarrow> settled s' k"
  proof (cases "k = (job, i)")
    case True
    then show ?thesis using acc transition_reject_same [OF assms(1)] by (cases "tr_ok r") auto
  next
    case False
    then show ?thesis using transition_frame(1) [OF assms(1) False] by (auto simp: settled_def)
  qed
qed

lemma st_transition_g:
  assumes "env_ok pl" and "set (sources_of al to) \<subseteq> set (PREDECESSORS to)"
  shows "guarantees settle_rel (st_transition pl job i to al fvs)"
  unfolding st_transition_def
proof (rule pw_await_g [OF assms(1)], unfold guarantees_def, intro allI)
  fix w
  show "settle_rel w (snd (case transition (pw_now w) (pw_now w) (pl_ttl_s pl) (pl_swept pl (pw_tick w)) job i to al fvs
            (pw_store w) of
       None \<Rightarrow> (Inl (OtherException ''ValueError''), w)
     | Some (r, s) \<Rightarrow> (Inr r, w\<lparr>pw_store := s\<rparr>)))"
    using transition_settled(1) [OF _ assms(2)]
    by (auto simp: settle_rel_def finals_def split: option.split)
qed

lemma st_transition_gain:
  assumes "env_ok pl" and "to \<in> set TERMINAL_STATES"
    and "st_transition pl job i to None fvs w = (Inr r, w')" and "tr_ok r"
  shows "settle_gain (job, i) w w'"
proof -
  obtain w0 where e: "pl_env pl (pw_tick w) w = (None, w0)"
    using assms(3) by (auto simp: st_transition_def pw_await_def Let_def split: prod.splits option.splits fault.splits)
  let ?w1 = "w0\<lparr>pw_tick := Suc (pw_tick w)\<rparr>"
  obtain s where tr: "transition (pw_now w0) (pw_now w0) (pl_ttl_s pl) (pl_swept pl (Suc (pw_tick w)))
      job i to None fvs (pw_store w0) = Some (r, s)" and w': "w' = ?w1\<lparr>pw_store := s\<rparr>"
    using assms(3) by (auto simp: st_transition_def pw_await_def e Let_def split: option.splits)
  have r0: "settle_rel w w0" using assms(1) e by (metis env_ok_def snd_conv)
  have set: "settled (pw_store w0) k \<longrightarrow> settled s k" for k
    using transition_settled(1) [OF tr] by simp
  have new: "\<not> settled (pw_store w0) (job, i)" "settled s (job, i)"
    using transition_settled(2) [OF tr] assms(2,4) by auto
  have fin: "finals w' k = finals w0 k" for k by (simp add: finals_def w')
  have r1: "settle_rel w0 w'"
    using set unfolding settle_rel_def fin by (auto simp: w')
  have old: "\<not> settled (pw_store w) (job, i)" using r0 new(1) by (auto simp: settle_rel_def)
  have "finals w0 (job, i) \<le> finals w (job, i)"
    using r0 new(1) old unfolding settle_rel_def by (metis add.right_neutral of_bool_eq(1))
  then show ?thesis
    using sr.trans [OF r0 r1] old new(2) unfolding settle_gain_def fin by (simp add: w')
qed

text \<open>Publishing adds one event at the end of one job's log and may drop others at the front.\<close>

lemma publish_log:
  obtains d ev where "log_entries (snd (publish t slack pb job event payload k)) =
      drop d (log_entries k @ [ev])"
    and "re_event ev = event"
    and "re_data ev = merge_json (JObj [(''job_id'', JStr job), (''emitted_at_ms'', JNum (of_int t))]) payload"
proof -
  let ?data = "merge_json (JObj [(''job_id'', JStr job), (''emitted_at_ms'', JNum (of_int t))]) payload"
  define lg where "lg = (case get_live t (ok_stream k) of None \<Rightarrow> \<lparr>ol_entries = [], ol_last = (0, 0)\<rparr> | Some l \<Rightarrow> l)"
  define sq where "sq = (case get_live t (ok_seq k) of None \<Rightarrow> 0 | Some n \<Rightarrow> n) + 1"
  define ev where "ev = \<lparr>re_id = next_id t (ol_last lg), re_seq = sq, re_event = event, re_data = ?data\<rparr>"
  have "\<exists>d0. ol_entries lg = drop d0 (log_entries k)"
  proof (cases "get_live t (ok_stream k)")
    case None
    then have "ol_entries lg = drop (length (log_entries k)) (log_entries k)" by (simp add: lg_def)
    then show ?thesis by blast
  next
    case (Some l)
    then have "ol_entries lg = drop 0 (log_entries k)"
      by (auto simp: lg_def log_entries_def get_live_def split: option.splits if_splits)
    then show ?thesis by blast
  qed
  then obtain d0 where d0: "ol_entries lg = drop d0 (log_entries k)" by blast
  have "log_entries (snd (publish t slack pb job event payload k)) =
      trim_log slack (pb_maxlen pb) (ol_entries lg @ [ev])"
    by (simp add: log_entries_def publish_def publish_lua_def cell_simps Let_def lg_def ev_def sq_def)
  moreover have "ol_entries lg @ [ev] = drop (min d0 (length (log_entries k))) (log_entries k @ [ev])"
    by (simp add: d0 min_def)
  ultimately show thesis
    using that [of _ ev] by (simp add: trim_log_def drop_drop ev_def)
qed

lemma finals_pub:
  assumes "w' = w\<lparr>pw_out := (pw_out w)(job := snd (publish t slack pb job event payload (pw_out w job)))\<rparr>"
    and "event = PAGE_FINAL \<longrightarrow> map_of payload ''page_index'' = Some (JNum (of_int i))"
  shows "finals w' k \<le> finals w k + of_bool (event = PAGE_FINAL \<and> k = (job, i))"
proof (cases "fst k = job")
  case True
  obtain d ev where log: "log_entries (snd (publish t slack pb job event payload (pw_out w job))) =
      drop d (log_entries (pw_out w job) @ [ev])" and ev: "re_event ev = event"
      "re_data ev = merge_json (JObj [(''job_id'', JStr job), (''emitted_at_ms'', JNum (of_int t))]) payload"
    by (rule publish_log)
  have drop_le: "length (filter P (drop d xs)) \<le> length (filter P xs)" for P and xs :: "result_event list"
    by (metis append_take_drop_id filter_append length_append le_add2)
  have idx: "json_get ''page_index'' (re_data ev) = Some (JNum (of_int i))" if "event = PAGE_FINAL"
    using assms(2) that by (simp add: ev merge_json_def map_of_append map_add_def split: option.split)
  have "finals w' k \<le> length (filter (is_final (snd k)) (log_entries (pw_out w job) @ [ev]))"
    using drop_le [of "is_final (snd k)" "log_entries (pw_out w job) @ [ev]"]
    by (simp add: finals_def assms(1) True log del: drop_append filter_append)
  also have "\<dots> = finals w k + of_bool (is_final (snd k) ev)"
    by (simp add: finals_def True of_bool_def)
  also have "\<dots> \<le> finals w k + of_bool (event = PAGE_FINAL \<and> k = (job, i))"
    using idx True by (cases k) (auto simp: is_final_def ev(1))
  finally show ?thesis .
qed (simp add: finals_def assms(1))

lemma pub_publish_g:
  assumes "env_ok pl" and "event \<noteq> PAGE_FINAL"
  shows "guarantees settle_rel (pub_publish pl pb job event payload)"
  unfolding pub_publish_def
proof (rule pw_await_g [OF assms(1)], unfold guarantees_def, intro allI)
  fix w :: pworld
  let ?w' = "w\<lparr>pw_out := (pw_out w)(job :=
        snd (publish (pw_now w) (pl_slack pl (pw_tick w)) pb job event payload (pw_out w job)))\<rparr>"
  have "finals ?w' k \<le> finals w k" for k using finals_pub [OF refl, of event payload 0 w job] assms(2) by fastforce
  then show "settle_rel w (snd (Inr (), ?w'))" by (simp add: settle_rel_def)
qed

lemma pub_publish_gain:
  assumes "env_ok pl" and "settle_gain (job, i) w0 w" and "map_of payload ''page_index'' = Some (JNum (of_int i))"
  shows "settle_rel w0 (snd (pub_publish pl pb job PAGE_FINAL payload w))"
proof -
  obtain fo wa where e: "pl_env pl (pw_tick w) w = (fo, wa)" by fastforce
  let ?w1 = "wa\<lparr>pw_tick := Suc (pw_tick w)\<rparr>"
  let ?w2 = "?w1\<lparr>pw_out := (pw_out ?w1)(job :=
        snd (publish (pw_now ?w1) (pl_slack pl (pw_tick ?w1)) pb job PAGE_FINAL payload (pw_out ?w1 job)))\<rparr>"
  have "settle_rel w wa" using assms(1) e by (metis env_ok_def snd_conv)
  then have "settle_rel w ?w1" by (rule sr.trans) (simp add: settle_rel_same)
  with assms(2) have g1: "settle_gain (job, i) w0 ?w1" by (rule gain_trans)
  then have r1: "settle_rel w0 ?w1" and
    one: "Suc (finals ?w1 (job, i) + of_bool (settled (pw_store w0) (job, i)))
          \<le> finals w0 (job, i) + of_bool (settled (pw_store ?w1) (job, i))"
    by (simp_all only: settle_gain_def)
  have st2: "pw_store ?w2 = pw_store ?w1" by simp
  have "finals ?w2 k + of_bool (settled (pw_store w0) k) \<le> finals w0 k + of_bool (settled (pw_store ?w1) k)" for k
    using finals_pub [OF refl, of PAGE_FINAL payload i ?w1 job "pw_now ?w1" "pl_slack pl (pw_tick ?w1)" pb k]
      assms(3) one settle_relD(2) [OF r1, of k]
    by (cases "k = (job, i)") simp_all
  then have "settle_rel w0 ?w2"
    using settle_relD(1) [OF r1] unfolding settle_rel_def st2 by blast
  with g1 show ?thesis
    by (auto simp: pub_publish_def pw_await_def e Let_def settle_gain_def split: option.split fault.split)
qed

lemma emit_g:
  assumes "env_ok pl" and "event \<noteq> PAGE_FINAL"
  shows "guarantees settle_rel (emit pl event tr job i payload)"
  unfolding emit_def
  by (intro sr.g_rules pub_publish_g [OF assms(1)]) (use assms(2) in \<open>simp_all add: JOB_COMPLETE_EVENT_def PAGE_FINAL_def\<close>)

lemma emit_gain:
  assumes "env_ok pl" and "tr_ok tr \<longrightarrow> settle_gain (job, i) w0 w" and "settle_rel w0 w"
  shows "settle_rel w0 (snd (emit pl PAGE_FINAL tr job i payload w))"
proof (cases "pl_publisher pl")
  case (Some pb)
  show ?thesis
  proof (cases "tr_ok tr")
    case True
    let ?p1 = "pub_publish pl pb job PAGE_FINAL
      ([(''page_index'', JNum (of_int i)), (''state'', JStr (state_value (tr_requested tr)))] @ payload)"
    let ?p2 = "io_when (completed_job tr) (pub_publish pl pb job JOB_COMPLETE_EVENT
        [(''total_pages'', JNum (of_int (tr_total_pages tr))), (''done'', JNum (of_int (tr_done_count tr)))])"
    let ?h = "\<lambda>e. if is_Exception e then io_ret () else io_raise e"
    have g2: "guarantees settle_rel ?p2" "guarantees settle_rel (?h e)" for e
      by (intro sr.g_rules pub_publish_g [OF assms(1)]; simp add: JOB_COMPLETE_EVENT_def PAGE_FINAL_def)+
    have "settle_rel w0 (snd (?p1 w))"
      by (rule pub_publish_gain [OF assms(1)]) (use assms(2) True in simp_all)
    then have "settle_rel w0 (snd (io_catch (io_seq ?p1 ?p2) ?h w))"
      by (intro sr.rel_catch sr.rel_seq g2)
    then show ?thesis using Some True by (simp add: emit_def)
  qed (use Some assms(3) in \<open>simp add: emit_def io_simps\<close>)
qed (use assms(3) in \<open>simp add: emit_def io_simps\<close>)

text \<open>Every commit of a terminal state followed by its event keeps the relation.\<close>

lemma commit_emit_g:
  assumes "env_ok pl" and "to \<in> set TERMINAL_STATES" and "\<And>r. guarantees settle_rel (k r)"
  shows "guarantees settle_rel (io_bind (st_transition pl job i to None fvs) (\<lambda>r.
     io_seq (emit pl PAGE_FINAL r job i (payload r)) (k r)))"
proof (unfold guarantees_def, intro allI)
  fix w
  obtain r w1 where 1: "st_transition pl job i to None fvs w = (r, w1)" by fastforce
  have r1: "settle_rel w w1"
    using guaranteesD [OF st_transition_g [OF assms(1), of None to] 1] by simp
  show "settle_rel w (snd (io_bind (st_transition pl job i to None fvs) (\<lambda>r.
     io_seq (emit pl PAGE_FINAL r job i (payload r)) (k r)) w))"
  proof (cases r)
    case (Inr tr)
    have gain: "tr_ok tr \<longrightarrow> settle_gain (job, i) w w1"
      using st_transition_gain [OF assms(1,2) 1 [unfolded Inr]] by blast
    obtain r2 w2 where 2: "emit pl PAGE_FINAL tr job i (payload tr) w1 = (r2, w2)" by fastforce
    have r2: "settle_rel w w2" using emit_gain [OF assms(1) gain r1, of "payload tr"] 2 by simp
    have "settle_rel w2 (snd (k tr w2))" using assms(3) by (simp add: guarantees_def)
    with r2 show ?thesis
      using 1 2 Inr sr.trans by (cases r2) (auto simp: io_bind_apply io_seq_apply)
  qed (use 1 r1 in \<open>simp add: io_bind_apply\<close>)
qed

lemma call_client_g: "guarantees settle_rel (call_client m)"
  by (auto simp: guarantees_def call_client_def settle_rel_same split: prod.split)

lemma get_page_g: "env_ok pl \<Longrightarrow> guarantees settle_rel (st_get_page pl job i)"
  unfolding st_get_page_def by (rule pw_await_g) (simp_all add: guarantees_def sr.refl)

lemma hash_state_g: "guarantees settle_rel (hash_state h)"
  unfolding hash_state_def by (intro sr.g_rules)

lemma vlm_confidence_g: "guarantees settle_rel (vlm_confidence v)"
  unfolding vlm_confidence_def by (cases v) (auto intro: sr.g_rules)

lemma reclaim_legal: "RECLAIM_TARGET c = Some t \<Longrightarrow> set (sources_of (Some [c]) t) \<subseteq> set (PREDECESSORS t)"
  by (cases c) auto

lemma release_claim_g: "env_ok pl \<Longrightarrow> guarantees settle_rel (release_claim pl job i)"
  unfolding release_claim_def
  by (intro sr.g_rules get_page_g hash_state_g st_transition_g reclaim_legal) assumption+

lemma degrade_g: "env_ok pl \<Longrightarrow> guarantees settle_rel (degrade pl job i e)"
  unfolding degrade_def Let_def by (rule commit_emit_g) (auto intro: sr.g_rules)

lemma fail_page_g: "env_ok pl \<Longrightarrow> guarantees settle_rel (fail_page pl job i e d)"
  unfolding fail_page_def by (rule commit_emit_g) (auto intro: sr.g_rules)

lemma default_legal: "set (sources_of None to) \<subseteq> set (PREDECESSORS to)"
  by simp

lemma layout_stage_g: "env_ok pl \<Longrightarrow> guarantees settle_rel (layout_stage pl job i pr ct ho)"
  unfolding layout_stage_def
  by (intro sr.g_rules st_transition_g call_client_g emit_g default_legal)
     (simp_all add: PAGE_PARTIAL_def PAGE_FINAL_def)

lemma vlm_stage_g: "env_ok pl \<Longrightarrow> guarantees settle_rel (vlm_stage pl job i pr ct fa re)"
  unfolding vlm_stage_def vlm_call_def
  by (intro sr.g_rules commit_emit_g degrade_g st_transition_g call_client_g vlm_confidence_g default_legal) simp_all

lemma run_stages_g: "env_ok pl \<Longrightarrow> guarantees settle_rel (run_stages pl job i pr ct fa ho st)"
  unfolding run_stages_def on_saturated_def on_exception_def
  by (intro sr.g_rules layout_stage_g vlm_stage_g release_claim_g fail_page_g)

lemma process_page_g: "env_ok pl \<Longrightarrow> guarantees settle_rel (process_page pl job i pr ct fa ho rc)"
  unfolding process_page_def
  by (intro sr.g_rules get_page_g hash_state_g release_claim_g run_stages_g)


definition demo_pipeline :: pipeline where
  "demo_pipeline = \<lparr>pl_ttl_s = 3600, pl_publisher = Some \<lparr>pb_maxlen = 100, pb_ttl_s = 3600\<rparr>,
     pl_layout = (\<lambda>_ _ _ _ w. (Inr (JObj []), w)), pl_vlm = (\<lambda>_ _ _ _ w. (Inr (JObj []), w)),
     pl_env = (\<lambda>_ w. (None, w)), pl_swept = (\<lambda>_. 100), pl_slack = (\<lambda>_. 0), pl_str = (\<lambda>_. [])\<rparr>"

definition demo_pworld :: pworld where
  "demo_pworld = \<lparr>pw_store = demo_store, pw_out = (\<lambda>_. empty_out), pw_client = demo_client_world,
     pw_now = 10, pw_tick = 0\<rparr>"


section \<open>Where a page is left\<close>

text \<open>
  From here on the environment is quiet: one worker, no interference and no failing await, and
  still any answers of the models. \<open>cur\<close> is the page's state as the worker reads it.
\<close>

definition pl_quiet :: "pipeline \<Rightarrow> bool" where
  "pl_quiet pl \<longleftrightarrow> (\<forall>n w. pl_env pl n w = (None, w)) \<and> 0 < pl_ttl_s pl"

definition cur :: "string \<Rightarrow> int \<Rightarrow> pworld \<Rightarrow> page_state option" where
  "cur job i w = page_st (pw_now w) (pw_store w) job i"

lemma q_transition:
  assumes "pl_quiet pl" and "cur job i w = Some c" and "c \<in> set (sources_of al to)"
  shows "wp (st_transition pl job i to al fvs)
     (\<lambda>r w'. (\<exists>tr. r = Inr tr \<and> tr_ok tr) \<and> cur job i w' = Some to) w"
proof -
  obtain tr s' where "transition (pw_now w) (pw_now w) (pl_ttl_s pl) (pl_swept pl (Suc (pw_tick w))) job i to al fvs
      (pw_store w) = Some (tr, s')" "tr_ok tr" "page_st (pw_now w) s' job i = Some to"
    by (rule transition_accept [of "pw_now w" "pw_store w" job i c al to "pl_ttl_s pl" "pw_now w"
          "pl_swept pl (Suc (pw_tick w))" fvs]) (use assms in \<open>auto simp: cur_def pl_quiet_def\<close>)
  with assms(1) show ?thesis
    by (simp add: wp_def st_transition_def pw_await_def pl_quiet_def cur_def)
qed

lemma q_emit:
  assumes "pl_quiet pl"
  shows "wp (emit pl ev tr job i payload) (\<lambda>r w'. r = Inr () \<and> cur job' i' w' = cur job' i' w) w"
  using assms
  by (auto simp: wp_def emit_def pub_publish_def pw_await_def pl_quiet_def cur_def io_simps Let_def
      split: option.split)

lemma q_get_page:
  assumes "pl_quiet pl"
  shows "wp (st_get_page pl job i) (\<lambda>r w'. (\<exists>pg. r = Inr pg \<and> Option.bind pg ph_state = cur job i w)
     \<and> cur job i w' = cur job i w) w"
  using assms by (simp add: wp_def st_get_page_def pw_await_def pl_quiet_def cur_def page_st_def)

lemma q_client: "wp (call_client m) (\<lambda>r w'. cur job i w' = cur job i w) w"
  by (simp add: wp_def call_client_def cur_def split: prod.split)

text \<open>The same facts as rules that a proof over a program text applies from the front.\<close>

lemma q_bind_transition:
  assumes "pl_quiet pl" and "cur job i w = Some c" and "c \<in> set (sources_of al to)"
    and "\<And>tr w'. tr_ok tr \<Longrightarrow> cur job i w' = Some to \<Longrightarrow> wp (k tr) Q w'"
  shows "wp (io_bind (st_transition pl job i to al fvs) k) Q w"
  unfolding wp_bind by (rule wp_mono [OF q_transition [OF assms(1-3)]]) (use assms(4) in auto)

lemma q_seq_emit:
  assumes "pl_quiet pl" and "cur job i w = st" and "\<And>w'. cur job i w' = st \<Longrightarrow> wp k Q w'"
  shows "wp (io_seq (emit pl ev tr job i payload) k) Q w"
  unfolding wp_seq
  by (rule wp_mono [OF q_emit [OF assms(1), of ev tr job i payload job i w]]) (use assms(2,3) in simp)

lemma q_bind_get_page:
  assumes "pl_quiet pl" and "cur job i w = st"
    and "\<And>pg w'. Option.bind pg ph_state = st \<Longrightarrow> cur job i w' = st \<Longrightarrow> wp (k pg) Q w'"
  shows "wp (io_bind (st_get_page pl job i) k) Q w"
  unfolding wp_bind by (rule wp_mono [OF q_get_page [OF assms(1), of job i w]]) (use assms(2,3) in auto)

lemma q_bind_client:
  assumes "cur job i w = st" and "\<And>e w'. cur job i w' = st \<Longrightarrow> Q (Inl e) w'"
    and "\<And>v w'. cur job i w' = st \<Longrightarrow> wp (k v) Q w'"
  shows "wp (io_bind (call_client m) k) Q w"
  unfolding wp_bind
  by (rule wp_mono [OF q_client [of m job i w]]) (use assms in \<open>auto split: sum.split\<close>)

lemma q_commit:
  assumes "pl_quiet pl" and "cur job i w = Some c" and "c \<in> set (PREDECESSORS to)"
    and "\<And>tr w'. cur job i w' = Some to \<Longrightarrow> wp (k tr) Q w'"
  shows "wp (io_bind (st_transition pl job i to None fvs) (\<lambda>r.
     io_seq (emit pl ev r job i (payload r)) (k r))) Q w"
  by (rule q_bind_transition [OF assms(1,2)], simp add: assms(3), rule q_seq_emit [OF assms(1)], assumption)
     (rule assms(4))

lemma q_release:
  assumes "pl_quiet pl" and "cur job i w = Some c"
    and "\<And>w'. cur job i w' = Some (case RECLAIM_TARGET c of None \<Rightarrow> c | Some t \<Rightarrow> t) \<Longrightarrow> wp k Q w'"
  shows "wp (io_seq (release_claim pl job i) k) Q w"
  unfolding release_claim_def wp_seq
proof (rule q_bind_get_page [OF assms(1,2)])
  fix pg :: "page_hash option" and w'
  let ?Q = "\<lambda>r w'. case r of Inl e \<Rightarrow> Q (Inl e) w' | Inr a \<Rightarrow> wp k Q w'"
  assume pg: "Option.bind pg ph_state = Some c" and w': "cur job i w' = Some c"
  then obtain h where h: "pg = Some h" "ph_state h = Some c" by (auto simp: Option.bind_eq_Some_conv)
  have "wp (io_seq (st_transition pl job i t (Some [c]) []) (io_ret ())) ?Q w'" if "RECLAIM_TARGET c = Some t" for t
    unfolding io_seq_def by (rule q_bind_transition [OF assms(1) w']) (use assms(3) that in \<open>auto simp: wp_simps\<close>)
  then show "wp (case pg of None \<Rightarrow> io_ret ()
     | Some h \<Rightarrow> io_bind (hash_state h) (\<lambda>current. case RECLAIM_TARGET current of None \<Rightarrow> io_ret ()
         | Some target \<Rightarrow> io_seq (st_transition pl job i target (Some [current]) []) (io_ret ()))) ?Q w'"
    using assms(3) w' h by (simp add: hash_state_def wp_bind wp_ret split: option.split)
qed

lemma q_fail:
  assumes "pl_quiet pl" and "cur job i w = Some c" and "c \<in> {PENDING, LAYOUT_RUNNING, VLM_RUNNING}"
  shows "wp (fail_page pl job i err det) (\<lambda>r w'. r = Inr (page_outcome FAILED_PAGE det) \<and> cur job i w' = Some FAILED) w"
  unfolding fail_page_def by (rule q_commit [OF assms(1,2)]) (use assms(3) in \<open>auto simp: wp_simps\<close>)

lemma q_degrade:
  assumes "pl_quiet pl" and "cur job i w = Some VLM_RUNNING"
  shows "wp (degrade pl job i e) (\<lambda>r w'. r = Inr (page_outcome DEGRADED (degrade_reason e))
     \<and> cur job i w' = Some FALLBACK_DONE) w"
  unfolding degrade_def Let_def by (rule q_commit [OF assms]) (auto simp: wp_simps)

text \<open>What an outcome says of the page, given the budget flag and whether a handoff was asked for.\<close>

fun outcome_fits :: "bool \<Rightarrow> bool \<Rightarrow> Outcome \<Rightarrow> page_state option \<Rightarrow> bool" where
  "outcome_fits fa ho COMPLETED st = (st = Some DONE)"
| "outcome_fits fa ho RESUMED st = (st = Some DONE)"
| "outcome_fits fa ho DEGRADED st = (st = Some FALLBACK_DONE)"
| "outcome_fits fa ho FAILED_PAGE st = (st = Some FAILED)"
| "outcome_fits fa ho HANDOFF st = (ho \<and> st = Some LAYOUT_DONE)"
| "outcome_fits fa ho SATURATED_PAGE st = (\<not> fa \<and> (st = Some PENDING \<or> st = Some LAYOUT_DONE))"
| "outcome_fits fa ho ALREADY_TERMINAL st = (\<exists>c \<in> set TERMINAL_STATES. st = Some c)"
| "outcome_fits fa ho OWNED_BY_OTHER st = (\<exists>c \<in> set RUNNING_STATES. st = Some c)"

lemma q_layout_stage:
  assumes "pl_quiet pl" and "cur job i w = Some PENDING"
  shows "wp (layout_stage pl job i pr ct ho) (\<lambda>r w'. case r of
       Inl e \<Rightarrow> cur job i w' = Some LAYOUT_RUNNING
     | Inr early \<Rightarrow> cur job i w' = Some LAYOUT_DONE
         \<and> early = (if ho then Some (page_outcome HANDOFF ''layout'') else None)) w"
  unfolding layout_stage_def
  by (rule q_bind_transition [OF assms], simp, simp split del: if_split, rule q_bind_client, assumption, simp)
     (rule q_commit [OF assms(1)], assumption, simp, simp add: wp_simps)

lemma q_vlm_call:
  assumes "pl_quiet pl" and "cur job i w = Some VLM_RUNNING"
  shows "wp (vlm_call pl job i pr ct fa) (\<lambda>r w'. case r of
       Inl e \<Rightarrow> cur job i w' = Some VLM_RUNNING \<and> classify e \<in> {SATURATED, CIRCUIT_OPEN} \<and> \<not> fa
     | Inr (Inl p) \<Rightarrow> cur job i w' = Some FALLBACK_DONE \<and> pr_outcome p = DEGRADED
     | Inr (Inr v) \<Rightarrow> cur job i w' = Some VLM_RUNNING) w"
  (is "wp _ ?Q w")
proof -
  let ?h = "\<lambda>e. if classify e \<in> {SATURATED, CIRCUIT_OPEN} \<and> \<not> fa then io_raise e
      else io_bind (degrade pl job i e) (\<lambda>r. io_ret (Inl r))"
  have h: "wp (?h e) ?Q w'" if "cur job i w' = Some VLM_RUNNING" for e w'
  proof (cases "classify e \<in> {SATURATED, CIRCUIT_OPEN} \<and> \<not> fa")
    case False
    have "wp (io_bind (degrade pl job i e) (\<lambda>r. io_ret (Inl r))) ?Q w'"
      unfolding wp_bind
      by (rule wp_mono [OF q_degrade [OF assms(1) that]]) (simp add: wp_ret page_outcome_def)
    with False show ?thesis by (simp only: if_False)
  qed (use that in \<open>simp add: wp_raise\<close>)
  show ?thesis
    unfolding vlm_call_def wp_catch
    by (rule q_bind_client [OF assms(2)]) (simp_all only: sum.case h wp_ret)
qed

definition vlm_post :: "string \<Rightarrow> int \<Rightarrow> bool \<Rightarrow> exc + page_result \<Rightarrow> pworld \<Rightarrow> bool" where
  "vlm_post job i fa r w' = (case r of
       Inl e \<Rightarrow> cur job i w' = Some VLM_RUNNING \<and> is_Exception e
           \<and> (classify e \<in> {SATURATED, CIRCUIT_OPEN} \<longrightarrow> \<not> fa)
     | Inr p \<Rightarrow> pr_outcome p \<in> {COMPLETED, RESUMED} \<and> cur job i w' = Some DONE
           \<or> pr_outcome p = DEGRADED \<and> cur job i w' = Some FALLBACK_DONE)"

definition run_post :: "string \<Rightarrow> int \<Rightarrow> bool \<Rightarrow> bool \<Rightarrow> page_state \<Rightarrow> exc + page_result \<Rightarrow> pworld \<Rightarrow> bool" where
  "run_post job i fa ho st r w' = (case r of
       Inl e \<Rightarrow> \<not> is_Exception e \<and> cur job i w' = Some LAYOUT_RUNNING
     | Inr p \<Rightarrow> outcome_fits fa ho (pr_outcome p) (cur job i w') \<and> pr_outcome p \<noteq> OWNED_BY_OTHER
         \<and> (pr_outcome p = HANDOFF \<longrightarrow> st = PENDING))"

lemma vlm_post_simps [simp]:
  "vlm_post job i fa (Inl e) w' \<longleftrightarrow> cur job i w' = Some VLM_RUNNING \<and> is_Exception e
     \<and> (classify e \<in> {SATURATED, CIRCUIT_OPEN} \<longrightarrow> \<not> fa)"
  "vlm_post job i fa (Inr p) w' \<longleftrightarrow> pr_outcome p \<in> {COMPLETED, RESUMED} \<and> cur job i w' = Some DONE
     \<or> pr_outcome p = DEGRADED \<and> cur job i w' = Some FALLBACK_DONE"
  by (simp_all add: vlm_post_def)

lemma run_post_simps [simp]:
  "run_post job i fa ho st (Inl e) w' \<longleftrightarrow> \<not> is_Exception e \<and> cur job i w' = Some LAYOUT_RUNNING"
  "run_post job i fa ho st (Inr p) w' \<longleftrightarrow> outcome_fits fa ho (pr_outcome p) (cur job i w')
     \<and> pr_outcome p \<noteq> OWNED_BY_OTHER \<and> (pr_outcome p = HANDOFF \<longrightarrow> st = PENDING)"
  by (simp_all add: run_post_def)

lemma q_vlm_stage:
  assumes "pl_quiet pl" and "cur job i w = Some LAYOUT_DONE"
  shows "wp (vlm_stage pl job i pr ct fa re) (vlm_post job i fa) w"
  (is "wp _ ?Q w")
proof -
  have conf: "wp (io_bind (vlm_confidence v) k) ?Q w1"
    if "cur job i w1 = Some VLM_RUNNING" "\<And>c. wp (k c) ?Q w1" for v k w1
    using that by (cases v) (auto simp: vlm_confidence_def wp_simps is_Exception_def)
  have fin: "wp (io_bind (vlm_confidence v) (\<lambda>conf.
       io_bind (st_transition pl job i DONE None
         [(''vlm'', VJson v), (''confidence'', VJson conf), (''degraded'', VInt 0)]) (\<lambda>committed.
       io_seq (emit pl PAGE_FINAL committed job i
         [(''complete'', JBool True), (''degraded'', JBool False), (''confidence'', conf), (''vlm'', v)])
         (io_ret (page_outcome (if re then RESUMED else COMPLETED) []))))) ?Q w1"
    if "cur job i w1 = Some VLM_RUNNING" for v w1
    by (rule conf [OF that], rule q_commit [OF assms(1) that]) (simp_all add: wp_ret page_outcome_def)
  have exc: "is_Exception e" if "classify e \<in> {SATURATED, CIRCUIT_OPEN}" for e
    using that by (cases e) (auto simp: is_Exception_def)
  have call: "wp (io_bind (vlm_call pl job i pr ct fa) k) ?Q w1"
    if "cur job i w1 = Some VLM_RUNNING" "\<And>p w2. cur job i w2 = Some FALLBACK_DONE \<Longrightarrow> pr_outcome p = DEGRADED \<Longrightarrow> wp (k (Inl p)) ?Q w2"
      "\<And>v w2. cur job i w2 = Some VLM_RUNNING \<Longrightarrow> wp (k (Inr v)) ?Q w2" for k w1
    unfolding wp_bind
    by (rule wp_mono [OF q_vlm_call [OF assms(1) that(1)]]) (use that(2,3) exc in \<open>auto split: sum.splits\<close>)
  show ?thesis
    unfolding vlm_stage_def
    by (rule q_bind_transition [OF assms], simp, simp only: not_True_eq_False if_False, rule call, assumption)
       (simp_all only: sum.case fin, simp add: wp_ret)
qed

lemma q_run_stages:
  assumes "pl_quiet pl" and "cur job i w = Some st" and "st \<in> {PENDING, LAYOUT_DONE}"
  shows "wp (run_stages pl job i pr ct fa ho st) (run_post job i fa ho st) w"
  (is "wp _ ?Q w")
proof -
  have sat: "wp (on_saturated pl job i fa e) ?Q w1"
    if w1: "cur job i w1 = Some c" and c: "c \<in> {LAYOUT_RUNNING, VLM_RUNNING}" and fa: "fa \<longrightarrow> c = LAYOUT_RUNNING" for e w1 c
    unfolding on_saturated_def
    apply (rule q_release [OF assms(1) w1])
    apply (cases fa)
    subgoal using fa by simp (rule wp_mono [OF q_fail [OF assms(1)]], assumption, simp_all add: page_outcome_def)
    subgoal using c by (auto simp: wp_simps)
    done
  have exn: "wp (on_exception pl job i e) ?Q w1"
    if "cur job i w1 = Some c" "c \<in> {LAYOUT_RUNNING, VLM_RUNNING}" for e w1 c
    unfolding on_exception_def
    by (rule wp_mono [OF q_fail [OF assms(1) that(1)]]) (use that(2) in \<open>auto simp: page_outcome_def\<close>)
  have vlm: "wp (vlm_stage pl job i pr ct fa re) (\<lambda>r w'. case r of
       Inl e \<Rightarrow> wp (if classify e \<in> {SATURATED, CIRCUIT_OPEN} then on_saturated pl job i fa e
                  else if is_Exception e then on_exception pl job i e else io_raise e) ?Q w'
     | Inr p \<Rightarrow> ?Q (Inr p) w') w1" if "cur job i w1 = Some LAYOUT_DONE" for w1 re
    by (rule wp_mono [OF q_vlm_stage [OF assms(1) that]]) (auto intro!: sat exn split: sum.splits)
  show ?thesis
  proof (cases "st = PENDING")
    case True
    show ?thesis
      unfolding run_stages_def wp_catch wp_bind True if_P [OF refl]
      apply (rule wp_mono [OF q_layout_stage [OF assms(1)]])
      using assms(2) True apply simp
      subgoal for r w'
        apply (cases r)
        subgoal by (auto intro!: sat [unfolded True] exn [unfolded True] simp: wp_simps)
        subgoal using vlm [of w' False, unfolded True] by (cases ho) (auto simp: wp_simps page_outcome_def)
        done
      done
  next
    case False
    with assms(3) have st: "st = LAYOUT_DONE" "st \<noteq> PENDING" by auto
    show ?thesis
      unfolding run_stages_def wp_catch wp_bind if_not_P [OF st(2)] wp_ret sum.case option.case
      by (rule vlm) (use assms(2) st in simp)
  qed
qed

definition page_post ::
  "string \<Rightarrow> int \<Rightarrow> bool \<Rightarrow> bool \<Rightarrow> bool \<Rightarrow> page_state option \<Rightarrow> exc + page_result \<Rightarrow> pworld \<Rightarrow> bool" where
  "page_post job i fa ho rc st0 r w' = (case r of
       Inl e \<Rightarrow> \<not> is_Exception e \<and> cur job i w' = Some LAYOUT_RUNNING
            \<or> e = OtherException ''KeyError'' \<and> st0 = None
     | Inr p \<Rightarrow> outcome_fits fa ho (pr_outcome p) (cur job i w')
            \<and> (pr_outcome p = OWNED_BY_OTHER \<longrightarrow> \<not> rc \<and> (\<exists>c \<in> set RUNNING_STATES. st0 = Some c))
            \<and> (pr_outcome p = HANDOFF \<longrightarrow> st0 = Some PENDING \<or> st0 = Some LAYOUT_RUNNING)
            \<or> st0 = None \<and> pr_outcome p = FAILED_PAGE)"

lemma q_process_page:
  assumes "pl_quiet pl"
  shows "wp (process_page pl job i pr ct fa ho rc) (page_post job i fa ho rc (cur job i w)) w"
proof -
  have run: "wp (run_stages pl job i pr ct fa ho st) (page_post job i fa ho rc st0) w1"
    if "cur job i w1 = Some st" "st \<in> {PENDING, LAYOUT_DONE}"
      and "st = PENDING \<longrightarrow> st0 = Some PENDING \<or> st0 = Some LAYOUT_RUNNING" for st st0 w1
    by (rule wp_mono [OF q_run_stages [OF assms that(1,2)]], use that(3) in \<open>cases st\<close>)
       (auto simp: run_post_def page_post_def split: sum.splits)
  have key: "wp (hash_state h) Q w1" if "ph_state h = Some st" "Q (Inr st) w1" for h st Q w1
    using that by (simp add: hash_state_def wp_ret)
  have again: "wp (case pg of None \<Rightarrow> io_ret (page_outcome FAILED_PAGE ''page state missing'')
      | Some h2 \<Rightarrow> io_bind (hash_state h2) (\<lambda>state2.
          if state2 \<in> set TERMINAL_STATES then io_ret (page_outcome ALREADY_TERMINAL (state_value state2))
          else if state2 \<in> set RUNNING_STATES then io_ret (page_outcome OWNED_BY_OTHER (state_value state2))
          else run_stages pl job i pr ct fa ho state2)) (page_post job i fa ho rc st0) w1"
    if pg: "Option.bind pg ph_state = Some st" and w1: "cur job i w1 = Some st" and st: "st \<in> {PENDING, LAYOUT_DONE}"
      and st0: "st = PENDING \<longrightarrow> st0 = Some PENDING \<or> st0 = Some LAYOUT_RUNNING" for pg st st0 w1
  proof -
    obtain h where h: "pg = Some h" "ph_state h = Some st"
      using pg by (auto simp: Option.bind_eq_Some_conv)
    show ?thesis
      unfolding h(1) option.case wp_bind
      by (rule key [OF h(2)]) (use run [OF w1 st st0] st in auto)
  qed
  have reclaimed: "wp (io_seq (release_claim pl job i) (io_bind (st_get_page pl job i) (\<lambda>pg.
      case pg of None \<Rightarrow> io_ret (page_outcome FAILED_PAGE ''page state missing'')
      | Some h2 \<Rightarrow> io_bind (hash_state h2) (\<lambda>state2.
          if state2 \<in> set TERMINAL_STATES then io_ret (page_outcome ALREADY_TERMINAL (state_value state2))
          else if state2 \<in> set RUNNING_STATES then io_ret (page_outcome OWNED_BY_OTHER (state_value state2))
          else run_stages pl job i pr ct fa ho state2)))) (page_post job i fa ho rc st0) w1"
    if "cur job i w1 = Some st" "st \<in> set RUNNING_STATES" "st0 = Some st" for st st0 w1
    by (rule q_release [OF assms that(1)], rule q_bind_get_page [OF assms], assumption, rule again, assumption+)
       (use that(2,3) in auto)
  show ?thesis
    unfolding process_page_def
    apply (rule q_bind_get_page [OF assms refl])
    subgoal for pg w1
      apply (cases "cur job i w")
      subgoal by (cases pg) (simp_all add: wp_simps hash_state_def page_outcome_def page_post_def)
      subgoal for st
        apply (cases pg)
        subgoal by simp
        subgoal for h
          apply (simp only: option.case Option.bind.simps wp_bind [of "hash_state h"])
          apply (rule key [of h st], simp, simp only: sum.case)
          apply (cases "st \<in> set TERMINAL_STATES")
          subgoal by (simp add: wp_ret page_outcome_def page_post_def)
          apply (cases "st \<in> set RUNNING_STATES")
           apply (subst if_not_P, assumption, subst if_P, assumption)
           apply (cases rc)
            apply (subst if_not_P, simp, rule reclaimed [of w1 st]; simp)
           apply (simp add: wp_ret page_outcome_def page_post_def)
          subgoal using run [of w1 st "Some st"] by (cases st) auto
          done
        done
      done
    done
qed

text \<open>
  The outcome tells where the page is. With no interference and whatever the models answer, a
  returned outcome fixes the page's state: completed and resumed pages are \<^const>\<open>DONE\<close>, degraded ones
  \<^const>\<open>FALLBACK_DONE\<close>, failed ones \<^const>\<open>FAILED\<close> (or the page was missing), a handoff leaves
  \<^const>\<open>LAYOUT_DONE\<close> and saturation a claimable state. The only exceptions that leave the call are a
  cancellation during the layout request, which leaves the claim to the reaper, and the \<^verbatim>\<open>KeyError\<close>
  of a hash without a state.
\<close>

theorem outcome_names_state:
  assumes "pl_quiet pl"
    and "process_page pl job page page_ref content final_attempt handoff reclaim w = (res, w')"
  shows "(case res of
       Inr p \<Rightarrow> outcome_fits final_attempt handoff (pr_outcome p) (cur job page w')
           \<or> pr_outcome p = FAILED_PAGE \<and> cur job page w = None
     | Inl e \<Rightarrow> \<not> is_Exception e \<and> cur job page w' = Some LAYOUT_RUNNING
           \<or> e = OtherException ''KeyError'' \<and> cur job page w = None)"
  using wpD [OF q_process_page [OF assms(1)] assms(2)] by (auto simp: page_post_def split: sum.splits)

lemma demo_quiet: "pl_quiet demo_pipeline"
  by (simp add: pl_quiet_def demo_pipeline_def)

lemma demo_cur: "cur ''j'' 0 demo_pworld = Some PENDING"
  by code_simp

theorem outcome_names_state_witness:
  "cur ''j'' 0 (snd (process_page demo_pipeline ''j'' 0 None None False False False demo_pworld)) = Some DONE"
proof -
  let ?run = "process_page demo_pipeline ''j'' 0 None None False False False demo_pworld"
  have "map_sum id pr_outcome (fst ?run) = Inr COMPLETED" by code_simp
  then obtain p where p: "fst ?run = Inr p" "pr_outcome p = COMPLETED" by (cases "fst ?run") auto
  with outcome_names_state [OF demo_quiet prod.collapse [symmetric], of "''j''" 0 None None False False False demo_pworld]
  show ?thesis by simp
qed

text \<open>
  The last attempt settles the page. A redelivery with its budget spent, of a page in any state,
  ends with the page in a terminal state whatever the models answer, unless the call is cancelled
  in the layout request: there is no path on which the page is put back or left claimed.
\<close>

theorem final_attempt_settles:
  assumes "pl_quiet pl" and "cur job page w = Some c"
    and "process_page pl job page page_ref content True False True w = (res, w')"
  shows "(\<exists>p s. res = Inr p \<and> cur job page w' = Some s \<and> s \<in> set TERMINAL_STATES)
     \<or> (\<exists>e. res = Inl e \<and> \<not> is_Exception e)"
proof (cases res)
  case (Inl e)
  then show ?thesis using wpD [OF q_process_page [OF assms(1)] assms(3)] assms(2) by (simp add: page_post_def)
next
  case (Inr p)
  then show ?thesis using wpD [OF q_process_page [OF assms(1)] assms(3)] assms(2)
    by (cases "pr_outcome p") (auto simp: page_post_def)
qed

definition busy_vlm :: pipeline where
  "busy_vlm = demo_pipeline\<lparr>pl_vlm := (\<lambda>_ _ _ _ w. (Inl (CircuitOpen ''vlm'' 5), w))\<rparr>"

theorem final_attempt_settles_witness:
  "cur ''j'' 0 (snd (process_page busy_vlm ''j'' 0 None None True False True demo_pworld)) \<in>
     Some ` {DONE, FALLBACK_DONE, FAILED}"
proof -
  let ?run = "process_page busy_vlm ''j'' 0 None None True False True demo_pworld"
  have "map_sum id pr_outcome (fst ?run) = Inr DEGRADED" by code_simp
  then obtain p where "fst ?run = Inr p" by (cases "fst ?run") auto
  moreover have "pl_quiet busy_vlm" by (simp add: busy_vlm_def pl_quiet_def demo_pipeline_def)
  ultimately show ?thesis
    using final_attempt_settles [OF _ demo_cur prod.collapse [symmetric], of busy_vlm None None] by auto
qed

section \<open>The backstop\<close>

fun forced :: "page_state \<Rightarrow> page_state" where
  "forced PENDING = FAILED"
| "forced LAYOUT_RUNNING = FAILED"
| "forced LAYOUT_DONE = FALLBACK_DONE"
| "forced VLM_RUNNING = FALLBACK_DONE"
| "forced c = c"

lemma forced_legal:
  "c \<notin> set TERMINAL_STATES \<Longrightarrow> forced c = (if FALLBACK_DONE \<in> TRANSITIONS c then FALLBACK_DONE else FAILED)
     \<and> c \<in> set (PREDECESSORS (forced c))"
  by (cases c) auto

text \<open>
  The crash handler's backstop always settles: from any state it ends in a terminal one and
  reports which. A page with a committed layout result is degraded, one without fails, and a
  page that is terminal already is left as it is.
\<close>

theorem force_terminal_settles:
  assumes "pl_quiet pl" and "cur job page w = Some c"
    and "force_terminal pl job page reason w = (res, w')"
  shows "res = Inr (state_value (forced c)) \<and> cur job page w' = Some (forced c) \<and> forced c \<in> set TERMINAL_STATES"
proof -
  have post: "wp (force_terminal pl job page reason) (\<lambda>r w'. r = Inr (state_value (forced c)) \<and> cur job page w' = Some (forced c)) w"
    unfolding force_terminal_def
    apply (rule q_bind_get_page [OF assms(1,2)])
    subgoal for pg w1
      apply (cases pg, simp, simp only: option.case Option.bind.simps hash_state_def wp_bind [of "io_ret c"] wp_ret sum.case Let_def)
      apply (cases "c \<in> set TERMINAL_STATES")
      subgoal by (cases c) (auto simp: wp_ret)
      apply (subst if_not_P, assumption, rule q_bind_transition [OF assms(1)], assumption)
      subgoal by (cases c) auto
      subgoal for h tr w2
        using forced_legal [of c] by (simp only: not_True_eq_False if_False) (rule q_seq_emit [OF assms(1)]; simp add: wp_ret)
      done
    done
  moreover have "forced c \<in> set TERMINAL_STATES" by (cases c) simp_all
  ultimately show ?thesis using wpD [OF post assms(3)] by blast
qed

theorem force_terminal_settles_witness:
  "force_terminal demo_pipeline ''j'' 0 ''crash'' demo_pworld =
     (Inr ''FAILED'', snd (force_terminal demo_pipeline ''j'' 0 ''crash'' demo_pworld))"
  using force_terminal_settles [OF demo_quiet demo_cur prod.collapse [symmetric], of "''crash''"]
  by (simp add: prod_eq_iff)

section \<open>A page that is left behind\<close>

text \<open>
  A lost Redis call can strand a page. When a page whose layout result is committed is resumed
  and the claim of its second stage fails with a Redis error, the handler for unexpected
  exceptions asks for \<^const>\<open>FAILED\<close>, which is no legal step from \<^const>\<open>LAYOUT_DONE\<close>; the refusal is
  ignored and the outcome is a failed page. The page is still \<^const>\<open>LAYOUT_DONE\<close>, nothing was
  published, and the caller acknowledges a failed page, so nobody will take it up again.
\<close>

theorem lost_claim_strands_page:
  assumes "cur job page w = Some LAYOUT_DONE"
    and "\<forall>n v. pl_env pl n v = (if n = Suc (pw_tick w) then Some (Lost_Request RedisError) else None, v)"
    and "process_page pl job page page_ref content final_attempt handoff reclaim w = (res, w')"
  shows "(\<exists>p. res = Inr p \<and> pr_outcome p = FAILED_PAGE) \<and> cur job page w' = Some LAYOUT_DONE \<and> pw_out w' = pw_out w"
proof -
  obtain h where h: "get_page (pw_now w) job page (pw_store w) = Some h" "ph_state h = Some LAYOUT_DONE"
    using assms(1) by (auto simp: cur_def page_st_def Option.bind_eq_Some_conv)
  have rej: "transition (pw_now w) (pw_now w) (pl_ttl_s pl) sw job page FAILED None fvs (pw_store w) =
      Some (\<lparr>tr_ok = False, tr_observed = Some LAYOUT_DONE, tr_done_count = -1, tr_total_pages = -1,
         tr_requested = FAILED\<rparr>, pw_store w)" for sw fvs
    using assms(1) by (simp add: cur_def transition_reject)
  show ?thesis
    using assms(3)
    by (auto simp: process_page_def run_stages_def vlm_stage_def on_exception_def fail_page_def st_get_page_def
        st_transition_def pw_await_def assms(2) h rej hash_state_def io_simps emit_def cur_def is_Exception_def
        page_outcome_def page_st_def split: option.splits)
qed


definition flaky_pipeline :: pipeline where
  "flaky_pipeline = demo_pipeline\<lparr>pl_env :=
     (\<lambda>n v. (if n = 1 then Some (Lost_Request RedisError) else None, v))\<rparr>"

definition handed_off :: pworld where
  "handed_off = demo_pworld\<lparr>pw_store := snd (run_ops 3600
     [demo_op 1 0 LAYOUT_RUNNING, demo_op 2 0 LAYOUT_DONE] demo_store)\<rparr>"

theorem lost_claim_strands_page_witness:
  "cur ''j'' 0 (snd (process_page flaky_pipeline ''j'' 0 None None False False False handed_off)) = Some LAYOUT_DONE"
proof -
  have "cur ''j'' 0 handed_off = Some LAYOUT_DONE" by code_simp
  then show ?thesis
    using lost_claim_strands_page [of "''j''" 0 handed_off flaky_pipeline None None False False False,
        OF _ _ prod.collapse [symmetric]]
    by (simp add: flaky_pipeline_def handed_off_def demo_pworld_def)
qed

end
