(* ===== verification/Page_Death.thy ===== *)
theory Page_Death
  imports Page_Pipeline
begin

text \<open>
  A worker that dies while it processes a page, \<^verbatim>\<open>src/app/worker/pipeline.py\<close>. A killed or cancelled
  process stops at an await; the model has the await raise \<^const>\<open>CancelledError\<close>, before or after its
  effect. No handler of the pipeline swallows that exception, so a run with such faults either does
  what the run without them does, or it ends at once with the exception.
\<close>

section \<open>Runs that end early\<close>

definition same_or_dead :: "('w, 'a) io \<Rightarrow> ('w, 'a) io \<Rightarrow> bool" where
  "same_or_dead m m' \<longleftrightarrow> (\<forall>w. m w = m' w \<or> fst (m w) = Inl CancelledError)"

lemma same_or_deadD: "same_or_dead m m' \<Longrightarrow> m w = m' w \<or> fst (m w) = Inl CancelledError"
  by (simp add: same_or_dead_def)

lemma sd_refl: "same_or_dead m m"
  by (simp add: same_or_dead_def)

lemma sd_bind:
  assumes "same_or_dead m m'" and "\<And>a. same_or_dead (f a) (f' a)"
  shows "same_or_dead (io_bind m f) (io_bind m' f')"
  unfolding same_or_dead_def
proof
  fix w
  obtain r v where m: "m w = (r, v)" by fastforce
  have "m' w = (r, v) \<or> r = Inl CancelledError" using same_or_deadD [OF assms(1), of w] m by auto
  then show "io_bind m f w = io_bind m' f' w \<or> fst (io_bind m f w) = Inl CancelledError"
    using m same_or_deadD [OF assms(2), of _ v] by (cases r) (auto simp: io_bind_apply)
qed

lemma sd_seq: "same_or_dead m m' \<Longrightarrow> same_or_dead k k' \<Longrightarrow> same_or_dead (io_seq m k) (io_seq m' k')"
  unfolding io_seq_def by (rule sd_bind)

lemma sd_when: "same_or_dead m m' \<Longrightarrow> same_or_dead (io_when b m) (io_when b m')"
  by (simp add: io_when_def sd_refl)

lemma sd_if: "(b \<Longrightarrow> same_or_dead m m') \<Longrightarrow> (\<not> b \<Longrightarrow> same_or_dead k k') \<Longrightarrow> same_or_dead (if b then m else k) (if b then m' else k')"
  by simp

lemma sd_option:
  "same_or_dead m m' \<Longrightarrow> (\<And>a. same_or_dead (k a) (k' a)) \<Longrightarrow>
   same_or_dead (case x of None \<Rightarrow> m | Some a \<Rightarrow> k a) (case x of None \<Rightarrow> m' | Some a \<Rightarrow> k' a)"
  by (cases x) simp_all

lemma sd_sum:
  "(\<And>a. same_or_dead (m a) (m' a)) \<Longrightarrow> (\<And>a. same_or_dead (k a) (k' a)) \<Longrightarrow>
   same_or_dead (case x of Inl a \<Rightarrow> m a | Inr a \<Rightarrow> k a) (case x of Inl a \<Rightarrow> m' a | Inr a \<Rightarrow> k' a)"
  by (cases x) simp_all

text \<open>A handler may only catch what it does not take for the end of the process.\<close>

lemma sd_catch:
  assumes "same_or_dead m m'" and "\<And>e. same_or_dead (h e) (h' e)" and "h CancelledError = io_raise CancelledError"
  shows "same_or_dead (io_catch m h) (io_catch m' h')"
  unfolding same_or_dead_def
proof
  fix w
  obtain r v where m: "m w = (r, v)" by fastforce
  have "m' w = (r, v) \<or> r = Inl CancelledError" using same_or_deadD [OF assms(1), of w] m by auto
  then show "io_catch m h w = io_catch m' h' w \<or> fst (io_catch m h w) = Inl CancelledError"
    using m same_or_deadD [OF assms(2), of "projl r" v] assms(3) by (cases r) (auto simp: io_simps)
qed

lemma sd_catch_same: "(\<And>e. same_or_dead (h e) (h' e)) \<Longrightarrow> same_or_dead (io_catch m h) (io_catch m h')"
  unfolding same_or_dead_def by (auto simp: io_simps split: prod.split sum.split)

lemmas sd_rules = sd_refl sd_bind sd_seq sd_when sd_if sd_option sd_sum

section \<open>The pipeline of a mortal worker\<close>

text \<open>\<open>pl_mortal\<close>: nobody else acts, and an await may be the last thing the worker does. \<open>undying\<close> is the same worker without faults.\<close>

definition pl_mortal :: "pipeline \<Rightarrow> bool" where
  "pl_mortal pl \<longleftrightarrow> (\<forall>n w. snd (pl_env pl n w) = w \<and>
     fst (pl_env pl n w) \<in> {None, Some (Lost_Request CancelledError), Some (Lost_Reply CancelledError)}) \<and> 0 < pl_ttl_s pl"

definition undying :: "pipeline \<Rightarrow> pipeline" where
  "undying pl = pl\<lparr>pl_env := \<lambda>n w. (None, w)\<rparr>"

lemma undying_simps [simp]:
  "pl_ttl_s (undying pl) = pl_ttl_s pl" "pl_publisher (undying pl) = pl_publisher pl" "pl_layout (undying pl) = pl_layout pl"
  "pl_vlm (undying pl) = pl_vlm pl" "pl_swept (undying pl) = pl_swept pl" "pl_slack (undying pl) = pl_slack pl" "pl_str (undying pl) = pl_str pl"
  "pl_env (undying pl) n w = (None, w)"
  by (simp_all add: undying_def)

lemma quiet_undying: "pl_mortal pl \<Longrightarrow> pl_quiet (undying pl)"
  by (simp add: pl_mortal_def pl_quiet_def)

lemma quiet_mortal: "pl_quiet pl \<Longrightarrow> pl_mortal pl"
  by (simp add: pl_mortal_def pl_quiet_def)

lemma sd_await:
  assumes "pl_mortal pl"
  shows "same_or_dead (pw_await pl f) (pw_await (undying pl) f)"
  unfolding same_or_dead_def
proof
  fix w
  obtain fo where e: "pl_env pl (pw_tick w) w = (fo, w)" "fo \<in> {None, Some (Lost_Request CancelledError), Some (Lost_Reply CancelledError)}"
    using assms unfolding pl_mortal_def by (metis prod.collapse)
  then show "pw_await pl f w = pw_await (undying pl) f w \<or> fst (pw_await pl f w) = Inl CancelledError"
    by (auto simp: pw_await_def)
qed

lemma not_exception: "\<not> is_Exception CancelledError" "classify CancelledError \<notin> {SATURATED, CIRCUIT_OPEN}"
  by (simp_all add: is_Exception_def)

lemma sd_transition: "pl_mortal pl \<Longrightarrow> same_or_dead (st_transition pl job i to al fvs) (st_transition (undying pl) job i to al fvs)"
  unfolding st_transition_def undying_simps by (rule sd_await)

lemma sd_get_page: "pl_mortal pl \<Longrightarrow> same_or_dead (st_get_page pl job i) (st_get_page (undying pl) job i)"
  unfolding st_get_page_def by (rule sd_await)

lemma sd_publish: "pl_mortal pl \<Longrightarrow> same_or_dead (pub_publish pl pb job ev payload) (pub_publish (undying pl) pb job ev payload)"
  unfolding pub_publish_def undying_simps by (rule sd_await)

lemma sd_emit: "pl_mortal pl \<Longrightarrow> same_or_dead (emit pl ev tr job i payload) (emit (undying pl) ev tr job i payload)"
  unfolding emit_def undying_simps by (intro sd_rules sd_catch sd_publish) (simp_all add: not_exception)

lemma sd_release: "pl_mortal pl \<Longrightarrow> same_or_dead (release_claim pl job i) (release_claim (undying pl) job i)"
  unfolding release_claim_def by (intro sd_rules sd_get_page sd_transition)

lemma sd_fail: "pl_mortal pl \<Longrightarrow> same_or_dead (fail_page pl job i e d) (fail_page (undying pl) job i e d)"
  unfolding fail_page_def by (intro sd_rules sd_emit sd_transition)

lemma sd_degrade: "pl_mortal pl \<Longrightarrow> same_or_dead (degrade pl job i e) (degrade (undying pl) job i e)"
  unfolding degrade_def Let_def by (intro sd_rules sd_emit sd_transition)

lemma sd_layout_stage: "pl_mortal pl \<Longrightarrow> same_or_dead (layout_stage pl job i pr ct ho) (layout_stage (undying pl) job i pr ct ho)"
  unfolding layout_stage_def undying_simps by (intro sd_rules sd_emit sd_transition)

lemma sd_vlm_stage: "pl_mortal pl \<Longrightarrow> same_or_dead (vlm_stage pl job i pr ct fa re) (vlm_stage (undying pl) job i pr ct fa re)"
  unfolding vlm_stage_def vlm_call_def undying_simps by (intro sd_rules sd_catch_same sd_emit sd_transition sd_degrade)

lemma sd_run_stages: "pl_mortal pl \<Longrightarrow> same_or_dead (run_stages pl job i pr ct fa ho st) (run_stages (undying pl) job i pr ct fa ho st)"
  unfolding run_stages_def on_saturated_def on_exception_def undying_simps
  by (intro sd_rules sd_catch sd_layout_stage sd_vlm_stage sd_release sd_fail) (simp_all add: not_exception)

lemma sd_process_page:
  "pl_mortal pl \<Longrightarrow> same_or_dead (process_page pl job i pr ct fa ho rc) (process_page (undying pl) job i pr ct fa ho rc)"
  unfolding process_page_def by (intro sd_rules sd_get_page sd_release sd_run_stages)

text \<open>What is known of a page after a quiet run is known after a run that was not cut short.\<close>

lemma m_process_page:
  assumes "pl_mortal pl"
  shows "wp (process_page pl job i pr ct fa ho rc) (\<lambda>r w'. r = Inl CancelledError \<or> page_post job i fa ho rc (cur job i w) r w') w"
proof -
  let ?m = "process_page (undying pl) job i pr ct fa ho rc"
  have "page_post job i fa ho rc (cur job i w) (fst (?m w)) (snd (?m w))"
    by (rule wpD [OF q_process_page [OF quiet_undying [OF assms]]]) simp
  then show ?thesis using same_or_deadD [OF sd_process_page [OF assms], of job i pr ct fa ho rc w] by (auto simp: wp_def)
qed

end
