(* ===== verification/Redis_Streams.thy ===== *)
theory Redis_Streams
  imports Orch_Prelude
begin

text \<open>
  The Redis Streams service the task queue is written against. The service is not part of the
  repository: its commands are the fields of the record \<open>stream_ops\<close>, over a server state of any
  type, and the queue's operations take that record as an argument. What the code relies on is
  the locale \<open>stream_server\<close>, in terms of three observations of a server state: the entry stored
  under an id of a stream, the consumer that holds it in the group's pending list, and how long
  that hold has been idle. A command may raise instead of answering; the laws then only promise
  that nothing else was lost. A blocking read waits, and other clients act meanwhile: its laws
  speak of the state it leaves.

  The second half is an in-memory server that satisfies the laws; the concrete runs of the
  development are evaluated on it.
\<close>

section \<open>The commands\<close>

type_synonym entry_id = string
type_synonym fields = "(string \<times> string) list"

text \<open>
  \<^verbatim>\<open>NEW_MESSAGES\<close> and \<^verbatim>\<open>OWN_PENDING\<close>, the ids \<^verbatim>\<open>">"\<close> and \<^verbatim>\<open>"0"\<close> of \<^verbatim>\<open>XREADGROUP\<close>.
\<close>

datatype read_from = NEW_MESSAGES | OWN_PENDING

record 's stream_ops =
  xadd :: "string \<Rightarrow> fields \<Rightarrow> ('s, entry_id) io"
  xadd_maxlen :: "string \<Rightarrow> int \<Rightarrow> fields \<Rightarrow> ('s, entry_id) io"
  incr :: "string \<Rightarrow> ('s, int) io"
  get_key :: "string \<Rightarrow> ('s, string option) io"
  xgroup_create :: "string \<Rightarrow> ('s, unit) io"
  xreadgroup :: "string \<Rightarrow> (string \<times> read_from) list \<Rightarrow> int \<Rightarrow> int option
                 \<Rightarrow> ('s, (string \<times> (entry_id \<times> fields) list) list) io"
  xack :: "string \<Rightarrow> entry_id \<Rightarrow> ('s, unit) io"
  xdel :: "string \<Rightarrow> entry_id \<Rightarrow> ('s, unit) io"
  xpending_range :: "string \<Rightarrow> int \<Rightarrow> int \<Rightarrow> ('s, (entry_id \<times> string) list) io"
  xclaim :: "string \<Rightarrow> string \<Rightarrow> int \<Rightarrow> entry_id list \<Rightarrow> bool \<Rightarrow> ('s, (entry_id \<times> fields) list) io"
  xinfo_consumers :: "string \<Rightarrow> ('s, (string \<times> int \<times> int) list) io"
  xlen :: "string \<Rightarrow> ('s, int) io"
  xpending :: "string \<Rightarrow> ('s, int) io"

section \<open>What the code relies on\<close>

text \<open>\<open>grows e e'\<close>: every entry of \<open>e\<close> is still there, unchanged, in \<open>e'\<close>.\<close>

definition grows :: "('a \<Rightarrow> 'b \<Rightarrow> 'c option) \<Rightarrow> ('a \<Rightarrow> 'b \<Rightarrow> 'c option) \<Rightarrow> bool" where
  "grows e e' \<longleftrightarrow> (\<forall>st i f. e st i = Some f \<longrightarrow> e' st i = Some f)"

lemma grows_refl [simp]: "grows e e"
  by (simp add: grows_def)

lemma grows_trans: "grows a b \<Longrightarrow> grows b c \<Longrightarrow> grows a c"
  by (simp add: grows_def)

lemma growsD: "grows e e' \<Longrightarrow> e st i = Some f \<Longrightarrow> e' st i = Some f"
  by (simp add: grows_def)

locale stream_server =
  fixes ops :: "'s stream_ops"
    and ok :: "'s \<Rightarrow> bool"
    and ent :: "'s \<Rightarrow> string \<Rightarrow> entry_id \<Rightarrow> fields option"
    and owner :: "'s \<Rightarrow> string \<Rightarrow> entry_id \<Rightarrow> string option"
    and idle :: "'s \<Rightarrow> string \<Rightarrow> entry_id \<Rightarrow> int"
  assumes xadd_ok: "ok s \<Longrightarrow> xadd ops st f s = (ra, s') \<Longrightarrow> ok s'"
    and xadd_law: "ok s \<Longrightarrow> xadd ops st f s = (Inr i, s') \<Longrightarrow>
      ent s st i = None \<and> ent s' = (ent s)(st := (ent s st)(i \<mapsto> f)) \<and> owner s' = owner s"
    and xadd_raise: "ok s \<Longrightarrow> xadd ops st f s = (Inl e, s') \<Longrightarrow>
      ent s' = ent s \<or> (\<exists>i. ent s st i = None \<and> ent s' = (ent s)(st := (ent s st)(i \<mapsto> f)))"
    and xadd_maxlen_law: "ok s \<Longrightarrow> xadd_maxlen ops st n f s = (ra, s') \<Longrightarrow>
      ok s' \<and> (\<forall>st'. st' \<noteq> st \<longrightarrow> ent s' st' = ent s st')"
    and incr_law: "ok s \<Longrightarrow> incr ops k s = (rn, s') \<Longrightarrow> ok s' \<and> ent s' = ent s"
    and xack_law: "ok s \<Longrightarrow> xack ops st i s = (ru, s') \<Longrightarrow> ok s' \<and> ent s' = ent s"
    and xdel_law: "ok s \<Longrightarrow> xdel ops st i s = (Inr u, s') \<Longrightarrow>
      ok s' \<and> ent s' = (ent s)(st := (ent s st)(i := None))"
    and xdel_raise: "ok s \<Longrightarrow> xdel ops st i s = (Inl e, s') \<Longrightarrow>
      ok s' \<and> (ent s' = ent s \<or> ent s' = (ent s)(st := (ent s st)(i := None)))"
    and xreadgroup_ok: "ok s \<Longrightarrow> xreadgroup ops c strs n b s = (rr, s') \<Longrightarrow> ok s'"
    and xreadgroup_keeps: "ok s \<Longrightarrow> xreadgroup ops c strs n None s = (rr, s') \<Longrightarrow> ent s' = ent s"
    and xreadgroup_streams: "ok s \<Longrightarrow> distinct (map fst strs) \<Longrightarrow> xreadgroup ops c strs n b s = (Inr reply, s') \<Longrightarrow>
      distinct (map fst reply) \<and> set (map fst reply) \<subseteq> set (map fst strs)"
    and xreadgroup_count: "ok s \<Longrightarrow> distinct (map fst strs) \<Longrightarrow> xreadgroup ops c strs n b s = (Inr reply, s') \<Longrightarrow>
      0 < n \<Longrightarrow> (st, rows) \<in> set reply \<Longrightarrow> int (length rows) \<le> n"
    and xreadgroup_new: "ok s \<Longrightarrow> distinct (map fst strs) \<Longrightarrow> xreadgroup ops c strs n b s = (Inr reply, s') \<Longrightarrow>
      (st, rows) \<in> set reply \<Longrightarrow> (st, NEW_MESSAGES) \<in> set strs \<Longrightarrow> (i, f) \<in> set rows \<Longrightarrow>
      ent s' st i = Some f \<and> owner s' st i = Some c \<and>
      (b = None \<longrightarrow> ent s st i = Some f \<and> owner s st i = None)"
    and xclaim_keeps: "ok s \<Longrightarrow> xclaim ops st c m ids j s = (rc, s') \<Longrightarrow> ok s' \<and> ent s' = ent s"
    and xclaim_law: "ok s \<Longrightarrow> xclaim ops st c m ids j s = (Inr hits, s') \<Longrightarrow>
      (i, f) \<in> set hits \<Longrightarrow>
      i \<in> set ids \<and> m \<le> idle s st i \<and> owner s' st i = Some c \<and> idle s' st i = 0"
    and xpending_range_law: "ok s \<Longrightarrow> xpending_range ops st n m s = (rp, s') \<Longrightarrow> ok s' \<and> ent s' = ent s"
    and xpending_range_rows: "ok s \<Longrightarrow> xpending_range ops st n m s = (Inr pend, s') \<Longrightarrow>
      (i, c) \<in> set pend \<Longrightarrow> owner s st i = Some c \<and> m \<le> idle s st i"
    and xlen_law: "ok s \<Longrightarrow> xlen ops st s = (rn, s') \<Longrightarrow> ok s' \<and> ent s' = ent s"
    and xlen_count: "ok s \<Longrightarrow> xlen ops st s = (Inr n, s') \<Longrightarrow> n = int (card {i. ent s st i \<noteq> None})"
    and finite_ent: "ok s \<Longrightarrow> finite {i. ent s st i \<noteq> None}"
begin

lemma xadd_grows: "ok s \<Longrightarrow> xadd ops st f s = (r, s') \<Longrightarrow> grows (ent s) (ent s')"
proof (cases r)
  case (Inl e)
  moreover assume "ok s" and "xadd ops st f s = (r, s')"
  ultimately show ?thesis using xadd_raise [of s st f e s'] by (auto simp: grows_def)
next
  case (Inr i)
  moreover assume "ok s" and "xadd ops st f s = (r, s')"
  ultimately show ?thesis using xadd_law [of s st f i s'] by (auto simp: grows_def)
qed

text \<open>Settling an entry removes that entry at most, whether or not the commands raise.\<close>

lemma settle_others:
  assumes "ok s" and "io_seq (xack ops st i) (xdel ops st i) s = (r, s')"
  shows "ok s' \<and> (\<forall>st' j. (st', j) \<noteq> (st, i) \<longrightarrow> ent s' st' j = ent s st' j)"
proof -
  obtain r1 s1 where a: "xack ops st i s = (r1, s1)" by fastforce
  have s1: "ok s1" "ent s1 = ent s" using xack_law [OF assms(1) a] by auto
  show ?thesis
  proof (cases r1)
    case (Inr u)
    then have "xdel ops st i s1 = (r, s')" using assms(2) a by (simp add: io_seq_apply)
    then have "ok s' \<and> (ent s' = ent s1 \<or> ent s' = (ent s1)(st := (ent s1 st)(i := None)))"
      using xdel_law [OF s1(1)] xdel_raise [OF s1(1)] by (cases r) auto
    with s1 show ?thesis by auto
  qed (use assms(2) a s1 in \<open>auto simp: io_seq_apply\<close>)
qed

lemma settle_removes:
  assumes "ok s" and "io_seq (xack ops st i) (xdel ops st i) s = (Inr u, s')"
  shows "ent s' st i = None"
proof -
  obtain r1 s1 where a: "xack ops st i s = (r1, s1)" by fastforce
  then obtain v where "r1 = Inr v" "xdel ops st i s1 = (Inr u, s')"
    using assms(2) by (cases r1) (auto simp: io_seq_apply)
  then show ?thesis using xdel_law xack_law [OF assms(1) a] by fastforce
qed

end

section \<open>An in-memory server\<close>

text \<open>
  Each stream is its log in order, an entry carrying its consumer and the time of its last
  delivery once it was delivered; ids are numbered in the order of creation.
\<close>

record mem_entry =
  me_id :: nat
  me_fields :: fields
  me_delivered :: bool
  me_owner :: "(string \<times> int) option"

record mem_server =
  ms_now :: int
  ms_next :: nat
  ms_log :: "string \<Rightarrow> mem_entry list"
  ms_counters :: "string \<Rightarrow> int"

definition mem_update :: "string \<Rightarrow> (mem_entry list \<Rightarrow> mem_entry list) \<Rightarrow> mem_server \<Rightarrow> mem_server" where
  "mem_update st g s = s\<lparr>ms_log := (ms_log s)(st := g (ms_log s st))\<rparr>"

definition mem_xadd :: "string \<Rightarrow> fields \<Rightarrow> (mem_server, entry_id) io" where
  "mem_xadd st f s =
     (Inr (str_nat (ms_next s)),
      (mem_update st (\<lambda>l. l @ [\<lparr>me_id = ms_next s, me_fields = f, me_delivered = False, me_owner = None\<rparr>]) s)
        \<lparr>ms_next := Suc (ms_next s)\<rparr>)"

definition mem_xadd_maxlen :: "string \<Rightarrow> int \<Rightarrow> fields \<Rightarrow> (mem_server, entry_id) io" where
  "mem_xadd_maxlen st n f s =
     (let (r, s1) = mem_xadd st f s
      in (r, mem_update st (\<lambda>l. drop (length l - nat n) l) s1))"

definition mem_remove :: "string \<Rightarrow> entry_id \<Rightarrow> (mem_server, unit) io" where
  "mem_remove st i s = (Inr (), mem_update st (filter (\<lambda>e. str_nat (me_id e) \<noteq> i)) s)"

definition mem_release :: "string \<Rightarrow> entry_id \<Rightarrow> (mem_server, unit) io" where
  "mem_release st i s =
     (Inr (), mem_update st (map (\<lambda>e. if str_nat (me_id e) = i then e\<lparr>me_owner := None\<rparr> else e)) s)"

definition mem_wanted :: "string \<Rightarrow> read_from \<Rightarrow> mem_entry \<Rightarrow> bool" where
  "mem_wanted c src e =
     (case src of NEW_MESSAGES \<Rightarrow> \<not> me_delivered e | OWN_PENDING \<Rightarrow> map_option fst (me_owner e) = Some c)"

definition mem_row :: "mem_entry \<Rightarrow> entry_id \<times> fields" where
  "mem_row e = (str_nat (me_id e), me_fields e)"

definition mem_pick :: "string \<Rightarrow> read_from \<Rightarrow> int \<Rightarrow> mem_entry list \<Rightarrow> mem_entry list" where
  "mem_pick c src n l = take (nat n) (filter (mem_wanted c src) l)"

definition mem_deliver :: "string \<Rightarrow> int \<Rightarrow> nat set \<Rightarrow> mem_entry list \<Rightarrow> mem_entry list" where
  "mem_deliver c now ids l = map (\<lambda>e. if me_id e \<in> ids then e\<lparr>me_delivered := True, me_owner := Some (c, now)\<rparr> else e) l"

fun mem_xreadgroup ::
  "string \<Rightarrow> (string \<times> read_from) list \<Rightarrow> int \<Rightarrow> int option
   \<Rightarrow> (mem_server, (string \<times> (entry_id \<times> fields) list) list) io" where
  "mem_xreadgroup c [] n b s = (Inr [], s)"
| "mem_xreadgroup c ((st, src) # strs) n b s =
     (let picked = mem_pick c src n (ms_log s st);
          s1 = (if src = NEW_MESSAGES
                then mem_update st (mem_deliver c (ms_now s) (set (map me_id picked))) s else s)
      in case mem_xreadgroup c strs n b s1 of
           (Inl e, s2) \<Rightarrow> (Inl e, s2)
         | (Inr rest, s2) \<Rightarrow>
             (Inr ((if picked = [] then [] else [(st, map mem_row picked)]) @ rest), s2))"

definition mem_idle :: "mem_server \<Rightarrow> mem_entry \<Rightarrow> int" where
  "mem_idle s e = (case me_owner e of None \<Rightarrow> 0 | Some (_, t) \<Rightarrow> ms_now s - t)"

definition mem_xpending_range :: "string \<Rightarrow> int \<Rightarrow> int \<Rightarrow> (mem_server, (entry_id \<times> string) list) io" where
  "mem_xpending_range st n m s =
     (Inr (take (nat n) (map (\<lambda>e. (str_nat (me_id e), fst (the (me_owner e))))
        (filter (\<lambda>e. me_owner e \<noteq> None \<and> m \<le> mem_idle s e) (ms_log s st)))), s)"

definition mem_xclaim ::
  "string \<Rightarrow> string \<Rightarrow> int \<Rightarrow> entry_id list \<Rightarrow> bool \<Rightarrow> (mem_server, (entry_id \<times> fields) list) io" where
  "mem_xclaim st c m ids justid s =
     (let hit = filter (\<lambda>e. str_nat (me_id e) \<in> set ids \<and> me_owner e \<noteq> None \<and> m \<le> mem_idle s e) (ms_log s st)
      in (Inr (map (\<lambda>e. (str_nat (me_id e), if justid then [] else me_fields e)) hit),
          mem_update st (mem_deliver c (ms_now s) (set (map me_id hit))) s))"

definition mem_ops :: "mem_server stream_ops" where
  "mem_ops = \<lparr>xadd = mem_xadd, xadd_maxlen = mem_xadd_maxlen,
     incr = (\<lambda>k s. (Inr (ms_counters s k + 1), s\<lparr>ms_counters := (ms_counters s)(k := ms_counters s k + 1)\<rparr>)),
     get_key = (\<lambda>k s. (Inr (Some (str_int (ms_counters s k))), s)),
     xgroup_create = (\<lambda>st s. (Inl (ResponseError ''BUSYGROUP Consumer Group name already exists''), s)),
     xreadgroup = mem_xreadgroup, xack = mem_release, xdel = mem_remove,
     xpending_range = mem_xpending_range, xclaim = mem_xclaim,
     xinfo_consumers = (\<lambda>st s. (Inr (map (\<lambda>c. (c,
         int (length (filter (\<lambda>e. map_option fst (me_owner e) = Some c) (ms_log s st))), 0))
         (remdups (map (fst \<circ> the \<circ> me_owner) (filter (\<lambda>e. me_owner e \<noteq> None) (ms_log s st))))), s)),
     xlen = (\<lambda>st s. (Inr (int (length (ms_log s st))), s)),
     xpending = (\<lambda>st s. (Inr (int (length (filter (\<lambda>e. me_owner e \<noteq> None) (ms_log s st)))), s))\<rparr>"

definition mem_find :: "mem_server \<Rightarrow> string \<Rightarrow> entry_id \<Rightarrow> mem_entry option" where
  "mem_find s st i = find (\<lambda>e. str_nat (me_id e) = i) (ms_log s st)"

definition mem_ent :: "mem_server \<Rightarrow> string \<Rightarrow> entry_id \<Rightarrow> fields option" where
  "mem_ent s st i = map_option me_fields (mem_find s st i)"

definition mem_owner :: "mem_server \<Rightarrow> string \<Rightarrow> entry_id \<Rightarrow> string option" where
  "mem_owner s st i = Option.bind (mem_find s st i) (map_option fst \<circ> me_owner)"

definition mem_idle_of :: "mem_server \<Rightarrow> string \<Rightarrow> entry_id \<Rightarrow> int" where
  "mem_idle_of s st i = (case mem_find s st i of None \<Rightarrow> 0 | Some e \<Rightarrow> mem_idle s e)"

definition mem_ok :: "mem_server \<Rightarrow> bool" where
  "mem_ok s \<longleftrightarrow> (\<forall>st. distinct (map me_id (ms_log s st)) \<and> (\<forall>e \<in> set (ms_log s st).
     me_id e < ms_next s \<and> (\<not> me_delivered e \<longrightarrow> me_owner e = None)))"

definition empty_mem :: mem_server where
  "empty_mem = \<lparr>ms_now = 0, ms_next = 1, ms_log = (\<lambda>_. []), ms_counters = (\<lambda>_. 0)\<rparr>"

section \<open>The in-memory server satisfies the laws\<close>

lemma str_nat_inj [simp]: "str_nat a = str_nat b \<longleftrightarrow> a = b"
  by (metis option.inject py_nat_str_nat)

lemma find_map_id:
  "(\<And>e. me_id (g e) = me_id e) \<Longrightarrow>
   find (\<lambda>e. str_nat (me_id e) = i) (map g l) = map_option g (find (\<lambda>e. str_nat (me_id e) = i) l)"
  by (induction l) simp_all

lemma find_unique:
  assumes "distinct (map me_id l)" and "e \<in> set l"
  shows "find (\<lambda>x. str_nat (me_id x) = str_nat (me_id e)) l = Some e"
  using assms
proof (induction l)
  case (Cons x l)
  then show ?case by (cases "e = x") (auto simp: image_iff)
qed simp

lemma mem_find_member: "mem_ok s \<Longrightarrow> e \<in> set (ms_log s st) \<Longrightarrow> mem_find s st (str_nat (me_id e)) = Some e"
  unfolding mem_find_def by (rule find_unique) (simp_all add: mem_ok_def)

lemma me_id_deliver [simp]: "map me_id (mem_deliver c now ids l) = map me_id l"
  by (simp add: mem_deliver_def)

lemma mem_deliver_member:
  "e \<in> set (mem_deliver c now ids l) \<Longrightarrow> \<exists>x \<in> set l. me_id e = me_id x \<and> (\<not> me_delivered e \<longrightarrow> e = x)"
  by (auto simp: mem_deliver_def split: if_splits)

lemma mem_ok_deliver:
  assumes "mem_ok s"
  shows "mem_ok (mem_update st (mem_deliver c now ids) s)"
proof (unfold mem_ok_def, intro allI conjI ballI)
  let ?s = "mem_update st (mem_deliver c now ids) s"
  fix st' show "distinct (map me_id (ms_log ?s st'))"
    using assms by (simp add: mem_ok_def mem_update_def)
  fix e assume e: "e \<in> set (ms_log ?s st')"
  obtain x where "x \<in> set (ms_log s st')" "me_id e = me_id x" "\<not> me_delivered e \<longrightarrow> e = x"
  proof (cases "st' = st")
    case True
    with e show ?thesis using that mem_deliver_member by (fastforce simp: mem_update_def)
  qed (use e that in \<open>simp add: mem_update_def\<close>)
  then show "me_id e < ms_next ?s" and "\<not> me_delivered e \<longrightarrow> me_owner e = None"
    using assms by (auto simp: mem_ok_def mem_update_def)
qed

lemma mem_find_deliver:
  "mem_find (mem_update st (mem_deliver c now ids) s) st' i =
     map_option (\<lambda>e. if st' = st \<and> me_id e \<in> ids then e\<lparr>me_delivered := True, me_owner := Some (c, now)\<rparr> else e)
       (mem_find s st' i)"
  by (auto simp: mem_find_def mem_update_def mem_deliver_def find_map_id option.map_ident)

lemma mem_ent_deliver: "mem_ent (mem_update st (mem_deliver c now ids) s) = mem_ent s"
  by (auto simp: mem_ent_def mem_find_deliver fun_eq_iff option.map_comp comp_def intro!: map_option_cong)

lemma mem_read_frame:
  assumes "mem_xreadgroup c strs n b s = (r, s')"
  shows "(\<exists>reply. r = Inr reply) \<and> ms_now s' = ms_now s \<and> (mem_ok s \<longrightarrow> mem_ok s') \<and> mem_ent s' = mem_ent s
    \<and> (\<forall>st. st \<notin> set (map fst strs) \<longrightarrow> ms_log s' st = ms_log s st)"
  using assms
proof (induction c strs n b s arbitrary: r s' rule: mem_xreadgroup.induct)
  case (2 c st src strs n b s)
  let ?picked = "mem_pick c src n (ms_log s st)"
  let ?s1 = "if src = NEW_MESSAGES
    then mem_update st (mem_deliver c (ms_now s) (set (map me_id ?picked))) s else s"
  obtain r1 s2 where rec: "mem_xreadgroup c strs n b ?s1 = (r1, s2)" by fastforce
  note ih = 2(1) [OF refl refl rec]
  have s1: "ms_now ?s1 = ms_now s" "mem_ok s \<longrightarrow> mem_ok ?s1" "mem_ent ?s1 = mem_ent s"
      "\<forall>st'. st' \<noteq> st \<longrightarrow> ms_log ?s1 st' = ms_log s st'"
    by (simp_all add: mem_ok_deliver mem_ent_deliver) (simp_all add: mem_update_def)
  obtain reply where r1: "r1 = Inr reply" using ih by blast
  have "s' = s2" "\<exists>reply. r = Inr reply" using 2(2) rec r1 by (auto simp: Let_def)
  with ih s1 show ?case by auto
qed simp

lemma mem_read_rows:
  assumes "mem_xreadgroup c strs n b s = (Inr reply, s')" and "distinct (map fst strs)"
  shows "distinct (map fst reply) \<and> set (map fst reply) \<subseteq> set (map fst strs)
    \<and> (\<forall>st rows. (st, rows) \<in> set reply \<longrightarrow> (\<exists>src. (st, src) \<in> set strs
         \<and> rows = map mem_row (mem_pick c src n (ms_log s st))
         \<and> (src = NEW_MESSAGES \<longrightarrow> ms_log s' st = mem_deliver c (ms_now s)
              (set (map me_id (mem_pick c src n (ms_log s st)))) (ms_log s st))))"
  using assms
proof (induction c strs n b s arbitrary: reply s' rule: mem_xreadgroup.induct)
  case (2 c st src strs n b s)
  let ?picked = "mem_pick c src n (ms_log s st)"
  let ?s1 = "if src = NEW_MESSAGES
    then mem_update st (mem_deliver c (ms_now s) (set (map me_id ?picked))) s else s"
  obtain r1 s2 where rec: "mem_xreadgroup c strs n b ?s1 = (r1, s2)" by fastforce
  note frame = mem_read_frame [OF rec]
  then obtain rest where r1: "r1 = Inr rest" by blast
  have d: "distinct (map fst strs)" "st \<notin> set (map fst strs)" using 2(3) by auto
  note ih = 2(1) [OF refl refl rec [unfolded r1] d(1)]
  have out: "s' = s2" "reply = (if ?picked = [] then [] else [(st, map mem_row ?picked)]) @ rest"
    using 2(2) rec r1 by (auto simp: Let_def)
  have log1: "ms_log ?s1 st' = ms_log s st'" if "st' \<noteq> st" for st'
    using that by (simp add: mem_update_def)
  have now1: "ms_now ?s1 = ms_now s" by (simp add: mem_update_def)
  have head: "src = NEW_MESSAGES \<longrightarrow>
      ms_log s' st = mem_deliver c (ms_now s) (set (map me_id ?picked)) (ms_log s st)"
    using frame d(2) out(1) by (simp add: mem_update_def)
  show ?case
  proof (intro conjI allI impI)
    show "distinct (map fst reply)" and "set (map fst reply) \<subseteq> set (map fst ((st, src) # strs))"
      using ih d(2) by (auto simp: out(2))
    fix st1 rows assume "(st1, rows) \<in> set reply"
    then consider "st1 = st" "rows = map mem_row ?picked" | "(st1, rows) \<in> set rest"
      by (auto simp: out(2) split: if_splits)
    then show "\<exists>src'. (st1, src') \<in> set ((st, src) # strs)
         \<and> rows = map mem_row (mem_pick c src' n (ms_log s st1))
         \<and> (src' = NEW_MESSAGES \<longrightarrow> ms_log s' st1 = mem_deliver c (ms_now s)
              (set (map me_id (mem_pick c src' n (ms_log s st1)))) (ms_log s st1))"
    proof cases
      case 1
      then show ?thesis using head by (intro exI [of _ src]) simp
    next
      case 2
      then have "st1 \<noteq> st" using ih d(2) by (force simp: image_iff)
      obtain src' where "(st1, src') \<in> set strs"
          "rows = map mem_row (mem_pick c src' n (ms_log ?s1 st1))"
          "src' = NEW_MESSAGES \<longrightarrow> ms_log s2 st1 = mem_deliver c (ms_now ?s1)
             (set (map me_id (mem_pick c src' n (ms_log ?s1 st1)))) (ms_log ?s1 st1)"
        using ih 2 by blast
      then show ?thesis
        unfolding log1 [OF \<open>st1 \<noteq> st\<close>] now1 using out(1) by auto
    qed
  qed
qed simp

lemma mem_find_None: "mem_ok s \<Longrightarrow> mem_find s st (str_nat (ms_next s)) = None"
  by (fastforce simp: mem_find_def find_None_iff mem_ok_def)

lemma find_append: "find P (xs @ ys) = (case find P xs of None \<Rightarrow> find P ys | Some x \<Rightarrow> Some x)"
  by (induction xs) simp_all

lemma mem_xadd_facts:
  assumes "mem_ok s" and "mem_xadd st f s = (r, s')"
  shows "mem_ok s'" and "r = Inr (str_nat (ms_next s))"
    and "mem_ent s st (str_nat (ms_next s)) = None"
    and "mem_ent s' = (mem_ent s)(st := (mem_ent s st)(str_nat (ms_next s) \<mapsto> f))"
    and "mem_owner s' = mem_owner s"
proof -
  have s': "s' = (mem_update st (\<lambda>l. l @ [\<lparr>me_id = ms_next s, me_fields = f, me_delivered = False,
      me_owner = None\<rparr>]) s)\<lparr>ms_next := Suc (ms_next s)\<rparr>" and r: "r = Inr (str_nat (ms_next s))"
    using assms(2) by (simp_all add: mem_xadd_def)
  show "r = Inr (str_nat (ms_next s))" by (rule r)
  show "mem_ok s'" using assms(1) by (fastforce simp: s' mem_ok_def mem_update_def)
  note none = mem_find_None [OF assms(1), of st]
  show "mem_ent s st (str_nat (ms_next s)) = None" by (simp add: mem_ent_def none)
  have find: "mem_find s' st' i = (if st' = st \<and> i = str_nat (ms_next s)
      then Some \<lparr>me_id = ms_next s, me_fields = f, me_delivered = False, me_owner = None\<rparr>
      else mem_find s st' i)" for st' i
    using none by (auto simp: s' mem_find_def mem_update_def find_append split: option.split)
  show "mem_ent s' = (mem_ent s)(st := (mem_ent s st)(str_nat (ms_next s) \<mapsto> f))"
    by (auto simp: mem_ent_def find fun_eq_iff)
  show "mem_owner s' = mem_owner s"
    using none by (auto simp: mem_owner_def find fun_eq_iff)
qed

lemma mem_filter_facts:
  assumes "mem_ok s"
  shows "mem_ok (mem_update st (filter P) s)" and "mem_ok (mem_update st (drop n) s)"
  using assms unfolding mem_ok_def mem_update_def
  by (auto simp: distinct_map_filter drop_map [symmetric] dest: in_set_dropD)

lemma find_filter_other:
  "find (\<lambda>e. str_nat (me_id e) = j) (filter (\<lambda>e. str_nat (me_id e) \<noteq> i) l) =
     (if i = j then None else find (\<lambda>e. str_nat (me_id e) = j) l)"
  by (induction l) auto

lemma mem_ent_remove:
  "mem_ent (mem_update st (filter (\<lambda>e. str_nat (me_id e) \<noteq> i)) s) =
     (mem_ent s)(st := (mem_ent s st)(i := None))"
  by (auto simp: mem_ent_def mem_find_def mem_update_def fun_eq_iff find_filter_other)

lemma mem_release_facts:
  assumes "mem_ok s" and "mem_release st i s = (r, s')"
  shows "mem_ok s'" and "mem_ent s' = mem_ent s"
proof -
  let ?g = "\<lambda>e. if str_nat (me_id e) = i then e\<lparr>me_owner := None\<rparr> else e"
  have s': "s' = mem_update st (map ?g) s" using assms(2) by (simp add: mem_release_def)
  have ids: "map me_id (map ?g l) = map me_id l" for l by simp
  show "mem_ok s'"
    using assms(1) unfolding s' mem_ok_def mem_update_def
    by (auto simp: ids simp del: map_map)
  have "mem_find s' st' j = map_option (if st' = st then ?g else id) (mem_find s st' j)" for st' j
    by (simp add: s' mem_find_def mem_update_def find_map_id option.map_id)
  then show "mem_ent s' = mem_ent s"
    by (auto simp: mem_ent_def fun_eq_iff option.map_comp comp_def intro!: map_option_cong)
qed

lemma mem_xlen_card:
  assumes "mem_ok s"
  shows "{i. mem_ent s st i \<noteq> None} = str_nat ` set (map me_id (ms_log s st))"
    and "card {i. mem_ent s st i \<noteq> None} = length (ms_log s st)"
proof -
  show eq: "{i. mem_ent s st i \<noteq> None} = str_nat ` set (map me_id (ms_log s st))"
    by (auto simp: mem_ent_def mem_find_def find_None_iff)
  have "card (str_nat ` set (map me_id (ms_log s st))) = card (set (map me_id (ms_log s st)))"
    by (rule card_image) (simp add: inj_on_def)
  also have "\<dots> = length (ms_log s st)"
    using assms by (simp add: mem_ok_def distinct_card [symmetric] del: set_map) (metis distinct_card length_map)
  finally show "card {i. mem_ent s st i \<noteq> None} = length (ms_log s st)" unfolding eq .
qed

lemma mem_read_new:
  assumes "mem_ok s" and "distinct (map fst strs)"
    and "mem_xreadgroup c strs n b s = (Inr reply, s')" and "(st, rows) \<in> set reply"
    and "(st, NEW_MESSAGES) \<in> set strs" and "(i, f) \<in> set rows"
  shows "mem_ent s' st i = Some f \<and> mem_owner s' st i = Some c
    \<and> mem_ent s st i = Some f \<and> mem_owner s st i = None"
proof -
  let ?picked = "mem_pick c NEW_MESSAGES n (ms_log s st)"
  obtain src where src: "(st, src) \<in> set strs" "rows = map mem_row (mem_pick c src n (ms_log s st))"
      "src = NEW_MESSAGES \<longrightarrow> ms_log s' st = mem_deliver c (ms_now s)
         (set (map me_id (mem_pick c src n (ms_log s st)))) (ms_log s st)"
    using mem_read_rows [OF assms(3,2)] assms(4) by blast
  have "src = NEW_MESSAGES" using src(1) assms(2,5) by (metis eq_key_imp_eq_value)
  with src obtain e where e: "e \<in> set ?picked" "i = str_nat (me_id e)" "f = me_fields e"
    and log: "ms_log s' st = mem_deliver c (ms_now s) (set (map me_id ?picked)) (ms_log s st)"
    using assms(6) by (auto simp: mem_row_def)
  have el: "e \<in> set (ms_log s st)" "\<not> me_delivered e"
    using e(1) by (auto simp: mem_pick_def mem_wanted_def dest: in_set_takeD)
  have fe: "mem_find s st i = Some e" using mem_find_member [OF assms(1) el(1)] e(2) by simp
  have "mem_find s' st i = mem_find (mem_update st (mem_deliver c (ms_now s) (set (map me_id ?picked))) s) st i"
    by (simp add: mem_find_def mem_update_def log)
  also have "\<dots> = Some (e\<lparr>me_delivered := True, me_owner := Some (c, ms_now s)\<rparr>)"
    using e(1) by (simp add: mem_find_deliver fe)
  finally show ?thesis
    using fe el assms(1) e(3) by (auto simp: mem_ent_def mem_owner_def mem_ok_def)
qed

lemma mem_claim_facts:
  assumes "mem_ok s" and "mem_xclaim st c m ids j s = (Inr hits, s')" and "(i, f) \<in> set hits"
  shows "i \<in> set ids \<and> m \<le> mem_idle_of s st i \<and> mem_owner s' st i = Some c \<and> mem_idle_of s' st i = 0"
proof -
  let ?hit = "filter (\<lambda>e. str_nat (me_id e) \<in> set ids \<and> me_owner e \<noteq> None \<and> m \<le> mem_idle s e) (ms_log s st)"
  have s': "s' = mem_update st (mem_deliver c (ms_now s) (set (map me_id ?hit))) s"
    using assms(2) by (simp add: mem_xclaim_def Let_def)
  obtain e where e: "e \<in> set ?hit" "i = str_nat (me_id e)"
  proof -
    have "hits = map (\<lambda>e. (str_nat (me_id e), if j then [] else me_fields e)) ?hit"
      using assms(2) by (simp add: mem_xclaim_def Let_def)
    then obtain x where "x \<in> set ?hit" "(i, f) = (str_nat (me_id x), if j then [] else me_fields x)"
      using assms(3) by (metis (no_types, lifting) in_set_conv_nth length_map nth_map nth_mem)
    then show thesis using that by blast
  qed
  have fe: "mem_find s st i = Some e" using mem_find_member [OF assms(1)] e by simp
  have "mem_find s' st i = Some (e\<lparr>me_delivered := True, me_owner := Some (c, ms_now s)\<rparr>)"
    using e(1) by (simp add: s' mem_find_deliver fe)
  moreover have "ms_now s' = ms_now s" by (simp add: s' mem_update_def)
  ultimately show ?thesis
    using e fe by (simp add: mem_idle_of_def mem_owner_def mem_idle_def)
qed

lemma mem_pending_rows:
  assumes "mem_ok s" and "mem_xpending_range st n m s = (Inr pend, s')" and "(i, c) \<in> set pend"
  shows "mem_owner s st i = Some c \<and> m \<le> mem_idle_of s st i"
proof -
  obtain e where "e \<in> set (ms_log s st)" "me_owner e \<noteq> None" "m \<le> mem_idle s e"
      "i = str_nat (me_id e)" "c = fst (the (me_owner e))"
    using assms(2,3) by (auto simp: mem_xpending_range_def dest!: in_set_takeD)
  with mem_find_member [OF assms(1)] show ?thesis
    by (auto simp: mem_owner_def mem_idle_of_def)
qed

lemma mem_trim_facts:
  assumes "mem_ok s" and "mem_xadd_maxlen st n f s = (r, s')"
  shows "mem_ok s' \<and> (\<forall>st'. st' \<noteq> st \<longrightarrow> mem_ent s' st' = mem_ent s st')"
proof -
  obtain r1 s1 where a: "mem_xadd st f s = (r1, s1)" by fastforce
  have s': "s' = mem_update st (\<lambda>l. drop (length l - nat n) l) s1"
    using assms(2) a by (simp add: mem_xadd_maxlen_def)
  have "s' = mem_update st (drop (length (ms_log s1 st) - nat n)) s1"
    by (simp add: s' mem_update_def)
  then have "mem_ok s'" using mem_filter_facts(2) mem_xadd_facts(1) [OF assms(1) a] by simp
  moreover have "mem_ent s' st' = mem_ent s1 st'" if "st' \<noteq> st" for st'
    using that by (auto simp: s' mem_ent_def mem_find_def mem_update_def fun_eq_iff)
  ultimately show ?thesis using mem_xadd_facts(4) [OF assms(1) a] by auto
qed

interpretation mem: stream_server mem_ops mem_ok mem_ent mem_owner mem_idle_of
proof (unfold_locales, unfold mem_ops_def stream_ops.simps, goal_cases)
  case (1 s st f ra s')
  then show ?case by (rule mem_xadd_facts(1))
next
  case (2 s st f i s')
  then show ?case using mem_xadd_facts [OF 2] by simp
next
  case (3 s st f e s')
  then show ?case by (simp add: mem_xadd_def)
next
  case (4 s st n f ra s')
  then show ?case by (rule mem_trim_facts)
next
  case (5 s k rn s')
  then show ?case by (auto simp: mem_ok_def mem_ent_def mem_find_def fun_eq_iff)
next
  case (6 s st i ru s')
  then show ?case using mem_release_facts [OF 6] by simp
next
  case (7 s st i u s')
  then show ?case using mem_filter_facts(1) mem_ent_remove by (auto simp: mem_remove_def)
next
  case (8 s st i e s')
  then show ?case by (simp add: mem_remove_def)
next
  case (9 s c strs n b rr s')
  then show ?case using mem_read_frame [OF 9(2)] by simp
next
  case (10 s c strs n rr s')
  then show ?case using mem_read_frame [OF 10(2)] by simp
next
  case (11 s strs c n b reply s')
  then show ?case using mem_read_rows [OF 11(3,2)] by blast
next
  case (12 s strs c n b reply s' st rows)
  then obtain src where "rows = map mem_row (mem_pick c src n (ms_log s st))"
    using mem_read_rows [OF 12(3,2)] by blast
  then show ?case using 12(4) by (simp add: mem_pick_def)
next
  case (13 s strs c n b reply s' st rows i f)
  then show ?case using mem_read_new [OF 13] by simp
next
  case (14 s st c m ids j rc s')
  then show ?case using mem_ok_deliver mem_ent_deliver by (auto simp: mem_xclaim_def Let_def)
next
  case (15 s st c m ids j hits s' i f)
  then show ?case by (rule mem_claim_facts)
next
  case (16 s st n m rp s')
  then show ?case by (simp add: mem_xpending_range_def)
next
  case (17 s st n m pend s' i c)
  then show ?case by (rule mem_pending_rows)
next
  case (18 s st rn s')
  then show ?case by simp
next
  case (19 s st n s')
  then show ?case using mem_xlen_card(2) by auto
next
  case (20 s st)
  then show ?case using mem_xlen_card(1) by simp
qed

end
