(* ===== verification/Task_Queue.thy ===== *)
theory Task_Queue
  imports Redis_Streams
begin

text \<open>
  The page queue over Redis Streams, \<^verbatim>\<open>src/app/queue/streams.py\<close>: the tasks and their encoding,
  and every operation of \<^verbatim>\<open>PageQueue\<close>, over a server given by its commands \<open>ops\<close>. The clock
  \<^verbatim>\<open>time.time() * 1000\<close> is the argument \<open>now_ms\<close>. A pipeline is the sequence of its commands, of
  which any number at the front has reached the server when it raises.

  Shown here: a task survives its requeue whatever fails in between, encoding and decoding
  agree, reads respect the prefetch bound, malformed entries are settled and never raised, and
  two reapers cannot take the same orphan.
\<close>

section \<open>Tasks\<close>

definition STREAM :: string where "STREAM = ''stream:pages''"
definition LEAD_STREAM :: string where "LEAD_STREAM = ''stream:pages:lead''"
definition STREAMS :: "string list" where "STREAMS = [LEAD_STREAM, STREAM]"
definition POISON_STREAM :: string where "POISON_STREAM = ''stream:pages:poison''"
definition POISON_MAXLEN :: int where "POISON_MAXLEN = 1000"
definition POISON_COUNTER_KEY :: string where "POISON_COUNTER_KEY = ''metrics:poison_entries_total''"

record page_task =
  pt_entry_id :: entry_id
  pt_job_id :: string
  pt_page_index :: int
  pt_enqueued_at_ms :: int
  pt_trace_id :: string
  pt_recovered :: bool
  pt_stream :: string
  pt_attempt :: int
  pt_first_enqueued_at_ms :: int

definition task_origin :: "page_task \<Rightarrow> int" where
  "task_origin t = (if pt_first_enqueued_at_ms t \<noteq> 0 then pt_first_enqueued_at_ms t else pt_enqueued_at_ms t)"

definition age_ms :: "real \<Rightarrow> page_task \<Rightarrow> real" where
  "age_ms now_ms t = max 0 (now_ms - of_int (task_origin t))"

definition lag_ms :: "real \<Rightarrow> page_task \<Rightarrow> real" where
  "lag_ms now_ms t = max 0 (now_ms - of_int (pt_enqueued_at_ms t))"

text \<open>\<^verbatim>\<open>fields[k]\<close> and \<^verbatim>\<open>int(...)\<close>, with the exceptions they raise.\<close>

definition field :: "string \<Rightarrow> fields \<Rightarrow> exc + string" where
  "field k fs = (case map_of fs k of None \<Rightarrow> Inl (OtherException ''KeyError'') | Some v \<Rightarrow> Inr v)"

definition to_int :: "string \<Rightarrow> exc + int" where
  "to_int v = (case py_int v of None \<Rightarrow> Inl (OtherException ''ValueError'') | Some n \<Rightarrow> Inr n)"

definition parse :: "string \<Rightarrow> entry_id \<Rightarrow> fields \<Rightarrow> exc + page_task" where
  "parse stream entry_id fs =
     sum_bind (field ''job_id'' fs) (\<lambda>job.
     sum_bind (sum_bind (field ''page_index'' fs) to_int) (\<lambda>page.
     sum_bind (sum_bind (field ''enqueued_at_ms'' fs) to_int) (\<lambda>enq.
     sum_bind (case map_of fs ''attempt'' of None \<Rightarrow> Inr 0 | Some v \<Rightarrow> to_int v) (\<lambda>attempt.
     sum_bind (sum_bind (case map_of fs ''first_enqueued_at_ms'' of
                 Some v \<Rightarrow> if v \<noteq> [] then Inr v else field ''enqueued_at_ms'' fs
               | None \<Rightarrow> field ''enqueued_at_ms'' fs) to_int) (\<lambda>first.
       Inr \<lparr>pt_entry_id = entry_id, pt_job_id = job, pt_page_index = page,
            pt_enqueued_at_ms = enq,
            pt_trace_id = (case map_of fs ''trace_id'' of None \<Rightarrow> [] | Some v \<Rightarrow> v),
            pt_recovered = False, pt_stream = stream, pt_attempt = attempt,
            pt_first_enqueued_at_ms = first\<rparr>)))))"

section \<open>Operations\<close>

definition ensure_group :: "'s stream_ops \<Rightarrow> ('s, unit) io" where
  "ensure_group ops =
     io_seq (io_mapM (\<lambda>name. io_catch (xgroup_create ops name)
       (\<lambda>e. case e of
              ResponseError msg \<Rightarrow> if str_in ''BUSYGROUP'' msg then io_ret () else io_raise e
            | _ \<Rightarrow> io_raise e)) STREAMS) (io_ret ())"

definition page_fields :: "string \<Rightarrow> int \<Rightarrow> int \<Rightarrow> string \<Rightarrow> fields" where
  "page_fields job_id index now_ms trace_id =
     [(''job_id'', job_id), (''page_index'', str_int index), (''enqueued_at_ms'', str_int now_ms),
      (''first_enqueued_at_ms'', str_int now_ms), (''trace_id'', trace_id)]"

definition enqueue_pages :: "'s stream_ops \<Rightarrow> int \<Rightarrow> string \<Rightarrow> int \<Rightarrow> string \<Rightarrow> ('s, nat) io" where
  "enqueue_pages ops now_ms job_id total_pages trace_id =
     io_bind (io_mapM (\<lambda>index. xadd ops (if index = 0 then LEAD_STREAM else STREAM)
                (page_fields job_id index now_ms trace_id)) [0..total_pages - 1])
       (\<lambda>ids. io_ret (length ids))"

definition ack :: "'s stream_ops \<Rightarrow> entry_id \<Rightarrow> string \<Rightarrow> ('s, unit) io" where
  "ack ops entry_id stream = io_seq (xack ops stream entry_id) (xdel ops stream entry_id)"

definition quarantine :: "'s stream_ops \<Rightarrow> string \<Rightarrow> entry_id \<Rightarrow> fields \<Rightarrow> exc \<Rightarrow> ('s, unit) io" where
  "quarantine ops stream entry_id fs e =
     io_seq
       (io_catch
          (io_bind (xadd_maxlen ops POISON_STREAM POISON_MAXLEN
                ([(''origin_stream'', stream), (''origin_entry_id'', entry_id), (''reason'', exc_name e)]
                 @ map (\<lambda>(k, v). (''field:'' @ k, v)) fs))
             (\<lambda>_. io_bind (incr ops POISON_COUNTER_KEY) (\<lambda>_. io_ret ())))
          (\<lambda>x. if is_Exception x then io_ret () else io_raise x))
       (ack ops entry_id stream)"

text \<open>The rows of one reply, parsed or quarantined one after the other.\<close>

definition flatten_row :: "'s stream_ops \<Rightarrow> string \<times> entry_id \<times> fields \<Rightarrow> ('s, page_task list) io" where
  "flatten_row ops = (\<lambda>(stream, entry_id, fs).
     case parse stream entry_id fs of
       Inr task \<Rightarrow> io_ret [task]
     | Inl e \<Rightarrow> io_seq (quarantine ops stream entry_id fs e) (io_ret []))"

definition reply_rows :: "(string \<times> (entry_id \<times> fields) list) list \<Rightarrow> (string \<times> entry_id \<times> fields) list" where
  "reply_rows response = concat (map (\<lambda>(stream, entries). map (Pair stream) entries) response)"

definition flatten ::
  "'s stream_ops \<Rightarrow> (string \<times> (entry_id \<times> fields) list) list \<Rightarrow> ('s, page_task list) io" where
  "flatten ops response =
     io_bind (io_mapM (flatten_row ops) (reply_rows response)) (\<lambda>tss. io_ret (concat tss))"

definition taken :: "(string \<times> (entry_id \<times> fields) list) list \<Rightarrow> int" where
  "taken response = sum_list (map (\<lambda>(_, entries). int (length entries)) response)"

definition read_lanes ::
  "'s stream_ops \<Rightarrow> string \<Rightarrow> int \<Rightarrow> int \<Rightarrow> int \<Rightarrow> int option \<Rightarrow> int
   \<Rightarrow> ('s, (string \<times> (entry_id \<times> fields) list) list) io" where
  "read_lanes ops consumer lead_count main_count0 block_ms total_cap lead_block_ms =
     io_bind (if lead_count > 0
              then xreadgroup ops consumer [(LEAD_STREAM, NEW_MESSAGES)] lead_count None
              else io_ret []) (\<lambda>lead.
     let main_count = (case total_cap of None \<Rightarrow> main_count0
                       | Some cap \<Rightarrow> min main_count0 (cap - taken lead))
     in if main_count \<le> 0
        then if lead \<noteq> [] \<or> lead_block_ms = 0 then io_ret lead
             else xreadgroup ops consumer [(LEAD_STREAM, NEW_MESSAGES)] lead_count (Some lead_block_ms)
        else
          io_bind (xreadgroup ops consumer [(STREAM, NEW_MESSAGES)] main_count None) (\<lambda>main.
            if lead \<noteq> [] \<or> main \<noteq> [] \<or> block_ms = 0 then io_ret (lead @ main)
            else xreadgroup ops consumer [(LEAD_STREAM, NEW_MESSAGES), (STREAM, NEW_MESSAGES)]
                   (max 1 (main_count div 2)) (Some block_ms)))"

definition read_tasks ::
  "'s stream_ops \<Rightarrow> string \<Rightarrow> int \<Rightarrow> int option \<Rightarrow> int \<Rightarrow> int \<Rightarrow> int \<Rightarrow> ('s, page_task list) io" where
  "read_tasks ops consumer block_ms count lead_count main_count lead_block_ms = (\<lambda>s.
     case read_lanes ops consumer (case count of Some n \<Rightarrow> n | None \<Rightarrow> lead_count)
            (case count of Some n \<Rightarrow> n | None \<Rightarrow> main_count) block_ms count lead_block_ms s of
       (Inr response, s') \<Rightarrow> flatten ops response s'
     | (Inl e, s') \<Rightarrow>
         (case e of
            ResponseError msg \<Rightarrow>
              if str_in ''NOGROUP'' msg
              then io_seq (ensure_group ops) (io_ret []) s'
              else (Inl e, s')
          | _ \<Rightarrow> (Inl e, s')))"

definition read_own_pending :: "'s stream_ops \<Rightarrow> string \<Rightarrow> int \<Rightarrow> ('s, page_task list) io" where
  "read_own_pending ops consumer count =
     io_bind (xreadgroup ops consumer [(LEAD_STREAM, OWN_PENDING)] count None) (\<lambda>lead.
     io_bind (if taken lead < count
              then xreadgroup ops consumer [(STREAM, OWN_PENDING)] (count - taken lead) None
              else io_ret []) (\<lambda>main.
     io_bind (flatten ops (lead @ main)) (\<lambda>tasks.
       io_ret (map (\<lambda>t. t\<lparr>pt_recovered := True\<rparr>) tasks))))"

definition claim_lane ::
  "'s stream_ops \<Rightarrow> string \<Rightarrow> int \<Rightarrow> int \<Rightarrow> string \<Rightarrow> ('s, page_task list) io" where
  "claim_lane ops consumer min_idle_ms count name =
     io_bind (xpending_range ops name count min_idle_ms) (\<lambda>pending.
     let ids = map fst (filter (\<lambda>(_, c). c \<noteq> consumer) pending)
     in if ids = [] then io_ret []
        else
          io_bind (xclaim ops name consumer min_idle_ms ids False) (\<lambda>entries.
          io_bind (io_mapM (flatten_row ops)
                     (map (Pair name) (filter (\<lambda>(_, fs). fs \<noteq> []) entries))) (\<lambda>tss.
            io_ret (concat tss))))"

definition claim_orphans :: "'s stream_ops \<Rightarrow> string \<Rightarrow> int \<Rightarrow> int \<Rightarrow> ('s, page_task list) io" where
  "claim_orphans ops consumer min_idle_ms count =
     io_bind (io_mapM (claim_lane ops consumer min_idle_ms count) STREAMS) (\<lambda>tss. io_ret (concat tss))"

text \<open>The keys of a dict filled by \<^verbatim>\<open>setdefault\<close>, in the order of first use.\<close>

definition first_uses :: "'a list \<Rightarrow> 'a list" where
  "first_uses xs = rev (remdups (rev xs))"

definition renew_leases :: "'s stream_ops \<Rightarrow> string \<Rightarrow> page_task list \<Rightarrow> ('s, nat) io" where
  "renew_leases ops consumer tasks =
     io_bind (io_mapM (\<lambda>name. xclaim ops name consumer 0
                (map pt_entry_id (filter (\<lambda>t. pt_stream t = name) tasks)) True)
              (first_uses (map pt_stream tasks)))
       (\<lambda>results. io_ret (sum_list (map length results)))"

definition requeue_fields :: "int \<Rightarrow> page_task \<Rightarrow> bool \<Rightarrow> fields" where
  "requeue_fields now_ms t count_attempt =
     [(''job_id'', pt_job_id t), (''page_index'', str_int (pt_page_index t)),
      (''enqueued_at_ms'', str_int now_ms),
      (''first_enqueued_at_ms'', str_int (task_origin t)),
      (''trace_id'', pt_trace_id t),
      (''attempt'', str_int (if count_attempt then pt_attempt t + 1 else pt_attempt t))]"

definition requeue :: "'s stream_ops \<Rightarrow> int \<Rightarrow> page_task \<Rightarrow> bool \<Rightarrow> ('s, entry_id) io" where
  "requeue ops now_ms t count_attempt =
     io_bind (xadd ops STREAM (requeue_fields now_ms t count_attempt)) (\<lambda>new_id.
     io_seq (ack ops (pt_entry_id t) (pt_stream t)) (io_ret new_id))"

definition poison_count :: "'s stream_ops \<Rightarrow> ('s, int) io" where
  "poison_count ops = io_bind (get_key ops POISON_COUNTER_KEY) (\<lambda>raw.
     case raw of
       None \<Rightarrow> io_ret 0
     | Some v \<Rightarrow> if v = [] then io_ret 0
                 else (case to_int v of Inl e \<Rightarrow> io_raise e | Inr n \<Rightarrow> io_ret n))"

record lane_info =
  li_consumers :: "(string \<times> int \<times> int) list"
  li_orphaned :: nat

definition consumers :: "'s stream_ops \<Rightarrow> int \<Rightarrow> ('s, nat \<times> (string \<times> lane_info) list) io" where
  "consumers ops min_idle_ms =
     io_bind (io_mapM (\<lambda>name.
       io_bind (io_catch (xinfo_consumers ops name)
         (\<lambda>e. case e of
                ResponseError msg \<Rightarrow>
                  if str_in ''NOGROUP'' msg \<or> str_in ''no such key'' msg then io_ret [] else io_raise e
              | _ \<Rightarrow> io_raise e)) (\<lambda>rows.
       io_bind (xpending_range ops name 1000 min_idle_ms) (\<lambda>stale.
         io_ret (name, \<lparr>li_consumers = rows, li_orphaned = length stale\<rparr>)))) STREAMS)
     (\<lambda>lanes. io_ret (sum_list (map (li_orphaned \<circ> snd) lanes), lanes))"

record queue_depth =
  qd_stream_length :: int
  qd_pending :: int
  qd_backlog :: int

definition depth :: "'s stream_ops \<Rightarrow> ('s, queue_depth) io" where
  "depth ops =
     io_bind (io_mapM (\<lambda>name. io_bind (xlen ops name) (\<lambda>l. io_bind (xpending ops name) (\<lambda>p. io_ret (l, p)))) STREAMS)
     (\<lambda>rows. let len = sum_list (map fst rows); pend = sum_list (map snd rows)
             in io_ret \<lparr>qd_stream_length = len, qd_pending = pend, qd_backlog = max 0 (len - pend)\<rparr>)"

section \<open>Encoding and decoding\<close>

lemma str_int_nonempty [simp]: "str_int n \<noteq> []"
  using str_nat_digits by (simp add: str_int_def)

lemma to_int_str_int [simp]: "to_int (str_int n) = Inr n"
  by (simp add: to_int_def)

lemma parse_page_fields:
  "parse st i (page_fields job index now trace) =
     Inr \<lparr>pt_entry_id = i, pt_job_id = job, pt_page_index = index, pt_enqueued_at_ms = now,
          pt_trace_id = trace, pt_recovered = False, pt_stream = st, pt_attempt = 0,
          pt_first_enqueued_at_ms = now\<rparr>"
  by (simp add: parse_def page_fields_def field_def)

lemma parse_requeue_fields:
  "parse st i (requeue_fields now t b) =
     Inr \<lparr>pt_entry_id = i, pt_job_id = pt_job_id t, pt_page_index = pt_page_index t,
          pt_enqueued_at_ms = now, pt_trace_id = pt_trace_id t, pt_recovered = False,
          pt_stream = st, pt_attempt = (if b then pt_attempt t + 1 else pt_attempt t),
          pt_first_enqueued_at_ms = task_origin t\<rparr>"
  by (simp add: parse_def requeue_fields_def field_def)

text \<open>
  A requeued task is the same task: what a worker reads from the entry a requeue wrote names
  the same job, page and trace, counts one attempt more (none for a stage handoff), and has the
  same age, since the time the page first entered the system is carried along.
\<close>

theorem requeue_roundtrip:
  assumes "task_origin t \<noteq> 0"
  shows "\<exists>t'. parse st i (requeue_fields now t b) = Inr t'
     \<and> pt_job_id t' = pt_job_id t \<and> pt_page_index t' = pt_page_index t \<and> pt_trace_id t' = pt_trace_id t
     \<and> pt_attempt t' = pt_attempt t + of_bool b
     \<and> (\<forall>n. age_ms n t' = age_ms n t) \<and> pt_entry_id t' = i \<and> pt_stream t' = st"
  using assms by (simp add: parse_requeue_fields age_ms_def task_origin_def)

definition demo_task :: page_task where
  "demo_task = \<lparr>pt_entry_id = ''1'', pt_job_id = ''j'', pt_page_index = 0, pt_enqueued_at_ms = 50,
     pt_trace_id = ''tr'', pt_recovered = False, pt_stream = LEAD_STREAM, pt_attempt = 0,
     pt_first_enqueued_at_ms = 50\<rparr>"

theorem requeue_roundtrip_witness:
  "\<exists>t'. parse STREAM ''2'' (requeue_fields 900 demo_task True) = Inr t' \<and> pt_job_id t' = ''j''
     \<and> pt_attempt t' = 1 \<and> age_ms 1050 t' = 1000"
  using requeue_roundtrip [of demo_task STREAM "''2''" 900 True]
  by (auto simp: demo_task_def age_ms_def task_origin_def)

section \<open>No task is lost\<close>

text \<open>The page an entry stands for, and whether some lane holds an entry for a page.\<close>

definition page_of :: "fields \<Rightarrow> (string \<times> int) option" where
  "page_of f = (case parse [] [] f of Inr t \<Rightarrow> Some (pt_job_id t, pt_page_index t) | Inl _ \<Rightarrow> None)"

definition queued :: "(string \<Rightarrow> entry_id \<Rightarrow> fields option) \<Rightarrow> string \<times> int \<Rightarrow> bool" where
  "queued e p \<longleftrightarrow> (\<exists>st i f. st \<in> set STREAMS \<and> e st i = Some f \<and> page_of f = Some p)"

lemma page_of_requeue [simp]: "page_of (requeue_fields now t b) = Some (pt_job_id t, pt_page_index t)"
  by (simp add: page_of_def parse_requeue_fields)

lemma page_of_fields [simp]: "page_of (page_fields job index now trace) = Some (job, index)"
  by (simp add: page_of_def parse_page_fields)

context stream_server
begin

lemma ack_others:
  assumes "ok s" and "ack ops i st s = (r, s')"
  shows "ok s'" and "(st', j) \<noteq> (st, i) \<Longrightarrow> ent s' st' j = ent s st' j"
  using settle_others [OF assms(1)] assms(2) by (auto simp: ack_def)

text \<open>The two halves of a requeue, and every state in between.\<close>

lemma requeue_keeps:
  assumes s: "ok s" and e: "ent s (pt_stream t) (pt_entry_id t) = Some f"
    and page: "page_of f = Some (pt_job_id t, pt_page_index t)" and lane: "pt_stream t \<in> set STREAMS"
    and run: "requeue ops now t b s = (r, s')"
  shows "queued (ent s') (pt_job_id t, pt_page_index t)
    \<and> (\<forall>st i g. ent s st i = Some g \<and> (st, i) \<noteq> (pt_stream t, pt_entry_id t) \<longrightarrow> ent s' st i = Some g)"
proof -
  obtain r1 s1 where add: "xadd ops STREAM (requeue_fields now t b) s = (r1, s1)" by fastforce
  have gr: "grows (ent s) (ent s1)" and s1: "ok s1" using xadd_grows [OF s add] xadd_ok [OF s add] by auto
  show ?thesis
  proof (cases r1)
    case (Inl x)
    then have "s' = s1" using run add by (simp add: requeue_def io_bind_apply)
    then show ?thesis
      using growsD [OF gr] e page lane unfolding queued_def by blast
  next
    case (Inr new)
    from xadd_law [OF s add [unfolded Inr]] have new: "ent s STREAM new = None"
      and ent1: "ent s1 = (ent s)(STREAM := (ent s STREAM)(new \<mapsto> requeue_fields now t b))" by auto
    obtain r2 where "ack ops (pt_entry_id t) (pt_stream t) s1 = (r2, s')"
      using run add Inr by (auto simp: requeue_def io_bind_apply io_seq_apply io_ret_apply
          split: prod.splits sum.splits)
    note others = ack_others(2) [OF s1 this]
    have "(STREAM, new) \<noteq> (pt_stream t, pt_entry_id t)" using new e by auto
    then have "ent s' STREAM new = Some (requeue_fields now t b)" using others ent1 by auto
    moreover have "STREAM \<in> set STREAMS" by (simp add: STREAMS_def)
    moreover have "ent s' st i = Some g"
      if "ent s st i = Some g" "(st, i) \<noteq> (pt_stream t, pt_entry_id t)" for st i g
      using others [of st i] that growsD [OF gr that(1)] by simp
    ultimately show ?thesis unfolding queued_def by (metis page_of_requeue)
  qed
qed

end

text \<open>
  C5. Requeueing never loses a page. The page has a live entry after the call whatever happened
  in it: a normal return, or an exception at any of its three commands, with the server's state
  at that moment; and no other entry is touched. The replacement is published before the
  original is settled.
\<close>

theorem requeue_never_loses:
  assumes "stream_server ops ok ent owner idle"
    and "ok s" and "ent s (pt_stream t) (pt_entry_id t) = Some f"
    and "page_of f = Some (pt_job_id t, pt_page_index t)" and "pt_stream t \<in> set STREAMS"
    and "requeue ops now t b s = (r, s')"
  shows "queued (ent s') (pt_job_id t, pt_page_index t)
    \<and> (\<forall>st i g. ent s st i = Some g \<and> (st, i) \<noteq> (pt_stream t, pt_entry_id t) \<longrightarrow> ent s' st i = Some g)"
  using stream_server.requeue_keeps [OF assms] .

definition demo_queue :: mem_server where
  "demo_queue = snd (enqueue_pages mem_ops 50 ''j'' 2 ''tr'' empty_mem)"

lemma demo_queue_eq:
  "demo_queue = empty_mem\<lparr>ms_next := Suc (Suc (Suc 0)), ms_log := (\<lambda>_. [])
     (LEAD_STREAM := [\<lparr>me_id = Suc 0, me_fields = page_fields ''j'' 0 50 ''tr'', me_delivered = False, me_owner = None\<rparr>],
      STREAM := [\<lparr>me_id = Suc (Suc 0), me_fields = page_fields ''j'' 1 50 ''tr'', me_delivered = False, me_owner = None\<rparr>])\<rparr>"
  by (simp add: demo_queue_def enqueue_pages_def upto.simps io_simps mem_ops_def mem_xadd_def
      mem_update_def empty_mem_def LEAD_STREAM_def STREAM_def)

lemma demo_queue_ok: "mem_ok demo_queue"
  by (auto simp: demo_queue_eq mem_ok_def empty_mem_def)

lemma str_nat_one: "str_nat (Suc 0) = ''1''"
  by code_simp

theorem requeue_never_loses_witness:
  "queued (mem_ent (snd (requeue mem_ops 900 demo_task True demo_queue))) (''j'', 0)"
  using requeue_never_loses [OF mem.stream_server_axioms demo_queue_ok, of demo_task
      "page_fields ''j'' 0 50 ''tr''" 900 True, OF _ _ _ prod.collapse [symmetric]]
  by (simp add: demo_task_def demo_queue_eq mem_ent_def mem_find_def str_nat_one STREAMS_def
      LEAD_STREAM_def STREAM_def)

section \<open>Malformed entries\<close>

definition parsed_rows :: "(string \<times> entry_id \<times> fields) list \<Rightarrow> page_task list" where
  "parsed_rows rows = concat (map (\<lambda>(st, i, fs). case parse st i fs of Inr t \<Rightarrow> [t] | Inl _ \<Rightarrow> []) rows)"

definition malformed :: "(string \<times> entry_id \<times> fields) list \<Rightarrow> string \<Rightarrow> entry_id \<Rightarrow> bool" where
  "malformed rows st i \<longleftrightarrow> (\<exists>fs. (st, i, fs) \<in> set rows \<and> (\<exists>e. parse st i fs = Inl e))"

lemma length_parsed_rows: "length (parsed_rows rows) \<le> length rows"
  by (induction rows) (auto simp: parsed_rows_def split: sum.split)

lemma length_reply_rows: "int (length (reply_rows response)) = taken response"
  by (induction response) (auto simp: reply_rows_def taken_def)

context stream_server
begin

lemma quarantine_effect:
  assumes "ok s" and "quarantine ops st i fs e s = (Inr u, s')"
  shows "ok s'" and "st' \<noteq> POISON_STREAM \<Longrightarrow>
    ent s' st' j = (if st' = st \<and> j = i then None else ent s st' j)"
proof -
  let ?w = "io_catch
          (io_bind (xadd_maxlen ops POISON_STREAM POISON_MAXLEN
                ([(''origin_stream'', st), (''origin_entry_id'', i), (''reason'', exc_name e)]
                 @ map (\<lambda>(k, v). (''field:'' @ k, v)) fs))
             (\<lambda>_. io_bind (incr ops POISON_COUNTER_KEY) (\<lambda>_. io_ret ())))
          (\<lambda>x. if is_Exception x then io_ret () else io_raise x)"
  let ?I = "\<lambda>t. ok t \<and> (\<forall>st'. st' \<noteq> POISON_STREAM \<longrightarrow> ent t st' = ent s st')"
  have "preserves ?I (xadd_maxlen ops POISON_STREAM POISON_MAXLEN fs')" for fs'
    unfolding preserves_def using xadd_maxlen_law by (metis surjective_pairing)
  moreover have "preserves ?I (incr ops POISON_COUNTER_KEY)"
    unfolding preserves_def using incr_law by (metis surjective_pairing)
  ultimately have "preserves ?I ?w" by (intro preserves_rules)
  then have w: "?I (snd (?w s))" using assms(1) by (simp add: preserves_def)
  obtain r1 s1 where 1: "?w s = (r1, s1)" by fastforce
  then obtain v where "ack ops i st s1 = (Inr v, s')"
    using assms(2) by (cases r1) (auto simp: quarantine_def io_seq_apply)
  moreover have s1: "ok s1" "\<forall>st'. st' \<noteq> POISON_STREAM \<longrightarrow> ent s1 st' = ent s st'" using w 1 by auto
  ultimately show "ok s'" and "st' \<noteq> POISON_STREAM \<Longrightarrow>
      ent s' st' j = (if st' = st \<and> j = i then None else ent s st' j)"
    using ack_others [OF s1(1)] settle_removes [OF s1(1)] by (auto simp: ack_def)
qed

lemma flatten_rows_effect:
  assumes "ok s" and "io_mapM (flatten_row ops) rows s = (Inr tss, s')"
  shows "ok s' \<and> concat tss = parsed_rows rows \<and>
    (\<forall>st i. st \<noteq> POISON_STREAM \<longrightarrow> ent s' st i = (if malformed rows st i then None else ent s st i))"
  using assms
proof (induction rows arbitrary: s tss)
  case Nil
  then show ?case by (simp add: io_simps parsed_rows_def malformed_def)
next
  case (Cons row rows)
  obtain st i fs where row: "row = (st, i, fs)" by (cases row)
  obtain ts s1 tss1 where 1: "flatten_row ops row s = (Inr ts, s1)" and tss: "tss = ts # tss1"
      and 2: "io_mapM (flatten_row ops) rows s1 = (Inr tss1, s')"
    using Cons.prems(2) by (auto simp: io_simps split: prod.splits sum.splits)
  show ?case
  proof (cases "parse st i fs")
    case (Inr t)
    then have "s1 = s" "ts = [t]" using 1 by (simp_all add: row flatten_row_def io_simps)
    with Cons.IH [OF _ 2] Cons.prems(1) Inr show ?thesis
      by (auto simp: tss row parsed_rows_def malformed_def)
  next
    case (Inl e)
    then obtain u where q: "quarantine ops st i fs e s = (Inr u, s1)" and ts: "ts = []"
      using 1 by (auto simp: row flatten_row_def io_simps split: prod.splits sum.splits)
    note qe = quarantine_effect [OF Cons.prems(1) q]
    show ?thesis
      using Cons.IH [OF qe(1) 2] qe(2) Inl
      by (auto simp: tss ts row parsed_rows_def malformed_def)
  qed
qed

lemma flatten_effect:
  assumes "ok s" and "flatten ops response s = (Inr tasks, s')"
  shows "ok s' \<and> tasks = parsed_rows (reply_rows response) \<and>
    (\<forall>st i. st \<noteq> POISON_STREAM \<longrightarrow>
      ent s' st i = (if malformed (reply_rows response) st i then None else ent s st i))"
proof -
  obtain tss where "io_mapM (flatten_row ops) (reply_rows response) s = (Inr tss, s')" "tasks = concat tss"
    using assms(2) by (auto simp: flatten_def io_simps split: prod.splits sum.splits)
  with flatten_rows_effect [OF assms(1)] show ?thesis by blast
qed

end

text \<open>
  A malformed entry costs itself and nothing else. Of a reply from the server, exactly the
  entries that decode are returned, in order; each entry that does not is settled, so it is not
  delivered again; and every other entry of every task lane stays as it was.
\<close>

theorem malformed_entries_are_settled:
  assumes "stream_server ops ok ent owner idle"
    and "ok s" and "flatten ops response s = (Inr tasks, s')"
  shows "tasks = parsed_rows (reply_rows response) \<and>
    (\<forall>st i. st \<noteq> POISON_STREAM \<longrightarrow>
      ent s' st i = (if malformed (reply_rows response) st i then None else ent s st i))"
  using stream_server.flatten_effect [OF assms] by blast

definition poisoned_queue :: mem_server where
  "poisoned_queue = snd (mem_xadd STREAM [(''job_id'', ''j'')] empty_mem)"

lemma poisoned_queue_ok: "mem_ok poisoned_queue"
  by (simp add: poisoned_queue_def mem_xadd_def mem_ok_def mem_update_def empty_mem_def)

theorem malformed_entries_are_settled_witness:
  "fst (flatten mem_ops [(STREAM, [(''1'', [(''job_id'', ''j'')])])] poisoned_queue) = Inr []
   \<and> mem_ent poisoned_queue STREAM ''1'' \<noteq> None
   \<and> mem_ent (snd (flatten mem_ops [(STREAM, [(''1'', [(''job_id'', ''j'')])])] poisoned_queue)) STREAM ''1'' = None"
proof -
  let ?r = "flatten mem_ops [(STREAM, [(''1'', [(''job_id'', ''j'')])])] poisoned_queue"
  have f: "fst ?r = Inr []"
    by (simp add: flatten_def reply_rows_def flatten_row_def parse_def field_def io_simps quarantine_def ack_def
        mem_ops_def mem_xadd_maxlen_def mem_xadd_def mem_release_def mem_remove_def Let_def)
  have e: "mem_ent poisoned_queue STREAM ''1'' \<noteq> None"
    by (simp add: poisoned_queue_def mem_xadd_def mem_ent_def mem_find_def mem_update_def empty_mem_def
        str_nat_one [simplified])
  from f have "?r = (Inr [], snd ?r)" by (metis prod.collapse)
  from malformed_entries_are_settled [OF mem.stream_server_axioms poisoned_queue_ok this]
  have "mem_ent (snd ?r) STREAM ''1'' = None"
    by (auto simp: malformed_def reply_rows_def parse_def field_def STREAM_def POISON_STREAM_def)
  with f e show ?thesis by blast
qed

section \<open>The prefetch bound\<close>

lemma taken_le:
  assumes "distinct (map fst reply)" and "set (map fst reply) \<subseteq> set sts"
    and "\<And>st rows. (st, rows) \<in> set reply \<Longrightarrow> int (length rows) \<le> n" and "0 \<le> n"
  shows "taken reply \<le> n * int (length sts)"
proof -
  have "taken reply \<le> n * int (length reply)"
    using assms(3)
  proof (induction reply)
    case (Cons x reply)
    obtain st rows where x: "x = (st, rows)" by fastforce
    have "int (length rows) \<le> n" using Cons.prems x by auto
    moreover have "taken reply \<le> n * int (length reply)" using Cons by auto
    ultimately show ?case by (simp add: taken_def x distrib_left)
  qed (simp add: taken_def)
  moreover have "length reply = card (set (map fst reply))"
    using distinct_card [OF assms(1)] by simp
  then have "length reply \<le> length sts"
    using card_mono [OF _ assms(2)] card_length [of sts] by (metis List.finite_set le_trans)
  then have "n * int (length reply) \<le> n * int (length sts)" using assms(4) by (simp add: mult_left_mono)
  ultimately show ?thesis by linarith
qed

lemma taken_nonneg: "0 \<le> taken reply"
  unfolding taken_def by (rule sum_list_nonneg) auto

lemma taken_append [simp]: "taken (a @ b) = taken a + taken b"
  by (simp add: taken_def)

lemma taken_Nil [simp]: "taken [] = 0"
  by (simp add: taken_def)

context stream_server
begin

lemma read_taken:
  assumes "ok s" and "distinct (map fst strs)" and "0 < n"
    and "xreadgroup ops c strs n b s = (Inr reply, s')"
  shows "taken reply \<le> n * int (length strs)"
  using taken_le [of reply "map fst strs" n] xreadgroup_streams [OF assms(1,2,4)]
    xreadgroup_count [OF assms(1,2,4,3)] assms(3) by simp

lemma lanes_distinct: "distinct (map fst [(LEAD_STREAM, x), (STREAM, y)])"
  by (simp add: LEAD_STREAM_def STREAM_def)

text \<open>The second half of \<open>read_lanes\<close>: the main lane, and the wait on both.\<close>

lemma main_read_bound:
  assumes "ok s" and "0 < m" and "lead = [] \<longrightarrow> 2 \<le> m"
    and "io_bind (xreadgroup ops c [(STREAM, NEW_MESSAGES)] m None) (\<lambda>main.
            if lead \<noteq> [] \<or> main \<noteq> [] \<or> block_ms = 0 then io_ret (lead @ main)
            else xreadgroup ops c [(LEAD_STREAM, NEW_MESSAGES), (STREAM, NEW_MESSAGES)]
                   (max 1 (m div 2)) (Some block_ms)) s = (Inr response, s')"
  shows "taken response \<le> taken lead + m \<and> ok s'"
proof -
  obtain main s1 where 1: "xreadgroup ops c [(STREAM, NEW_MESSAGES)] m None s = (Inr main, s1)"
    using assms(4) by (auto simp: io_bind_apply split: prod.splits sum.splits)
  have m1: "taken main \<le> m" using read_taken [OF assms(1) _ _ 1] assms(2) by simp
  have s1: "ok s1" by (rule xreadgroup_ok [OF assms(1) 1])
  show ?thesis
  proof (cases "lead \<noteq> [] \<or> main \<noteq> [] \<or> block_ms = 0")
    case True
    then show ?thesis using assms(4) 1 m1 s1 by (auto simp: io_simps)
  next
    case False
    then have 2: "xreadgroup ops c [(LEAD_STREAM, NEW_MESSAGES), (STREAM, NEW_MESSAGES)]
        (max 1 (m div 2)) (Some block_ms) s1 = (Inr response, s')" and "lead = []"
      using assms(4) 1 by (auto simp: io_simps)
    have "taken response \<le> max 1 (m div 2) * 2"
      using read_taken [OF s1 lanes_distinct _ 2] by simp
    moreover have "max 1 (m div 2) * 2 \<le> m" using assms(3) \<open>lead = []\<close> by auto
    moreover have "ok s'" by (rule xreadgroup_ok [OF s1 2])
    ultimately show ?thesis using \<open>lead = []\<close> by simp
  qed
qed

lemma read_lanes_bound:
  assumes "ok s" and "2 \<le> n"
    and "read_lanes ops c n n block_ms (Some n) lead_block_ms s = (Inr response, s')"
  shows "taken response \<le> n \<and> ok s'"
proof -
  obtain lead s1 where 1: "xreadgroup ops c [(LEAD_STREAM, NEW_MESSAGES)] n None s = (Inr lead, s1)"
    using assms(2,3) by (auto simp: read_lanes_def io_bind_apply split: prod.splits sum.splits)
  have l: "taken lead \<le> n" using read_taken [OF assms(1) _ _ 1] assms(2) by simp
  have s1: "ok s1" by (rule xreadgroup_ok [OF assms(1) 1])
  let ?m = "min n (n - taken lead)"
  have rest: "(if ?m \<le> 0
        then if lead \<noteq> [] \<or> lead_block_ms = 0 then io_ret lead
             else xreadgroup ops c [(LEAD_STREAM, NEW_MESSAGES)] n (Some lead_block_ms)
        else
          io_bind (xreadgroup ops c [(STREAM, NEW_MESSAGES)] ?m None) (\<lambda>main.
            if lead \<noteq> [] \<or> main \<noteq> [] \<or> block_ms = 0 then io_ret (lead @ main)
            else xreadgroup ops c [(LEAD_STREAM, NEW_MESSAGES), (STREAM, NEW_MESSAGES)]
                   (max 1 (?m div 2)) (Some block_ms))) s1 = (Inr response, s')"
    using assms(2,3) 1 by (simp add: read_lanes_def io_bind_apply Let_def)
  have m: "?m = n - taken lead" using taken_nonneg [of lead] by simp
  show ?thesis
  proof (cases "?m \<le> 0")
    case True
    then have "lead \<noteq> []" using assms(2) m by auto
    with True rest s1 l show ?thesis by (simp add: io_ret_apply)
  next
    case False
    have "taken response \<le> taken lead + ?m \<and> ok s'"
      by (rule main_read_bound [OF s1]) (use False rest m assms(2) in auto)
    then show ?thesis using m by simp
  qed
qed

lemma read_tasks_bound:
  assumes "ok s" and "2 \<le> n"
    and "read_tasks ops c block_ms (Some n) lc mc lead_block_ms s = (Inr tasks, s')"
  shows "int (length tasks) \<le> n"
proof -
  obtain r s1 where 1: "read_lanes ops c n n block_ms (Some n) lead_block_ms s = (r, s1)" by fastforce
  show ?thesis
  proof (cases r)
    case (Inr response)
    from read_lanes_bound [OF assms(1,2) 1 [unfolded Inr]] have b: "taken response \<le> n" "ok s1" by auto
    have "flatten ops response s1 = (Inr tasks, s')"
      using assms(3) 1 Inr by (simp add: read_tasks_def)
    from flatten_effect [OF b(2) this] have "int (length tasks) \<le> int (length (reply_rows response))"
      using length_parsed_rows by simp
    then show ?thesis using b(1) length_reply_rows [of response] by simp
  next
    case (Inl e)
    then have "tasks = []"
      using assms(3) 1 by (cases e) (auto simp: read_tasks_def io_simps split: if_splits prod.splits sum.splits)
    then show ?thesis using assms(2) by simp
  qed
qed

end

text \<open>
  A read never exceeds its budget of two or more: with \<^verbatim>\<open>count=n\<close> at most \<open>n\<close> tasks are
  returned, over both lanes together, whichever of the four reads they came from.
\<close>

theorem read_within_budget:
  assumes "stream_server ops ok ent owner idle" and "ok s" and "2 \<le> n"
    and "read_tasks ops consumer block_ms (Some n) lead_count main_count lead_block_ms s = (Inr tasks, s')"
  shows "int (length tasks) \<le> n"
  using stream_server.read_tasks_bound [OF assms] .

theorem read_within_budget_witness:
  "int (length (projr (fst (read_tasks mem_ops ''w'' 2000 (Some 2) 0 0 0 demo_queue)))) \<le> 2"
proof -
  have "\<exists>ts. fst (read_tasks mem_ops ''w'' 2000 (Some 2) 0 0 0 demo_queue) = Inr ts"
    by (simp add: read_tasks_def read_lanes_def io_simps mem_ops_def mem_pick_def mem_wanted_def Let_def
        demo_queue_eq mem_update_def mem_deliver_def LEAD_STREAM_def STREAM_def taken_def mem_row_def
        flatten_def reply_rows_def flatten_row_def parse_page_fields)
  then obtain ts s' where "read_tasks mem_ops ''w'' 2000 (Some 2) 0 0 0 demo_queue = (Inr ts, s')"
    by (metis prod.collapse)
  from read_within_budget [OF mem.stream_server_axioms demo_queue_ok _ this] this show ?thesis by simp
qed

text \<open>
  With a budget of one the bound does not hold. The server below is the in-memory one on which a
  two-page job arrives while a read is blocked.
\<close>

definition busy_ops :: "mem_server stream_ops" where
  "busy_ops = mem_ops\<lparr>xreadgroup := (\<lambda>c strs n b s.
     mem_xreadgroup c strs n b
       (if b = None then s else snd (enqueue_pages mem_ops 50 ''j'' 2 ''tr'' s)))\<rparr>"

lemma enqueue_two_ok: "mem_ok s \<Longrightarrow> mem_ok (snd (enqueue_pages mem_ops 50 ''j'' 2 ''tr'' s))"
  using mem_xadd_facts(1) surjective_pairing
  by (simp add: enqueue_pages_def upto.simps io_simps mem_ops_def split: prod.split sum.split) metis

interpretation busy: stream_server busy_ops mem_ok mem_ent mem_owner mem_idle_of
proof -
  have same: "xadd busy_ops = xadd mem_ops" "xadd_maxlen busy_ops = xadd_maxlen mem_ops"
    "incr busy_ops = incr mem_ops" "xack busy_ops = xack mem_ops" "xdel busy_ops = xdel mem_ops"
    "xpending_range busy_ops = xpending_range mem_ops" "xclaim busy_ops = xclaim mem_ops"
    "xlen busy_ops = xlen mem_ops"
    by (simp_all add: busy_ops_def)
  have rd: "xreadgroup busy_ops c strs n b s = xreadgroup mem_ops c strs n b
      (if b = None then s else snd (enqueue_pages mem_ops 50 ''j'' 2 ''tr'' s))" for c strs n b s
    by (simp add: busy_ops_def mem_ops_def)
  have arrived: "mem_ok (if b = None then s else snd (enqueue_pages mem_ops 50 ''j'' 2 ''tr'' s))"
    if "mem_ok s" for s and b :: "int option"
    using that enqueue_two_ok by simp
  show "stream_server busy_ops mem_ok mem_ent mem_owner mem_idle_of"
  proof (unfold_locales, unfold same rd, goal_cases)
    case (9 s c strs n b rr s')
    then show ?case using mem.xreadgroup_ok arrived by blast
  next
    case (10 s c strs n rr s')
    then show ?case using mem.xreadgroup_keeps by simp
  next
    case (11 s strs c n b reply s')
    then show ?case using mem.xreadgroup_streams arrived by blast
  next
    case (12 s strs c n b reply s' st rows)
    then show ?case using mem.xreadgroup_count arrived by blast
  next
    case (13 s strs c n b reply s' st rows i f)
    from mem.xreadgroup_new [OF arrived [OF 13(1)] 13(2-6)] show ?case by auto
  qed (erule (1) mem.xadd_ok mem.xadd_law mem.xadd_raise mem.xadd_maxlen_law mem.incr_law mem.xack_law
      mem.xdel_law mem.xdel_raise mem.xclaim_keeps mem.xclaim_law mem.xpending_range_law
      mem.xpending_range_rows mem.xlen_law mem.xlen_count; assumption?
      | erule mem.finite_ent)+
qed

text \<open>
  With a budget of one a read can return two tasks. When both lanes are empty the read waits
  on both with a count of \<^verbatim>\<open>max(1, main_count // 2)\<close> each, which is one per lane: a job that
  arrives during the wait delivers its first page and its second one to a caller that asked for
  one task. The server obeys every law the queue relies on.
\<close>

theorem budget_of_one_overshoots:
  "stream_server busy_ops mem_ok mem_ent mem_owner mem_idle_of \<and>
   map_sum id (map pt_page_index) (fst (read_tasks busy_ops ''w'' 2000 (Some 1) 0 0 0 empty_mem)) = Inr [0, 1]"
proof
  show "stream_server busy_ops mem_ok mem_ent mem_owner mem_idle_of"
    by (rule busy.stream_server_axioms)
  show "map_sum id (map pt_page_index) (fst (read_tasks busy_ops ''w'' 2000 (Some 1) 0 0 0 empty_mem)) = Inr [0, 1]"
    by code_simp
qed

section \<open>Enqueueing a job\<close>

definition lane_of :: "int \<Rightarrow> string" where
  "lane_of index = (if index = 0 then LEAD_STREAM else STREAM)"

context stream_server
begin

text \<open>The number of entries of a lane, which is what \<^verbatim>\<open>XLEN\<close> answers.\<close>

definition lane_len :: "'s \<Rightarrow> string \<Rightarrow> int" where
  "lane_len s st = int (card {i. ent s st i \<noteq> None})"

lemma xadd_len:
  assumes "ok s" and "xadd ops st f s = (Inr i, s')"
  shows "lane_len s' st' = lane_len s st' + of_bool (st' = st)"
proof (cases "st' = st")
  case True
  have "{j. ent s' st j \<noteq> None} = insert i {j. ent s st j \<noteq> None}" and "i \<notin> {j. ent s st j \<noteq> None}"
    using xadd_law [OF assms] by auto
  then show ?thesis using finite_ent [OF assms(1), of st] True by (simp add: lane_len_def)
next
  case False
  then have "ent s' st' = ent s st'" using xadd_law [OF assms] by simp
  with False show ?thesis by (simp add: lane_len_def)
qed

lemma enqueue_rows:
  assumes "ok s" and "io_mapM (\<lambda>index. xadd ops (lane_of index) (page_fields job index now trace)) idxs s = (Inr ids, s')"
  shows "ok s' \<and> length ids = length idxs \<and> grows (ent s) (ent s')
    \<and> (\<forall>p \<in> set idxs. \<exists>i. ent s' (lane_of p) i = Some (page_fields job p now trace))
    \<and> (\<forall>st. lane_len s' st = lane_len s st + int (length (filter (\<lambda>p. lane_of p = st) idxs)))"
  using assms
proof (induction idxs arbitrary: s ids)
  case (Cons p idxs)
  obtain i s1 ids1 where 1: "xadd ops (lane_of p) (page_fields job p now trace) s = (Inr i, s1)"
      and ids: "ids = i # ids1"
      and 2: "io_mapM (\<lambda>index. xadd ops (lane_of index) (page_fields job index now trace)) idxs s1 = (Inr ids1, s')"
    using Cons.prems(2) by (auto simp: io_simps split: prod.splits sum.splits)
  note s1 = xadd_ok [OF Cons.prems(1) 1] and g1 = xadd_grows [OF Cons.prems(1) 1]
  note ih = Cons.IH [OF s1 2]
  have "ent s1 (lane_of p) i = Some (page_fields job p now trace)"
    using xadd_law [OF Cons.prems(1) 1] by simp
  moreover have "grows (ent s1) (ent s')" using ih by simp
  ultimately have "ent s' (lane_of p) i = Some (page_fields job p now trace)" by (rule growsD [rotated])
  then have "\<forall>q \<in> set (p # idxs). \<exists>i. ent s' (lane_of q) i = Some (page_fields job q now trace)"
    using ih by auto
  moreover have "lane_len s' st = lane_len s st + int (length (filter (\<lambda>p. lane_of p = st) (p # idxs)))" for st
    using ih xadd_len [OF Cons.prems(1) 1, of st] by (simp add: eq_commute)
  moreover have "grows (ent s) (ent s')" using ih grows_trans [OF g1] by blast
  ultimately show ?case using ih by (simp add: ids)
qed (simp add: io_simps)

lemma enqueue_effect:
  assumes "ok s" and "0 \<le> n" and "enqueue_pages ops now job n trace s = (Inr k, s')"
  shows "int k = n \<and> grows (ent s) (ent s')
    \<and> (\<forall>p. 0 \<le> p \<and> p < n \<longrightarrow> (\<exists>i. ent s' (lane_of p) i = Some (page_fields job p now trace)))
    \<and> lane_len s' LEAD_STREAM + lane_len s' STREAM = lane_len s LEAD_STREAM + lane_len s STREAM + n"
proof -
  obtain ids where m: "io_mapM (\<lambda>index. xadd ops (lane_of index) (page_fields job index now trace)) [0..n - 1] s = (Inr ids, s')"
    and k: "k = length ids"
    using assms(3) by (auto simp: enqueue_pages_def lane_of_def [abs_def] io_simps split: prod.splits sum.splits)
  note e = enqueue_rows [OF assms(1) m]
  have lanes: "lane_of p \<noteq> LEAD_STREAM \<longleftrightarrow> lane_of p = STREAM" for p
    by (simp add: lane_of_def LEAD_STREAM_def STREAM_def)
  have "length (filter (\<lambda>p. lane_of p = LEAD_STREAM) [0..n - 1])
      + length (filter (\<lambda>p. lane_of p = STREAM) [0..n - 1]) = length [0..n - 1]"
    using sum_length_filter_compl [of "\<lambda>p. lane_of p = LEAD_STREAM" "[0..n - 1]"] by (simp add: lanes)
  with e k assms(2) show ?thesis by (auto simp: algebra_simps)
qed

end

text \<open>
  Enqueueing a job of \<open>n\<close> pages adds exactly \<open>n\<close> entries and one for each page: page 0 in the
  priority lane, the others in the main lane; no existing entry is changed, and the depth the
  admission controller reads grows by \<open>n\<close>.
\<close>

theorem enqueue_adds_each_page:
  assumes "stream_server ops ok ent owner idle" and "ok s" and "0 \<le> n"
    and "enqueue_pages ops now job n trace s = (Inr k, s')"
  shows "int k = n \<and> grows (ent s) (ent s')
    \<and> (\<forall>p. 0 \<le> p \<and> p < n \<longrightarrow> (\<exists>i. ent s' (lane_of p) i = Some (page_fields job p now trace)))
    \<and> int (card {i. ent s' LEAD_STREAM i \<noteq> None}) + int (card {i. ent s' STREAM i \<noteq> None})
      = int (card {i. ent s LEAD_STREAM i \<noteq> None}) + int (card {i. ent s STREAM i \<noteq> None}) + n"
  using stream_server.enqueue_effect [OF assms] stream_server.lane_len_def [OF assms(1)] by simp

theorem enqueue_adds_each_page_witness:
  "\<exists>i. mem_ent demo_queue (lane_of 1) i = Some (page_fields ''j'' 1 50 ''tr'')"
proof -
  have "fst (enqueue_pages mem_ops 50 ''j'' 2 ''tr'' empty_mem) = Inr 2" by code_simp
  then have "enqueue_pages mem_ops 50 ''j'' 2 ''tr'' empty_mem = (Inr 2, demo_queue)"
    by (simp add: demo_queue_def prod_eq_iff)
  moreover have "mem_ok empty_mem" by (simp add: mem_ok_def empty_mem_def)
  ultimately show ?thesis
    using enqueue_adds_each_page [OF mem.stream_server_axioms, of empty_mem 2 50 "''j''" "''tr''" 2 demo_queue] by simp
qed

end
