(* ===== verification/Documents.thy ===== *)
theory Documents
  imports Orch_Prelude
begin

text \<open>
  The documents on disk, \<^verbatim>\<open>src/app/pdf/splitter.py\<close>: naming a document, copying an upload chunk by
  chunk under a byte limit, counting pages, reading one page, listing old documents and deleting
  one. The disk maps a path, the list of its parts, to a file. Bytes are a string. The library
  \<^verbatim>\<open>pypdf\<close> is the parameter \<open>pdf_lib\<close>: what opening the bytes gives, which exceptions count as
  \<^verbatim>\<open>PdfReadError\<close>, \<^verbatim>\<open>OSError\<close>, \<^verbatim>\<open>ValueError\<close> or \<^verbatim>\<open>KeyError\<close>. An upload is the list of what its
  successive reads return.
\<close>

section \<open>Names\<close>

type_synonym path = "string list"

definition char_between :: "char \<Rightarrow> char \<Rightarrow> char \<Rightarrow> bool" where
  "char_between a b c \<longleftrightarrow> (of_char a :: nat) \<le> of_char c \<and> (of_char c :: nat) \<le> of_char b"

text \<open>\<^verbatim>\<open>_SAFE_JOB_ID\<close>: one to 64 letters, digits, underscores and hyphens.\<close>

definition safe_char :: "char \<Rightarrow> bool" where
  "safe_char c \<longleftrightarrow> char_between (CHR ''A'') (CHR ''Z'') c \<or> char_between (CHR ''a'') (CHR ''z'') c \<or> is_digit c
     \<or> c = CHR ''_'' \<or> c = CHR ''-''"

definition safe_job_id :: "string \<Rightarrow> bool" where
  "safe_job_id job \<longleftrightarrow> 1 \<le> length job \<and> length job \<le> 64 \<and> list_all safe_char job"

definition page_ref :: "string \<Rightarrow> int \<Rightarrow> string" where
  "page_ref job page = ''pdf'' @ '':'' @ job @ ''#'' @ str_int page"

definition pdf_path :: "path \<Rightarrow> string \<Rightarrow> exc + path" where
  "pdf_path data_dir job =
     (if \<not> safe_job_id job then Inl (OtherException ''ValueError'') else Inr (data_dir @ [job @ ''.pdf'']))"

section \<open>Uploads\<close>

record doc_file =
  fi_bytes :: string
  fi_mtime :: real

type_synonym disk = "path \<Rightarrow> doc_file option"

text \<open>
  One round of the copying loop: what the read returns or raises, and what the write of those
  bytes raises, if it does. The end of the list is the end of the data.
\<close>

type_synonym chunk_event = "(exc + string) \<times> exc option"

definition UploadTooLarge :: exc where "UploadTooLarge = OtherException ''UploadTooLarge''"
definition InvalidPdf :: exc where "InvalidPdf = OtherException ''InvalidPdf''"

definition append_bytes :: "path \<Rightarrow> string \<Rightarrow> disk \<Rightarrow> disk" where
  "append_bytes dest chunk d = d(dest := map_option (\<lambda>f. f\<lparr>fi_bytes := fi_bytes f @ chunk\<rparr>) (d dest))"

fun copy_upload :: "int \<Rightarrow> path \<Rightarrow> chunk_event list \<Rightarrow> int \<Rightarrow> disk \<Rightarrow> (exc + int) \<times> disk" where
  "copy_upload max_bytes dest [] written d = (Inr written, d)"
| "copy_upload max_bytes dest ((Inl e, _) # evs) written d = (Inl e, d)"
| "copy_upload max_bytes dest ((Inr chunk, fault) # evs) written d =
     (if chunk = [] then (Inr written, d)
      else if written + int (length chunk) > max_bytes then (Inl UploadTooLarge, d)
      else case fault of
             Some e \<Rightarrow> (Inl e, d)
           | None \<Rightarrow> copy_upload max_bytes dest evs (written + int (length chunk)) (append_bytes dest chunk d))"

fun copy_body :: "int \<Rightarrow> path \<Rightarrow> chunk_event list \<Rightarrow> int \<Rightarrow> disk \<Rightarrow> (exc + int) \<times> disk" where
  "copy_body max_bytes dest [] written d = (Inr written, d)"
| "copy_body max_bytes dest ((Inl e, _) # evs) written d = (Inl e, d)"
| "copy_body max_bytes dest ((Inr chunk, fault) # evs) written d =
     (if chunk = [] then copy_body max_bytes dest evs written d
      else if written + int (length chunk) > max_bytes then (Inl UploadTooLarge, d)
      else case fault of
             Some e \<Rightarrow> (Inl e, d)
           | None \<Rightarrow> copy_body max_bytes dest evs (written + int (length chunk)) (append_bytes dest chunk d))"

text \<open>
  Opening truncates the file. Whatever is raised from there on, the file is removed; \<open>open_exc\<close> is
  what opening it raises, if it does.
\<close>

definition guarded_copy ::
  "real \<Rightarrow> exc option \<Rightarrow> path \<Rightarrow> (disk \<Rightarrow> (exc + int) \<times> disk) \<Rightarrow> disk \<Rightarrow> (exc + int) \<times> disk" where
  "guarded_copy now open_exc dest copy d =
     (case (case open_exc of
              Some e \<Rightarrow> (Inl e, d)
            | None \<Rightarrow> copy (d(dest \<mapsto> \<lparr>fi_bytes = [], fi_mtime = now\<rparr>))) of
        (Inl e, d') \<Rightarrow> (Inl e, d'(dest := None))
      | (Inr n, d') \<Rightarrow> (Inr n, d'))"

definition stream_to_disk ::
  "real \<Rightarrow> exc option \<Rightarrow> (int \<Rightarrow> chunk_event list) \<Rightarrow> path \<Rightarrow> int \<Rightarrow> int \<Rightarrow> disk \<Rightarrow> (exc + int) \<times> disk" where
  "stream_to_disk now open_exc upload dest chunk_bytes max_bytes =
     guarded_copy now open_exc dest (copy_upload max_bytes dest (upload chunk_bytes) 0)"

definition stream_body_to_disk ::
  "real \<Rightarrow> exc option \<Rightarrow> chunk_event list \<Rightarrow> path \<Rightarrow> int \<Rightarrow> disk \<Rightarrow> (exc + int) \<times> disk" where
  "stream_body_to_disk now open_exc chunks dest max_bytes =
     guarded_copy now open_exc dest (copy_body max_bytes dest chunks 0)"

section \<open>Reading a document\<close>

text \<open>What \<^verbatim>\<open>pypdf\<close> gives: each attribute is a value or the exception reading it raises.\<close>

record pdf_page =
  pg_width :: "exc + real"
  pg_height :: "exc + real"
  pg_rotate :: "exc + int"
  pg_text :: "exc + string"

record pdf_reader =
  rd_encrypted :: "exc + bool"
  rd_pages :: "exc + int"
  rd_page :: "int \<Rightarrow> exc + pdf_page"

record pdf_lib =
  pdf_open :: "string \<Rightarrow> exc + pdf_reader"
  pdf_caught :: "exc \<Rightarrow> bool"

definition open_reader :: "pdf_lib \<Rightarrow> path \<Rightarrow> disk \<Rightarrow> exc + pdf_reader" where
  "open_reader lib p d =
     (case d p of None \<Rightarrow> Inl (OtherException ''FileNotFoundError'') | Some f \<Rightarrow> pdf_open lib (fi_bytes f))"

text \<open>The two \<^verbatim>\<open>except\<close> clauses both readers end with.\<close>

definition as_invalid :: "pdf_lib \<Rightarrow> exc + 'a \<Rightarrow> exc + 'a" where
  "as_invalid lib r = (case r of Inr a \<Rightarrow> Inr a | Inl e \<Rightarrow> if e = InvalidPdf \<or> pdf_caught lib e then Inl InvalidPdf else Inl e)"

definition count_pages :: "pdf_lib \<Rightarrow> path \<Rightarrow> disk \<Rightarrow> exc + int" where
  "count_pages lib p d =
     as_invalid lib
       (sum_bind (open_reader lib p d) (\<lambda>reader.
        sum_bind (rd_encrypted reader) (\<lambda>encrypted.
        if encrypted then Inl InvalidPdf
        else sum_bind (rd_pages reader) (\<lambda>pages. if pages < 1 then Inl InvalidPdf else Inr pages))))"

record page_content =
  pc_page_index :: int
  pc_width :: real
  pc_height :: real
  pc_rotation :: int
  pc_text :: string
  pc_text_chars :: nat

text \<open>\<^verbatim>\<open>except (TypeError, ValueError)\<close> around the rotation.\<close>

definition rotation_of :: "pdf_page \<Rightarrow> exc + int" where
  "rotation_of page =
     (case pg_rotate page of
        Inr r \<Rightarrow> Inr r
      | Inl e \<Rightarrow> if e \<in> {OtherException ''TypeError'', OtherException ''ValueError''} then Inr 0 else Inl e)"

definition text_of :: "int \<Rightarrow> pdf_page \<Rightarrow> exc + string" where
  "text_of text_limit page =
     (if text_limit > 0
      then case pg_text page of Inr s \<Rightarrow> Inr s | Inl e \<Rightarrow> if is_Exception e then Inr [] else Inl e
      else Inr [])"

definition extract_page :: "pdf_lib \<Rightarrow> path \<Rightarrow> int \<Rightarrow> int \<Rightarrow> disk \<Rightarrow> exc + page_content" where
  "extract_page lib p page_index text_limit d =
     as_invalid lib
       (sum_bind (open_reader lib p d) (\<lambda>reader.
        sum_bind (if page_index < 0 then Inr 0 else rd_pages reader) (\<lambda>pages.
        if page_index < 0 \<or> page_index \<ge> pages then Inl InvalidPdf
        else
          sum_bind (rd_page reader page_index) (\<lambda>page.
          sum_bind (pg_width page) (\<lambda>width.
          sum_bind (pg_height page) (\<lambda>height.
          sum_bind (rotation_of page) (\<lambda>rotation.
          sum_bind (text_of text_limit page) (\<lambda>s.
          Inr \<lparr>pc_page_index = page_index, pc_width = width, pc_height = height, pc_rotation = rotation,
               pc_text = take (nat text_limit) s, pc_text_chars = length s\<rparr>))))))))"

definition as_payload :: "page_content \<Rightarrow> json" where
  "as_payload c = JObj
     [(''page_index'', JNum (of_int (pc_page_index c))),
      (''width'', JNum (of_int (round_half_even (pc_width c * 100)) / 100)),
      (''height'', JNum (of_int (round_half_even (pc_height c * 100)) / 100)),
      (''rotation'', JNum (of_int (pc_rotation c))),
      (''text_sample'', JStr (pc_text c)),
      (''text_chars'', JNum (real (pc_text_chars c)))]"

section \<open>Deleting\<close>

definition delete_document :: "path \<Rightarrow> string \<Rightarrow> disk \<Rightarrow> bool \<times> disk" where
  "delete_document data_dir job d =
     (case pdf_path data_dir job of
        Inl _ \<Rightarrow> (False, d)
      | Inr p \<Rightarrow> (case d p of None \<Rightarrow> (False, d) | Some _ \<Rightarrow> (True, d(p := None))))"

definition is_pdf_name :: "string \<Rightarrow> bool" where
  "is_pdf_name name \<longleftrightarrow> 4 \<le> length name \<and> drop (length name - 4) name = ''.pdf''"

text \<open>\<^verbatim>\<open>entry.stem\<close> of a name that ends in \<^verbatim>\<open>.pdf\<close>; a bare \<^verbatim>\<open>.pdf\<close> has no suffix.\<close>

definition stem :: "string \<Rightarrow> string" where
  "stem name = (if name = ''.pdf'' then name else take (length name - 4) name)"

text \<open>
  \<open>listing\<close> is what the directory lists, \<^const>\<open>None\<close> where it is not a directory. An entry that is
  gone by the time it is looked at is passed over.
\<close>

definition orphan_candidates :: "path \<Rightarrow> real \<Rightarrow> real \<Rightarrow> string list option \<Rightarrow> disk \<Rightarrow> string list" where
  "orphan_candidates data_dir min_age_s now listing d =
     (case listing of
        None \<Rightarrow> []
      | Some names \<Rightarrow>
          concat (map (\<lambda>name.
            case d (data_dir @ [name]) of
              None \<Rightarrow> []
            | Some f \<Rightarrow>
                if now - fi_mtime f < min_age_s then []
                else if safe_job_id (stem name) then [stem name] else [])
            (filter is_pdf_name names)))"

section \<open>Names stay inside the directory\<close>

text \<open>
  A document's path cannot leave the data directory. Every name that is accepted gives one part
  below that directory, which has no separator and is neither empty nor a reference to the
  directory itself or its parent, and two jobs never share a path.
\<close>

theorem document_path_confined:
  assumes "pdf_path data_dir job = Inr p"
  shows "\<exists>name. p = data_dir @ [name] \<and> CHR ''/'' \<notin> set name \<and> name \<notin> {[], ''.'', ''..''}
    \<and> (\<forall>job'. pdf_path data_dir job' = Inr p \<longrightarrow> job' = job)"
proof -
  have safe: "safe_job_id job" and p: "p = data_dir @ [job @ ''.pdf'']"
    using assms by (simp_all add: pdf_path_def split: if_splits)
  have "\<not> safe_char (CHR ''/'')" by (simp add: safe_char_def char_between_def is_digit_def)
  then have "CHR ''/'' \<notin> set job" using safe by (auto simp: safe_job_id_def list_all_iff)
  moreover have "job @ ''.pdf'' \<notin> {[], ''.'', ''..''}" using safe by (cases job) (auto simp: safe_job_id_def)
  moreover have "job' = job" if "pdf_path data_dir job' = Inr p" for job'
    using that p by (simp add: pdf_path_def split: if_splits)
  ultimately show ?thesis using p by auto
qed

theorem document_path_confined_witness:
  "\<exists>name. pdf_path [''data''] ''a1b2'' = Inr [''data'', name] \<and> CHR ''/'' \<notin> set name
     \<and> pdf_path [''data''] ''../etc'' = Inl (OtherException ''ValueError'')"
proof -
  have ok: "pdf_path [''data''] ''a1b2'' = Inr [''data'', ''a1b2.pdf'']"
    by (simp add: pdf_path_def safe_job_id_def safe_char_def char_between_def is_digit_def)
  have "pdf_path [''data''] ''../etc'' = Inl (OtherException ''ValueError'')"
    by (simp add: pdf_path_def safe_job_id_def safe_char_def char_between_def is_digit_def)
  moreover obtain name where "[''data'', ''a1b2.pdf''] = [''data''] @ [name]" "CHR ''/'' \<notin> set name"
    using document_path_confined [OF ok] by (elim exE conjE)
  ultimately show ?thesis using ok by (intro exI [of _ name]) simp
qed

section \<open>Uploads are bounded and leave nothing behind\<close>

text \<open>The data of an upload, up to the first empty read; a streamed body skips empty chunks.\<close>

fun upload_data :: "chunk_event list \<Rightarrow> string" where
  "upload_data ((Inr chunk, _) # evs) = (if chunk = [] then [] else chunk @ upload_data evs)"
| "upload_data _ = []"

definition nonempty :: "chunk_event list \<Rightarrow> chunk_event list" where
  "nonempty evs = filter (\<lambda>(r, _). r \<noteq> Inr []) evs"

lemma copy_body_upload: "copy_body m dest evs written d = copy_upload m dest (nonempty evs) written d"
proof (induction m dest evs written d rule: copy_body.induct)
  case (3 m dest chunk fault evs written d)
  then show ?case by (cases "chunk = []"; cases fault) (simp_all add: nonempty_def)
qed (simp_all add: nonempty_def)

definition holds_bytes :: "disk \<Rightarrow> path \<Rightarrow> string \<Rightarrow> disk \<Rightarrow> bool" where
  "holds_bytes d dest bs d' \<longleftrightarrow> (\<exists>f. d' dest = Some f \<and> fi_bytes f = bs) \<and> (\<forall>p. p \<noteq> dest \<longrightarrow> d' p = d p)"

lemma holds_append: "holds_bytes d dest bs d' \<Longrightarrow> holds_bytes d dest (bs @ chunk) (append_bytes dest chunk d')"
  by (auto simp: holds_bytes_def append_bytes_def)

lemma copy_upload_spec:
  assumes "holds_bytes d0 dest bs d" and "int (length bs) = written" and "written \<le> m"
    and "copy_upload m dest evs written d = (r, d')"
  shows "\<exists>bs'. holds_bytes d0 dest bs' d' \<and> int (length bs') \<le> m
    \<and> (\<forall>n. r = Inr n \<longrightarrow> n = int (length bs') \<and> bs' = bs @ upload_data evs)"
  using assms
proof (induction m dest evs written d arbitrary: bs rule: copy_upload.induct)
  case (3 m dest chunk fault evs written d)
  consider "chunk = []" | "chunk \<noteq> []" "written + int (length chunk) > m"
    | e where "chunk \<noteq> []" "written + int (length chunk) \<le> m" "fault = Some e"
    | "chunk \<noteq> []" "written + int (length chunk) \<le> m" "fault = None"
    by (cases fault) fastforce+
  then show ?case
  proof cases
    case 4
    have "\<exists>bs'. holds_bytes d0 dest bs' d' \<and> int (length bs') \<le> m
        \<and> (\<forall>n. r = Inr n \<longrightarrow> n = int (length bs') \<and> bs' = (bs @ chunk) @ upload_data evs)"
      using 3(1) [of "bs @ chunk"] 3(2-5) 4 holds_append by auto
    then show ?thesis using 4 by simp
  qed (use 3(2-5) in auto)
qed auto

lemma guarded_copy_spec:
  assumes "guarded_copy now open_exc dest (copy_upload m dest evs 0) d = (r, d')" and "0 \<le> m"
  shows "(\<exists>n. r = Inr n \<and> n \<le> m \<and> n = int (length (upload_data evs)) \<and> holds_bytes d dest (upload_data evs) d')
    \<or> (\<exists>e. r = Inl e \<and> d' = d(dest := None))"
proof (cases open_exc)
  case None
  let ?d = "d(dest \<mapsto> \<lparr>fi_bytes = [], fi_mtime = now\<rparr>)"
  obtain q dq where q: "copy_upload m dest evs 0 ?d = (q, dq)" by (cases "copy_upload m dest evs 0 ?d")
  have "holds_bytes d dest [] ?d" by (simp add: holds_bytes_def)
  from copy_upload_spec [OF this _ assms(2) q]
  obtain bs where bs: "holds_bytes d dest bs dq" "int (length bs) \<le> m"
      "\<forall>n. q = Inr n \<longrightarrow> n = int (length bs) \<and> bs = upload_data evs" by auto
  have gone: "dq(dest := None) = d(dest := None)" using bs(1) by (auto simp: holds_bytes_def)
  show ?thesis
  proof (cases q)
    case (Inl e)
    then have "r = Inl e" "d' = dq(dest := None)" using assms(1) None q by (simp_all add: guarded_copy_def)
    then show ?thesis using gone by simp
  next
    case (Inr n)
    then have "r = Inr n" "d' = dq" using assms(1) None q by (simp_all add: guarded_copy_def)
    moreover have "n = int (length bs)" "bs = upload_data evs" using bs(3) Inr by simp_all
    ultimately show ?thesis using bs(1,2) by simp
  qed
qed (use assms in \<open>auto simp: guarded_copy_def\<close>)

text \<open>What a copy has done to the disk, by its result.\<close>

definition stored_or_gone :: "string \<Rightarrow> int \<Rightarrow> path \<Rightarrow> disk \<Rightarrow> exc + int \<Rightarrow> disk \<Rightarrow> bool" where
  "stored_or_gone bs m dest d r d' \<longleftrightarrow>
     (case r of Inr n \<Rightarrow> n = int (length bs) \<and> n \<le> m \<and> holds_bytes d dest bs d' | Inl e \<Rightarrow> d' = d(dest := None))"

lemma stream_spec:
  "0 \<le> m \<Longrightarrow> stream_to_disk now open_exc upload dest chunk_bytes m d = (r, d') \<Longrightarrow>
     stored_or_gone (upload_data (upload chunk_bytes)) m dest d r d'"
  unfolding stream_to_disk_def by (drule guarded_copy_spec, assumption) (auto simp: stored_or_gone_def)

lemma stream_body_spec:
  "0 \<le> m \<Longrightarrow> stream_body_to_disk now open_exc chunks dest m d = (r, d') \<Longrightarrow>
     stored_or_gone (upload_data (nonempty chunks)) m dest d r d'"
  unfolding stream_body_to_disk_def copy_body_upload by (drule guarded_copy_spec, assumption) (auto simp: stored_or_gone_def)

text \<open>
  An upload is stored whole or not at all. Both ways of receiving a document end either with
  exactly the bytes received in the file, their number returned and within the limit, or with an
  exception and no file; no other file is touched; and at no point during the copy does the file
  hold more bytes than the limit.
\<close>

theorem upload_whole_or_absent:
  assumes "0 \<le> max_bytes"
  shows "(let (r, d') = stream_to_disk now open_exc upload dest chunk_bytes max_bytes d
          in stored_or_gone (upload_data (upload chunk_bytes)) max_bytes dest d r d')
    \<and> (let (r, d') = stream_body_to_disk now open_exc chunks dest max_bytes d
        in stored_or_gone (upload_data (nonempty chunks)) max_bytes dest d r d')
    \<and> (\<forall>k. \<exists>bs. int (length bs) \<le> max_bytes
          \<and> holds_bytes d dest bs (snd (copy_upload max_bytes dest (take k evs) 0 (d(dest \<mapsto> \<lparr>fi_bytes = [], fi_mtime = now\<rparr>)))))"
proof -
  have start: "holds_bytes d dest [] (d(dest \<mapsto> \<lparr>fi_bytes = [], fi_mtime = now\<rparr>))" by (simp add: holds_bytes_def)
  have "\<exists>bs. int (length bs) \<le> max_bytes
      \<and> holds_bytes d dest bs (snd (copy_upload max_bytes dest es 0 (d(dest \<mapsto> \<lparr>fi_bytes = [], fi_mtime = now\<rparr>))))" for es
    using copy_upload_spec [OF start _ assms, of es] by (metis list.size(3) of_nat_0 prod.collapse)
  then show ?thesis
    using stream_spec [OF assms] stream_body_spec [OF assms] by (auto split: prod.split)
qed

theorem upload_whole_or_absent_witness:
  "\<exists>r d'. stream_body_to_disk 7 None [(Inr ''ab'', None), (Inr [], None), (Inr ''cde'', None)] [''data'', ''j.pdf''] 4 (\<lambda>_. None) = (r, d')
     \<and> stored_or_gone ''abcde'' 4 [''data'', ''j.pdf''] (\<lambda>_. None) r d' \<and> r = Inl UploadTooLarge"
proof -
  let ?c = "[(Inr ''ab'', None), (Inr [], None), (Inr ''cde'', None)] :: chunk_event list"
  have r: "fst (stream_body_to_disk 7 None ?c [''data'', ''j.pdf''] 4 (\<lambda>_. None)) = Inl UploadTooLarge"
    by (simp add: stream_body_to_disk_def guarded_copy_def)
  have data: "upload_data (nonempty ?c) = ''abcde''" by (simp add: nonempty_def)
  obtain q d' where q: "stream_body_to_disk 7 None ?c [''data'', ''j.pdf''] 4 (\<lambda>_. None) = (q, d')" by fastforce
  have "let (r, d') = stream_body_to_disk 7 None ?c [''data'', ''j.pdf''] 4 (\<lambda>_. None)
      in stored_or_gone (upload_data (nonempty ?c)) 4 [''data'', ''j.pdf''] (\<lambda>_. None) r d'"
    using upload_whole_or_absent [of 4 7 None "\<lambda>_. []" "[''data'', ''j.pdf'']" 0 "\<lambda>_. None" ?c "[]"] by simp
  then show ?thesis unfolding data q using r q by auto
qed

section \<open>The documents as a set of jobs\<close>

text \<open>
  What the clients rely on: which jobs have a document, and that deleting removes exactly one of
  them and says whether it was there. Housekeeping that deletes some of a list of jobs then
  removes exactly those.
\<close>

locale document_store =
  fixes docs :: "'d \<Rightarrow> string set" and del :: "string \<Rightarrow> 'd \<Rightarrow> bool \<times> 'd"
  assumes del_found: "fst (del job d) \<longleftrightarrow> job \<in> docs d"
    and del_docs: "docs (snd (del job d)) = docs d - {job}"
begin

fun del_all :: "string list \<Rightarrow> 'd \<Rightarrow> 'd" where
  "del_all [] d = d"
| "del_all (job # jobs) d = del_all jobs (snd (del job d))"

lemma docs_del_all: "docs (del_all jobs d) = docs d - set jobs"
  by (induction jobs arbitrary: d) (auto simp: del_docs)

lemma del_twice: "fst (del job (snd (del job d))) = False"
  by (simp add: del_found del_docs)

end

definition docs_of :: "path \<Rightarrow> disk \<Rightarrow> string set" where
  "docs_of data_dir d = {job. \<exists>p. pdf_path data_dir job = Inr p \<and> d p \<noteq> None}"

lemma delete_document_found: "fst (delete_document data_dir job d) \<longleftrightarrow> job \<in> docs_of data_dir d"
  by (auto simp: delete_document_def docs_of_def split: sum.split option.split)

lemma pdf_path_eq: "pdf_path data_dir job = Inr p \<longleftrightarrow> safe_job_id job \<and> p = data_dir @ [job @ ''.pdf'']"
  by (auto simp: pdf_path_def)

lemma docs_of_upd:
  assumes "pdf_path data_dir job = Inr p"
  shows "docs_of data_dir (d(p := f)) = (if f = None then docs_of data_dir d - {job} else insert job (docs_of data_dir d))"
  using assms by (auto simp: docs_of_def pdf_path_eq)

lemma delete_document_docs: "docs_of data_dir (snd (delete_document data_dir job d)) = docs_of data_dir d - {job}"
proof (cases "pdf_path data_dir job")
  case (Inl e)
  then have "job \<notin> docs_of data_dir d" by (simp add: docs_of_def)
  then show ?thesis by (simp add: delete_document_def Inl)
next
  case (Inr p)
  then have "d p = None \<Longrightarrow> job \<notin> docs_of data_dir d" by (simp add: docs_of_def)
  then show ?thesis
    using docs_of_upd [OF Inr, of d None] by (auto simp: delete_document_def Inr split: option.split)
qed

interpretation on_disk: document_store "docs_of data_dir" "delete_document data_dir" for data_dir
  by unfold_locales (rule delete_document_found delete_document_docs)+

lemma copy_docs:
  assumes "pdf_path data_dir job = Inr p" and "stored_or_gone bs m p d r d'"
  shows "docs_of data_dir d' = (case r of Inr _ \<Rightarrow> insert job (docs_of data_dir d) | Inl _ \<Rightarrow> docs_of data_dir d - {job})"
proof (cases r)
  case (Inl e)
  then show ?thesis using assms docs_of_upd [OF assms(1), of d None] by (simp add: stored_or_gone_def)
next
  case (Inr n)
  then obtain f where "d' p = Some f" "\<forall>q. q \<noteq> p \<longrightarrow> d' q = d q"
    using assms(2) by (auto simp: stored_or_gone_def holds_bytes_def)
  then have "d' = d(p := Some f)" by auto
  then show ?thesis using docs_of_upd [OF assms(1), of d "Some f"] Inr by simp
qed



section \<open>What one page contributes\<close>

text \<open>
  What a page adds to a request is bounded, and bad text does not cost the page. Whatever the
  library returns, the index lies in the document, the sample has at most the configured number
  of characters and is a prefix of the text of the page, a limit of 0 asks for no text at all,
  and where the size of the page can be read a failing text extraction still gives the page.
\<close>

theorem page_content_bounded:
  assumes "open_reader lib p d = Inr reader" and "rd_pages reader = Inr pages"
    and "0 \<le> i" and "i < pages" and "rd_page reader i = Inr page"
    and "pg_width page = Inr width" and "pg_height page = Inr height"
    and "\<forall>e. pg_rotate page = Inl e \<longrightarrow> e \<in> {OtherException ''TypeError'', OtherException ''ValueError''}"
    and "pg_text page \<noteq> Inl CancelledError"
  shows "\<exists>c. extract_page lib p i text_limit d = Inr c \<and> pc_page_index c = i
    \<and> int (length (pc_text c)) \<le> max 0 text_limit
    \<and> (\<forall>s. pg_text page = Inr s \<and> 0 < text_limit \<longrightarrow> pc_text c = take (nat text_limit) s \<and> pc_text_chars c = length s)
    \<and> (text_limit \<le> 0 \<longrightarrow> pc_text_chars c = 0)"
proof -
  obtain r where r: "rotation_of page = Inr r"
    using assms(8) by (cases "pg_rotate page") (auto simp: rotation_of_def)
  obtain s where s: "text_of text_limit page = Inr s"
      "\<forall>s'. pg_text page = Inr s' \<and> 0 < text_limit \<longrightarrow> s = s'" "text_limit \<le> 0 \<longrightarrow> s = []"
    using assms(9) that by (cases "pg_text page"; cases "0 < text_limit") (auto simp: text_of_def is_Exception_def)
  have "extract_page lib p i text_limit d = Inr \<lparr>pc_page_index = i, pc_width = width, pc_height = height,
      pc_rotation = r, pc_text = take (nat text_limit) s, pc_text_chars = length s\<rparr>"
    using assms(1-7) r s(1) by (simp add: extract_page_def as_invalid_def)
  then show ?thesis using s(2,3) by auto
qed

text \<open>A library whose only document has one page, with junk for its rotation.\<close>

definition junk_page :: "exc + string \<Rightarrow> pdf_page" where
  "junk_page s = \<lparr>pg_width = Inr 612, pg_height = Inr 792, pg_rotate = Inl (OtherException ''ValueError''), pg_text = s\<rparr>"

definition junk_lib :: "exc + string \<Rightarrow> pdf_lib" where
  "junk_lib s = \<lparr>pdf_open = (\<lambda>_. Inr \<lparr>rd_encrypted = Inr False, rd_pages = Inr 1, rd_page = (\<lambda>_. Inr (junk_page s))\<rparr>),
     pdf_caught = (\<lambda>e. e \<in> {OtherException ''PdfReadError'', OtherException ''OSError'',
       OtherException ''FileNotFoundError'', OtherException ''ValueError'', OtherException ''KeyError''})\<rparr>"

theorem page_content_bounded_witness:
  "(\<exists>c. extract_page (junk_lib (Inr ''abcdef'')) [''data'', ''j.pdf''] 0 4
         [[''data'', ''j.pdf''] \<mapsto> \<lparr>fi_bytes = ''%PDF'', fi_mtime = 7\<rparr>] = Inr c \<and> pc_text c = ''abcd'' \<and> pc_text_chars c = 6)
   \<and> (\<exists>c. extract_page (junk_lib (Inl RedisError)) [''data'', ''j.pdf''] 0 4
         [[''data'', ''j.pdf''] \<mapsto> \<lparr>fi_bytes = ''%PDF'', fi_mtime = 7\<rparr>] = Inr c \<and> length (pc_text c) \<le> 4)
   \<and> extract_page (junk_lib (Inr ''abcdef'')) [''data'', ''j.pdf''] 1 4
         [[''data'', ''j.pdf''] \<mapsto> \<lparr>fi_bytes = ''%PDF'', fi_mtime = 7\<rparr>] = Inl InvalidPdf"
proof (intro conjI)
  let ?d = "[[''data'', ''j.pdf''] \<mapsto> \<lparr>fi_bytes = ''%PDF'', fi_mtime = 7\<rparr>] :: disk"
  let ?rd = "\<lambda>s. \<lparr>rd_encrypted = Inr False, rd_pages = Inr 1, rd_page = (\<lambda>_. Inr (junk_page s))\<rparr>"
  have op: "open_reader (junk_lib s) [''data'', ''j.pdf''] ?d = Inr (?rd s)" for s by (simp add: open_reader_def junk_lib_def)
  show "\<exists>c. extract_page (junk_lib (Inr ''abcdef'')) [''data'', ''j.pdf''] 0 4 ?d = Inr c
      \<and> pc_text c = ''abcd'' \<and> pc_text_chars c = 6"
    using page_content_bounded [OF op [of "Inr ''abcdef''"], of 1 0 "junk_page (Inr ''abcdef'')" 612 792 4]
    by (auto simp: junk_page_def)
  show "\<exists>c. extract_page (junk_lib (Inl RedisError)) [''data'', ''j.pdf''] 0 4 ?d = Inr c \<and> length (pc_text c) \<le> 4"
    using page_content_bounded [OF op [of "Inl RedisError"], of 1 0 "junk_page (Inl RedisError)" 612 792 4]
    by (auto simp: junk_page_def)
  show "extract_page (junk_lib (Inr ''abcdef'')) [''data'', ''j.pdf''] 1 4 ?d = Inl InvalidPdf"
    by (simp add: extract_page_def op as_invalid_def)
qed

end
