(* ===== verification/Fleet.thy ===== *)
theory Fleet
  imports Page_Death Task_Queue Documents
begin

text \<open>
  What the worker process and the reaper share: the part of \<^verbatim>\<open>src/app/config.py\<close> they read, the
  world they act on (the pages with their event streams, the task queue, the documents on disk
  and the counters), and how the operations of the other components act on it. The queue is any
  \<open>stream_server\<close>; the laws of that interface are what the lemmas below rest on.
\<close>

section \<open>Settings\<close>

record settings =
  se_degrade_after_s :: real
  se_page_deadline_s :: real
  se_max_requeues :: int
  se_max_requeues_given :: bool
  se_saturation_pause_s :: real
  se_stage_handoff :: bool
  se_reaper_min_idle_s :: real
  se_reaper_batch :: int
  se_worker_concurrency :: int
  se_worker_prefetch :: int
  se_worker_lead_reserve :: int
  se_worker_block_ms :: int
  se_worker_lead_poll_ms :: int
  se_data_dir :: path
  se_pdf_text_sample_chars :: int
  se_orphan_sweep_interval_s :: real
  se_orphan_sweep_age_s :: real
  se_reaper_enabled :: bool
  se_reaper_interval_s :: real
  se_max_pages :: int
  se_max_upload_mb :: int
  se_upload_chunk_bytes :: int
  se_result_ttl_s :: int

text \<open>\<^verbatim>\<open>int(x)\<close> of a float drops the fraction.\<close>

definition py_trunc :: "real \<Rightarrow> int" where
  "py_trunc x = (if x < 0 then \<lceil>x\<rceil> else \<lfloor>x\<rfloor>)"

text \<open>\<open>se_max_requeues_given\<close> is \<^verbatim>\<open>"max_requeues" in self.model_fields_set\<close>.\<close>

definition effective_max_requeues :: "settings \<Rightarrow> int" where
  "effective_max_requeues se =
     (if se_max_requeues_given se then se_max_requeues se
      else
        let budget_s = min (se_degrade_after_s se) (se_page_deadline_s se);
            per_requeue_s = max (se_saturation_pause_s se) (5 / 100)
        in max (se_max_requeues se) (py_trunc (budget_s / per_requeue_s) * 2))"

text \<open>The defaults of the configuration, with the fields the examples need.\<close>

definition demo_settings :: settings where
  "demo_settings = \<lparr>se_degrade_after_s = 90, se_page_deadline_s = 300, se_max_requeues = 50,
     se_max_requeues_given = False, se_saturation_pause_s = 1 / 2, se_stage_handoff = True,
     se_reaper_min_idle_s = 30, se_reaper_batch = 64, se_worker_concurrency = 16, se_worker_prefetch = 8,
     se_worker_lead_reserve = 4, se_worker_block_ms = 2000, se_worker_lead_poll_ms = 100,
     se_data_dir = [''/'', ''data''], se_pdf_text_sample_chars = 0, se_orphan_sweep_interval_s = 120,
     se_orphan_sweep_age_s = 900, se_reaper_enabled = True, se_reaper_interval_s = 15,
     se_max_pages = 100, se_max_upload_mb = 120, se_upload_chunk_bytes = 1048576, se_result_ttl_s = 3600\<rparr>"

section \<open>World\<close>

record reaper_stats =
  rp_scans :: nat
  rp_claimed :: nat
  rp_requeued :: nat
  rp_forced_terminal :: nat
  rp_already_terminal :: nat
  rp_expired :: nat
  rp_leases_renewed :: nat

record 's fleet =
  fl_pages :: pworld
  fl_queue :: 's
  fl_disk :: disk
  fl_outcomes :: "Outcome \<Rightarrow> nat"
  fl_reaper :: reaper_stats

definition on_pages :: "(pworld, 'a) io \<Rightarrow> ('s fleet, 'a) io" where
  "on_pages m = (\<lambda>w. let (r, p) = m (fl_pages w) in (r, w\<lparr>fl_pages := p\<rparr>))"

definition on_queue :: "('s, 'a) io \<Rightarrow> ('s fleet, 'a) io" where
  "on_queue m = (\<lambda>w. let (r, q) = m (fl_queue w) in (r, w\<lparr>fl_queue := q\<rparr>))"

definition bump :: "(reaper_stats \<Rightarrow> reaper_stats) \<Rightarrow> ('s fleet, unit) io" where
  "bump f = io_modify (\<lambda>w. w\<lparr>fl_reaper := f (fl_reaper w)\<rparr>)"

text \<open>\<^verbatim>\<open>task.age_ms / 1000\<close> at the time of the call, and \<^verbatim>\<open>requeue\<close> with its own reading of the clock.\<close>

definition age_s :: "page_task \<Rightarrow> 's fleet \<Rightarrow> real" where
  "age_s task w = age_ms (of_int (pw_now (fl_pages w))) task / 1000"

definition requeue_task :: "'s stream_ops \<Rightarrow> page_task \<Rightarrow> bool \<Rightarrow> ('s fleet, unit) io" where
  "requeue_task ops task count_attempt =
     (\<lambda>w. io_seq (on_queue (requeue ops (pw_now (fl_pages w)) task count_attempt)) (io_ret ()) w)"

definition ack_task :: "'s stream_ops \<Rightarrow> page_task \<Rightarrow> ('s fleet, unit) io" where
  "ack_task ops task = on_queue (ack ops (pt_entry_id task) (pt_stream task))"

section \<open>The budget\<close>

lemma twice_floor_ge:
  fixes x :: real
  assumes "1 \<le> x"
  shows "x \<le> of_int (\<lfloor>x\<rfloor> * 2)"
proof -
  have "1 \<le> \<lfloor>x\<rfloor>" using assms by simp
  then have "(1 :: real) \<le> of_int \<lfloor>x\<rfloor>" by (simp only: of_int_1_le_iff)
  moreover have "x < of_int \<lfloor>x\<rfloor> + 1" by (rule real_of_int_floor_add_one_gt)
  ultimately show ?thesis unfolding of_int_mult of_int_numeral by linarith
qed

lemma effective_max_requeues_default:
  assumes "\<not> se_max_requeues_given se"
    and "0 < se_degrade_after_s se" and "0 < se_page_deadline_s se" and "1 \<le> se_max_requeues se"
  shows "min (se_degrade_after_s se) (se_page_deadline_s se)
           \<le> of_int (effective_max_requeues se) * max (se_saturation_pause_s se) (5 / 100)"
proof -
  let ?b = "min (se_degrade_after_s se) (se_page_deadline_s se)" and ?p = "max (se_saturation_pause_s se) (5 / 100)"
  have p: "0 < ?p" by simp
  have nn: "\<not> ?b / ?p < 0" using assms(2,3) p by (simp add: not_less)
  have eff: "effective_max_requeues se = max (se_max_requeues se) (\<lfloor>?b / ?p\<rfloor> * 2)"
    unfolding effective_max_requeues_def Let_def py_trunc_def if_not_P [OF assms(1)] if_not_P [OF nn] ..
  have "?b / ?p \<le> of_int (effective_max_requeues se)"
  proof (cases "1 \<le> ?b / ?p")
    case True
    have "of_int (\<lfloor>?b / ?p\<rfloor> * 2) \<le> (of_int (effective_max_requeues se) :: real)"
      unfolding eff of_int_le_iff by (rule max.cobounded2)
    then show ?thesis using twice_floor_ge [OF True] by linarith
  next
    case False
    have "(1 :: int) \<le> effective_max_requeues se" unfolding eff using assms(4) by (rule max.coboundedI1)
    then have "(1 :: real) \<le> of_int (effective_max_requeues se)" by (simp only: of_int_1_le_iff)
    then show ?thesis using False by linarith
  qed
  then show ?thesis using p by (simp only: pos_divide_le_eq)
qed

section \<open>Reasoning about the combined world\<close>

lemma wp_pages [wp_simps]: "wp (on_pages m) Q w \<longleftrightarrow> wp m (\<lambda>r p. Q r (w\<lparr>fl_pages := p\<rparr>)) (fl_pages w)"
  by (simp add: wp_def on_pages_def split: prod.split)

lemma wp_queue [wp_simps]: "wp (on_queue m) Q w \<longleftrightarrow> wp m (\<lambda>r q. Q r (w\<lparr>fl_queue := q\<rparr>)) (fl_queue w)"
  by (simp add: wp_def on_queue_def split: prod.split)

lemma wp_gets [wp_simps]: "wp (io_gets f) Q w \<longleftrightarrow> Q (Inr (f w)) w"
  by (simp add: wp_def io_simps)

lemma wp_bump [wp_simps]: "wp (bump f) Q w \<longleftrightarrow> Q (Inr ()) (w\<lparr>fl_reaper := f (fl_reaper w)\<rparr>)"
  by (simp add: wp_def bump_def io_simps)

text \<open>The entry of a task in the queue, and what settling and requeueing make of it.\<close>

definition holds_entry :: "('s \<Rightarrow> string \<Rightarrow> entry_id \<Rightarrow> fields option) \<Rightarrow> page_task \<Rightarrow> 's \<Rightarrow> bool" where
  "holds_entry ent t s \<longleftrightarrow> pt_stream t \<in> set STREAMS \<and>
     (\<exists>f. ent s (pt_stream t) (pt_entry_id t) = Some f \<and> page_of f = Some (pt_job_id t, pt_page_index t))"

lemma holds_entry_queued: "holds_entry ent t s \<Longrightarrow> queued (ent s) (pt_job_id t, pt_page_index t)"
  by (auto simp: holds_entry_def queued_def)

text \<open>
  A page is not stranded when it is terminal or queued; and if it is still claimed, then the very
  entry of the task that claimed it is in the queue, where the reaper will find it.
\<close>

definition not_stranded :: "('s \<Rightarrow> string \<Rightarrow> entry_id \<Rightarrow> fields option) \<Rightarrow> page_task \<Rightarrow> 's fleet \<Rightarrow> bool" where
  "not_stranded ent t w \<longleftrightarrow> (\<exists>s \<in> set TERMINAL_STATES. cur (pt_job_id t) (pt_page_index t) (fl_pages w) = Some s)
     \<or> queued (ent (fl_queue w)) (pt_job_id t, pt_page_index t)
       \<and> (\<forall>s \<in> set RUNNING_STATES. cur (pt_job_id t) (pt_page_index t) (fl_pages w) = Some s \<longrightarrow> holds_entry ent t (fl_queue w))"

lemma ns_held: "holds_entry ent t (fl_queue w) \<Longrightarrow> not_stranded ent t w"
  by (auto simp: not_stranded_def holds_entry_queued simp del: set_RUNNING_STATES set_TERMINAL_STATES)

lemma ns_terminal: "cur (pt_job_id t) (pt_page_index t) (fl_pages w) = Some s \<Longrightarrow> s \<in> set TERMINAL_STATES \<Longrightarrow> not_stranded ent t w"
  unfolding not_stranded_def by blast

lemma ns_free:
  "queued (ent (fl_queue w)) (pt_job_id t, pt_page_index t) \<Longrightarrow> cur (pt_job_id t) (pt_page_index t) (fl_pages w) = Some c \<Longrightarrow>
   c \<notin> set RUNNING_STATES \<Longrightarrow> not_stranded ent t w"
  unfolding not_stranded_def by auto

lemma ns_same:
  "not_stranded ent t w \<Longrightarrow> fl_queue w' = fl_queue w \<Longrightarrow>
   cur (pt_job_id t) (pt_page_index t) (fl_pages w') = cur (pt_job_id t) (pt_page_index t) (fl_pages w) \<Longrightarrow> not_stranded ent t w'"
  by (simp add: not_stranded_def)

end
