(* ===== verification/Reaper.thy ===== *)
theory Reaper
  imports Fleet
begin

text \<open>
  Recovery of pages whose worker died, \<^verbatim>\<open>src/app/worker/reaper.py\<close>: what a claimed entry turns out
  to be and what is done with it, and the renewal of leases. The recovery is proved safe under
  any failing calls, to the page store as well as to the queue.
\<close>

section \<open>Operations\<close>

definition reclaim_reason :: "real \<Rightarrow> int \<Rightarrow> string" where
  "reclaim_reason age attempt =
     ''reclaimed after '' @ str_int (round_half_even age) @ ''s, attempt '' @ str_int (attempt + 1)"

definition reaper_exhausted :: "settings \<Rightarrow> real \<Rightarrow> int \<Rightarrow> bool" where
  "reaper_exhausted se age attempt \<longleftrightarrow>
     age \<ge> se_page_deadline_s se \<or> attempt + 1 \<ge> effective_max_requeues se"

definition recover :: "settings \<Rightarrow> pipeline \<Rightarrow> 's stream_ops \<Rightarrow> page_task \<Rightarrow> ('s fleet, unit) io" where
  "recover se pl ops task =
     io_bind (on_pages (st_get_page pl (pt_job_id task) (pt_page_index task))) (\<lambda>pg.
       case pg of
         None \<Rightarrow> io_seq (bump (\<lambda>s. s\<lparr>rp_expired := Suc (rp_expired s)\<rparr>)) (ack_task ops task)
       | Some h \<Rightarrow>
           io_bind (on_pages (hash_state h)) (\<lambda>state.
             if state \<in> set TERMINAL_STATES
             then io_seq (bump (\<lambda>s. s\<lparr>rp_already_terminal := Suc (rp_already_terminal s)\<rparr>)) (ack_task ops task)
             else
               io_bind (io_gets (age_s task)) (\<lambda>age.
                 if reaper_exhausted se age (pt_attempt task)
                 then
                   io_bind (on_pages (force_terminal pl (pt_job_id task) (pt_page_index task)
                              (reclaim_reason age (pt_attempt task)))) (\<lambda>landed.
                   io_seq (bump (\<lambda>s. s\<lparr>rp_forced_terminal := Suc (rp_forced_terminal s)\<rparr>))
                     (ack_task ops task))
                 else
                   io_bind (on_pages (release_claim pl (pt_job_id task) (pt_page_index task))) (\<lambda>_.
                   io_seq (requeue_task ops task True)
                     (bump (\<lambda>s. s\<lparr>rp_requeued := Suc (rp_requeued s)\<rparr>))))))"

definition scan :: "settings \<Rightarrow> pipeline \<Rightarrow> 's stream_ops \<Rightarrow> string \<Rightarrow> ('s fleet, nat) io" where
  "scan se pl ops consumer =
     io_seq (bump (\<lambda>s. s\<lparr>rp_scans := Suc (rp_scans s)\<rparr>))
     (io_bind (on_queue (claim_orphans ops consumer (py_trunc (se_reaper_min_idle_s se * 1000)) (se_reaper_batch se)))
       (\<lambda>orphans.
     io_seq (bump (\<lambda>s. s\<lparr>rp_claimed := rp_claimed s + length orphans\<rparr>))
     (io_seq (io_mapM (recover se pl ops) orphans)
       (io_ret (length orphans)))))"

definition renew :: "'s stream_ops \<Rightarrow> string \<Rightarrow> page_task list \<Rightarrow> ('s fleet, nat) io" where
  "renew ops consumer tasks =
     (if tasks = [] then io_ret 0
      else
        io_bind (on_queue (renew_leases ops consumer tasks)) (\<lambda>renewed.
        io_seq (bump (\<lambda>s. s\<lparr>rp_leases_renewed := rp_leases_renewed s + renewed\<rparr>))
          (io_ret renewed)))"

section \<open>The page store when calls fail\<close>

text \<open>
  \<open>pl_alone\<close>: nobody else touches the store, but any await may fail, before or after its effect.
  \<open>wpo m Q w\<close>: if \<open>m\<close> returns, then with a value and in a world that satisfy \<open>Q\<close>.
\<close>

definition pl_alone :: "pipeline \<Rightarrow> bool" where
  "pl_alone pl \<longleftrightarrow> (\<forall>n w. snd (pl_env pl n w) = w) \<and> 0 < pl_ttl_s pl"

definition wpo :: "('w, 'a) io \<Rightarrow> ('a \<Rightarrow> 'w \<Rightarrow> bool) \<Rightarrow> 'w \<Rightarrow> bool" where
  "wpo m Q w \<longleftrightarrow> wp m (\<lambda>r w'. case r of Inl _ \<Rightarrow> True | Inr a \<Rightarrow> Q a w') w"

lemma wpo_ret: "wpo (io_ret a) Q w \<longleftrightarrow> Q a w"
  by (simp add: wpo_def wp_simps)

lemma wpo_raise: "wpo (io_raise e) Q w"
  by (simp add: wpo_def wp_simps)

lemma wpo_bind: "wpo (io_bind m f) Q w \<longleftrightarrow> wpo m (\<lambda>a w'. wpo (f a) Q w') w"
  unfolding wpo_def wp_bind by (rule arg_cong [of _ _ "\<lambda>P. wp m P w"]) (auto simp: fun_eq_iff split: sum.split)

lemma wpo_seq: "wpo (io_seq m k) Q w \<longleftrightarrow> wpo m (\<lambda>a w'. wpo k Q w') w"
  by (simp add: io_seq_def wpo_bind)

lemma wpo_mono: "wpo m P w \<Longrightarrow> (\<And>a w'. P a w' \<Longrightarrow> Q a w') \<Longrightarrow> wpo m Q w"
  unfolding wpo_def by (rule wp_mono, assumption) (auto split: sum.splits)

lemma wpo_await:
  assumes "pl_alone pl" and "\<And>w1. pw_store w1 = pw_store w \<Longrightarrow> pw_now w1 = pw_now w \<Longrightarrow> wpo f Q w1"
  shows "wpo (pw_await pl f) Q w"
proof -
  obtain fo where "pl_env pl (pw_tick w) w = (fo, w)"
    using assms(1) by (metis pl_alone_def prod.collapse)
  then show ?thesis
    using assms(2) [of "w\<lparr>pw_tick := Suc (pw_tick w)\<rparr>"]
    by (auto simp: wpo_def wp_def pw_await_def Let_def split: option.split fault.split)
qed

lemma a_transition:
  assumes "pl_alone pl" and "cur job i w = Some c" and "c \<in> set (sources_of al to)"
  shows "wpo (st_transition pl job i to al fvs) (\<lambda>tr w'. tr_ok tr \<and> cur job i w' = Some to) w"
  unfolding st_transition_def
proof (rule wpo_await [OF assms(1)])
  fix w1 :: pworld
  assume "pw_store w1 = pw_store w" and "pw_now w1 = pw_now w"
  then have c: "page_st (pw_now w1) (pw_store w1) job i = Some c" using assms(2) by (simp add: cur_def)
  obtain tr s' where "transition (pw_now w1) (pw_now w1) (pl_ttl_s pl) (pl_swept pl (pw_tick w1)) job i to al fvs
      (pw_store w1) = Some (tr, s')" "tr_ok tr" "page_st (pw_now w1) s' job i = Some to"
    by (rule transition_accept [OF c assms(3)]) (use assms(1) in \<open>auto simp: pl_alone_def\<close>)
  then show "wpo (\<lambda>w. case transition (pw_now w) (pw_now w) (pl_ttl_s pl) (pl_swept pl (pw_tick w)) job i to al
          fvs (pw_store w) of
        None \<Rightarrow> (Inl (OtherException ''ValueError''), w)
      | Some (r, s) \<Rightarrow> (Inr r, w\<lparr>pw_store := s\<rparr>)) (\<lambda>tr w'. tr_ok tr \<and> cur job i w' = Some to) w1"
    by (simp add: wpo_def wp_def cur_def)
qed

lemma a_get_page:
  assumes "pl_alone pl" and "cur job i w = st"
  shows "wpo (st_get_page pl job i) (\<lambda>pg w'. Option.bind pg ph_state = st \<and> cur job i w' = st) w"
  unfolding st_get_page_def
  by (rule wpo_await [OF assms(1)]) (use assms(2) in \<open>auto simp: wpo_def wp_def cur_def page_st_def\<close>)

lemma a_emit:
  assumes "pl_alone pl"
  shows "wpo (emit pl ev tr job i payload) (\<lambda>_ w'. cur job' i' w' = cur job' i' w) w"
proof -
  have env: "snd (pl_env pl n v) = v" for n v using assms by (simp add: pl_alone_def)
  have pub: "cur job' i' (snd (pub_publish pl pb job e p v)) = cur job' i' v" for pb e p v
    using env [of "pw_tick v" v]
    by (cases "pl_env pl (pw_tick v) v")
       (auto simp: pub_publish_def pw_await_def cur_def Let_def split: option.split fault.split)
  have "cur job' i' (snd (emit pl ev tr job i payload w)) = cur job' i' w"
    by (auto simp: emit_def io_simps io_when_def case_prod_beta pub split: option.split sum.split)
  then show ?thesis by (simp add: wpo_def wp_def split: sum.split)
qed

lemma a_release:
  assumes "pl_alone pl" and "cur job i w = Some c"
  shows "wpo (release_claim pl job i) (\<lambda>_ w'. cur job i w' =
     Some (case RECLAIM_TARGET c of None \<Rightarrow> c | Some t \<Rightarrow> t)) w"
  unfolding release_claim_def wpo_bind
proof (rule wpo_mono [OF a_get_page [OF assms]], elim conjE)
  fix pg :: "page_hash option" and w1
  assume "Option.bind pg ph_state = Some c" and w1: "cur job i w1 = Some c"
  then obtain h where h: "pg = Some h" "ph_state h = Some c" by (auto simp: Option.bind_eq_Some_conv)
  have "wpo (io_seq (st_transition pl job i t (Some [c]) []) (io_ret ())) (\<lambda>_ w'. cur job i w' = Some t) w1" for t
    unfolding wpo_seq wpo_ret by (rule wpo_mono [OF a_transition [OF assms(1) w1]]) simp_all
  then show "wpo (case pg of None \<Rightarrow> io_ret ()
     | Some h \<Rightarrow> io_bind (hash_state h) (\<lambda>current. case RECLAIM_TARGET current of None \<Rightarrow> io_ret ()
         | Some target \<Rightarrow> io_seq (st_transition pl job i target (Some [current]) []) (io_ret ())))
     (\<lambda>_ w'. cur job i w' = Some (case RECLAIM_TARGET c of None \<Rightarrow> c | Some t \<Rightarrow> t)) w1"
    using w1 by (simp add: h hash_state_def wpo_bind wpo_ret split: option.split)
qed

lemma a_force_terminal:
  assumes "pl_alone pl" and "cur job i w = Some c"
  shows "wpo (force_terminal pl job i reason) (\<lambda>_ w'. cur job i w' = Some (forced c)) w"
  unfolding force_terminal_def wpo_bind
  apply (rule wpo_mono [OF a_get_page [OF assms]], elim conjE)
  subgoal for pg w1
    apply (cases pg, simp, simp only: option.case Option.bind.simps hash_state_def wpo_bind wpo_ret Let_def)
    apply (cases "c \<in> set TERMINAL_STATES")
    subgoal by (cases c) (auto simp: wpo_ret)
    apply (subst if_not_P, assumption, unfold wpo_bind, rule wpo_mono [OF a_transition [OF assms(1)]], assumption)
    subgoal by (cases c) auto
    subgoal for h tr w2
      using forced_legal [of c]
      by (simp only: not_True_eq_False if_False wpo_seq wpo_ret) (rule wpo_mono [OF a_emit [OF assms(1), where job' = job and i' = i]], simp)
    done
  done

section \<open>Recovery never strands a page\<close>

text \<open>Page operations leave the queue alone, and queue operations the pages.\<close>

lemma f_bind_pages:
  assumes "wpo m P (fl_pages w)"
    and "\<And>a p. P a p \<Longrightarrow> wp (k a) Q (w\<lparr>fl_pages := p\<rparr>)" and "\<And>e p. Q (Inl e) (w\<lparr>fl_pages := p\<rparr>)"
  shows "wp (io_bind (on_pages m) k) Q w"
  unfolding wp_bind wp_pages
  by (rule wp_mono [OF assms(1) [unfolded wpo_def]]) (use assms(2,3) in \<open>auto split: sum.splits\<close>)

lemma f_ack: "(\<And>r q. Q r (w\<lparr>fl_queue := q\<rparr>)) \<Longrightarrow> wp (ack_task ops task) Q w"
  unfolding ack_task_def wp_queue by (rule wp_mono [of _ "\<lambda>_ _. True"]) (simp_all add: wp_def)

context stream_server
begin

lemma f_requeue:
  assumes "ok (fl_queue w)" and "holds_entry ent t (fl_queue w)"
    and "\<And>r q. queued (ent q) (pt_job_id t, pt_page_index t) \<Longrightarrow> Q r (w\<lparr>fl_queue := q\<rparr>)"
  shows "wp (requeue_task ops t b) Q w"
proof -
  obtain f where f: "ent (fl_queue w) (pt_stream t) (pt_entry_id t) = Some f"
      "page_of f = Some (pt_job_id t, pt_page_index t)" "pt_stream t \<in> set STREAMS"
    using assms(2) by (auto simp: holds_entry_def)
  obtain r q where rq: "requeue ops (pw_now (fl_pages w)) t b (fl_queue w) = (r, q)" by fastforce
  have "queued (ent q) (pt_job_id t, pt_page_index t)" using requeue_keeps [OF assms(1) f rq] by blast
  then show ?thesis
    using assms(3) rq
    by (cases r) (simp_all add: wp_def requeue_task_def on_queue_def io_simps)
qed

lemma recover_safe:
  assumes "pl_alone pl" and "ok (fl_queue w)" and "holds_entry ent t (fl_queue w)"
    and "cur (pt_job_id t) (pt_page_index t) (fl_pages w) = Some c"
  shows "wp (recover se pl ops t) (\<lambda>r w'. not_stranded ent t w' \<and>
       (r = Inr () \<longrightarrow> (\<exists>s. cur (pt_job_id t) (pt_page_index t) (fl_pages w') = Some s \<and> s \<notin> set RUNNING_STATES))) w"
  (is "wp _ ?Q w")
proof -
  have q: "?Q (Inl e) (w\<lparr>fl_pages := p\<rparr>)" for e p using ns_held [of ent t "w\<lparr>fl_pages := p\<rparr>"] assms(3) by simp
  have ack: "wp (io_seq (bump g) (ack_task ops t)) ?Q v"
    if "cur (pt_job_id t) (pt_page_index t) (fl_pages v) = Some s" "s \<in> set TERMINAL_STATES" for g v s
    unfolding wp_seq wp_bump sum.case by (rule f_ack) (use that in \<open>auto intro: ns_terminal\<close>)
  have putback: "wp (io_bind (on_pages (release_claim pl (pt_job_id t) (pt_page_index t))) (\<lambda>_.
      io_seq (requeue_task ops t True) (bump g))) ?Q (w\<lparr>fl_pages := p\<rparr>)"
    if "cur (pt_job_id t) (pt_page_index t) p = Some c" "c \<notin> set TERMINAL_STATES" for g p
  proof (rule f_bind_pages)
    show "wpo (release_claim pl (pt_job_id t) (pt_page_index t)) (\<lambda>_ p'.
        cur (pt_job_id t) (pt_page_index t) p' = Some (case RECLAIM_TARGET c of None \<Rightarrow> c | Some s \<Rightarrow> s)) (fl_pages (w\<lparr>fl_pages := p\<rparr>))"
      by (rule a_release [OF assms(1)]) (simp add: that)
    fix p'
    assume c': "cur (pt_job_id t) (pt_page_index t) p' = Some (case RECLAIM_TARGET c of None \<Rightarrow> c | Some s \<Rightarrow> s)"
    have "(case RECLAIM_TARGET c of None \<Rightarrow> c | Some s \<Rightarrow> s) \<notin> set RUNNING_STATES" by (cases c) auto
    with c' show "wp (io_seq (requeue_task ops t True) (bump g)) ?Q (w\<lparr>fl_pages := p, fl_pages := p'\<rparr>)"
      unfolding wp_seq by (intro f_requeue)
        (use assms(2,3) in \<open>auto simp: wp_bump split: sum.split simp del: set_RUNNING_STATES intro!: ns_free\<close>)
  qed (use q in simp)
  have force: "wp (io_bind (on_pages (force_terminal pl (pt_job_id t) (pt_page_index t) reason)) (\<lambda>_.
      io_seq (bump g) (ack_task ops t))) ?Q (w\<lparr>fl_pages := p\<rparr>)"
    if "cur (pt_job_id t) (pt_page_index t) p = Some c" for g p reason
  proof (rule f_bind_pages [OF a_force_terminal [OF assms(1)]])
    fix p'
    assume "cur (pt_job_id t) (pt_page_index t) p' = Some (forced c)"
    then show "wp (io_seq (bump g) (ack_task ops t)) ?Q (w\<lparr>fl_pages := p, fl_pages := p'\<rparr>)"
      by (intro ack [of _ "forced c"]) (cases c; simp)+
  qed (use q that in simp_all)
  show ?thesis
    unfolding recover_def
    apply (rule f_bind_pages [OF a_get_page [OF assms(1,4)]])
    subgoal for pg p
      apply (cases pg, simp, simp only: option.case Option.bind.simps, elim conjE)
      subgoal for h
        apply (rule f_bind_pages [of _ "\<lambda>s p'. s = c \<and> p' = p"])
        subgoal by (simp add: hash_state_def wpo_ret)
        subgoal for s p'
          by (auto simp: wp_bind [of "io_gets f" for f] wp_gets intro!: ack putback force
              simp del: set_TERMINAL_STATES set_RUNNING_STATES)
        subgoal using q by simp
        done
      done
    subgoal using q by simp
    done
qed

end

text \<open>
  C6. Recovery never strands a page. Take an entry the reaper has claimed and its page in any state,
  and let any call to the page store or to the queue fail, before or after its effect. Whether
  the recovery returns or raises, the page is terminal or still has an entry in the queue, the
  claimed one itself if a dead worker's claim is still on the page; and when it returns, no such
  claim is left.
\<close>

theorem recovery_never_strands:
  assumes "stream_server ops ok ent owner idle" and "pl_alone pl"
    and "ok (fl_queue w)" and "holds_entry ent t (fl_queue w)"
    and "cur (pt_job_id t) (pt_page_index t) (fl_pages w) = Some c"
    and "recover se pl ops t w = (res, w')"
  shows "not_stranded ent t w'
     \<and> (res = Inr () \<longrightarrow> (\<exists>s. cur (pt_job_id t) (pt_page_index t) (fl_pages w') = Some s \<and> s \<notin> set RUNNING_STATES))"
  by (rule wpD [OF stream_server.recover_safe [OF assms(1-5)] assms(6)])

definition demo_fleet :: "mem_server fleet" where
  "demo_fleet = \<lparr>fl_pages = demo_pworld, fl_queue = demo_queue, fl_disk = (\<lambda>_. None), fl_outcomes = (\<lambda>_. 0),
     fl_reaper = \<lparr>rp_scans = 0, rp_claimed = 0, rp_requeued = 0, rp_forced_terminal = 0,
       rp_already_terminal = 0, rp_expired = 0, rp_leases_renewed = 0\<rparr>\<rparr>"

definition faulty_pipeline :: pipeline where
  "faulty_pipeline = demo_pipeline\<lparr>pl_env := (\<lambda>n w. (if n = 1 then Some (Lost_Reply RedisError) else None, w))\<rparr>"

lemma demo_holds: "holds_entry mem_ent demo_task demo_queue"
  by (simp add: holds_entry_def demo_task_def demo_queue_eq mem_ent_def mem_find_def str_nat_one STREAMS_def
      LEAD_STREAM_def STREAM_def)

theorem recovery_never_strands_witness:
  "queued (mem_ent (fl_queue (snd (recover demo_settings faulty_pipeline mem_ops demo_task demo_fleet)))) (''j'', 0)
   \<or> cur ''j'' 0 (fl_pages (snd (recover demo_settings faulty_pipeline mem_ops demo_task demo_fleet)))
       \<in> Some ` {DONE, FALLBACK_DONE, FAILED}"
proof -
  have "pl_alone faulty_pipeline" by (simp add: pl_alone_def faulty_pipeline_def demo_pipeline_def)
  from recovery_never_strands [OF mem.stream_server_axioms this, where w = demo_fleet and t = demo_task,
      OF _ _ _ prod.collapse [symmetric]]
  show ?thesis
    using demo_queue_ok demo_holds demo_cur by (fastforce simp: demo_fleet_def demo_task_def not_stranded_def)
qed

end
