(* ===== verification/Worker.thy ===== *)
theory Worker
  imports Reaper
begin

text \<open>
  The worker process, \<^verbatim>\<open>src/app/worker/main.py\<close>: what is done with one delivered task on every outcome
  of the pipeline, the crash handler, the accounting of held entries and reserved slots, the
  budgets of the dispatch loop and its start, the sweep of abandoned documents and the
  maintenance task.
\<close>

section \<open>Documents\<close>

record 's worker =
  wk_settings :: settings
  wk_pipeline :: pipeline
  wk_ops :: "'s stream_ops"
  wk_pdf :: pdf_lib

definition remove_document :: "settings \<Rightarrow> string \<Rightarrow> ('s fleet, bool) io" where
  "remove_document se job = (\<lambda>w.
     let (found, d) = delete_document (se_data_dir se) job (fl_disk w) in (Inr found, w\<lparr>fl_disk := d\<rparr>))"

definition read_page :: "'s worker \<Rightarrow> page_task \<Rightarrow> path \<Rightarrow> disk \<Rightarrow> exc + page_content" where
  "read_page wk task document =
     extract_page (wk_pdf wk) document (pt_page_index task) (se_pdf_text_sample_chars (wk_settings wk))"

definition resolve_page :: "'s worker \<Rightarrow> page_task \<Rightarrow> ('s fleet, string option \<times> json option) io" where
  "resolve_page wk task = (\<lambda>w.
     case pdf_path (se_data_dir (wk_settings wk)) (pt_job_id task) of
       Inl _ \<Rightarrow> (Inr (None, None), w)
     | Inr document \<Rightarrow>
         if fl_disk w document = None then (Inr (None, None), w)
         else
           let reference = page_ref (pt_job_id task) (pt_page_index task)
           in case read_page wk task document (fl_disk w) of
                Inr content \<Rightarrow> (Inr (Some reference, Some (as_payload content)), w)
              | Inl e \<Rightarrow> if e = InvalidPdf then (Inr (Some reference, None), w) else (Inl e, w))"

definition st_progress :: "pipeline \<Rightarrow> string \<Rightarrow> (pworld, int \<times> int) io" where
  "st_progress pl job = pw_await pl (\<lambda>w. (Inr (progress (pw_now w) job (pw_store w)), w))"

definition maybe_delete_document :: "'s worker \<Rightarrow> string \<Rightarrow> ('s fleet, unit) io" where
  "maybe_delete_document wk job =
     io_bind (on_pages (st_progress (wk_pipeline wk) job)) (\<lambda>(done_n, tot).
       if tot \<noteq> 0 \<and> done_n \<ge> tot then io_seq (remove_document (wk_settings wk) job) (io_ret ()) else io_ret ())"

text \<open>
  The sweep of documents whose job is gone. \<open>listing\<close> is what the directory lists when the sweep
  starts; the clock of the pages gives the time in milliseconds.
\<close>

definition st_get_job :: "pipeline \<Rightarrow> string \<Rightarrow> (pworld, job_hash option) io" where
  "st_get_job pl job = pw_await pl (\<lambda>w. (Inr (get_job (pw_now w) job (pw_store w)), w))"

fun sweep_jobs :: "'s worker \<Rightarrow> string list \<Rightarrow> ('s fleet, nat) io" where
  "sweep_jobs wk [] = io_ret 0"
| "sweep_jobs wk (job # jobs) =
     io_bind (on_pages (st_get_job (wk_pipeline wk) job)) (\<lambda>live.
     io_bind (if live \<noteq> None then io_ret False else remove_document (wk_settings wk) job) (\<lambda>removed.
     io_bind (sweep_jobs wk jobs) (\<lambda>n. io_ret ((if removed then 1 else 0) + n))))"

definition old_documents :: "settings \<Rightarrow> string list option \<Rightarrow> 's fleet \<Rightarrow> string list" where
  "old_documents se listing w = orphan_candidates (se_data_dir se) (se_orphan_sweep_age_s se)
     (of_int (pw_now (fl_pages w)) / 1000) listing (fl_disk w)"

definition sweep_orphan_documents :: "'s worker \<Rightarrow> string list option \<Rightarrow> ('s fleet, nat) io" where
  "sweep_orphan_documents wk listing =
     io_bind (io_gets (old_documents (wk_settings wk) listing)) (sweep_jobs wk)"

section \<open>One delivered task\<close>

definition final_attempt :: "settings \<Rightarrow> real \<Rightarrow> int \<Rightarrow> bool" where
  "final_attempt se age attempt \<longleftrightarrow>
     age \<ge> se_degrade_after_s se \<or> age \<ge> se_page_deadline_s se \<or> attempt + 1 \<ge> effective_max_requeues se"

definition record_outcome :: "Outcome \<Rightarrow> ('s fleet, unit) io" where
  "record_outcome oc = io_modify (\<lambda>w. w\<lparr>fl_outcomes := (fl_outcomes w)(oc := Suc (fl_outcomes w oc))\<rparr>)"

definition page_crashed :: "'s worker \<Rightarrow> page_task \<Rightarrow> bool \<Rightarrow> exc \<Rightarrow> ('s fleet, unit) io" where
  "page_crashed wk task final e =
     (let job = pt_job_id task; page = pt_page_index task; pl = wk_pipeline wk;
          reason = exc_type e @ '': '' @ take 120 (pl_str pl e)
      in if final
         then io_bind (on_pages (force_terminal pl job page reason)) (\<lambda>_.
              io_seq (ack_task (wk_ops wk) task) (maybe_delete_document wk job))
         else io_bind (on_pages (release_claim pl job page)) (\<lambda>_. requeue_task (wk_ops wk) task True))"

text \<open>The pause a slot takes after a saturated page, before it is free again.\<close>

definition saturation_pause :: "settings \<Rightarrow> real \<Rightarrow> real" where
  "saturation_pause se retry_after =
     (let pause_s = min (if retry_after \<noteq> 0 then retry_after else se_saturation_pause_s se) (se_saturation_pause_s se)
      in if pause_s > 0 then pause_s else 0)"

text \<open>What the worker does with the pipeline's result; the value is the time it then sleeps.\<close>

definition settle_result :: "'s worker \<Rightarrow> page_task \<Rightarrow> bool \<Rightarrow> page_result \<Rightarrow> ('s fleet, real) io" where
  "settle_result wk task final result =
     (if pr_outcome result = HANDOFF
      then io_seq (requeue_task (wk_ops wk) task False) (io_seq (record_outcome HANDOFF) (io_ret 0))
      else if pr_outcome result = SATURATED_PAGE \<and> \<not> final
      then io_seq (requeue_task (wk_ops wk) task True)
             (io_seq (record_outcome SATURATED_PAGE)
               (io_ret (saturation_pause (wk_settings wk) (pr_retry_after_s result))))
      else io_seq (ack_task (wk_ops wk) task)
             (io_seq (record_outcome (pr_outcome result))
               (io_seq (maybe_delete_document wk (pt_job_id task)) (io_ret 0))))"

definition handle_page :: "'s worker \<Rightarrow> page_task \<Rightarrow> ('s fleet, real) io" where
  "handle_page wk task =
     io_bind (io_gets (age_s task)) (\<lambda>age.
     let final = final_attempt (wk_settings wk) age (pt_attempt task)
     in io_bind (resolve_page wk task) (\<lambda>(reference, content).
        io_bind
          (io_catch
            (io_bind (on_pages (process_page (wk_pipeline wk) (pt_job_id task) (pt_page_index task)
                        reference content final (se_stage_handoff (wk_settings wk)) (pt_recovered task)))
              (\<lambda>r. io_ret (Some r)))
            (\<lambda>e. if is_Exception e then io_seq (page_crashed wk task final e) (io_ret None) else io_raise e))
          (\<lambda>res. case res of None \<Rightarrow> io_ret 0 | Some result \<Rightarrow> settle_result wk task final result)))"

section \<open>The dispatch loop\<close>

text \<open>
  The state of the loop: how many handlers run, how many of them came through the priority lane,
  and the entries held. One round reads with what is left of the concurrency, part of it
  reserved for the priority lane.
\<close>

record loop_state =
  lp_in_flight :: nat
  lp_lead_in_flight :: int
  lp_held :: "string \<times> entry_id \<Rightarrow> page_task option"

definition lead_reserve :: "settings \<Rightarrow> int" where
  "lead_reserve se = min (se_worker_lead_reserve se) (max 0 (se_worker_concurrency se - 1))"

definition lead_budget :: "settings \<Rightarrow> loop_state \<Rightarrow> int" where
  "lead_budget se lp = max 0 (lead_reserve se - lp_lead_in_flight lp)"

definition main_budget :: "settings \<Rightarrow> loop_state \<Rightarrow> int" where
  "main_budget se lp = max 0 (min (se_worker_prefetch se)
     (se_worker_concurrency se - int (lp_in_flight lp) - lead_budget se lp))"

definition dispatch_read :: "settings \<Rightarrow> 's stream_ops \<Rightarrow> string \<Rightarrow> loop_state \<Rightarrow> ('s, page_task list) io" where
  "dispatch_read se ops consumer lp =
     (let capacity = se_worker_concurrency se - int (lp_in_flight lp)
      in if capacity > 0
         then
           if lead_reserve se = 0
           then read_tasks ops consumer (se_worker_block_ms se) (Some (min (se_worker_prefetch se) capacity)) 0 0 0
           else read_tasks ops consumer (se_worker_block_ms se) None (min (lead_budget se lp) capacity)
                  (main_budget se lp) (se_worker_lead_poll_ms se)
         else io_ret [])"

definition spawn :: "page_task \<Rightarrow> loop_state \<Rightarrow> loop_state" where
  "spawn task lp = lp\<lparr>lp_in_flight := Suc (lp_in_flight lp),
     lp_lead_in_flight := (if pt_stream task = LEAD_STREAM then lp_lead_in_flight lp + 1 else lp_lead_in_flight lp),
     lp_held := (lp_held lp)((pt_stream task, pt_entry_id task) \<mapsto> task)\<rparr>"

text \<open>The \<^verbatim>\<open>finally\<close> block of \<^verbatim>\<open>_handle\<close>, and the collection of finished handlers.\<close>

definition release_task :: "page_task \<Rightarrow> loop_state \<Rightarrow> loop_state" where
  "release_task task lp = lp\<lparr>lp_held := (lp_held lp)((pt_stream task, pt_entry_id task) := None),
     lp_lead_in_flight := (if pt_stream task = LEAD_STREAM then max 0 (lp_lead_in_flight lp - 1) else lp_lead_in_flight lp)\<rparr>"

definition reap :: "nat \<Rightarrow> loop_state \<Rightarrow> loop_state" where
  "reap n lp = lp\<lparr>lp_in_flight := lp_in_flight lp - n\<rparr>"

text \<open>
  Housekeeping. The sweep runs in the idle path when its interval has passed; \<open>now\<close> and \<open>last\<close> are
  readings of the monotonic clock, and the value is the new \<^verbatim>\<open>_last_sweep\<close>. The maintenance task
  renews the leases of the held entries in every round and scans for orphans when that interval
  has passed; its value is the new \<^verbatim>\<open>last_scan\<close>. The worker is modelled without metrics.
\<close>

definition swallow :: "('w, 'a) io \<Rightarrow> ('w, unit) io" where
  "swallow m = io_catch (io_seq m (io_ret ())) (\<lambda>e. if is_Exception e then io_ret () else io_raise e)"

definition sweep_round :: "'s worker \<Rightarrow> string list option \<Rightarrow> real \<Rightarrow> real \<Rightarrow> ('s fleet, real) io" where
  "sweep_round wk listing now last_sweep =
     (if now - last_sweep \<ge> se_orphan_sweep_interval_s (wk_settings wk)
      then io_seq (swallow (sweep_orphan_documents wk listing)) (io_ret now)
      else io_ret last_sweep)"

definition maintenance_round :: "'s worker \<Rightarrow> string \<Rightarrow> page_task list \<Rightarrow> real \<Rightarrow> real \<Rightarrow> ('s fleet, real) io" where
  "maintenance_round wk consumer held now last_scan =
     io_seq (swallow (renew (wk_ops wk) consumer held))
       (if \<not> se_reaper_enabled (wk_settings wk) then io_ret last_scan
        else if now - last_scan < se_reaper_interval_s (wk_settings wk) then io_ret last_scan
        else io_seq (swallow (scan (wk_settings wk) (wk_pipeline wk) (wk_ops wk) consumer)) (io_ret now))"

text \<open>The loop of \<^verbatim>\<open>run\<close> starts with what this consumer already holds.\<close>

definition resume :: "settings \<Rightarrow> 's stream_ops \<Rightarrow> string \<Rightarrow> loop_state \<Rightarrow> ('s, loop_state) io" where
  "resume se ops consumer lp =
     io_seq (ensure_group ops)
       (io_bind (read_own_pending ops consumer (se_worker_concurrency se)) (\<lambda>tasks. io_ret (fold spawn tasks lp)))"

section \<open>No delivered page is dropped\<close>

lemma quiet_alone: "pl_quiet pl \<Longrightarrow> pl_alone pl"
  by (simp add: pl_quiet_def pl_alone_def)

lemma mortal_alone: "pl_mortal pl \<Longrightarrow> pl_alone pl"
  by (simp add: pl_mortal_def pl_alone_def)

lemma wp_outcome: "wp (record_outcome oc) Q w
    \<longleftrightarrow> Q (Inr ()) (w\<lparr>fl_outcomes := (fl_outcomes w)(oc := Suc (fl_outcomes w oc))\<rparr>)"
  by (simp add: wp_def record_outcome_def io_simps)

text \<open>The PDF reader raises something other than \<^verbatim>\<open>InvalidPdf\<close> on the page's document.\<close>

definition reader_raises :: "'s worker \<Rightarrow> page_task \<Rightarrow> exc \<Rightarrow> disk \<Rightarrow> bool" where
  "reader_raises wk t e d \<longleftrightarrow> e \<noteq> InvalidPdf \<and>
     (\<exists>p. pdf_path (se_data_dir (wk_settings wk)) (pt_job_id t) = Inr p \<and> d p \<noteq> None \<and> read_page wk t p d = Inl e)"

lemma resolve_cases:
  assumes "\<And>rf ct. Q (Inr (rf, ct)) w"
    and "\<And>e. reader_raises wk t e (fl_disk w) \<Longrightarrow> Q (Inl e) w"
  shows "wp (resolve_page wk t) Q w"
  using assms by (auto simp: wp_def resolve_page_def reader_raises_def Let_def split: sum.split)

lemma progress_keeps:
  assumes "pl_alone pl"
  shows "wp (st_progress pl job) (\<lambda>r w'. cur job' i' w' = cur job' i' w) w"
proof -
  obtain fo where "pl_env pl (pw_tick w) w = (fo, w)"
    using assms by (metis pl_alone_def prod.collapse)
  then show ?thesis
    by (auto simp: wp_def st_progress_def pw_await_def Let_def cur_def split: option.split fault.split)
qed

lemma wp_remove [wp_simps]: "wp (remove_document se job) Q w \<longleftrightarrow>
    Q (Inr (fst (delete_document (se_data_dir se) job (fl_disk w))))
      (w\<lparr>fl_disk := snd (delete_document (se_data_dir se) job (fl_disk w))\<rparr>)"
  by (simp add: wp_def remove_document_def case_prod_beta Let_def)

lemma delete_keeps:
  assumes "pl_alone (wk_pipeline wk)"
    and "\<And>r w'. cur job' i' (fl_pages w') = cur job' i' (fl_pages w) \<Longrightarrow> fl_queue w' = fl_queue w \<Longrightarrow> Q r w'"
  shows "wp (maybe_delete_document wk job) Q w"
  unfolding maybe_delete_document_def wp_bind wp_pages
  by (rule wp_mono [OF progress_keeps [OF assms(1), where job' = job' and i' = i']])
     (auto simp: wp_simps intro!: assms(2) split: sum.split)

context stream_server
begin

lemma requeue_safe:
  assumes "ok (fl_queue w)" and "holds_entry ent t (fl_queue w)"
    and "cur (pt_job_id t) (pt_page_index t) (fl_pages w) = Some c" and "c \<notin> set RUNNING_STATES"
    and "\<And>r w'. not_stranded ent t w' \<Longrightarrow> Q r w'"
  shows "wp (requeue_task ops t b) Q w"
  by (rule f_requeue [OF assms(1,2)], rule assms(5), rule ns_free [OF _ _ assms(4)]) (simp_all add: assms(3))

lemma ack_terminal_safe:
  assumes "cur (pt_job_id t) (pt_page_index t) (fl_pages w) = Some s" and "s \<in> set TERMINAL_STATES"
    and "\<And>r w'. not_stranded ent t w' \<Longrightarrow> cur (pt_job_id t) (pt_page_index t) (fl_pages w') = Some s \<Longrightarrow> Q r w'"
  shows "wp (ack_task ops t) Q w"
  by (rule f_ack, rule assms(3)) (use assms(1,2) in \<open>auto intro: ns_terminal\<close>)

lemma crash_safe:
  assumes "wk_ops wk = ops" and "pl_alone (wk_pipeline wk)"
    and "ok (fl_queue w)" and "holds_entry ent t (fl_queue w)"
    and "cur (pt_job_id t) (pt_page_index t) (fl_pages w) = Some c"
  shows "wp (page_crashed wk t final e) (\<lambda>_. not_stranded ent t) w"
proof -
  have q: "not_stranded ent t (w\<lparr>fl_pages := p\<rparr>)" for p by (rule ns_held) (simp add: assms(4))
  have tm: "wp (io_seq (ack_task ops t) (maybe_delete_document wk (pt_job_id t))) (\<lambda>_. not_stranded ent t) v"
    if "cur (pt_job_id t) (pt_page_index t) (fl_pages v) = Some (forced c)" for v
    unfolding wp_seq
    apply (rule ack_terminal_safe [OF that])
    subgoal by (cases c) auto
    subgoal for r w'
      by (cases r; simp)
         (rule delete_keeps [OF assms(2), of "pt_job_id t" "pt_page_index t"], erule ns_same, simp_all)
    done
  have free: "(case RECLAIM_TARGET c of None \<Rightarrow> c | Some s \<Rightarrow> s) \<notin> set RUNNING_STATES" by (cases c) auto
  show ?thesis
  proof (cases final)
    case True
    then show ?thesis
      unfolding page_crashed_def Let_def if_P [OF True] assms(1)
      by (intro f_bind_pages [OF a_force_terminal [OF assms(2,5)]] tm q) simp
  next
    case False
    then show ?thesis
      unfolding page_crashed_def Let_def if_not_P [OF False] assms(1)
      by (intro f_bind_pages [OF a_release [OF assms(2,5)]] requeue_safe [OF _ _ _ free] q) (simp_all add: assms(3,4))
  qed
qed

lemma settle_safe:
  assumes "wk_ops wk = ops" and "pl_alone (wk_pipeline wk)"
    and "ok (fl_queue w)" and "holds_entry ent t (fl_queue w)"
    and "outcome_fits final ho (pr_outcome res) (cur (pt_job_id t) (pt_page_index t) (fl_pages w))"
    and "pr_outcome res \<noteq> OWNED_BY_OTHER"
  shows "wp (settle_result wk t final res) (\<lambda>_. not_stranded ent t) w"
proof -
  have rq: "wp (io_seq (requeue_task ops t b) (io_seq (record_outcome oc) (io_ret x))) (\<lambda>_. not_stranded ent t) w"
    if "cur (pt_job_id t) (pt_page_index t) (fl_pages w) = Some s" "s \<notin> set RUNNING_STATES" for b oc x s
    unfolding wp_seq
    by (rule requeue_safe [OF assms(3,4) that]) (auto simp: wp_simps wp_outcome elim: ns_same split: sum.split)
  have ak: "wp (io_seq (ack_task ops t) (io_seq (record_outcome oc)
      (io_seq (maybe_delete_document wk (pt_job_id t)) (io_ret x)))) (\<lambda>_. not_stranded ent t) w"
    if "cur (pt_job_id t) (pt_page_index t) (fl_pages w) = Some s" "s \<in> set TERMINAL_STATES" for s oc x
    unfolding wp_seq wp_outcome
    apply (rule ack_terminal_safe [OF that])
    subgoal for r w'
      by (cases r; simp)
         (rule delete_keeps [OF assms(2), of "pt_job_id t" "pt_page_index t"],
          auto simp: wp_simps elim: ns_same split: sum.split)
    done
  show ?thesis
    using assms(5,6) unfolding settle_result_def assms(1)
    by (cases "pr_outcome res") (auto intro: rq ak)
qed

lemma handle_safe:
  assumes "wk_ops wk = ops" and "pl_mortal (wk_pipeline wk)"
    and "ok (fl_queue w)" and "holds_entry ent t (fl_queue w)"
    and "cur (pt_job_id t) (pt_page_index t) (fl_pages w) = Some c" and "c \<in> set RUNNING_STATES \<longrightarrow> pt_recovered t"
  shows "wp (handle_page wk t) (\<lambda>_. not_stranded ent t) w"
proof -
  let ?fa = "final_attempt (wk_settings wk) (age_s t w) (pt_attempt t)"
  let ?ho = "se_stage_handoff (wk_settings wk)"
  have q: "not_stranded ent t (w\<lparr>fl_pages := p\<rparr>)" for p by (rule ns_held) (simp add: assms(4))
  have fin: "wp (settle_result wk t ?fa res) (\<lambda>_. not_stranded ent t) (w\<lparr>fl_pages := p\<rparr>)"
    if "page_post (pt_job_id t) (pt_page_index t) ?fa ?ho (pt_recovered t) (Some c) (Inr res) p" for res p
    by (rule settle_safe [OF assms(1) mortal_alone [OF assms(2)], where ho = ?ho])
       (use that assms(3,4,6) in \<open>auto simp: page_post_def\<close>)
  have "wp (io_bind (io_catch
            (io_bind (on_pages (process_page (wk_pipeline wk) (pt_job_id t) (pt_page_index t) rf ct ?fa ?ho (pt_recovered t)))
              (\<lambda>r. io_ret (Some r)))
            (\<lambda>e. if is_Exception e then io_seq (page_crashed wk t ?fa e) (io_ret None) else io_raise e))
          (\<lambda>res. case res of None \<Rightarrow> io_ret 0 | Some result \<Rightarrow> settle_result wk t ?fa result)) (\<lambda>_. not_stranded ent t) w"
    for rf ct
    unfolding wp_bind wp_catch wp_pages
    apply (rule wp_mono [OF m_process_page [OF assms(2)]])
    subgoal for r p
      using fin q by (cases r) (auto simp: wp_simps assms(5) not_exception page_post_def [of _ _ _ _ _ _ "Inl e" for e])
    done
  then show ?thesis
    unfolding handle_page_def wp_bind [of "io_gets f" for f] wp_gets sum.case Let_def wp_bind [of "resolve_page wk t"]
    by (intro resolve_cases) (use q [of "fl_pages w"] in \<open>auto split: sum.split\<close>)
qed

end


definition demo_worker :: "mem_server worker" where
  "demo_worker = \<lparr>wk_settings = demo_settings, wk_pipeline = busy_vlm, wk_ops = mem_ops,
     wk_pdf = junk_lib (Inr ''abcdef'')\<rparr>"

lemma busy_quiet: "pl_quiet busy_vlm"
  by (simp add: busy_vlm_def pl_quiet_def demo_pipeline_def)

lemma demo_fleet_cur: "cur ''j'' 0 (fl_pages demo_fleet) = Some PENDING"
  using demo_cur by (simp add: demo_fleet_def)


text \<open>
  The crash handler does not lose the page it failed on: whatever state the crash left the page
  in, and with any further call to the page store or the queue failing, afterwards the page is
  terminal or queued.
\<close>

theorem crash_handler_never_strands:
  assumes "stream_server (wk_ops wk) ok ent owner idle" and "pl_alone (wk_pipeline wk)"
    and "ok (fl_queue w)" and "holds_entry ent t (fl_queue w)"
    and "cur (pt_job_id t) (pt_page_index t) (fl_pages w) = Some c"
    and "page_crashed wk t final e w = (res, w')"
  shows "not_stranded ent t w'"
  using wpD [OF stream_server.crash_safe [OF assms(1) refl assms(2-5)] assms(6)] .

theorem crash_handler_never_strands_witness:
  "not_stranded mem_ent demo_task (snd (page_crashed demo_worker demo_task True RedisError demo_fleet))"
  by (rule crash_handler_never_strands [OF _ _ _ _ _ prod.collapse [symmetric], where ok = mem_ok
        and owner = mem_owner and idle = mem_idle_of and c = PENDING])
     (use mem.stream_server_axioms quiet_alone [OF busy_quiet] demo_queue_ok demo_holds demo_fleet_cur
      in \<open>simp_all add: demo_worker_def demo_fleet_def demo_task_def\<close>)

section \<open>The last delivery\<close>

text \<open>Queue commands do not change pages, so what becomes of a page does not depend on them.\<close>

lemma settle_pages:
  assumes "pl_alone (wk_pipeline wk)" and "cur job i (fl_pages w) = st"
  shows "wp (settle_result wk t final res) (\<lambda>_ w'. cur job i (fl_pages w') = st) w"
proof -
  have rq: "wp (requeue_task ops t b) Q v" if "\<And>r q. Q r (v\<lparr>fl_queue := q\<rparr>)" for ops :: "'a stream_ops" and b Q v
    using that by (simp add: wp_def requeue_task_def on_queue_def io_simps case_prod_beta split: sum.split)
  show ?thesis
    unfolding settle_result_def
    by (auto simp: wp_seq wp_outcome wp_ret assms(2) split: sum.split
        intro!: rq f_ack delete_keeps [OF assms(1), of job i])
qed

lemma handle_final:
  assumes "pl_quiet (wk_pipeline wk)" and "cur (pt_job_id t) (pt_page_index t) (fl_pages w) = Some c"
    and "c \<in> set RUNNING_STATES \<longrightarrow> pt_recovered t"
    and "final_attempt (wk_settings wk) (age_s t w) (pt_attempt t)"
    and "se_stage_handoff (wk_settings wk) \<longrightarrow> c \<notin> {PENDING, LAYOUT_RUNNING}"
  shows "wp (handle_page wk t) (\<lambda>r w'.
      (\<exists>s \<in> set TERMINAL_STATES. cur (pt_job_id t) (pt_page_index t) (fl_pages w') = Some s)
      \<or> (\<exists>e. r = Inl e \<and> (is_Exception e \<longrightarrow> reader_raises wk t e (fl_disk w)))) w"
  (is "wp _ ?Q w")
proof -
  let ?ho = "se_stage_handoff (wk_settings wk)"
  have fin: "wp (settle_result wk t True res) ?Q (w\<lparr>fl_pages := p\<rparr>)"
    if "page_post (pt_job_id t) (pt_page_index t) True ?ho (pt_recovered t) (Some c) (Inr res) p" for res p
  proof -
    have "\<exists>s \<in> set TERMINAL_STATES. cur (pt_job_id t) (pt_page_index t) p = Some s"
      using that assms(3,5) by (cases "pr_outcome res") (auto simp: page_post_def)
    then obtain s where "s \<in> set TERMINAL_STATES" "cur (pt_job_id t) (pt_page_index t) p = Some s" by blast
    then show ?thesis
      by (intro wp_mono [OF settle_pages [OF quiet_alone [OF assms(1)], where job = "pt_job_id t" and i = "pt_page_index t"]]) auto
  qed
  have run: "wp (io_bind (io_catch
            (io_bind (on_pages (process_page (wk_pipeline wk) (pt_job_id t) (pt_page_index t) rf ct True ?ho (pt_recovered t)))
              (\<lambda>r. io_ret (Some r)))
            (\<lambda>e. if is_Exception e then io_seq (page_crashed wk t True e) (io_ret None) else io_raise e))
          (\<lambda>res. case res of None \<Rightarrow> io_ret 0 | Some result \<Rightarrow> settle_result wk t True result)) ?Q w"
    for rf ct
    unfolding wp_bind wp_catch wp_pages
    apply (rule wp_mono [OF q_process_page [OF assms(1)]])
    subgoal for r p
      using fin by (cases r) (auto simp: wp_simps assms(2) page_post_def [of _ _ _ _ _ _ "Inl e" for e])
    done
  have "wp (io_bind (resolve_page wk t) (\<lambda>(rf, ct). io_bind (io_catch
            (io_bind (on_pages (process_page (wk_pipeline wk) (pt_job_id t) (pt_page_index t) rf ct True ?ho (pt_recovered t)))
              (\<lambda>r. io_ret (Some r)))
            (\<lambda>e. if is_Exception e then io_seq (page_crashed wk t True e) (io_ret None) else io_raise e))
          (\<lambda>res. case res of None \<Rightarrow> io_ret 0 | Some result \<Rightarrow> settle_result wk t True result))) ?Q w"
    unfolding wp_bind [of "resolve_page wk t"]
    by (rule resolve_cases) (simp_all only: sum.case prod.case run, blast)
  with assms(4) show ?thesis
    by (simp add: handle_page_def wp_bind [of "io_gets f" for f] wp_gets)
qed


definition spent_task :: page_task where
  "spent_task = demo_task\<lparr>pt_attempt := 400\<rparr>"

definition resumed_fleet :: "mem_server fleet" where
  "resumed_fleet = demo_fleet\<lparr>fl_pages := handed_off\<rparr>"


text \<open>
  The reaper and the worker do not decide alike when a page has had its time: a page between
  \<^verbatim>\<open>degrade_after_s\<close> and \<^verbatim>\<open>page_deadline_s\<close> is out of budget for the worker and not for the reaper.
\<close>

lemma budgets_differ:
  assumes "se_degrade_after_s se \<le> age" and "age < se_page_deadline_s se" and "attempt + 1 < effective_max_requeues se"
  shows "final_attempt se age attempt \<and> \<not> reaper_exhausted se age attempt"
  using assms by (simp add: final_attempt_def reaper_exhausted_def)

lemma exhausted_is_final: "reaper_exhausted se age attempt \<Longrightarrow> final_attempt se age attempt"
  by (auto simp: reaper_exhausted_def final_attempt_def)

section \<open>Concurrency\<close>

context stream_server
begin

lemma main_read_any:
  assumes "ok s" and "0 < m"
    and "io_bind (xreadgroup ops c [(STREAM, NEW_MESSAGES)] m None) (\<lambda>main.
            if lead \<noteq> [] \<or> main \<noteq> [] \<or> block_ms = 0 then io_ret (lead @ main)
            else xreadgroup ops c [(LEAD_STREAM, NEW_MESSAGES), (STREAM, NEW_MESSAGES)]
                   (max 1 (m div 2)) (Some block_ms)) s = (Inr response, s')"
  shows "taken response \<le> max (taken lead + m) 2 \<and> ok s'"
proof (cases "lead = [] \<longrightarrow> 2 \<le> m")
  case True
  then show ?thesis using main_read_bound [OF assms(1,2) _ assms(3)] by auto
next
  case False
  then have m: "m = 1" "lead = []" using assms(2) by auto
  obtain main s1 where 1: "xreadgroup ops c [(STREAM, NEW_MESSAGES)] m None s = (Inr main, s1)"
    using assms(3) by (auto simp: io_bind_apply split: prod.splits sum.splits)
  have s1: "ok s1" by (rule xreadgroup_ok [OF assms(1) 1])
  have "taken main \<le> 1" using read_taken [OF assms(1) _ _ 1] m by simp
  moreover have "taken response \<le> 2 \<and> ok s'"
    if "xreadgroup ops c [(LEAD_STREAM, NEW_MESSAGES), (STREAM, NEW_MESSAGES)] 1 (Some block_ms) s1 = (Inr response, s')"
    using read_taken [OF s1 lanes_distinct _ that] xreadgroup_ok [OF s1 that] by simp
  ultimately show ?thesis
    using assms(3) 1 m s1 by (auto simp: io_simps split: if_splits)
qed

text \<open>A read with any budgets, as long as one of them is positive.\<close>

lemma read_lanes_any:
  assumes "ok s" and "0 \<le> lc" and "0 < lc \<or> 0 < mc" and "0 \<le> mc"
    and "read_lanes ops c lc mc block_ms cap lead_block_ms s = (Inr response, s')"
    and "\<And>n. cap = Some n \<Longrightarrow> lc = n \<and> mc = n"
  shows "taken response \<le> max (case cap of None \<Rightarrow> lc + mc | Some n \<Rightarrow> n) 2 \<and>
     (0 < lc \<and> cap = None \<longrightarrow> taken response \<le> lc + mc) \<and> ok s'"
proof -
  obtain lead s1 where 1: "(if lc > 0 then xreadgroup ops c [(LEAD_STREAM, NEW_MESSAGES)] lc None else io_ret []) s = (Inr lead, s1)"
    using assms(5) by (auto simp: read_lanes_def io_bind_apply split: prod.splits sum.splits)
  have l: "taken lead \<le> lc" and s1: "ok s1"
    using 1 read_taken [OF assms(1), of "[(LEAD_STREAM, NEW_MESSAGES)]" lc c None lead s1] xreadgroup_ok [OF assms(1)] assms(1,2)
    by (auto simp: io_simps split: if_splits)
  define m where "m = (case cap of None \<Rightarrow> mc | Some n \<Rightarrow> min mc (n - taken lead))"
  have rest: "(if m \<le> 0
        then if lead \<noteq> [] \<or> lead_block_ms = 0 then io_ret lead
             else xreadgroup ops c [(LEAD_STREAM, NEW_MESSAGES)] lc (Some lead_block_ms)
        else
          io_bind (xreadgroup ops c [(STREAM, NEW_MESSAGES)] m None) (\<lambda>main.
            if lead \<noteq> [] \<or> main \<noteq> [] \<or> block_ms = 0 then io_ret (lead @ main)
            else xreadgroup ops c [(LEAD_STREAM, NEW_MESSAGES), (STREAM, NEW_MESSAGES)]
                   (max 1 (m div 2)) (Some block_ms))) s1 = (Inr response, s')"
    using assms(5)
    unfolding read_lanes_def 1
      io_bind_apply [of "if 0 < lc then xreadgroup ops c [(LEAD_STREAM, NEW_MESSAGES)] lc None else io_ret []"]
    by (simp only: prod.case sum.case Let_def m_def)
  have lm: "taken lead + max m 0 \<le> (case cap of None \<Rightarrow> lc + mc | Some n \<Rightarrow> n)"
  proof (cases cap)
    case (Some n)
    then show ?thesis using l assms(6) [OF Some] taken_nonneg [of lead] by (simp add: m_def)
  qed (use l assms(4) in \<open>simp add: m_def\<close>)
  have le: "lc \<le> (case cap of None \<Rightarrow> lc + mc | Some n \<Rightarrow> n)"
  proof (cases cap)
    case (Some n)
    then show ?thesis using assms(6) [OF Some] by simp
  qed (use assms(4) in simp)
  show ?thesis
  proof (cases "m \<le> 0")
    case True
    show ?thesis
    proof (cases "lead \<noteq> [] \<or> lead_block_ms = 0")
      case False
      with True rest have r: "xreadgroup ops c [(LEAD_STREAM, NEW_MESSAGES)] lc (Some lead_block_ms) s1 = (Inr response, s')"
        by simp
      have "0 < lc"
      proof (cases cap)
        case (Some n)
        then show ?thesis using True False assms(3) assms(6) [OF Some] by (simp add: m_def)
      qed (use True assms(3) in \<open>simp add: m_def\<close>)
      then have "taken response \<le> lc" using read_taken [OF s1 _ _ r] by simp
      then show ?thesis using le xreadgroup_ok [OF s1 r] assms(4) by auto
    qed (use True rest s1 lm le l assms(4) in \<open>auto simp: io_ret_apply\<close>)
  next
    case False
    have "taken response \<le> max (taken lead + m) 2 \<and> ok s'"
      by (rule main_read_any [OF s1]) (use False rest in auto)
    moreover have "2 \<le> lc + mc" if "0 < lc" "cap = None" using that False by (simp add: m_def)
    ultimately show ?thesis using lm False by auto
  qed
qed

lemma read_tasks_any:
  assumes "ok s" and "cap = None \<longrightarrow> 0 \<le> lc \<and> 0 \<le> mc \<and> (0 < lc \<or> 0 < mc)" and "\<And>n. cap = Some n \<Longrightarrow> 0 < n"
    and "read_tasks ops c block_ms cap lc mc lead_block_ms s = (Inr tasks, s')"
  shows "int (length tasks) \<le> max (case cap of None \<Rightarrow> lc + mc | Some n \<Rightarrow> n) 2 \<and>
     (0 < lc \<and> cap = None \<longrightarrow> int (length tasks) \<le> lc + mc)"
proof -
  let ?l = "case cap of Some n \<Rightarrow> n | None \<Rightarrow> lc" and ?m = "case cap of Some n \<Rightarrow> n | None \<Rightarrow> mc"
  obtain r s1 where 1: "read_lanes ops c ?l ?m block_ms cap lead_block_ms s = (r, s1)" by fastforce
  have pos: "0 \<le> ?l" "0 < ?l \<or> 0 < ?m" "0 \<le> ?m" "\<And>n. cap = Some n \<Longrightarrow> ?l = n \<and> ?m = n"
    using assms(2,3) by (cases cap; force)+
  show ?thesis
  proof (cases r)
    case (Inr response)
    have b: "taken response \<le> max (case cap of None \<Rightarrow> ?l + ?m | Some n \<Rightarrow> n) 2 \<and>
        (0 < ?l \<and> cap = None \<longrightarrow> taken response \<le> ?l + ?m) \<and> ok s1"
      by (rule read_lanes_any [OF assms(1) pos(1-3) 1 [unfolded Inr] pos(4)])
    have "flatten ops response s1 = (Inr tasks, s')"
      using assms(4) 1 Inr by (simp add: read_tasks_def)
    from flatten_effect [OF _ this] b have "int (length tasks) \<le> taken response"
      using length_parsed_rows [of "reply_rows response"] length_reply_rows [of response] by simp
    then show ?thesis using b by (cases cap) auto
  next
    case (Inl e)
    then have "tasks = []"
      using assms(4) 1 by (cases e) (auto simp: read_tasks_def io_simps split: if_splits prod.splits sum.splits)
    then show ?thesis using assms(2) by (cases cap) auto
  qed
qed

lemma dispatch_bound:
  assumes "ok s" and "0 < se_worker_prefetch se" and "0 \<le> se_worker_lead_reserve se"
    and "int (lp_in_flight lp) \<le> se_worker_concurrency se"
    and "dispatch_read se ops consumer lp s = (Inr tasks, s')"
    and "capacity = se_worker_concurrency se - int (lp_in_flight lp)"
  shows "int (length tasks) \<le> capacity \<or>
     int (length tasks) = 2 \<and> min (se_worker_prefetch se) capacity = 1 \<and> (lead_reserve se = 0 \<or> lead_budget se lp = 0)"
proof (cases "capacity > 0")
  case False
  then show ?thesis using assms(4-6) by (simp add: dispatch_read_def Let_def io_ret_apply)
next
  case cap: True
  show ?thesis
  proof (cases "lead_reserve se = 0")
    case True
    then have "read_tasks ops consumer (se_worker_block_ms se) (Some (min (se_worker_prefetch se) capacity)) 0 0 0 s = (Inr tasks, s')"
      using assms(5) cap by (simp add: dispatch_read_def Let_def assms(6))
    from read_tasks_any [OF assms(1) _ _ this] cap assms(2) True show ?thesis by auto
  next
    case False
    let ?l = "min (lead_budget se lp) capacity" and ?m = "main_budget se lp"
    have rd: "read_tasks ops consumer (se_worker_block_ms se) None ?l ?m (se_worker_lead_poll_ms se) s = (Inr tasks, s')"
      using assms(5) cap False by (simp add: dispatch_read_def Let_def assms(6))
    have m: "?m = max 0 (min (se_worker_prefetch se) (capacity - lead_budget se lp))"
      by (simp add: main_budget_def assms(6))
    have l: "0 \<le> lead_budget se lp" by (simp add: lead_budget_def)
    have sum: "?l + ?m \<le> capacity" using m l cap by auto
    have "0 \<le> ?l \<and> 0 \<le> ?m \<and> (0 < ?l \<or> 0 < ?m)" using m l cap assms(2) by auto
    from read_tasks_any [OF assms(1) _ _ rd] this
    have "int (length tasks) \<le> max (?l + ?m) 2" "0 < ?l \<Longrightarrow> int (length tasks) \<le> ?l + ?m" by auto
    then show ?thesis using sum m l cap assms(2) by (cases "lead_budget se lp = 0") auto
  qed
qed

text \<open>At the start no more than the concurrency is resumed, over both lanes together.\<close>

lemma own_pending_bound:
  assumes "ok s" and "0 < n" and "read_own_pending ops consumer n s = (Inr tasks, s')"
  shows "int (length tasks) \<le> n"
proof -
  obtain lead s1 where 1: "xreadgroup ops consumer [(LEAD_STREAM, OWN_PENDING)] n None s = (Inr lead, s1)"
    using assms(3) by (auto simp: read_own_pending_def io_bind_apply split: prod.splits sum.splits)
  obtain main s2 where 2: "(if taken lead < n then xreadgroup ops consumer [(STREAM, OWN_PENDING)] (n - taken lead) None
      else io_ret []) s1 = (Inr main, s2)"
    using assms(3) 1 by (auto simp: read_own_pending_def io_bind_apply split: prod.splits sum.splits)
  obtain ts where 3: "flatten ops (lead @ main) s2 = (Inr ts, s')" "length tasks = length ts"
    using assms(3) 1 2 by (auto simp: read_own_pending_def io_bind_apply io_ret_apply split: prod.splits sum.splits)
  have s1: "ok s1" by (rule xreadgroup_ok [OF assms(1) 1])
  have s2: "ok s2" using 2 s1 xreadgroup_ok [OF s1] by (auto simp: io_ret_apply split: if_splits)
  have "taken lead \<le> n" using read_taken [OF assms(1) _ assms(2) 1] by simp
  then have "taken (lead @ main) \<le> n"
    using 2 read_taken [OF s1, of "[(STREAM, OWN_PENDING)]" "n - taken lead" consumer None main s2]
    by (auto simp: io_ret_apply split: if_splits)
  moreover have "int (length ts) \<le> taken (lead @ main)"
    using flatten_effect [OF s2 3(1)] length_parsed_rows [of "reply_rows (lead @ main)"] length_reply_rows [of "lead @ main"]
    by simp
  ultimately show ?thesis using 3(2) by simp
qed

end

text \<open>
  The concurrency bound holds up to one task. In a round of the dispatch loop the tasks read fit
  into the free slots, except that two can be read into one free slot: when only one task is
  asked for and no slot is reserved for the priority lane, the blocking read takes one from each.
\<close>

theorem dispatch_within_concurrency:
  assumes "stream_server ops ok ent owner idle" and "ok s"
    and "0 < se_worker_prefetch se" and "0 \<le> se_worker_lead_reserve se"
    and "int (lp_in_flight lp) \<le> se_worker_concurrency se"
    and "dispatch_read se ops consumer lp s = (Inr tasks, s')"
  shows "lp_in_flight (fold spawn tasks lp) \<le> nat (se_worker_concurrency se)
     \<or> lp_in_flight (fold spawn tasks lp) \<le> Suc (nat (se_worker_concurrency se))
       \<and> (lead_reserve se = 0 \<or> lead_budget se lp = 0)
       \<and> min (se_worker_prefetch se) (se_worker_concurrency se - int (lp_in_flight lp)) = 1"
proof -
  have "lp_in_flight (fold spawn ts l) = lp_in_flight l + length ts" for ts l
    by (induction ts arbitrary: l) (simp_all add: spawn_def)
  then show ?thesis
    using stream_server.dispatch_bound [OF assms refl] assms(5) by auto
qed

definition idle_loop :: loop_state where
  "idle_loop = \<lparr>lp_in_flight = 14, lp_lead_in_flight = 4, lp_held = (\<lambda>_. None)\<rparr>"

theorem dispatch_within_concurrency_witness:
  "\<exists>tasks s'. dispatch_read demo_settings mem_ops ''w'' idle_loop demo_queue = (Inr tasks, s')
     \<and> lp_in_flight (fold spawn tasks idle_loop) \<le> 16"
proof -
  let ?r = "dispatch_read demo_settings mem_ops ''w'' idle_loop demo_queue"
  have budget: "lead_reserve demo_settings = 4" "lead_budget demo_settings idle_loop = 0"
      "main_budget demo_settings idle_loop = 2"
    by (simp_all add: lead_reserve_def lead_budget_def main_budget_def demo_settings_def idle_loop_def)
  have "\<exists>ts. fst ?r = Inr ts"
    by (simp add: dispatch_read_def budget read_tasks_def read_lanes_def io_simps mem_ops_def mem_pick_def mem_wanted_def Let_def
        demo_queue_eq mem_update_def mem_deliver_def LEAD_STREAM_def STREAM_def taken_def mem_row_def
        flatten_def reply_rows_def flatten_row_def parse_page_fields)
  then obtain ts s' where r: "?r = (Inr ts, s')" by (metis prod.collapse)
  from dispatch_within_concurrency [OF mem.stream_server_axioms demo_queue_ok _ _ _ this]
  show ?thesis using r by (auto simp: demo_settings_def idle_loop_def lead_reserve_def lead_budget_def)
qed

section \<open>Housekeeping\<close>

text \<open>The jobs that still exist, in the store the pages live in.\<close>

definition job_live :: "string \<Rightarrow> pworld \<Rightarrow> bool" where
  "job_live job w \<longleftrightarrow> get_job (pw_now w) job (pw_store w) \<noteq> None"

lemma get_job_keeps:
  assumes "pl_alone pl"
  shows "wp (st_get_job pl job) (\<lambda>r w'. (\<forall>j. job_live j w' = job_live j w) \<and> (\<forall>v. r = Inr v \<longrightarrow> (v \<noteq> None) = job_live job w)) w"
proof -
  obtain fo where "pl_env pl (pw_tick w) w = (fo, w)"
    using assms by (metis pl_alone_def prod.collapse)
  then show ?thesis
    by (auto simp: wp_def st_get_job_def pw_await_def Let_def job_live_def split: option.split fault.split)
qed

text \<open>What a sweep over \<open>jobs\<close> has done: only documents of vanished jobs on the list go, and all of them when it returns.\<close>

definition swept :: "settings \<Rightarrow> string list \<Rightarrow> 's fleet \<Rightarrow> exc + nat \<Rightarrow> 's fleet \<Rightarrow> bool" where
  "swept se jobs w r w' \<longleftrightarrow>
     (\<forall>j. job_live j (fl_pages w') = job_live j (fl_pages w)) \<and> fl_queue w' = fl_queue w
     \<and> docs_of (se_data_dir se) (fl_disk w') \<subseteq> docs_of (se_data_dir se) (fl_disk w)
     \<and> docs_of (se_data_dir se) (fl_disk w) - docs_of (se_data_dir se) (fl_disk w')
         \<subseteq> {j \<in> set jobs. \<not> job_live j (fl_pages w)}
     \<and> (\<forall>n. r = Inr n \<longrightarrow>
          docs_of (se_data_dir se) (fl_disk w') = docs_of (se_data_dir se) (fl_disk w) - {j \<in> set jobs. \<not> job_live j (fl_pages w)}
          \<and> n = card (docs_of (se_data_dir se) (fl_disk w) \<inter> {j \<in> set jobs. \<not> job_live j (fl_pages w)}))"

lemma swept_skip:
  assumes "job_live job (fl_pages w)" and "\<forall>j. job_live j p = job_live j (fl_pages w)"
    and "swept se jobs (w\<lparr>fl_pages := p\<rparr>) r w'"
  shows "swept se (job # jobs) w r w'"
proof -
  have "{j \<in> set (job # jobs). \<not> job_live j (fl_pages w)} = {j \<in> set jobs. \<not> job_live j (fl_pages w)}"
    using assms(1) by auto
  then show ?thesis using assms(2,3) unfolding swept_def by simp
qed

lemma swept_delete:
  assumes "\<not> job_live job (fl_pages w)" and "\<forall>j. job_live j p = job_live j (fl_pages w)"
    and "delete_document (se_data_dir se) job (fl_disk w) = (found, d)"
    and "swept se jobs (w\<lparr>fl_pages := p, fl_disk := d\<rparr>) r w'"
  shows "swept se (job # jobs) w (map_sum id (\<lambda>n. (if found then 1 else 0) + n) r) w'"
proof -
  define A V where "A = docs_of (se_data_dir se) (fl_disk w)" and "V = {j \<in> set jobs. \<not> job_live j (fl_pages w)}"
  have V: "{j \<in> set (job # jobs). \<not> job_live j (fl_pages w)} = insert job V" using assms(1) by (auto simp: V_def)
  have d: "docs_of (se_data_dir se) d = A - {job}" and f: "found \<longleftrightarrow> job \<in> A"
    using on_disk.del_docs [of "se_data_dir se" job "fl_disk w"] on_disk.del_found [of "se_data_dir se" job "fl_disk w"]
    by (simp_all add: assms(3) A_def)
  have fin: "finite V" by (simp add: V_def)
  have "card (A \<inter> insert job V) = (if found then 1 else 0) + card ((A - {job}) \<inter> V)"
  proof (cases "job \<in> A")
    case True
    then have "A \<inter> insert job V = insert job ((A - {job}) \<inter> V)" by auto
    then show ?thesis using True fin f by simp
  next
    case False
    then have "A \<inter> insert job V = (A - {job}) \<inter> V" by auto
    then show ?thesis using False f by simp
  qed
  moreover have "A - {job} - V = A - insert job V" by auto
  ultimately show ?thesis
    using assms(2,4) unfolding swept_def V A_def [symmetric]
    by (cases r) (auto simp: d V_def [symmetric])
qed

lemma sweep_jobs_swept:
  assumes "pl_alone (wk_pipeline wk)"
  shows "wp (sweep_jobs wk jobs) (swept (wk_settings wk) jobs w) w"
proof (induction jobs arbitrary: w)
  case Nil
  show ?case by (simp add: wp_simps swept_def)
next
  case (Cons job jobs)
  let ?se = "wk_settings wk"
  have live: "wp (io_bind (sweep_jobs wk jobs) (\<lambda>n. io_ret (0 + n))) (swept ?se (job # jobs) w) (w\<lparr>fl_pages := p\<rparr>)"
    if "job_live job (fl_pages w)" "\<forall>j. job_live j p = job_live j (fl_pages w)" for p
    unfolding wp_bind
    by (rule wp_mono [OF Cons]) (auto simp: wp_simps split: sum.split dest: swept_skip [OF that])
  have gone: "wp (io_bind (sweep_jobs wk jobs) (\<lambda>n. io_ret ((if found then 1 else 0) + n))) (swept ?se (job # jobs) w)
        (w\<lparr>fl_pages := p, fl_disk := d\<rparr>)"
    if "\<not> job_live job (fl_pages w)" "\<forall>j. job_live j p = job_live j (fl_pages w)"
      "delete_document (se_data_dir ?se) job (fl_disk w) = (found, d)" for p found d
    unfolding wp_bind
    by (rule wp_mono [OF Cons]) (auto simp: wp_simps split: sum.split dest: swept_delete [OF that])
  show ?case
    unfolding sweep_jobs.simps wp_bind [of "on_pages m" for m] wp_pages
  proof (rule wp_mono [OF get_job_keeps [OF assms]], elim conjE)
    fix r :: "exc + job_hash option" and p
    assume r: "\<forall>j. job_live j p = job_live j (fl_pages w)" "\<forall>v. r = Inr v \<longrightarrow> (v \<noteq> None) = job_live job (fl_pages w)"
    obtain found d where del: "delete_document (se_data_dir ?se) job (fl_disk w) = (found, d)" by fastforce
    show "case r of Inl e \<Rightarrow> swept ?se (job # jobs) w (Inl e) (w\<lparr>fl_pages := p\<rparr>)
      | Inr live \<Rightarrow> wp (io_bind (if live \<noteq> None then io_ret False else remove_document ?se job) (\<lambda>removed.
          io_bind (sweep_jobs wk jobs) (\<lambda>n. io_ret ((if removed then 1 else 0) + n)))) (swept ?se (job # jobs) w) (w\<lparr>fl_pages := p\<rparr>)"
    proof (cases r)
      case (Inl e)
      then show ?thesis using r(1) by (simp add: swept_def)
    next
      case (Inr v)
      then have "(v \<noteq> None) = job_live job (fl_pages w)" using r(2) by simp
      then show ?thesis
        using live [OF _ r(1)] gone [OF _ r(1) del] Inr
        by (cases v) (simp_all add: wp_bind [of "io_ret False"] wp_bind [of "remove_document se j" for se j] wp_ret wp_remove del)
    qed
  qed
qed

lemma in_candidates:
  "job \<in> set (orphan_candidates data_dir min_age_s now (Some names) d) \<longleftrightarrow>
     safe_job_id job \<and> job @ ''.pdf'' \<in> set names \<and> (\<exists>f. d (data_dir @ [job @ ''.pdf'']) = Some f \<and> min_age_s \<le> now - fi_mtime f)"
proof -
  have "name = stem name @ ''.pdf''" if "is_pdf_name name" "safe_job_id (stem name)" for name
  proof -
    have "name \<noteq> ''.pdf''"
      using that(2) by (auto simp: stem_def safe_job_id_def safe_char_def char_between_def is_digit_def)
    then show ?thesis using that(1) append_take_drop_id [of "length name - 4" name] by (simp add: stem_def is_pdf_name_def)
  qed
  moreover have "is_pdf_name (job @ ''.pdf'')" "safe_job_id job \<Longrightarrow> stem (job @ ''.pdf'') = job"
    by (auto simp: is_pdf_name_def stem_def safe_job_id_def)
  ultimately show ?thesis
    by (auto simp: orphan_candidates_def not_less split: option.splits if_splits) (metis (lifting) option.case(2))+
qed

text \<open>
  The sweep removes abandoned documents and nothing else. With any of its calls failing, a
  document that disappears belonged to a job that no longer exists and was older than the
  threshold; and when the sweep returns, every listed document of that kind is gone and the
  number it returns is how many there were.
\<close>

theorem orphan_sweep_exact:
  assumes "pl_alone (wk_pipeline wk)" and "sweep_orphan_documents wk (Some names) w = (r, w')"
    and "abandoned = {j. j @ ''.pdf'' \<in> set names \<and> \<not> job_live j (fl_pages w)
           \<and> (\<exists>p f. pdf_path (se_data_dir (wk_settings wk)) j = Inr p \<and> fl_disk w p = Some f
               \<and> se_orphan_sweep_age_s (wk_settings wk) \<le> of_int (pw_now (fl_pages w)) / 1000 - fi_mtime f)}"
    and "before = docs_of (se_data_dir (wk_settings wk)) (fl_disk w)"
    and "after = docs_of (se_data_dir (wk_settings wk)) (fl_disk w')"
  shows "after \<subseteq> before \<and> before - after \<subseteq> abandoned
    \<and> (\<forall>n. r = Inr n \<longrightarrow> after = before - abandoned \<and> n = card abandoned)"
proof -
  let ?se = "wk_settings wk" and ?js = "old_documents (wk_settings wk) (Some names) w"
  have ab: "{j \<in> set ?js. \<not> job_live j (fl_pages w)} = abandoned"
    unfolding old_documents_def assms(3) by (auto simp: in_candidates pdf_path_eq)
  have "swept ?se ?js w r w'"
    using wpD [OF sweep_jobs_swept [OF assms(1)]] assms(2)
    by (simp add: sweep_orphan_documents_def io_bind_apply io_gets_apply)
  moreover have "before \<inter> abandoned = abandoned" unfolding assms(3,4) docs_of_def by auto
  ultimately show ?thesis unfolding swept_def ab assms(4,5) [symmetric] by auto
qed

definition littered_fleet :: "mem_server fleet" where
  "littered_fleet = demo_fleet\<lparr>fl_disk := [[''/'', ''data'', ''gone.pdf''] \<mapsto> \<lparr>fi_bytes = ''x'', fi_mtime = - 1000\<rparr>,
     [''/'', ''data'', ''j.pdf''] \<mapsto> \<lparr>fi_bytes = ''y'', fi_mtime = - 1000\<rparr>]\<rparr>"

lemma sweep_jobs_returns:
  assumes "pl_quiet (wk_pipeline wk)"
  shows "wp (sweep_jobs wk jobs) (\<lambda>r _. \<exists>n. r = Inr n) w"
proof (induction jobs arbitrary: w)
  case (Cons job jobs)
  have "wp (st_get_job (wk_pipeline wk) job) (\<lambda>r _. \<exists>v. r = Inr v) p" for p
    using assms by (simp add: wp_def st_get_job_def pw_await_def pl_quiet_def)
  note get = wp_mono [OF this]
  show ?case
    unfolding sweep_jobs.simps wp_bind [of "on_pages m" for m] wp_pages
    by (rule get) (auto simp: wp_simps intro!: wp_mono [OF Cons])
qed (simp add: wp_simps)

theorem orphan_sweep_exact_witness:
  "\<exists>r w'. sweep_orphan_documents demo_worker (Some [''gone.pdf'', ''j.pdf'']) littered_fleet = (r, w')
     \<and> ''j'' \<in> docs_of [''/'', ''data''] (fl_disk w') \<and> ''gone'' \<notin> docs_of [''/'', ''data''] (fl_disk w')"
proof -
  let ?w = "littered_fleet" and ?dd = "[''/'', ''data'']"
  obtain r w' where run: "sweep_orphan_documents demo_worker (Some [''gone.pdf'', ''j.pdf'']) ?w = (r, w')" by fastforce
  have pl: "pl_quiet (wk_pipeline demo_worker)" using busy_quiet by (simp add: demo_worker_def)
  obtain n where n: "r = Inr n"
    using wpD [OF sweep_jobs_returns [OF pl]] run
    by (fastforce simp: sweep_orphan_documents_def io_bind_apply io_gets_apply)
  have dd: "se_data_dir (wk_settings demo_worker) = ?dd" by (simp add: demo_worker_def demo_settings_def)
  have safe: "safe_job_id ''gone''" "safe_job_id ''j''"
    by (simp_all add: safe_job_id_def safe_char_def char_between_def is_digit_def)
  have docs: "''j'' \<in> docs_of ?dd (fl_disk ?w)" "''gone'' \<in> docs_of ?dd (fl_disk ?w)"
    using safe by (simp_all add: docs_of_def pdf_path_eq littered_fleet_def)
  have job: "\<not> job_live ''gone'' (fl_pages ?w)" "job_live ''j'' (fl_pages ?w)" by code_simp+
  have now: "900 \<le> of_int (pw_now (fl_pages ?w)) / 1000 - (- 1000 :: real)"
    by (simp add: littered_fleet_def demo_fleet_def demo_pworld_def)
  note sweep = orphan_sweep_exact [OF quiet_alone [OF pl] run refl refl refl, unfolded dd]
  have "''j'' \<in> docs_of ?dd (fl_disk w')" using sweep docs(1) job(2) by blast
  moreover have "''gone'' \<notin> docs_of ?dd (fl_disk w')"
    using sweep docs(2) job(1) n safe(1) now
    by (auto simp: pdf_path_eq littered_fleet_def demo_worker_def demo_settings_def)
  ultimately show ?thesis using run by blast
qed

lemma swallow_outcome: "fst (swallow m w) = Inr () \<or> fst (swallow m w) = Inl CancelledError"
  by (cases "m w") (auto simp: swallow_def io_simps is_Exception_def split: sum.split)

lemma after_swallow: "fst (io_seq (swallow m) (io_ret x) w) = Inr x \<or> fst (io_seq (swallow m) (io_ret x) w) = Inl CancelledError"
  using swallow_outcome [of m w] by (cases "swallow m w") (auto simp: io_simps)

text \<open>
  The maintenance task survives whatever its steps raise. A round ends normally, with the time of
  the last scan advanced exactly when a scan was due, unless the task itself is cancelled; the
  same holds of the sweep in the dispatch loop.
\<close>

theorem maintenance_survives:
  "fst (maintenance_round wk consumer held now last_scan w) \<in>
     {Inr (if se_reaper_enabled (wk_settings wk) \<and> se_reaper_interval_s (wk_settings wk) \<le> now - last_scan
           then now else last_scan), Inl CancelledError}
   \<and> fst (sweep_round wk listing now last_sweep w) \<in>
     {Inr (if se_orphan_sweep_interval_s (wk_settings wk) \<le> now - last_sweep then now else last_sweep), Inl CancelledError}"
proof
  have seq: "fst (io_seq (swallow m) k w) \<in> {Inr x, Inl CancelledError}"
    if "\<And>v. fst (k v) \<in> {Inr x, Inl CancelledError}" for m :: "('a fleet, 'b) io" and k and x :: real
    using swallow_outcome [of m w] that [of "snd (swallow m w)"] by (cases "swallow m w") (auto simp: io_simps)
  show "fst (maintenance_round wk consumer held now last_scan w) \<in>
     {Inr (if se_reaper_enabled (wk_settings wk) \<and> se_reaper_interval_s (wk_settings wk) \<le> now - last_scan
           then now else last_scan), Inl CancelledError}"
    unfolding maintenance_round_def
    by (rule seq) (use after_swallow [where m = "scan (wk_settings wk) (wk_pipeline wk) (wk_ops wk) consumer" and x = now]
      in \<open>auto simp: io_ret_apply\<close>)
  show "fst (sweep_round wk listing now last_sweep w) \<in>
     {Inr (if se_orphan_sweep_interval_s (wk_settings wk) \<le> now - last_sweep then now else last_sweep), Inl CancelledError}"
    unfolding sweep_round_def
    using after_swallow [where m = "sweep_orphan_documents wk listing" and x = now] by (auto simp: io_ret_apply)
qed

end
