(* ===== verification/Worker_Loop.thy ===== *)
theory Worker_Loop
  imports Worker
begin

text \<open>
  The life of a worker process, \<^verbatim>\<open>Worker.run\<close>, \<^verbatim>\<open>Worker.request_stop\<close> and \<^verbatim>\<open>Worker._maintenance\<close> of
  \<^verbatim>\<open>src/app/worker/main.py\<close>: the dispatch loop, the handlers it spawned, the maintenance task and a stop
  signal, interleaved at their awaits. The handlers' work on pages and queue is in \<open>Worker\<close>; here it
  is a change of the queue by somebody else.
\<close>

section \<open>The loop between its awaits\<close>

text \<open>
  Where the main task of the process is: at the loop's condition, in \<^verbatim>\<open>queue.read\<close>, in the idle path
  (the sweep of documents), in \<^verbatim>\<open>asyncio.wait\<close>, behind the loop, or ended by an exception that
  nothing in \<^verbatim>\<open>run\<close> catches.
\<close>

datatype loop_point = At_top | At_read | At_idle | At_wait | Left | Raised exc

text \<open>
  \<open>rn_running\<close> are the handlers that have not ended and \<open>rn_ended\<close> counts the ended ones that
  \<^verbatim>\<open>_reap\<close> has not seen; together they are \<^verbatim>\<open>_in_flight\<close>. \<open>rn_maintained\<close> holds as long as the
  maintenance task lives.
\<close>

record run_state =
  rn_loop :: loop_state
  rn_running :: "page_task list"
  rn_ended :: nat
  rn_stopping :: bool
  rn_at :: loop_point
  rn_maintained :: bool

definition new_loop :: loop_state where
  "new_loop = \<lparr>lp_in_flight = 0, lp_lead_in_flight = 0, lp_held = Map.empty\<rparr>"

text \<open>
  The start of \<^verbatim>\<open>run\<close>: the group is created, then this consumer's own pending entries are resumed; \<open>s\<close>
  and \<open>s'\<close> are the states the two calls find the queue in.
\<close>

definition begin_run :: "settings \<Rightarrow> 's stream_ops \<Rightarrow> string \<Rightarrow> 's \<Rightarrow> 's \<Rightarrow> run_state" where
  "begin_run se ops consumer s s' =
     (let r = \<lparr>rn_loop = new_loop, rn_running = [], rn_ended = 0, rn_stopping = False, rn_at = At_top, rn_maintained = False\<rparr>
      in case fst (ensure_group ops s) of
           Inl e \<Rightarrow> r\<lparr>rn_at := Raised e\<rparr>
         | Inr _ \<Rightarrow>
             (case fst (read_own_pending ops consumer (se_worker_concurrency se) s') of
                Inl e \<Rightarrow> r\<lparr>rn_at := Raised e\<rparr>
              | Inr tasks \<Rightarrow> r\<lparr>rn_loop := fold spawn tasks (rn_loop r), rn_running := tasks, rn_maintained := True\<rparr>))"

definition request_stop :: "run_state \<Rightarrow> run_state" where
  "request_stop r = r\<lparr>rn_stopping := True\<rparr>"

text \<open>A handler ends, on whatever path: its \<^verbatim>\<open>finally\<close> block runs.\<close>

definition handler_ends :: "page_task \<Rightarrow> run_state \<Rightarrow> run_state" where
  "handler_ends task r = r\<lparr>rn_running := remove1 task (rn_running r), rn_ended := Suc (rn_ended r),
     rn_loop := release_task task (rn_loop r)\<rparr>"

definition at_top :: "settings \<Rightarrow> run_state \<Rightarrow> run_state" where
  "at_top se r =
     (if rn_stopping r \<and> lp_in_flight (rn_loop r) = 0 then r\<lparr>rn_at := Left, rn_maintained := False\<rparr>
      else if se_worker_concurrency se - int (lp_in_flight (rn_loop r)) > 0 \<and> \<not> rn_stopping r then r\<lparr>rn_at := At_read\<rparr>
      else r\<lparr>rn_at := At_idle\<rparr>)"

text \<open>
  The read sees the queue in whatever state \<open>s\<close> the others left it. An exception ends the process,
  and the maintenance task and the handlers with it.
\<close>

definition read_returned :: "settings \<Rightarrow> 's stream_ops \<Rightarrow> string \<Rightarrow> 's \<Rightarrow> run_state \<Rightarrow> run_state" where
  "read_returned se ops consumer s r =
     (case fst (dispatch_read se ops consumer (rn_loop r) s) of
        Inl e \<Rightarrow> r\<lparr>rn_at := Raised e, rn_maintained := False\<rparr>
      | Inr tasks \<Rightarrow> r\<lparr>rn_loop := fold spawn tasks (rn_loop r), rn_running := rn_running r @ tasks,
           rn_at := (if tasks \<noteq> [] then At_top else At_idle)\<rparr>)"

text \<open>Behind the sweep; \<open>sweep_round\<close> lets only a cancellation pass, and it touches no queue entry.\<close>

definition sweep_over :: "run_state \<Rightarrow> run_state" where
  "sweep_over r =
     (if lp_in_flight (rn_loop r) > 0 then r\<lparr>rn_at := At_wait\<rparr>
      else if rn_stopping r then r\<lparr>rn_at := Left, rn_maintained := False\<rparr>
      else r\<lparr>rn_at := At_top\<rparr>)"

definition wait_returned :: "run_state \<Rightarrow> run_state" where
  "wait_returned r = r\<lparr>rn_loop := reap (rn_ended r) (rn_loop r), rn_ended := 0, rn_at := At_top\<rparr>"

text \<open>The maintenance task checks its condition after a round; its rounds are \<open>maintenance_round\<close>.\<close>

definition maintenance_check :: "run_state \<Rightarrow> run_state" where
  "maintenance_check r =
     (if rn_stopping r \<and> lp_in_flight (rn_loop r) = 0 then r\<lparr>rn_maintained := False\<rparr> else r)"

text \<open>
  What can happen next: the main task gets on, a handler ends, a signal arrives, the maintenance task
  is through with a round.
\<close>

datatype run_event = Main | Ends page_task | Stop | Maintain

inductive run_step :: "settings \<Rightarrow> 's stream_ops \<Rightarrow> ('s \<Rightarrow> bool) \<Rightarrow> string \<Rightarrow> run_event \<Rightarrow> run_state \<Rightarrow> run_state \<Rightarrow> bool"
  for se ops ok consumer where
  Step_top: "rn_at r = At_top \<Longrightarrow> run_step se ops ok consumer Main r (at_top se r)"
| Step_read: "rn_at r = At_read \<Longrightarrow> ok s \<Longrightarrow> run_step se ops ok consumer Main r (read_returned se ops consumer s r)"
| Step_idle: "rn_at r = At_idle \<Longrightarrow> run_step se ops ok consumer Main r (sweep_over r)"
| Step_wait: "rn_at r = At_wait \<Longrightarrow> 0 < rn_ended r \<Longrightarrow> run_step se ops ok consumer Main r (wait_returned r)"
| Step_ends: "task \<in> set (rn_running r) \<Longrightarrow> run_step se ops ok consumer (Ends task) r (handler_ends task r)"
| Step_stop: "run_step se ops ok consumer Stop r (request_stop r)"
| Step_maintain: "rn_maintained r \<Longrightarrow> run_step se ops ok consumer Maintain r (maintenance_check r)"

inductive runs :: "settings \<Rightarrow> 's stream_ops \<Rightarrow> ('s \<Rightarrow> bool) \<Rightarrow> string \<Rightarrow> run_event list \<Rightarrow> run_state \<Rightarrow> run_state \<Rightarrow> bool"
  for se ops ok consumer where
  Runs_none: "runs se ops ok consumer [] r r"
| Runs_step: "runs se ops ok consumer evs r r' \<Longrightarrow> run_step se ops ok consumer ev r' r'' \<Longrightarrow>
    runs se ops ok consumer (evs @ [ev]) r r''"

text \<open>The same steps as a function, for a queue that the reads find in state \<open>s\<close>.\<close>

fun run_next :: "settings \<Rightarrow> 's stream_ops \<Rightarrow> string \<Rightarrow> 's \<Rightarrow> run_event \<Rightarrow> run_state \<Rightarrow> run_state option" where
  "run_next se ops consumer s Main r =
     (case rn_at r of
        At_top \<Rightarrow> Some (at_top se r)
      | At_read \<Rightarrow> Some (read_returned se ops consumer s r)
      | At_idle \<Rightarrow> Some (sweep_over r)
      | At_wait \<Rightarrow> if 0 < rn_ended r then Some (wait_returned r) else None
      | _ \<Rightarrow> None)"
| "run_next se ops consumer s (Ends task) r = (if task \<in> set (rn_running r) then Some (handler_ends task r) else None)"
| "run_next se ops consumer s Stop r = Some (request_stop r)"
| "run_next se ops consumer s Maintain r = (if rn_maintained r then Some (maintenance_check r) else None)"

fun play :: "settings \<Rightarrow> 's stream_ops \<Rightarrow> string \<Rightarrow> 's \<Rightarrow> run_event list \<Rightarrow> run_state \<Rightarrow> run_state option" where
  "play se ops consumer s [] r = Some r"
| "play se ops consumer s (ev # evs) r = Option.bind (run_next se ops consumer s ev r) (play se ops consumer s evs)"

lemma run_next_step: "ok s \<Longrightarrow> run_next se ops consumer s ev r = Some r' \<Longrightarrow> run_step se ops ok consumer ev r r'"
  by (cases ev) (auto intro: run_step.intros split: loop_point.splits if_splits)

lemma runs_trans: "runs se ops ok consumer evs' r' r'' \<Longrightarrow> runs se ops ok consumer evs r r' \<Longrightarrow> runs se ops ok consumer (evs @ evs') r r''"
proof (induction rule: runs.induct)
  case (Runs_step evs' r' r'' ev r3)
  then show ?case using runs.Runs_step [of se ops ok consumer "evs @ evs'" r r'' ev r3] by simp
qed simp

lemma play_runs: "ok s \<Longrightarrow> play se ops consumer s evs r = Some r' \<Longrightarrow> runs se ops ok consumer evs r r'"
proof (induction evs arbitrary: r)
  case (Cons ev evs)
  then obtain r1 where "run_next se ops consumer s ev r = Some r1" "play se ops consumer s evs r1 = Some r'"
    by (auto simp: bind_eq_Some_conv)
  from Runs_step [OF Runs_none run_next_step [of ok, OF Cons.prems(1) this(1)]] Cons.IH [OF Cons.prems(1) this(2)]
  show ?case using runs_trans by force
qed (simp add: Runs_none)

section \<open>The invariant\<close>

definition is_lead :: "page_task \<Rightarrow> bool" where "is_lead t \<longleftrightarrow> pt_stream t = LEAD_STREAM"

definition entry_key :: "page_task \<Rightarrow> string \<times> entry_id" where "entry_key t = (pt_stream t, pt_entry_id t)"

definition run_ok :: "settings \<Rightarrow> run_state \<Rightarrow> bool" where
  "run_ok se r \<longleftrightarrow>
     lp_in_flight (rn_loop r) = length (rn_running r) + rn_ended r \<and>
     lp_lead_in_flight (rn_loop r) = int (length (filter is_lead (rn_running r))) \<and>
     dom (lp_held (rn_loop r)) \<subseteq> entry_key ` set (rn_running r) \<and>
     int (lp_in_flight (rn_loop r)) \<le> se_worker_concurrency se + 1 \<and>
     (rn_at r = At_read \<longrightarrow> int (lp_in_flight (rn_loop r)) < se_worker_concurrency se) \<and>
     (rn_at r = At_wait \<longrightarrow> 0 < lp_in_flight (rn_loop r)) \<and>
     (rn_at r = Left \<longrightarrow> rn_stopping r \<and> lp_in_flight (rn_loop r) = 0)"

lemma fold_spawn:
  "lp_in_flight (fold spawn ts lp) = lp_in_flight lp + length ts"
  "lp_lead_in_flight (fold spawn ts lp) = lp_lead_in_flight lp + int (length (filter is_lead ts))"
  "dom (lp_held (fold spawn ts lp)) = dom (lp_held lp) \<union> entry_key ` set ts"
  by (induction ts arbitrary: lp) (auto simp: spawn_def is_lead_def entry_key_def)

lemma remove1_shorter: "x \<in> set xs \<Longrightarrow> length xs = Suc (length (remove1 x xs))"
  using length_pos_if_in_set [of x xs] by (simp add: length_remove1)

lemma handler_ends_ok:
  assumes "run_ok se r" "task \<in> set (rn_running r)"
  shows "run_ok se (handler_ends task r)"
proof -
  have "filter is_lead (remove1 task (rn_running r)) = remove1 task (filter is_lead (rn_running r))"
    by (simp add: filter_remove1)
  then have l: "length (filter is_lead (rn_running r)) =
      length (filter is_lead (remove1 task (rn_running r))) + (if is_lead task then 1 else 0)"
    using assms(2) remove1_shorter [of task "filter is_lead (rn_running r)"] by (simp add: remove1_idem)
  have "set (rn_running r) \<subseteq> insert task (set (remove1 task (rn_running r)))" by (metis in_set_remove1 insertCI subsetI)
  moreover have "dom (lp_held (rn_loop r)) \<subseteq> entry_key ` set (rn_running r)" using assms(1) by (simp add: run_ok_def)
  ultimately have "dom (lp_held (rn_loop r)) - {entry_key task} \<subseteq> entry_key ` set (remove1 task (rn_running r))" by blast
  then show ?thesis
    using assms(1) remove1_shorter [OF assms(2)] l by (auto simp: run_ok_def handler_ends_def release_task_def is_lead_def entry_key_def)
qed

context stream_server
begin

text \<open>A read takes at most the free slots and one task more.\<close>

lemma read_tasks_fit:
  assumes "ok s" "0 < se_worker_prefetch se" "0 \<le> se_worker_lead_reserve se" "int (lp_in_flight lp) < se_worker_concurrency se"
    and "fst (dispatch_read se ops consumer lp s) = Inr tasks"
  shows "int (lp_in_flight lp + length tasks) \<le> se_worker_concurrency se + 1"
proof -
  obtain s' where "dispatch_read se ops consumer lp s = (Inr tasks, s')" using assms(5) by (metis prod.collapse)
  from dispatch_bound [OF assms(1-3) _ this refl] assms(4) show ?thesis by auto
qed

lemma read_returned_ok:
  assumes "run_ok se r" "rn_at r = At_read" "ok s" "0 < se_worker_prefetch se" "0 \<le> se_worker_lead_reserve se"
  shows "run_ok se (read_returned se ops consumer s r)"
proof (cases "fst (dispatch_read se ops consumer (rn_loop r) s)")
  case (Inl e)
  then show ?thesis using assms by (simp add: read_returned_def run_ok_def)
next
  case (Inr tasks)
  from read_tasks_fit [OF assms(3-5) _ this] assms(1,2)
  have "int (lp_in_flight (rn_loop r) + length tasks) \<le> se_worker_concurrency se + 1" by (simp add: run_ok_def)
  then show ?thesis using assms(1,2) Inr by (auto simp: read_returned_def run_ok_def fold_spawn)
qed

lemma run_step_ok:
  assumes "run_step se ops ok consumer ev r r'" "run_ok se r" "0 < se_worker_prefetch se" "0 \<le> se_worker_lead_reserve se"
  shows "run_ok se r'"
  using assms
  by (induction rule: run_step.induct)
     (auto simp: read_returned_ok handler_ends_ok, auto simp: run_ok_def at_top_def sweep_over_def wait_returned_def reap_def
        request_stop_def maintenance_check_def)

lemma begin_run_ok:
  assumes "ok s'" "0 < se_worker_concurrency se"
  shows "run_ok se (begin_run se ops consumer s s')"
proof (cases "fst (read_own_pending ops consumer (se_worker_concurrency se) s')")
  case (Inl e)
  then show ?thesis using assms(2) by (auto simp: begin_run_def run_ok_def new_loop_def Let_def split: sum.split)
next
  case (Inr tasks)
  then obtain s2 where "read_own_pending ops consumer (se_worker_concurrency se) s' = (Inr tasks, s2)" by (metis prod.collapse)
  from own_pending_bound [OF assms this] Inr assms(2) show ?thesis
    by (auto simp: begin_run_def run_ok_def new_loop_def Let_def fold_spawn split: sum.split)
qed

lemma runs_ok:
  assumes "runs se ops ok consumer evs r r'" "run_ok se r" "0 < se_worker_prefetch se" "0 \<le> se_worker_lead_reserve se"
  shows "run_ok se r'"
  using assms by (induction rule: runs.induct) (auto intro: run_step_ok)

end

section \<open>Accounting\<close>

text \<open>
  C10. The worker's books are right at every moment of its life, whatever the queue answers, in whatever
  order handlers end and whenever a signal arrives: the slots in use are the handlers running and
  those not yet collected, at most one above the configured concurrency; the reserved slots in use
  are exactly the running handlers of the priority lane, so none leaks; no lease is kept for an
  entry nobody works on; and the loop is left only when a stop was requested and every handler has
  ended and every lease is given up.
\<close>

theorem worker_books_exact:
  assumes "stream_server ops ok ent owner idle" "ok s'"
    and "0 < se_worker_concurrency se" "0 < se_worker_prefetch se" "0 \<le> se_worker_lead_reserve se"
    and "runs se ops ok consumer evs (begin_run se ops consumer s s') r"
  shows "lp_in_flight (rn_loop r) = length (rn_running r) + rn_ended r \<and>
     int (lp_in_flight (rn_loop r)) \<le> se_worker_concurrency se + 1 \<and>
     lp_lead_in_flight (rn_loop r) = int (length (filter is_lead (rn_running r))) \<and>
     dom (lp_held (rn_loop r)) \<subseteq> entry_key ` set (rn_running r) \<and>
     (rn_at r = Left \<longrightarrow> rn_stopping r \<and> rn_running r = [] \<and> lp_held (rn_loop r) = Map.empty)"
proof -
  have "run_ok se r"
    by (rule stream_server.runs_ok [OF assms(1,6) stream_server.begin_run_ok [OF assms(1-3)] assms(4,5)])
  then show ?thesis by (auto simp: run_ok_def)
qed

section \<open>Shutdown\<close>

text \<open>
  How much main task and handlers can still do once a stop is requested: a handler ends once, a round of the loop
  collects at least one, and a read under way brings at most one concurrency of new handlers.
\<close>

fun point_rank :: "settings \<Rightarrow> loop_point \<Rightarrow> nat" where
  "point_rank se At_top = 2"
| "point_rank se At_read = 4 * nat (se_worker_concurrency se + 1) + 3"
| "point_rank se At_idle = 1"
| "point_rank se At_wait = 0"
| "point_rank se Left = 0"
| "point_rank se (Raised e) = 0"

definition drain_work :: "settings \<Rightarrow> run_state \<Rightarrow> nat" where
  "drain_work se r = length (rn_running r) + 3 * lp_in_flight (rn_loop r) + point_rank se (rn_at r)"

definition moves :: "run_event \<Rightarrow> bool" where
  "moves ev \<longleftrightarrow> ev \<noteq> Stop \<and> ev \<noteq> Maintain"

lemma stopping_stays: "run_step se ops ok consumer ev r r' \<Longrightarrow> rn_stopping r \<Longrightarrow> rn_stopping r'"
  by (induction rule: run_step.induct)
     (auto simp: at_top_def read_returned_def sweep_over_def wait_returned_def handler_ends_def request_stop_def
        maintenance_check_def split: sum.split)

context stream_server
begin

lemma read_drains:
  assumes "run_ok se r" "rn_at r = At_read" "ok s" "0 < se_worker_prefetch se" "0 \<le> se_worker_lead_reserve se"
  shows "drain_work se (read_returned se ops consumer s r) < drain_work se r"
proof (cases "fst (dispatch_read se ops consumer (rn_loop r) s)")
  case (Inl e)
  then show ?thesis using assms(2) by (simp add: read_returned_def drain_work_def)
next
  case (Inr tasks)
  from read_tasks_fit [OF assms(3-5) _ this] assms(1,2)
  have "length tasks \<le> nat (se_worker_concurrency se + 1)" by (simp add: run_ok_def)
  then show ?thesis using assms(2) Inr by (auto simp: read_returned_def drain_work_def fold_spawn)
qed

lemma step_drains:
  assumes "run_step se ops ok consumer ev r r'" "run_ok se r" "rn_stopping r"
    and "0 < se_worker_prefetch se" "0 \<le> se_worker_lead_reserve se"
  shows "drain_work se r' + (if moves ev then 1 else 0) \<le> drain_work se r"
  using assms
proof (induction rule: run_step.induct)
  case (Step_read r s)
  then show ?case using read_drains [of se r s consumer] by (simp add: moves_def Suc_le_eq)
next
  case (Step_ends task r)
  then show ?case using remove1_shorter [OF Step_ends(1)]
    by (simp add: handler_ends_def drain_work_def release_task_def moves_def)
qed (auto simp: run_ok_def at_top_def sweep_over_def wait_returned_def reap_def request_stop_def maintenance_check_def
      drain_work_def moves_def)

lemma runs_drain:
  assumes "runs se ops ok consumer evs r r'" "run_ok se r" "rn_stopping r"
    and "0 < se_worker_prefetch se" "0 \<le> se_worker_lead_reserve se"
  shows "drain_work se r' + length (filter moves evs) \<le> drain_work se r \<and> rn_stopping r' \<and> run_ok se r'"
  using assms
proof (induction rule: runs.induct)
  case (Runs_step evs r r' ev r'')
  then have "run_ok se r'" "rn_stopping r'" by simp_all
  from step_drains [OF Runs_step(2) this Runs_step(6,7)] show ?case
    using Runs_step run_step_ok [OF Runs_step(2) \<open>run_ok se r'\<close>] stopping_stays by auto
qed simp

lemma drain_moves:
  assumes "run_ok se r" "rn_stopping r" "ok s" and stuck: "\<And>ev r'. run_step se ops ok consumer ev r r' \<Longrightarrow> \<not> moves ev"
  shows "rn_at r = Left \<and> rn_running r = [] \<or> (\<exists>e. rn_at r = Raised e)"
proof -
  have "\<not> run_step se ops ok consumer Main r r'" for r' using stuck [of Main r'] by (auto simp: moves_def)
  moreover have "rn_running r = []"
    using stuck [OF Step_ends] by (cases "rn_running r") (auto simp: moves_def)
  ultimately show ?thesis using assms(1,3) Step_top Step_read Step_idle Step_wait
    by (cases "rn_at r") (fastforce simp: run_ok_def)+
qed

end

text \<open>
  C11. A stop request ends the worker. Once it is made, the main task and the handlers take at most
  8 * concurrency + 11 further steps between them, however signals and maintenance rounds interleave, and
  the only places where nothing is left for them to do are behind the loop, with every handler
  ended, and an exception out of the queue.
\<close>

theorem stop_drains_and_ends:
  assumes "stream_server ops ok ent owner idle" "ok s'"
    and "0 < se_worker_concurrency se" "0 < se_worker_prefetch se" "0 \<le> se_worker_lead_reserve se"
    and "runs se ops ok consumer evs (begin_run se ops consumer s s') r" "rn_stopping r"
    and "runs se ops ok consumer evs' r r'"
  shows "length (filter moves evs') \<le> 8 * nat (se_worker_concurrency se) + 11 \<and>
     ((\<forall>ev r''. run_step se ops ok consumer ev r' r'' \<longrightarrow> \<not> moves ev) \<longrightarrow>
        rn_at r' = Left \<and> rn_running r' = [] \<or> (\<exists>e. rn_at r' = Raised e))"
proof -
  have r: "run_ok se r"
    by (rule stream_server.runs_ok [OF assms(1,6) stream_server.begin_run_ok [OF assms(1-3)] assms(4,5)])
  note d = stream_server.runs_drain [OF assms(1,8) r assms(7,4,5)]
  have "point_rank se (rn_at r) \<le> 4 * nat (se_worker_concurrency se + 1) + 3" by (cases "rn_at r") auto
  moreover have "lp_in_flight (rn_loop r) \<le> nat (se_worker_concurrency se + 1)" "length (rn_running r) \<le> lp_in_flight (rn_loop r)"
    using r by (auto simp: run_ok_def)
  ultimately have "drain_work se r \<le> 8 * nat (se_worker_concurrency se) + 11"
    using assms(3) unfolding drain_work_def by (simp add: nat_add_distrib)
  then show ?thesis using d stream_server.drain_moves [OF assms(1) _ _ assms(2), of se r' consumer] by auto
qed

section \<open>Two pages and a signal\<close>

definition lead_task :: page_task where
  "lead_task = \<lparr>pt_entry_id = str_nat 1, pt_job_id = ''j'', pt_page_index = 0, pt_enqueued_at_ms = 50, pt_trace_id = ''tr'',
     pt_recovered = False, pt_stream = LEAD_STREAM, pt_attempt = 0, pt_first_enqueued_at_ms = 50\<rparr>"

definition main_task :: page_task where
  "main_task = lead_task\<lparr>pt_entry_id := str_nat 2, pt_page_index := 1, pt_stream := STREAM\<rparr>"

definition demo_start :: run_state where
  "demo_start = \<lparr>rn_loop = new_loop, rn_running = [], rn_ended = 0, rn_stopping = False, rn_at = At_top, rn_maintained = True\<rparr>"

lemma demo_begin: "begin_run demo_settings mem_ops ''w'' demo_queue demo_queue = demo_start"
proof -
  have "fst (ensure_group mem_ops demo_queue) = Inr ()"
    by (simp add: ensure_group_def io_simps mem_ops_def STREAMS_def)
  moreover have "fst (read_own_pending mem_ops ''w'' 16 demo_queue) = Inr []"
    by (simp add: read_own_pending_def io_simps mem_ops_def mem_pick_def mem_wanted_def Let_def
        demo_queue_eq mem_update_def mem_deliver_def LEAD_STREAM_def STREAM_def taken_def mem_row_def
        flatten_def reply_rows_def flatten_row_def parse_page_fields)
  ultimately show ?thesis by (simp add: begin_run_def demo_start_def demo_settings_def)
qed

lemma demo_read: "fst (dispatch_read demo_settings mem_ops ''w'' new_loop demo_queue) = Inr [lead_task, main_task]"
  by (simp add: dispatch_read_def lead_reserve_def lead_budget_def main_budget_def demo_settings_def new_loop_def read_tasks_def
      read_lanes_def io_simps mem_ops_def mem_pick_def mem_wanted_def Let_def demo_queue_eq mem_update_def mem_deliver_def
      LEAD_STREAM_def STREAM_def taken_def mem_row_def flatten_def reply_rows_def flatten_row_def parse_page_fields
      lead_task_def main_task_def eval_nat_numeral)

lemma demo_tasks: "pt_stream lead_task = LEAD_STREAM" "pt_stream main_task = STREAM" "LEAD_STREAM \<noteq> STREAM" "main_task \<noteq> lead_task"
  by (auto simp: lead_task_def main_task_def LEAD_STREAM_def STREAM_def dest: arg_cong [of _ _ pt_page_index])

lemma demo_concurrency: "se_worker_concurrency demo_settings = 16" "lp_in_flight new_loop = 0"
  by (simp_all add: demo_settings_def new_loop_def)

lemmas loop_simps = demo_start_def demo_concurrency demo_tasks demo_tasks(3,4) [symmetric] at_top_def read_returned_def sweep_over_def wait_returned_def request_stop_def maintenance_check_def
  handler_ends_def spawn_def release_task_def reap_def demo_read

lemma demo_handed_out:
  "\<exists>r. play demo_settings mem_ops ''w'' demo_queue [Main, Main, Stop] demo_start = Some r \<and>
     rn_stopping r \<and> rn_running r = [lead_task, main_task] \<and>
     (\<exists>r'. play demo_settings mem_ops ''w'' demo_queue
        [Main, Main, Ends main_task, Main, Main, Main, Ends lead_task, Main, Main] r = Some r' \<and> rn_at r' = Left)"
  by (simp add: loop_simps)

theorem worker_books_exact_witness:
  "\<exists>r. runs demo_settings mem_ops mem_ok ''w'' [Main, Main, Stop] (begin_run demo_settings mem_ops ''w'' demo_queue demo_queue) r \<and>
     lp_in_flight (rn_loop r) = 2 \<and> lp_lead_in_flight (rn_loop r) = 1"
proof -
  obtain r where p: "play demo_settings mem_ops ''w'' demo_queue [Main, Main, Stop] demo_start = Some r"
      "rn_running r = [lead_task, main_task]" "rn_ended r = 0"
    by (simp add: loop_simps)
  note r = play_runs [of mem_ok, OF demo_queue_ok p(1), folded demo_begin]
  from worker_books_exact [OF mem.stream_server_axioms demo_queue_ok _ _ _ r] p(2,3) r show ?thesis
    by (auto simp: demo_settings_def is_lead_def demo_tasks demo_tasks(3) [symmetric])
qed

theorem stop_drains_and_ends_witness:
  "\<exists>r r' evs'. runs demo_settings mem_ops mem_ok ''w'' [Main, Main, Stop] (begin_run demo_settings mem_ops ''w'' demo_queue demo_queue) r \<and>
     rn_running r = [lead_task, main_task] \<and> runs demo_settings mem_ops mem_ok ''w'' evs' r r' \<and> rn_at r' = Left \<and>
     length (filter moves evs') = 9 \<and> length (filter moves evs') \<le> 8 * nat (se_worker_concurrency demo_settings) + 11"
proof -
  let ?evs = "[Main, Main, Ends main_task, Main, Main, Main, Ends lead_task, Main, Main]"
  obtain r r' where p: "play demo_settings mem_ops ''w'' demo_queue [Main, Main, Stop] demo_start = Some r"
      "rn_stopping r" "rn_running r = [lead_task, main_task]"
      "play demo_settings mem_ops ''w'' demo_queue ?evs r = Some r'" "rn_at r' = Left"
    using demo_handed_out by blast
  note r = play_runs [of mem_ok, OF demo_queue_ok p(1), folded demo_begin] and r' = play_runs [of mem_ok, OF demo_queue_ok p(4)]
  have "length (filter moves ?evs) \<le> 8 * nat (se_worker_concurrency demo_settings) + 11"
    using stop_drains_and_ends [OF mem.stream_server_axioms demo_queue_ok _ _ _ r p(2) r'] by (simp add: demo_settings_def)
  moreover have "length (filter moves ?evs) = 9" by (simp add: moves_def)
  ultimately show ?thesis using r r' p by blast
qed

section \<open>Maintenance\<close>

text \<open>Before a stop is requested the maintenance task lives as long as the process.\<close>

lemma maintained_until_stop:
  assumes "runs se ops ok consumer evs (begin_run se ops consumer s s') r"
  shows "rn_maintained r \<or> rn_stopping r \<or> (\<exists>e. rn_at r = Raised e)"
  using assms
proof (induction evs "begin_run se ops consumer s s'" r rule: runs.induct)
  case Runs_none
  then show ?case by (auto simp: begin_run_def Let_def split: sum.splits)
next
  case (Runs_step evs r' ev r'')
  from Runs_step(3,2) show ?case
    by (induction rule: run_step.induct)
       (auto simp: at_top_def read_returned_def sweep_over_def wait_returned_def handler_ends_def request_stop_def
          maintenance_check_def split: sum.splits)
qed

text \<open>
  Afterwards it may end too early. A signal that arrives while the loop is blocked in a read with nothing in flight lets the
  maintenance task find its condition false and end; what the read then returns is handled, and
  drained, with nobody renewing its leases.
\<close>

lemma drained_without_leases:
  "\<exists>r. runs demo_settings mem_ops mem_ok ''w'' [Main, Stop, Maintain, Main] (begin_run demo_settings mem_ops ''w'' demo_queue demo_queue) r \<and>
     rn_running r = [lead_task, main_task] \<and> rn_at r = At_top \<and> \<not> rn_maintained r"
proof -
  obtain r where "play demo_settings mem_ops ''w'' demo_queue [Main, Stop, Maintain, Main] demo_start = Some r"
      "rn_running r = [lead_task, main_task]" "rn_at r = At_top" "\<not> rn_maintained r"
    by (simp add: loop_simps)
  then show ?thesis unfolding demo_begin using play_runs [of mem_ok, OF demo_queue_ok] by blast
qed

end
