(* ===== verification/Admission.thy ===== *)
theory Admission
  imports Orch_Prelude
begin

text \<open>
  Admission control, \<^verbatim>\<open>src/app/api/admission.py\<close>: the script \<^verbatim>\<open>_ADMISSION_LUA\<close> (a Schmitt
  trigger on the depth of the queue) and \<^verbatim>\<open>AdmissionController\<close>. The depth is the sum of the
  \<^verbatim>\<open>XLEN\<close> of the queue's lanes, which is an argument here; the theory of the job intake supplies
  it from the queue. A counter field that is missing from the hash reads as 0 and a missing
  \<^verbatim>\<open>shedding\<close> field as not shedding, so the hash is a record of plain values.
\<close>

section \<open>The script and the controller\<close>

record admission_hash =
  ad_shedding :: bool
  ad_recoveries :: int
  ad_trips :: int
  ad_admitted_jobs :: int
  ad_admitted_pages :: int
  ad_shed_jobs :: int
  ad_shed_pages :: int

definition empty_admission :: admission_hash where
  "empty_admission = \<lparr>ad_shedding = False, ad_recoveries = 0, ad_trips = 0, ad_admitted_jobs = 0,
     ad_admitted_pages = 0, ad_shed_jobs = 0, ad_shed_pages = 0\<rparr>"

record admission_reply =
  ar_admitted :: bool
  ar_depth :: int
  ar_shedding :: bool
  ar_shed_jobs :: int
  ar_shed_pages :: int
  ar_admitted_jobs :: int

definition admission_decide :: "int \<Rightarrow> int \<Rightarrow> int \<Rightarrow> int \<Rightarrow> admission_hash \<Rightarrow> bool \<times> admission_hash" where
  "admission_decide pages high low depth h =
     (let h1 = (if ad_shedding h \<and> depth \<le> low
                then h\<lparr>ad_shedding := False, ad_recoveries := ad_recoveries h + 1\<rparr> else h);
          admitted = (\<not> ad_shedding h1 \<and> depth + pages \<le> high);
          h2 = (if \<not> ad_shedding h1 \<and> \<not> admitted
                then h1\<lparr>ad_shedding := True, ad_trips := ad_trips h1 + 1\<rparr> else h1);
          h3 = (if admitted
                then h2\<lparr>ad_admitted_jobs := ad_admitted_jobs h2 + 1,
                        ad_admitted_pages := ad_admitted_pages h2 + pages\<rparr>
                else h2\<lparr>ad_shed_jobs := ad_shed_jobs h2 + 1,
                        ad_shed_pages := ad_shed_pages h2 + pages\<rparr>)
      in (admitted, h3))"

definition admission_lua ::
  "int \<Rightarrow> int \<Rightarrow> int \<Rightarrow> int \<Rightarrow> int list \<Rightarrow> int \<Rightarrow> admission_hash cell
   \<Rightarrow> admission_reply \<times> admission_hash cell" where
  "admission_lua pages high low ttl_ms lanes t c =
     (let depth = sum_list lanes;
          h = (case get_live t c of None \<Rightarrow> empty_admission | Some h \<Rightarrow> h);
          (admitted, h') = admission_decide pages high low depth h
      in (\<lparr>ar_admitted = admitted, ar_depth = depth, ar_shedding = ad_shedding h',
           ar_shed_jobs = ad_shed_jobs h', ar_shed_pages = ad_shed_pages h',
           ar_admitted_jobs = ad_admitted_jobs h'\<rparr>,
          pexpire t ttl_ms (put_fields t empty_admission (\<lambda>_. h') c)))"

record admission_config =
  ac_high :: int
  ac_low :: int
  ac_drain_rate :: real
  ac_has_controller :: bool
  ac_cap_s :: int
  ac_jitter :: real
  ac_ttl_ms :: int

text \<open>\<^verbatim>\<open>AdmissionController.__init__\<close>; \<^const>\<open>None\<close> where it raises \<^verbatim>\<open>ValueError\<close>.\<close>

definition AdmissionController ::
  "int \<Rightarrow> real \<Rightarrow> real \<Rightarrow> bool \<Rightarrow> int \<Rightarrow> real \<Rightarrow> int \<Rightarrow> admission_config option" where
  "AdmissionController high_watermark low_fraction drain_rate has_controller cap_s jitter ttl_s =
     (if high_watermark < 1 then None
      else if \<not> (0 < low_fraction \<and> low_fraction < 1) then None
      else if drain_rate \<le> 0 then None
      else Some \<lparr>ac_high = high_watermark, ac_low = max 1 \<lfloor>of_int high_watermark * low_fraction\<rfloor>,
                 ac_drain_rate = drain_rate, ac_has_controller = has_controller, ac_cap_s = cap_s,
                 ac_jitter = jitter, ac_ttl_ms = ttl_s * 1000\<rparr>)"

text \<open>\<open>current\<close> is what \<^verbatim>\<open>controller.current()\<close> returns, \<^const>\<open>None\<close> where it raises.\<close>

definition service_rate :: "admission_config \<Rightarrow> real option \<Rightarrow> real" where
  "service_rate a current =
     (if \<not> ac_has_controller a then ac_drain_rate a
      else case current of None \<Rightarrow> ac_drain_rate a | Some r \<Rightarrow> max (1 / 10) r)"

text \<open>\<open>u\<close> is the draw of \<^verbatim>\<open>random.random()\<close>.\<close>

definition retry_after :: "admission_config \<Rightarrow> real \<Rightarrow> int \<Rightarrow> real \<Rightarrow> int" where
  "retry_after a u depth rate =
     (let excess = max 0 (depth - ac_low a);
          drain_s = of_int excess / rate;
          jittered = drain_s * (1 + ac_jitter a * u)
      in max 1 (min (ac_cap_s a) \<lceil>jittered\<rceil>))"

record admission_verdict =
  av_admitted :: bool
  av_depth :: int
  av_shedding :: bool
  av_retry_after_s :: int
  av_shed_jobs :: int
  av_shed_pages :: int
  av_admitted_jobs :: int

definition evaluate ::
  "admission_config \<Rightarrow> int \<Rightarrow> int list \<Rightarrow> real option \<Rightarrow> real \<Rightarrow> int \<Rightarrow> admission_hash cell
   \<Rightarrow> admission_verdict \<times> admission_hash cell" where
  "evaluate a pages lanes current u t c =
     (let (r, c') = admission_lua pages (ac_high a) (ac_low a) (ac_ttl_ms a) lanes t c
      in (\<lparr>av_admitted = ar_admitted r, av_depth = ar_depth r, av_shedding = ar_shedding r,
           av_retry_after_s = (if ar_admitted r then 0
             else retry_after a u (ar_depth r) (service_rate a current)),
           av_shed_jobs = ar_shed_jobs r, av_shed_pages = ar_shed_pages r,
           av_admitted_jobs = ar_admitted_jobs r\<rparr>, c'))"

definition admission_stats :: "int \<Rightarrow> admission_hash cell \<Rightarrow> admission_hash" where
  "admission_stats t c = (case get_live t c of None \<Rightarrow> empty_admission | Some h \<Rightarrow> h)"

definition admission_reset :: "admission_hash cell \<Rightarrow> admission_hash cell" where
  "admission_reset c = None"

section \<open>Runs\<close>

text \<open>
  Arrivals and settlements around one controller: an arrival is evaluated against the current
  depth and, when admitted, its pages are enqueued before the next event (the lock of the job
  intake); a settled page leaves the queue.
\<close>

datatype intake_event = Arrive int int | Settle nat

fun intake_run ::
  "admission_config \<Rightarrow> intake_event list \<Rightarrow> int \<Rightarrow> admission_hash cell
   \<Rightarrow> bool list \<times> int \<times> admission_hash cell" where
  "intake_run a [] depth c = ([], depth, c)"
| "intake_run a (Settle k # evs) depth c = intake_run a evs (max 0 (depth - int k)) c"
| "intake_run a (Arrive t pages # evs) depth c =
     (let (v, c') = evaluate a pages [depth] None 0 t c;
          (vs, r) = intake_run a evs (if av_admitted v then depth + pages else depth) c'
      in (av_admitted v # vs, r))"

lemma evaluate_eq:
  "evaluate a pages lanes current u t c =
     (let h = admission_stats t c;
          (adm, h') = admission_decide pages (ac_high a) (ac_low a) (sum_list lanes) h
      in (\<lparr>av_admitted = adm, av_depth = sum_list lanes, av_shedding = ad_shedding h',
           av_retry_after_s = (if adm then 0
             else retry_after a u (sum_list lanes) (service_rate a current)),
           av_shed_jobs = ad_shed_jobs h', av_shed_pages = ad_shed_pages h',
           av_admitted_jobs = ad_admitted_jobs h'\<rparr>, Some (h', Some (t + ac_ttl_ms a))))"
  by (simp add: evaluate_def admission_lua_def admission_stats_def cell_simps Let_def
      split: prod.split)

text \<open>
  The watermark binds: whatever arrives and however the queue drains, if the depth starts
  at or below the high watermark it never exceeds it, since a job is counted with its own pages
  before it is admitted.
\<close>

theorem depth_never_exceeds_watermark:
  assumes "depth \<le> ac_high a" and "0 \<le> ac_high a" and "intake_run a evs depth c = (vs, depth', c')"
  shows "depth' \<le> ac_high a"
  using assms
proof (induction a evs depth c arbitrary: vs rule: intake_run.induct)
  case (3 a t pages evs depth c)
  obtain v c1 where ev: "evaluate a pages [depth] None 0 t c = (v, c1)" by fastforce
  have "av_admitted v \<longrightarrow> depth + pages \<le> ac_high a"
    using ev by (auto simp: evaluate_eq admission_decide_def Let_def)
  then show ?case
    using 3(1) [OF ev [symmetric] refl] 3(2-4) ev by (auto split: prod.splits)
qed auto

definition demo_admission :: admission_config where
  "demo_admission = \<lparr>ac_high = 100, ac_low = 80, ac_drain_rate = 10, ac_has_controller = True,
     ac_cap_s = 300, ac_jitter = 1 / 5, ac_ttl_ms = 3600000\<rparr>"

theorem depth_never_exceeds_watermark_witness:
  "fst (snd (intake_run demo_admission [Arrive 0 60, Arrive 1 50, Arrive 2 30, Settle 5, Arrive 3 40] 0 None)) \<le> 100"
  using depth_never_exceeds_watermark [of 0 demo_admission
      "[Arrive 0 60, Arrive 1 50, Arrive 2 30, Settle 5, Arrive 3 40]" None]
  by (cases "intake_run demo_admission [Arrive 0 60, Arrive 1 50, Arrive 2 30, Settle 5, Arrive 3 40] 0 None")
     (auto simp: demo_admission_def)

text \<open>Any evaluations (time, pages, observed depth), by any number of processes.\<close>

fun eval_run ::
  "admission_config \<Rightarrow> (int \<times> int \<times> int) list \<Rightarrow> admission_hash cell
   \<Rightarrow> bool list \<times> admission_hash cell" where
  "eval_run a [] c = ([], c)"
| "eval_run a ((t, pages, depth) # es) c =
     (let (v, c') = evaluate a pages [depth] None 0 t c; (vs, c'') = eval_run a es c'
      in (av_admitted v # vs, c''))"

fun eval_alive :: "int \<Rightarrow> int \<Rightarrow> (int \<times> int \<times> int) list \<Rightarrow> bool" where
  "eval_alive ttl e [] = True"
| "eval_alive ttl e ((t, p, d) # es) = (t < e \<and> eval_alive ttl (t + ttl) es)"

lemma eval_run_Cons:
  assumes "admission_decide pages (ac_high a) (ac_low a) depth (admission_stats t c) = (adm, h)"
  shows "eval_run a ((t, pages, depth) # es) c =
     (adm # fst (eval_run a es (Some (h, Some (t + ac_ttl_ms a)))),
      snd (eval_run a es (Some (h, Some (t + ac_ttl_ms a)))))"
  using assms by (simp add: evaluate_eq case_prod_beta)

lemma stats_live: "t < e \<Longrightarrow> admission_stats t (Some (h, Some e)) = h"
  by (simp add: admission_stats_def cell_simps)

lemma shedding_refuses:
  assumes "ad_shedding h" and "eval_alive (ac_ttl_ms a) e es" and "\<forall>(t, p, d) \<in> set es. ac_low a < d"
  shows "\<forall>b \<in> set (fst (eval_run a es (Some (h, Some e)))). \<not> b"
  using assms
proof (induction es arbitrary: h e)
  case (Cons ev es)
  obtain t p d where ev: "ev = (t, p, d)" by (cases ev)
  let ?h = "h\<lparr>ad_shed_jobs := ad_shed_jobs h + 1, ad_shed_pages := ad_shed_pages h + p\<rparr>"
  have dec: "admission_decide p (ac_high a) (ac_low a) d (admission_stats t (Some (h, Some e))) = (False, ?h)"
    using Cons.prems by (simp add: ev stats_live admission_decide_def)
  have "\<forall>b \<in> set (fst (eval_run a es (Some (?h, Some (t + ac_ttl_ms a))))). \<not> b"
    by (rule Cons.IH) (use Cons.prems in \<open>auto simp: ev\<close>)
  then show ?case unfolding ev eval_run_Cons [OF dec] by simp
qed simp

text \<open>
  C22. Hysteresis: after one refusal every further job is refused, however small, for as long as
  the observed depth stays above the low watermark. A single threshold would flip on every
  page completion; this one cannot.
\<close>

theorem refusals_persist_until_low:
  assumes "evaluate a pages [depth] current u t c = (v, c')" and "\<not> av_admitted v"
    and "eval_alive (ac_ttl_ms a) (t + ac_ttl_ms a) es" and "\<forall>(t, p, d) \<in> set es. ac_low a < d"
  shows "\<forall>b \<in> set (fst (eval_run a es c')). \<not> b"
proof -
  obtain h where "c' = Some (h, Some (t + ac_ttl_ms a))" and "ad_shedding h"
    using assms(1,2) by (auto simp: evaluate_eq admission_decide_def Let_def split: if_splits)
  then show ?thesis using shedding_refuses [OF _ assms(3,4)] by simp
qed

theorem refusals_persist_until_low_witness:
  "list_all Not (fst (eval_run demo_admission [(5, 1, 99), (6, 1, 81)]
      (snd (evaluate demo_admission 50 [60] None 0 4 None))))"
  unfolding list_all_iff
  using refusals_persist_until_low [of demo_admission 50 60 None 0 4 None _ _ "[(5, 1, 99), (6, 1, 81)]", OF prod.collapse [symmetric]]
  by (simp add: demo_admission_def evaluate_eq admission_decide_def admission_stats_def cell_simps
      empty_admission_def)

text \<open>The books of the controller after \<open>na\<close> admissions and \<open>ns\<close> refusals.\<close>

definition books :: "admission_hash \<Rightarrow> int \<Rightarrow> int \<Rightarrow> bool" where
  "books h na ns \<longleftrightarrow> ad_admitted_jobs h = na \<and> ad_shed_jobs h = ns
     \<and> ad_trips h = ad_recoveries h + of_bool (ad_shedding h)"

lemma books_step:
  assumes "books h na ns" and "admission_decide pages high low depth h = (adm, h')"
  shows "books h' (na + of_bool adm) (ns + of_bool (\<not> adm))"
  using assms by (auto simp: books_def admission_decide_def Let_def split: if_splits)

lemma books_run:
  assumes "books h na ns" and "eval_alive (ac_ttl_ms a) e es"
    and "eval_run a es (Some (h, Some e)) = (vs, c')"
  shows "\<exists>h' e'. c' = Some (h', e') \<and>
     books h' (na + int (length (filter (\<lambda>b. b) vs))) (ns + int (length (filter Not vs)))"
  using assms
proof (induction es arbitrary: h e na ns vs)
  case (Cons ev es)
  obtain t p d where ev: "ev = (t, p, d)" by (cases ev)
  obtain adm h1 where dec: "admission_decide p (ac_high a) (ac_low a) d h = (adm, h1)" by fastforce
  have st: "admission_stats t (Some (h, Some e)) = h" using Cons.prems(2) by (simp add: ev stats_live)
  obtain vs1 where run: "eval_run a es (Some (h1, Some (t + ac_ttl_ms a))) = (vs1, c')" and vs: "vs = adm # vs1"
    using Cons.prems(3) eval_run_Cons [of p a d t "Some (h, Some e)", unfolded st, OF dec, of es]
    by (simp add: ev prod_eq_iff)
  have alive: "eval_alive (ac_ttl_ms a) (t + ac_ttl_ms a) es" using Cons.prems(2) by (simp add: ev)
  obtain h' e' where "c' = Some (h', e')"
      "books h' (na + of_bool adm + int (length (filter (\<lambda>b. b) vs1))) (ns + of_bool (\<not> adm) + int (length (filter Not vs1)))"
    using Cons.IH [OF books_step [OF Cons.prems(1) dec] alive run] by blast
  then show ?case by (cases adm) (auto simp: vs ac_simps)
qed auto

text \<open>
  Every decision is on the books: after any sequence of evaluations that keeps the hash
  alive, the counters of admitted and of shed jobs are exactly the numbers of accepted and
  refused evaluations, and trips and recoveries alternate.
\<close>

theorem admission_accounting:
  assumes "0 < ac_ttl_ms a" and "es = (t, pages, depth) # rest" and "eval_alive (ac_ttl_ms a) (t + 1) es"
    and "eval_run a es None = (vs, c)"
  shows "\<exists>h e. c = Some (h, e) \<and> ad_admitted_jobs h = int (length (filter (\<lambda>b. b) vs))
     \<and> ad_shed_jobs h = int (length (filter Not vs))
     \<and> ad_trips h = ad_recoveries h + of_bool (ad_shedding h)"
proof -
  have "books empty_admission 0 0" by (simp add: books_def empty_admission_def)
  moreover have "eval_run a es (Some (empty_admission, Some (t + 1))) = (vs, c)"
    using assms(2,4) by (simp add: evaluate_eq admission_stats_def cell_simps)
  ultimately show ?thesis
    using books_run [OF _ assms(3)] by (fastforce simp: books_def)
qed

theorem admission_accounting_witness:
  "\<exists>h e. snd (eval_run demo_admission [(0, 60, 0), (1, 50, 60), (2, 5, 90), (3, 5, 70)] None) = Some (h, e)
     \<and> ad_admitted_jobs h = 2 \<and> ad_shed_jobs h = 2"
proof -
  have "fst (eval_run demo_admission [(0, 60, 0), (1, 50, 60), (2, 5, 90), (3, 5, 70)] None) =
      [True, False, False, True]"
    by (simp add: demo_admission_def evaluate_eq admission_decide_def admission_stats_def cell_simps
        empty_admission_def)
  with admission_accounting [of demo_admission _ 0 60 0 "[(1, 50, 60), (2, 5, 90), (3, 5, 70)]", OF _ refl _ prod.collapse [symmetric]]
  show ?thesis by (fastforce simp: demo_admission_def)
qed

text \<open>
  The advice given with a refusal is usable: between 1 second and the cap, and when the cap
  does not bite, waiting that long at the service rate drains the queue to the low watermark.
\<close>

theorem retry_after_sound:
  assumes "1 \<le> ac_cap_s a" and "0 < rate" and "0 \<le> ac_jitter a" and "0 \<le> u"
    and "s = retry_after a u depth rate"
  shows "1 \<le> s \<and> s \<le> ac_cap_s a \<and> (s < ac_cap_s a \<longrightarrow> of_int (depth - ac_low a) \<le> rate * of_int s)"
proof -
  let ?d = "of_int (max 0 (depth - ac_low a)) / rate :: real"
  let ?j = "?d * (1 + ac_jitter a * u)"
  have nn: "0 \<le> ac_jitter a * u" "0 \<le> ?d" using assms by simp_all
  have "?d \<le> ?j" using mult_left_mono [OF _ nn(2), of 1 "1 + ac_jitter a * u"] nn(1) by simp
  have s: "s = max 1 (min (ac_cap_s a) \<lceil>?j\<rceil>)" by (simp add: assms(5) retry_after_def Let_def)
  have "of_int (depth - ac_low a) \<le> rate * of_int s" if "s < ac_cap_s a"
  proof -
    have "\<lceil>?j\<rceil> \<le> s" using that s by linarith
    then have "?d \<le> of_int s" using \<open>?d \<le> ?j\<close> by linarith
    then have "of_int (max 0 (depth - ac_low a)) \<le> rate * of_int s"
      using assms(2) by (simp add: divide_le_eq mult.commute)
    then show ?thesis by (simp add: max_def split: if_splits)
  qed
  with s assms(1) show ?thesis by auto
qed

theorem retry_after_sound_witness:
  "1 \<le> retry_after demo_admission (1 / 2) 200 4 \<and> retry_after demo_admission (1 / 2) 200 4 \<le> 300"
  using retry_after_sound [of demo_admission 4 "1 / 2" _ 200] by (simp add: demo_admission_def)

end
