(* ===== verification/Job_Api.thy ===== *)
theory Job_Api
  imports Fleet Admission
begin

text \<open>
  Taking in jobs, \<^verbatim>\<open>src/app/api/jobs.py\<close>: the three ways a job arrives, the critical section of
  admission, state and queue they share, and the status endpoints. The world of the API process
  is the page store, the task queue, the admission hash and the disk. A call to Redis may fail
  before or after it took effect: \<open>aa_fault\<close> says what happens to the two calls that are not queue
  commands. The lock makes the critical section one step of the process; other processes are the
  subject of the theory of the intake system.
\<close>

section \<open>World and collaborators\<close>

record 's api_world =
  aw_store :: store
  aw_queue :: 's
  aw_admission :: "admission_hash cell"
  aw_disk :: disk
  aw_now :: int

datatype api_call = EVALUATE | INIT_JOB

record 's api =
  aa_settings :: settings
  aa_ops :: "'s stream_ops"
  aa_admission :: admission_config
  aa_pdf :: pdf_lib
  aa_fault :: "api_call \<Rightarrow> fault option"
  aa_rate :: "real option"
  aa_random :: real

definition with_fault :: "fault option \<Rightarrow> ('w, 'a) io \<Rightarrow> ('w, 'a) io" where
  "with_fault fo m = (\<lambda>w.
     case fo of
       None \<Rightarrow> m w
     | Some (Lost_Request e) \<Rightarrow> (Inl e, w)
     | Some (Lost_Reply e) \<Rightarrow> (Inl e, snd (m w)))"

definition on_tasks :: "('s, 'a) io \<Rightarrow> ('s api_world, 'a) io" where
  "on_tasks m = (\<lambda>w. let (r, q) = m (aw_queue w) in (r, w\<lparr>aw_queue := q\<rparr>))"

section \<open>The critical section\<close>

definition admit_pages :: "'s api \<Rightarrow> int \<Rightarrow> ('s api_world, admission_verdict) io" where
  "admit_pages api pages =
     with_fault (aa_fault api EVALUATE)
       (io_bind (on_tasks (io_mapM (xlen (aa_ops api)) STREAMS)) (\<lambda>lanes w.
          let (v, c) = evaluate (aa_admission api) pages lanes (aa_rate api) (aa_random api) (aw_now w) (aw_admission w)
          in (Inr v, w\<lparr>aw_admission := c\<rparr>)))"

definition write_job :: "'s api \<Rightarrow> string \<Rightarrow> int \<Rightarrow> string \<Rightarrow> string \<Rightarrow> ('s api_world, unit) io" where
  "write_job api job pages filename trace_id =
     with_fault (aa_fault api INIT_JOB)
       (io_modify (\<lambda>w. w\<lparr>aw_store := init_job (aw_now w) (aw_now w) (se_result_ttl_s (aa_settings api)) job pages
          [(''filename'', filename), (''trace_id'', trace_id)] (aw_store w)\<rparr>))"

definition put_tasks :: "'s api \<Rightarrow> string \<Rightarrow> int \<Rightarrow> string \<Rightarrow> ('s api_world, nat) io" where
  "put_tasks api job pages trace_id =
     (\<lambda>w. on_tasks (enqueue_pages (aa_ops api) (aw_now w) job pages trace_id) w)"

definition admit_and_enqueue ::
  "'s api \<Rightarrow> string \<Rightarrow> int \<Rightarrow> string \<Rightarrow> string \<Rightarrow> ('s api_world, admission_verdict) io" where
  "admit_and_enqueue api job pages filename trace_id =
     io_bind (admit_pages api pages) (\<lambda>verdict.
       if \<not> av_admitted verdict then io_raise (HTTPException 503 (Some (av_retry_after_s verdict)))
       else
         io_seq (write_job api job pages filename trace_id)
           (io_seq (put_tasks api job pages trace_id) (io_ret verdict)))"

section \<open>The endpoints\<close>

record job_accepted =
  ja_job_id :: string
  ja_pages :: int
  ja_bytes :: "int option"
  ja_queue_depth :: int
  ja_trace_id :: string

text \<open>The job id is \<^verbatim>\<open>uuid4().hex[:12]\<close>, the trace id that of the request: both are arguments.\<close>

definition CreateJobRequest :: "int \<Rightarrow> string option \<Rightarrow> bool" where
  "CreateJobRequest pages filename \<longleftrightarrow> 1 \<le> pages \<and> (case filename of None \<Rightarrow> True | Some f \<Rightarrow> length f \<le> 256)"

definition create_job :: "'s api \<Rightarrow> string \<Rightarrow> string \<Rightarrow> int \<Rightarrow> string option \<Rightarrow> ('s api_world, job_accepted) io" where
  "create_job api job trace_id pages filename =
     (if \<not> CreateJobRequest pages filename then io_raise (HTTPException 422 None)
      else if pages > se_max_pages (aa_settings api) then io_raise (HTTPException 413 None)
      else
        io_bind (admit_and_enqueue api job pages (case filename of None \<Rightarrow> [] | Some f \<Rightarrow> f) trace_id) (\<lambda>verdict.
          io_ret \<lparr>ja_job_id = job, ja_pages = pages, ja_bytes = None, ja_queue_depth = av_depth verdict,
                  ja_trace_id = trace_id\<rparr>))"

definition drop_document :: "'s api \<Rightarrow> string \<Rightarrow> ('s api_world, unit) io" where
  "drop_document api job = io_modify (\<lambda>w. w\<lparr>aw_disk := snd (delete_document (se_data_dir (aa_settings api)) job (aw_disk w))\<rparr>)"

fun is_HTTPException :: "exc \<Rightarrow> bool" where
  "is_HTTPException (HTTPException _ _) = True"
| "is_HTTPException _ = False"

definition ingest_document ::
  "'s api \<Rightarrow> string \<Rightarrow> path \<Rightarrow> int \<Rightarrow> string \<Rightarrow> string \<Rightarrow> ('s api_world, job_accepted) io" where
  "ingest_document api job dest nbytes filename trace_id =
     io_bind
       (io_catch (\<lambda>w. (count_pages (aa_pdf api) dest (aw_disk w), w))
         (\<lambda>e. if e = InvalidPdf then io_seq (drop_document api job) (io_raise (HTTPException 400 None)) else io_raise e))
       (\<lambda>pages.
         if pages > se_max_pages (aa_settings api)
         then io_seq (drop_document api job) (io_raise (HTTPException 413 None))
         else
           io_bind
             (io_catch (admit_and_enqueue api job pages filename trace_id)
               (\<lambda>e. if is_HTTPException e then io_seq (drop_document api job) (io_raise e) else io_raise e))
             (\<lambda>verdict. io_ret \<lparr>ja_job_id = job, ja_pages = pages, ja_bytes = Some nbytes,
                ja_queue_depth = av_depth verdict, ja_trace_id = trace_id\<rparr>))"

definition max_upload_bytes :: "settings \<Rightarrow> int" where
  "max_upload_bytes se = se_max_upload_mb se * 1024 * 1024"

definition store_upload ::
  "(disk \<Rightarrow> (exc + int) \<times> disk) \<Rightarrow> ('s api_world, int) io" where
  "store_upload copy =
     io_catch (\<lambda>w. let (r, d) = copy (aw_disk w) in (r, w\<lparr>aw_disk := d\<rparr>))
       (\<lambda>e. if e = UploadTooLarge then io_raise (HTTPException 413 None) else io_raise e)"

definition to_path :: "exc + path \<Rightarrow> ('w, path) io" where
  "to_path r = (case r of Inl e \<Rightarrow> io_raise e | Inr p \<Rightarrow> io_ret p)"

definition stream_job ::
  "'s api \<Rightarrow> exc option \<Rightarrow> string \<Rightarrow> string \<Rightarrow> chunk_event list \<Rightarrow> ('s api_world, job_accepted) io" where
  "stream_job api open_exc job trace_id body =
     io_bind (to_path (pdf_path (se_data_dir (aa_settings api)) job)) (\<lambda>dest.
     io_bind (\<lambda>w. store_upload (stream_body_to_disk (of_int (aw_now w) / 1000) open_exc body dest
                     (max_upload_bytes (aa_settings api))) w) (\<lambda>nbytes.
       ingest_document api job dest nbytes [] trace_id))"

definition upload_job ::
  "'s api \<Rightarrow> exc option \<Rightarrow> string \<Rightarrow> string \<Rightarrow> (int \<Rightarrow> chunk_event list) \<Rightarrow> string option \<Rightarrow> ('s api_world, job_accepted) io" where
  "upload_job api open_exc job trace_id upload filename =
     io_bind (to_path (pdf_path (se_data_dir (aa_settings api)) job)) (\<lambda>dest.
     io_bind (\<lambda>w. store_upload (stream_to_disk (of_int (aw_now w) / 1000) open_exc upload dest
                     (se_upload_chunk_bytes (aa_settings api)) (max_upload_bytes (aa_settings api))) w) (\<lambda>nbytes.
       ingest_document api job dest nbytes (case filename of None \<Rightarrow> [] | Some f \<Rightarrow> f) trace_id))"

section \<open>Status\<close>

record job_status =
  js_total_pages :: int
  js_done :: int
  js_complete :: bool
  js_state_counts :: "page_state option \<Rightarrow> nat"
  js_filename :: "string option"

definition count_states :: "page_state option list \<Rightarrow> page_state option \<Rightarrow> nat" where
  "count_states states = fold (\<lambda>st counts. counts(st := counts st + 1)) states (\<lambda>_. 0)"

text \<open>
  \<^verbatim>\<open>get_job\<close>. The two reads see the same store here; \<^verbatim>\<open>job["total_pages"]\<close> raises on a hash that
  lacks the field. The key \<^const>\<open>None\<close> of the counts is \<^verbatim>\<open>"MISSING"\<close>.
\<close>

definition job_status_of :: "int \<Rightarrow> string \<Rightarrow> store \<Rightarrow> exc + job_status" where
  "job_status_of t job s =
     (case get_job t job s of
        None \<Rightarrow> Inl (HTTPException 404 None)
      | Some h \<Rightarrow>
          (case jh_total_pages h of
             None \<Rightarrow> Inl (OtherException ''KeyError'')
           | Some tot \<Rightarrow>
               let done_n = (case jh_done_count h of None \<Rightarrow> 0 | Some n \<Rightarrow> n)
               in Inr \<lparr>js_total_pages = tot, js_done = done_n, js_complete = (done_n \<ge> tot),
                       js_state_counts = count_states (page_states t job tot s),
                       js_filename = (case jh_meta h ''filename'' of None \<Rightarrow> None | Some f \<Rightarrow> if f = [] then None else Some f)\<rparr>))"

definition page_detail :: "int \<Rightarrow> string \<Rightarrow> int \<Rightarrow> store \<Rightarrow> exc + page_hash" where
  "page_detail t job page s =
     (case get_page t job page s of None \<Rightarrow> Inl (HTTPException 404 None) | Some h \<Rightarrow> Inr h)"

definition queue_depth_view :: "'s api \<Rightarrow> ('s api_world, queue_depth \<times> int \<times> int) io" where
  "queue_depth_view api =
     io_bind (on_tasks (depth (aa_ops api))) (\<lambda>d. io_ret (d, ac_high (aa_admission api), ac_low (aa_admission api)))"

definition queue_consumers_view ::
  "'s api \<Rightarrow> ('s api_world, (nat \<times> (string \<times> lane_info) list) \<times> bool \<times> real) io" where
  "queue_consumers_view api =
     io_bind (on_tasks (consumers (aa_ops api) (py_trunc (se_reaper_min_idle_s (aa_settings api) * 1000)))) (\<lambda>c.
       io_ret (c, se_reaper_enabled (aa_settings api), se_reaper_interval_s (aa_settings api)))"

definition admission_view :: "'s api_world \<Rightarrow> admission_hash" where
  "admission_view w = admission_stats (aw_now w) (aw_admission w)"

section \<open>The critical section, step by step\<close>

text \<open>The number of entries in both lanes, which the admission script adds up.\<close>

definition queue_len :: "('s \<Rightarrow> string \<Rightarrow> entry_id \<Rightarrow> fields option) \<Rightarrow> 's \<Rightarrow> int" where
  "queue_len ent s = int (card {i. ent s LEAD_STREAM i \<noteq> None}) + int (card {i. ent s STREAM i \<noteq> None})"

text \<open>Redis errors are not \<^verbatim>\<open>HTTPException\<close>s, which only the API raises.\<close>

definition redis_errors_only :: "'s api \<Rightarrow> bool" where
  "redis_errors_only api \<longleftrightarrow>
     (\<forall>st s e. fst (xlen (aa_ops api) st s) = Inl e \<longrightarrow> \<not> is_HTTPException e)
     \<and> (\<forall>st f s e. fst (xadd (aa_ops api) st f s) = Inl e \<longrightarrow> \<not> is_HTTPException e)
     \<and> (\<forall>c e. aa_fault api c \<in> {Some (Lost_Request e), Some (Lost_Reply e)} \<longrightarrow> \<not> is_HTTPException e)"

lemma wp_tasks [wp_simps]: "wp (on_tasks m) Q w \<longleftrightarrow> wp m (\<lambda>r q. Q r (w\<lparr>aw_queue := q\<rparr>)) (aw_queue w)"
  by (simp add: wp_def on_tasks_def split: prod.split)

lemma wp_modify [wp_simps]: "wp (io_modify f) Q w \<longleftrightarrow> Q (Inr ()) (f w)"
  by (simp add: wp_def io_simps)

lemma wp_fault:
  assumes "wp m (\<lambda>r w'. Q r w' \<and> (\<forall>e. fo = Some (Lost_Reply e) \<longrightarrow> Q (Inl e) w')) w"
    and "\<And>e. fo = Some (Lost_Request e) \<Longrightarrow> Q (Inl e) w"
  shows "wp (with_fault fo m) Q w"
  using assms by (cases fo) (auto simp: wp_def with_fault_def split: fault.split)

lemma mapM_raises:
  assumes "\<And>x s e. x \<in> set xs \<Longrightarrow> fst (f x s) = Inl e \<Longrightarrow> P e" and "fst (io_mapM f xs s) = Inl e"
  shows "P e"
  using assms
proof (induction xs arbitrary: s)
  case (Cons x xs)
  obtain r s1 where f: "f x s = (r, s1)" by fastforce
  show ?case
  proof (cases r)
    case (Inl a)
    then show ?thesis using Cons.prems f by (auto simp: io_simps) (metis fst_conv)
  next
    case (Inr a)
    then have "fst (io_mapM f xs s1) = Inl e"
      using Cons.prems(2) f by (auto simp: io_simps split: prod.splits sum.splits)
    then show ?thesis using Cons.IH Cons.prems(1) by (metis list.set_intros(2))
  qed
qed (simp add: io_simps)

text \<open>What the first step leaves behind, whether it returns a verdict or raises.\<close>

definition admit_post ::
  "('s \<Rightarrow> bool) \<Rightarrow> ('s \<Rightarrow> string \<Rightarrow> entry_id \<Rightarrow> fields option) \<Rightarrow> int \<Rightarrow> int \<Rightarrow> 's api_world
   \<Rightarrow> exc + admission_verdict \<Rightarrow> 's api_world \<Rightarrow> bool" where
  "admit_post ok ent high pages w r w' \<longleftrightarrow>
     aw_store w' = aw_store w \<and> aw_disk w' = aw_disk w \<and> aw_now w' = aw_now w
     \<and> ok (aw_queue w') \<and> ent (aw_queue w') = ent (aw_queue w)
     \<and> (\<forall>v. r = Inr v \<longrightarrow> av_depth v = queue_len ent (aw_queue w)
           \<and> (av_admitted v \<longrightarrow> queue_len ent (aw_queue w) + pages \<le> high))"

context stream_server
begin

lemma lanes_read:
  assumes "ok s"
  shows "wp (io_mapM (xlen ops) STREAMS) (\<lambda>r s'. ok s' \<and> ent s' = ent s
     \<and> (\<forall>ls. r = Inr ls \<longrightarrow> sum_list ls = queue_len ent s)) s"
proof -
  have one: "wp (xlen ops st) (\<lambda>r s'. ok s' \<and> ent s' = ent v \<and> (\<forall>n. r = Inr n \<longrightarrow> n = int (card {i. ent v st i \<noteq> None}))) v"
    if "ok v" for st v
    using that xlen_law [OF that] xlen_count [OF that] unfolding wp_def by (metis prod.collapse)
  show ?thesis
    unfolding STREAMS_def io_mapM.simps wp_bind
    apply (rule wp_mono [OF one [OF assms]])
    subgoal for r1 s1
      apply (cases r1; simp only: sum.case)
      subgoal by simp
      subgoal
        apply (rule wp_mono [OF one], blast)
        subgoal for r2 s2 by (cases r2) (simp_all add: wp_ret queue_len_def)
        done
      done
    done
qed

lemma admit_core:
  assumes "aa_ops api = ops" and "ok (aw_queue w)"
  shows "wp (io_bind (on_tasks (io_mapM (xlen ops) STREAMS)) (\<lambda>lanes w.
          let (v, c) = evaluate (aa_admission api) pages lanes (aa_rate api) (aa_random api) (aw_now w) (aw_admission w)
          in (Inr v, w\<lparr>aw_admission := c\<rparr>))) (admit_post ok ent (ac_high (aa_admission api)) pages w) w"
proof -
  have dec: "av_depth v = sum_list ls \<and> (av_admitted v \<longrightarrow> sum_list ls + pages \<le> ac_high a)"
    if "evaluate a pages ls cu u t c = (v, c')" for a ls cu u t c v c'
    using that by (auto simp: evaluate_eq admission_decide_def Let_def split: if_splits)
  show ?thesis
    unfolding wp_bind wp_tasks
    apply (rule wp_mono [OF lanes_read [OF assms(2)]])
    subgoal for r q
      by (cases r) (auto simp: admit_post_def wp_def dest!: dec split: prod.split)
    done
qed

lemma admit_spec:
  assumes "aa_ops api = ops" and "ok (aw_queue w)"
  shows "wp (admit_pages api pages) (admit_post ok ent (ac_high (aa_admission api)) pages w) w"
  unfolding admit_pages_def assms(1)
  by (rule wp_fault, rule wp_mono [OF admit_core [OF assms]])
     (use assms(2) in \<open>auto simp: admit_post_def\<close>)

end

text \<open>The steps raise what Redis raises.\<close>

definition no_http :: "('w, 'a) io \<Rightarrow> bool" where
  "no_http m \<longleftrightarrow> (\<forall>w e. fst (m w) = Inl e \<longrightarrow> \<not> is_HTTPException e)"

lemma no_httpD: "no_http m \<Longrightarrow> m w = (Inl e, w') \<Longrightarrow> \<not> is_HTTPException e"
  by (simp add: no_http_def) (metis fst_conv)

lemma no_http_fault:
  assumes "no_http m" and "\<And>e. fo \<in> {Some (Lost_Request e), Some (Lost_Reply e)} \<Longrightarrow> \<not> is_HTTPException e"
  shows "no_http (with_fault fo m)"
  using assms by (cases fo) (auto simp: no_http_def with_fault_def split: fault.splits)

lemma no_http_mapM: "(\<And>x. x \<in> set xs \<Longrightarrow> no_http (f x)) \<Longrightarrow> no_http (io_mapM f xs)"
  unfolding no_http_def using mapM_raises [where P = "\<lambda>e. \<not> is_HTTPException e"] by metis

lemma no_http_bind: "no_http m \<Longrightarrow> (\<And>a. no_http (f a)) \<Longrightarrow> no_http (io_bind m f)"
  unfolding no_http_def by (auto simp: io_simps split: prod.split sum.split) (metis fst_conv)

lemma no_http_tasks: "no_http m \<Longrightarrow> no_http (on_tasks m)"
  by (auto simp: no_http_def on_tasks_def split: prod.split) (metis fst_conv)

lemma steps_no_http:
  assumes "redis_errors_only api"
  shows "no_http (admit_pages api pages)" and "no_http (write_job api job pages fn tr)" and "no_http (put_tasks api job pages tr)"
proof -
  have fault: "\<And>c e. aa_fault api c \<in> {Some (Lost_Request e), Some (Lost_Reply e)} \<Longrightarrow> \<not> is_HTTPException e"
    and len: "\<And>st. no_http (xlen (aa_ops api) st)" and add: "\<And>st f. no_http (xadd (aa_ops api) st f)"
    using assms unfolding redis_errors_only_def no_http_def by blast+
  have ev: "no_http (\<lambda>w. let (v, c) = evaluate a pages ls cu u (aw_now w) (aw_admission w) in (Inr v, w\<lparr>aw_admission := c\<rparr>))"
    for a ls cu u by (auto simp: no_http_def Let_def split: prod.splits)
  show "no_http (admit_pages api pages)"
    unfolding admit_pages_def by (intro no_http_fault no_http_bind no_http_tasks no_http_mapM len ev fault)
  show "no_http (write_job api job pages fn tr)"
    unfolding write_job_def by (intro no_http_fault fault) (simp add: no_http_def io_simps)
  have "no_http (enqueue_pages (aa_ops api) now job pages tr)" for now
    unfolding enqueue_pages_def by (intro no_http_bind no_http_mapM add) (simp add: no_http_def io_simps)
  then show "no_http (put_tasks api job pages tr)"
    using no_http_tasks unfolding no_http_def put_tasks_def by metis
qed

lemma init_job_pages:
  assumes "0 < ttl" and "0 \<le> p" and "p < n"
  shows "page_st t (init_job t now ttl job n meta s) job p = Some PENDING"
  using assms by (simp add: page_st_def get_page_def init_job_def cell_simps)

lemma init_job_progress: "0 < ttl \<Longrightarrow> progress t job (init_job t now ttl job n meta s) = (0, n)"
  by (simp add: progress_def get_job_def init_job_def cell_simps hget_or_def)

definition job_whole ::
  "('s \<Rightarrow> string \<Rightarrow> entry_id \<Rightarrow> fields option) \<Rightarrow> string \<Rightarrow> int \<Rightarrow> string \<Rightarrow> 's api_world \<Rightarrow> bool" where
  "job_whole ent job pages trace_id w \<longleftrightarrow>
     progress (aw_now w) job (aw_store w) = (0, pages)
     \<and> (\<forall>p. 0 \<le> p \<and> p < pages \<longrightarrow> page_st (aw_now w) (aw_store w) job p = Some PENDING
           \<and> (\<exists>i. ent (aw_queue w) (lane_of p) i = Some (page_fields job p (aw_now w) trace_id)))"

definition section_post ::
  "('s \<Rightarrow> string \<Rightarrow> entry_id \<Rightarrow> fields option) \<Rightarrow> int \<Rightarrow> string \<Rightarrow> int \<Rightarrow> string \<Rightarrow> 's api_world
   \<Rightarrow> exc + admission_verdict \<Rightarrow> 's api_world \<Rightarrow> bool" where
  "section_post ent high job pages trace_id w r w' \<longleftrightarrow>
     aw_disk w' = aw_disk w \<and> aw_now w' = aw_now w \<and>
     (case r of
        Inr v \<Rightarrow> job_whole ent job pages trace_id w' \<and> grows (ent (aw_queue w)) (ent (aw_queue w'))
          \<and> queue_len ent (aw_queue w') = queue_len ent (aw_queue w) + pages \<and> queue_len ent (aw_queue w') \<le> high
      | Inl e \<Rightarrow> is_HTTPException e \<longrightarrow> (\<exists>s. e = HTTPException 503 (Some s))
          \<and> aw_store w' = aw_store w \<and> ent (aw_queue w') = ent (aw_queue w))"

context stream_server
begin

lemma put_tasks_spec:
  assumes "aa_ops api = ops" and "ok (aw_queue w)" and "0 \<le> pages" and "put_tasks api job pages tr w = (Inr k, w')"
  shows "w' = w\<lparr>aw_queue := aw_queue w'\<rparr> \<and> grows (ent (aw_queue w)) (ent (aw_queue w'))
    \<and> (\<forall>p. 0 \<le> p \<and> p < pages \<longrightarrow> (\<exists>i. ent (aw_queue w') (lane_of p) i = Some (page_fields job p (aw_now w) tr)))
    \<and> queue_len ent (aw_queue w') = queue_len ent (aw_queue w) + pages"
proof -
  obtain q where q: "enqueue_pages ops (aw_now w) job pages tr (aw_queue w) = (Inr k, q)" "w' = w\<lparr>aw_queue := q\<rparr>"
    using assms(1,4) by (auto simp: put_tasks_def on_tasks_def split: prod.splits)
  then show ?thesis using enqueue_effect [OF assms(2,3) q(1)] by (simp add: lane_len_def queue_len_def)
qed

lemma section_spec:
  assumes "aa_ops api = ops" and "redis_errors_only api" and "0 < se_result_ttl_s (aa_settings api)"
    and "ok (aw_queue w)" and "0 \<le> pages"
  shows "wp (admit_and_enqueue api job pages fn tr) (section_post ent (ac_high (aa_admission api)) job pages tr w) w"
proof -
  obtain r1 w1 where 1: "admit_pages api pages w = (r1, w1)" by fastforce
  have p1: "admit_post ok ent (ac_high (aa_admission api)) pages w r1 w1" by (rule wpD [OF admit_spec [OF assms(1,4)] 1])
  have quiet: "section_post ent (ac_high (aa_admission api)) job pages tr w (Inl e) w'"
    if "aw_disk w' = aw_disk w" "aw_now w' = aw_now w" "\<not> is_HTTPException e" for e w'
    using that by (simp add: section_post_def)
  show ?thesis
  proof (cases r1)
    case (Inl e)
    then have "\<not> is_HTTPException e" using no_httpD [OF steps_no_http(1) [OF assms(2)]] 1 by blast
    then show ?thesis using quiet p1 1 Inl by (simp add: wp_def admit_and_enqueue_def io_simps admit_post_def)
  next
    case (Inr v)
    show ?thesis
    proof (cases "av_admitted v")
      case False
      then show ?thesis using 1 p1 Inr by (simp add: wp_def admit_and_enqueue_def io_simps admit_post_def section_post_def)
    next
      case True
      obtain r2 w2 where 2: "write_job api job pages fn tr w1 = (r2, w2)" by fastforce
      have w2: "aw_disk w2 = aw_disk w1" "aw_now w2 = aw_now w1" "aw_queue w2 = aw_queue w1"
          "r2 = Inr () \<Longrightarrow> aw_store w2 = init_job (aw_now w1) (aw_now w1) (se_result_ttl_s (aa_settings api)) job pages
             [(''filename'', fn), (''trace_id'', tr)] (aw_store w1)"
        using 2 by (auto simp: write_job_def with_fault_def io_simps split: option.splits fault.splits)
      obtain r3 w3 where 3: "put_tasks api job pages tr w2 = (r3, w3)" by fastforce
      have w3: "aw_disk w3 = aw_disk w2" "aw_now w3 = aw_now w2" "aw_store w3 = aw_store w2"
        using 3 by (auto simp: put_tasks_def on_tasks_def split: prod.splits)
      have run: "admit_and_enqueue api job pages fn tr w =
          (case r2 of Inl e \<Rightarrow> (Inl e, w2) | Inr _ \<Rightarrow> (case r3 of Inl e \<Rightarrow> (Inl e, w3) | Inr _ \<Rightarrow> (Inr v, w3)))"
        using 1 2 3 Inr True by (simp add: admit_and_enqueue_def io_simps split: sum.split)
      show ?thesis
      proof (cases "\<exists>e. r2 = Inl e \<or> r3 = Inl e")
        case True
        then show ?thesis
          using no_httpD [OF steps_no_http(2) [OF assms(2)]] no_httpD [OF steps_no_http(3) [OF assms(2)]] 2 3 w2 w3 p1
          unfolding wp_def run by (auto simp: admit_post_def intro!: quiet split: sum.split)
      next
        case False
        then obtain k where r: "r2 = Inr ()" "r3 = Inr k" by (cases r2; cases r3) auto
        have "ok (aw_queue w2)" using p1 w2 by (simp add: admit_post_def)
        note e = put_tasks_spec [OF assms(1) this assms(5) 3 [unfolded r]]
        have "section_post ent (ac_high (aa_admission api)) job pages tr w (Inr v) w3"
          using e p1 w2 w3 r True init_job_pages [OF assms(3)] init_job_progress [OF assms(3)] Inr
          by (simp add: section_post_def job_whole_def admit_post_def queue_len_def)
        then show ?thesis unfolding wp_def run by (simp add: r)
      qed
    qed
  qed
qed

end

section \<open>Jobs without a document\<close>


definition demo_api :: "mem_server api" where
  "demo_api = \<lparr>aa_settings = demo_settings, aa_ops = mem_ops, aa_admission = demo_admission,
     aa_pdf = junk_lib (Inr ''abcdef''), aa_fault = (\<lambda>_. None), aa_rate = None, aa_random = 0\<rparr>"

definition demo_api_world :: "mem_server api_world" where
  "demo_api_world = \<lparr>aw_store = empty_store, aw_queue = empty_mem, aw_admission = None, aw_disk = (\<lambda>_. None), aw_now = 50\<rparr>"

lemma demo_redis: "redis_errors_only demo_api"
  by (simp add: redis_errors_only_def demo_api_def mem_ops_def mem_xadd_def Let_def split: prod.splits)

lemma demo_world_ok: "mem_ok (aw_queue demo_api_world)"
  by (simp add: demo_api_world_def mem_ok_def empty_mem_def)

lemma demo_ttl: "0 < se_result_ttl_s (aa_settings demo_api)"
  by (simp add: demo_api_def demo_settings_def)




section \<open>Jobs with a document\<close>

text \<open>What taking in a stored document leaves behind: the document stays exactly when the job is taken.\<close>

definition ingest_post ::
  "'s api \<Rightarrow> ('s \<Rightarrow> string \<Rightarrow> entry_id \<Rightarrow> fields option) \<Rightarrow> string \<Rightarrow> string \<Rightarrow> int \<Rightarrow> 's api_world
   \<Rightarrow> exc + job_accepted \<Rightarrow> 's api_world \<Rightarrow> bool" where
  "ingest_post api ent job trace_id nbytes w r w' \<longleftrightarrow>
     (case r of
        Inr a \<Rightarrow> aw_disk w' = aw_disk w \<and> ja_bytes a = Some nbytes \<and> 1 \<le> ja_pages a
          \<and> ja_pages a \<le> se_max_pages (aa_settings api) \<and> job_whole ent job (ja_pages a) trace_id w'
          \<and> queue_len ent (aw_queue w') \<le> ac_high (aa_admission api)
      | Inl e \<Rightarrow> is_HTTPException e \<longrightarrow>
          aw_disk w' = snd (delete_document (se_data_dir (aa_settings api)) job (aw_disk w))
          \<and> aw_store w' = aw_store w \<and> ent (aw_queue w') = ent (aw_queue w))"

lemma count_pages_pos: "count_pages lib p d = Inr n \<Longrightarrow> 1 \<le> n"
  by (auto simp: count_pages_def as_invalid_def sum_bind_def split: sum.splits if_splits)

context stream_server
begin

lemma ingest_spec:
  assumes "aa_ops api = ops" and "redis_errors_only api" and "0 < se_result_ttl_s (aa_settings api)"
    and "ok (aw_queue w)" and "\<And>e. count_pages (aa_pdf api) dest (aw_disk w) = Inl e \<Longrightarrow> \<not> is_HTTPException e"
  shows "wp (ingest_document api job dest nbytes fn tr) (ingest_post api ent job tr nbytes w) w"
proof (cases "count_pages (aa_pdf api) dest (aw_disk w)")
  case (Inl e)
  then show ?thesis
    using assms(5) [OF Inl]
    by (simp add: ingest_document_def wp_def io_simps drop_document_def ingest_post_def)
next
  case (Inr n)
  then have n: "1 \<le> n" by (rule count_pages_pos)
  show ?thesis
  proof (cases "n > se_max_pages (aa_settings api)")
    case True
    then show ?thesis
      using Inr by (simp add: ingest_document_def wp_def io_simps drop_document_def ingest_post_def)
  next
    case False
    obtain r w1 where r: "admit_and_enqueue api job n fn tr w = (r, w1)" by fastforce
    have "section_post ent (ac_high (aa_admission api)) job n tr w r w1"
      using wpD [OF section_spec [OF assms(1-4)] r] n by simp
    then show ?thesis
      using Inr False r n
      by (cases r) (auto simp: ingest_document_def wp_def io_simps drop_document_def ingest_post_def section_post_def)
  qed
qed

end

text \<open>
  A document is kept exactly when its job is accepted. However the upload and the calls behind it
  end: when the answer is 202 the file holds the bytes received, and the job is complete for the
  pages counted in it; when it is an HTTP error there is no file of that job, no page row and no
  queue entry was made; in both cases no other document is touched.
\<close>

theorem document_kept_iff_accepted:
  assumes "stream_server (aa_ops api) ok ent owner idle" and "redis_errors_only api"
    and "0 < se_result_ttl_s (aa_settings api)" and "ok (aw_queue w)" and "0 \<le> se_max_upload_mb (aa_settings api)"
    and "\<forall>d e. count_pages (aa_pdf api) dest d = Inl e \<longrightarrow> \<not> is_HTTPException e"
    and "pdf_path (se_data_dir (aa_settings api)) job = Inr dest"
    and "stream_job api open_exc job trace_id body w = (r, w')"
    and "docs = docs_of (se_data_dir (aa_settings api)) (aw_disk w)"
    and "docs' = docs_of (se_data_dir (aa_settings api)) (aw_disk w')"
  shows "(\<forall>a. r = Inr a \<longrightarrow> docs' = insert job docs \<and> ja_bytes a = Some (int (length (upload_data (nonempty body))))
           \<and> (\<exists>f. aw_disk w' dest = Some f \<and> fi_bytes f = upload_data (nonempty body))
           \<and> job_whole ent job (ja_pages a) trace_id w' \<and> 1 \<le> ja_pages a \<and> ja_pages a \<le> se_max_pages (aa_settings api))
    \<and> (\<forall>e. r = Inl e \<and> is_HTTPException e \<longrightarrow> docs' = docs - {job} \<and> aw_store w' = aw_store w
           \<and> ent (aw_queue w') = ent (aw_queue w))"
proof -
  let ?dd = "se_data_dir (aa_settings api)" and ?bs = "upload_data (nonempty body)"
  obtain q d where q: "stream_body_to_disk (of_int (aw_now w) / 1000) open_exc body dest (max_upload_bytes (aa_settings api)) (aw_disk w) = (q, d)"
    by fastforce
  have "0 \<le> max_upload_bytes (aa_settings api)" using assms(5) by (simp add: max_upload_bytes_def)
  then have st: "stored_or_gone ?bs (max_upload_bytes (aa_settings api)) dest (aw_disk w) q d"
    using stream_body_spec q by blast
  note dd = copy_docs [OF assms(7) st]
  show ?thesis
  proof (cases q)
    case (Inl e)
    then have "w' = w\<lparr>aw_disk := d\<rparr>" "\<exists>e. r = Inl e"
      using assms(7,8) q by (auto simp: stream_job_def to_path_def store_upload_def io_simps split: if_splits)
    then show ?thesis using dd Inl assms(9,10) by auto
  next
    case (Inr n)
    let ?w = "w\<lparr>aw_disk := d\<rparr>"
    have run: "ingest_document api job dest n [] trace_id ?w = (r, w')"
      using assms(7,8) q Inr by (simp add: stream_job_def to_path_def store_upload_def io_simps)
    have "ingest_post api ent job trace_id n ?w r w'"
      by (rule wpD [OF stream_server.ingest_spec [OF assms(1) refl assms(2,3)] run]) (use assms(4,6) in auto)
    then show ?thesis
      using dd st Inr assms(9,10) delete_document_docs [of ?dd job d]
      by (cases r) (auto simp: ingest_post_def stored_or_gone_def holds_bytes_def)
  qed
qed

theorem document_kept_iff_accepted_witness:
  "\<exists>a w'. stream_job demo_api None ''j'' ''tr'' [(Inr ''%P'', None), (Inr ''DF'', None)] demo_api_world = (Inr a, w')
     \<and> docs_of [''/'', ''data''] (aw_disk w') = {''j''} \<and> ja_bytes a = Some 4 \<and> job_whole mem_ent ''j'' (ja_pages a) ''tr'' w'"
proof -
  let ?b = "[(Inr ''%P'', None), (Inr ''DF'', None)] :: chunk_event list"
  let ?r = "stream_job demo_api None ''j'' ''tr'' ?b demo_api_world"
  have "\<not> isl (fst ?r)" by code_simp
  then obtain a w' where r: "?r = (Inr a, w')" by (metis prod.collapse sum.collapse(2))
  have s: "stream_server (aa_ops demo_api) mem_ok mem_ent mem_owner mem_idle_of"
    using mem.stream_server_axioms by (simp add: demo_api_def)
  have dd: "se_data_dir (aa_settings demo_api) = [''/'', ''data'']" by (simp add: demo_api_def demo_settings_def)
  have p: "pdf_path (se_data_dir (aa_settings demo_api)) ''j'' = Inr [''/'', ''data'', ''j.pdf'']"
    unfolding dd by (simp add: pdf_path_eq safe_job_id_def safe_char_def char_between_def is_digit_def)
  have mb: "0 \<le> se_max_upload_mb (aa_settings demo_api)" by (simp add: demo_api_def demo_settings_def)
  have c: "\<forall>d e. count_pages (aa_pdf demo_api) q d = Inl e \<longrightarrow> \<not> is_HTTPException e" for q
    by (auto simp: count_pages_def as_invalid_def demo_api_def junk_lib_def open_reader_def sum_bind_def InvalidPdf_def
        split: option.splits if_splits)
  have e: "docs_of [''/'', ''data''] (aw_disk demo_api_world) = {}" by (simp add: docs_of_def demo_api_world_def)
  have data: "int (length (upload_data (nonempty ?b))) = 4" by (simp add: nonempty_def)
  note whole = document_kept_iff_accepted [OF s demo_redis demo_ttl demo_world_ok mb c p r refl refl,
      THEN conjunct1, rule_format, OF refl, unfolded dd e data]
  show ?thesis using r whole by (intro exI [of _ a] exI [of _ w'] conjI) (elim conjE, assumption)+
qed

section \<open>The status of a job\<close>

lemma count_states_eq: "count_states states c = count_list states c"
proof -
  have "fold (\<lambda>st counts. counts(st := counts st + 1)) states f c = f c + count_list states c" for f :: "page_state option \<Rightarrow> nat"
    by (induction states arbitrary: f) auto
  then show ?thesis by (simp add: count_states_def)
qed

lemma count_list_map_upto:
  "count_list (map f [0..n - 1]) c = card {p. 0 \<le> p \<and> p < n \<and> f p = c}"
proof -
  have "count_list (map f xs) c = card {p \<in> set xs. f p = c}" if "distinct xs" for xs :: "int list"
    using that
  proof (induction xs)
    case (Cons x xs)
    have "{p \<in> set (x # xs). f p = c} = (if f x = c then insert x {p \<in> set xs. f p = c} else {p \<in> set xs. f p = c})" by auto
    with Cons show ?case by simp
  qed simp
  moreover have "{p \<in> set [0..n - 1]. f p = c} = {p. 0 \<le> p \<and> p < n \<and> f p = c}" by auto
  ultimately show ?thesis by (metis distinct_upto)
qed

text \<open>
  The status of a job counts every page once. Whenever the status is given, each count is the
  number of pages of the job in that state (or without one), the counts add up to the number of
  pages, and the job is reported complete exactly when the done counter has reached that number.
\<close>

theorem status_counts_every_page:
  assumes "job_status_of t job s = Inr st"
  shows "(\<forall>c. js_state_counts st c = card {p. 0 \<le> p \<and> p < js_total_pages st \<and> page_st t s job p = c})
    \<and> (\<Sum>c \<in> UNIV. js_state_counts st c) = nat (js_total_pages st)
    \<and> progress t job s = (js_done st, js_total_pages st) \<and> (js_complete st \<longleftrightarrow> js_total_pages st \<le> js_done st)"
proof -
  obtain h tot where h: "get_job t job s = Some h" "jh_total_pages h = Some tot"
    using assms by (auto simp: job_status_of_def split: option.splits)
  then have st: "js_total_pages st = tot" "js_done st = (case jh_done_count h of None \<Rightarrow> 0 | Some n \<Rightarrow> n)"
      "js_complete st \<longleftrightarrow> tot \<le> js_done st" "js_state_counts st = count_list (page_states t job tot s)"
    using assms by (auto simp: job_status_of_def count_states_eq Let_def)
  have "(\<Sum>c \<in> UNIV. count_list (page_states t job tot s) c) = length (page_states t job tot s)"
    by (rule sum_count_set) auto
  then have "(\<Sum>c \<in> UNIV. js_state_counts st c) = nat tot" by (simp add: st page_states_def)
  moreover have "js_state_counts st c = card {p. 0 \<le> p \<and> p < tot \<and> page_st t s job p = c}" for c
    unfolding st page_states_def page_st_def by (rule count_list_map_upto)
  moreover have "progress t job s = (js_done st, tot)" by (simp add: progress_def h hget_or_def st)
  ultimately show ?thesis using st(1,3) by simp
qed

theorem status_counts_every_page_witness:
  "\<exists>st. job_status_of 50 ''j'' (init_job 50 50 3600 ''j'' 3 [] empty_store) = Inr st
     \<and> (\<Sum>c \<in> UNIV. js_state_counts st c) = 3 \<and> \<not> js_complete st"
proof -
  let ?s = "init_job 50 50 3600 ''j'' 3 [] empty_store"
  obtain st where st: "job_status_of 50 ''j'' ?s = Inr st" "js_total_pages st = 3" "js_done st = 0"
    by (simp add: job_status_of_def get_job_def init_job_def cell_simps empty_store_def)
  from status_counts_every_page [OF st(1)]
  have "(\<Sum>c \<in> UNIV. js_state_counts st c) = nat (js_total_pages st)" "js_complete st \<longleftrightarrow> js_total_pages st \<le> js_done st"
    by blast+
  then show ?thesis using st by auto
qed

text \<open>A job hash that lost its fields, as a late write to an expired key leaves it, fails the status request.\<close>

lemma recreated_job_status_raises:
  assumes "get_job t job s = Some h" and "jh_total_pages h = None"
  shows "job_status_of t job s = Inl (OtherException ''KeyError'')"
  using assms by (simp add: job_status_of_def)

end
