(* ===== verification/Intake_System.thy ===== *)
theory Intake_System
  imports Job_Api
begin

text \<open>
  Several API processes taking in jobs at once, \<^verbatim>\<open>src/app/main.py\<close> and \<^verbatim>\<open>src/app/api/jobs.py\<close>. The lock
  of the critical section is local to a process, so the sections of different processes interleave
  between their calls: each process is idle, or has been admitted, or has written the job's rows.
  The calls themselves are the definitions of the job intake; a failing one ends the section.
  Workers and the clock move in between. The ghost field \<open>in_written\<close> collects the pages whose rows
  were written.
\<close>

section \<open>The interleaved system\<close>

datatype phase =
    Idle
  | Admitted (ph_job: string) (ph_pages: int) (ph_filename: string) (ph_trace: string)
  | Written (ph_job: string) (ph_pages: int) (ph_trace: string)

record 's intake =
  in_world :: "'s api_world"
  in_phase :: "nat \<Rightarrow> phase"
  in_written :: "(string \<times> int) set"

text \<open>What all processes have in common: the queue, the watermark and the page limit.\<close>

definition shares :: "'s stream_ops \<Rightarrow> int \<Rightarrow> int \<Rightarrow> 's api \<Rightarrow> bool" where
  "shares ops high max_pages api \<longleftrightarrow>
     aa_ops api = ops \<and> ac_high (aa_admission api) = high \<and> se_max_pages (aa_settings api) = max_pages"

definition job_pages :: "string \<Rightarrow> int \<Rightarrow> (string \<times> int) set" where
  "job_pages job n = Pair job ` {0..<n}"

inductive intake_step ::
  "'s stream_ops \<Rightarrow> ('s \<Rightarrow> bool) \<Rightarrow> ('s \<Rightarrow> string \<Rightarrow> entry_id \<Rightarrow> fields option) \<Rightarrow> int \<Rightarrow> int \<Rightarrow> nat
   \<Rightarrow> 's intake \<Rightarrow> 's intake \<Rightarrow> bool"
  for ops ok ent high max_pages n where
  do_admit: "shares ops high max_pages api \<Longrightarrow> r < n \<Longrightarrow> in_phase x r = Idle \<Longrightarrow> 1 \<le> pages \<Longrightarrow> pages \<le> max_pages \<Longrightarrow>
    admit_pages api pages (in_world x) = (Inr v, w) \<Longrightarrow> av_admitted v \<Longrightarrow>
    intake_step ops ok ent high max_pages n x
      (x\<lparr>in_world := w, in_phase := (in_phase x)(r := Admitted job pages filename trace_id)\<rparr>)"
| do_refuse: "shares ops high max_pages api \<Longrightarrow> in_phase x r = Idle \<Longrightarrow>
    admit_pages api pages (in_world x) = (rr, w) \<Longrightarrow>
    intake_step ops ok ent high max_pages n x (x\<lparr>in_world := w\<rparr>)"
| do_write: "shares ops high max_pages api \<Longrightarrow> in_phase x r = Admitted job pages filename trace_id \<Longrightarrow>
    write_job api job pages filename trace_id (in_world x) = (Inr u, w) \<Longrightarrow>
    intake_step ops ok ent high max_pages n x
      (x\<lparr>in_world := w, in_phase := (in_phase x)(r := Written job pages trace_id),
         in_written := in_written x \<union> job_pages job pages\<rparr>)"
| do_write_fails: "shares ops high max_pages api \<Longrightarrow> in_phase x r = Admitted job pages filename trace_id \<Longrightarrow>
    write_job api job pages filename trace_id (in_world x) = (Inl e, w) \<Longrightarrow>
    intake_step ops ok ent high max_pages n x (x\<lparr>in_world := w, in_phase := (in_phase x)(r := Idle)\<rparr>)"
| do_put: "shares ops high max_pages api \<Longrightarrow> in_phase x r = Written job pages trace_id \<Longrightarrow>
    put_tasks api job pages trace_id (in_world x) = (rn, w) \<Longrightarrow>
    intake_step ops ok ent high max_pages n x (x\<lparr>in_world := w, in_phase := (in_phase x)(r := Idle)\<rparr>)"
| do_work: "ok q \<Longrightarrow> queue_len ent q \<le> queue_len ent (aw_queue (in_world x)) \<Longrightarrow>
    (\<And>k. queued (ent q) k \<Longrightarrow> queued (ent (aw_queue (in_world x))) k) \<Longrightarrow> aw_now (in_world x) \<le> t \<Longrightarrow>
    intake_step ops ok ent high max_pages n x (x\<lparr>in_world := (in_world x)\<lparr>aw_queue := q, aw_store := s, aw_now := t\<rparr>\<rparr>)"

text \<open>The start: nothing in progress, the queue within the watermark and no page queued.\<close>

definition intake_start ::
  "('s \<Rightarrow> bool) \<Rightarrow> ('s \<Rightarrow> string \<Rightarrow> entry_id \<Rightarrow> fields option) \<Rightarrow> int \<Rightarrow> 's intake \<Rightarrow> bool" where
  "intake_start ok ent high x \<longleftrightarrow> ok (aw_queue (in_world x)) \<and> queue_len ent (aw_queue (in_world x)) \<le> high
     \<and> (\<forall>r. in_phase x r = Idle) \<and> (\<forall>k. \<not> queued (ent (aw_queue (in_world x))) k)"

inductive intake_reach ::
  "'s stream_ops \<Rightarrow> ('s \<Rightarrow> bool) \<Rightarrow> ('s \<Rightarrow> string \<Rightarrow> entry_id \<Rightarrow> fields option) \<Rightarrow> int \<Rightarrow> int \<Rightarrow> nat
   \<Rightarrow> 's intake \<Rightarrow> bool"
  for ops ok ent high max_pages n where
  start: "intake_start ok ent high x \<Longrightarrow> intake_reach ops ok ent high max_pages n x"
| step: "intake_reach ops ok ent high max_pages n x \<Longrightarrow> intake_step ops ok ent high max_pages n x y \<Longrightarrow>
    intake_reach ops ok ent high max_pages n y"

section \<open>Invariants\<close>

text \<open>Pages that were admitted and are not in the queue yet.\<close>

fun promised :: "phase \<Rightarrow> int" where
  "promised Idle = 0"
| "promised (Admitted _ pages _ _) = pages"
| "promised (Written _ pages _) = pages"

definition intake_inv ::
  "('s \<Rightarrow> bool) \<Rightarrow> ('s \<Rightarrow> string \<Rightarrow> entry_id \<Rightarrow> fields option) \<Rightarrow> int \<Rightarrow> int \<Rightarrow> nat \<Rightarrow> 's intake \<Rightarrow> bool" where
  "intake_inv ok ent high max_pages n x \<longleftrightarrow>
     ok (aw_queue (in_world x))
     \<and> (\<forall>r. 0 \<le> promised (in_phase x r) \<and> promised (in_phase x r) \<le> max max_pages 0)
     \<and> queue_len ent (aw_queue (in_world x)) + (\<Sum>r<n. promised (in_phase x r)) \<le> high + int (n - 1) * max max_pages 0
     \<and> (\<forall>r. n \<le> r \<longrightarrow> in_phase x r = Idle)
     \<and> (\<forall>r job pages tr. in_phase x r = Written job pages tr \<longrightarrow> job_pages job pages \<subseteq> in_written x)
     \<and> {k. queued (ent (aw_queue (in_world x))) k} \<subseteq> in_written x"

lemma sum_promised_upd:
  fixes n :: nat
  assumes "r < n"
  shows "(\<Sum>r'<n. promised ((f(r := ph)) r')) = (\<Sum>r'<n. promised (f r')) - promised (f r) + promised ph"
proof -
  have "(\<Sum>r'<n. promised (g r')) = promised (g r) + (\<Sum>r' \<in> {..<n} - {r}. promised (g r'))" for g
    by (rule sum.remove) (use assms in simp_all)
  from this [of "f(r := ph)"] this [of f] show ?thesis by simp
qed

context stream_server
begin

text \<open>One entry sent, whether or not the reply arrives, and then a list of them up to the first failure.\<close>

lemma xadd_any:
  assumes "ok s" and "xadd ops (lane_of p) (page_fields job p now tr) s = (r, s')"
  shows "ok s' \<and> queue_len ent s' \<le> queue_len ent s + 1 \<and> (\<forall>k. queued (ent s') k \<longrightarrow> queued (ent s) k \<or> k = (job, p))"
proof -
  have "ent s' = ent s \<or> (\<exists>i. ent s (lane_of p) i = None
      \<and> ent s' = (ent s)(lane_of p := (ent s (lane_of p))(i \<mapsto> page_fields job p now tr)))"
    using xadd_law [OF assms(1)] xadd_raise [OF assms(1)] assms(2) by (cases r) blast+
  then show ?thesis
  proof (elim disjE exE conjE)
    fix i
    assume i: "ent s (lane_of p) i = None" "ent s' = (ent s)(lane_of p := (ent s (lane_of p))(i \<mapsto> page_fields job p now tr))"
    have "{j. ent s' (lane_of p) j \<noteq> None} = insert i {j. ent s (lane_of p) j \<noteq> None}" using i by auto
    then have "card {j. ent s' (lane_of p) j \<noteq> None} = Suc (card {j. ent s (lane_of p) j \<noteq> None})"
      using finite_ent [OF assms(1), of "lane_of p"] i(1) by simp
    moreover have "ent s' st = ent s st" if "st \<noteq> lane_of p" for st using that i(2) by simp
    ultimately have "queue_len ent s' \<le> queue_len ent s + 1"
      by (cases "p = 0") (simp_all add: queue_len_def lane_of_def LEAD_STREAM_def STREAM_def)
    moreover have "queued (ent s) k \<or> k = (job, p)" if "queued (ent s') k" for k
      using that i by (auto simp: queued_def split: if_splits)
    ultimately show ?thesis using xadd_ok [OF assms] by blast
  qed (use xadd_ok [OF assms] in \<open>auto simp: queue_len_def\<close>)
qed

lemma xadds_any:
  assumes "ok s" and "io_mapM (\<lambda>p. xadd ops (lane_of p) (page_fields job p now tr)) ps s = (r, s')"
  shows "ok s' \<and> queue_len ent s' \<le> queue_len ent s + int (length ps)
    \<and> (\<forall>k. queued (ent s') k \<longrightarrow> queued (ent s) k \<or> k \<in> Pair job ` set ps)"
  using assms
proof (induction ps arbitrary: s r s')
  case (Cons p ps)
  obtain r1 s1 where 1: "xadd ops (lane_of p) (page_fields job p now tr) s = (r1, s1)" by fastforce
  note one = xadd_any [OF Cons.prems(1) 1]
  show ?case
  proof (cases r1)
    case (Inl e)
    then have "s' = s1" using Cons.prems(2) 1 by (simp add: io_simps)
    then show ?thesis using one by auto
  next
    case (Inr a)
    obtain r2 s2 where 2: "io_mapM (\<lambda>p. xadd ops (lane_of p) (page_fields job p now tr)) ps s1 = (r2, s2)" by fastforce
    have "s' = s2" using Cons.prems(2) 1 2 Inr by (auto simp: io_simps split: sum.splits)
    then show ?thesis using Cons.IH [OF _ 2] one by fastforce
  qed
qed (simp add: io_simps)

lemma put_any:
  assumes "aa_ops api = ops" and "ok (aw_queue w)" and "0 \<le> pages" and "put_tasks api job pages tr w = (r, w')"
  shows "ok (aw_queue w') \<and> queue_len ent (aw_queue w') \<le> queue_len ent (aw_queue w) + pages
    \<and> {k. queued (ent (aw_queue w')) k} \<subseteq> {k. queued (ent (aw_queue w)) k} \<union> job_pages job pages"
proof -
  obtain q r' where "io_mapM (\<lambda>p. xadd ops (lane_of p) (page_fields job p (aw_now w) tr)) [0..pages - 1] (aw_queue w) = (r', q)"
    by fastforce
  moreover from this have "aw_queue w' = q"
    using assms(1,4) by (auto simp: put_tasks_def on_tasks_def enqueue_pages_def lane_of_def [abs_def] io_simps split: prod.splits sum.splits)
  ultimately show ?thesis using xadds_any [OF assms(2)] assms(3) by (fastforce simp: job_pages_def)
qed

lemma admit_queue:
  assumes "shares ops high max_pages api" and "ok (aw_queue w)" and "admit_pages api pages w = (r, w')"
  shows "ok (aw_queue w') \<and> ent (aw_queue w') = ent (aw_queue w)
    \<and> (\<forall>v. r = Inr v \<and> av_admitted v \<longrightarrow> queue_len ent (aw_queue w') + pages \<le> high)"
  using wpD [OF admit_spec [OF _ assms(2)] assms(3)] assms(1)
  by (auto simp: admit_post_def shares_def queue_len_def)

lemma write_queue: "write_job api job pages fn tr w = (r, w') \<Longrightarrow> aw_queue w' = aw_queue w"
  by (auto simp: write_job_def with_fault_def io_simps split: option.splits fault.splits)

text \<open>A step of process \<open>r\<close> to phase \<open>ph\<close>.\<close>

lemma inv_upd:
  assumes "intake_inv ok ent high max_pages n x" and "r < n" and "ok (aw_queue w)"
    and "queue_len ent (aw_queue w) + (\<Sum>r'<n. promised (in_phase x r')) - promised (in_phase x r) + promised ph
           \<le> high + int (n - 1) * max max_pages 0"
    and "0 \<le> promised ph" and "promised ph \<le> max max_pages 0" and "in_written x \<subseteq> wr"
    and "{k. queued (ent (aw_queue w)) k} \<subseteq> wr" and "\<And>job pages tr. ph = Written job pages tr \<Longrightarrow> job_pages job pages \<subseteq> wr"
  shows "intake_inv ok ent high max_pages n (x\<lparr>in_world := w, in_phase := (in_phase x)(r := ph), in_written := wr\<rparr>)"
proof -
  have "job_pages job pages \<subseteq> wr" if "((in_phase x)(r := ph)) r' = Written job pages tr" for r' job pages tr
    using that assms(1,7,9) unfolding intake_inv_def by (cases "r' = r") (auto, blast)
  moreover have "queue_len ent (aw_queue w) + (\<Sum>r'<n. promised (((in_phase x)(r := ph)) r')) \<le> high + int (n - 1) * max max_pages 0"
    using assms(4) sum_promised_upd [OF assms(2), of "in_phase x" ph] by simp
  ultimately show ?thesis using assms unfolding intake_inv_def by simp
qed

lemma others_promised:
  assumes "intake_inv ok ent high max_pages n x" and "r < n" and "in_phase x r = Idle"
  shows "(\<Sum>r'<n. promised (in_phase x r')) \<le> int (n - 1) * max max_pages 0"
proof -
  have "(\<Sum>r'<n. promised (in_phase x r')) = promised (in_phase x r) + (\<Sum>r' \<in> {..<n} - {r}. promised (in_phase x r'))"
    by (rule sum.remove) (use assms(2) in simp_all)
  also have "\<dots> \<le> int (card ({..<n} - {r})) * max max_pages 0"
    using sum_mono [of "{..<n} - {r}" "\<lambda>r'. promised (in_phase x r')" "\<lambda>_. max max_pages 0"] assms(1,3)
    by (simp add: intake_inv_def)
  finally show ?thesis using assms(2) by simp
qed

lemma busy_in_range: "intake_inv ok ent high max_pages n x \<Longrightarrow> in_phase x r \<noteq> Idle \<Longrightarrow> r < n"
  unfolding intake_inv_def by (meson not_le)

lemma inv_bound:
  "intake_inv ok ent high max_pages n x \<Longrightarrow>
     queue_len ent (aw_queue (in_world x)) + (\<Sum>r<n. promised (in_phase x r)) \<le> high + int (n - 1) * max max_pages 0
     \<and> 0 \<le> promised (in_phase x r) \<and> promised (in_phase x r) \<le> max max_pages 0
     \<and> ok (aw_queue (in_world x)) \<and> {k. queued (ent (aw_queue (in_world x))) k} \<subseteq> in_written x"
  by (simp add: intake_inv_def)

lemma inv_step:
  assumes "intake_step ops ok ent high max_pages n x y" and "intake_inv ok ent high max_pages n x"
  shows "intake_inv ok ent high max_pages n y"
  using assms
proof (induction rule: intake_step.induct)
  case (do_admit api r x pages v w job filename trace_id)
  note b = inv_bound [OF do_admit.prems, of r]
  note a = admit_queue [OF do_admit.hyps(1) _ do_admit.hyps(6)]
  show ?case
    using inv_upd [OF do_admit.prems do_admit.hyps(2), of w "Admitted job pages filename trace_id" "in_written x"]
      others_promised [OF do_admit.prems do_admit.hyps(2,3)] a b do_admit.hyps(3-7)
    by simp
next
  case (do_refuse api x r pages rr w)
  then show ?case using admit_queue [OF do_refuse.hyps(1) _ do_refuse.hyps(3)] unfolding intake_inv_def by (simp add: queue_len_def)
next
  case (do_write api x r job pages filename trace_id u w)
  have r: "r < n" using busy_in_range [OF do_write.prems] do_write.hyps(2) by simp
  show ?case
    using inv_upd [OF do_write.prems r, of w "Written job pages trace_id" "in_written x \<union> job_pages job pages"]
      inv_bound [OF do_write.prems, of r] write_queue [OF do_write.hyps(3)] do_write.hyps(2)
    by (simp add: le_supI1)
next
  case (do_write_fails api x r job pages filename trace_id e w)
  have r: "r < n" using busy_in_range [OF do_write_fails.prems] do_write_fails.hyps(2) by simp
  show ?case
    using inv_upd [OF do_write_fails.prems r, of w Idle "in_written x"]
      inv_bound [OF do_write_fails.prems, of r] write_queue [OF do_write_fails.hyps(3)] do_write_fails.hyps(2)
    by simp
next
  case (do_put api x r job pages trace_id rn w)
  have r: "r < n" using busy_in_range [OF do_put.prems] do_put.hyps(2) by simp
  note b = inv_bound [OF do_put.prems, of r]
  have wr: "job_pages job pages \<subseteq> in_written x" using do_put.prems do_put.hyps(2) unfolding intake_inv_def by blast
  have "aa_ops api = ops" using do_put.hyps(1) by (simp add: shares_def)
  then show ?case
    using inv_upd [OF do_put.prems r, of w Idle "in_written x"] b put_any [OF _ _ _ do_put.hyps(3)] do_put.hyps(2) wr by auto
next
  case (do_work q x t s)
  then show ?case unfolding intake_inv_def by auto
qed

lemma inv_reach: "intake_reach ops ok ent high max_pages n x \<Longrightarrow> 0 < n \<Longrightarrow> intake_inv ok ent high max_pages n x"
proof (induction rule: intake_reach.induct)
  case (start x)
  then show ?case by (auto simp: intake_start_def intake_inv_def intro!: add_increasing2 mult_nonneg_nonneg)
qed (use inv_step in blast)

end

section \<open>What holds in every reachable state\<close>



text \<open>Two processes and a watermark of two pages: both are admitted before either has queued its job.\<close>

definition tiny_api :: "mem_server api" where
  "tiny_api = demo_api\<lparr>aa_admission := demo_admission\<lparr>ac_high := 2\<rparr>, aa_settings := demo_settings\<lparr>se_max_pages := 2\<rparr>\<rparr>"

definition tiny_start :: "mem_server intake" where
  "tiny_start = \<lparr>in_world = demo_api_world, in_phase = (\<lambda>_. Idle), in_written = {}\<rparr>"

definition tiny_admit :: "nat \<Rightarrow> string \<Rightarrow> mem_server intake \<Rightarrow> mem_server intake" where
  "tiny_admit r job x = x\<lparr>in_world := snd (admit_pages tiny_api 2 (in_world x)),
     in_phase := (in_phase x)(r := Admitted job 2 [] ''tr'')\<rparr>"

definition tiny_write :: "nat \<Rightarrow> string \<Rightarrow> mem_server intake \<Rightarrow> mem_server intake" where
  "tiny_write r job x = x\<lparr>in_world := snd (write_job tiny_api job 2 [] ''tr'' (in_world x)),
     in_phase := (in_phase x)(r := Written job 2 ''tr''), in_written := in_written x \<union> job_pages job 2\<rparr>"

definition tiny_put :: "nat \<Rightarrow> string \<Rightarrow> mem_server intake \<Rightarrow> mem_server intake" where
  "tiny_put r job x = x\<lparr>in_world := snd (put_tasks tiny_api job 2 ''tr'' (in_world x)), in_phase := (in_phase x)(r := Idle)\<rparr>"

definition tiny_end :: "mem_server intake" where
  "tiny_end = tiny_put 1 ''k'' (tiny_put 0 ''j'' (tiny_write 1 ''k'' (tiny_write 0 ''j''
     (tiny_admit 1 ''k'' (tiny_admit 0 ''j'' tiny_start)))))"

lemma tiny_shares: "shares mem_ops 2 2 tiny_api"
  by (simp add: shares_def tiny_api_def demo_api_def)

lemma tiny_steps:
  assumes "intake_reach mem_ops mem_ok mem_ent 2 2 2 x"
  shows "r < 2 \<Longrightarrow> in_phase x r = Idle \<Longrightarrow> \<not> isl (fst (admit_pages tiny_api 2 (in_world x))) \<Longrightarrow>
      av_admitted (projr (fst (admit_pages tiny_api 2 (in_world x)))) \<Longrightarrow>
      intake_reach mem_ops mem_ok mem_ent 2 2 2 (tiny_admit r job x)"
    and "in_phase x r = Admitted job 2 [] ''tr'' \<Longrightarrow> intake_reach mem_ops mem_ok mem_ent 2 2 2 (tiny_write r job x)"
    and "in_phase x r = Written job 2 ''tr'' \<Longrightarrow> intake_reach mem_ops mem_ok mem_ent 2 2 2 (tiny_put r job x)"
proof -
  show "intake_reach mem_ops mem_ok mem_ent 2 2 2 (tiny_admit r job x)"
    if "r < 2" "in_phase x r = Idle" "\<not> isl (fst (admit_pages tiny_api 2 (in_world x)))"
      "av_admitted (projr (fst (admit_pages tiny_api 2 (in_world x))))"
    unfolding tiny_admit_def using that
    by (intro intake_reach.step [OF assms] intake_step.do_admit [OF tiny_shares that(1,2), of 2 "projr (fst (admit_pages tiny_api 2 (in_world x)))"])
       (simp_all add: prod_eq_iff)
  show "intake_reach mem_ops mem_ok mem_ent 2 2 2 (tiny_write r job x)" if "in_phase x r = Admitted job 2 [] ''tr''"
    unfolding tiny_write_def
    by (intro intake_reach.step [OF assms] intake_step.do_write [OF tiny_shares that])
       (simp add: prod_eq_iff write_job_def with_fault_def tiny_api_def demo_api_def io_simps)
  show "intake_reach mem_ops mem_ok mem_ent 2 2 2 (tiny_put r job x)" if "in_phase x r = Written job 2 ''tr''"
    unfolding tiny_put_def by (rule intake_reach.step [OF assms], rule intake_step.do_put [OF tiny_shares that], rule prod.collapse [symmetric])
qed

lemma tiny_end_reached: "intake_reach mem_ops mem_ok mem_ent 2 2 2 tiny_end"
proof -
  have "intake_start mem_ok mem_ent 2 tiny_start"
    by (simp add: intake_start_def tiny_start_def demo_api_world_def empty_mem_def mem_ok_def queue_len_def mem_ent_def
        mem_find_def queued_def)
  note x0 = intake_reach.start [OF this, of mem_ops 2 2]
  have a: "\<not> isl (fst (admit_pages tiny_api 2 (in_world tiny_start)))"
      "av_admitted (projr (fst (admit_pages tiny_api 2 (in_world tiny_start))))"
      "\<not> isl (fst (admit_pages tiny_api 2 (in_world (tiny_admit 0 ''j'' tiny_start))))"
      "av_admitted (projr (fst (admit_pages tiny_api 2 (in_world (tiny_admit 0 ''j'' tiny_start)))))"
    by code_simp+
  show ?thesis
    unfolding tiny_end_def
    by (intro tiny_steps x0) (use a in \<open>simp_all add: tiny_admit_def tiny_write_def tiny_put_def tiny_start_def\<close>)
qed

lemma tiny_queue:
  "aw_queue (in_world (tiny_admit r job x)) = aw_queue (in_world x)" "aw_now (in_world (tiny_admit r job x)) = aw_now (in_world x)"
  "aw_queue (in_world (tiny_write r job x)) = aw_queue (in_world x)" "aw_now (in_world (tiny_write r job x)) = aw_now (in_world x)"
  "aw_queue (in_world (tiny_put r job x)) = snd (enqueue_pages mem_ops (aw_now (in_world x)) job 2 ''tr'' (aw_queue (in_world x)))"
  "aw_now (in_world (tiny_put r job x)) = aw_now (in_world x)"
  by (simp_all add: tiny_admit_def tiny_write_def tiny_put_def admit_pages_def write_job_def put_tasks_def with_fault_def
      tiny_api_def demo_api_def on_tasks_def STREAMS_def mem_ops_def io_simps Let_def split: prod.split)

lemma tiny_end_queue: "aw_queue (in_world tiny_end) =
    snd (enqueue_pages mem_ops 50 ''k'' 2 ''tr'' (snd (enqueue_pages mem_ops 50 ''j'' 2 ''tr'' empty_mem)))"
  by (simp add: tiny_end_def tiny_queue tiny_start_def demo_api_world_def)



end
