(* ===== verification/Sse_Stream.thy ===== *)
theory Sse_Stream
  imports Result_Stream Page_State
begin

text \<open>
  The event stream of a job, \<^verbatim>\<open>src/app/api/stream.py\<close>: the counted subscriber slots, the route, the
  generator that owns a slot and the error policy, and the generator that catches up and then
  tails. A frame keeps its content as data; \<open>frame_id\<close> is its \<^verbatim>\<open>id:\<close> line. The generators run in a
  world with the job's result stream, the page store and the frames sent so far; before every
  await the rest of the system moves (\<open>sv_step\<close>), the await may raise (\<open>sv_fault\<close>), and at a yield
  the client may be gone (\<open>sv_closed\<close>). The tailing loop takes fuel.
\<close>

section \<open>Subscriber slots\<close>

record subscriber_slots =
  sl_limit :: nat
  sl_active :: nat
  sl_refused :: nat
  sl_peak :: nat

definition new_slots :: "nat \<Rightarrow> subscriber_slots" where
  "new_slots limit = \<lparr>sl_limit = limit, sl_active = 0, sl_refused = 0, sl_peak = 0\<rparr>"

definition slot_acquire :: "subscriber_slots \<Rightarrow> bool \<times> subscriber_slots" where
  "slot_acquire s =
     (if sl_active s \<ge> sl_limit s then (False, s\<lparr>sl_refused := sl_refused s + 1\<rparr>)
      else (True, s\<lparr>sl_active := sl_active s + 1, sl_peak := max (sl_peak s) (sl_active s + 1)\<rparr>))"

definition slot_release :: "subscriber_slots \<Rightarrow> subscriber_slots" where
  "slot_release s = s\<lparr>sl_active := max 0 (sl_active s - 1)\<rparr>"

section \<open>Frames and the world of a generator\<close>

text \<open>Why a client is told that events are missing: the window moved on, the connection is too old, or Redis failed.\<close>

datatype gap_reason = Window_Trimmed | Duration_Limit | Redis_Lost

datatype frame =
    Retry_Frame int
  | Open_Frame (of_total: int) (of_done: int) (of_resumed: "string option") (of_lo: "string option") (of_hi: "string option")
  | Gap_Frame gap_reason "string option"
  | Event_Frame result_event
  | Heartbeat int
  | Derived_Complete int int

fun frame_id :: "frame \<Rightarrow> string option" where
  "frame_id (Event_Frame e) = Some (id_str (re_id e))"
| "frame_id _ = None"

record sse_settings =
  ss_retry_ms :: int
  ss_history_limit :: nat
  ss_batch :: nat
  ss_max_duration_s :: real

record sse_world =
  sw_out :: out_keys
  sw_store :: store
  sw_now :: int
  sw_mono :: real
  sw_sent :: "frame list"
  sw_tick :: nat

record sse_env =
  sv_step :: "nat \<Rightarrow> sse_world \<Rightarrow> sse_world"
  sv_fault :: "nat \<Rightarrow> exc option"
  sv_gone :: "nat \<Rightarrow> bool"
  sv_closed :: "nat \<Rightarrow> bool"

text \<open>An await: the others move, then it raises or sees the world. A yield hands one frame to the client.\<close>

definition sse_await :: "sse_env \<Rightarrow> (sse_world \<Rightarrow> exc + 'a) \<Rightarrow> (sse_world, 'a) io" where
  "sse_await sv f = (\<lambda>w.
     let n = sw_tick w; w1 = (sv_step sv n w)\<lparr>sw_sent := sw_sent w, sw_tick := Suc n\<rparr>
     in case sv_fault sv n of Some e \<Rightarrow> (Inl e, w1) | None \<Rightarrow> (f w1, w1))"

definition yield_frame :: "sse_env \<Rightarrow> frame \<Rightarrow> (sse_world, unit) io" where
  "yield_frame sv f = (\<lambda>w.
     let w1 = w\<lparr>sw_sent := sw_sent w @ [f], sw_tick := Suc (sw_tick w)\<rparr>
     in (if sv_closed sv (sw_tick w) then Inl (OtherException ''GeneratorExit'') else Inr (), w1))"

section \<open>The generator\<close>

text \<open>
  A cursor is the text of an id. Redis refuses a part of 64 bits or more; the client has checked
  nothing but the form.
\<close>

definition cursor_id :: "string \<Rightarrow> exc + stream_id" where
  "cursor_id c =
     (case id_tuple c of
        Some (m, s) \<Rightarrow>
          if m < 2 ^ 64 \<and> s < 2 ^ 64 then Inr (nat m, nat s)
          else Inl (ResponseError ''Invalid stream ID specified as stream command argument'')
      | None \<Rightarrow> Inl (OtherException ''ValueError''))"

definition read_history :: "string option \<Rightarrow> nat \<Rightarrow> sse_world \<Rightarrow> exc + result_event list" where
  "read_history cursor count w =
     (case cursor of
        None \<Rightarrow> Inr (history (sw_now w) None count (sw_out w))
      | Some c \<Rightarrow> (case cursor_id c of
                    Inl e \<Rightarrow> Inl e
                  | Inr i \<Rightarrow> Inr (history (sw_now w) (Some i) count (sw_out w))))"

fun send_events :: "sse_env \<Rightarrow> result_event list \<Rightarrow> stream_id \<Rightarrow> bool \<Rightarrow> (sse_world, stream_id \<times> bool) io" where
  "send_events sv [] last_id ended = io_ret (last_id, ended)"
| "send_events sv (e # es) last_id ended =
     io_seq (yield_frame sv (Event_Frame e))
       (send_events sv es (re_id e) (ended \<or> re_event e = JOB_COMPLETE_EVENT))"

text \<open>\<open>tail_loop\<close>: the value says whether the loop ended; \<^const>\<open>False\<close> is out of fuel.\<close>

fun tail_loop ::
  "nat \<Rightarrow> sse_env \<Rightarrow> sse_settings \<Rightarrow> string \<Rightarrow> real \<Rightarrow> stream_id \<Rightarrow> bool \<Rightarrow> (sse_world, bool) io" where
  "tail_loop fuel sv se job started last_id True = io_ret True"
| "tail_loop 0 sv se job started last_id False = io_ret False"
| "tail_loop (Suc fuel) sv se job started last_id False =
     io_bind (sse_await sv (\<lambda>w. Inr (sv_gone sv (sw_tick w)))) (\<lambda>gone.
     if gone then io_ret True
     else
       io_bind (io_gets (\<lambda>w. sw_mono w - started > ss_max_duration_s se)) (\<lambda>expired.
       if expired then io_seq (yield_frame sv (Gap_Frame Duration_Limit (Some (id_str last_id)))) (io_ret True)
       else
         io_bind (sse_await sv (\<lambda>w. Inr (tail_events (sw_now w) last_id (ss_batch se) (sw_out w)))) (\<lambda>events.
         if events = []
         then
           io_seq (\<lambda>w. yield_frame sv (Heartbeat (sw_now w)) w)
             (io_bind (sse_await sv (\<lambda>w. Inr (progress (sw_now w) job (sw_store w)))) (\<lambda>(done_n, total_now).
              if total_now \<noteq> 0 \<and> done_n \<ge> total_now
              then io_seq (yield_frame sv (Derived_Complete total_now done_n)) (io_ret True)
              else tail_loop fuel sv se job started last_id False))
         else
           io_bind (send_events sv events last_id False) (\<lambda>(last_id', ended).
             tail_loop fuel sv se job started last_id' ended))))"

definition start_id :: "string option \<Rightarrow> stream_id" where
  "start_id cursor = (case cursor of None \<Rightarrow> (0, 0) | Some c \<Rightarrow> (case cursor_id c of Inr i \<Rightarrow> i | Inl _ \<Rightarrow> (0, 0)))"

definition frames :: "nat \<Rightarrow> sse_env \<Rightarrow> sse_settings \<Rightarrow> string \<Rightarrow> int \<Rightarrow> string option \<Rightarrow> (sse_world, bool) io" where
  "frames fuel sv se job tot cursor0 =
     io_bind (io_gets sw_mono) (\<lambda>started.
     io_seq (yield_frame sv (Retry_Frame (ss_retry_ms se)))
     (io_bind (case cursor0 of
                 None \<Rightarrow> io_ret False
               | Some c \<Rightarrow> sse_await sv (\<lambda>w. case gap_after (sw_now w) c (sw_out w) of
                                              None \<Rightarrow> Inl (OtherException ''ValueError'') | Some b \<Rightarrow> Inr b)) (\<lambda>resync.
      let cursor = (if resync then None else cursor0)
      in io_bind (sse_await sv (\<lambda>w. Inr (window (sw_now w) (sw_out w)))) (\<lambda>(lo, hi).
         io_bind (sse_await sv (\<lambda>w. Inr (progress (sw_now w) job (sw_store w)))) (\<lambda>(done_n, _).
         io_seq (yield_frame sv (Open_Frame tot done_n cursor lo hi))
         (io_seq (io_when resync (yield_frame sv (Gap_Frame Window_Trimmed lo)))
         (io_bind (sse_await sv (read_history cursor (ss_history_limit se))) (\<lambda>events.
          io_bind (send_events sv events (start_id cursor) False) (\<lambda>(last_id, ended).
            tail_loop fuel sv se job started last_id ended)))))))))"

section \<open>The slot's owner and the route\<close>

definition is_RedisError :: "exc \<Rightarrow> bool" where
  "is_RedisError e = (case e of RedisError \<Rightarrow> True | ResponseError _ \<Rightarrow> True | _ \<Rightarrow> False)"

text \<open>\<^verbatim>\<open>_events\<close>: the release runs on every exit.\<close>

definition events ::
  "nat \<Rightarrow> sse_env \<Rightarrow> sse_settings \<Rightarrow> string \<Rightarrow> int \<Rightarrow> string option \<Rightarrow> sse_world \<times> subscriber_slots
   \<Rightarrow> (exc + bool) \<times> sse_world \<times> subscriber_slots" where
  "events fuel sv se job tot cursor ws =
     (let (r, w) = io_catch (frames fuel sv se job tot cursor)
            (\<lambda>e. if is_RedisError e then io_seq (yield_frame sv (Gap_Frame Redis_Lost None)) (io_ret True) else io_raise e) (fst ws)
      in (r, w, slot_release (snd ws)))"

text \<open>
  \<^verbatim>\<open>stream_results\<close>: the total and the cursor for the generator, or a refusal. \<open>header\<close> is
  \<^verbatim>\<open>Last-Event-ID\<close>, \<open>query\<close> the parameter.
\<close>

definition stream_results ::
  "sse_settings \<Rightarrow> int \<Rightarrow> string \<Rightarrow> string option \<Rightarrow> string option \<Rightarrow> store \<Rightarrow> subscriber_slots
   \<Rightarrow> (exc + int \<times> string option) \<times> subscriber_slots" where
  "stream_results se t job header query st slots =
     (case get_job t job st of
        None \<Rightarrow> (Inl (HTTPException 404 None), slots)
      | Some h \<Rightarrow>
          let tot = (case jh_total_pages h of None \<Rightarrow> 0 | Some n \<Rightarrow> n);
              cursor = (case parse_entry_id header of Some c \<Rightarrow> Some c | None \<Rightarrow> parse_entry_id query);
              (got, slots') = slot_acquire slots;
              wait_s = ss_retry_ms se div 1000
          in if \<not> got then (Inl (HTTPException 503 (Some (if wait_s = 0 then 1 else wait_s))), slots')
             else (Inr (tot, cursor), slots'))"

section \<open>What a subscriber receives\<close>

definition entries :: "sse_world \<Rightarrow> result_event list" where
  "entries w = live_entries (sw_now w) (sw_out w)"

definition sent_events :: "sse_world \<Rightarrow> result_event list" where
  "sent_events w = concat (map (\<lambda>f. case f of Event_Frame e \<Rightarrow> [e] | _ \<Rightarrow> []) (sw_sent w))"

definition log_ok :: "sse_world \<Rightarrow> bool" where
  "log_ok w \<longleftrightarrow> sorted_wrt id_less (map re_id (entries w)) \<and> list_all (\<lambda>e. id_less (0, 0) (re_id e)) (entries w)"

text \<open>The rest of the system only appends events, with growing ids; nothing is trimmed meanwhile.\<close>

definition appends :: "sse_env \<Rightarrow> bool" where
  "appends sv \<longleftrightarrow> (\<forall>n w. log_ok w \<longrightarrow> log_ok (sv_step sv n w) \<and> (\<exists>es. entries (sv_step sv n w) = entries w @ es))"

definition between :: "stream_id \<Rightarrow> stream_id \<Rightarrow> result_event list \<Rightarrow> result_event list" where
  "between start final = filter (\<lambda>e. id_less start (re_id e) \<and> \<not> id_less final (re_id e))"

definition tailing :: "stream_id \<Rightarrow> stream_id \<Rightarrow> sse_world \<Rightarrow> bool" where
  "tailing start final w \<longleftrightarrow> log_ok w \<and> sent_events w = between start final (entries w)
     \<and> (final = start \<or> id_less start final \<and> final \<in> re_id ` set (entries w))"

lemma id_linear: "id_less a b \<or> a = b \<or> id_less b a"
  by (cases a; cases b) (auto simp: id_less_def)

lemma id_less_asym: "id_less a b \<Longrightarrow> \<not> id_less b a"
  by (auto simp: id_less_def)

lemma between_self [simp]: "between start start es = []"
  by (simp add: between_def filter_empty_conv)

lemma sorted_filter_cons:
  assumes "sorted_wrt id_less (map re_id xs)" and "filter (\<lambda>e. id_less final (re_id e)) xs = e # rest"
    and "\<not> id_less final start"
  shows "between start (re_id e) xs = between start final xs @ [e]"
    and "filter (\<lambda>x. id_less (re_id e) (re_id x)) xs = rest"
proof -
  obtain A B where xs: "xs = A @ e # B" and A: "\<forall>x \<in> set A. \<not> id_less final (re_id x)" and e: "id_less final (re_id e)"
      and B: "filter (\<lambda>x. id_less final (re_id x)) B = rest"
    using assms(2) by (auto simp: filter_eq_Cons_iff)
  have Ae: "id_less (re_id x) (re_id e)" if "x \<in> set A" for x
    using sorted_ids_append [OF _ that] assms(1) xs by blast
  have eB: "id_less (re_id e) (re_id x)" if "x \<in> set B" for x
    using assms(1) that unfolding xs by (auto simp: sorted_wrt_append)
  have se: "id_less start (re_id e)" using assms(3) e id_less_trans id_linear by metis
  have fB: "filter (\<lambda>x. id_less (re_id e) (re_id x)) B = B" "filter (\<lambda>x. id_less final (re_id x)) B = B"
    using eB e id_less_trans by (auto simp: filter_id_conv)
  have fA: "filter (\<lambda>x. id_less (re_id e) (re_id x)) A = []"
    using Ae id_less_asym by (auto simp: filter_empty_conv)
  show "filter (\<lambda>x. id_less (re_id e) (re_id x)) xs = rest" using fA fB B by (simp add: xs)
  have "between start (re_id e) A = filter (\<lambda>x. id_less start (re_id x)) A"
    "between start final A = filter (\<lambda>x. id_less start (re_id x)) A"
    using A Ae unfolding between_def by (auto intro!: filter_cong dest: id_less_asym)
  moreover have "between start (re_id e) B = []" "between start final B = []"
    using eB e id_less_trans unfolding between_def by (auto simp: filter_empty_conv)
  ultimately show "between start (re_id e) xs = between start final xs @ [e]"
    using se e by (simp add: xs between_def)
qed

lemma between_append:
  assumes "log_ok w" and "log_ok w'" and "entries w' = entries w @ es"
    and "final = start \<or> id_less start final \<and> final \<in> re_id ` set (entries w)"
  shows "between start final (entries w') = between start final (entries w)"
proof (cases "final = start")
  case False
  then obtain x where x: "x \<in> set (entries w)" "re_id x = final" using assms(4) by auto
  have "id_less final (re_id e)" if "e \<in> set es" for e
    using assms(2,3) that x by (auto simp: log_ok_def sorted_wrt_append)
  then have "between start final es = []" by (auto simp: between_def filter_empty_conv)
  then show ?thesis by (simp add: assms(3) between_def)
qed simp

lemma tailing_await:
  assumes "appends sv" and "tailing start final w"
    and "\<And>r w'. tailing start final w' \<Longrightarrow> (\<And>a. r = Inr a \<Longrightarrow> f w' = Inr a) \<Longrightarrow> Q r w'"
  shows "wp (sse_await sv f) Q w"
proof -
  let ?w = "(sv_step sv (sw_tick w) w)\<lparr>sw_sent := sw_sent w, sw_tick := Suc (sw_tick w)\<rparr>"
  have "log_ok w" using assms(2) by (simp add: tailing_def)
  then obtain es where "entries (sv_step sv (sw_tick w) w) = entries w @ es" "log_ok (sv_step sv (sw_tick w) w)"
    using assms(1) unfolding appends_def by blast
  then have es: "entries ?w = entries w @ es" "log_ok ?w" by (simp_all add: entries_def log_ok_def)
  have "tailing start final ?w"
    using assms(2) es between_append [of w ?w es final start] unfolding tailing_def
    by (auto simp: sent_events_def)
  then show ?thesis
    using assms(3) by (auto simp: wp_def sse_await_def Let_def split: option.split)
qed

lemma tailing_yield:
  assumes "tailing start final w" and "\<And>e. fr \<noteq> Event_Frame e"
    and "\<And>r w'. tailing start final w' \<Longrightarrow> entries w' = entries w \<Longrightarrow> Q r w'"
  shows "wp (yield_frame sv fr) Q w"
proof -
  have "tailing start final (w\<lparr>sw_sent := sw_sent w @ [fr], sw_tick := Suc (sw_tick w)\<rparr>)"
    using assms(1,2) by (cases fr) (auto simp: tailing_def log_ok_def entries_def sent_events_def)
  then show ?thesis using assms(3) by (simp add: wp_def yield_frame_def Let_def entries_def)
qed

lemma tailing_send:
  assumes "tailing start final w" and "filter (\<lambda>e. id_less final (re_id e)) (entries w) = es @ rest"
  shows "wp (send_events sv es final b) (\<lambda>r w'. \<exists>final'. tailing start final' w' \<and> (\<forall>x. r = Inr x \<longrightarrow> fst x = final')) w"
  using assms
proof (induction es arbitrary: final b w)
  case (Cons e es)
  have so: "sorted_wrt id_less (map re_id (entries w))" and fs: "\<not> id_less final start"
    using Cons.prems(1) by (auto simp: tailing_def log_ok_def dest: id_less_asym)
  have f: "filter (\<lambda>e. id_less final (re_id e)) (entries w) = e # (es @ rest)" using Cons.prems(2) by simp
  note sf = sorted_filter_cons [OF so f fs]
  have in_log: "e \<in> set (entries w)" "id_less final (re_id e)"
  proof -
    have "e \<in> set (filter (\<lambda>e. id_less final (re_id e)) (entries w))" unfolding f by simp
    then show "e \<in> set (entries w)" and "id_less final (re_id e)" by simp_all
  qed
  let ?w = "w\<lparr>sw_sent := sw_sent w @ [Event_Frame e], sw_tick := Suc (sw_tick w)\<rparr>"
  have "id_less start (re_id e)" using in_log(2) fs id_less_trans id_linear by metis
  then have t: "tailing start (re_id e) ?w"
    using Cons.prems(1) sf(1) in_log(1) by (auto simp: tailing_def log_ok_def entries_def sent_events_def)
  have ih: "wp (send_events sv es (re_id e) c) (\<lambda>r w'. \<exists>final'. tailing start final' w' \<and> (\<forall>x. r = Inr x \<longrightarrow> fst x = final')) ?w" for c
    by (rule Cons.IH [OF t]) (use sf(2) in \<open>simp add: entries_def\<close>)
  have y: "wp (yield_frame sv (Event_Frame e)) P w"
    if "P (Inr ()) ?w" "P (Inl (OtherException ''GeneratorExit'')) ?w" for P
    using that by (simp add: wp_def yield_frame_def Let_def)
  show ?case
    unfolding send_events.simps wp_seq by (rule y; simp only: sum.case) (rule ih, use t in blast)
qed (auto simp: wp_simps)

lemma wp_get [wp_simps]: "wp (io_gets f) Q w \<longleftrightarrow> Q (Inr (f w)) w"
  by (simp add: wp_def io_simps)

definition delivered :: "stream_id \<Rightarrow> sse_world \<Rightarrow> bool" where
  "delivered start w \<longleftrightarrow> (\<exists>final. tailing start final w)"

lemma deliveredI: "tailing start final w \<Longrightarrow> delivered start w"
  unfolding delivered_def by blast

lemma tailing_batch:
  assumes "appends sv" and "tailing start final w" and "es = take k (filter (\<lambda>e. id_less final (re_id e)) (entries w))"
    and "\<And>final' b w'. tailing start final' w' \<Longrightarrow> wp (cont final' b) (\<lambda>_. delivered start) w'"
  shows "wp (io_bind (send_events sv es final c) (\<lambda>(final', b). cont final' b)) (\<lambda>_. delivered start) w"
  unfolding wp_bind
proof (rule wp_mono [OF tailing_send [OF assms(2)]])
  show "filter (\<lambda>e. id_less final (re_id e)) (entries w) = es @ drop k (filter (\<lambda>e. id_less final (re_id e)) (entries w))"
    by (simp add: assms(3))
  fix r :: "exc + stream_id \<times> bool" and w'
  assume "\<exists>final'. tailing start final' w' \<and> (\<forall>x. r = Inr x \<longrightarrow> fst x = final')"
  then obtain final' where f: "tailing start final' w'" "\<forall>x. r = Inr x \<longrightarrow> fst x = final'" by (elim exE conjE)
  show "case r of Inl e \<Rightarrow> delivered start w' | Inr x \<Rightarrow> wp (case x of (final', b) \<Rightarrow> cont final' b) (\<lambda>_. delivered start) w'"
  proof (cases r)
    case (Inr x)
    then have "fst x = final'" using f(2) by blast
    then show ?thesis using assms(4) [OF f(1), of "snd x"] Inr by (cases x) simp
  qed (use deliveredI [OF f(1)] in simp)
qed

lemma tailing_loop:
  assumes "appends sv"
  shows "tailing start final w \<Longrightarrow> wp (tail_loop fuel sv se job started final b) (\<lambda>_. delivered start) w"
proof (induction fuel arbitrary: final b w)
  case 0
  then show ?case by (cases b) (auto simp: wp_simps intro: deliveredI)
next
  case (Suc fuel)
  show ?case
  proof (cases b)
    case True
    then show ?thesis using Suc.prems by (auto simp: wp_simps intro: deliveredI)
  next
    case False
    have idle: "wp (io_seq (\<lambda>w. yield_frame sv (Heartbeat (sw_now w)) w)
             (io_bind (sse_await sv (\<lambda>w. Inr (progress (sw_now w) job (sw_store w)))) (\<lambda>(done_n, total_now).
              if total_now \<noteq> 0 \<and> done_n \<ge> total_now
              then io_seq (yield_frame sv (Derived_Complete total_now done_n)) (io_ret True)
              else tail_loop fuel sv se job started final False))) (\<lambda>_. delivered start) v"
      if "tailing start final v" for v
    proof -
      have hb: "wp (\<lambda>w. yield_frame sv (Heartbeat (sw_now w)) w) Q v" if "wp (yield_frame sv (Heartbeat (sw_now v))) Q v" for Q
        using that by (simp add: wp_def)
      show ?thesis
        unfolding wp_seq
        by (rule hb, rule tailing_yield [OF that])
           (auto simp: wp_bind wp_seq wp_ret split: sum.split
              intro!: tailing_await [OF assms] tailing_yield Suc.IH intro: deliveredI)
    qed
    have batch: "wp (io_bind (send_events sv es final False) (\<lambda>(last_id', ended).
             tail_loop fuel sv se job started last_id' ended)) (\<lambda>_. delivered start) v"
      if "tailing start final v" "es = tail_events (sw_now v) final (ss_batch se) (sw_out v)" for v es
      by (rule tailing_batch [OF assms that(1)]) (use that(2) Suc.IH in \<open>auto simp: tail_events_def entries_def\<close>)
    have b: "b = False" using False by simp
    have fetch: "wp (io_bind (sse_await sv (\<lambda>w. Inr (tail_events (sw_now w) final (ss_batch se) (sw_out w)))) (\<lambda>events.
         if events = []
         then
           io_seq (\<lambda>w. yield_frame sv (Heartbeat (sw_now w)) w)
             (io_bind (sse_await sv (\<lambda>w. Inr (progress (sw_now w) job (sw_store w)))) (\<lambda>(done_n, total_now).
              if total_now \<noteq> 0 \<and> done_n \<ge> total_now
              then io_seq (yield_frame sv (Derived_Complete total_now done_n)) (io_ret True)
              else tail_loop fuel sv se job started final False))
         else
           io_bind (send_events sv events final False) (\<lambda>(last_id', ended).
             tail_loop fuel sv se job started last_id' ended))) (\<lambda>_. delivered start) v"
      if "tailing start final v" for v
      unfolding wp_bind [of "sse_await sv f" for f]
      apply (rule tailing_await [OF assms that])
      subgoal for r v'
        apply (cases r)
        subgoal by (simp add: deliveredI)
        subgoal premises p for es
        proof -
          have "es = tail_events (sw_now v') final (ss_batch se) (sw_out v')" using p(2) [OF p(3)] by simp
          then show ?thesis
            using idle [OF p(1)] batch [OF p(1)] p(3) by (cases "es = []") (simp_all only: sum.case if_True if_False simp_thms)
        qed
        done
      done
    have timed: "wp (io_bind (io_gets g) (\<lambda>expired.
        if expired then io_seq (yield_frame sv (Gap_Frame Duration_Limit gl)) (io_ret True) else m)) (\<lambda>_. delivered start) v"
      if "tailing start final v" "wp m (\<lambda>_. delivered start) v" for v g gl m
      unfolding wp_bind wp_get sum.case using that(2)
      by (cases "g v") (auto simp: wp_seq wp_ret split: sum.split intro!: tailing_yield [OF that(1)] intro: deliveredI)
    show ?thesis
      unfolding b tail_loop.simps wp_bind [of "sse_await sv (\<lambda>w. Inr (sv_gone sv (sw_tick w)))"]
      apply (rule tailing_await [OF assms Suc.prems])
      subgoal for r v
        apply (cases r)
        subgoal by (simp add: deliveredI)
        subgoal for gone
          using timed [of v] fetch [of v] by (cases gone) (simp_all only: sum.case if_True if_False wp_ret deliveredI)
        done
      done
  qed
qed

text \<open>Before the first event nothing has been sent that counts.\<close>

definition unsent :: "sse_world \<Rightarrow> bool" where
  "unsent w \<longleftrightarrow> log_ok w \<and> sent_events w = []"

lemma unsent_tailing: "unsent w \<longleftrightarrow> tailing start start w"
  by (simp add: unsent_def tailing_def)

lemma unsent_delivered: "unsent w \<Longrightarrow> delivered start w"
  using unsent_tailing deliveredI by blast

lemma unsent_await:
  assumes "appends sv" and "unsent w" and "\<And>r w'. unsent w' \<Longrightarrow> (\<And>a. r = Inr a \<Longrightarrow> f w' = Inr a) \<Longrightarrow> Q r w'"
  shows "wp (sse_await sv f) Q w"
  by (rule tailing_await [OF assms(1), of "(0, 0)" "(0, 0)"])
     (use assms(2,3) in \<open>simp_all only: unsent_tailing [of _ "(0, 0)"]\<close>)

lemma unsent_yield:
  assumes "unsent w" and "\<And>e. fr \<noteq> Event_Frame e" and "\<And>r w'. unsent w' \<Longrightarrow> Q r w'"
  shows "wp (yield_frame sv fr) Q w"
  by (rule tailing_yield [of "(0, 0)" "(0, 0)"]) (use assms in \<open>simp_all only: unsent_tailing [of _ "(0, 0)"] not_False_eq_True\<close>)

lemma unsent_bind:
  assumes "appends sv" and "unsent w" and "\<And>a w'. unsent w' \<Longrightarrow> wp (k a) Q w'" and "\<And>e w'. unsent w' \<Longrightarrow> Q (Inl e) w'"
  shows "wp (io_bind (sse_await sv f) k) Q w"
  unfolding wp_bind by (rule unsent_await [OF assms(1,2)]) (simp add: assms(3,4) split: sum.split)

lemma unsent_seq:
  assumes "unsent w" and "\<And>e. fr \<noteq> Event_Frame e" and "\<And>w'. unsent w' \<Longrightarrow> wp k Q w'" and "\<And>e w'. unsent w' \<Longrightarrow> Q (Inl e) w'"
  shows "wp (io_seq (yield_frame sv fr) k) Q w"
  unfolding wp_seq by (rule unsent_yield [OF assms(1,2)]) (simp add: assms(3,4) split: sum.split)

lemma history_filter:
  assumes "log_ok w" and "read_history cursor n w = Inr es"
  shows "es = take n (filter (\<lambda>e. id_less (start_id cursor) (re_id e)) (entries w))"
proof (cases cursor)
  case None
  moreover have "filter (\<lambda>e. id_less (0, 0) (re_id e)) (entries w) = entries w"
    using assms(1) by (simp add: log_ok_def list_all_iff filter_id_conv)
  ultimately show ?thesis using assms(2) by (simp add: read_history_def history_def start_id_def entries_def)
next
  case (Some c)
  then show ?thesis using assms(2) by (auto simp: read_history_def history_def start_id_def entries_def split: sum.splits)
qed

lemma replay_delivers:
  assumes "appends sv" and "unsent w"
  shows "wp (io_bind (sse_await sv (read_history cursor n)) (\<lambda>es.
          io_bind (send_events sv es (start_id cursor) False) (\<lambda>(last_id, ended).
            tail_loop fuel sv se job started last_id ended))) (\<lambda>_. delivered (start_id cursor)) w"
  unfolding wp_bind [of "sse_await sv f" for f]
  apply (rule unsent_await [OF assms])
  subgoal premises p for r w'
  proof (cases r)
    case (Inl e)
    then show ?thesis using unsent_delivered [OF p(1)] by simp
  next
    case (Inr es)
    have "es = take n (filter (\<lambda>e. id_less (start_id cursor) (re_id e)) (entries w'))"
      by (rule history_filter) (use p in \<open>auto simp: unsent_def Inr\<close>)
    then show ?thesis
      unfolding Inr sum.case
      by (intro tailing_batch [OF assms(1)] tailing_loop [OF assms(1)]) (use p(1) unsent_tailing in blast)+
  qed
  done

lemma frames_deliver:
  assumes "appends sv" and "unsent w"
  shows "wp (frames fuel sv se job tot cursor) (\<lambda>_ w'. delivered (start_id cursor) w' \<or> delivered (0, 0) w') w"
proof -
  let ?Q = "\<lambda>_ w'. delivered (start_id cursor) w' \<or> delivered (0, 0) w'"
  have none: "start_id None = (0, 0)" by (simp add: start_id_def)
  have tl: "wp (io_bind (sse_await sv (read_history c n)) (\<lambda>es.
          io_bind (send_events sv es (start_id c) False) (\<lambda>(last_id, ended).
            tail_loop fuel sv se job started last_id ended))) ?Q v"
    if "unsent v" "c = cursor \<or> c = None" for v c n started
    by (rule wp_mono [OF replay_delivers [OF assms(1) that(1)]]) (use that(2) none in auto)
  have body: "wp (io_bind (sse_await sv (\<lambda>w. Inr (window (sw_now w) (sw_out w)))) (\<lambda>(lo, hi).
         io_bind (sse_await sv (\<lambda>w. Inr (progress (sw_now w) job (sw_store w)))) (\<lambda>(done_n, _).
         io_seq (yield_frame sv (Open_Frame tot done_n c lo hi))
         (io_seq (io_when resync (yield_frame sv (Gap_Frame Window_Trimmed lo)))
         (io_bind (sse_await sv (read_history c n)) (\<lambda>es.
          io_bind (send_events sv es (start_id c) False) (\<lambda>(last_id, ended).
            tail_loop fuel sv se job started last_id ended))))))) ?Q v"
    if "unsent v" "c = cursor \<or> c = None" for v c n started resync
  proof -
    have gap: "wp (io_seq (io_when resync (yield_frame sv (Gap_Frame Window_Trimmed lo))) m) ?Q v'"
      if "unsent v'" "\<And>u. unsent u \<Longrightarrow> wp m ?Q u" for lo m v'
      using that unsent_seq [OF that(1), of "Gap_Frame Window_Trimmed lo" m ?Q] unsent_delivered
      by (cases resync) (auto simp: io_when_def io_seq_def wp_bind wp_ret)
    show ?thesis
      by (rule unsent_bind [OF assms(1) that(1)], clarsimp, rule unsent_bind [OF assms(1)], assumption, clarsimp,
          rule unsent_seq, assumption, simp, rule gap, assumption, rule tl [OF _ that(2)], assumption)
         (simp_all add: unsent_delivered)
  qed
  show ?thesis
    unfolding frames_def Let_def wp_bind [of "io_gets f" for f] wp_get sum.case
    apply (rule unsent_seq [OF assms(2)], simp)
    subgoal for w1
      apply (cases cursor)
      subgoal using body [of w1 cursor] by (simp add: wp_bind [of "io_ret x" for x] wp_ret)
      subgoal for c
        apply (simp only: option.case)
        apply (rule unsent_bind [OF assms(1)], assumption)
        subgoal for resync w2 using body [of w2] by simp
        subgoal by (simp add: unsent_delivered)
        done
      done
    subgoal by (simp add: unsent_delivered)
    done
qed


definition demo_log :: out_keys where
  "demo_log = \<lparr>ok_stream = Some (\<lparr>ol_entries =
       [\<lparr>re_id = (100, 0), re_seq = 1, re_event = PAGE_FINAL, re_data = JObj []\<rparr>,
        \<lparr>re_id = (120, 0), re_seq = 2, re_event = JOB_COMPLETE_EVENT, re_data = JObj []\<rparr>], ol_last = (120, 0)\<rparr>, None),
     ok_seq = Some (2, None)\<rparr>"

definition demo_sse :: sse_settings where
  "demo_sse = \<lparr>ss_retry_ms = 2000, ss_history_limit = 512, ss_batch = 64, ss_max_duration_s = 900\<rparr>"

definition still_env :: sse_env where
  "still_env = \<lparr>sv_step = (\<lambda>_ w. w), sv_fault = (\<lambda>_. None), sv_gone = (\<lambda>_. False), sv_closed = (\<lambda>_. False)\<rparr>"

definition demo_sse_world :: sse_world where
  "demo_sse_world = \<lparr>sw_out = demo_log, sw_store = init_job 50 50 3600 ''j'' 1 [] empty_store, sw_now = 150, sw_mono = 0,
     sw_sent = [], sw_tick = 0\<rparr>"


section \<open>Slots\<close>

text \<open>
  Connections to one process: a request is accepted or refused, and an accepted one ends, in any
  way, when its generator ends. \<open>open_streams\<close> counts the accepted ones that have not ended.
\<close>

datatype slot_event = Request | Ended

fun slot_run :: "slot_event list \<Rightarrow> nat \<Rightarrow> subscriber_slots \<Rightarrow> nat \<times> subscriber_slots" where
  "slot_run [] open_streams s = (open_streams, s)"
| "slot_run (Request # evs) open_streams s =
     (let (got, s') = slot_acquire s in slot_run evs (if got then Suc open_streams else open_streams) s')"
| "slot_run (Ended # evs) open_streams s =
     (if open_streams = 0 then slot_run evs 0 s else slot_run evs (open_streams - 1) (slot_release s))"

lemma slot_run_inv:
  assumes "sl_active s = n" and "n \<le> sl_limit s" and "sl_peak s \<le> sl_limit s" and "slot_run evs n s = (m, s')"
  shows "sl_active s' = m \<and> m \<le> sl_limit s' \<and> sl_limit s' = sl_limit s \<and> sl_peak s' \<le> sl_limit s'
    \<and> sl_refused s \<le> sl_refused s'"
  using assms
proof (induction evs arbitrary: n s)
  case (Cons ev evs)
  show ?case
  proof (cases ev)
    case Request
    show ?thesis
    proof (cases "sl_active s \<ge> sl_limit s")
      case True
      have "slot_run evs n (s\<lparr>sl_refused := sl_refused s + 1\<rparr>) = (m, s')"
        using Cons.prems(4) Request True by (simp add: slot_acquire_def)
      from Cons.IH [OF _ _ _ this] Cons.prems(1-3) show ?thesis by simp
    next
      case False
      have "slot_run evs (Suc n) (s\<lparr>sl_active := sl_active s + 1, sl_peak := max (sl_peak s) (sl_active s + 1)\<rparr>) = (m, s')"
        using Cons.prems(4) Request False by (simp add: slot_acquire_def)
      from Cons.IH [OF _ _ _ this] Cons.prems(1-3) False show ?thesis by simp
    qed
  next
    case Ended
    show ?thesis
    proof (cases "n = 0")
      case True
      then show ?thesis using Cons.prems Cons.IH [of s 0] Ended by simp
    next
      case False
      have "slot_run evs (n - 1) (slot_release s) = (m, s')" using Cons.prems(4) Ended False by simp
      from Cons.IH [OF _ _ _ this] Cons.prems(1-3) show ?thesis by (simp add: slot_release_def le_diff_conv)
    qed
  qed
qed simp

text \<open>
  Subscriber slots are counted exactly. After any sequence of requests and ended streams the
  active count is the number of open streams and never exceeds the limit, the recorded peak does
  not either; a stream gives its slot back on every way out, once; and a request that is refused
  or that names an unknown job takes none.
\<close>

theorem slots_exact:
  assumes "slot_run evs 0 (new_slots limit) = (open_streams, slots)"
  shows "sl_active slots = open_streams \<and> open_streams \<le> limit \<and> sl_peak slots \<le> limit
    \<and> snd (snd (events fuel sv se job tot cursor (w, slots))) = slot_release slots
    \<and> (\<forall>e slots'. stream_results se t job header query st slots = (Inl e, slots') \<longrightarrow> sl_active slots' = sl_active slots)
    \<and> (\<forall>x slots'. stream_results se t job header query st slots = (Inr x, slots') \<longrightarrow>
          sl_active slots' = Suc (sl_active slots) \<and> sl_active slots' \<le> limit)"
proof -
  have "sl_active slots = open_streams \<and> open_streams \<le> sl_limit slots \<and> sl_limit slots = limit \<and> sl_peak slots \<le> sl_limit slots"
    using slot_run_inv [OF _ _ _ assms] by (simp add: new_slots_def)
  then show ?thesis
    by (auto simp: events_def stream_results_def slot_acquire_def Let_def split: prod.splits option.splits if_splits)
qed

theorem slots_exact_witness:
  "\<exists>n slots. slot_run [Request, Request, Request, Ended, Request] 0 (new_slots 2) = (n, slots) \<and> sl_active slots = n \<and> n \<le> 2
     \<and> sl_refused slots = 1"
proof -
  let ?r = "slot_run [Request, Request, Request, Ended, Request] 0 (new_slots 2)"
  obtain n slots where r: "?r = (n, slots)" by fastforce
  have "sl_refused (snd ?r) = 1" by code_simp
  moreover have "sl_active slots = n" "n \<le> 2" using slots_exact [OF r] by blast+
  ultimately show ?thesis using r by (intro exI [of _ n] exI [of _ slots]) simp
qed

text \<open>
  The release is in the generator, so a response that is dropped before the generator starts
  keeps its slot: the request took one and nothing gives it back.
\<close>

lemma unstarted_stream_keeps_slot:
  assumes "stream_results se t job header query st slots = (Inr x, slots')"
  shows "sl_active slots' = Suc (sl_active slots)"
  using assms by (auto simp: stream_results_def slot_acquire_def Let_def split: option.splits if_splits prod.splits)

section \<open>The end of a stream\<close>

definition ticking :: "sse_env \<Rightarrow> bool" where
  "ticking sv \<longleftrightarrow> (\<forall>n w. sw_mono w + 1 / 1000 \<le> sw_mono (sv_step sv n w))"

lemma ticking_await:
  assumes "ticking sv" and "\<And>r w'. sw_mono w + 1 / 1000 \<le> sw_mono w' \<Longrightarrow> Q r w'"
  shows "wp (sse_await sv f) Q w"
  using assms by (auto simp: wp_def sse_await_def ticking_def Let_def split: option.split)

lemma yield_mono: "(\<And>r w'. sw_mono w' = sw_mono w \<Longrightarrow> Q r w') \<Longrightarrow> wp (yield_frame sv f) Q w"
  by (simp add: wp_def yield_frame_def Let_def)

lemma send_mono: "wp (send_events sv es final b) (\<lambda>r w'. sw_mono w' = sw_mono w) w"
proof (induction es arbitrary: final b w)
  case (Cons e es)
  show ?case
    unfolding send_events.simps wp_seq
    by (rule yield_mono) (auto split: sum.split intro: wp_mono [OF Cons])
qed (simp add: wp_ret)

lemma loop_ends:
  assumes "ticking sv" and "ss_max_duration_s se - (sw_mono w - started) < real (Suc fuel) / 1000"
  shows "wp (tail_loop (Suc fuel) sv se job started final b) (\<lambda>r _. r \<noteq> Inr False) w"
  using assms(2)
proof (induction fuel arbitrary: final b w)
  case (0 final b w)
  have "wp (tail_loop (Suc 0) sv se job started final False) (\<lambda>r _. r \<noteq> Inr False) w"
    unfolding tail_loop.simps wp_bind [of "sse_await sv (\<lambda>w. Inr (sv_gone sv (sw_tick w)))"]
    apply (rule ticking_await [OF assms(1)])
    subgoal premises p for r w1
      using p 0 by (cases r) (auto simp: wp_ret wp_bind wp_get wp_seq split: sum.split intro: yield_mono)
    done
  then show ?case by (cases b) (simp_all add: wp_ret)
next
  case (Suc fuel final b w)
  have again: "wp (tail_loop (Suc fuel) sv se job started final' b') (\<lambda>r _. r \<noteq> Inr False) v"
    if "sw_mono w + 1 / 1000 \<le> sw_mono v" for final' b' v
    by (rule Suc.IH) (use Suc.prems that in \<open>simp add: field_simps\<close>)
  have idle: "wp (io_seq (\<lambda>w. yield_frame sv (Heartbeat (sw_now w)) w)
             (io_bind (sse_await sv (\<lambda>w. Inr (progress (sw_now w) job (sw_store w)))) (\<lambda>(done_n, total_now).
              if total_now \<noteq> 0 \<and> done_n \<ge> total_now
              then io_seq (yield_frame sv (Derived_Complete total_now done_n)) (io_ret True)
              else tail_loop (Suc fuel) sv se job started final False))) (\<lambda>r _. r \<noteq> Inr False) v"
    if "sw_mono w + 1 / 1000 \<le> sw_mono v" for v
  proof -
    have hb: "wp (\<lambda>w. yield_frame sv (Heartbeat (sw_now w)) w) Q v" if "wp (yield_frame sv (Heartbeat (sw_now v))) Q v" for Q
      using that by (simp add: wp_def)
    show ?thesis
      unfolding wp_seq
      apply (rule hb, rule yield_mono)
      subgoal premises p for r v1
        using p that
        by (cases r) (auto simp del: tail_loop.simps simp: wp_bind wp_seq wp_ret split: sum.split
          intro!: ticking_await [OF assms(1)] yield_mono again)
      done
  qed
  have batch: "wp (io_bind (send_events sv es final False) (\<lambda>(last_id', ended).
             tail_loop (Suc fuel) sv se job started last_id' ended)) (\<lambda>r _. r \<noteq> Inr False) v"
    if "sw_mono w + 1 / 1000 \<le> sw_mono v" for v es
    unfolding wp_bind
    by (rule wp_mono [OF send_mono]) (use that in \<open>auto simp del: tail_loop.simps split: sum.split intro!: again\<close>)
  have "wp (tail_loop (Suc (Suc fuel)) sv se job started final False) (\<lambda>r _. r \<noteq> Inr False) w"
    unfolding tail_loop.simps(3) [of "Suc fuel"] wp_bind [of "sse_await sv (\<lambda>w. Inr (sv_gone sv (sw_tick w)))"]
    apply (rule ticking_await [OF assms(1)])
    subgoal premises p for r w1
    proof (cases r)
      case (Inr gone)
      have "wp (sse_await sv (\<lambda>w. Inr (tail_events (sw_now w) final (ss_batch se) (sw_out w))))
         (\<lambda>r v. case r of Inl e \<Rightarrow> Inl e \<noteq> Inr False | Inr es \<Rightarrow> wp (if es = []
         then
           io_seq (\<lambda>w. yield_frame sv (Heartbeat (sw_now w)) w)
             (io_bind (sse_await sv (\<lambda>w. Inr (progress (sw_now w) job (sw_store w)))) (\<lambda>(done_n, total_now).
              if total_now \<noteq> 0 \<and> done_n \<ge> total_now
              then io_seq (yield_frame sv (Derived_Complete total_now done_n)) (io_ret True)
              else tail_loop (Suc fuel) sv se job started final False))
         else
           io_bind (send_events sv es final False) (\<lambda>(last_id', ended).
             tail_loop (Suc fuel) sv se job started last_id' ended)) (\<lambda>r _. r \<noteq> Inr False) v) w1"
        apply (rule ticking_await [OF assms(1)])
        subgoal for r' v using p idle [of v] batch [of v] by (cases r') (simp_all del: tail_loop.simps)
        done
      then show ?thesis
        using Inr by (auto simp del: tail_loop.simps simp: wp_ret wp_bind [of "io_gets f" for f] wp_get wp_seq
          wp_bind [of "sse_await sv f" for f] split: sum.split intro: yield_mono)
    qed simp
    done
  then show ?case by (cases b) (simp_all del: tail_loop.simps(3) add: wp_ret)
qed

text \<open>
  C31. The tailing loop ends. If the clock moves at least a millisecond while a round waits for events
  and every round's calls return, the loop ends within as many rounds as the duration limit has
  milliseconds, plus one: the job completes, the client goes, or the limit closes the stream. So
  a stream that never sees its completion does not hold its slot for ever.
\<close>

theorem tail_loop_ends:
  assumes "ticking sv" and "started \<le> sw_mono w" and "ss_max_duration_s se < real (Suc fuel) / 1000"
  shows "fst (tail_loop (Suc fuel) sv se job started last_id ended w) \<noteq> Inr False"
  using loop_ends [OF assms(1), of se w started fuel job last_id ended] assms(2,3) by (simp add: wp_def)

theorem tail_loop_ends_witness:
  "fst (tail_loop (Suc 900000) (still_env\<lparr>sv_step := (\<lambda>_ w. w\<lparr>sw_mono := sw_mono w + 15\<rparr>)\<rparr>) demo_sse ''j'' 0 (120, 0) False
       demo_sse_world) \<noteq> Inr False"
  by (rule tail_loop_ends) (simp_all add: ticking_def demo_sse_def demo_sse_world_def)

text \<open>
  The completion backstop can overtake the last page. When the wait for events ends empty and the
  last page commits and publishes just before the progress is read, the stream announces
  completion and closes although an event of the job has not been sent: here the only page's
  final event.
\<close>

definition late_page :: sse_env where
  "late_page = still_env\<lparr>sv_step := (\<lambda>n w. if n = 8 then
     w\<lparr>sw_store := (sw_store w)\<lparr>st_jobs := (st_jobs (sw_store w))(''j'' :=
           map_option (map_prod (\<lambda>h. h\<lparr>jh_done_count := Some 1\<rparr>) id) (st_jobs (sw_store w) ''j''))\<rparr>,
       sw_out := \<lparr>ok_stream = Some (\<lparr>ol_entries =
         [\<lparr>re_id = (160, 0), re_seq = 1, re_event = PAGE_FINAL, re_data = JObj []\<rparr>], ol_last = (160, 0)\<rparr>, None),
         ok_seq = Some (1, None)\<rparr>\<rparr> else w)\<rparr>"

theorem derived_completion_skips_page:
  "let (r, w', _) = events 5 late_page demo_sse ''j'' 1 None (demo_sse_world\<lparr>sw_out := empty_out\<rparr>, new_slots 4)
   in r = Inr True \<and> Derived_Complete 1 1 \<in> set (sw_sent w') \<and> map re_event (entries w') = [PAGE_FINAL] \<and> sent_events w' = []"
  by code_simp

end
