(* ===== verification/Metrics_Text.thy ===== *)
theory Metrics_Text
  imports Orch_Prelude "HOL-Library.Char_ord" "HOL-Library.List_Lexorder" "HOL-Library.Product_Lexorder"
begin

text \<open>
  The text forms of metrics, \<^verbatim>\<open>src/common/metrics.py\<close>: the Redis hash field of a series, the escaping
  of help texts and label values, and the exposition format. Labels are the items of a dict,
  strings of characters up to 255. \<^verbatim>\<open>json.dumps\<close> and \<^verbatim>\<open>json.loads\<close> are written out for what the fields
  use of them: an object whose keys and values are strings, in the compact form. The text of a
  float that is not an integer (\<^verbatim>\<open>repr\<close>) is the parameter \<open>rp\<close>; values are finite.
\<close>

type_synonym labels = "(string \<times> string) list"

section \<open>JSON strings\<close>

definition hex_digit :: "nat \<Rightarrow> char" where
  "hex_digit n = (if n < 10 then char_of (48 + n) else char_of (87 + n))"

definition hex_val :: "char \<Rightarrow> nat option" where
  "hex_val c =
     (let n = of_char c in
      if 48 \<le> n \<and> n \<le> 57 then Some (n - 48)
      else if 97 \<le> n \<and> n \<le> 102 then Some (n - 87)
      else if 65 \<le> n \<and> n \<le> 70 then Some (n - 55) else None)"

definition json_escape :: "char \<Rightarrow> string" where
  "json_escape c =
     (let n = of_char c :: nat in
      if n = 34 then [CHR 0x5C, CHR 0x22]
      else if n = 92 then [CHR 0x5C, CHR 0x5C]
      else if n = 10 then [CHR 0x5C, CHR ''n'']
      else if n = 13 then [CHR 0x5C, CHR ''r'']
      else if n = 9 then [CHR 0x5C, CHR ''t'']
      else if n = 8 then [CHR 0x5C, CHR ''b'']
      else if n = 12 then [CHR 0x5C, CHR ''f'']
      else if n < 32 \<or> 126 < n then [CHR 0x5C, CHR ''u'', CHR ''0'', CHR ''0'', hex_digit (n div 16), hex_digit (n mod 16)]
      else [c])"

definition dumps_string :: "string \<Rightarrow> string" where
  "dumps_string s = CHR 0x22 # concat (map json_escape s) @ [CHR 0x22]"

fun dumps_items :: "labels \<Rightarrow> string" where
  "dumps_items [] = []"
| "dumps_items [(k, v)] = dumps_string k @ CHR '':'' # dumps_string v"
| "dumps_items ((k, v) # kvs) = dumps_string k @ CHR '':'' # dumps_string v @ CHR '','' # dumps_items kvs"

definition dumps :: "labels \<Rightarrow> string" where
  "dumps kvs = CHR ''{'' # dumps_items kvs @ [CHR ''}'']"

text \<open>Reading back: the rest of a string literal, then its content and what follows the closing quote.\<close>

fun loads_string :: "string \<Rightarrow> (string \<times> string) option" where
  "loads_string [] = None"
| "loads_string (c # cs) =
     (if of_char c = (34 :: nat) then Some ([], cs)
      else if of_char c = (92 :: nat) then
        (case cs of
           [] \<Rightarrow> None
         | e # ds \<Rightarrow>
             if e = CHR ''u'' then
               (case ds of
                  a # b # p # q # rest \<Rightarrow>
                    (case (hex_val a, hex_val b, hex_val p, hex_val q) of
                       (Some 0, Some 0, Some x, Some y) \<Rightarrow>
                         map_option (\<lambda>(s, r). (char_of (16 * x + y) # s, r)) (loads_string rest)
                     | _ \<Rightarrow> None)
                | _ \<Rightarrow> None)
             else
               (case map_of [(34, 34), (92, 92), (47, 47), (110, 10), (114, 13), (116, 9), (98, 8), (102, 12)] (of_char e :: nat) of
                  Some m \<Rightarrow> map_option (\<lambda>(s, r). (char_of (m :: nat) # s, r)) (loads_string ds)
                | None \<Rightarrow> None))
      else if (of_char c :: nat) < 32 then None
      else map_option (\<lambda>(s, r). (c # s, r)) (loads_string cs))"

fun expect :: "char \<Rightarrow> string \<Rightarrow> string option" where
  "expect c [] = None"
| "expect c (d # ds) = (if c = d then Some ds else None)"

definition loads_item :: "string \<Rightarrow> ((string \<times> string) \<times> string) option" where
  "loads_item s =
     Option.bind (expect (CHR 0x22) s) (\<lambda>s1.
     Option.bind (loads_string s1) (\<lambda>(k, s2).
     Option.bind (expect (CHR '':'') s2) (\<lambda>s3.
     Option.bind (expect (CHR 0x22) s3) (\<lambda>s4.
     Option.bind (loads_string s4) (\<lambda>(v, s5). Some ((k, v), s5))))))"

text \<open>The items after the first one; each is behind a comma. The fuel is the length of the text.\<close>

fun loads_items :: "nat \<Rightarrow> string \<Rightarrow> labels option" where
  "loads_items 0 s = None"
| "loads_items (Suc n) s =
     Option.bind (loads_item s) (\<lambda>(kv, r).
       case r of
         [] \<Rightarrow> None
       | c # r' \<Rightarrow>
           if c = CHR ''}'' then (if r' = [] then Some [kv] else None)
           else if c = CHR '','' then map_option ((#) kv) (loads_items n r')
           else None)"

definition loads :: "string \<Rightarrow> labels option" where
  "loads s =
     Option.bind (expect (CHR ''{'') s) (\<lambda>r. if r = ''}'' then Some [] else loads_items (length r) r)"

section \<open>Fields\<close>

definition SEP :: char where "SEP = CHR 0x1F"

definition encode_field :: "string \<Rightarrow> labels \<Rightarrow> string" where
  "encode_field name ls = name @ SEP # dumps (sort ls)"

text \<open>\<^verbatim>\<open>field_name.partition(_SEP)\<close>.\<close>

fun partition_at :: "char \<Rightarrow> string \<Rightarrow> string \<times> string" where
  "partition_at sep [] = ([], [])"
| "partition_at sep (c # cs) = (if c = sep then ([], cs) else (let (a, b) = partition_at sep cs in (c # a, b)))"

definition decode_field :: "string \<Rightarrow> (string \<times> labels) option" where
  "decode_field field_name =
     (let (name, encoded) = partition_at SEP field_name
      in if encoded = [] then Some (name, []) else map_option (Pair name) (loads encoded))"

section \<open>Escaping and rendering\<close>

definition replace_char :: "char \<Rightarrow> string \<Rightarrow> string \<Rightarrow> string" where
  "replace_char c r s = concat (map (\<lambda>x. if x = c then r else [x]) s)"

definition escape_help :: "string \<Rightarrow> string" where
  "escape_help s = replace_char (CHR 0x0A) [CHR 0x5C, CHR ''n''] (replace_char (CHR 0x5C) [CHR 0x5C, CHR 0x5C] s)"

definition escape_label :: "string \<Rightarrow> string" where
  "escape_label s =
     replace_char (CHR 0x0A) [CHR 0x5C, CHR ''n'']
       (replace_char (CHR 0x22) [CHR 0x5C, CHR 0x22] (replace_char (CHR 0x5C) [CHR 0x5C, CHR 0x5C] s))"

record sample =
  sm_name :: string
  sm_labels :: labels
  sm_value :: real

record metric_family =
  mf_name :: string
  mf_kind :: string
  mf_help :: string
  mf_samples :: "sample list"

definition format_value :: "(real \<Rightarrow> string) \<Rightarrow> real \<Rightarrow> string" where
  "format_value rp v = (if of_int \<lfloor>v\<rfloor> = v \<and> \<bar>v\<bar> < 10 ^ 15 then str_int \<lfloor>v\<rfloor> else rp v)"

fun join :: "string \<Rightarrow> string list \<Rightarrow> string" where
  "join sep [] = []"
| "join sep [x] = x"
| "join sep (x # xs) = x @ sep @ join sep xs"

definition render_label :: "string \<times> string \<Rightarrow> string" where
  "render_label kv = fst kv @ ''='' @ CHR 0x22 # escape_label (snd kv) @ [CHR 0x22]"

definition render_sample :: "(real \<Rightarrow> string) \<Rightarrow> sample \<Rightarrow> string" where
  "render_sample rp s =
     (if sm_labels s \<noteq> []
      then sm_name s @ ''{'' @ join '','' (map render_label (sort (sm_labels s))) @ ''} '' @ format_value rp (sm_value s)
      else sm_name s @ '' '' @ format_value rp (sm_value s))"

definition family_lines :: "(real \<Rightarrow> string) \<Rightarrow> metric_family \<Rightarrow> string list" where
  "family_lines rp f =
     [''# HELP '' @ mf_name f @ '' '' @ escape_help (mf_help f), ''# TYPE '' @ mf_name f @ '' '' @ mf_kind f]
     @ map (render_sample rp) (mf_samples f)"

definition render :: "(real \<Rightarrow> string) \<Rightarrow> metric_family list \<Rightarrow> string" where
  "render rp families = join [CHR 0x0A] (concat (map (family_lines rp) families)) @ [CHR 0x0A]"

section \<open>Reading fields back\<close>

lemma of_char_small: "n < 256 \<Longrightarrow> (of_char (char_of (n :: nat)) :: nat) = n"
  by (simp only: of_char_of) simp

lemma hex_val_digit: "x < 16 \<Longrightarrow> hex_val (hex_digit x) = Some x"
  by (auto simp: hex_val_def hex_digit_def of_char_small Let_def simp del: of_char_of)

lemma char_eqI: "(of_char c :: nat) = of_char d \<Longrightarrow> c = d"
  by (metis char_of_char)

lemma loads_escape:
  "loads_string (json_escape c @ rest) = map_option (\<lambda>(s, r). (c # s, r)) (loads_string rest)"
proof -
  define n where "n = (of_char c :: nat)"
  have c: "c = char_of n" and n: "n < 256" by (simp_all add: n_def)
  consider "n \<in> {34, 92, 10, 13, 9, 8, 12}" | "n \<notin> {34, 92, 10, 13, 9, 8, 12}" "n < 32 \<or> 126 < n"
    | "n \<notin> {34, 92, 10, 13, 9, 8, 12}" "\<not> (n < 32 \<or> 126 < n)" by blast
  then show ?thesis
  proof cases
    case 1
    then show ?thesis by (auto simp: json_escape_def c)
  next
    case 2
    have "json_escape c = [CHR 0x5C, CHR ''u'', CHR ''0'', CHR ''0'', hex_digit (n div 16), hex_digit (n mod 16)]"
      using 2 by (simp add: json_escape_def n_def Let_def)
    moreover have "hex_val (hex_digit (n div 16)) = Some (n div 16)" "hex_val (hex_digit (n mod 16)) = Some (n mod 16)"
      using n by (intro hex_val_digit, simp)+
    moreover have "hex_val (CHR ''0'') = Some 0" by (simp add: hex_val_def)
    moreover have "16 * (n div 16) + n mod 16 = n" by simp
    ultimately show ?thesis by (simp add: c)
  next
    case 3
    then have "json_escape c = [c]" by (simp add: json_escape_def n_def Let_def)
    then show ?thesis using 3 by (simp add: n_def)
  qed
qed

lemma loads_dumps_string: "loads_string (concat (map json_escape s) @ CHR 0x22 # r) = Some (s, r)"
  by (induction s) (simp_all add: loads_escape)

lemma loads_item_dumps:
  "loads_item (dumps_string k @ CHR '':'' # dumps_string v @ r) = Some ((k, v), r)"
  by (simp add: loads_item_def dumps_string_def loads_dumps_string)

lemma loads_items_dumps:
  "kvs \<noteq> [] \<Longrightarrow> length kvs \<le> n \<Longrightarrow> loads_items n (dumps_items kvs @ [CHR ''}'']) = Some kvs"
proof (induction kvs arbitrary: n rule: dumps_items.induct)
  case (2 k v)
  then show ?case by (cases n) (simp_all add: loads_item_dumps)
next
  case (3 k v kv kvs)
  then obtain m where "n = Suc m" by (cases n) auto
  with 3 show ?case by (simp add: loads_item_dumps)
qed simp

lemma length_dumps_items: "length kvs \<le> length (dumps_items kvs)"
  by (induction kvs rule: dumps_items.induct) (auto simp: dumps_string_def)

lemma loads_dumps: "loads (dumps kvs) = Some kvs"
proof (cases "kvs = []")
  case False
  have "dumps_items kvs @ [CHR ''}''] \<noteq> ''}''"
    using False by (cases kvs rule: dumps_items.cases) (auto simp: dumps_string_def)
  moreover have "length kvs \<le> length (dumps_items kvs @ [CHR ''}''])" using length_dumps_items [of kvs] by simp
  ultimately show ?thesis using loads_items_dumps [OF False] by (simp add: loads_def dumps_def del: loads_items.simps)
qed (simp add: loads_def dumps_def)

lemma partition_at_append: "sep \<notin> set a \<Longrightarrow> partition_at sep (a @ sep # b) = (a, b)"
  by (induction a) auto

lemma decode_encode: "SEP \<notin> set name \<Longrightarrow> decode_field (encode_field name ls) = Some (name, sort ls)"
  by (simp add: decode_field_def encode_field_def partition_at_append loads_dumps) (simp add: dumps_def)

text \<open>
  C40. The field of a series can be read back. Whatever the label values contain, decoding an encoded
  field gives the metric's name and its labels in sorted order, so two different series never
  share a field.
\<close>

theorem field_roundtrip:
  assumes "SEP \<notin> set name"
  shows "decode_field (encode_field name ls) = Some (name, sort ls)"
  using assms by (rule decode_encode)

theorem field_roundtrip_witness:
  "decode_field (encode_field ''orch_total'' [(''z'', ''a=b,c''), (''k'', [CHR 0x22, CHR 0x5C, CHR 0x0A, CHR 0x1F, CHR 0xE9])])
     = Some (''orch_total'', [(''k'', [CHR 0x22, CHR 0x5C, CHR 0x0A, CHR 0x1F, CHR 0xE9]), (''z'', ''a=b,c'')])"
proof -
  have "SEP \<notin> set ''orch_total''" by (simp add: SEP_def)
  moreover have "sort [(''z'', ''a=b,c''), (''k'', [CHR 0x22, CHR 0x5C, CHR 0x0A, CHR 0x1F, CHR 0xE9])]
      = [(''k'', [CHR 0x22, CHR 0x5C, CHR 0x0A, CHR 0x1F, CHR 0xE9]), (''z'', ''a=b,c'')]" by code_simp
  ultimately show ?thesis using field_roundtrip by metis
qed

section \<open>The exposition format\<close>

text \<open>What a scraper makes of an escaped label value, up to the closing quote.\<close>

fun unescape_label :: "string \<Rightarrow> (string \<times> string) option" where
  "unescape_label [] = None"
| "unescape_label (c # cs) =
     (if c = CHR 0x22 then Some ([], cs)
      else if c = CHR 0x5C then
        (case cs of
           [] \<Rightarrow> None
         | e # ds \<Rightarrow>
             map_option (\<lambda>(s, r). ((if e = CHR ''n'' then CHR 0x0A else e) # s, r)) (unescape_label ds))
      else if c = CHR 0x0A then None
      else map_option (\<lambda>(s, r). (c # s, r)) (unescape_label cs))"

definition escape_char :: "char \<Rightarrow> string" where
  "escape_char c =
     (if c = CHR 0x5C then [CHR 0x5C, CHR 0x5C] else if c = CHR 0x22 then [CHR 0x5C, CHR 0x22]
      else if c = CHR 0x0A then [CHR 0x5C, CHR ''n''] else [c])"

lemma escape_label_chars: "escape_label s = concat (map escape_char s)"
  by (induction s) (simp_all add: escape_label_def replace_char_def escape_char_def)

lemma unescape_escape: "unescape_label (escape_label s @ CHR 0x22 # r) = Some (s, r)"
  unfolding escape_label_chars by (induction s) (auto simp: escape_char_def)

lemma escape_no_newline: "CHR 0x0A \<notin> set (escape_label s)" "CHR 0x0A \<notin> set (escape_help s)"
  by (auto simp: escape_label_chars escape_char_def escape_help_def replace_char_def split: if_splits)

definition clean :: "string \<Rightarrow> bool" where
  "clean s \<longleftrightarrow> CHR 0x0A \<notin> set s"

fun lines_of :: "string \<Rightarrow> string list" where
  "lines_of [] = []"
| "lines_of (c # cs) =
     (if c = CHR 0x0A then [] # lines_of cs
      else case lines_of cs of [] \<Rightarrow> [[c]] | l # ls \<Rightarrow> (c # l) # ls)"

lemma lines_of_append: "clean l \<Longrightarrow> lines_of (l @ CHR 0x0A # r) = l # lines_of r"
  by (induction l) (auto simp: clean_def)

lemma lines_of_join: "ls \<noteq> [] \<Longrightarrow> list_all clean ls \<Longrightarrow> lines_of (join [CHR 0x0A] ls @ [CHR 0x0A]) = ls"
proof (induction "[CHR 0x0A]" ls rule: join.induct)
  case (2 x)
  then show ?case using lines_of_append [of x "[]"] by simp
next
  case (3 x y ys)
  then show ?case using lines_of_append [of x "join [CHR 0x0A] (y # ys) @ [CHR 0x0A]"] by simp
qed simp

lemma clean_join: "list_all clean xs \<Longrightarrow> clean sep \<Longrightarrow> clean (join sep xs)"
  by (induction sep xs rule: join.induct) (auto simp: clean_def)

lemma clean_str_int: "clean (str_int n)"
proof -
  have "clean (str_nat k)" for k
    using str_nat_digits [of k] by (auto simp: clean_def list_all_iff is_digit_def)
  then show ?thesis by (auto simp: clean_def str_int_def)
qed

definition sample_clean :: "sample \<Rightarrow> bool" where
  "sample_clean s \<longleftrightarrow> clean (sm_name s) \<and> list_all (clean \<circ> fst) (sm_labels s)"

lemma clean_render_sample:
  assumes "sample_clean s" and "\<And>v. clean (rp v)"
  shows "clean (render_sample rp s)"
proof -
  have "clean (format_value rp v)" for v using assms(2) clean_str_int by (simp add: format_value_def)
  moreover have "clean (join '','' (map render_label (sort (sm_labels s))))"
    by (rule clean_join) (use assms(1) escape_no_newline(1) in \<open>auto simp: list_all_iff clean_def render_label_def sample_clean_def\<close>)
  ultimately show ?thesis using assms(1) by (auto simp: render_sample_def clean_def sample_clean_def)
qed

text \<open>
  The exposition is well formed. Every family gives its HELP and TYPE line once, before one line for
  each of its samples, in order and each ended by a newline, whatever its help text and its label
  values contain; and a label value reads back as it was.
\<close>

theorem exposition_wellformed:
  assumes "families \<noteq> []" and "\<forall>v. clean (rp v)"
    and "\<forall>f \<in> set families. clean (mf_name f) \<and> clean (mf_kind f) \<and> list_all sample_clean (mf_samples f)"
  shows "lines_of (render rp families) = concat (map (\<lambda>f.
      (''# HELP '' @ mf_name f @ '' '' @ escape_help (mf_help f)) # (''# TYPE '' @ mf_name f @ '' '' @ mf_kind f)
      # map (render_sample rp) (mf_samples f)) families)
    \<and> unescape_label (escape_label v @ CHR 0x22 # r) = Some (v, r)"
proof -
  have "list_all clean (family_lines rp f)" if "f \<in> set families" for f
    using assms(2,3) that clean_render_sample escape_no_newline(2) [of "mf_help f"]
    by (auto simp: family_lines_def list_all_iff clean_def)
  then have "list_all clean (concat (map (family_lines rp) families))" by (auto simp: list_all_iff)
  moreover have "concat (map (family_lines rp) families) \<noteq> []"
    using assms(1) by (cases families) (auto simp: family_lines_def)
  ultimately have "lines_of (render rp families) = concat (map (family_lines rp) families)"
    unfolding render_def by (intro lines_of_join)
  then show ?thesis using unescape_escape by (simp add: family_lines_def [abs_def])
qed

theorem exposition_wellformed_witness:
  "length (lines_of (render (\<lambda>_. ''0.5'') [\<lparr>mf_name = ''m'', mf_kind = ''gauge'', mf_help = [CHR 0x0A],
     mf_samples = [\<lparr>sm_name = ''m'', sm_labels = [(''k'', [CHR 0x0A, CHR 0x22])], sm_value = 3\<rparr>]\<rparr>])) = 3"
  using exposition_wellformed [of "[\<lparr>mf_name = ''m'', mf_kind = ''gauge'', mf_help = [CHR 0x0A],
     mf_samples = [\<lparr>sm_name = ''m'', sm_labels = [(''k'', [CHR 0x0A, CHR 0x22])], sm_value = 3\<rparr>]\<rparr>]" "\<lambda>_. ''0.5''"]
  by (simp add: clean_def sample_clean_def)

end
