(* ===== verification/Metrics_Flow.thy ===== *)
theory Metrics_Flow
  imports Metrics_Text "HOL-Library.AList"
begin

text \<open>
  Counting and shipping metrics, \<^verbatim>\<open>src/common/metrics.py\<close> and \<^verbatim>\<open>src/app/worker/metrics.py\<close>: counters,
  gauges and histograms, the flush of a worker's registry into Redis, and the derivation of
  deltas from running totals. A dict is the list of its items in insertion order. The last bucket
  of a histogram is the infinite one and is not in \<open>hg_bounds\<close>. The flush sends its commands in
  one pipeline that is not a transaction: \<open>landed\<close> says how many of them took effect when the
  connection fails, \<^const>\<open>None\<close> that all did and the reply arrived.
\<close>

section \<open>Series\<close>

type_synonym series = "(string \<times> string) list"

definition ValueError :: exc where "ValueError = OtherException ''ValueError''"

definition series_key :: "string list \<Rightarrow> labels \<Rightarrow> exc + series" where
  "series_key names ls = (if set (map fst ls) \<noteq> set names then Inl ValueError else Inr (sort ls))"

definition get0 :: "('k \<times> real) list \<Rightarrow> 'k \<Rightarrow> real" where
  "get0 vals k = (case map_of vals k of None \<Rightarrow> 0 | Some v \<Rightarrow> v)"

definition add_at :: "'k \<Rightarrow> real \<Rightarrow> ('k \<times> real) list \<Rightarrow> ('k \<times> real) list" where
  "add_at k d vals = AList.update k (get0 vals k + d) vals"

record counter =
  ct_name :: string
  ct_help :: string
  ct_labelnames :: "string list"
  ct_values :: "(series \<times> real) list"

definition counter_inc :: "real \<Rightarrow> labels \<Rightarrow> counter \<Rightarrow> exc + counter" where
  "counter_inc amount ls c =
     (if amount < 0 then Inl ValueError
      else sum_bind (series_key (ct_labelnames c) ls) (\<lambda>k. Inr (c\<lparr>ct_values := add_at k amount (ct_values c)\<rparr>)))"

definition counter_drain :: "counter \<Rightarrow> (series \<times> real) list \<times> counter" where
  "counter_drain c = (ct_values c, c\<lparr>ct_values := []\<rparr>)"

definition counter_samples :: "counter \<Rightarrow> sample list" where
  "counter_samples c = map (\<lambda>(k, v). \<lparr>sm_name = ct_name c, sm_labels = k, sm_value = v\<rparr>) (ct_values c)"

record gauge =
  gg_name :: string
  gg_help :: string
  gg_labelnames :: "string list"
  gg_values :: "(series \<times> real) list"

definition gauge_set :: "real \<Rightarrow> labels \<Rightarrow> gauge \<Rightarrow> exc + gauge" where
  "gauge_set v ls g =
     sum_bind (series_key (gg_labelnames g) ls) (\<lambda>k. Inr (g\<lparr>gg_values := AList.update k v (gg_values g)\<rparr>))"

definition gauge_inc :: "real \<Rightarrow> labels \<Rightarrow> gauge \<Rightarrow> exc + gauge" where
  "gauge_inc amount ls g =
     sum_bind (series_key (gg_labelnames g) ls) (\<lambda>k. Inr (g\<lparr>gg_values := add_at k amount (gg_values g)\<rparr>))"

definition gauge_dec :: "real \<Rightarrow> labels \<Rightarrow> gauge \<Rightarrow> exc + gauge" where
  "gauge_dec amount ls g = gauge_inc (- amount) ls g"

definition gauge_samples :: "gauge \<Rightarrow> sample list" where
  "gauge_samples g = map (\<lambda>(k, v). \<lparr>sm_name = gg_name g, sm_labels = k, sm_value = v\<rparr>) (gg_values g)"

section \<open>Histograms\<close>

record histogram =
  hg_name :: string
  hg_help :: string
  hg_labelnames :: "string list"
  hg_bounds :: "real list"
  hg_counts :: "(series \<times> real list) list"
  hg_sums :: "(series \<times> real) list"

definition DEFAULT_BUCKETS :: "real list" where
  "DEFAULT_BUCKETS = [0.01, 0.025, 0.05, 0.1, 0.25, 0.5, 1, 1.5, 2, 3, 5, 10, 30]"

definition new_histogram :: "string \<Rightarrow> string \<Rightarrow> string list \<Rightarrow> real list \<Rightarrow> exc + histogram" where
  "new_histogram name help labelnames buckets =
     (if buckets = [] then Inl ValueError
      else Inr \<lparr>hg_name = name, hg_help = help, hg_labelnames = labelnames, hg_bounds = sort buckets,
                hg_counts = [], hg_sums = []\<rparr>)"

text \<open>The scan for the first bound that holds the value; the infinite one always does.\<close>

fun find_bucket :: "real list \<Rightarrow> real \<Rightarrow> nat" where
  "find_bucket [] v = 0"
| "find_bucket (b # bs) v = (if v \<le> b then 0 else Suc (find_bucket bs v))"

definition observe :: "real \<Rightarrow> labels \<Rightarrow> histogram \<Rightarrow> exc + histogram" where
  "observe v ls h =
     sum_bind (series_key (hg_labelnames h) ls) (\<lambda>k.
       let i = find_bucket (hg_bounds h) v;
           counts = (case map_of (hg_counts h) k of None \<Rightarrow> replicate (Suc (length (hg_bounds h))) 0 | Some cs \<Rightarrow> cs)
       in Inr (h\<lparr>hg_counts := AList.update k (counts[i := counts ! i + 1]) (hg_counts h),
                 hg_sums := add_at k v (hg_sums h)\<rparr>))"

definition hist_drain :: "histogram \<Rightarrow> ((series \<times> real list) list \<times> (series \<times> real) list) \<times> histogram" where
  "hist_drain h = ((hg_counts h, hg_sums h), h\<lparr>hg_counts := [], hg_sums := []\<rparr>)"

definition bucket_labels :: "(real \<Rightarrow> string) \<Rightarrow> real list \<Rightarrow> string list" where
  "bucket_labels rp bounds = map (format_value rp) bounds @ [''+Inf'']"

text \<open>The running sum over the buckets of one series.\<close>

fun cumulative :: "real \<Rightarrow> real list \<Rightarrow> real list" where
  "cumulative acc [] = []"
| "cumulative acc (c # cs) = (acc + c) # cumulative (acc + c) cs"

definition series_samples :: "(real \<Rightarrow> string) \<Rightarrow> string \<Rightarrow> real list \<Rightarrow> (series \<times> real) list \<Rightarrow> series \<times> real list \<Rightarrow> sample list" where
  "series_samples rp name bounds tots kc =
     (let (k, counts) = kc; running = cumulative 0 counts
      in map (\<lambda>(le, v). \<lparr>sm_name = name @ ''_bucket'', sm_labels = AList.update ''le'' le k, sm_value = v\<rparr>)
           (zip (bucket_labels rp bounds) running)
         @ [\<lparr>sm_name = name @ ''_sum'', sm_labels = k, sm_value = get0 tots k\<rparr>,
            \<lparr>sm_name = name @ ''_count'', sm_labels = k, sm_value = sum_list (take (Suc (length bounds)) counts)\<rparr>])"

definition histogram_samples ::
  "(real \<Rightarrow> string) \<Rightarrow> string \<Rightarrow> real list \<Rightarrow> (series \<times> real list) list \<Rightarrow> (series \<times> real) list \<Rightarrow> sample list" where
  "histogram_samples rp name bounds counts tots =
     concat (map (\<lambda>k. case map_of counts k of None \<Rightarrow> [] | Some cs \<Rightarrow> series_samples rp name bounds tots (k, cs))
       (sort (map fst counts)))"

section \<open>The registry and its flush\<close>

record registry =
  rg_counters :: "counter list"
  rg_gauges :: "gauge list"
  rg_histograms :: "histogram list"

definition registry_families :: "(real \<Rightarrow> string) \<Rightarrow> registry \<Rightarrow> metric_family list" where
  "registry_families rp rg =
     map (\<lambda>c. \<lparr>mf_name = ct_name c, mf_kind = ''counter'', mf_help = ct_help c, mf_samples = counter_samples c\<rparr>) (rg_counters rg)
     @ map (\<lambda>g. \<lparr>mf_name = gg_name g, mf_kind = ''gauge'', mf_help = gg_help g, mf_samples = gauge_samples g\<rparr>) (rg_gauges rg)
     @ map (\<lambda>h. \<lparr>mf_name = hg_name h, mf_kind = ''histogram'', mf_help = hg_help h,
         mf_samples = histogram_samples rp (hg_name h) (hg_bounds h) (hg_counts h) (hg_sums h)\<rparr>) (rg_histograms rg)"

definition COUNTER_KEY :: string where "COUNTER_KEY = ''metrics:counters''"
definition HISTOGRAM_COUNT_KEY :: string where "HISTOGRAM_COUNT_KEY = ''metrics:hist:counts''"
definition HISTOGRAM_SUM_KEY :: string where "HISTOGRAM_SUM_KEY = ''metrics:hist:sums''"
definition GAUGE_KEY_PREFIX :: string where "GAUGE_KEY_PREFIX = ''metrics:gauges''"

record metrics_db =
  db_hash :: "string \<Rightarrow> string \<Rightarrow> real"
  db_gauges :: "string \<Rightarrow> (string \<times> real) list cell"
  db_alive :: "string \<Rightarrow> real cell"

datatype metric_cmd =
    Hincrbyfloat string string real
  | Hset_Gauges string "(string \<times> real) list"
  | Expire_Gauges string int
  | Set_Alive string real int

text \<open>\<open>t\<close> is the server's clock in milliseconds.\<close>

fun exec_cmd :: "int \<Rightarrow> metric_cmd \<Rightarrow> metrics_db \<Rightarrow> metrics_db" where
  "exec_cmd t (Hincrbyfloat k f d) db = db\<lparr>db_hash := (db_hash db)(k := (db_hash db k)(f := db_hash db k f + d))\<rparr>"
| "exec_cmd t (Hset_Gauges k fvs) db =
     db\<lparr>db_gauges := (db_gauges db)(k := put_fields t [] (\<lambda>h. AList.updates (map fst fvs) (map snd fvs) h) (db_gauges db k))\<rparr>"
| "exec_cmd t (Expire_Gauges k s) db = db\<lparr>db_gauges := (db_gauges db)(k := pexpire t (s * 1000) (db_gauges db k))\<rparr>"
| "exec_cmd t (Set_Alive k v s) db = db\<lparr>db_alive := (db_alive db)(k := Some (v, Some (t + s * 1000)))\<rparr>"

definition counter_deltas :: "counter list \<Rightarrow> (string \<times> real) list" where
  "counter_deltas cs =
     fold (\<lambda>c ds. fold (\<lambda>(k, v) ds. if v \<noteq> 0 then AList.update (encode_field (ct_name c) k) v ds else ds) (ct_values c) ds) cs []"

definition bucket_deltas :: "(real \<Rightarrow> string) \<Rightarrow> histogram list \<Rightarrow> (string \<times> real) list" where
  "bucket_deltas rp hs =
     fold (\<lambda>h ds. fold (\<lambda>(k, cs) ds. fold (\<lambda>(le, n) ds.
         if n \<noteq> 0 then add_at (encode_field (hg_name h) (AList.update ''le'' le k)) n ds else ds)
       (zip (bucket_labels rp (hg_bounds h)) cs) ds) (hg_counts h) ds) hs []"

definition sum_deltas :: "histogram list \<Rightarrow> (string \<times> real) list" where
  "sum_deltas hs =
     fold (\<lambda>h ds. fold (\<lambda>(k, v) ds. if v \<noteq> 0 then add_at (encode_field (hg_name h) k) v ds else ds) (hg_sums h) ds) hs []"

definition gauge_fields :: "gauge list \<Rightarrow> (string \<times> real) list" where
  "gauge_fields gs =
     fold (\<lambda>g fs. fold (\<lambda>(k, v) fs. AList.update (encode_field (gg_name g) k) v fs) (gg_values g) fs) gs []"

definition flush_cmds :: "(real \<Rightarrow> string) \<Rightarrow> string \<Rightarrow> real \<Rightarrow> real \<Rightarrow> registry \<Rightarrow> metric_cmd list" where
  "flush_cmds rp worker_name gauge_ttl_s now rg =
     (let gauge_key = GAUGE_KEY_PREFIX @ '':'' @ worker_name; ttl = \<lfloor>max 1 gauge_ttl_s\<rfloor>; gf = gauge_fields (rg_gauges rg)
      in map (\<lambda>(f, d). Hincrbyfloat COUNTER_KEY f d) (counter_deltas (rg_counters rg))
         @ map (\<lambda>(f, d). Hincrbyfloat HISTOGRAM_COUNT_KEY f d) (bucket_deltas rp (rg_histograms rg))
         @ map (\<lambda>(f, d). Hincrbyfloat HISTOGRAM_SUM_KEY f d) (sum_deltas (rg_histograms rg))
         @ (if gf \<noteq> [] then [Hset_Gauges gauge_key gf, Expire_Gauges gauge_key ttl] else [])
         @ [Set_Alive (GAUGE_KEY_PREFIX @ '':alive:'' @ worker_name) now ttl])"

definition drain_registry :: "registry \<Rightarrow> registry" where
  "drain_registry rg =
     rg\<lparr>rg_counters := map (snd \<circ> counter_drain) (rg_counters rg), rg_histograms := map (snd \<circ> hist_drain) (rg_histograms rg)\<rparr>"

definition sink_flush ::
  "(real \<Rightarrow> string) \<Rightarrow> string \<Rightarrow> real \<Rightarrow> real \<Rightarrow> int \<Rightarrow> nat option \<Rightarrow> registry \<times> metrics_db
   \<Rightarrow> (exc + unit) \<times> registry \<times> metrics_db" where
  "sink_flush rp worker_name gauge_ttl_s now t landed x =
     (let (rg, db) = x; cmds = flush_cmds rp worker_name gauge_ttl_s now rg
      in case landed of
           None \<Rightarrow> (Inr (), drain_registry rg, fold (exec_cmd t) cmds db)
         | Some k \<Rightarrow> (Inl RedisError, drain_registry rg, fold (exec_cmd t) (take k cmds) db))"

section \<open>The worker's metrics\<close>

definition TERMINAL_RESULT :: "(string \<times> string) list" where
  "TERMINAL_RESULT = [(''completed'', ''success''), (''resumed'', ''success''), (''degraded'', ''success''),
     (''failed'', ''failed''), (''already_terminal'', ''duplicate'')]"

record worker_metrics =
  wm_worker :: string
  wm_model_requests :: counter
  wm_model_duration :: histogram
  wm_retries :: counter
  wm_rate_limit_waits :: counter
  wm_rate_limit_wait_seconds :: counter
  wm_page_duration :: histogram
  wm_page_attempts :: counter
  wm_pages_terminal :: counter
  wm_reaper_actions :: counter
  wm_in_flight :: gauge
  wm_prefetch_limit :: gauge
  wm_last_outcomes :: "string \<Rightarrow> int"
  wm_last_reaper :: "string \<Rightarrow> int"

definition new_counter :: "string \<Rightarrow> string \<Rightarrow> string list \<Rightarrow> counter" where
  "new_counter name help names = \<lparr>ct_name = name, ct_help = help, ct_labelnames = names, ct_values = []\<rparr>"

definition new_gauge :: "string \<Rightarrow> string \<Rightarrow> string list \<Rightarrow> gauge" where
  "new_gauge name help names = \<lparr>gg_name = name, gg_help = help, gg_labelnames = names, gg_values = []\<rparr>"

definition new_worker_metrics :: "string \<Rightarrow> int \<Rightarrow> exc + worker_metrics" where
  "new_worker_metrics worker prefetch_limit =
     sum_bind (new_histogram ''orch_model_request_duration_seconds''
       ''Latency of one model call, excluding the rate-limit wait.'' [''endpoint''] DEFAULT_BUCKETS) (\<lambda>md.
     sum_bind (new_histogram ''orch_page_duration_seconds''
       ''Wall time from claiming a page to reaching a terminal state.'' [] DEFAULT_BUCKETS) (\<lambda>pd.
     sum_bind (gauge_set (of_int prefetch_limit) [(''worker'', worker)]
       (new_gauge ''orch_worker_prefetch_limit'' ''Configured concurrency ceiling for this worker.'' [''worker''])) (\<lambda>pl.
     Inr \<lparr>wm_worker = worker,
       wm_model_requests = new_counter ''orch_model_requests_total'' ''Model calls attempted, by endpoint and outcome.''
         [''endpoint'', ''outcome''],
       wm_model_duration = md,
       wm_retries = new_counter ''orch_model_retries_total'' ''Retry attempts issued, by endpoint.'' [''endpoint''],
       wm_rate_limit_waits = new_counter ''orch_rate_limit_waits_total''
         ''Times a worker blocked waiting for a rate-limit token.'' [''endpoint''],
       wm_rate_limit_wait_seconds = new_counter ''orch_rate_limit_wait_seconds_total''
         ''Cumulative time spent waiting for tokens - the cost of backpressure.'' [''endpoint''],
       wm_page_duration = pd,
       wm_page_attempts = new_counter ''orch_page_attempts_total''
         ''Page processing attempts, by per-attempt outcome.'' [''outcome''],
       wm_pages_terminal = new_counter ''orch_pages_terminal_total''
         ''Pages reaching a terminal state, classified for the zero-drop metric.'' [''result''],
       wm_reaper_actions = new_counter ''orch_reaper_actions_total''
         ''Orphaned entries handled by the reaper, by action.'' [''action''],
       wm_in_flight = new_gauge ''orch_worker_in_flight'' ''Pages this worker is currently processing.'' [''worker''],
       wm_prefetch_limit = pl,
       wm_last_outcomes = (\<lambda>_. 0), wm_last_reaper = (\<lambda>_. 0)\<rparr>)))"

text \<open>
  The labels of the derived counters always fit their declaration (\<open>inc_ok_fits\<close>), so an increment
  there never raises.
\<close>

definition inc_ok :: "real \<Rightarrow> labels \<Rightarrow> counter \<Rightarrow> counter" where
  "inc_ok amount ls c = (case counter_inc amount ls c of Inl _ \<Rightarrow> c | Inr c' \<Rightarrow> c')"

definition record_model_call :: "string \<Rightarrow> string \<Rightarrow> real \<Rightarrow> worker_metrics \<Rightarrow> exc + worker_metrics" where
  "record_model_call endpoint outcome duration_s wm =
     sum_bind (counter_inc 1 [(''endpoint'', endpoint), (''outcome'', outcome)] (wm_model_requests wm)) (\<lambda>c.
     sum_bind (observe duration_s [(''endpoint'', endpoint)] (wm_model_duration wm)) (\<lambda>h.
       Inr (wm\<lparr>wm_model_requests := c, wm_model_duration := h\<rparr>)))"

definition record_retry :: "string \<Rightarrow> worker_metrics \<Rightarrow> exc + worker_metrics" where
  "record_retry endpoint wm =
     sum_bind (counter_inc 1 [(''endpoint'', endpoint)] (wm_retries wm)) (\<lambda>c. Inr (wm\<lparr>wm_retries := c\<rparr>))"

definition record_rate_limit_wait :: "string \<Rightarrow> real \<Rightarrow> worker_metrics \<Rightarrow> exc + worker_metrics" where
  "record_rate_limit_wait endpoint waited_s wm =
     sum_bind (counter_inc 1 [(''endpoint'', endpoint)] (wm_rate_limit_waits wm)) (\<lambda>c.
     let wm' = wm\<lparr>wm_rate_limit_waits := c\<rparr>
     in sum_bind (counter_inc waited_s [(''endpoint'', endpoint)] (wm_rate_limit_wait_seconds wm')) (\<lambda>d.
       Inr (wm'\<lparr>wm_rate_limit_wait_seconds := d\<rparr>)))"

definition record_page :: "real \<Rightarrow> worker_metrics \<Rightarrow> exc + worker_metrics" where
  "record_page duration_s wm =
     sum_bind (observe duration_s [] (wm_page_duration wm)) (\<lambda>h. Inr (wm\<lparr>wm_page_duration := h\<rparr>))"

definition sync_outcome :: "string \<times> int \<Rightarrow> worker_metrics \<Rightarrow> worker_metrics" where
  "sync_outcome ot wm =
     (let (outcome, tot) = ot; delta = max 0 (tot - wm_last_outcomes wm outcome);
          wm1 = (if delta \<noteq> 0
                 then
                   let wm0 = wm\<lparr>wm_page_attempts := inc_ok (of_int delta) [(''outcome'', outcome)] (wm_page_attempts wm)\<rparr>
                   in case map_of TERMINAL_RESULT outcome of
                        None \<Rightarrow> wm0
                      | Some result \<Rightarrow>
                          wm0\<lparr>wm_pages_terminal := inc_ok (of_int delta) [(''result'', result)] (wm_pages_terminal wm0)\<rparr>
                 else wm)
      in wm1\<lparr>wm_last_outcomes := (wm_last_outcomes wm1)(outcome := tot)\<rparr>)"

definition sync_reaper :: "string \<times> int \<Rightarrow> worker_metrics \<Rightarrow> worker_metrics" where
  "sync_reaper ac wm =
     (let (action, tot) = ac; delta = max 0 (tot - wm_last_reaper wm action);
          wm1 = (if delta \<noteq> 0
                 then wm\<lparr>wm_reaper_actions := inc_ok (of_int delta) [(''action'', action)] (wm_reaper_actions wm)\<rparr> else wm)
      in wm1\<lparr>wm_last_reaper := (wm_last_reaper wm1)(action := tot)\<rparr>)"

definition sync :: "(string \<times> int) list \<Rightarrow> (string \<times> int) list \<Rightarrow> int \<Rightarrow> worker_metrics \<Rightarrow> worker_metrics" where
  "sync outcomes reaper in_flight wm =
     (let wm1 = fold sync_reaper reaper (fold sync_outcome outcomes wm)
      in case gauge_set (of_int in_flight) [(''worker'', wm_worker wm1)] (wm_in_flight wm1) of
           Inl _ \<Rightarrow> wm1
         | Inr g \<Rightarrow> wm1\<lparr>wm_in_flight := g\<rparr>)"

definition worker_registry :: "worker_metrics \<Rightarrow> registry" where
  "worker_registry wm =
     \<lparr>rg_counters = [wm_model_requests wm, wm_retries wm, wm_rate_limit_waits wm, wm_rate_limit_wait_seconds wm,
        wm_page_attempts wm, wm_pages_terminal wm, wm_reaper_actions wm],
      rg_gauges = [wm_in_flight wm, wm_prefetch_limit wm],
      rg_histograms = [wm_model_duration wm, wm_page_duration wm]\<rparr>"

definition drain_worker :: "worker_metrics \<Rightarrow> worker_metrics" where
  "drain_worker wm =
     wm\<lparr>wm_model_requests := snd (counter_drain (wm_model_requests wm)), wm_retries := snd (counter_drain (wm_retries wm)),
        wm_rate_limit_waits := snd (counter_drain (wm_rate_limit_waits wm)),
        wm_rate_limit_wait_seconds := snd (counter_drain (wm_rate_limit_wait_seconds wm)),
        wm_page_attempts := snd (counter_drain (wm_page_attempts wm)),
        wm_pages_terminal := snd (counter_drain (wm_pages_terminal wm)),
        wm_reaper_actions := snd (counter_drain (wm_reaper_actions wm)),
        wm_model_duration := snd (hist_drain (wm_model_duration wm)),
        wm_page_duration := snd (hist_drain (wm_page_duration wm))\<rparr>"

definition worker_flush ::
  "(real \<Rightarrow> string) \<Rightarrow> real \<Rightarrow> real \<Rightarrow> int \<Rightarrow> nat option \<Rightarrow> (string \<times> int) list \<Rightarrow> (string \<times> int) list \<Rightarrow> int
   \<Rightarrow> worker_metrics \<times> metrics_db \<Rightarrow> (exc + unit) \<times> worker_metrics \<times> metrics_db" where
  "worker_flush rp gauge_ttl_s now t landed outcomes reaper in_flight x =
     (let (wm, db) = x; wm' = sync outcomes reaper in_flight wm;
          (r, _, db') = sink_flush rp (wm_worker wm') gauge_ttl_s now t landed (worker_registry wm', db)
      in (r, drain_worker wm', db'))"

lemma drain_worker_registry: "drain_registry (worker_registry wm) = worker_registry (drain_worker wm)"
  by (simp add: drain_registry_def worker_registry_def drain_worker_def)

section \<open>What a histogram shows\<close>

text \<open>
  Observations in the order they are made, each with its labels, and the specification of the
  exported values: per series, the number of observations at or below each bound.
\<close>

definition observe_all :: "(real \<times> labels) list \<Rightarrow> histogram \<Rightarrow> exc + histogram" where
  "observe_all obs h = fold (\<lambda>(v, ls) r. sum_bind r (observe v ls)) obs (Inr h)"

definition seen :: "series \<Rightarrow> (real \<times> labels) list \<Rightarrow> real list" where
  "seen k obs = map fst (filter (\<lambda>(v, ls). sort ls = k) obs)"

definition at_most :: "real \<Rightarrow> real list \<Rightarrow> real" where
  "at_most b vs = real (length (filter (\<lambda>v. v \<le> b) vs))"

definition in_bucket :: "real list \<Rightarrow> real list \<Rightarrow> nat \<Rightarrow> real" where
  "in_bucket bounds vs i = real (length (filter (\<lambda>v. find_bucket bounds v = i) vs))"

lemma find_bucket_le: "find_bucket bs v \<le> length bs"
  by (induction bs) auto

lemma find_bucket_iff: "sorted bs \<Longrightarrow> i < length bs \<Longrightarrow> find_bucket bs v \<le> i \<longleftrightarrow> v \<le> bs ! i"
proof (induction bs arbitrary: i)
  case (Cons b bs)
  then show ?case by (cases i) (auto, meson nth_mem order_trans)
qed simp

lemma cumulative_append: "cumulative a (xs @ [y]) = cumulative a xs @ [a + sum_list xs + y]"
  by (induction xs arbitrary: a) (auto simp: algebra_simps)

lemma sum_in_bucket:
  "sum_list (map (in_bucket bs vs) [0..<n]) = real (length (filter (\<lambda>v. find_bucket bs v < n) vs))"
proof (induction n)
  case (Suc n)
  have "length (filter (\<lambda>v. find_bucket bs v < Suc n) vs)
      = length (filter (\<lambda>v. find_bucket bs v < n) vs) + length (filter (\<lambda>v. find_bucket bs v = n) vs)"
    by (induction vs) auto
  then show ?case using Suc by (simp add: in_bucket_def)
qed simp

lemma cumulative_in_bucket:
  "cumulative 0 (map (in_bucket bs vs) [0..<n]) = map (\<lambda>i. real (length (filter (\<lambda>v. find_bucket bs v \<le> i) vs))) [0..<n]"
proof (induction n)
  case (Suc n)
  have "0 + sum_list (map (in_bucket bs vs) [0..<n]) + in_bucket bs vs n = sum_list (map (in_bucket bs vs) [0..<Suc n])" by simp
  also have "\<dots> = real (length (filter (\<lambda>v. find_bucket bs v \<le> n) vs))" by (simp only: sum_in_bucket less_Suc_eq_le)
  finally show ?case using Suc cumulative_append [of 0 "map (in_bucket bs vs) [0..<n]" "in_bucket bs vs n"] by simp
qed simp

lemma cumulative_counts:
  assumes "sorted bs"
  shows "cumulative 0 (map (in_bucket bs vs) [0..<Suc (length bs)]) = map (\<lambda>b. at_most b vs) bs @ [real (length vs)]"
proof -
  have "map (\<lambda>i. real (length (filter (\<lambda>v. find_bucket bs v \<le> i) vs))) [0..<length bs] = map (\<lambda>b. at_most b vs) bs"
    by (rule nth_equalityI) (simp_all add: find_bucket_iff [OF assms] at_most_def)
  moreover have "filter (\<lambda>v. find_bucket bs v \<le> length bs) vs = vs" by (simp add: find_bucket_le)
  ultimately show ?thesis unfolding cumulative_in_bucket by simp
qed

definition hist_shows :: "(real \<times> labels) list \<Rightarrow> histogram \<Rightarrow> bool" where
  "hist_shows obs h \<longleftrightarrow>
     (\<forall>k. map_of (hg_counts h) k =
            (if seen k obs = [] then None else Some (map (in_bucket (hg_bounds h) (seen k obs)) [0..<Suc (length (hg_bounds h))])) \<and>
          get0 (hg_sums h) k = sum_list (seen k obs))"

lemma seen_snoc: "seen k (obs @ [(v, ls)]) = seen k obs @ (if sort ls = k then [v] else [])"
  by (simp add: seen_def)

lemma get0_update: "get0 (AList.update k v m) k' = (if k' = k then v else get0 m k')"
  by (simp add: get0_def update_conv')

lemma get0_add_at: "get0 (add_at k d m) k' = get0 m k' + (if k' = k then d else 0)"
  by (simp add: add_at_def get0_update)

lemma bump_bucket:
  "(map (in_bucket bs vs) [0..<Suc (length bs)])[find_bucket bs v := map (in_bucket bs vs) [0..<Suc (length bs)] ! find_bucket bs v + 1]
     = map (in_bucket bs (vs @ [v])) [0..<Suc (length bs)]"
  by (rule nth_equalityI) (auto simp: in_bucket_def nth_list_update nth_append not_less_eq find_bucket_le less_Suc_eq_le simp del: upt_Suc)

lemma observe_shows:
  assumes "hist_shows obs h" and "set (map fst ls) = set (hg_labelnames h)"
  shows "\<exists>h'. observe v ls h = Inr h' \<and> hist_shows (obs @ [(v, ls)]) h' \<and> hg_bounds h' = hg_bounds h
             \<and> hg_labelnames h' = hg_labelnames h \<and> hg_name h' = hg_name h"
proof -
  let ?bs = "hg_bounds h" and ?k = "sort ls"
  have old: "(case map_of (hg_counts h) ?k of None \<Rightarrow> replicate (Suc (length ?bs)) 0 | Some cs \<Rightarrow> cs)
      = map (in_bucket ?bs (seen ?k obs)) [0..<Suc (length ?bs)]"
    using assms(1) unfolding hist_shows_def
    by (auto simp: in_bucket_def simp del: upt_Suc replicate_Suc intro!: nth_equalityI)
  have key: "series_key (hg_labelnames h) ls = Inr ?k" using assms(2) by (simp add: series_key_def)
  have "observe v ls h = Inr (h\<lparr>hg_counts := AList.update ?k (map (in_bucket ?bs (seen ?k obs @ [v])) [0..<Suc (length ?bs)]) (hg_counts h),
      hg_sums := add_at ?k v (hg_sums h)\<rparr>)"
    unfolding observe_def key sum_bind_def sum.case Let_def old bump_bucket by (rule refl)
  then show ?thesis using assms(1) by (auto simp: hist_shows_def update_conv' get0_add_at seen_snoc simp del: upt_Suc)
qed

lemma observe_all_shows:
  assumes "hist_shows done_obs h" and "\<forall>(v, ls) \<in> set obs. set (map fst ls) = set (hg_labelnames h)"
  shows "\<exists>h'. observe_all obs h = Inr h' \<and> hist_shows (done_obs @ obs) h' \<and> hg_bounds h' = hg_bounds h \<and> hg_name h' = hg_name h"
  using assms
proof (induction obs arbitrary: done_obs h)
  case (Cons vl obs)
  obtain v ls where vl: "vl = (v, ls)" by (cases vl)
  obtain h1 where h1: "observe v ls h = Inr h1" "hist_shows (done_obs @ [(v, ls)]) h1" "hg_bounds h1 = hg_bounds h"
    "hg_labelnames h1 = hg_labelnames h" "hg_name h1 = hg_name h"
    using observe_shows [OF Cons.prems(1), of ls v] Cons.prems(2) vl by auto
  show ?case using Cons.IH [OF h1(2)] Cons.prems(2) h1 vl by (auto simp: observe_all_def sum_bind_def)
qed (simp add: observe_all_def)

text \<open>The values of the samples of one series, as the exposition format wants them.\<close>

definition exported_series :: "(real \<Rightarrow> string) \<Rightarrow> histogram \<Rightarrow> series \<Rightarrow> real list option" where
  "exported_series rp h k =
     map_option (\<lambda>cs. map sm_value (series_samples rp (hg_name h) (hg_bounds h) (hg_sums h) (k, cs))) (map_of (hg_counts h) k)"

lemma series_values:
  assumes "sorted bounds"
  shows "map sm_value (series_samples rp name bounds tots (k, map (in_bucket bounds vs) [0..<Suc (length bounds)]))
    = map (\<lambda>b. at_most b vs) bounds @ [real (length vs), get0 tots k, real (length vs)]"
proof -
  let ?cs = "map (in_bucket bounds vs) [0..<Suc (length bounds)]"
  have len: "length (cumulative 0 ?cs) = length (bucket_labels rp bounds)"
    by (simp only: cumulative_counts [OF assms] bucket_labels_def) simp
  have tot: "sum_list (take (Suc (length bounds)) ?cs) = real (length vs)"
    using sum_in_bucket [of bounds vs "Suc (length bounds)"] by (simp add: less_Suc_eq_le find_bucket_le del: upt_Suc)
  have vals: "map (sm_value \<circ> (\<lambda>(le, v). \<lparr>sm_name = n, sm_labels = f le, sm_value = v\<rparr>)) (zip ls xs) = xs"
    if "length xs = length ls" for n and f :: "string \<Rightarrow> labels" and ls xs
    using that by (simp add: comp_def split_def flip: map_map)
  show ?thesis
    using vals [OF len] tot cumulative_counts [OF assms, of vs] by (simp add: series_samples_def Let_def del: upt_Suc)
qed

lemma shows_exported:
  assumes "hist_shows obs h" and "sorted (hg_bounds h)" and "seen k obs \<noteq> []"
  shows "exported_series rp h k =
    Some (map (\<lambda>b. at_most b (seen k obs)) (hg_bounds h)
          @ [real (length (seen k obs)), sum_list (seen k obs), real (length (seen k obs))])"
proof -
  have "map_of (hg_counts h) k = Some (map (in_bucket (hg_bounds h) (seen k obs)) [0..<Suc (length (hg_bounds h))])"
    "get0 (hg_sums h) k = sum_list (seen k obs)" using assms(1,3) unfolding hist_shows_def by auto
  then show ?thesis using series_values [OF assms(2)] by (simp add: exported_series_def del: upt_Suc)
qed

text \<open>
  A histogram exports exactly what was observed. After any sequence of observations whose labels
  fit, in any order and over any number of series, each bucket of a series shows how many of its
  observations are at or below the bound, the infinite bucket and the count show how many there
  are, and the sum shows their sum; a series that was never observed exports nothing.
\<close>

theorem histogram_exact:
  assumes "new_histogram name help names buckets = Inr h"
    and "\<forall>(v, ls) \<in> set obs. set (map fst ls) = set names"
  shows "\<exists>h'. observe_all obs h = Inr h' \<and>
           (\<forall>k. exported_series rp h' k =
              (if seen k obs = [] then None
               else Some (map (\<lambda>b. at_most b (seen k obs)) (sort buckets)
                          @ [real (length (seen k obs)), sum_list (seen k obs), real (length (seen k obs))])))"
proof -
  have h: "hg_bounds h = sort buckets" "hg_labelnames h = names" "hist_shows [] h"
    using assms(1) by (auto simp: new_histogram_def hist_shows_def seen_def get0_def split: if_splits)
  then obtain h' where h': "observe_all obs h = Inr h'" "hist_shows obs h'" "hg_bounds h' = sort buckets"
    using observe_all_shows [of "[]" h obs] assms(2) by auto
  have "exported_series rp h' k = None" if "seen k obs = []" for k
    using h'(2) that by (simp add: hist_shows_def exported_series_def)
  then show ?thesis using h' shows_exported [OF h'(2), of _ rp] by auto
qed

theorem histogram_exact_witness:
  "\<exists>h'. observe_all [(0.3, [(''e'', ''layout'')]), (7, [(''e'', ''vlm'')]), (0.5, [(''e'', ''layout'')]), (9, [(''e'', ''layout'')])]
          \<lparr>hg_name = ''d'', hg_help = [], hg_labelnames = [''e''], hg_bounds = [0.5, 2], hg_counts = [], hg_sums = []\<rparr> = Inr h' \<and>
        exported_series (\<lambda>_. []) h' [(''e'', ''layout'')] = Some [2, 2, 3, 9.8, 3] \<and>
        exported_series (\<lambda>_. []) h' [(''e'', ''vlm'')] = Some [0, 0, 1, 7, 1] \<and> exported_series (\<lambda>_. []) h' [(''e'', ''x'')] = None"
proof -
  let ?obs = "[(0.3 :: real, [(''e'', ''layout'')]), (7, [(''e'', ''vlm'')]), (0.5, [(''e'', ''layout'')]), (9, [(''e'', ''layout'')])]"
  have new: "new_histogram ''d'' [] [''e''] [2, 0.5]
      = Inr \<lparr>hg_name = ''d'', hg_help = [], hg_labelnames = [''e''], hg_bounds = [0.5, 2], hg_counts = [], hg_sums = []\<rparr>"
    by (simp add: new_histogram_def)
  have fit: "\<forall>(v, ls) \<in> set ?obs. set (map fst ls) = set [''e'']" by simp
  have s: "seen [(''e'', ''layout'')] ?obs = [0.3, 0.5, 9]" "seen [(''e'', ''vlm'')] ?obs = [7]" "seen [(''e'', ''x'')] ?obs = []"
    by (simp_all add: seen_def)
  obtain h' where h': "observe_all ?obs \<lparr>hg_name = ''d'', hg_help = [], hg_labelnames = [''e''], hg_bounds = [0.5, 2], hg_counts = [], hg_sums = []\<rparr> = Inr h'"
    and e: "\<forall>k. exported_series (\<lambda>_. []) h' k = (if seen k ?obs = [] then None
       else Some (map (\<lambda>b. at_most b (seen k ?obs)) (sort [2, 0.5]) @ [real (length (seen k ?obs)), sum_list (seen k ?obs), real (length (seen k ?obs))]))"
    using histogram_exact [OF new fit, of "\<lambda>_. []"] by blast
  show ?thesis using h' spec [OF e, of "[(''e'', ''layout'')]"] spec [OF e, of "[(''e'', ''vlm'')]"] spec [OF e, of "[(''e'', ''x'')]"]
    unfolding s by (simp add: at_most_def)
qed

section \<open>What a flush ships\<close>

definition counter_fields :: "counter \<Rightarrow> (string \<times> real) list" where
  "counter_fields c = map (\<lambda>(k, v). (encode_field (ct_name c) k, v)) (ct_values c)"

definition mass :: "string \<Rightarrow> (string \<times> real) list \<Rightarrow> real" where
  "mass f ds = sum_list (map snd (filter (\<lambda>(g, d). g = f) ds))"

definition pending :: "registry \<Rightarrow> string \<Rightarrow> real" where
  "pending rg f = mass f (concat (map counter_fields (rg_counters rg)))"

definition counter_ok :: "counter \<Rightarrow> bool" where
  "counter_ok c \<longleftrightarrow> SEP \<notin> set (ct_name c) \<and> distinct (map fst (ct_values c)) \<and> list_all (\<lambda>(k, v). sorted k \<and> 0 \<le> v) (ct_values c)"

definition registry_ok :: "registry \<Rightarrow> bool" where
  "registry_ok rg \<longleftrightarrow> list_all counter_ok (rg_counters rg) \<and> distinct (map ct_name (rg_counters rg))"

text \<open>By how much a command raises a field of a hash.\<close>

fun incr_of :: "string \<Rightarrow> string \<Rightarrow> metric_cmd \<Rightarrow> real" where
  "incr_of k f (Hincrbyfloat k' f' d) = (if k' = k \<and> f' = f then d else 0)"
| "incr_of k f c = 0"

lemma exec_cmds_hash: "db_hash (fold (exec_cmd t) cmds db) k f = db_hash db k f + sum_list (map (incr_of k f) cmds)"
proof (induction cmds arbitrary: db)
  case (Cons c cmds)
  then show ?case by (cases c) auto
qed simp

lemma encode_field_inj:
  assumes "SEP \<notin> set n" "SEP \<notin> set m" "sorted k" "sorted l"
  shows "encode_field n k = encode_field m l \<longleftrightarrow> n = m \<and> k = l"
proof
  assume "encode_field n k = encode_field m l"
  then have "Some (n, sort k) = Some (m, sort l)"
    unfolding decode_encode [OF assms(1), symmetric] decode_encode [OF assms(2), symmetric] by (rule arg_cong)
  then show "n = m \<and> k = l" using assms(3,4) by (simp only: sorted_sort_id option.inject prod.inject)
qed blast

lemma update_absent: "k \<notin> fst ` set ds \<Longrightarrow> AList.update k v ds = ds @ [(k, v)]"
  by (induction ds) auto

lemma fold_fold_concat: "fold (\<lambda>x. fold f (g x)) xs z = fold f (concat (map g xs)) z"
  by (induction xs arbitrary: z) auto

lemma fold_update_distinct:
  "distinct (map fst ds @ map fst l) \<Longrightarrow>
   fold (\<lambda>(k, v) ds. if v \<noteq> 0 then AList.update k v ds else ds) l ds = ds @ filter (\<lambda>(k, v). v \<noteq> 0) l"
  by (induction l arbitrary: ds) (auto simp: update_absent)

lemma counter_deltas_fields:
  "counter_deltas cs = fold (\<lambda>(k, v) ds. if v \<noteq> 0 then AList.update k v ds else ds) (concat (map counter_fields cs)) []"
  by (simp add: counter_deltas_def counter_fields_def fold_fold_concat [symmetric] fold_map comp_def split_def cong: if_cong)

lemma counter_okD:
  assumes "counter_ok c"
  shows "SEP \<notin> set (ct_name c)" "distinct (map fst (ct_values c))" "(k, v) \<in> set (ct_values c) \<Longrightarrow> sorted k \<and> 0 \<le> v"
  using assms by (auto simp: counter_ok_def list_all_iff)

lemma distinct_fields:
  assumes "list_all counter_ok cs" and "distinct (map ct_name cs)"
  shows "distinct (map fst (concat (map counter_fields cs)))"
  using assms
proof (induction cs)
  case (Cons c cs)
  have inj: "inj_on (encode_field (ct_name c)) (fst ` set (ct_values c))"
  proof (rule inj_onI)
    fix k l assume kl: "k \<in> fst ` set (ct_values c)" "l \<in> fst ` set (ct_values c)" and eq: "encode_field (ct_name c) k = encode_field (ct_name c) l"
    have c: "counter_ok c" using Cons.prems(1) by simp
    have "sorted k" "sorted l" using kl counter_okD(3) [OF c] by auto
    then show "k = l" using eq encode_field_inj counter_okD(1) [OF c] by blast
  qed
  have "distinct (map fst (counter_fields c))"
    using Cons.prems(1) inj
    by (auto simp: counter_fields_def counter_ok_def comp_def split_def distinct_map inj_on_def)
  moreover have "fst ` set (counter_fields c) \<inter> fst ` set (concat (map counter_fields cs)) = {}"
    using Cons.prems by (fastforce simp: counter_fields_def counter_ok_def list_all_iff encode_field_inj)
  ultimately show ?case using Cons by simp
qed simp

lemma mass_filter: "mass f (filter (\<lambda>(k, v). v \<noteq> 0) ds) = mass f ds"
  by (induction ds) (auto simp: mass_def)

lemma mass_incr: "sum_list (map (incr_of k f \<circ> (\<lambda>(g, d). Hincrbyfloat k' g d)) ds) = (if k' = k then mass f ds else 0)"
  by (induction ds) (auto simp: mass_def)

lemma counter_deltas_distinct:
  "registry_ok rg \<Longrightarrow> counter_deltas (rg_counters rg) = filter (\<lambda>(k, v). v \<noteq> 0) (concat (map counter_fields (rg_counters rg)))"
  unfolding counter_deltas_fields registry_ok_def using fold_update_distinct [of "[]", simplified, OF distinct_fields] by blast

lemma flush_ships:
  assumes "registry_ok rg"
  shows "sum_list (map (incr_of COUNTER_KEY f) (flush_cmds rp w ttl now rg)) = pending rg f"
proof -
  have "HISTOGRAM_COUNT_KEY \<noteq> COUNTER_KEY" "HISTOGRAM_SUM_KEY \<noteq> COUNTER_KEY"
    by (simp_all add: HISTOGRAM_COUNT_KEY_def HISTOGRAM_SUM_KEY_def COUNTER_KEY_def)
  then show ?thesis
    by (simp add: flush_cmds_def Let_def mass_incr mass_filter pending_def counter_deltas_distinct [OF assms])
qed

lemma fields_nonneg: "registry_ok rg \<Longrightarrow> (g, d) \<in> set (concat (map counter_fields (rg_counters rg))) \<Longrightarrow> 0 \<le> d"
  by (auto simp: registry_ok_def counter_ok_def list_all_iff counter_fields_def)

lemma incr_nonneg:
  assumes "registry_ok rg" "c \<in> set (flush_cmds rp w ttl now rg)"
  shows "0 \<le> incr_of COUNTER_KEY f c"
proof -
  have "HISTOGRAM_COUNT_KEY \<noteq> COUNTER_KEY" "HISTOGRAM_SUM_KEY \<noteq> COUNTER_KEY"
    by (simp_all add: HISTOGRAM_COUNT_KEY_def HISTOGRAM_SUM_KEY_def COUNTER_KEY_def)
  then show ?thesis
    using assms(2) fields_nonneg [OF assms(1)]
    by (auto simp: flush_cmds_def Let_def counter_deltas_distinct [OF assms(1)] simp del: set_concat split: if_splits)
qed

text \<open>
  A flush never invents and, when it succeeds, never loses a count. Whatever part of the pipeline
  takes effect, a fleet-wide counter never goes down and never rises by more than what the worker
  had pending; when the flush succeeds every pending count has moved, each exactly once.
\<close>

theorem flush_conserves_counts:
  assumes "registry_ok rg" and "sink_flush rp w ttl now t landed (rg, db) = (r, rg', db')"
  shows "registry_ok rg' \<and> pending rg' f = 0 \<and>
         db_hash db COUNTER_KEY f \<le> db_hash db' COUNTER_KEY f \<and>
         db_hash db' COUNTER_KEY f \<le> db_hash db COUNTER_KEY f + pending rg f \<and>
         (landed = None \<longrightarrow> r = Inr () \<and> db_hash db' COUNTER_KEY f = db_hash db COUNTER_KEY f + pending rg f)"
proof -
  let ?cmds = "flush_cmds rp w ttl now rg" and ?i = "incr_of COUNTER_KEY f"
  have rg': "rg' = drain_registry rg" using assms(2) by (auto simp: sink_flush_def Let_def split: option.splits)
  have [simp]: "concat (map (\<lambda>x. []) xs) = []" for xs by (induction xs) auto
  have drained: "registry_ok rg'" "pending rg' f = 0"
    using assms(1) unfolding rg'
    by (auto simp: registry_ok_def drain_registry_def counter_drain_def counter_ok_def list_all_iff comp_def pending_def
        counter_fields_def mass_def)
  have nonneg: "0 \<le> sum_list (map ?i (take n ?cmds))" "0 \<le> sum_list (map ?i (drop n ?cmds))" for n
    using incr_nonneg [OF assms(1), of _ rp w ttl now f]
    by (auto intro!: sum_list_nonneg) (meson in_set_takeD in_set_dropD)+
  have parts: "sum_list (map ?i ?cmds) = sum_list (map ?i (take n ?cmds)) + sum_list (map ?i (drop n ?cmds))" for n
    by (simp flip: sum_list_append map_append)
  have "0 \<le> sum_list (map ?i (take n ?cmds)) \<and> sum_list (map ?i (take n ?cmds)) \<le> pending rg f" for n
    using parts [of n] nonneg [of n] flush_ships [OF assms(1), of f rp w ttl now] by auto
  then show ?thesis using drained assms(2) flush_ships [OF assms(1), of f rp w ttl now]
      nonneg(1) [of "length ?cmds"]
    by (auto simp: sink_flush_def Let_def exec_cmds_hash split: option.splits)
qed

section \<open>From running totals to fleet counters\<close>

definition tot_of :: "(string \<times> int) list \<Rightarrow> string \<Rightarrow> int" where
  "tot_of outs oc = (case map_of outs oc of None \<Rightarrow> 0 | Some n \<Rightarrow> n)"

definition result_tot :: "string \<Rightarrow> (string \<times> int) list \<Rightarrow> int" where
  "result_tot r outs = sum_list (map (\<lambda>(oc, r'). if r' = r then tot_of outs oc else 0) TERMINAL_RESULT)"

definition attempts_field :: "string \<Rightarrow> string" where
  "attempts_field oc = encode_field ''orch_page_attempts_total'' [(''outcome'', oc)]"

definition terminal_field :: "string \<Rightarrow> string" where
  "terminal_field r = encode_field ''orch_pages_terminal_total'' [(''result'', r)]"

text \<open>What never changes: the names and label names of a worker's counters and histograms.\<close>

definition worker_shape :: "worker_metrics \<Rightarrow> (string \<times> string list) list" where
  "worker_shape wm = map (\<lambda>c. (ct_name c, ct_labelnames c)) (rg_counters (worker_registry wm))
     @ map (\<lambda>h. (hg_name h, hg_labelnames h)) (rg_histograms (worker_registry wm))"

definition WORKER_SHAPE :: "(string \<times> string list) list" where
  "WORKER_SHAPE =
     [(''orch_model_requests_total'', [''endpoint'', ''outcome'']), (''orch_model_retries_total'', [''endpoint'']),
      (''orch_rate_limit_waits_total'', [''endpoint'']), (''orch_rate_limit_wait_seconds_total'', [''endpoint'']),
      (''orch_page_attempts_total'', [''outcome'']), (''orch_pages_terminal_total'', [''result'']),
      (''orch_reaper_actions_total'', [''action'']),
      (''orch_model_request_duration_seconds'', [''endpoint'']), (''orch_page_duration_seconds'', [])]"

definition worker_ok :: "worker_metrics \<Rightarrow> bool" where
  "worker_ok wm \<longleftrightarrow> worker_shape wm = WORKER_SHAPE \<and> list_all counter_ok (rg_counters (worker_registry wm))"

lemma worker_ok_iff:
  "worker_ok wm \<longleftrightarrow>
     (let c = wm_model_requests wm in ct_name c = ''orch_model_requests_total'' \<and> ct_labelnames c = [''endpoint'', ''outcome''] \<and> counter_ok c) \<and>
     (let c = wm_retries wm in ct_name c = ''orch_model_retries_total'' \<and> ct_labelnames c = [''endpoint''] \<and> counter_ok c) \<and>
     (let c = wm_rate_limit_waits wm in ct_name c = ''orch_rate_limit_waits_total'' \<and> ct_labelnames c = [''endpoint''] \<and> counter_ok c) \<and>
     (let c = wm_rate_limit_wait_seconds wm in
        ct_name c = ''orch_rate_limit_wait_seconds_total'' \<and> ct_labelnames c = [''endpoint''] \<and> counter_ok c) \<and>
     (let c = wm_page_attempts wm in ct_name c = ''orch_page_attempts_total'' \<and> ct_labelnames c = [''outcome''] \<and> counter_ok c) \<and>
     (let c = wm_pages_terminal wm in ct_name c = ''orch_pages_terminal_total'' \<and> ct_labelnames c = [''result''] \<and> counter_ok c) \<and>
     (let c = wm_reaper_actions wm in ct_name c = ''orch_reaper_actions_total'' \<and> ct_labelnames c = [''action''] \<and> counter_ok c) \<and>
     hg_name (wm_model_duration wm) = ''orch_model_request_duration_seconds'' \<and> hg_labelnames (wm_model_duration wm) = [''endpoint''] \<and>
     hg_name (wm_page_duration wm) = ''orch_page_duration_seconds'' \<and> hg_labelnames (wm_page_duration wm) = []"
  by (simp add: worker_ok_def worker_shape_def WORKER_SHAPE_def worker_registry_def Let_def conj_ac)

lemma worker_ok_registry: "worker_ok wm \<Longrightarrow> registry_ok (worker_registry wm)"
  by (simp add: worker_ok_iff registry_ok_def worker_registry_def Let_def)

lemma counter_ok_add_at:
  assumes "counter_ok c" "0 \<le> d" "sorted k"
  shows "counter_ok (c\<lparr>ct_values := add_at k d (ct_values c)\<rparr>)"
proof -
  have "set (AList.update k v m) \<subseteq> insert (k, v) (set m)" for v :: real and m
    by (induction m) auto
  moreover have "0 \<le> get0 (ct_values c) k"
    using counter_okD(3) [OF assms(1)] by (auto simp: get0_def split: option.splits dest: map_of_SomeD)
  ultimately show ?thesis
    using assms unfolding counter_ok_def list_all_iff add_at_def by (fastforce simp: distinct_update)
qed

lemma inc_ok_fits:
  assumes "counter_ok c" "0 \<le> d" "ct_labelnames c = [l]"
  shows "counter_inc d [(l, x)] c = Inr (inc_ok d [(l, x)] c)"
    and "inc_ok d [(l, x)] c = c\<lparr>ct_values := add_at [(l, x)] d (ct_values c)\<rparr>"
    and "counter_ok (inc_ok d [(l, x)] c)"
  using assms by (simp_all add: inc_ok_def counter_inc_def series_key_def sum_bind_def counter_ok_add_at)

lemma pending_get0:
  assumes "registry_ok rg" and "c \<in> set (rg_counters rg)" and "sorted k"
  shows "pending rg (encode_field (ct_name c) k) = get0 (ct_values c) k"
proof -
  let ?L = "concat (map counter_fields (rg_counters rg))" and ?f = "encode_field (ct_name c) k"
  have dist: "distinct (map fst ?L)" using assms(1) distinct_fields by (simp add: registry_ok_def)
  have mass: "mass f ds = get0 ds f" if "distinct (map fst ds)" for f ds
    using that by (induction ds) (auto simp: mass_def get0_def filter_empty_conv image_iff split: option.splits)
  have cs: "counter_ok c'" if "c' \<in> set (rg_counters rg)" for c' using assms(1) that by (simp add: registry_ok_def list_all_iff)
  have uniq: "c' = c \<and> k' = k" if "c' \<in> set (rg_counters rg)" "(k', v) \<in> set (ct_values c')" "encode_field (ct_name c') k' = ?f" for c' k' v
  proof -
    have "ct_name c' = ct_name c \<and> k' = k"
      using that encode_field_inj assms(2,3) counter_okD(1) [OF cs] counter_okD(3) [OF cs] by metis
    then show ?thesis using assms(1,2) that(1) by (auto simp: registry_ok_def distinct_map dest: inj_onD)
  qed
  have "map_of ?L ?f = map_of (ct_values c) k"
  proof (cases "map_of (ct_values c) k")
    case (Some v)
    then have "(?f, v) \<in> set ?L" using assms(2) map_of_SomeD by (fastforce simp: counter_fields_def)
    then show ?thesis using Some dist by (simp only: map_of_is_SomeI)
  next
    case None
    then have "?f \<notin> fst ` set ?L" using uniq by (fastforce simp: counter_fields_def map_of_eq_None_iff image_iff)
    then have "map_of ?L ?f = None" by (simp only: map_of_eq_None_iff not_False_eq_True)
    then show ?thesis using None by simp
  qed
  then show ?thesis using mass [OF dist] by (simp add: pending_def get0_def)
qed

lemma map_of_sum:
  fixes g :: "int \<Rightarrow> int"
  assumes "g 0 = 0"
  shows "distinct (map fst outs) \<Longrightarrow> sum_list (map (\<lambda>(oc, n). if oc = x then g n else 0) outs) = g (tot_of outs x)"
proof (induction outs)
  case (Cons on outs)
  obtain oc n where on: "on = (oc, n)" by (cases on)
  have "tot_of outs x = 0" if "x \<notin> fst ` set outs" using map_of_eq_None_iff [of outs x] that by (simp add: tot_of_def)
  then show ?case using Cons assms on by (auto simp: tot_of_def)
qed (simp add: tot_of_def assms)

text \<open>One entry of the totals, with the increment of both counters written out.\<close>

definition raise :: "worker_metrics \<Rightarrow> string \<times> int \<Rightarrow> real" where
  "raise wm ot = of_int (max 0 (snd ot - wm_last_outcomes wm (fst ot)))"

lemma sync_outcome_step:
  fixes ot wm
  assumes "worker_ok wm"
  defines "wm' \<equiv> sync_outcome ot wm"
  shows "worker_ok wm'"
    and "get0 (ct_values (wm_page_attempts wm')) [(''outcome'', oc)]
           = get0 (ct_values (wm_page_attempts wm)) [(''outcome'', oc)] + (if fst ot = oc then raise wm ot else 0)"
    and "get0 (ct_values (wm_pages_terminal wm')) [(''result'', r)]
           = get0 (ct_values (wm_pages_terminal wm)) [(''result'', r)] + (if map_of TERMINAL_RESULT (fst ot) = Some r then raise wm ot else 0)"
    and "wm_last_outcomes wm' = (wm_last_outcomes wm)(fst ot := snd ot)" and "wm_last_reaper wm' = wm_last_reaper wm"
    and "wm_worker wm' = wm_worker wm" and "wm_in_flight wm' = wm_in_flight wm"
proof -
  obtain outcome tot where ot: "ot = (outcome, tot)" by (cases ot)
  define d where "d = max 0 (tot - wm_last_outcomes wm outcome)"
  have c: "counter_ok (wm_page_attempts wm)" "ct_labelnames (wm_page_attempts wm) = [''outcome'']"
    "counter_ok (wm_pages_terminal wm)" "ct_labelnames (wm_pages_terminal wm) = [''result'']"
    using assms(1) by (simp_all add: worker_ok_iff Let_def)
  have rd: "raise wm ot = of_int d" by (simp add: raise_def ot d_def)
  have fo: "fst ot = outcome" by (simp add: ot)
  have dpos: "0 \<le> (of_int d :: real)" by (simp add: d_def)
  note i = inc_ok_fits(2,3) [OF c(1) dpos c(2)] inc_ok_fits(2,3) [OF c(3) dpos c(4)]
  have wm': "wm' = (if d = 0 then wm\<lparr>wm_last_outcomes := (wm_last_outcomes wm)(outcome := tot)\<rparr>
      else wm\<lparr>wm_page_attempts := inc_ok (of_int d) [(''outcome'', outcome)] (wm_page_attempts wm),
              wm_pages_terminal := (case map_of TERMINAL_RESULT outcome of None \<Rightarrow> wm_pages_terminal wm
                 | Some r \<Rightarrow> inc_ok (of_int d) [(''result'', r)] (wm_pages_terminal wm)),
              wm_last_outcomes := (wm_last_outcomes wm)(outcome := tot)\<rparr>)"
    by (simp add: wm'_def sync_outcome_def ot Let_def split: option.split flip: d_def)
  have n: "ct_name (inc_ok (of_int d) ls k) = ct_name k" "ct_labelnames (inc_ok (of_int d) ls k) = ct_labelnames k" for ls k
    by (simp_all add: inc_ok_def counter_inc_def sum_bind_def split: sum.split)
  show "worker_ok wm'" using assms(1) i(2,4) unfolding wm' worker_ok_iff Let_def
    by (simp add: n split: option.split)
  show "get0 (ct_values (wm_page_attempts wm')) [(''outcome'', oc)]
      = get0 (ct_values (wm_page_attempts wm)) [(''outcome'', oc)] + (if fst ot = oc then raise wm ot else 0)"
    by (auto simp: wm' i(1) get0_add_at rd fo)
  show "get0 (ct_values (wm_pages_terminal wm')) [(''result'', r)]
      = get0 (ct_values (wm_pages_terminal wm)) [(''result'', r)] + (if map_of TERMINAL_RESULT (fst ot) = Some r then raise wm ot else 0)"
    by (auto simp: wm' i(3) get0_add_at rd fo split: option.split)
qed (simp_all add: wm'_def sync_outcome_def Let_def split_def split: option.split)

lemma sync_outcomes:
  assumes "worker_ok wm" and "distinct (map fst outs)"
  shows "worker_ok (fold sync_outcome outs wm) \<and>
    get0 (ct_values (wm_page_attempts (fold sync_outcome outs wm))) [(''outcome'', oc)]
      = get0 (ct_values (wm_page_attempts wm)) [(''outcome'', oc)] + sum_list (map (\<lambda>on. if fst on = oc then raise wm on else 0) outs) \<and>
    get0 (ct_values (wm_pages_terminal (fold sync_outcome outs wm))) [(''result'', r)]
      = get0 (ct_values (wm_pages_terminal wm)) [(''result'', r)]
        + sum_list (map (\<lambda>on. if map_of TERMINAL_RESULT (fst on) = Some r then raise wm on else 0) outs) \<and>
    wm_last_outcomes (fold sync_outcome outs wm) oc = (case map_of outs oc of None \<Rightarrow> wm_last_outcomes wm oc | Some n \<Rightarrow> n)"
  using assms
proof (induction outs arbitrary: wm)
  case (Cons on outs)
  note step = sync_outcome_step [OF Cons.prems(1), of on]
  have "raise (sync_outcome on wm) x = raise wm x" if "x \<in> set outs" for x
  proof -
    have "fst x \<noteq> fst on" using Cons.prems(2) that by (metis distinct.simps(2) imageI list.map(2) list.set_map)
    then show ?thesis by (simp add: raise_def step(4))
  qed
  then have same: "map (\<lambda>x. if P x then raise (sync_outcome on wm) x else 0) outs = map (\<lambda>x. if P x then raise wm x else 0) outs" for P
    by simp
  have dist: "distinct (map fst outs)" and new: "fst on \<notin> fst ` set outs" using Cons.prems(2) by auto
  have "map_of outs (fst on) = None" using new by (simp add: map_of_eq_None_iff)
  then have l: "(case map_of outs oc of None \<Rightarrow> wm_last_outcomes (sync_outcome on wm) oc | Some n \<Rightarrow> n)
      = (case map_of (on # outs) oc of None \<Rightarrow> wm_last_outcomes wm oc | Some n \<Rightarrow> n)"
    by (auto simp: step(4) split: option.split)
  show ?case using Cons.IH [OF step(1) dist] by (simp only: fold_Cons comp_apply same step(2,3) l list.map sum_list.Cons) simp
qed simp

lemma sync_reaper_keeps:
  "worker_ok wm \<Longrightarrow> worker_ok (sync_reaper x wm) \<and> wm_page_attempts (sync_reaper x wm) = wm_page_attempts wm
     \<and> wm_pages_terminal (sync_reaper x wm) = wm_pages_terminal wm \<and> wm_last_outcomes (sync_reaper x wm) = wm_last_outcomes wm"
  using inc_ok_fits(2,3) [of "wm_reaper_actions wm" _ "''action''"]
  by (auto simp: sync_reaper_def Let_def split_def worker_ok_iff)

lemma sync_reapers_keep:
  "worker_ok wm \<Longrightarrow> worker_ok (fold sync_reaper rs wm) \<and> wm_page_attempts (fold sync_reaper rs wm) = wm_page_attempts wm
     \<and> wm_pages_terminal (fold sync_reaper rs wm) = wm_pages_terminal wm
     \<and> wm_last_outcomes (fold sync_reaper rs wm) = wm_last_outcomes wm"
proof (induction rs arbitrary: wm)
  case (Cons x rs)
  then show ?case using Cons.IH [of "sync_reaper x wm"] sync_reaper_keeps [of wm x] by simp
qed simp

lemma sync_gauge_keeps:
  defines "g \<equiv> \<lambda>n wm. (case gauge_set (of_int n) [(''worker'', wm_worker wm)] (wm_in_flight wm) of Inl _ \<Rightarrow> wm | Inr g \<Rightarrow> wm\<lparr>wm_in_flight := g\<rparr>)"
  shows "worker_ok (g n wm) = worker_ok wm" "wm_page_attempts (g n wm) = wm_page_attempts wm"
    "wm_pages_terminal (g n wm) = wm_pages_terminal wm" "wm_last_outcomes (g n wm) = wm_last_outcomes wm"
  by (simp_all add: g_def worker_ok_iff split: sum.split)

text \<open>A worker's life as seen by its metrics: calls, waits and pages recorded, and flush rounds.\<close>

datatype wm_event =
    Model_Call string string real
  | Model_Retry string
  | Limit_Wait string real
  | Page_Done real
  | Flush_Round "nat option" "(string \<times> int) list" "(string \<times> int) list" int real int

fun wm_step :: "(real \<Rightarrow> string) \<Rightarrow> real \<Rightarrow> wm_event \<Rightarrow> worker_metrics \<times> metrics_db \<Rightarrow> exc + worker_metrics \<times> metrics_db" where
  "wm_step rp ttl (Model_Call e oc d) (wm, db) = sum_bind (record_model_call e oc d wm) (\<lambda>wm'. Inr (wm', db))"
| "wm_step rp ttl (Model_Retry e) (wm, db) = sum_bind (record_retry e wm) (\<lambda>wm'. Inr (wm', db))"
| "wm_step rp ttl (Limit_Wait e w) (wm, db) = sum_bind (record_rate_limit_wait e w wm) (\<lambda>wm'. Inr (wm', db))"
| "wm_step rp ttl (Page_Done d) (wm, db) = sum_bind (record_page d wm) (\<lambda>wm'. Inr (wm', db))"
| "wm_step rp ttl (Flush_Round landed outs reaper n now t) x = Inr (snd (worker_flush rp ttl now t landed outs reaper n x))"

fun wm_run :: "(real \<Rightarrow> string) \<Rightarrow> real \<Rightarrow> wm_event list \<Rightarrow> worker_metrics \<times> metrics_db \<Rightarrow> exc + worker_metrics \<times> metrics_db" where
  "wm_run rp ttl [] x = Inr x"
| "wm_run rp ttl (e # es) x = sum_bind (wm_step rp ttl e x) (wm_run rp ttl es)"

text \<open>
  Running totals only grow from one round to the next, waits are not negative, and a failed flush
  is one of which nothing took effect.
\<close>

fun grows :: "(string \<times> int) list \<Rightarrow> wm_event list \<Rightarrow> bool" where
  "grows prev [] \<longleftrightarrow> True"
| "grows prev (Flush_Round landed outs _ _ _ _ # es) \<longleftrightarrow>
     distinct (map fst outs) \<and> list_all (\<lambda>(oc, n). 0 \<le> n) outs \<and> list_all (\<lambda>(oc, n). n \<le> tot_of outs oc) prev
     \<and> (landed = None \<or> landed = Some 0) \<and> grows outs es"
| "grows prev (Limit_Wait _ w # es) \<longleftrightarrow> 0 \<le> w \<and> grows prev es"
| "grows prev (_ # es) \<longleftrightarrow> grows prev es"

fun last_outs :: "(string \<times> int) list \<Rightarrow> wm_event list \<Rightarrow> (string \<times> int) list" where
  "last_outs prev [] = prev"
| "last_outs prev (Flush_Round _ outs _ _ _ _ # es) = last_outs outs es"
| "last_outs prev (_ # es) = last_outs prev es"

text \<open>What was counted in the rounds whose flush failed.\<close>

fun lost :: "((string \<times> int) list \<Rightarrow> int) \<Rightarrow> (string \<times> int) list \<Rightarrow> wm_event list \<Rightarrow> int" where
  "lost tot prev [] = 0"
| "lost tot prev (Flush_Round landed outs _ _ _ _ # es) = (if landed = None then 0 else tot outs - tot prev) + lost tot outs es"
| "lost tot prev (_ # es) = lost tot prev es"

definition tracks :: "(string \<times> int) list \<Rightarrow> worker_metrics \<Rightarrow> bool" where
  "tracks prev wm \<longleftrightarrow> worker_ok wm \<and> ct_values (wm_page_attempts wm) = [] \<and> ct_values (wm_pages_terminal wm) = []
     \<and> (\<forall>oc. wm_last_outcomes wm oc = tot_of prev oc) \<and> list_all (\<lambda>(oc, n). 0 \<le> n) prev"

definition grown :: "(string \<times> int) list \<Rightarrow> (string \<times> int) list \<Rightarrow> bool" where
  "grown prev outs \<longleftrightarrow>
     distinct (map fst outs) \<and> list_all (\<lambda>(oc, n). 0 \<le> n) outs \<and> list_all (\<lambda>(oc, n). n \<le> tot_of outs oc) prev"

lemma tot_of_nonneg: "list_all (\<lambda>(oc, n). 0 \<le> n) outs \<Longrightarrow> 0 \<le> tot_of outs oc"
  by (auto simp: tot_of_def list_all_iff split: option.split dest: map_of_SomeD)

lemma tot_of_grown:
  assumes "grown prev outs"
  shows "tot_of prev oc \<le> tot_of outs oc"
proof (cases "map_of prev oc")
  case None
  then show ?thesis using assms tot_of_nonneg by (simp add: grown_def tot_of_def)
next
  case (Some n)
  then have "(oc, n) \<in> set prev" by (rule map_of_SomeD)
  then show ?thesis using assms Some by (auto simp: grown_def list_all_iff tot_of_def)
qed

lemma raised_attempts:
  assumes "tracks prev wm" and "grown prev outs"
  shows "sum_list (map (\<lambda>on. if fst on = oc then raise wm on else 0) outs) = of_int (tot_of outs oc - tot_of prev oc)"
proof -
  have l: "wm_last_outcomes wm = tot_of prev" using assms(1) by (auto simp: tracks_def)
  have p: "0 \<le> tot_of prev oc" using assms(1) tot_of_nonneg by (auto simp: tracks_def)
  have "sum_list (map (\<lambda>on. if fst on = oc then raise wm on else 0) outs)
      = real_of_int (sum_list (map (\<lambda>(x, n). if x = oc then max 0 (n - tot_of prev oc) else 0) outs))"
    by (induction outs) (auto simp: raise_def l)
  also have "\<dots> = of_int (max 0 (tot_of outs oc - tot_of prev oc))"
    using map_of_sum [of "\<lambda>n. max 0 (n - tot_of prev oc)" outs oc] assms(2) p by (simp add: grown_def)
  finally show ?thesis using tot_of_grown [OF assms(2), of oc] by simp
qed

lemma of_map_of_sum:
  fixes y :: real
  shows "distinct (map fst T) \<Longrightarrow>
    (if map_of T x = Some r then y else 0) = sum_list (map (\<lambda>or. if snd or = r then if x = fst or then y else 0 else 0) T)"
proof (induction T)
  case (Cons p T)
  have "sum_list (map (\<lambda>or. if snd or = r then if x = fst or then y else 0 else 0) T) = 0" if "x \<notin> fst ` set T"
    using that by (induction T) auto
  then show ?case using Cons by (cases "x = fst p") auto
qed simp

lemma sum_list_swap:
  fixes g :: "'a \<Rightarrow> 'b \<Rightarrow> real"
  shows "sum_list (map (\<lambda>x. sum_list (map (\<lambda>p. if P p then g x p else 0) T)) xs)
    = sum_list (map (\<lambda>p. if P p then sum_list (map (\<lambda>x. g x p) xs) else 0) T)"
proof (induction xs)
  case (Cons x xs)
  have "sum_list (map (\<lambda>p. if P p then g x p else 0) T) + sum_list (map (\<lambda>p. if P p then sum_list (map (\<lambda>x. g x p) xs) else 0) T)
      = sum_list (map (\<lambda>p. if P p then g x p + sum_list (map (\<lambda>x. g x p) xs) else 0) T)"
    by (induction T) auto
  then show ?case using Cons by (simp cong: if_cong)
qed (induction T, auto)

lemma raised_terminal:
  assumes "tracks prev wm" and "grown prev outs"
  shows "sum_list (map (\<lambda>on. if map_of TERMINAL_RESULT (fst on) = Some r then raise wm on else 0) outs)
    = of_int (result_tot r outs - result_tot r prev)"
proof -
  have d: "distinct (map fst TERMINAL_RESULT)" by (simp add: TERMINAL_RESULT_def)
  have "sum_list (map (\<lambda>or. if snd or = r then of_int (tot_of outs (fst or) - tot_of prev (fst or)) else 0) T)
      = real_of_int (sum_list (map (\<lambda>(oc, r'). if r' = r then tot_of outs oc else 0) T)
          - sum_list (map (\<lambda>(oc, r'). if r' = r then tot_of prev oc else 0) T))" for T :: "(string \<times> string) list"
    by (induction T) auto
  then show ?thesis unfolding of_map_of_sum [OF d] sum_list_swap raised_attempts [OF assms] result_tot_def by blast
qed

lemma worker_flush_step:
  assumes "tracks prev wm" and "grown prev outs" and "landed = None \<or> landed = Some 0"
    and "worker_flush rp ttl now t landed outs reaper n (wm, db) = (res, wm', db')"
  shows "tracks outs wm'"
    and "db_hash db' COUNTER_KEY (attempts_field oc)
           = db_hash db COUNTER_KEY (attempts_field oc) + (if landed = None then of_int (tot_of outs oc - tot_of prev oc) else 0)"
    and "db_hash db' COUNTER_KEY (terminal_field r)
           = db_hash db COUNTER_KEY (terminal_field r) + (if landed = None then of_int (result_tot r outs - result_tot r prev) else 0)"
proof -
  let ?s = "sync outs reaper n wm"
  have wm: "worker_ok wm" and dist: "distinct (map fst outs)" using assms(1,2) by (auto simp: tracks_def grown_def)
  have e: "get0 [] k = 0" for k :: series by (simp add: get0_def)
  note so = sync_outcomes [OF wm dist]
  have ok: "worker_ok ?s"
    using so sync_reapers_keep [of "fold sync_outcome outs wm" reaper] by (simp add: sync_def Let_def sync_gauge_keeps)
  have att: "get0 (ct_values (wm_page_attempts ?s)) [(''outcome'', oc)] = of_int (tot_of outs oc - tot_of prev oc)"
    and trm: "get0 (ct_values (wm_pages_terminal ?s)) [(''result'', r)] = of_int (result_tot r outs - result_tot r prev)"
    using so [of oc r] sync_reapers_keep [of "fold sync_outcome outs wm" reaper] assms(1)
      raised_attempts [OF assms(1,2), of oc] raised_terminal [OF assms(1,2), of r]
    by (simp_all add: sync_def Let_def sync_gauge_keeps tracks_def e)
  have lst: "wm_last_outcomes ?s x = tot_of outs x" for x
    using so [of x] sync_reapers_keep [of "fold sync_outcome outs wm" reaper] assms(1) tot_of_grown [OF assms(2), of x]
      tot_of_nonneg [of prev x]
    by (auto simp: sync_def Let_def sync_gauge_keeps tracks_def tot_of_def split: option.splits)
  have wm': "wm' = drain_worker ?s" using assms(4) by (auto simp: worker_flush_def Let_def split: prod.splits)
  have cd: "ct_name (snd (counter_drain c)) = ct_name c" "ct_labelnames (snd (counter_drain c)) = ct_labelnames c"
    "ct_values (snd (counter_drain c)) = []" "counter_ok c \<Longrightarrow> counter_ok (snd (counter_drain c))" for c
    by (simp_all add: counter_drain_def counter_ok_def)
  have hd: "hg_name (snd (hist_drain h)) = hg_name h" "hg_labelnames (snd (hist_drain h)) = hg_labelnames h" for h
    by (simp_all add: hist_drain_def)
  show "tracks outs wm'" using ok lst assms(2) unfolding wm' tracks_def worker_ok_iff Let_def
    by (simp add: drain_worker_def cd hd grown_def)
  have hash: "db_hash db' COUNTER_KEY f = db_hash db COUNTER_KEY f + (if landed = None then pending (worker_registry ?s) f else 0)" for f
    using assms(3,4) flush_ships [OF worker_ok_registry [OF ok]]
    by (auto simp: worker_flush_def sink_flush_def Let_def exec_cmds_hash)
  have p: "pending (worker_registry ?s) (attempts_field oc) = get0 (ct_values (wm_page_attempts ?s)) [(''outcome'', oc)]"
    "pending (worker_registry ?s) (terminal_field r) = get0 (ct_values (wm_pages_terminal ?s)) [(''result'', r)]"
    using pending_get0 [OF worker_ok_registry [OF ok], of "wm_page_attempts ?s" "[(''outcome'', oc)]"]
      pending_get0 [OF worker_ok_registry [OF ok], of "wm_pages_terminal ?s" "[(''result'', r)]"] ok
    by (simp_all add: attempts_field_def terminal_field_def worker_ok_iff Let_def worker_registry_def)
  show "db_hash db' COUNTER_KEY (attempts_field oc)
      = db_hash db COUNTER_KEY (attempts_field oc) + (if landed = None then of_int (tot_of outs oc - tot_of prev oc) else 0)"
    unfolding hash p att by (rule refl)
  show "db_hash db' COUNTER_KEY (terminal_field r)
      = db_hash db COUNTER_KEY (terminal_field r) + (if landed = None then of_int (result_tot r outs - result_tot r prev) else 0)"
    unfolding hash p trm by (rule refl)
qed

lemma counter_inc_fits:
  assumes "counter_ok c" "0 \<le> d" "set (map fst ls) = set (ct_labelnames c)"
  shows "\<exists>c'. counter_inc d ls c = Inr c' \<and> counter_ok c' \<and> ct_name c' = ct_name c \<and> ct_labelnames c' = ct_labelnames c"
  using assms by (simp add: counter_inc_def series_key_def sum_bind_def counter_ok_add_at del: set_map)

lemma observe_fits:
  assumes "set (map fst ls) = set (hg_labelnames h)"
  shows "\<exists>h'. observe v ls h = Inr h' \<and> hg_name h' = hg_name h \<and> hg_labelnames h' = hg_labelnames h"
  using assms by (simp add: observe_def series_key_def sum_bind_def Let_def del: set_map)

lemma recorded_tracks:
  assumes "tracks prev wm" and "\<not> (\<exists>landed outs reaper n now t. e = Flush_Round landed outs reaper n now t)"
    and "grows prev (e # es)"
  shows "\<exists>wm'. wm_step rp ttl e (wm, db) = Inr (wm', db) \<and> tracks prev wm' \<and> grows prev es
    \<and> last_outs prev (e # es) = last_outs prev es \<and> lost tot prev (e # es) = lost tot prev es"
proof (cases e)
  case (Model_Call ep oc d)
  obtain c where "counter_inc 1 [(''endpoint'', ep), (''outcome'', oc)] (wm_model_requests wm) = Inr c" "counter_ok c"
    "ct_name c = ct_name (wm_model_requests wm)" "ct_labelnames c = ct_labelnames (wm_model_requests wm)"
    using counter_inc_fits [of "wm_model_requests wm" 1 "[(''endpoint'', ep), (''outcome'', oc)]"] assms(1) by (auto simp: tracks_def worker_ok_iff Let_def)
  moreover obtain h where "observe d [(''endpoint'', ep)] (wm_model_duration wm) = Inr h"
    "hg_name h = hg_name (wm_model_duration wm)" "hg_labelnames h = hg_labelnames (wm_model_duration wm)"
    using observe_fits [of "[(''endpoint'', ep)]" "wm_model_duration wm" d] assms(1) by (auto simp: tracks_def worker_ok_iff Let_def)
  ultimately show ?thesis using assms(1,3) Model_Call
    by (simp add: record_model_call_def sum_bind_def tracks_def worker_ok_iff Let_def)
next
  case (Model_Retry ep)
  obtain c where "counter_inc 1 [(''endpoint'', ep)] (wm_retries wm) = Inr c" "counter_ok c"
    "ct_name c = ct_name (wm_retries wm)" "ct_labelnames c = ct_labelnames (wm_retries wm)"
    using counter_inc_fits [of "wm_retries wm" 1 "[(''endpoint'', ep)]"] assms(1) by (auto simp: tracks_def worker_ok_iff Let_def)
  then show ?thesis using assms(1,3) Model_Retry
    by (simp add: record_retry_def sum_bind_def tracks_def worker_ok_iff Let_def)
next
  case (Limit_Wait ep w)
  obtain c where "counter_inc 1 [(''endpoint'', ep)] (wm_rate_limit_waits wm) = Inr c" "counter_ok c"
    "ct_name c = ct_name (wm_rate_limit_waits wm)" "ct_labelnames c = ct_labelnames (wm_rate_limit_waits wm)"
    using counter_inc_fits [of "wm_rate_limit_waits wm" 1 "[(''endpoint'', ep)]"] assms(1) by (auto simp: tracks_def worker_ok_iff Let_def)
  moreover obtain d where "counter_inc w [(''endpoint'', ep)] (wm_rate_limit_wait_seconds wm) = Inr d" "counter_ok d"
    "ct_name d = ct_name (wm_rate_limit_wait_seconds wm)" "ct_labelnames d = ct_labelnames (wm_rate_limit_wait_seconds wm)"
    using counter_inc_fits [of "wm_rate_limit_wait_seconds wm" w "[(''endpoint'', ep)]"] assms(1,3) Limit_Wait
    by (auto simp: tracks_def worker_ok_iff Let_def)
  ultimately show ?thesis using assms(1,3) Limit_Wait
    by (simp add: record_rate_limit_wait_def sum_bind_def tracks_def worker_ok_iff Let_def)
next
  case (Page_Done d)
  obtain h where "observe d [] (wm_page_duration wm) = Inr h"
    "hg_name h = hg_name (wm_page_duration wm)" "hg_labelnames h = hg_labelnames (wm_page_duration wm)"
    using observe_fits [of "[]" "wm_page_duration wm" d] assms(1) by (auto simp: tracks_def worker_ok_iff Let_def)
  then show ?thesis using assms(1,3) Page_Done
    by (simp add: record_page_def sum_bind_def tracks_def worker_ok_iff Let_def)
qed (use assms(2) in blast)

lemma run_ships:
  assumes "tracks prev wm" and "grows prev es"
  shows "\<exists>wm' db'. wm_run rp ttl es (wm, db) = Inr (wm', db') \<and> tracks (last_outs prev es) wm' \<and>
    (\<forall>oc. db_hash db' COUNTER_KEY (attempts_field oc) = db_hash db COUNTER_KEY (attempts_field oc)
       + of_int (tot_of (last_outs prev es) oc - tot_of prev oc - lost (\<lambda>outs. tot_of outs oc) prev es)) \<and>
    (\<forall>r. db_hash db' COUNTER_KEY (terminal_field r) = db_hash db COUNTER_KEY (terminal_field r)
       + of_int (result_tot r (last_outs prev es) - result_tot r prev - lost (result_tot r) prev es))"
  using assms
proof (induction es arbitrary: prev wm db)
  case (Cons e es)
  show ?case
  proof (cases "\<exists>landed outs reaper n now t. e = Flush_Round landed outs reaper n now t")
    case True
    then obtain landed outs reaper n now t where e: "e = Flush_Round landed outs reaper n now t" by blast
    obtain res wm1 db1 where f: "worker_flush rp ttl now t landed outs reaper n (wm, db) = (res, wm1, db1)" by (metis prod_cases3)
    have g: "grown prev outs" "landed = None \<or> landed = Some 0" "grows outs es" using Cons.prems(2) by (auto simp: e grown_def)
    note step = worker_flush_step [OF Cons.prems(1) g(1,2) f]
    have run: "wm_run rp ttl (e # es) (wm, db) = wm_run rp ttl es (wm1, db1)" by (simp add: e f sum_bind_def)
    obtain wm' db' where "wm_run rp ttl es (wm1, db1) = Inr (wm', db')" "tracks (last_outs outs es) wm'"
      and a: "\<And>oc. db_hash db' COUNTER_KEY (attempts_field oc) = db_hash db1 COUNTER_KEY (attempts_field oc)
         + of_int (tot_of (last_outs outs es) oc - tot_of outs oc - lost (\<lambda>outs. tot_of outs oc) outs es)"
      and b: "\<And>r. db_hash db' COUNTER_KEY (terminal_field r) = db_hash db1 COUNTER_KEY (terminal_field r)
         + of_int (result_tot r (last_outs outs es) - result_tot r outs - lost (result_tot r) outs es)"
      using Cons.IH [OF step(1) g(3)] by blast
    then show ?thesis unfolding run by (intro exI [of _ wm'] exI [of _ db']) (cases landed; simp add: a b step(2,3) e)
  next
    case False
    obtain wm1 where "wm_step rp ttl e (wm, db) = Inr (wm1, db)" "tracks prev wm1" "grows prev es"
      using recorded_tracks [OF Cons.prems(1) False Cons.prems(2), of rp ttl db "\<lambda>_. 0"] by blast
    moreover have "last_outs prev (e # es) = last_outs prev es" "\<And>tot. lost tot prev (e # es) = lost tot prev es"
      using recorded_tracks [OF Cons.prems(1) False Cons.prems(2), of rp ttl db] by blast+
    ultimately show ?thesis using Cons.IH [of prev wm1 db] by (simp add: sum_bind_def)
  qed
qed simp

lemma new_worker_tracks: "\<exists>wm. new_worker_metrics w n = Inr wm \<and> tracks [] wm"
  by (simp add: new_worker_metrics_def new_histogram_def DEFAULT_BUCKETS_def gauge_set_def new_gauge_def series_key_def sum_bind_def
      tracks_def worker_ok_iff Let_def new_counter_def counter_ok_def SEP_def tot_of_def)

text \<open>
  The fleet counters show the worker's own totals. From a fresh worker, through any sequence of
  recorded calls, retries, waits, pages and flush rounds whose totals only grow, nothing raises,
  and the fleet's counter of an outcome has risen by the total of the last round less what was
  counted in rounds whose flush failed; the counter of a terminal result by the same of the
  outcomes that it stands for. When no flush fails, nothing is missing and nothing counted twice.
\<close>

theorem fleet_counters_track_totals:
  assumes "grows [] es"
  shows "\<exists>wm wm' db'. new_worker_metrics w n = Inr wm \<and> wm_run rp ttl es (wm, db) = Inr (wm', db') \<and>
    (\<forall>oc. db_hash db' COUNTER_KEY (attempts_field oc) = db_hash db COUNTER_KEY (attempts_field oc)
       + of_int (tot_of (last_outs [] es) oc - lost (\<lambda>outs. tot_of outs oc) [] es)) \<and>
    (\<forall>r. db_hash db' COUNTER_KEY (terminal_field r) = db_hash db COUNTER_KEY (terminal_field r)
       + of_int (result_tot r (last_outs [] es) - lost (result_tot r) [] es))"
proof -
  obtain wm where wm: "new_worker_metrics w n = Inr wm" "tracks [] wm" using new_worker_tracks by blast
  have "tot_of [] oc = 0" "result_tot r [] = 0" for oc r by (simp_all add: result_tot_def tot_of_def TERMINAL_RESULT_def)
  then show ?thesis using run_ships [OF wm(2) assms, of rp ttl db, unfolded diff_zero] wm(1) by (simp, blast)
qed

definition demo_rounds :: "wm_event list" where
  "demo_rounds =
     [Model_Call ''layout'' ''ok'' 2, Flush_Round None [(''completed'', 2), (''failed'', 1)] [(''reaped'', 1)] 3 0 0,
      Limit_Wait ''vlm'' 1, Flush_Round (Some 0) [(''completed'', 5), (''failed'', 1)] [] 1 0 0,
      Flush_Round None [(''completed'', 5), (''failed'', 2), (''resumed'', 4)] [] 0 0 0]"

lemma demo_rounds_grow: "grows [] demo_rounds"
  by (simp add: demo_rounds_def tot_of_def)

lemma demo_rounds_totals:
  "result_tot ''success'' (last_outs [] demo_rounds) = 9" "lost (result_tot ''success'') [] demo_rounds = 3"
  "result_tot ''failed'' (last_outs [] demo_rounds) = 2" "lost (result_tot ''failed'') [] demo_rounds = 0"
  by code_simp+

theorem fleet_counters_track_totals_witness:
  "\<exists>wm wm' db'. new_worker_metrics ''w1'' 4 = Inr wm \<and>
     wm_run (\<lambda>_. []) 30 demo_rounds (wm, \<lparr>db_hash = \<lambda>_ _. 10, db_gauges = \<lambda>_. None, db_alive = \<lambda>_. None\<rparr>) = Inr (wm', db') \<and>
     db_hash db' COUNTER_KEY (terminal_field ''success'') = 16 \<and> db_hash db' COUNTER_KEY (terminal_field ''failed'') = 12"
proof -
  let ?db = "\<lparr>db_hash = \<lambda>_ _. 10, db_gauges = \<lambda>_. None, db_alive = \<lambda>_. None\<rparr>"
  obtain wm wm' db' where a: "new_worker_metrics ''w1'' 4 = Inr wm" and b: "wm_run (\<lambda>_. []) 30 demo_rounds (wm, ?db) = Inr (wm', db')"
    and c: "\<And>r. db_hash db' COUNTER_KEY (terminal_field r) = db_hash ?db COUNTER_KEY (terminal_field r)
       + of_int (result_tot r (last_outs [] demo_rounds) - lost (result_tot r) [] demo_rounds)"
    using fleet_counters_track_totals [OF demo_rounds_grow, of "''w1''" 4 "\<lambda>_. []" 30 ?db] by blast
  show ?thesis using a b c [of "''success''"] c [of "''failed''"] by (intro exI conjI) (assumption | simp add: demo_rounds_totals)+
qed

definition demo_registry :: registry where
  "demo_registry = \<lparr>rg_counters = [\<lparr>ct_name = ''c'', ct_help = [], ct_labelnames = [''k''], ct_values = [([(''k'', ''a'')], 3)]\<rparr>],
     rg_gauges = [], rg_histograms = []\<rparr>"

lemma demo_registry_ok: "registry_ok demo_registry" and demo_registry_pending: "pending demo_registry (encode_field ''c'' [(''k'', ''a'')]) = 3"
  by (simp_all add: demo_registry_def registry_ok_def counter_ok_def SEP_def pending_def counter_fields_def mass_def)

theorem flush_conserves_counts_witness:
  "let (r, rg', db') = sink_flush (\<lambda>_. []) ''w'' 30 0 0 None (demo_registry, \<lparr>db_hash = \<lambda>_ _. 4, db_gauges = \<lambda>_. None, db_alive = \<lambda>_. None\<rparr>)
   in r = Inr () \<and> db_hash db' COUNTER_KEY (encode_field ''c'' [(''k'', ''a'')]) = 7 \<and> pending rg' (encode_field ''c'' [(''k'', ''a'')]) = 0"
proof -
  obtain r rg' db' where s: "sink_flush (\<lambda>_. []) ''w'' 30 0 0 None
      (demo_registry, \<lparr>db_hash = \<lambda>_ _. 4, db_gauges = \<lambda>_. None, db_alive = \<lambda>_. None\<rparr>) = (r, rg', db')" by (metis prod_cases3)
  show ?thesis
    using flush_conserves_counts [OF demo_registry_ok s, of "encode_field ''c'' [(''k'', ''a'')]"] demo_registry_pending s by simp
qed

text \<open>
  A failed flush costs the counts of its interval for good: the drained deltas are gone and the next
  round ships only what came after.
\<close>

theorem failed_flush_loses_interval:
  "\<exists>wm wm' db'. new_worker_metrics ''w1'' 4 = Inr wm \<and>
     wm_run (\<lambda>_. []) 30 [Flush_Round (Some 0) [(''completed'', 5)] [] 0 0 0, Flush_Round None [(''completed'', 5)] [] 0 0 0]
       (wm, \<lparr>db_hash = \<lambda>_ _. 0, db_gauges = \<lambda>_. None, db_alive = \<lambda>_. None\<rparr>) = Inr (wm', db') \<and>
     db_hash db' COUNTER_KEY (terminal_field ''success'') = 0"
proof -
  let ?es = "[Flush_Round (Some 0) [(''completed'', 5)] [] 0 0 0, Flush_Round None [(''completed'', 5)] [] 0 0 0]"
  have g: "grows [] ?es" by (simp add: tot_of_def)
  have n: "result_tot ''success'' (last_outs [] ?es) - lost (result_tot ''success'') [] ?es = 0" by code_simp
  obtain wm where wm: "new_worker_metrics ''w1'' 4 = Inr wm" "tracks [] wm" using new_worker_tracks by blast
  have "result_tot ''success'' [] = 0" by code_simp
  then show ?thesis using run_ships [OF wm(2) g, of "\<lambda>_. []" 30 "\<lparr>db_hash = \<lambda>_ _. 0, db_gauges = \<lambda>_. None, db_alive = \<lambda>_. None\<rparr>"] wm(1) n
    by (auto simp del: wm_run.simps last_outs.simps lost.simps)
qed

end
