(* ===== verification/Mock_Model.thy ===== *)
theory Mock_Model
  imports Orch_Prelude "HOL-Library.AList"
begin

text \<open>
  The mock inference server, \<^verbatim>\<open>src/mock_model\<close>: its in-process token bucket, the chaos rules, the counters, the
  idempotency store with its single flight, and the request handler. A request runs without
  interruption between two awaits, so an event of the model is one such stretch: the arrival up to
  the sleep, the wait or the answer, the wake-up after the simulated latency, the resumption of a
  follower, a cancellation, and the admin calls. Clock readings and random draws are part of the
  event. The body of a prediction is what the handler's argument \<^verbatim>\<open>payload\<close> returns. A handle of an
  execution in flight is named by the request that leads it. The clock readings of one stretch
  coincide, and only requests that pass the validation of \<^verbatim>\<open>schemas.py\<close> are events.
\<close>

section \<open>The token bucket\<close>

record bucket =
  bk_rate :: real
  bk_burst :: nat
  bk_tokens :: real
  bk_last_refill :: real

definition new_bucket :: "real \<Rightarrow> int \<Rightarrow> real \<Rightarrow> bucket option" where
  "new_bucket rate burst now =
     (if rate \<le> 0 \<or> burst \<le> 0 then None
      else Some \<lparr>bk_rate = rate, bk_burst = nat burst, bk_tokens = of_int burst, bk_last_refill = now\<rparr>)"

definition bk_refill :: "real \<Rightarrow> bucket \<Rightarrow> bucket" where
  "bk_refill now b =
     (let elapsed = now - bk_last_refill b
      in if elapsed > 0
         then b\<lparr>bk_tokens := min (real (bk_burst b)) (bk_tokens b + elapsed * bk_rate b), bk_last_refill := now\<rparr>
         else b)"

definition bk_acquire :: "real \<Rightarrow> real \<Rightarrow> bucket \<Rightarrow> real \<times> bucket" where
  "bk_acquire now cost b =
     (let b1 = bk_refill now b
      in if bk_tokens b1 \<ge> cost then (0, b1\<lparr>bk_tokens := bk_tokens b1 - cost\<rparr>)
         else ((cost - bk_tokens b1) / bk_rate b1, b1))"

definition bk_remaining :: "real \<Rightarrow> bucket \<Rightarrow> int \<times> bucket" where
  "bk_remaining now b = (let b1 = bk_refill now b in (\<lfloor>bk_tokens b1\<rfloor>, b1))"

record rl_headers =
  hd_retry_after :: int
  hd_retry_after_ms :: int
  hd_limit :: real
  hd_burst :: nat
  hd_remaining :: int

definition rate_limit_headers :: "real \<Rightarrow> real \<Rightarrow> bucket \<Rightarrow> rl_headers \<times> bucket" where
  "rate_limit_headers now wait_s b =
     (let (rem, b1) = bk_remaining now b
      in (\<lparr>hd_retry_after = max 1 \<lceil>wait_s\<rceil>, hd_retry_after_ms = \<lfloor>wait_s * 1000\<rfloor>, hd_limit = bk_rate b,
           hd_burst = bk_burst b, hd_remaining = rem\<rparr>, b1))"

section \<open>Chaos rules and counters\<close>

record chaos_rule =
  ch_status :: int
  ch_ratio :: real
  ch_extra_latency_ms :: real
  ch_expires_at :: real

definition chaos_set :: "real \<Rightarrow> string \<Rightarrow> int \<Rightarrow> real \<Rightarrow> real \<Rightarrow> real \<Rightarrow> (string \<rightharpoonup> chaos_rule) \<Rightarrow> (string \<rightharpoonup> chaos_rule)" where
  "chaos_set now endpoint status ratio seconds extra rules =
     rules(endpoint \<mapsto> \<lparr>ch_status = status, ch_ratio = ratio, ch_extra_latency_ms = extra, ch_expires_at = now + seconds\<rparr>)"

definition chaos_clear :: "string option \<Rightarrow> (string \<rightharpoonup> chaos_rule) \<Rightarrow> (string \<rightharpoonup> chaos_rule)" where
  "chaos_clear endpoint rules = (case endpoint of None \<Rightarrow> Map.empty | Some e \<Rightarrow> rules(e := None))"

definition chaos_active :: "real \<Rightarrow> string \<Rightarrow> (string \<rightharpoonup> chaos_rule) \<Rightarrow> chaos_rule option \<times> (string \<rightharpoonup> chaos_rule)" where
  "chaos_active now endpoint rules =
     (case rules endpoint of
        None \<Rightarrow> (None, rules)
      | Some rule \<Rightarrow> if max 0 (ch_expires_at rule - now) \<le> 0 then (None, rules(endpoint := None)) else (Some rule, rules))"

definition chaos_roll :: "real \<Rightarrow> real \<Rightarrow> string \<Rightarrow> (string \<rightharpoonup> chaos_rule) \<Rightarrow> chaos_rule option \<times> (string \<rightharpoonup> chaos_rule)" where
  "chaos_roll now rnd endpoint rules =
     (let (rule, rules') = chaos_active now endpoint rules
      in (Option.bind rule (\<lambda>x. if rnd < ch_ratio x then Some x else None), rules'))"

text \<open>The snapshot asks for every rule, which expires those that are due; the answer lists the rules kept.\<close>

definition chaos_snapshot :: "real \<Rightarrow> (string \<rightharpoonup> chaos_rule) \<Rightarrow> (string \<rightharpoonup> chaos_rule)" where
  "chaos_snapshot now rules = (\<lambda>endpoint. fst (chaos_active now endpoint rules))"

record endpoint_stats =
  sn_requests :: nat
  sn_executions :: nat
  sn_replays :: nat
  sn_rate_limited :: nat
  sn_injected_failures :: nat
  sn_chaos_rejections :: nat

definition zero_stats :: endpoint_stats where
  "zero_stats = \<lparr>sn_requests = 0, sn_executions = 0, sn_replays = 0, sn_rate_limited = 0, sn_injected_failures = 0, sn_chaos_rejections = 0\<rparr>"

definition stats_of :: "string \<Rightarrow> (string \<rightharpoonup> endpoint_stats) \<Rightarrow> endpoint_stats" where
  "stats_of endpoint st = (case st endpoint of None \<Rightarrow> zero_stats | Some s \<Rightarrow> s)"

definition bump_stat :: "string \<Rightarrow> (endpoint_stats \<Rightarrow> endpoint_stats) \<Rightarrow> (string \<rightharpoonup> endpoint_stats) \<Rightarrow> (string \<rightharpoonup> endpoint_stats)" where
  "bump_stat endpoint f st = st(endpoint \<mapsto> f (stats_of endpoint st))"

section \<open>The idempotency store\<close>

datatype mock_exc = Http int "rl_headers option" | Cancelled

type_synonym rid = nat

record 'b in_flight =
  if_outcome :: "(mock_exc + 'b) option"
  if_followers :: nat

text \<open>The caches are ordered dicts, the oldest entry first.\<close>

record 'b idem_store =
  id_ttl_s :: real
  id_max_entries :: nat
  id_inflight :: "string \<rightharpoonup> rid"
  id_handles :: "rid \<rightharpoonup> 'b in_flight"
  id_cache :: "(string \<times> real \<times> 'b) list"
  id_executions :: "(string \<times> nat) list"
  id_duplicates :: "(string \<times> nat) list"

definition evict :: "nat \<Rightarrow> 'e list \<Rightarrow> 'e list" where
  "evict m xs = drop (length xs - m) xs"

definition move_to_end :: "'k \<Rightarrow> ('k \<times> 'v) list \<Rightarrow> ('k \<times> 'v) list" where
  "move_to_end k xs = filter (\<lambda>e. fst e \<noteq> k) xs @ filter (\<lambda>e. fst e = k) xs"

definition idem_get :: "real \<Rightarrow> string \<Rightarrow> 'b idem_store \<Rightarrow> 'b option \<times> 'b idem_store" where
  "idem_get now key s =
     (case map_of (id_cache s) key of
        None \<Rightarrow> (None, s)
      | Some (stored_at, body) \<Rightarrow>
          if now - stored_at > id_ttl_s s then (None, s\<lparr>id_cache := filter (\<lambda>e. fst e \<noteq> key) (id_cache s)\<rparr>)
          else (Some body, s\<lparr>id_cache := move_to_end key (id_cache s)\<rparr>))"

definition idem_put :: "real \<Rightarrow> string \<Rightarrow> 'b \<Rightarrow> 'b idem_store \<Rightarrow> 'b idem_store" where
  "idem_put now key body s =
     s\<lparr>id_cache := evict (id_max_entries s) (move_to_end key (AList.update key (now, body) (id_cache s)))\<rparr>"

definition idem_begin :: "rid \<Rightarrow> string \<Rightarrow> 'b idem_store \<Rightarrow> (rid option) \<times> 'b idem_store" where
  "idem_begin r key s =
     (case id_inflight s key of
        Some l \<Rightarrow>
          (Some l, s\<lparr>id_handles := (id_handles s)(l := map_option (\<lambda>h. h\<lparr>if_followers := if_followers h + 1\<rparr>) (id_handles s l))\<rparr>)
      | None \<Rightarrow>
          (None, s\<lparr>id_inflight := (id_inflight s)(key \<mapsto> r),
                   id_handles := (id_handles s)(r \<mapsto> \<lparr>if_outcome = None, if_followers = 0\<rparr>)\<rparr>))"

definition idem_settle :: "string \<Rightarrow> mock_exc + 'b \<Rightarrow> 'b idem_store \<Rightarrow> 'b idem_store" where
  "idem_settle key outcome s =
     (case id_inflight s key of
        None \<Rightarrow> s
      | Some l \<Rightarrow>
          s\<lparr>id_inflight := (id_inflight s)(key := None),
            id_handles := (id_handles s)(l := map_option (\<lambda>h. h\<lparr>if_outcome := Some outcome\<rparr>) (id_handles s l))\<rparr>)"

definition idem_finish :: "string \<Rightarrow> 'b \<Rightarrow> 'b idem_store \<Rightarrow> 'b idem_store" where
  "idem_finish key body s = idem_settle key (Inr body) s"

definition idem_abandon :: "string \<Rightarrow> mock_exc \<Rightarrow> 'b idem_store \<Rightarrow> 'b idem_store" where
  "idem_abandon key err s = idem_settle key (Inl err) s"

definition record_execution :: "string \<Rightarrow> 'b idem_store \<Rightarrow> nat \<times> 'b idem_store" where
  "record_execution key s =
     (let count = (case map_of (id_executions s) key of None \<Rightarrow> 0 | Some n \<Rightarrow> n) + 1;
          s1 = s\<lparr>id_executions := evict (id_max_entries s) (move_to_end key (AList.update key count (id_executions s)))\<rparr>
      in (count, if count > 1 then s1\<lparr>id_duplicates := AList.update key count (id_duplicates s1)\<rparr> else s1))"

definition idem_reset :: "'b idem_store \<Rightarrow> 'b idem_store" where
  "idem_reset s = s\<lparr>id_cache := [], id_executions := [], id_duplicates := []\<rparr>"

section \<open>The server\<close>

datatype 'b phase = Sleeping | Waiting rid | Finished "mock_exc + 'b"

record 'b mtask =
  mt_endpoint :: string
  mt_key :: "string option"
  mt_job :: string
  mt_page :: int
  mt_phase :: "'b phase"
  mt_epoch :: nat

text \<open>
  A request keeps the counters object it took on arrival. A reset drops these objects, so what such a
  request still counts is lost: \<^verbatim>\<open>mk_epoch\<close> is the number of resets, \<^verbatim>\<open>mt_epoch\<close> that number on arrival.
\<close>

record 'b mock =
  mk_buckets :: "string \<Rightarrow> bucket"
  mk_chaos :: "string \<rightharpoonup> chaos_rule"
  mk_stats :: "string \<rightharpoonup> endpoint_stats"
  mk_idem :: "'b idem_store"
  mk_tasks :: "rid \<rightharpoonup> 'b mtask"
  mk_epoch :: nat

definition take_token :: "real \<Rightarrow> string \<Rightarrow> 'b mock \<Rightarrow> mock_exc option \<times> 'b mock" where
  "take_token now endpoint m =
     (let (wait_s, b) = bk_acquire now 1 (mk_buckets m endpoint)
      in if wait_s > 0
         then
           let (h, b') = rate_limit_headers now wait_s b
           in (Some (Http 429 (Some h)),
               m\<lparr>mk_stats := bump_stat endpoint (\<lambda>s. s\<lparr>sn_rate_limited := sn_rate_limited s + 1\<rparr>) (mk_stats m),
                 mk_buckets := (mk_buckets m)(endpoint := b')\<rparr>)
         else (None, m\<lparr>mk_buckets := (mk_buckets m)(endpoint := b)\<rparr>))"

text \<open>The first part of \<^verbatim>\<open>_execute\<close>, up to the sleep: \<^const>\<open>None\<close> when the sleep is reached, otherwise what is raised.\<close>

definition execute_start :: "real \<Rightarrow> real \<Rightarrow> string \<Rightarrow> 'b mock \<Rightarrow> mock_exc option \<times> 'b mock" where
  "execute_start now rnd endpoint m =
     (let (rule, rules1) = chaos_active now endpoint (mk_chaos m);
          (faulted, rules2) = (if rule \<noteq> None then chaos_roll now rnd endpoint rules1 else (None, rules1));
          m1 = m\<lparr>mk_chaos := rules2\<rparr>
      in case faulted of
           Some f \<Rightarrow>
             if ch_status f \<ge> 400 then
               let m2 = m1\<lparr>mk_stats := bump_stat endpoint (\<lambda>s. s\<lparr>sn_chaos_rejections := sn_chaos_rejections s + 1\<rparr>) (mk_stats m1)\<rparr>
               in if ch_status f = 429
                  then
                    let (h, b) = rate_limit_headers now 1 (mk_buckets m2 endpoint)
                    in (Some (Http 429 (Some h)),
                        m2\<lparr>mk_stats := bump_stat endpoint (\<lambda>s. s\<lparr>sn_rate_limited := sn_rate_limited s + 1\<rparr>) (mk_stats m2),
                           mk_buckets := (mk_buckets m2)(endpoint := b)\<rparr>)
                  else (Some (Http (ch_status f) None),
                        m2\<lparr>mk_stats := bump_stat endpoint (\<lambda>s. s\<lparr>sn_injected_failures := sn_injected_failures s + 1\<rparr>) (mk_stats m2)\<rparr>)
             else take_token now endpoint m1
         | None \<Rightarrow> take_token now endpoint m1)"

text \<open>The rest, after the sleep: the random failure or the body.\<close>

definition execute_end :: "(string \<Rightarrow> real) \<Rightarrow> (string \<Rightarrow> string \<Rightarrow> int \<Rightarrow> 'b) \<Rightarrow> real \<Rightarrow> 'b mtask \<Rightarrow> 'b mock \<Rightarrow> (mock_exc + 'b) \<times> 'b mock" where
  "execute_end failure_rate payload rnd tk m =
     (let endpoint = mt_endpoint tk;
          count = (\<lambda>f. if mt_epoch tk = mk_epoch m then m\<lparr>mk_stats := bump_stat endpoint f (mk_stats m)\<rparr> else m)
      in if rnd < failure_rate endpoint
         then (Inl (Http 500 None), count (\<lambda>s. s\<lparr>sn_injected_failures := sn_injected_failures s + 1\<rparr>))
         else (Inr (payload endpoint (mt_job tk) (mt_page tk)), count (\<lambda>s. s\<lparr>sn_executions := sn_executions s + 1\<rparr>)))"

definition set_phase :: "rid \<Rightarrow> 'b phase \<Rightarrow> 'b mock \<Rightarrow> 'b mock" where
  "set_phase r ph m = m\<lparr>mk_tasks := (mk_tasks m)(r := map_option (\<lambda>tk. tk\<lparr>mt_phase := ph\<rparr>) (mk_tasks m r))\<rparr>"

definition replayed :: "string \<Rightarrow> 'b mock \<Rightarrow> 'b mock" where
  "replayed endpoint m =
     m\<lparr>mk_stats := bump_stat endpoint (\<lambda>s. s\<lparr>sn_replays := sn_replays s + 1\<rparr>) (mk_stats m)\<rparr>"

text \<open>What \<^verbatim>\<open>_handle\<close> does with the outcome of an execution that it leads.\<close>

definition settle :: "real \<Rightarrow> string \<Rightarrow> mock_exc + 'b \<Rightarrow> 'b mock \<Rightarrow> 'b mock" where
  "settle now key outcome m =
     (case outcome of
        Inl e \<Rightarrow> m\<lparr>mk_idem := idem_abandon key e (mk_idem m)\<rparr>
      | Inr body \<Rightarrow> m\<lparr>mk_idem := idem_finish key body (idem_put now key body (snd (record_execution key (mk_idem m))))\<rparr>)"

definition settle_task :: "real \<Rightarrow> rid \<Rightarrow> 'b mtask \<Rightarrow> mock_exc + 'b \<Rightarrow> 'b mock \<Rightarrow> 'b mock" where
  "settle_task now r tk outcome m =
     set_phase r (Finished outcome) (case mt_key tk of None \<Rightarrow> m | Some k \<Rightarrow> settle now k outcome m)"

text \<open>The arrival of a request; an empty key is no key.\<close>

definition arrive :: "real \<Rightarrow> real \<Rightarrow> rid \<Rightarrow> string \<Rightarrow> string option \<Rightarrow> string \<Rightarrow> int \<Rightarrow> 'b mock \<Rightarrow> 'b mock" where
  "arrive now rnd r endpoint idem_key job page m =
     (let key = (if idem_key = Some [] then None else idem_key);
          tk = \<lparr>mt_endpoint = endpoint, mt_key = key, mt_job = job, mt_page = page, mt_phase = Sleeping, mt_epoch = mk_epoch m\<rparr>;
          m0 = m\<lparr>mk_stats := bump_stat endpoint (\<lambda>s. s\<lparr>sn_requests := sn_requests s + 1\<rparr>) (mk_stats m),
                 mk_tasks := (mk_tasks m)(r \<mapsto> tk)\<rparr>;
          start = (\<lambda>m. let (err, m') = execute_start now rnd endpoint m
                       in case err of None \<Rightarrow> m' | Some e \<Rightarrow> settle_task now r tk (Inl e) m')
      in case key of
           None \<Rightarrow> start m0
         | Some k \<Rightarrow>
             (let (cached, s1) = idem_get now k (mk_idem m0); m1 = m0\<lparr>mk_idem := s1\<rparr>
              in case cached of
                   Some body \<Rightarrow> set_phase r (Finished (Inr body)) (replayed endpoint m1)
                 | None \<Rightarrow>
                     (let (leader, s2) = idem_begin r k (mk_idem m1); m2 = m1\<lparr>mk_idem := s2\<rparr>
                      in case leader of
                           Some l \<Rightarrow> set_phase r (Waiting l) (replayed endpoint m2)
                         | None \<Rightarrow> start m2)))"

record counts =
  cc_endpoints :: "string \<rightharpoonup> endpoint_stats"
  cc_cached_responses :: nat
  cc_tracked_keys :: nat
  cc_in_flight :: nat
  cc_duplicate_executions :: "(string \<times> nat) list"
  cc_remaining :: "string \<Rightarrow> int"

definition poll_buckets :: "real \<Rightarrow> 'b mock \<Rightarrow> 'b mock" where
  "poll_buckets now m = m\<lparr>mk_buckets := (\<lambda>e. snd (bk_remaining now (mk_buckets m e)))\<rparr>"

definition call_counts :: "real \<Rightarrow> 'b mock \<Rightarrow> counts \<times> 'b mock" where
  "call_counts now m =
     (let s = mk_idem m
      in (\<lparr>cc_endpoints = mk_stats m, cc_cached_responses = length (id_cache s), cc_tracked_keys = length (id_executions s),
           cc_in_flight = card (dom (id_inflight s)), cc_duplicate_executions = id_duplicates s,
           cc_remaining = (\<lambda>e. fst (bk_remaining now (mk_buckets m e)))\<rparr>,
          poll_buckets now m))"

datatype mock_event =
    Arrive real real rid string "string option" string int
  | Wake real real rid
  | Resume rid
  | Cancel real rid
  | Set_Chaos real string int real real real
  | Clear_Chaos real "string option"
  | Get_Chaos real
  | Call_Counts real
  | Reset

text \<open>\<^const>\<open>None\<close> when the event cannot happen in this state.\<close>

fun mock_step :: "(string \<Rightarrow> real) \<Rightarrow> (string \<Rightarrow> string \<Rightarrow> int \<Rightarrow> 'b) \<Rightarrow> mock_event \<Rightarrow> 'b mock \<Rightarrow> 'b mock option" where
  "mock_step fr pl (Arrive now rnd r endpoint key job page) m =
     (if mk_tasks m r = None then Some (arrive now rnd r endpoint key job page m) else None)"
| "mock_step fr pl (Wake now rnd r) m =
     (case mk_tasks m r of
        None \<Rightarrow> None
      | Some tk \<Rightarrow>
          (case mt_phase tk of
             Sleeping \<Rightarrow> (let (outcome, m') = execute_end fr pl rnd tk m in Some (settle_task now r tk outcome m'))
           | _ \<Rightarrow> None))"
| "mock_step fr pl (Resume r) m =
     (case mk_tasks m r of
        None \<Rightarrow> None
      | Some tk \<Rightarrow>
          (case mt_phase tk of
             Waiting l \<Rightarrow>
               (case Option.bind (id_handles (mk_idem m) l) if_outcome of
                  None \<Rightarrow> None
                | Some outcome \<Rightarrow> Some (set_phase r (Finished outcome) m))
           | _ \<Rightarrow> None))"
| "mock_step fr pl (Cancel now r) m =
     (case mk_tasks m r of
        None \<Rightarrow> None
      | Some tk \<Rightarrow>
          (case mt_phase tk of
             Sleeping \<Rightarrow> Some (settle_task now r tk (Inl Cancelled) m)
           | Waiting l \<Rightarrow> Some (set_phase r (Finished (Inl Cancelled)) m)
           | Finished _ \<Rightarrow> None))"
| "mock_step fr pl (Set_Chaos now endpoint status ratio seconds extra) m =
     Some (m\<lparr>mk_chaos := chaos_snapshot now (chaos_set now endpoint status ratio seconds extra (mk_chaos m))\<rparr>)"
| "mock_step fr pl (Clear_Chaos now endpoint) m =
     Some (m\<lparr>mk_chaos := chaos_snapshot now (chaos_clear endpoint (mk_chaos m))\<rparr>)"
| "mock_step fr pl (Get_Chaos now) m = Some (m\<lparr>mk_chaos := chaos_snapshot now (mk_chaos m)\<rparr>)"
| "mock_step fr pl (Call_Counts now) m = Some (poll_buckets now m)"
| "mock_step fr pl Reset m = Some (m\<lparr>mk_stats := Map.empty, mk_idem := idem_reset (mk_idem m), mk_chaos := Map.empty, mk_epoch := mk_epoch m + 1\<rparr>)"

fun mock_run :: "(string \<Rightarrow> real) \<Rightarrow> (string \<Rightarrow> string \<Rightarrow> int \<Rightarrow> 'b) \<Rightarrow> mock_event list \<Rightarrow> 'b mock \<Rightarrow> 'b mock option" where
  "mock_run fr pl [] m = Some m"
| "mock_run fr pl (e # es) m = Option.bind (mock_step fr pl e m) (mock_run fr pl es)"

definition mock_start :: "(string \<Rightarrow> bucket) \<Rightarrow> real \<Rightarrow> nat \<Rightarrow> 'b mock" where
  "mock_start buckets ttl_s max_entries =
     \<lparr>mk_buckets = buckets, mk_chaos = Map.empty, mk_stats = Map.empty,
      mk_idem = \<lparr>id_ttl_s = ttl_s, id_max_entries = max_entries, id_inflight = Map.empty, id_handles = Map.empty,
                 id_cache = [], id_executions = [], id_duplicates = []\<rparr>,
      mk_tasks = Map.empty, mk_epoch = 0\<rparr>"

section \<open>Single flight\<close>

text \<open>
  The bookkeeping of executions in flight: each key in flight has one sleeping leader with an open
  handle, each sleeping request with a key leads it, and whoever waits does so on a handle that is
  set or whose leader is still in flight.
\<close>

definition flight_ok :: "(rid \<rightharpoonup> 'b mtask) \<Rightarrow> (string \<rightharpoonup> rid) \<Rightarrow> (rid \<rightharpoonup> 'b in_flight) \<Rightarrow> bool" where
  "flight_ok tasks inflight handles \<longleftrightarrow>
     (\<forall>k r. inflight k = Some r \<longrightarrow>
        (\<exists>tk. tasks r = Some tk \<and> mt_phase tk = Sleeping \<and> mt_key tk = Some k) \<and> (\<exists>h. handles r = Some h \<and> if_outcome h = None)) \<and>
     (\<forall>r tk k. tasks r = Some tk \<and> mt_phase tk = Sleeping \<and> mt_key tk = Some k \<longrightarrow> inflight k = Some r) \<and>
     (\<forall>f tk l. tasks f = Some tk \<and> mt_phase tk = Waiting l \<longrightarrow>
        (\<exists>h. handles l = Some h \<and> (if_outcome h = None \<longrightarrow> (\<exists>k. inflight k = Some l)))) \<and>
     (\<forall>r. handles r \<noteq> None \<longrightarrow> tasks r \<noteq> None) \<and>
     (\<forall>r tk. tasks r = Some tk \<and> mt_phase tk = Sleeping \<and> handles r \<noteq> None \<longrightarrow> mt_key tk \<noteq> None)"

definition flights :: "'b mock \<Rightarrow> bool" where
  "flights m \<longleftrightarrow> flight_ok (mk_tasks m) (id_inflight (mk_idem m)) (id_handles (mk_idem m))"

lemma flight_okD:
  assumes "flight_ok T F H"
  shows "F k = Some r \<Longrightarrow> \<exists>tk. T r = Some tk \<and> mt_phase tk = Sleeping \<and> mt_key tk = Some k"
    and "F k = Some r \<Longrightarrow> \<exists>h. H r = Some h \<and> if_outcome h = None"
    and "T r = Some tk \<Longrightarrow> mt_phase tk = Sleeping \<Longrightarrow> mt_key tk = Some k \<Longrightarrow> F k = Some r"
    and "T f = Some tk \<Longrightarrow> mt_phase tk = Waiting l \<Longrightarrow> \<exists>h. H l = Some h \<and> (if_outcome h = None \<longrightarrow> (\<exists>k. F k = Some l))"
    and "T r = None \<Longrightarrow> H r = None"
    and "T r = Some tk \<Longrightarrow> mt_phase tk = Sleeping \<Longrightarrow> H r \<noteq> None \<Longrightarrow> mt_key tk \<noteq> None"
  using assms unfolding flight_ok_def by blast+

lemma flight_begin:
  assumes ok: "flight_ok T F H" and "T r = None" "F k = None" "mt_phase tk = Sleeping" "mt_key tk = Some k" "if_outcome h = None"
  shows "flight_ok (T(r \<mapsto> tk)) (F(k \<mapsto> r)) (H(r \<mapsto> h))"
proof -
  note D = flight_okD [OF ok]
  have Hr: "H r = None" using D(5) assms(2) .
  have Fr: "F k' \<noteq> Some r" for k' using D(1) [of k' r] assms(2) by auto
  show ?thesis unfolding flight_ok_def
  proof (intro conjI allI impI)
    fix k' r' assume F: "(F(k \<mapsto> r)) k' = Some r'"
    show "\<exists>tk'. (T(r \<mapsto> tk)) r' = Some tk' \<and> mt_phase tk' = Sleeping \<and> mt_key tk' = Some k'"
      using F D(1) [of k' r'] Fr assms by (cases "k' = k") auto
    show "\<exists>h'. (H(r \<mapsto> h)) r' = Some h' \<and> if_outcome h' = None"
      using F D(2) [of k' r'] Fr assms by (cases "k' = k") auto
  next
    fix r' tk' k' assume "(T(r \<mapsto> tk)) r' = Some tk' \<and> mt_phase tk' = Sleeping \<and> mt_key tk' = Some k'"
    then show "(F(k \<mapsto> r)) k' = Some r'" using D(3) [of r' tk' k'] assms(3,5) by (auto split: if_splits)
  next
    fix f tk' l assume "(T(r \<mapsto> tk)) f = Some tk' \<and> mt_phase tk' = Waiting l"
    then obtain h' where h': "H l = Some h'" "if_outcome h' = None \<longrightarrow> (\<exists>k. F k = Some l)"
      using D(4) [of f tk' l] assms(4) by (auto split: if_splits)
    have "\<exists>k'. (F(k \<mapsto> r)) k' = Some l" if "F k0 = Some l" for k0
      using that assms(3) by (intro exI [of _ k0]) auto
    then have "if_outcome h' = None \<longrightarrow> (\<exists>k'. (F(k \<mapsto> r)) k' = Some l)" using h'(2) by blast
    moreover have "(H(r \<mapsto> h)) l = Some h'" using h'(1) Hr by auto
    ultimately show "\<exists>h'. (H(r \<mapsto> h)) l = Some h' \<and> (if_outcome h' = None \<longrightarrow> (\<exists>k'. (F(k \<mapsto> r)) k' = Some l))"
      by (intro exI [of _ h'] conjI)
  next
    fix r' assume "(H(r \<mapsto> h)) r' \<noteq> None"
    then show "(T(r \<mapsto> tk)) r' \<noteq> None" using D(5) [of r'] by (cases "T r'") (auto split: if_splits)
  next
    fix r' t' assume "(T(r \<mapsto> tk)) r' = Some t' \<and> mt_phase t' = Sleeping \<and> (H(r \<mapsto> h)) r' \<noteq> None"
    then show "mt_key t' \<noteq> None" using D(6) [of r' t'] assms(5) by (cases "r' = r") auto
  qed
qed

lemma flight_add:
  assumes "flight_ok T F H" "T r = None" "mt_phase tk = Sleeping \<longrightarrow> mt_key tk = None"
    "\<And>l. mt_phase tk = Waiting l \<Longrightarrow> \<exists>k. F k = Some l"
  shows "flight_ok (T(r \<mapsto> tk)) F H"
  using assms unfolding flight_ok_def by (auto split: if_splits) fastforce+

lemma flight_follower:
  assumes "flight_ok T F H"
  shows "flight_ok T F (H(l := map_option (\<lambda>h. h\<lparr>if_followers := n h\<rparr>) (H l)))"
  using assms unfolding flight_ok_def by (auto split: if_splits) fastforce+

lemma flight_settle:
  assumes ok: "flight_ok T F H" and "F k = Some r" "T r = Some tk" "mt_phase tk' = Finished out"
  shows "flight_ok (T(r \<mapsto> tk')) (F(k := None)) (H(r := map_option (\<lambda>h. h\<lparr>if_outcome := Some out'\<rparr>) (H r)))"
    (is "flight_ok ?T ?F ?H")
proof -
  note D = flight_okD [OF ok]
  have uniq: "k' = k" if "F k' = Some r" for k' using D(1) [OF that] D(1) [OF assms(2)] by auto
  show ?thesis unfolding flight_ok_def
  proof (intro conjI allI impI)
    fix k' r' assume F: "?F k' = Some r'"
    then have "F k' = Some r'" "r' \<noteq> r" using uniq [of k'] by (auto split: if_splits)
    then show "\<exists>tk'. ?T r' = Some tk' \<and> mt_phase tk' = Sleeping \<and> mt_key tk' = Some k'"
      "\<exists>h'. ?H r' = Some h' \<and> if_outcome h' = None" using D(1,2) [of k' r'] by auto
  next
    fix r' t' k' assume "?T r' = Some t' \<and> mt_phase t' = Sleeping \<and> mt_key t' = Some k'"
    then have "r' \<noteq> r" "F k' = Some r'" using D(3) [of r' t' k'] assms(4) by (auto split: if_splits)
    then show "?F k' = Some r'" using assms(2) by auto
  next
    fix f t' l assume "?T f = Some t' \<and> mt_phase t' = Waiting l"
    then obtain h' where h': "H l = Some h'" "if_outcome h' = None \<longrightarrow> (\<exists>k. F k = Some l)"
      using D(4) [of f t' l] assms(4) by (auto split: if_splits)
    show "\<exists>h'. ?H l = Some h' \<and> (if_outcome h' = None \<longrightarrow> (\<exists>k'. ?F k' = Some l))"
    proof (cases "l = r")
      case False
      have "\<exists>k'. ?F k' = Some l" if "F k0 = Some l" for k0
        using that assms(2) False by (intro exI [of _ k0]) auto
      then have "if_outcome h' = None \<longrightarrow> (\<exists>k'. ?F k' = Some l)" using h'(2) by blast
      moreover have "?H l = Some h'" using h'(1) False by simp
      ultimately show ?thesis by (intro exI [of _ h'] conjI)
    qed (use h' in auto)
  next
    fix r' assume "?H r' \<noteq> None"
    then show "?T r' \<noteq> None" using D(5) [of r'] by (cases "T r'") (auto split: if_splits)
  next
    fix r' t' assume "?T r' = Some t' \<and> mt_phase t' = Sleeping \<and> ?H r' \<noteq> None"
    then show "mt_key t' \<noteq> None" using D(6) [of r' t'] assms(4) by (cases "r' = r") auto
  qed
qed

lemma flight_finish:
  assumes "flight_ok T F H" "T r = Some tk" "\<And>k. F k \<noteq> Some r" "mt_phase tk' = Finished out"
  shows "flight_ok (T(r \<mapsto> tk')) F H"
  using assms unfolding flight_ok_def by (auto split: if_splits) (metis (no_types))

lemma execute_start_frame: "mk_tasks (snd (execute_start now rnd ep m)) = mk_tasks m" "mk_idem (snd (execute_start now rnd ep m)) = mk_idem m"
  by (simp_all add: execute_start_def take_token_def Let_def split_def split: option.split)

lemma execute_end_frame:
  "mk_tasks (snd (execute_end fr pl rnd tk m)) = mk_tasks m" "mk_idem (snd (execute_end fr pl rnd tk m)) = mk_idem m"
  by (simp_all add: execute_end_def Let_def)

lemma settle_flight:
  "id_inflight (mk_idem (settle now k out m)) = (id_inflight (mk_idem m))(k := None)"
  "id_handles (mk_idem (settle now k out m)) =
     (case id_inflight (mk_idem m) k of
        None \<Rightarrow> id_handles (mk_idem m)
      | Some l \<Rightarrow> (id_handles (mk_idem m))(l := map_option (\<lambda>h. h\<lparr>if_outcome := Some out\<rparr>) (id_handles (mk_idem m) l)))"
  "mk_tasks (settle now k out m) = mk_tasks m"
  by (auto simp: settle_def idem_abandon_def idem_finish_def idem_settle_def idem_put_def record_execution_def Let_def fun_eq_iff
      split: sum.split option.split)

text \<open>The end of a sleeping request, by success, failure or cancellation.\<close>

lemma settle_task_flights:
  assumes "flights m" "mk_tasks m r = Some tk" "mt_phase tk = Sleeping"
  shows "flights (settle_task now r tk out m)"
proof (cases "mt_key tk")
  case None
  have "id_inflight (mk_idem m) k \<noteq> Some r" for k
    using flight_okD(1) [OF assms(1) [unfolded flights_def], of k r] assms(2) None by auto
  then show ?thesis
    using flight_finish [OF assms(1) [unfolded flights_def] assms(2), of "tk\<lparr>mt_phase := Finished out\<rparr>"] assms(2) None
    by (simp add: flights_def settle_task_def set_phase_def)
next
  case (Some k)
  have F: "id_inflight (mk_idem m) k = Some r" using flight_okD(3) [OF assms(1) [unfolded flights_def] assms(2,3) Some] .
  show ?thesis
    using flight_settle [OF assms(1) [unfolded flights_def] F assms(2), of "tk\<lparr>mt_phase := Finished out\<rparr>" out out] assms(2) Some F
    by (simp add: flights_def settle_task_def set_phase_def settle_flight)
qed

lemma start_flights:
  assumes "flights m" "mk_tasks m r = Some tk" "mt_phase tk = Sleeping"
  shows "flights (let (err, m') = execute_start now rnd ep m in case err of None \<Rightarrow> m' | Some e \<Rightarrow> settle_task now r tk (Inl e) m')"
proof -
  let ?m = "snd (execute_start now rnd ep m)"
  have "flights ?m" using assms(1) by (simp add: flights_def execute_start_frame)
  then show ?thesis using settle_task_flights [of ?m r tk] assms(2,3)
    by (auto simp: Let_def split_def execute_start_frame split: option.split)
qed

lemma idem_get_flight:
  "id_inflight (snd (idem_get now k s)) = id_inflight s" "id_handles (snd (idem_get now k s)) = id_handles s"
  by (auto simp: idem_get_def split: option.split prod.split)

lemma arrive_flights:
  assumes "flights m" "mk_tasks m r = None"
  shows "flights (arrive now rnd r ep ik job page m)"
proof -
  define key where "key = (if ik = Some [] then None else ik)"
  define tk where "tk = (\<lparr>mt_endpoint = ep, mt_key = key, mt_job = job, mt_page = page, mt_phase = Sleeping, mt_epoch = mk_epoch m\<rparr> :: 'a mtask)"
  define m0 where "m0 = m\<lparr>mk_stats := bump_stat ep (\<lambda>s. s\<lparr>sn_requests := sn_requests s + 1\<rparr>) (mk_stats m), mk_tasks := (mk_tasks m)(r \<mapsto> tk)\<rparr>"
  define start where "start = (\<lambda>m. let (err, m') = execute_start now rnd ep m in case err of None \<Rightarrow> m' | Some e \<Rightarrow> settle_task now r tk (Inl e) m')"
  note ok = assms(1) [unfolded flights_def]
  have a: "arrive now rnd r ep ik job page m =
      (case key of None \<Rightarrow> start m0
       | Some k \<Rightarrow>
           (let (cached, s1) = idem_get now k (mk_idem m0); m1 = m0\<lparr>mk_idem := s1\<rparr>
            in case cached of
                 Some body \<Rightarrow> set_phase r (Finished (Inr body)) (replayed ep m1)
               | None \<Rightarrow>
                   (let (leader, s2) = idem_begin r k (mk_idem m1); m2 = m1\<lparr>mk_idem := s2\<rparr>
                    in case leader of Some l \<Rightarrow> set_phase r (Waiting l) (replayed ep m2) | None \<Rightarrow> start m2)))"
    unfolding arrive_def Let_def key_def tk_def m0_def start_def by (rule refl)
  have i0: "mk_idem m0 = mk_idem m" "mk_tasks m0 = (mk_tasks m)(r \<mapsto> tk)" by (simp_all add: m0_def)
  note a = a [unfolded i0(1)]
  show ?thesis
  proof (cases key)
    case None
    have "flights m0"
      using flight_add [OF ok assms(2), of tk] by (simp add: flights_def m0_def tk_def None)
    then show ?thesis unfolding a None option.case start_def by (rule start_flights) (simp_all add: i0 tk_def)
  next
    case (Some k)
    let ?s1 = "snd (idem_get now k (mk_idem m))"
    have F: "id_inflight ?s1 = id_inflight (mk_idem m)" "id_handles ?s1 = id_handles (mk_idem m)"
      by (simp_all add: idem_get_flight)
    show ?thesis
    proof (cases "fst (idem_get now k (mk_idem m))")
      case cached: (Some body)
      then show ?thesis unfolding a Some
        using flight_add [OF ok assms(2), of "tk\<lparr>mt_phase := Finished (Inr body)\<rparr>"]
        by (simp add: split_def Let_def flights_def set_phase_def replayed_def F i0)
    next
      case miss: None
      show ?thesis
      proof (cases "id_inflight (mk_idem m) k")
        case (Some l)
        then show ?thesis unfolding a \<open>key = Some k\<close>
          using flight_follower [OF flight_add [OF ok assms(2), of "tk\<lparr>mt_phase := Waiting l\<rparr>"], of l "\<lambda>h. Suc (if_followers h)"] miss
          by (simp add: split_def Let_def flights_def set_phase_def replayed_def idem_begin_def F i0, blast)
      next
        case fresh: None
        let ?m2 = "m0\<lparr>mk_idem := snd (idem_begin r k ?s1)\<rparr>"
        have "flights ?m2"
          using flight_begin [OF ok assms(2) fresh, of tk "\<lparr>if_outcome = None, if_followers = 0\<rparr>"] Some
          by (simp add: flights_def idem_begin_def F fresh i0 tk_def)
        then have "flights (start ?m2)" unfolding start_def by (rule start_flights) (simp_all add: i0 tk_def)
        then show ?thesis unfolding a Some using miss fresh by (simp add: split_def Let_def idem_begin_def F)
      qed
    qed
  qed
qed

lemma step_flights:
  assumes "flights m" "mock_step fr pl e m = Some m'"
  shows "flights m'"
proof (cases e)
  case (Arrive now rnd r ep ik job page)
  then show ?thesis using assms arrive_flights [OF assms(1)] by (auto split: if_splits)
next
  case (Wake now rnd r)
  obtain tk where tk: "mk_tasks m r = Some tk" "mt_phase tk = Sleeping"
    "m' = settle_task now r tk (fst (execute_end fr pl rnd tk m)) (snd (execute_end fr pl rnd tk m))"
    using assms(2) Wake by (auto simp: split_def Let_def split: option.splits phase.splits)
  have "flights (snd (execute_end fr pl rnd tk m))" using assms(1) by (simp add: flights_def execute_end_frame)
  then show ?thesis unfolding tk(3) by (rule settle_task_flights) (use tk in \<open>simp_all add: execute_end_frame\<close>)
next
  case (Resume r)
  then obtain tk l out where "mk_tasks m r = Some tk" "mt_phase tk = Waiting l" "m' = set_phase r (Finished out) m"
    using assms(2) by (auto split: option.splits phase.splits)
  moreover have "id_inflight (mk_idem m) k \<noteq> Some r" for k
    using flight_okD(1) [OF assms(1) [unfolded flights_def], of k r] calculation by auto
  ultimately show ?thesis using flight_finish [OF assms(1) [unfolded flights_def], of r tk "tk\<lparr>mt_phase := Finished out\<rparr>"]
    by (simp add: flights_def set_phase_def)
next
  case (Cancel now r)
  then obtain tk where tk: "mk_tasks m r = Some tk"
    "mt_phase tk = Sleeping \<and> m' = settle_task now r tk (Inl Cancelled) m
     \<or> (\<exists>l. mt_phase tk = Waiting l) \<and> m' = set_phase r (Finished (Inl Cancelled)) m"
    using assms(2) by (auto split: option.splits phase.splits)
  from tk(2) show ?thesis
  proof
    assume "mt_phase tk = Sleeping \<and> m' = settle_task now r tk (Inl Cancelled) m"
    then show ?thesis using settle_task_flights [OF assms(1) tk(1)] by blast
  next
    assume w: "(\<exists>l. mt_phase tk = Waiting l) \<and> m' = set_phase r (Finished (Inl Cancelled)) m"
    have "id_inflight (mk_idem m) k \<noteq> Some r" for k
      using flight_okD(1) [OF assms(1) [unfolded flights_def], of k r] tk(1) w by auto
    then show ?thesis using w flight_finish [OF assms(1) [unfolded flights_def] tk(1), of "tk\<lparr>mt_phase := Finished (Inl Cancelled)\<rparr>"] tk(1)
      by (simp add: flights_def set_phase_def)
  qed
qed (use assms in \<open>auto simp: flights_def idem_reset_def poll_buckets_def\<close>)

lemma run_flights: "flights m \<Longrightarrow> mock_run fr pl es m = Some m' \<Longrightarrow> flights m'"
proof (induction es arbitrary: m)
  case (Cons e es)
  then obtain m1 where "mock_step fr pl e m = Some m1" "mock_run fr pl es m1 = Some m'" by (auto split: bind_splits)
  then show ?case using Cons.IH [of m1] step_flights [OF Cons.prems(1)] by simp
qed simp

lemma start_ok: "flights (mock_start bs ttl mx)"
  by (simp add: flights_def flight_ok_def mock_start_def)

text \<open>
  One execution in flight per key, and nobody waits in vain. Whatever requests arrive, fail, are
  cancelled or time out, at most one request with a key is executing at any time, and a follower
  either waits for a leader that is still executing or can resume.
\<close>

theorem single_flight:
  assumes "mock_run fr pl es (mock_start bs ttl mx) = Some m"
  shows "(\<forall>r r' tk tk' k. mk_tasks m r = Some tk \<and> mk_tasks m r' = Some tk' \<and> mt_phase tk = Sleeping \<and> mt_phase tk' = Sleeping
            \<and> mt_key tk = Some k \<and> mt_key tk' = Some k \<longrightarrow> r = r') \<and>
         (\<forall>f tk l. mk_tasks m f = Some tk \<and> mt_phase tk = Waiting l \<longrightarrow>
            (\<exists>ltk. mk_tasks m l = Some ltk \<and> mt_phase ltk = Sleeping) \<or> (\<exists>m'. mock_step fr pl (Resume f) m = Some m'))"
proof -
  have ok: "flight_ok (mk_tasks m) (id_inflight (mk_idem m)) (id_handles (mk_idem m))"
    using run_flights [OF start_ok assms] by (simp add: flights_def)
  have "(\<exists>ltk. mk_tasks m l = Some ltk \<and> mt_phase ltk = Sleeping) \<or> (\<exists>m'. mock_step fr pl (Resume f) m = Some m')"
    if w: "mk_tasks m f = Some tk" "mt_phase tk = Waiting l" for f tk l
  proof -
    obtain h where h: "id_handles (mk_idem m) l = Some h" "if_outcome h = None \<longrightarrow> (\<exists>k. id_inflight (mk_idem m) k = Some l)"
      using flight_okD(4) [OF ok w] by auto
    show ?thesis
    proof (cases "if_outcome h")
      case None
      then show ?thesis using h(2) flight_okD(1) [OF ok] by blast
    next
      case (Some out)
      then show ?thesis using w h(1) by simp
    qed
  qed
  moreover have "r = r'" if "mk_tasks m r = Some tk" "mk_tasks m r' = Some tk'" "mt_phase tk = Sleeping" "mt_phase tk' = Sleeping"
    "mt_key tk = Some k" "mt_key tk' = Some k" for r r' tk tk' k
    using flight_okD(3) [OF ok that(1,3,5)] flight_okD(3) [OF ok that(2,4,6)] by simp
  ultimately show ?thesis by blast
qed

text \<open>
  Followers share the leader's outcome: when the leader's execution ends, by success, by failure
  or because its client went away, every follower can resume at once and gets that outcome.
\<close>

theorem followers_share_outcome:
  assumes "mock_run fr pl es (mock_start bs ttl mx) = Some m"
    and "mk_tasks m f = Some tk" "mt_phase tk = Waiting l" "mk_tasks m l = Some ltk" "mt_phase ltk = Sleeping"
    and "e = Wake now rnd l \<or> e = Cancel now l" and "mock_step fr pl e m = Some m'"
  shows "\<exists>out ltk' m'' tk''. mk_tasks m' l = Some ltk' \<and> mt_phase ltk' = Finished out \<and>
           mock_step fr pl (Resume f) m' = Some m'' \<and> mk_tasks m'' f = Some tk'' \<and> mt_phase tk'' = Finished out"
proof -
  have ok: "flight_ok (mk_tasks m) (id_inflight (mk_idem m)) (id_handles (mk_idem m))"
    using run_flights [OF start_ok assms(1)] by (simp add: flights_def)
  obtain out m1 where m': "m' = settle_task now l ltk out m1" and m1: "mk_tasks m1 = mk_tasks m" "mk_idem m1 = mk_idem m"
    using assms(4-7) execute_end_frame [of fr pl rnd ltk m] by (auto simp: split_def Let_def)
  obtain h where h: "id_handles (mk_idem m) l = Some h" "if_outcome h = None \<longrightarrow> (\<exists>k. id_inflight (mk_idem m) k = Some l)"
    using flight_okD(4) [OF ok assms(2,3)] by auto
  have fl: "f \<noteq> l" using assms(2-5) by auto
  obtain k where k: "mt_key ltk = Some k" using flight_okD(6) [OF ok assms(4,5)] h(1) by auto
  have F: "id_inflight (mk_idem m) k = Some l" using flight_okD(3) [OF ok assms(4,5) k] .
  show ?thesis
    unfolding m' using assms(2-4) k F h(1) fl
    by (simp add: settle_task_def set_phase_def settle_flight m1)
qed

section \<open>At most one execution per key\<close>

lemma move_to_end_set [simp]: "set (move_to_end k xs) = set xs"
  by (auto simp: move_to_end_def)

lemma move_to_end_distinct: "distinct (map fst xs) \<Longrightarrow> distinct (map fst (move_to_end k xs))"
  by (auto simp: move_to_end_def distinct_map_filter dest: distinct_map_filter)

lemma evict_all: "length xs \<le> m \<Longrightarrow> evict m xs = xs"
  by (simp add: evict_def)

lemma keys_update: "fst ` set (AList.update k v xs) = insert k (fst ` set xs)"
  by (simp add: dom_update flip: dom_map_of_conv_image_fst) (simp add: update_conv' dom_map_of_conv_image_fst)

lemma length_keys:
  assumes "distinct (map fst xs)" "fst ` set xs \<subseteq> K" "finite K" "card K \<le> m"
  shows "length xs \<le> m"
proof -
  have "length xs = card (fst ` set xs)" using distinct_card [OF assms(1)] by simp
  then show ?thesis using card_mono [OF assms(3,2)] assms(4) by simp
qed

text \<open>
  The evidence of the store while nothing expires or is evicted: every key that has executed has
  executed once and is cached, and a key in flight has not executed.
\<close>

definition once :: "string set \<Rightarrow> 'b idem_store \<Rightarrow> bool" where
  "once K s \<longleftrightarrow>
     distinct (map fst (id_cache s)) \<and> fst ` set (id_cache s) \<subseteq> K \<and> (\<forall>(k, t, b) \<in> set (id_cache s). 0 \<le> t) \<and>
     distinct (map fst (id_executions s)) \<and> fst ` set (id_executions s) \<subseteq> fst ` set (id_cache s) \<and>
     (\<forall>(k, n) \<in> set (id_executions s). n = 1) \<and> id_duplicates s = [] \<and>
     (\<forall>k r. id_inflight s k = Some r \<longrightarrow> k \<notin> fst ` set (id_executions s) \<and> k \<in> K)"

lemma once_get:
  assumes "once K s" "now \<le> id_ttl_s s" "idem_get now k s = (c, s')"
  shows "once K s'" "c = None \<Longrightarrow> k \<notin> fst ` set (id_executions s')" "id_inflight s' = id_inflight s"
    "id_ttl_s s' = id_ttl_s s" "id_max_entries s' = id_max_entries s"
proof -
  have keep: "\<not> now - t > id_ttl_s s" if "map_of (id_cache s) k = Some (t, b)" for t b
    using assms(1,2) map_of_SomeD [OF that] by (fastforce simp: once_def)
  have "s' = s \<or> s' = s\<lparr>id_cache := move_to_end k (id_cache s)\<rparr>"
    using assms(3) keep by (auto simp: idem_get_def split: option.splits if_splits)
  then show "once K s'" using assms(1) unfolding once_def by (elim disjE) (simp_all add: move_to_end_distinct)
  have "s' = s" "map_of (id_cache s) k = None" if "c = None"
    using assms(3) keep that by (auto simp: idem_get_def split: option.splits if_splits)
  then show "c = None \<Longrightarrow> k \<notin> fst ` set (id_executions s')"
    using assms(1) by (auto simp: once_def map_of_eq_None_iff)
  show "id_inflight s' = id_inflight s" "id_ttl_s s' = id_ttl_s s" "id_max_entries s' = id_max_entries s"
    using assms(3) by (auto simp: idem_get_def split: option.splits if_splits)
qed

lemma once_begin:
  assumes "once K s" "k \<notin> fst ` set (id_executions s)" "k \<in> K"
  shows "once K (snd (idem_begin r k s))"
  using assms by (auto simp: idem_begin_def once_def split: option.split)

lemma once_settle_error: "once K s \<Longrightarrow> once K (idem_abandon k e s)"
  by (auto simp: idem_abandon_def idem_settle_def once_def split: option.split if_splits)

lemma once_settle_body:
  assumes "once K s" "id_inflight s k = Some r" "finite K" "card K \<le> id_max_entries s" "0 \<le> now"
  shows "once K (idem_finish k b (idem_put now k b (snd (record_execution k s))))"
proof -
  have k: "k \<notin> fst ` set (id_executions s)" "k \<in> K" using assms(1,2) by (auto simp: once_def)
  then have new: "map_of (id_executions s) k = None" by (simp add: map_of_eq_None_iff)
  let ?E = "move_to_end k (AList.update k 1 (id_executions s))" and ?C = "move_to_end k (AList.update k (now, b) (id_cache s))"
  have dE: "distinct (map fst ?E)" and dC: "distinct (map fst ?C)"
    using assms(1) by (auto simp: once_def intro!: move_to_end_distinct distinct_update)
  have kE: "fst ` set ?E = insert k (fst ` set (id_executions s))" and kC: "fst ` set ?C = insert k (fst ` set (id_cache s))"
    by (simp_all add: keys_update)
  have sub: "fst ` set ?C \<subseteq> K" "fst ` set ?E \<subseteq> K" "fst ` set ?E \<subseteq> fst ` set ?C"
    using assms(1) k(2) unfolding kE kC once_def by blast+
  have ev: "evict (id_max_entries s) ?E = ?E" "evict (id_max_entries s) ?C = ?C"
    using length_keys [OF dE sub(2) assms(3,4)] length_keys [OF dC sub(1) assms(3,4)] by (simp_all add: evict_all)
  have entry: "x \<in> set (AList.update k v xs) \<Longrightarrow> x = (k, v) \<or> x \<in> set xs" for x v and xs :: "(string \<times> 'z) list"
    by (induction xs) (auto split: if_splits)
  have ones: "\<forall>(k, n) \<in> set ?E. n = 1" and times: "\<forall>(k, t, b) \<in> set ?C. 0 \<le> t"
    using assms(1,5) by (fastforce simp: once_def dest: entry)+
  have "idem_finish k b (idem_put now k b (snd (record_execution k s)))
      = s\<lparr>id_executions := ?E, id_cache := ?C, id_inflight := (id_inflight s)(k := None),
          id_handles := (id_handles s)(r := map_option (\<lambda>h. h\<lparr>if_outcome := Some (Inr b)\<rparr>) (id_handles s r))\<rparr>"
    using assms(2) ev new by (simp add: idem_finish_def idem_settle_def idem_put_def record_execution_def Let_def)
  moreover have "\<forall>k' r'. ((id_inflight s)(k := None)) k' = Some r' \<longrightarrow> k' \<notin> fst ` set ?E \<and> k' \<in> K"
    using assms(1) unfolding kE by (auto simp: once_def)
  ultimately show ?thesis using assms(1) dE dC sub ones times by (simp add: once_def)
qed

text \<open>The run stays within one time to live from the start, and its keys come from a list that fits the cache.\<close>

fun timely :: "real \<Rightarrow> string list \<Rightarrow> mock_event \<Rightarrow> bool" where
  "timely ttl K (Arrive now rnd r endpoint ik job page) \<longleftrightarrow>
     0 \<le> now \<and> now \<le> ttl \<and> (case ik of None \<Rightarrow> True | Some k \<Rightarrow> k = [] \<or> k \<in> set K)"
| "timely ttl K (Wake now rnd r) \<longleftrightarrow> 0 \<le> now \<and> now \<le> ttl"
| "timely ttl K _ \<longleftrightarrow> True"

definition evidence :: "real \<Rightarrow> nat \<Rightarrow> string list \<Rightarrow> 'b mock \<Rightarrow> bool" where
  "evidence ttl mx K m \<longleftrightarrow> flights m \<and> once (set K) (mk_idem m) \<and> id_ttl_s (mk_idem m) = ttl \<and> id_max_entries (mk_idem m) = mx"

lemma settle_limits:
  "id_ttl_s (mk_idem (settle_task now r tk out m)) = id_ttl_s (mk_idem m)"
  "id_max_entries (mk_idem (settle_task now r tk out m)) = id_max_entries (mk_idem m)"
  by (auto simp: settle_task_def set_phase_def settle_def idem_abandon_def idem_finish_def idem_settle_def idem_put_def
      record_execution_def Let_def split: option.split sum.split)

lemma settle_evidence:
  assumes "evidence ttl mx K m" "mk_tasks m r = Some tk" "mt_phase tk = Sleeping" "card (set K) \<le> mx" "0 \<le> now \<or> isl out"
  shows "evidence ttl mx K (settle_task now r tk out m)"
proof -
  have ok: "flights m" "once (set K) (mk_idem m)" "id_max_entries (mk_idem m) = mx" using assms(1) by (simp_all add: evidence_def)
  have "once (set K) (mk_idem (settle_task now r tk out m))"
  proof (cases "mt_key tk")
    case None
    then show ?thesis using ok(2) by (simp add: settle_task_def set_phase_def)
  next
    case (Some k)
    have F: "id_inflight (mk_idem m) k = Some r" using flight_okD(3) [OF ok(1) [unfolded flights_def] assms(2,3) Some] .
    show ?thesis
      using once_settle_error [OF ok(2)] once_settle_body [OF ok(2) F, of now] assms(4,5) ok(3) Some
      by (cases out) (simp_all add: settle_task_def set_phase_def settle_def)
  qed
  then show ?thesis using settle_task_flights [OF ok(1) assms(2,3)] assms(1) by (simp add: evidence_def settle_limits)
qed

definition stored_once :: "real \<Rightarrow> nat \<Rightarrow> string list \<Rightarrow> 'b idem_store \<Rightarrow> bool" where
  "stored_once ttl mx K s \<longleftrightarrow> once (set K) s \<and> id_ttl_s s = ttl \<and> id_max_entries s = mx"

lemma start_once:
  assumes "stored_once ttl mx K (mk_idem m)"
  shows "stored_once ttl mx K (mk_idem (let (err, m') = execute_start now rnd ep m
     in case err of None \<Rightarrow> m' | Some e \<Rightarrow> settle_task now r tk (Inl e) m'))"
proof -
  have "stored_once ttl mx K (mk_idem (settle_task now r tk (Inl e) (snd (execute_start now rnd ep m))))" for e
    using assms once_settle_error [of "set K" "mk_idem m"]
    by (simp add: stored_once_def settle_limits execute_start_frame)
      (simp add: settle_task_def set_phase_def settle_def execute_start_frame split: option.split)
  then show ?thesis using assms by (simp add: Let_def split_def execute_start_frame split: option.split)
qed

lemma arrive_once:
  assumes "stored_once ttl mx K (mk_idem m)" "timely ttl K (Arrive now rnd r ep ik job page)"
  shows "stored_once ttl mx K (mk_idem (arrive now rnd r ep ik job page m))"
proof (cases "ik = None \<or> ik = Some []")
  case True
  have a: "arrive now rnd r ep ik job page m = (let (err, m') = execute_start now rnd ep
      (m\<lparr>mk_stats := bump_stat ep (\<lambda>s. s\<lparr>sn_requests := sn_requests s + 1\<rparr>) (mk_stats m), mk_tasks := (mk_tasks m)(r \<mapsto>
         \<lparr>mt_endpoint = ep, mt_key = None, mt_job = job, mt_page = page, mt_phase = Sleeping, mt_epoch = mk_epoch m\<rparr>)\<rparr>)
      in case err of None \<Rightarrow> m' | Some e \<Rightarrow> settle_task now r
         \<lparr>mt_endpoint = ep, mt_key = None, mt_job = job, mt_page = page, mt_phase = Sleeping, mt_epoch = mk_epoch m\<rparr> (Inl e) m')"
    using True by (auto simp: arrive_def Let_def)
  show ?thesis unfolding a by (rule start_once) (use assms(1) in simp)
next
  case False
  then obtain k where k: "ik = Some k" "k \<noteq> []" by auto
  have K: "k \<in> set K" "now \<le> ttl" using assms(2) k by auto
  let ?tk = "\<lparr>mt_endpoint = ep, mt_key = Some k, mt_job = job, mt_page = page, mt_phase = Sleeping, mt_epoch = mk_epoch m\<rparr>"
  let ?m0 = "m\<lparr>mk_stats := bump_stat ep (\<lambda>s. s\<lparr>sn_requests := sn_requests s + 1\<rparr>) (mk_stats m), mk_tasks := (mk_tasks m)(r \<mapsto> ?tk)\<rparr>"
  obtain c s1 where g: "idem_get now k (mk_idem m) = (c, s1)" by (cases "idem_get now k (mk_idem m)")
  obtain l s2 where b: "idem_begin r k s1 = (l, s2)" by (cases "idem_begin r k s1")
  have o: "once (set K) (mk_idem m)" "now \<le> id_ttl_s (mk_idem m)" using assms(1) K(2) by (simp_all add: stored_once_def)
  note G = once_get [OF o g]
  have s1: "stored_once ttl mx K s1" using G(1,4,5) assms(1) by (simp add: stored_once_def)
  have s2: "stored_once ttl mx K s2" if "c = None"
  proof -
    have "once (set K) s2" using once_begin [OF G(1) G(2) [OF that] K(1), of r] b by simp
    moreover have "id_ttl_s s2 = id_ttl_s s1" "id_max_entries s2 = id_max_entries s1"
      using b by (auto simp: idem_begin_def split: option.splits)
    ultimately show ?thesis using s1 by (simp add: stored_once_def)
  qed
  have a: "arrive now rnd r ep ik job page m =
      (case c of
         Some body \<Rightarrow> set_phase r (Finished (Inr body)) (replayed ep (?m0\<lparr>mk_idem := s1\<rparr>))
       | None \<Rightarrow>
           (case l of
              Some l' \<Rightarrow> set_phase r (Waiting l') (replayed ep (?m0\<lparr>mk_idem := s2\<rparr>))
            | None \<Rightarrow> (let (err, m') = execute_start now rnd ep (?m0\<lparr>mk_idem := s2\<rparr>)
                      in case err of None \<Rightarrow> m' | Some e \<Rightarrow> settle_task now r ?tk (Inl e) m')))"
    using k g b by (cases c; cases l; simp add: arrive_def Let_def)
  show ?thesis
  proof (cases c)
    case None
    show ?thesis
    proof (cases l)
      case l: None
      show ?thesis unfolding a None l option.case by (rule start_once) (use s2 None in simp)
    qed (use a None s2 in \<open>simp add: set_phase_def replayed_def\<close>)
  qed (use a s1 in \<open>simp add: set_phase_def replayed_def\<close>)
qed

lemma step_evidence:
  assumes ev: "evidence ttl mx K m" and st: "mock_step fr pl e m = Some m'" and "timely ttl K e" "card (set K) \<le> mx"
  shows "evidence ttl mx K m'"
proof -
  have fl: "flights m'" using step_flights [OF _ st] ev by (simp add: evidence_def)
  have so: "stored_once ttl mx K (mk_idem m)" using ev by (simp add: evidence_def stored_once_def)
  have fin: "evidence ttl mx K m'" if "stored_once ttl mx K (mk_idem m')"
    using that fl by (simp add: evidence_def stored_once_def)
  show ?thesis
  proof (cases e)
    case (Arrive now rnd r ep ik job page)
    then show ?thesis using st arrive_once [OF so] assms(3) by (intro fin) (auto split: if_splits)
  next
    case (Wake now rnd r)
    obtain tk where tk: "mk_tasks m r = Some tk" "mt_phase tk = Sleeping"
      "m' = settle_task now r tk (fst (execute_end fr pl rnd tk m)) (snd (execute_end fr pl rnd tk m))"
      using st Wake by (auto simp: split_def Let_def split: option.splits phase.splits)
    have "evidence ttl mx K (snd (execute_end fr pl rnd tk m))" using ev by (simp add: evidence_def flights_def execute_end_frame)
    then show ?thesis unfolding tk(3) by (rule settle_evidence) (use tk(1,2) assms(3,4) Wake in \<open>simp_all add: execute_end_frame\<close>)
  next
    case (Resume r)
    then show ?thesis using st so by (intro fin) (auto simp: set_phase_def split: option.splits phase.splits)
  next
    case (Cancel now r)
    then obtain tk where tk: "mk_tasks m r = Some tk"
      "mt_phase tk = Sleeping \<and> m' = settle_task now r tk (Inl Cancelled) m \<or> m' = set_phase r (Finished (Inl Cancelled)) m"
      using st by (auto split: option.splits phase.splits)
    then show ?thesis using settle_evidence [OF ev tk(1), of now "Inl Cancelled"] assms(4) so fin
      by (elim disjE) (simp_all add: set_phase_def)
  next
    case Reset
    then show ?thesis using st so by (intro fin) (auto simp: idem_reset_def stored_once_def once_def)
  next
    case (Set_Chaos now ep status rate lat dur)
    then show ?thesis using st so by (intro fin) auto
  next
    case (Clear_Chaos now ep)
    then show ?thesis using st so by (intro fin) auto
  next
    case (Get_Chaos now)
    then show ?thesis using st so by (intro fin) auto
  next
    case (Call_Counts now)
    then show ?thesis using st so by (intro fin) (auto simp: poll_buckets_def)
  qed
qed


section \<open>Two clients and one key\<close>

definition demo_bucket :: bucket where
  "demo_bucket = \<lparr>bk_rate = 10, bk_burst = 10, bk_tokens = 10, bk_last_refill = 0\<rparr>"

definition demo_start :: "int mock" where "demo_start = mock_start (\<lambda>_. demo_bucket) 300 20"

definition demo_events :: "mock_event list" where
  "demo_events = [Arrive 1 0 1 ''vlm'' (Some ''k'') ''j'' 7, Arrive 2 0 2 ''vlm'' (Some ''k'') ''j'' 7]"

definition demo_body :: "string \<Rightarrow> string \<Rightarrow> int \<Rightarrow> int" where "demo_body ep job page = page * 100"

definition demo_mock :: "int mock" where "demo_mock = the (mock_run (\<lambda>_. 0.05) demo_body demo_events demo_start)"

lemmas mock_eval = demo_mock_def demo_events_def demo_start_def mock_start_def arrive_def execute_start_def take_token_def chaos_active_def
  bk_acquire_def bk_refill_def demo_bucket_def idem_get_def idem_begin_def set_phase_def replayed_def Let_def settle_task_def settle_def
  execute_end_def idem_finish_def idem_settle_def idem_put_def record_execution_def demo_body_def move_to_end_def evict_def

lemma demo_mock_run: "mock_run (\<lambda>_. 0.05) demo_body demo_events demo_start = Some demo_mock"
  by (simp add: mock_eval)

lemma demo_mock_tasks:
  "mk_tasks demo_mock 1 = Some \<lparr>mt_endpoint = ''vlm'', mt_key = Some ''k'', mt_job = ''j'', mt_page = 7, mt_phase = Sleeping, mt_epoch = 0\<rparr>"
  "mk_tasks demo_mock 2 = Some \<lparr>mt_endpoint = ''vlm'', mt_key = Some ''k'', mt_job = ''j'', mt_page = 7, mt_phase = Waiting 1, mt_epoch = 0\<rparr>"
  by (simp_all add: mock_eval)

theorem single_flight_witness:
  "mk_tasks demo_mock 1 \<noteq> None \<and>
   ((\<exists>ltk. mk_tasks demo_mock 1 = Some ltk \<and> mt_phase ltk = Sleeping) \<or> (\<exists>m'. mock_step (\<lambda>_. 0.05) demo_body (Resume 2) demo_mock = Some m'))"
proof -
  have "mk_tasks demo_mock 1 \<noteq> None" using demo_mock_tasks(1) by simp
  moreover have "(\<exists>ltk. mk_tasks demo_mock 1 = Some ltk \<and> mt_phase ltk = Sleeping)
      \<or> (\<exists>m'. mock_step (\<lambda>_. 0.05) demo_body (Resume 2) demo_mock = Some m')"
    using conjunct2 [OF single_flight [OF demo_mock_run [unfolded demo_start_def]]] demo_mock_tasks(2) by (metis mtask.select_convs(5))
  ultimately show ?thesis by blast
qed

theorem followers_share_outcome_witness:
  "\<exists>out ltk' m'' tk''. mk_tasks (the (mock_step (\<lambda>_. 0.05) demo_body (Cancel 3 1) demo_mock)) 1 = Some ltk' \<and> mt_phase ltk' = Finished out \<and>
     mock_step (\<lambda>_. 0.05) demo_body (Resume 2) (the (mock_step (\<lambda>_. 0.05) demo_body (Cancel 3 1) demo_mock)) = Some m'' \<and>
     mk_tasks m'' 2 = Some tk'' \<and> mt_phase tk'' = Finished out"
proof -
  have s: "mock_step (\<lambda>_. 0.05) demo_body (Cancel 3 1) demo_mock = Some (the (mock_step (\<lambda>_. 0.05) demo_body (Cancel 3 1) demo_mock))"
    using demo_mock_tasks(1) by simp
  show ?thesis
    by (rule followers_share_outcome [OF demo_mock_run [unfolded demo_start_def] demo_mock_tasks(2) _ demo_mock_tasks(1) _ _ s,
          where now = 3]) simp_all
qed


end
