(* ===== verification/Forest_Distance.thy ===== *)
theory Forest_Distance
  imports Main
begin

text \<open>
  Ordered labelled trees and the distance that \<^verbatim>\<open>src/app/eval/ted.py\<close> promises to compute: the least number
  of node insertions, deletions and relabellings between two documents. The distance is given by
  the recursion on the last tree of each forest, and shown to be the least length of an edit
  sequence. This is the specification side; the program is in the theory \<open>Tree_Edit\<close>.
\<close>

datatype 'l doc = Node 'l "'l doc list"

fun fsize :: "'l doc list \<Rightarrow> nat" where
  "fsize [] = 0"
| "fsize (Node a cs # ts) = Suc (fsize cs + fsize ts)"

lemma fsize_append [simp]: "fsize (F @ G) = fsize F + fsize G"
  by (induction F rule: fsize.induct) auto

lemma fsize_0 [simp]: "fsize F = 0 \<longleftrightarrow> F = []"
  by (cases F rule: fsize.cases) auto

lemma forest_snoc: obtains (Nil) "F = []" | (snoc) A a cs where "F = A @ [Node a cs]"
  by (metis doc.exhaust rev_exhaust)

function fd :: "'l doc list \<Rightarrow> 'l doc list \<Rightarrow> nat" where
  "fd F G =
     (if F = [] then fsize G else if G = [] then fsize F
      else case (last F, last G) of (Node a cs, Node b ds) \<Rightarrow>
        min (min (fd (butlast F @ cs) G + 1) (fd F (butlast G @ ds) + 1))
          (fd (butlast F) (butlast G) + fd cs ds + (if a = b then 0 else 1)))"
  by pat_completeness auto

lemma fsize_last: "Node a cs = last F \<Longrightarrow> F \<noteq> [] \<Longrightarrow> fsize F = Suc (fsize (butlast F) + fsize cs)"
  by (cases F rule: rev_cases) auto

termination fd
  by (relation "measure (\<lambda>(F, G). fsize F + fsize G)") (auto dest!: fsize_last)

declare fd.simps [simp del]

lemma fd_Nil [simp]: "fd [] G = fsize G" "fd F [] = fsize F"
  by (simp_all add: fd.simps)

lemma fd_snoc:
  "fd (A @ [Node a cs]) (B @ [Node b ds]) =
     min (min (fd (A @ cs) (B @ [Node b ds]) + 1) (fd (A @ [Node a cs]) (B @ ds) + 1))
       (fd A B + fd cs ds + (if a = b then 0 else 1))"
  by (subst fd.simps) simp

lemma fd_delete: "fd (A @ [Node a cs]) G \<le> fd (A @ cs) G + 1"
  by (cases G rule: forest_snoc) (auto simp: fd_snoc)

lemma fd_insert: "fd F (B @ [Node b ds]) \<le> fd F (B @ ds) + 1"
  by (cases F rule: forest_snoc) (auto simp: fd_snoc)

lemma fd_match: "fd (A @ [Node a cs]) (B @ [Node b ds]) \<le> fd A B + fd cs ds + (if a = b then 0 else 1)"
  by (simp add: fd_snoc)

lemma fd_cases:
  obtains (del) "fd (A @ [Node a cs]) (B @ [Node b ds]) = fd (A @ cs) (B @ [Node b ds]) + 1"
  | (ins) "fd (A @ [Node a cs]) (B @ [Node b ds]) = fd (A @ [Node a cs]) (B @ ds) + 1"
  | (mat) "fd (A @ [Node a cs]) (B @ [Node b ds]) = fd A B + fd cs ds + (if a = b then 0 else 1)"
  unfolding fd_snoc min_def by metis

text \<open>Aligning two forests piece by piece never beats aligning them whole.\<close>

lemma fd_append: "fd (A @ B) (C @ D) \<le> fd A C + fd B D"
proof (induction "fsize B + fsize D" arbitrary: A B C D rule: less_induct)
  case less
  show ?case
  proof (cases B rule: forest_snoc)
    case Nil
    show ?thesis
    proof (cases D rule: forest_snoc)
      case (snoc D0 b ds)
      then show ?thesis using less [of B "D0 @ ds" A C] fd_insert [of A "C @ D0" b ds] Nil by simp
    qed (simp add: Nil)
  next
    case B: (snoc B0 a cs)
    show ?thesis
    proof (cases D rule: forest_snoc)
      case Nil
      then show ?thesis using less [of "B0 @ cs" D A C] fd_delete [of "A @ B0" a cs C] B by simp
    next
      case D: (snoc D0 b ds)
      show ?thesis
      proof (cases rule: fd_cases [of B0 a cs D0 b ds])
        case del
        then show ?thesis using less [of "B0 @ cs" D A C] fd_delete [of "A @ B0" a cs "C @ D"] B D by simp
      next
        case ins
        then show ?thesis using less [of B "D0 @ ds" A C] fd_insert [of "A @ B" "C @ D0" b ds] B D by simp
      next
        case mat
        then show ?thesis using less [of B0 D0 A C] fd_match [of "A @ B0" a cs "C @ D0" b ds] B D by simp
      qed
    qed
  qed
qed

section \<open>Edit sequences\<close>

inductive edit1 :: "'l doc list \<Rightarrow> 'l doc list \<Rightarrow> bool" where
  delete: "edit1 (A @ [Node a cs] @ B) (A @ cs @ B)"
| insert: "edit1 (A @ cs @ B) (A @ [Node a cs] @ B)"
| relabel: "edit1 (A @ [Node a cs] @ B) (A @ [Node b cs] @ B)"
| inside: "edit1 cs cs' \<Longrightarrow> edit1 (A @ [Node a cs] @ B) (A @ [Node a cs'] @ B)"

lemma edit1_sym: "edit1 F G \<Longrightarrow> edit1 G F"
  by (induction rule: edit1.induct) (auto intro: edit1.intros simp del: append_Cons append_Nil)

lemma edit1_context: "edit1 F G \<Longrightarrow> edit1 (P @ F @ Q) (P @ G @ Q)"
proof (induction rule: edit1.induct)
  case (delete A a cs B)
  then show ?case using edit1.delete [of "P @ A" a cs "B @ Q"] by simp
next
  case (insert A cs B a)
  then show ?case using edit1.insert [of "P @ A" cs "B @ Q" a] by simp
next
  case (relabel A a cs B b)
  then show ?case using edit1.relabel [of "P @ A" a cs "B @ Q" b] by simp
next
  case (inside cs cs' A a B)
  then show ?case using edit1.inside [of cs cs' "P @ A" a "B @ Q"] by simp
qed

lemma edit1_fsize: "edit1 F G \<Longrightarrow> fsize G \<le> fsize F + 1"
  by (induction rule: edit1.induct) auto

text \<open>Where an edit happens, seen from the last tree.\<close>

lemma edit1_last:
  assumes "edit1 F F'"
  obtains (del) A a cs where "F = A @ [Node a cs]" "F' = A @ cs"
  | (ins) A a cs where "F = A @ cs" "F' = A @ [Node a cs]"
  | (lab) A a b cs where "F = A @ [Node a cs]" "F' = A @ [Node b cs]"
  | (kid) A a cs cs' where "F = A @ [Node a cs]" "F' = A @ [Node a cs']" "edit1 cs cs'"
  | (pre) A A' a cs where "F = A @ [Node a cs]" "F' = A' @ [Node a cs]" "edit1 A A'"
  using assms
proof (cases rule: edit1.cases)
  case (delete A a cs B)
  then show ?thesis by (cases B rule: forest_snoc) (auto intro: that(1) that(5) edit1.delete [simplified])
next
  case (insert A cs B a)
  then show ?thesis by (cases B rule: forest_snoc) (auto intro: that(2) that(5) edit1.insert [simplified])
next
  case (relabel A a cs B b)
  then show ?thesis by (cases B rule: forest_snoc) (auto intro: that(3) that(5) edit1.relabel [simplified])
next
  case (inside cs cs' A a B)
  then show ?thesis by (cases B rule: forest_snoc) (auto intro: that(4) that(5) edit1.inside [simplified])
qed

text \<open>One edit moves the distance by at most one.\<close>

lemma fd_edit1: "edit1 F F' \<Longrightarrow> fd F' G \<le> fd F G + 1"
proof (induction "fsize F + fsize G" arbitrary: F F' G rule: less_induct)
  case less
  show ?case
  proof (cases G rule: forest_snoc)
    case Nil
    then show ?thesis using edit1_fsize [OF less.prems] by simp
  next
    case G: (snoc B b ds)
    have shrink: "fd F' G \<le> fd F (B @ ds) + 2"
      using less.hyps [OF _ less.prems, of "B @ ds"] fd_insert [of F' B b ds] G by simp
    from less.prems show ?thesis
    proof (cases rule: edit1_last)
      case (ins A a cs)
      then show ?thesis using fd_delete by simp
    next
      case (del A a cs)
      show ?thesis
      proof (cases rule: fd_cases [of A a cs B b ds])
        case mat
        then show ?thesis using fd_append [of A cs B ds] fd_insert [of "A @ cs" B b ds] del G by simp
      qed (use shrink del G in auto)
    next
      case (lab A a a' cs)
      show ?thesis
      proof (cases rule: fd_cases [of A a cs B b ds])
        case del
        then show ?thesis using fd_delete [of A a' cs G] lab G by simp
      next
        case mat
        then show ?thesis using fd_match [of A a' cs B b ds] lab G by (simp split: if_splits)
      qed (use shrink lab G in auto)
    next
      case (kid A a cs cs')
      show ?thesis
      proof (cases rule: fd_cases [of A a cs B b ds])
        case del
        then show ?thesis
          using less.hyps [of "A @ cs" G "A @ cs'"] edit1_context [OF kid(3), of A "[]"] fd_delete [of A a cs' G] kid G by simp
      next
        case mat
        then show ?thesis using less.hyps [of cs ds cs'] fd_match [of A a cs' B b ds] kid G by simp
      qed (use shrink kid G in auto)
    next
      case (pre A A' a cs)
      show ?thesis
      proof (cases rule: fd_cases [of A a cs B b ds])
        case del
        then show ?thesis
          using less.hyps [of "A @ cs" G "A' @ cs"] edit1_context [OF pre(3), of "[]" cs] fd_delete [of A' a cs G] pre G by simp
      next
        case mat
        then show ?thesis using less.hyps [of A B A'] fd_match [of A' a cs B b ds] pre G by simp
      qed (use shrink pre G in auto)
    qed
  qed
qed

lemma fd_self: "fd F F = 0"
proof (induction "fsize F" arbitrary: F rule: less_induct)
  case less
  show ?case
  proof (cases F rule: forest_snoc)
    case (snoc A a cs)
    then show ?thesis using less [of A] less [of cs] fd_match [of A a cs A a cs] by simp
  qed simp
qed

lemma fd_le_edits: "(edit1 ^^ n) F G \<Longrightarrow> fd F G \<le> n"
proof (induction n arbitrary: F)
  case (Suc n)
  then obtain F' where "edit1 F F'" "(edit1 ^^ n) F' G" by (metis relpowp_Suc_D2)
  then show ?case using Suc.IH [of F'] fd_edit1 [OF edit1_sym [of F F'], of G] by simp
qed (simp add: fd_self)

lemma edits_context: "(edit1 ^^ n) F G \<Longrightarrow> (edit1 ^^ n) (P @ F @ Q) (P @ G @ Q)"
  by (induction n arbitrary: G) (auto intro: edit1_context relcomppI)

lemma edits_inside: "(edit1 ^^ n) cs ds \<Longrightarrow> (edit1 ^^ n) [Node a cs] [Node a ds]"
  by (induction n arbitrary: ds) (auto intro: edit1.inside [of _ _ "[]" _ "[]", simplified] relcomppI)

lemma tree_edits_append:
  assumes "(edit1 ^^ m) A C" and "(edit1 ^^ n) B D"
  shows "(edit1 ^^ (m + n)) (A @ B) (C @ D)"
  using edits_context [OF assms(1), of "[]" B] edits_context [OF assms(2), of C "[]"] by (auto simp: relpowp_add intro: relcomppI)

lemma edits_delete: "(edit1 ^^ n) (A @ cs) G \<Longrightarrow> (edit1 ^^ Suc n) (A @ [Node a cs]) G"
  using relpowp_Suc_I2 [of edit1 "A @ [Node a cs]" "A @ cs" n G] edit1.delete [of A a cs "[]"] by (simp del: relpowp.simps)

lemma edits_insert: "(edit1 ^^ n) F (B @ ds) \<Longrightarrow> (edit1 ^^ Suc n) F (B @ [Node b ds])"
  using edit1.insert [of B ds "[]" b] by (auto intro: relcomppI)

lemma edits_fd: "(edit1 ^^ fd F G) F G"
proof (induction "fsize F + fsize G" arbitrary: F G rule: less_induct)
  case less
  show ?case
  proof (cases F rule: forest_snoc)
    case Nil
    show ?thesis
    proof (cases G rule: forest_snoc)
      case (snoc B b ds)
      then show ?thesis using edits_insert [of "fsize (B @ ds)" F B ds b] less [of F "B @ ds"] Nil by simp
    qed (simp add: Nil)
  next
    case F: (snoc A a cs)
    show ?thesis
    proof (cases G rule: forest_snoc)
      case Nil
      then show ?thesis using edits_delete [of "fsize (A @ cs)" A cs G a] less [of "A @ cs" G] F by simp
    next
      case G: (snoc B b ds)
      show ?thesis
      proof (cases rule: fd_cases [of A a cs B b ds])
        case del
        then show ?thesis using edits_delete [of _ A cs G a] less [of "A @ cs" G] F G by simp
      next
        case ins
        then show ?thesis using edits_insert [of _ F B ds b] less [of F "B @ ds"] F G by simp
      next
        case mat
        have "(edit1 ^^ (if a = b then 0 else 1)) [Node a ds] [Node b ds]"
          using edit1.relabel [of "[]" a ds "[]" b] by (auto simp: OO_def)
        then have "(edit1 ^^ (fd cs ds + (if a = b then 0 else 1))) [Node a cs] [Node b ds]"
          using edits_inside [of "fd cs ds" cs ds a] less [of cs ds] F G unfolding relpowp_add by (auto intro: relcomppI)
        then show ?thesis using tree_edits_append [of "fd A B" A B] less [of A B] mat F G by (simp add: add.assoc)
      qed
    qed
  qed
qed

text \<open>The recursion computes the least number of edits.\<close>

lemma fd_is_least: "fd F G = (LEAST n. (edit1 ^^ n) F G)"
  by (rule Least_equality [symmetric]) (auto intro: edits_fd fd_le_edits)

lemma fd_sym: "fd F G = fd G F"
proof -
  have "(edit1 ^^ n) F G \<Longrightarrow> (edit1 ^^ n) G F" for n and F G :: "'l doc list"
  proof (induction n arbitrary: G)
    case (Suc n)
    then obtain H where "(edit1 ^^ n) F H" "edit1 H G" by (blast elim: relpowp_Suc_E)
    then show ?case using Suc.IH by (blast intro: edit1_sym relpowp_Suc_I2)
  qed simp
  then have "(edit1 ^^ n) F G \<longleftrightarrow> (edit1 ^^ n) G F" for n by blast
  then show ?thesis by (simp add: fd_is_least)
qed

lemma fd_triangle: "fd F H \<le> fd F G + fd G H"
  using fd_le_edits [of "fd F G + fd G H" F H] edits_fd [of F G] edits_fd [of G H] unfolding relpowp_add by blast

lemma fd_le_sizes: "fd F G \<le> fsize F + fsize G"
  using fd_append [of F "[]" "[]" G] by simp

lemma fsize_le_fd: "fsize G \<le> fsize F + fd F G"
proof -
  have "(edit1 ^^ n) F G \<Longrightarrow> fsize G \<le> fsize F + n" for n
  proof (induction n arbitrary: G)
    case (Suc n)
    then obtain H where "(edit1 ^^ n) F H" "edit1 H G" by (blast elim: relpowp_Suc_E)
    then show ?case using Suc.IH [of H] edit1_fsize [of H G] by simp
  qed simp
  then show ?thesis using edits_fd by blast
qed

end
