(* ===== verification/Tree_Edit.thy ===== *)
theory Tree_Edit
  imports Forest_Distance Orch_Prelude "HOL-Library.Char_ord" "HOL-Library.List_Lexorder"
begin

text \<open>
  Tree edit distance, \<^verbatim>\<open>src/app/eval/ted.py\<close>: the parser that flattens a nested object into postorder arrays,
  the dynamic program over keyroots with its two tables, and the scores. The arrays are lists with
  the sentinel of the source at position 0, the tables lists of rows updated in place. Objects are
  decoded JSON; two labels are equal when Python's \<^verbatim>\<open>==\<close> says so, which identifies \<^verbatim>\<open>True\<close> with 1 and
  ignores the order of keys (\<open>py_norm\<close> is the common form of equal values).
\<close>

section \<open>Objects\<close>

fun py_norm :: "json \<Rightarrow> json" where
  "py_norm JNull = JNull"
| "py_norm (JBool b) = JNum (if b then 1 else 0)"
| "py_norm (JNum x) = JNum x"
| "py_norm (JStr s) = JStr s"
| "py_norm (JArr xs) = JArr (map py_norm xs)"
| "py_norm (JObj kvs) = JObj (sort_key fst (map (\<lambda>kv. (fst kv, py_norm (snd kv))) kvs))"

definition py_eq :: "json \<Rightarrow> json \<Rightarrow> bool" where
  "py_eq x y \<longleftrightarrow> py_norm x = py_norm y"

fun falsy :: "json \<Rightarrow> bool" where
  "falsy JNull \<longleftrightarrow> True"
| "falsy (JBool b) \<longleftrightarrow> \<not> b"
| "falsy (JNum x) \<longleftrightarrow> x = 0"
| "falsy (JStr s) \<longleftrightarrow> s = []"
| "falsy (JArr xs) \<longleftrightarrow> xs = []"
| "falsy (JObj kvs) \<longleftrightarrow> kvs = []"

fun label_of :: "string \<Rightarrow> json \<Rightarrow> exc + json" where
  "label_of label_key (JObj kvs) =
     (case map_of kvs label_key of None \<Rightarrow> Inl (OtherException ''ValueError'') | Some v \<Rightarrow> Inr v)"
| "label_of label_key node = Inr node"

fun children_of :: "string \<Rightarrow> json \<Rightarrow> exc + json list" where
  "children_of children_key (JObj kvs) =
     (case map_of kvs children_key of
        None \<Rightarrow> Inr []
      | Some v \<Rightarrow>
          if falsy v then Inr [] else (case v of JArr xs \<Rightarrow> Inr xs | _ \<Rightarrow> Inl (OtherException ''ValueError'')))"
| "children_of children_key node = Inr []"

section \<open>The flattened tree\<close>

record tree_arrays =
  te_labels :: "json list"
  te_leftmost :: "nat list"
  te_keyroots :: "nat list"
  te_depth :: nat

definition te_size :: "tree_arrays \<Rightarrow> nat" where "te_size t = length (te_labels t) - 1"

definition leaf_count :: "tree_arrays \<Rightarrow> nat" where
  "leaf_count t = length (filter (\<lambda>i. te_leftmost t ! i = i) [1..<te_size t + 1])"

definition keyroot_weight :: "tree_arrays \<Rightarrow> nat" where
  "keyroot_weight t = sum_list (map (\<lambda>k. k - te_leftmost t ! k + 1) (te_keyroots t))"

lemma children_smaller: "children_of ck node = Inr cs \<Longrightarrow> 2 * size_list size cs < 2 * size node + 1"
proof (cases node)
  case (JObj kvs)
  assume cs: "children_of ck node = Inr cs"
  have "size_list size cs \<le> size v" if "map_of kvs ck = Some v" for v
    using cs that JObj by (cases v) (auto split: if_splits)
  moreover have "size v < size (JObj kvs)" if "map_of kvs ck = Some v" for v
  proof -
    have "(ck, v) \<in> set kvs" using that by (rule map_of_SomeD)
    then show ?thesis by (induction kvs) auto
  qed
  ultimately show ?thesis using cs JObj by (cases "map_of kvs ck") fastforce+
qed auto

text \<open>The walk with its explicit stack, the top first; an entry is a node, whether it is expanded, where its subtree starts and its depth.\<close>

function parse_loop ::
  "string \<Rightarrow> string \<Rightarrow> (json \<times> bool \<times> nat \<times> nat) list \<Rightarrow> json list \<Rightarrow> nat list \<Rightarrow> nat
   \<Rightarrow> exc + json list \<times> nat list \<times> nat" where
  "parse_loop lk ck [] labels leftmost max_depth = Inr (labels, leftmost, max_depth)"
| "parse_loop lk ck ((node, True, start, depth) # stack) labels leftmost max_depth =
     sum_bind (label_of lk node) (\<lambda>l. parse_loop lk ck stack (labels @ [l]) (leftmost @ [start]) max_depth)"
| "parse_loop lk ck ((node, False, start, depth) # stack) labels leftmost max_depth =
     (case children_of ck node of
        Inl e \<Rightarrow> Inl e
      | Inr children \<Rightarrow>
          parse_loop lk ck (map (\<lambda>c. (c, False, 0, depth + 1)) children @ (node, True, length labels, depth) # stack)
            labels leftmost (max max_depth depth))"
  by pat_completeness auto

definition stack_work :: "(json \<times> bool \<times> nat \<times> nat) list \<Rightarrow> nat" where
  "stack_work st = sum_list (map (\<lambda>(node, expanded, _). if expanded then 1 else 2 * size node + 2) st)"

lemma stack_work_children: "stack_work (map (\<lambda>c. (c, False, 0, d)) cs) = 2 * size_list size cs"
  by (induction cs) (auto simp: stack_work_def)

lemma stack_work_append: "stack_work (xs @ ys) = stack_work xs + stack_work ys"
  by (simp add: stack_work_def)

termination parse_loop
  by (relation "measure (\<lambda>(lk, ck, st, _). stack_work st)")
     (use children_smaller in \<open>auto simp: stack_work_append stack_work_children, auto simp: stack_work_def\<close>)

fun keyroots_scan :: "nat list \<Rightarrow> nat list \<Rightarrow> nat list \<Rightarrow> nat list \<Rightarrow> nat list" where
  "keyroots_scan leftmost [] seen keyroots = keyroots"
| "keyroots_scan leftmost (k # ks) seen keyroots =
     (if leftmost ! k \<notin> set seen then keyroots_scan leftmost ks (leftmost ! k # seen) (keyroots @ [k])
      else keyroots_scan leftmost ks seen keyroots)"

definition keyroots_of :: "nat list \<Rightarrow> nat list" where
  "keyroots_of leftmost = rev (keyroots_scan leftmost (rev [1..<length leftmost]) [] [])"

definition parse_tree :: "string \<Rightarrow> string \<Rightarrow> json option \<Rightarrow> exc + tree_arrays" where
  "parse_tree label_key children_key docroot =
     (case docroot of
        None \<Rightarrow> Inr \<lparr>te_labels = [JNull], te_leftmost = [0], te_keyroots = [], te_depth = 0\<rparr>
      | Some node \<Rightarrow>
          sum_bind (parse_loop label_key children_key [(node, False, 0, 1)] [JNull] [0] 0) (\<lambda>(labels, leftmost, max_depth).
            Inr \<lparr>te_labels = labels, te_leftmost = leftmost, te_keyroots = keyroots_of leftmost, te_depth = max_depth\<rparr>))"

section \<open>The dynamic program\<close>

type_synonym table = "nat list list"

definition cell :: "table \<Rightarrow> nat \<Rightarrow> nat \<Rightarrow> nat" where "cell t i j = t ! i ! j"

definition put :: "nat \<Rightarrow> nat \<Rightarrow> nat \<Rightarrow> table \<Rightarrow> table" where
  "put i j v t = t[i := (t ! i)[j := v]]"

definition base_cases :: "nat \<Rightarrow> nat \<Rightarrow> table \<Rightarrow> table" where
  "base_cases rows cols f =
     fold (\<lambda>j f. put 0 j (cell f 0 (j - 1) + 1) f) [1..<cols + 1]
       (fold (\<lambda>i f. put i 0 (cell f (i - 1) 0 + 1) f) [1..<rows + 1] (put 0 0 0 f))"

definition dp_cell ::
  "tree_arrays \<Rightarrow> tree_arrays \<Rightarrow> nat \<Rightarrow> nat \<Rightarrow> nat \<Rightarrow> nat \<Rightarrow> table \<times> table \<Rightarrow> table \<times> table" where
  "dp_cell a b spine_a spine_b i j x =
     (let (forestdist, treedist) = x;
          offset_a = spine_a - 1; offset_b = spine_b - 1;
          node_a = i + offset_a; node_b = j + offset_b;
          left_of_a = te_leftmost a ! node_a; left_of_b = te_leftmost b ! node_b;
          delete = cell forestdist (i - 1) j + 1;
          insert = cell forestdist i (j - 1) + 1;
          value = (if delete < insert then delete else insert)
      in if left_of_a = spine_a \<and> left_of_b = spine_b
         then
           let relabel = cell forestdist (i - 1) (j - 1)
                 + (if py_eq (te_labels a ! node_a) (te_labels b ! node_b) then 0 else 1);
               value' = (if relabel < value then relabel else value)
           in (put i j value' forestdist, put node_a node_b value' treedist)
         else
           let detached = cell forestdist (left_of_a - 1 - offset_a) (left_of_b - 1 - offset_b) + cell treedist node_a node_b;
               value' = (if detached < value then detached else value)
           in (put i j value' forestdist, treedist))"

definition dp_pass :: "tree_arrays \<Rightarrow> tree_arrays \<Rightarrow> nat \<Rightarrow> nat \<Rightarrow> table \<times> table \<Rightarrow> table \<times> table" where
  "dp_pass a b root_a root_b x =
     (let spine_a = te_leftmost a ! root_a; spine_b = te_leftmost b ! root_b;
          rows = root_a - (spine_a - 1); cols = root_b - (spine_b - 1);
          (forestdist, treedist) = x
      in fold (\<lambda>i. fold (dp_cell a b spine_a spine_b i) [1..<cols + 1]) [1..<rows + 1]
           (base_cases rows cols forestdist, treedist))"

definition tree_edit_distance :: "tree_arrays \<Rightarrow> tree_arrays \<Rightarrow> nat" where
  "tree_edit_distance a b =
     (let n1 = te_size a; n2 = te_size b
      in if n1 = 0 then n2 else if n2 = 0 then n1
         else
           let zero = replicate (n1 + 1) (replicate (n2 + 1) 0);
               (_, treedist) = fold (\<lambda>root_a. fold (dp_pass a b root_a) (te_keyroots b)) (te_keyroots a) (zero, zero)
           in cell treedist n1 n2)"

section \<open>Scores\<close>

record tree_score =
  tsc_distance :: nat
  tsc_truth_nodes :: nat
  tsc_predicted_nodes :: nat

definition normalised :: "tree_score \<Rightarrow> real" where
  "normalised s =
     (let scale = max (tsc_truth_nodes s) (tsc_predicted_nodes s)
      in if scale = 0 then 0 else real (tsc_distance s) / real scale)"

definition tree_score_of :: "string \<Rightarrow> string \<Rightarrow> json option \<Rightarrow> json option \<Rightarrow> exc + tree_score" where
  "tree_score_of label_key children_key predicted truth =
     sum_bind (parse_tree label_key children_key predicted) (\<lambda>p.
     sum_bind (parse_tree label_key children_key truth) (\<lambda>t.
       Inr \<lparr>tsc_distance = tree_edit_distance p t, tsc_truth_nodes = te_size t, tsc_predicted_nodes = te_size p\<rparr>))"

definition aggregate_trees :: "tree_score list \<Rightarrow> tree_score" where
  "aggregate_trees scores =
     (if scores = [] then \<lparr>tsc_distance = 0, tsc_truth_nodes = 0, tsc_predicted_nodes = 0\<rparr>
      else \<lparr>tsc_distance = sum_list (map tsc_distance scores),
            tsc_truth_nodes = sum_list (map tsc_truth_nodes scores),
            tsc_predicted_nodes = sum_list (map tsc_predicted_nodes scores)\<rparr>)"

section \<open>The forest between two postorder positions\<close>

text \<open>
  The nodes \<open>l..i\<close> of a postorder numbering as a forest: the last node is a root whose subtree
  starts at its leftmost leaf.
\<close>

function forest_of :: "(nat \<Rightarrow> 'l) \<Rightarrow> (nat \<Rightarrow> nat) \<Rightarrow> nat \<Rightarrow> nat \<Rightarrow> 'l doc list" where
  "forest_of lab left l i =
     (if i < l \<or> i = 0 \<or> left i = 0 \<or> i < left i then []
      else forest_of lab left l (left i - 1) @ [Node (lab i) (forest_of lab left (left i) (i - 1))])"
  by pat_completeness auto
termination by (relation "measure (\<lambda>(_, _, _, i). i)") auto

declare forest_of.simps [simp del]

definition postorder :: "nat \<Rightarrow> (nat \<Rightarrow> nat) \<Rightarrow> bool" where
  "postorder n left \<longleftrightarrow>
     (\<forall>k. 1 \<le> k \<and> k \<le> n \<longrightarrow> 1 \<le> left k \<and> left k \<le> k) \<and>
     (\<forall>i k. i \<le> n \<and> left i \<le> k \<and> k \<le> i \<and> 1 \<le> i \<longrightarrow> left i \<le> left k)"

lemma postorderD:
  assumes "postorder n left"
  shows "1 \<le> k \<Longrightarrow> k \<le> n \<Longrightarrow> 1 \<le> left k" "1 \<le> k \<Longrightarrow> k \<le> n \<Longrightarrow> left k \<le> k"
    "1 \<le> i \<Longrightarrow> i \<le> n \<Longrightarrow> left i \<le> k \<Longrightarrow> k \<le> i \<Longrightarrow> left i \<le> left k"
  using assms by (auto simp: postorder_def)

lemma forest_empty [simp]: "i < l \<Longrightarrow> forest_of lab left l i = []"
  by (simp add: forest_of.simps)

lemma forest_last:
  assumes "postorder n left" "1 \<le> l" "l \<le> i" "i \<le> n"
  shows "forest_of lab left l i = forest_of lab left l (left i - 1) @ [Node (lab i) (forest_of lab left (left i) (i - 1))]"
  using postorderD(1,2) [OF assms(1), of i] assms by (subst forest_of.simps) auto

lemma forest_split:
  assumes "postorder n left" "1 \<le> l" "l \<le> p" "m \<le> n" "\<And>k. p \<le> k \<Longrightarrow> k \<le> m \<Longrightarrow> p \<le> left k" "p \<le> m + 1"
  shows "forest_of lab left l m = forest_of lab left l (p - 1) @ forest_of lab left p m"
  using assms(4-6)
proof (induction m rule: less_induct)
  case (less m)
  show ?case
  proof (cases "p \<le> m")
    case True
    have lm: "1 \<le> left m" "left m \<le> m" "p \<le> left m" using postorderD(1,2) [OF assms(1), of m] less.prems True assms(2,3) by auto
    have "forest_of lab left l (left m - 1) = forest_of lab left l (p - 1) @ forest_of lab left p (left m - 1)"
      using lm less.prems by (intro less.IH) auto
    then show ?thesis
      using forest_last [OF assms(1), of l m lab] forest_last [OF assms(1), of p m lab] assms(2,3) less.prems(1) True by auto
  next
    case False
    then have "m = p - 1" using less.prems(3) by simp
    then show ?thesis using assms(2,3) by simp
  qed
qed

text \<open>Dropping the last node leaves what is left of its subtree and its children.\<close>

lemma forest_drop_last:
  assumes "postorder n left" "1 \<le> l" "l \<le> left i" "1 \<le> i" "i \<le> n"
  shows "forest_of lab left l (i - 1) = forest_of lab left l (left i - 1) @ forest_of lab left (left i) (i - 1)"
  using assms postorderD(1,2,3) [OF assms(1), of i] by (intro forest_split [OF assms(1)]) auto

lemma forest_fsize:
  assumes "postorder n left" "1 \<le> l" "l \<le> m + 1" "m \<le> n" "\<And>k. l \<le> k \<Longrightarrow> k \<le> m \<Longrightarrow> l \<le> left k"
  shows "fsize (forest_of lab left l m) = m + 1 - l"
  using assms(2-5)
proof (induction m arbitrary: l rule: less_induct)
  case (less m)
  show ?case
  proof (cases "l \<le> m")
    case True
    have lm: "1 \<le> left m" "left m \<le> m" "l \<le> left m" using postorderD(1,2) [OF assms(1), of m] less.prems True by auto
    have "fsize (forest_of lab left l (left m - 1)) = left m - l" using less.IH [of "left m - 1" l] less.prems lm by auto
    moreover have "fsize (forest_of lab left (left m) (m - 1)) = m - left m"
      using less.IH [of "m - 1" "left m"] less.prems lm postorderD(3) [OF assms(1), of m] by auto
    ultimately show ?thesis using forest_last [OF assms(1) less.prems(1) True less.prems(3), of lab] lm by simp
  qed (use less.prems in auto)
qed

section \<open>The recurrence of the program\<close>

text \<open>The distance of two subtrees, and the rule by which a cell is filled.\<close>

definition subtree_dist :: "(nat \<Rightarrow> 'l) \<Rightarrow> (nat \<Rightarrow> nat) \<Rightarrow> (nat \<Rightarrow> 'l) \<Rightarrow> (nat \<Rightarrow> nat) \<Rightarrow> nat \<Rightarrow> nat \<Rightarrow> nat" where
  "subtree_dist la fa lb fb x y = fd (forest_of la fa (fa x) x) (forest_of lb fb (fb y) y)"

lemma min_detached:
  fixes d i m c t u :: nat
  assumes "d \<le> m + t" and "i \<le> m + u"
  shows "min (min (d + 1) (i + 1)) (m + c) = min (min (d + 1) (i + 1)) (m + min (min (t + 1) (u + 1)) c)"
  using assms by (auto simp: min_def)

lemma cell_rule:
  fixes la lb :: "nat \<Rightarrow> 'l" and fa fb :: "nat \<Rightarrow> nat"
  assumes a: "postorder n fa" "1 \<le> sa" "sa \<le> fa x" "1 \<le> x" "x \<le> n"
    and b: "postorder m fb" "1 \<le> sb" "sb \<le> fb y" "1 \<le> y" "y \<le> m"
  defines "A \<equiv> forest_of la fa" and "B \<equiv> forest_of lb fb"
  shows "fd (A sa x) (B sb y) =
    min (min (fd (A sa (x - 1)) (B sb y) + 1) (fd (A sa x) (B sb (y - 1)) + 1))
      (if fa x = sa \<and> fb y = sb then fd (A sa (x - 1)) (B sb (y - 1)) + (if la x = lb y then 0 else 1)
       else fd (A sa (fa x - 1)) (B sb (fb y - 1)) + subtree_dist la fa lb fb x y)"
proof -
  let ?A0 = "A sa (fa x - 1)" and ?B0 = "B sb (fb y - 1)" and ?cs = "A (fa x) (x - 1)" and ?ds = "B (fb y) (y - 1)"
  have sx: "sa \<le> x" "sb \<le> y" using postorderD(2) [OF a(1,4,5)] postorderD(2) [OF b(1,4,5)] a(3) b(3) by auto
  have Ax: "A sa x = ?A0 @ [Node (la x) ?cs]" unfolding A_def using forest_last [OF a(1,2) sx(1) a(5)] .
  have By: "B sb y = ?B0 @ [Node (lb y) ?ds]" unfolding B_def using forest_last [OF b(1,2) sx(2) b(5)] .
  have Ad: "A sa (x - 1) = ?A0 @ ?cs" unfolding A_def using forest_drop_last [OF a(1,2,3,4,5)] .
  have Bd: "B sb (y - 1) = ?B0 @ ?ds" unfolding B_def using forest_drop_last [OF b(1,2,3,4,5)] .
  have rule: "fd (A sa x) (B sb y) = min (min (fd (A sa (x - 1)) (B sb y) + 1) (fd (A sa x) (B sb (y - 1)) + 1))
      (fd ?A0 ?B0 + fd ?cs ?ds + (if la x = lb y then 0 else 1))"
    unfolding Ax By Ad Bd by (rule fd_snoc)
  show ?thesis
  proof (cases "fa x = sa \<and> fb y = sb")
    case True
    then have "?A0 = []" "?B0 = []" using a(2) b(2) by (simp_all add: A_def B_def)
    then show ?thesis using True rule Ad Bd by simp
  next
    case False
    have tx: "A (fa x) x = [Node (la x) ?cs]" and ty: "B (fb y) y = [Node (lb y) ?ds]"
      using forest_last [OF a(1) postorderD(1) [OF a(1,4,5)] postorderD(2) [OF a(1,4,5)] a(5)]
        forest_last [OF b(1) postorderD(1) [OF b(1,4,5)] postorderD(2) [OF b(1,4,5)] b(5)]
        postorderD(1) [OF a(1,4,5)] postorderD(1) [OF b(1,4,5)]
      by (simp_all add: A_def B_def)
    have td: "subtree_dist la fa lb fb x y =
        min (min (fd ?cs [Node (lb y) ?ds] + 1) (fd [Node (la x) ?cs] ?ds + 1)) (fd ?cs ?ds + (if la x = lb y then 0 else 1))"
      unfolding subtree_dist_def A_def [symmetric] B_def [symmetric] tx ty
      using fd_snoc [of "[]" "la x" ?cs "[]" "lb y" ?ds] by simp
    have "fd (A sa (x - 1)) (B sb y) \<le> fd ?A0 ?B0 + fd ?cs [Node (lb y) ?ds]" unfolding Ad By by (rule fd_append)
    moreover have "fd (A sa x) (B sb (y - 1)) \<le> fd ?A0 ?B0 + fd [Node (la x) ?cs] ?ds" unfolding Ax Bd by (rule fd_append)
    ultimately show ?thesis unfolding rule td if_not_P [OF False] add.assoc by (rule min_detached [unfolded add.assoc])
  qed
qed

section \<open>Keyroots\<close>

lemma keyroots_scan_eq:
  assumes "sorted_wrt (>) ks"
  shows "keyroots_scan lm ks sn acc
    = acc @ filter (\<lambda>k. lm ! k \<notin> set sn \<and> (\<forall>k' \<in> set ks. k < k' \<longrightarrow> lm ! k' \<noteq> lm ! k)) ks"
  using assms
proof (induction ks arbitrary: sn acc)
  case (Cons x ks)
  have x: "\<forall>y \<in> set ks. y < x" using Cons.prems by simp
  have "filter (\<lambda>k. lm ! k \<notin> set (lm ! x # sn) \<and> (\<forall>k' \<in> set ks. k < k' \<longrightarrow> lm ! k' \<noteq> lm ! k)) ks
      = filter (\<lambda>k. lm ! k \<notin> set sn \<and> (\<forall>k' \<in> set (x # ks). k < k' \<longrightarrow> lm ! k' \<noteq> lm ! k)) ks"
    using x by (intro filter_cong) auto
  moreover have "filter (\<lambda>k. lm ! k \<notin> set sn \<and> (\<forall>k' \<in> set ks. k < k' \<longrightarrow> lm ! k' \<noteq> lm ! k)) ks
      = filter (\<lambda>k. lm ! k \<notin> set sn \<and> (\<forall>k' \<in> set (x # ks). k < k' \<longrightarrow> lm ! k' \<noteq> lm ! k)) ks" if "lm ! x \<in> set sn"
    using that by (intro filter_cong) auto
  ultimately show ?case using Cons x by (auto dest: less_asym)
qed simp

lemma keyroots_of_eq:
  "keyroots_of lm = filter (\<lambda>k. \<forall>k'. k < k' \<and> k' < length lm \<longrightarrow> lm ! k' \<noteq> lm ! k) [1..<length lm]"
proof -
  have "sorted_wrt (>) (rev [1..<length lm])" by (simp add: sorted_wrt_rev strict_sorted_iff del: upt_Suc)
  then have "keyroots_of lm = filter (\<lambda>k. \<forall>k' \<in> set [1..<length lm]. k < k' \<longrightarrow> lm ! k' \<noteq> lm ! k) [1..<length lm]"
    by (simp add: keyroots_of_def keyroots_scan_eq rev_filter del: upt_Suc)
  also have "\<dots> = filter (\<lambda>k. \<forall>k'. k < k' \<and> k' < length lm \<longrightarrow> lm ! k' \<noteq> lm ! k) [1..<length lm]"
    by (intro filter_cong) auto
  finally show ?thesis .
qed

definition arrays_ok :: "tree_arrays \<Rightarrow> bool" where
  "arrays_ok t \<longleftrightarrow> length (te_labels t) = Suc (te_size t) \<and> length (te_leftmost t) = Suc (te_size t)
     \<and> postorder (te_size t) ((!) (te_leftmost t)) \<and> te_keyroots t = keyroots_of (te_leftmost t)"

lemma keyroot_iff:
  "arrays_ok t \<Longrightarrow> k \<in> set (te_keyroots t) \<longleftrightarrow>
     1 \<le> k \<and> k \<le> te_size t \<and> (\<forall>k'. k < k' \<and> k' \<le> te_size t \<longrightarrow> te_leftmost t ! k' \<noteq> te_leftmost t ! k)"
  by (auto simp: arrays_ok_def keyroots_of_eq)

lemma keyroots_ascending: "arrays_ok t \<Longrightarrow> sorted_wrt (<) (te_keyroots t)"
  by (simp add: arrays_ok_def keyroots_of_eq sorted_wrt_filter del: upt_Suc)

lemma keyroot_covers:
  assumes "arrays_ok t" "1 \<le> x" "x \<le> te_size t"
  obtains k where "k \<in> set (te_keyroots t)" "te_leftmost t ! k = te_leftmost t ! x" "x \<le> k"
proof -
  define S where "S = {k. x \<le> k \<and> k \<le> te_size t \<and> te_leftmost t ! k = te_leftmost t ! x}"
  define m where "m = Max S"
  have fin: "finite S" "S \<noteq> {}" using assms by (auto simp: S_def)
  have m: "m \<in> S" unfolding m_def using Max_in [OF fin] .
  have top: "k' \<le> m" if "k' \<in> S" for k' unfolding m_def using Max_ge [OF fin(1) that] .
  have later: "te_leftmost t ! k' \<noteq> te_leftmost t ! m" if "m < k'" "k' \<le> te_size t" for k'
    using top [of k'] that m by (auto simp: S_def)
  show ?thesis
  proof (rule that)
    show "m \<in> set (te_keyroots t)" unfolding keyroot_iff [OF assms(1)] using m later assms(2) by (auto simp: S_def)
    show "te_leftmost t ! m = te_leftmost t ! x" "x \<le> m" using m by (auto simp: S_def)
  qed
qed

text \<open>A node of a keyroot's subtree that is not on its left spine belongs to an earlier keyroot.\<close>

lemma off_spine_earlier:
  assumes "arrays_ok t" "r \<in> set (te_keyroots t)" "te_leftmost t ! r \<le> x" "x \<le> r" "te_leftmost t ! x \<noteq> te_leftmost t ! r"
  obtains k where "k \<in> set (te_keyroots t)" "te_leftmost t ! k = te_leftmost t ! x" "k < r"
proof -
  let ?l = "(!) (te_leftmost t)"
  have po: "postorder (te_size t) ?l" using assms(1) by (simp add: arrays_ok_def)
  have r: "1 \<le> r" "r \<le> te_size t" using keyroot_iff [OF assms(1)] assms(2) by auto
  have x: "1 \<le> x" "x \<le> te_size t" using postorderD(1) [OF po r] assms(3,4) r by auto
  obtain k where k: "k \<in> set (te_keyroots t)" "?l k = ?l x" "x \<le> k" using keyroot_covers [OF assms(1) x] .
  have kn: "1 \<le> k" "k \<le> te_size t" using keyroot_iff [OF assms(1)] k(1) by auto
  have lt: "?l r < ?l x" using postorderD(3) [OF po r assms(3,4)] assms(5) by simp
  have "?l k \<le> x" using postorderD(2) [OF po x] k(2) by simp
  then have "k < r" using postorderD(3) [OF po kn, of r] lt k(2) assms(4) by (cases "k < r") auto
  then show ?thesis using that k by blast
qed

section \<open>The tables\<close>

definition dims :: "nat \<Rightarrow> nat \<Rightarrow> table \<Rightarrow> bool" where
  "dims n m t \<longleftrightarrow> length t = Suc n \<and> (\<forall>i \<le> n. length (t ! i) = Suc m)"

lemma dims_put [simp]: "dims n m t \<Longrightarrow> dims n m (put i j v t)"
  by (cases "i \<le> n") (auto simp: dims_def put_def nth_list_update list_update_beyond)

lemma cell_put:
  "dims n m t \<Longrightarrow> i \<le> n \<Longrightarrow> j \<le> m \<Longrightarrow> cell (put i j v t) i' j' = (if i' = i \<and> j' = j then v else cell t i' j')"
  by (auto simp: dims_def put_def cell_def nth_list_update)

lemma fold_upt_inv:
  assumes "P m s" "m \<le> n" "\<And>i s. m \<le> i \<Longrightarrow> i < n \<Longrightarrow> P i s \<Longrightarrow> P (Suc i) (f i s)"
  shows "P n (fold f [m..<n] s)"
  using assms(2,1,3)
proof (induction n)
  case (Suc n)
  show ?case
  proof (cases "m \<le> n")
    case True
    then show ?thesis using Suc by simp
  qed (use Suc.prems in \<open>auto simp: not_less_eq_eq le_Suc_eq\<close>)
qed simp

lemma fold_list_inv:
  assumes "P [] s" "\<And>xs x ys s. ks = xs @ x # ys \<Longrightarrow> P xs s \<Longrightarrow> P (xs @ [x]) (f x s)"
  shows "P ks (fold f ks s)"
  using assms
proof (induction ks rule: rev_induct)
  case (snoc k ks)
  have "P ks (fold f ks s)" using snoc.prems by (intro snoc.IH) auto
  then show ?case using snoc.prems(2) [of ks k "[]"] by simp
qed simp

lemma base_cases_ok:
  assumes "dims n m f" "rows \<le> n" "cols \<le> m"
  shows "dims n m (base_cases rows cols f)"
    and "i \<le> rows \<Longrightarrow> cell (base_cases rows cols f) i 0 = i" and "j \<le> cols \<Longrightarrow> cell (base_cases rows cols f) 0 j = j"
proof -
  let ?f1 = "fold (\<lambda>i f. put i 0 (cell f (i - 1) 0 + 1) f) [1..<rows + 1] (put 0 0 0 f)"
  have 1: "dims n m ?f1 \<and> (\<forall>i < rows + 1. cell ?f1 i 0 = i)"
    by (rule fold_upt_inv [where P = "\<lambda>k f. dims n m f \<and> (\<forall>i < k. cell f i 0 = i)"])
      (use assms in \<open>auto simp: cell_put [of n m] less_Suc_eq\<close>)
  have 2: "dims n m (base_cases rows cols f) \<and> (\<forall>i < rows + 1. cell (base_cases rows cols f) i 0 = i)
      \<and> (\<forall>j < cols + 1. cell (base_cases rows cols f) 0 j = j)"
    unfolding base_cases_def
    by (rule fold_upt_inv [where P = "\<lambda>k f. dims n m f \<and> (\<forall>i < rows + 1. cell f i 0 = i) \<and> (\<forall>j < k. cell f 0 j = j)"])
      (use assms 1 in \<open>auto simp: cell_put [of n m] less_Suc_eq\<close>)
  show "dims n m (base_cases rows cols f)" "i \<le> rows \<Longrightarrow> cell (base_cases rows cols f) i 0 = i"
    "j \<le> cols \<Longrightarrow> cell (base_cases rows cols f) 0 j = j"
    using 2 by auto
qed

section \<open>One pass over a pair of keyroots\<close>

definition te_lab :: "tree_arrays \<Rightarrow> nat \<Rightarrow> json" where "te_lab t k = py_norm (te_labels t ! k)"

definition te_forest :: "tree_arrays \<Rightarrow> nat \<Rightarrow> nat \<Rightarrow> json doc list" where
  "te_forest t = forest_of (te_lab t) ((!) (te_leftmost t))"

definition te_dist :: "tree_arrays \<Rightarrow> tree_arrays \<Rightarrow> nat \<Rightarrow> nat \<Rightarrow> nat" where
  "te_dist a b = subtree_dist (te_lab a) ((!) (te_leftmost a)) (te_lab b) ((!) (te_leftmost b))"

text \<open>What cell \<open>(i, j)\<close> of the forest table stands for in the pass with the given spines.\<close>

definition cell_means :: "tree_arrays \<Rightarrow> tree_arrays \<Rightarrow> nat \<Rightarrow> nat \<Rightarrow> nat \<Rightarrow> nat \<Rightarrow> nat" where
  "cell_means a b sa sb i j = fd (te_forest a sa (i + (sa - 1))) (te_forest b sb (j + (sb - 1)))"

definition trees_done :: "tree_arrays \<Rightarrow> tree_arrays \<Rightarrow> (nat \<Rightarrow> nat \<Rightarrow> bool) \<Rightarrow> table \<Rightarrow> bool" where
  "trees_done a b D t \<longleftrightarrow>
     (\<forall>x y. 1 \<le> x \<and> x \<le> te_size a \<and> 1 \<le> y \<and> y \<le> te_size b \<and> D x y \<longrightarrow> cell t x y = te_dist a b x y)"

definition on_spines :: "tree_arrays \<Rightarrow> tree_arrays \<Rightarrow> nat \<Rightarrow> nat \<Rightarrow> nat \<Rightarrow> nat \<Rightarrow> bool" where
  "on_spines a b sa sb x y \<longleftrightarrow> te_leftmost a ! x = sa \<and> te_leftmost b ! y = sb"

text \<open>The invariant of the two inner loops before cell \<open>(i, j)\<close> is filled.\<close>

definition pass_inv ::
  "tree_arrays \<Rightarrow> tree_arrays \<Rightarrow> nat \<Rightarrow> nat \<Rightarrow> (nat \<Rightarrow> nat \<Rightarrow> bool) \<Rightarrow> nat \<Rightarrow> nat \<Rightarrow> table \<times> table \<Rightarrow> bool" where
  "pass_inv a b ra rb D i j x \<longleftrightarrow>
     (let sa = te_leftmost a ! ra; sb = te_leftmost b ! rb; (f, t) = x
      in dims (te_size a) (te_size b) f \<and> dims (te_size a) (te_size b) t \<and>
         (\<forall>i' j'. i' + (sa - 1) \<le> ra \<and> j' + (sb - 1) \<le> rb \<and> (i' < i \<or> i' = i \<and> j' < j \<or> j' = 0) \<longrightarrow>
            cell f i' j' = cell_means a b sa sb i' j') \<and>
         trees_done a b (\<lambda>x y. D x y \<or> on_spines a b sa sb x y \<and> (x < i + (sa - 1) \<or> x = i + (sa - 1) \<and> y < j + (sb - 1))) t)"

lemma keyroot_facts:
  assumes "arrays_ok t" "r \<in> set (te_keyroots t)"
  shows "1 \<le> r" "r \<le> te_size t" "1 \<le> te_leftmost t ! r" "te_leftmost t ! r \<le> r"
    "te_leftmost t ! r \<le> x \<Longrightarrow> x \<le> r \<Longrightarrow> te_leftmost t ! r \<le> te_leftmost t ! x"
    "x \<le> te_size t \<Longrightarrow> te_leftmost t ! x = te_leftmost t ! r \<Longrightarrow> x \<le> r"
proof -
  have po: "postorder (te_size t) ((!) (te_leftmost t))" using assms(1) by (simp add: arrays_ok_def)
  show 1: "1 \<le> r" "r \<le> te_size t" using keyroot_iff [OF assms(1)] assms(2) by auto
  show "1 \<le> te_leftmost t ! r" "te_leftmost t ! r \<le> r" using postorderD(1,2) [OF po 1] by auto
  show "te_leftmost t ! r \<le> x \<Longrightarrow> x \<le> r \<Longrightarrow> te_leftmost t ! r \<le> te_leftmost t ! x" using postorderD(3) [OF po 1] by blast
  show "x \<le> te_size t \<Longrightarrow> te_leftmost t ! x = te_leftmost t ! r \<Longrightarrow> x \<le> r"
    using keyroot_iff [OF assms(1)] assms(2) by (metis not_le)
qed

lemma if_min3: "(if r < (if d < i then d else i) then r else if d < i then d else i) = min (min d i) r" for r d i :: nat
  by (simp add: min_def)

lemma cell_step:
  assumes ok: "arrays_ok a" "arrays_ok b" and kr: "ra \<in> set (te_keyroots a)" "rb \<in> set (te_keyroots b)"
    and D: "\<And>x y. te_leftmost a ! ra \<le> x \<Longrightarrow> x \<le> ra \<Longrightarrow> te_leftmost b ! rb \<le> y \<Longrightarrow> y \<le> rb \<Longrightarrow>
              \<not> on_spines a b (te_leftmost a ! ra) (te_leftmost b ! rb) x y \<Longrightarrow> D x y"
    and ij: "1 \<le> i" "i + (te_leftmost a ! ra - 1) \<le> ra" "1 \<le> j" "j + (te_leftmost b ! rb - 1) \<le> rb"
    and inv: "pass_inv a b ra rb D i j s"
  shows "pass_inv a b ra rb D i (Suc j) (dp_cell a b (te_leftmost a ! ra) (te_leftmost b ! rb) i j s)"
proof -
  let ?sa = "te_leftmost a ! ra" and ?sb = "te_leftmost b ! rb"
  let ?x = "i + (?sa - 1)" and ?y = "j + (?sb - 1)"
  let ?lx = "te_leftmost a ! ?x" and ?ly = "te_leftmost b ! ?y"
  obtain f t where s: "s = (f, t)" by (cases s)
  note A = keyroot_facts [OF ok(1) kr(1)] and B = keyroot_facts [OF ok(2) kr(2)]
  have po: "postorder (te_size a) ((!) (te_leftmost a))" "postorder (te_size b) ((!) (te_leftmost b))"
    using ok by (simp_all add: arrays_ok_def)
  have x: "1 \<le> ?x" "?x \<le> te_size a" "?sa \<le> ?x" "?x \<le> ra" using A ij by auto
  have y: "1 \<le> ?y" "?y \<le> te_size b" "?sb \<le> ?y" "?y \<le> rb" using B ij by auto
  have lx: "?sa \<le> ?lx" "?lx \<le> ?x" using A(5) [OF x(3,4)] postorderD(2) [OF po(1) x(1,2)] by auto
  have ly: "?sb \<le> ?ly" "?ly \<le> ?y" using B(5) [OF y(3,4)] postorderD(2) [OF po(2) y(1,2)] by auto
  have dimf: "dims (te_size a) (te_size b) f" and dimt: "dims (te_size a) (te_size b) t"
    and f: "\<And>i' j'. i' + (?sa - 1) \<le> ra \<Longrightarrow> j' + (?sb - 1) \<le> rb \<Longrightarrow> i' < i \<or> i' = i \<and> j' < j \<or> j' = 0 \<Longrightarrow>
      cell f i' j' = cell_means a b ?sa ?sb i' j'"
    and t: "trees_done a b (\<lambda>x y. D x y \<or> on_spines a b ?sa ?sb x y \<and> (x < ?x \<or> x = ?x \<and> y < ?y)) t"
    using inv unfolding pass_inv_def s Let_def prod.case by blast+
  define v where "v = cell_means a b ?sa ?sb i j"
  have rule: "v = min (min (cell f (i - 1) j + 1) (cell f i (j - 1) + 1))
      (if ?lx = ?sa \<and> ?ly = ?sb then cell f (i - 1) (j - 1) + (if py_eq (te_labels a ! ?x) (te_labels b ! ?y) then 0 else 1)
       else cell f (?lx - 1 - (?sa - 1)) (?ly - 1 - (?sb - 1)) + te_dist a b ?x ?y)"
  proof -
    have e: "i - 1 + (?sa - 1) = ?x - 1" "j - 1 + (?sb - 1) = ?y - 1" "?lx - 1 - (?sa - 1) + (?sa - 1) = ?lx - 1"
      "?ly - 1 - (?sb - 1) + (?sb - 1) = ?ly - 1" using ij A(3) B(3) lx ly by auto
    have c: "cell f (i - 1) j = cell_means a b ?sa ?sb (i - 1) j" "cell f i (j - 1) = cell_means a b ?sa ?sb i (j - 1)"
      "cell f (i - 1) (j - 1) = cell_means a b ?sa ?sb (i - 1) (j - 1)"
      using ij by (intro f; auto)+
    have d: "cell f (?lx - 1 - (?sa - 1)) (?ly - 1 - (?sb - 1))
        = cell_means a b ?sa ?sb (?lx - 1 - (?sa - 1)) (?ly - 1 - (?sb - 1))"
    proof (rule f)
      show "?lx - 1 - (?sa - 1) + (?sa - 1) \<le> ra" using e(3) lx(2) x(4) by linarith
      show "?ly - 1 - (?sb - 1) + (?sb - 1) \<le> rb" using e(4) ly(2) y(4) by linarith
      have "?lx - 1 - (?sa - 1) < i" using lx(2) ij(1) by linarith
      then show "?lx - 1 - (?sa - 1) < i \<or> ?lx - 1 - (?sa - 1) = i \<and> ?ly - 1 - (?sb - 1) < j \<or> ?ly - 1 - (?sb - 1) = 0" by blast
    qed
    show ?thesis
      unfolding c d v_def cell_means_def te_forest_def te_dist_def py_eq_def e te_lab_def [symmetric]
      by (rule cell_rule [OF po(1) A(3) lx(1) x(1,2) po(2) B(3) ly(1) y(1,2)])
  qed
  have td: "v = te_dist a b ?x ?y" if "?lx = ?sa" "?ly = ?sb"
    using that by (simp add: v_def cell_means_def te_dist_def subtree_dist_def te_forest_def)
  have old: "cell t ?x ?y = te_dist a b ?x ?y" if "\<not> (?lx = ?sa \<and> ?ly = ?sb)"
  proof -
    have "D ?x ?y" using that D [OF x(3,4) y(3,4)] by (simp add: on_spines_def)
    then show ?thesis using t x y unfolding trees_done_def by blast
  qed
  have res: "dp_cell a b ?sa ?sb i j s = (put i j v f, if ?lx = ?sa \<and> ?ly = ?sb then put ?x ?y v t else t)"
  proof (cases "?lx = ?sa \<and> ?ly = ?sb")
    case True
    show ?thesis unfolding dp_cell_def s Let_def prod.case if_min3 if_P [OF True] rule [unfolded if_P [OF True], symmetric] by (rule refl)
  next
    case False
    show ?thesis
      unfolding dp_cell_def s Let_def prod.case if_min3 if_not_P [OF False] old [OF False] rule [unfolded if_not_P [OF False], symmetric]
      by (rule refl)
  qed
  have in_f: "i \<le> te_size a" "j \<le> te_size b" using x y by auto
  have cells: "cell (put i j v f) i' j' = cell_means a b ?sa ?sb i' j'"
    if "i' + (?sa - 1) \<le> ra" "j' + (?sb - 1) \<le> rb" "i' < i \<or> i' = i \<and> j' < Suc j \<or> j' = 0" for i' j'
    using that f [of i' j'] cell_put [OF dimf in_f, of v i' j'] ij(3) by (auto simp: v_def less_Suc_eq)
  have trees: "trees_done a b (\<lambda>x y. D x y \<or> on_spines a b ?sa ?sb x y \<and> (x < ?x \<or> x = ?x \<and> y < Suc j + (?sb - 1)))
      (if ?lx = ?sa \<and> ?ly = ?sb then put ?x ?y v t else t)"
    using t td cell_put [OF dimt x(2) y(2), of v] unfolding trees_done_def on_spines_def
    by (auto simp: less_Suc_eq)
  show ?thesis unfolding pass_inv_def res Let_def prod.case using dimf dimt cells trees by auto
qed

lemma row_step:
  assumes ok: "arrays_ok a" "arrays_ok b" and kr: "ra \<in> set (te_keyroots a)" "rb \<in> set (te_keyroots b)"
    and D: "\<And>x y. te_leftmost a ! ra \<le> x \<Longrightarrow> x \<le> ra \<Longrightarrow> te_leftmost b ! rb \<le> y \<Longrightarrow> y \<le> rb \<Longrightarrow>
              \<not> on_spines a b (te_leftmost a ! ra) (te_leftmost b ! rb) x y \<Longrightarrow> D x y"
    and i: "1 \<le> i" "i + (te_leftmost a ! ra - 1) \<le> ra" and inv: "pass_inv a b ra rb D i 1 s"
  defines "cols \<equiv> rb - (te_leftmost b ! rb - 1)"
  shows "pass_inv a b ra rb D (Suc i) 1 (fold (dp_cell a b (te_leftmost a ! ra) (te_leftmost b ! rb) i) [1..<cols + 1] s)"
proof -
  let ?sa = "te_leftmost a ! ra" and ?sb = "te_leftmost b ! rb" and ?s' = "fold (dp_cell a b (te_leftmost a ! ra) (te_leftmost b ! rb) i) [1..<cols + 1] s"
  note B = keyroot_facts [OF ok(2) kr(2)]
  have "pass_inv a b ra rb D i (cols + 1) ?s'"
  proof (rule fold_upt_inv [where P = "pass_inv a b ra rb D i"])
    fix j s assume "1 \<le> j" "j < cols + 1" "pass_inv a b ra rb D i j s"
    then show "pass_inv a b ra rb D i (Suc j) (dp_cell a b (te_leftmost a ! ra) ?sb i j s)"
      using B(3,4) by (intro cell_step [OF ok kr D i]) (auto simp: cols_def)
  qed (use inv in auto)
  moreover obtain f t where s': "?s' = (f, t)" by (cases ?s')
  ultimately have dimf: "dims (te_size a) (te_size b) f" and dimt: "dims (te_size a) (te_size b) t"
    and F: "\<And>i' j'. i' + (?sa - 1) \<le> ra \<Longrightarrow> j' + (?sb - 1) \<le> rb \<Longrightarrow> i' < i \<or> i' = i \<and> j' < cols + 1 \<or> j' = 0 \<Longrightarrow>
      cell f i' j' = cell_means a b ?sa ?sb i' j'"
    and T: "trees_done a b (\<lambda>x y. D x y \<or> on_spines a b ?sa ?sb x y
      \<and> (x < i + (?sa - 1) \<or> x = i + (?sa - 1) \<and> y < cols + 1 + (?sb - 1))) t"
    unfolding pass_inv_def s' Let_def prod.case by blast+
  have po: "postorder (te_size b) ((!) (te_leftmost b))" using ok by (simp add: arrays_ok_def)
  have range: "?sb \<le> y \<and> y < cols + 1 + (?sb - 1)" if "1 \<le> y" "y \<le> te_size b" "on_spines a b ?sa ?sb x y" for x y
    using B(6) [of y] postorderD(2) [OF po that(1,2)] B(3,4) that by (simp add: cols_def on_spines_def)
  show ?thesis unfolding pass_inv_def s' Let_def prod.case
  proof (intro conjI allI impI)
    fix i' j' assume "i' + (?sa - 1) \<le> ra \<and> j' + (?sb - 1) \<le> rb \<and> (i' < Suc i \<or> i' = Suc i \<and> j' < 1 \<or> j' = 0)"
    then show "cell f i' j' = cell_means a b ?sa ?sb i' j'" using B(3,4) by (intro F) (auto simp: cols_def)
  next
    have "x < i + (?sa - 1) \<or> x = i + (?sa - 1) \<and> y < cols + 1 + (?sb - 1)"
      if "1 \<le> y" "y \<le> te_size b" "on_spines a b ?sa ?sb x y" "x < Suc i + (?sa - 1) \<or> x = Suc i + (?sa - 1) \<and> y < 1 + (?sb - 1)" for x y
      using range [OF that(1,2,3)] that(4) B(3) by linarith
    then show "trees_done a b (\<lambda>x y. D x y \<or> on_spines a b ?sa ?sb x y
        \<and> (x < Suc i + (?sa - 1) \<or> x = Suc i + (?sa - 1) \<and> y < 1 + (?sb - 1))) t"
      using T unfolding trees_done_def by blast
  qed (use dimf dimt in auto)
qed

lemma pass_step:
  assumes ok: "arrays_ok a" "arrays_ok b" and kr: "ra \<in> set (te_keyroots a)" "rb \<in> set (te_keyroots b)"
    and D: "\<And>x y. te_leftmost a ! ra \<le> x \<Longrightarrow> x \<le> ra \<Longrightarrow> te_leftmost b ! rb \<le> y \<Longrightarrow> y \<le> rb \<Longrightarrow>
              \<not> on_spines a b (te_leftmost a ! ra) (te_leftmost b ! rb) x y \<Longrightarrow> D x y"
    and f: "dims (te_size a) (te_size b) f" and t: "dims (te_size a) (te_size b) t" "trees_done a b D t"
    and r: "dp_pass a b ra rb (f, t) = (f', t')"
  shows "dims (te_size a) (te_size b) f'" "dims (te_size a) (te_size b) t'"
    "trees_done a b (\<lambda>x y. D x y \<or> on_spines a b (te_leftmost a ! ra) (te_leftmost b ! rb) x y) t'"
proof -
  let ?sa = "te_leftmost a ! ra" and ?sb = "te_leftmost b ! rb"
  let ?rows = "ra - (?sa - 1)" and ?cols = "rb - (?sb - 1)"
  note A = keyroot_facts [OF ok(1) kr(1)] and B = keyroot_facts [OF ok(2) kr(2)]
  have po: "postorder (te_size a) ((!) (te_leftmost a))" "postorder (te_size b) ((!) (te_leftmost b))"
    using ok by (simp_all add: arrays_ok_def)
  have rc: "?rows \<le> te_size a" "?cols \<le> te_size b" using A(2) B(2) by auto
  note base = base_cases_ok [OF f rc]
  have fa: "fsize (te_forest a ?sa (i + (?sa - 1))) = i" if "i + (?sa - 1) \<le> ra" for i
    unfolding te_forest_def using forest_fsize [OF po(1) A(3), of "i + (?sa - 1)"] A(2,3,5) that by simp
  have fb: "fsize (te_forest b ?sb (j + (?sb - 1))) = j" if "j + (?sb - 1) \<le> rb" for j
    unfolding te_forest_def using forest_fsize [OF po(2) B(3), of "j + (?sb - 1)"] B(2,3,5) that by simp
  have empty: "te_forest a ?sa (0 + (?sa - 1)) = []" "te_forest b ?sb (0 + (?sb - 1)) = []"
    using A(3) B(3) by (simp_all add: te_forest_def)
  have "pass_inv a b ra rb D 1 1 (base_cases ?rows ?cols f, t)"
    unfolding pass_inv_def Let_def prod.case
  proof (intro conjI allI impI)
    fix i j assume h: "i + (?sa - 1) \<le> ra \<and> j + (?sb - 1) \<le> rb \<and> (i < 1 \<or> i = 1 \<and> j < 1 \<or> j = 0)"
    then consider "i = 0" "j \<le> ?cols" | "j = 0" "i \<le> ?rows" using A(3,4) B(3,4) by linarith
    then show "cell (base_cases ?rows ?cols f) i j = cell_means a b ?sa ?sb i j"
    proof cases
      case 1
      then show ?thesis using base(3) fb [of j] empty h by (simp add: cell_means_def)
    next
      case 2
      then show ?thesis using base(2) fa [of i] empty h by (simp add: cell_means_def)
    qed
  next
    have "\<not> (x < 1 + (?sa - 1) \<or> x = 1 + (?sa - 1) \<and> y < 1 + (?sb - 1))" if "on_spines a b ?sa ?sb x y"
      "1 \<le> x" "x \<le> te_size a" "1 \<le> y" "y \<le> te_size b" for x y
      using postorderD(2) [OF po(1) that(2,3)] postorderD(2) [OF po(2) that(4,5)] that(1) A(3) B(3) by (auto simp: on_spines_def)
    then show "trees_done a b (\<lambda>x y. D x y \<or> on_spines a b ?sa ?sb x y \<and> (x < 1 + (?sa - 1) \<or> x = 1 + (?sa - 1) \<and> y < 1 + (?sb - 1))) t"
      using t(2) unfolding trees_done_def by blast
  qed (use base(1) t(1) in auto)
  then have "pass_inv a b ra rb D (?rows + 1) 1 (f', t')"
    unfolding r [symmetric] dp_pass_def Let_def prod.case
  proof (rule fold_upt_inv [where P = "\<lambda>i. pass_inv a b ra rb D i 1"])
    fix i s assume "1 \<le> i" "i < ?rows + 1" "pass_inv a b ra rb D i 1 s"
    then show "pass_inv a b ra rb D (Suc i) 1 (fold (dp_cell a b ?sa ?sb i) [1..<?cols + 1] s)"
      using A(3,4) by (intro row_step [OF ok kr D]) auto
  qed auto
  moreover have "x < ?rows + 1 + (?sa - 1)" if "x \<le> te_size a" "te_leftmost a ! x = ?sa" for x
    using A(6) [OF that] A(3,4) by simp
  ultimately show "dims (te_size a) (te_size b) f'" "dims (te_size a) (te_size b) t'"
    "trees_done a b (\<lambda>x y. D x y \<or> on_spines a b ?sa ?sb x y) t'"
    unfolding pass_inv_def Let_def prod.case trees_done_def on_spines_def by auto
qed

section \<open>All passes\<close>

lemma earlier_in_prefix:
  "sorted_wrt (<) ks \<Longrightarrow> ks = xs @ r # ys \<Longrightarrow> k \<in> set ks \<Longrightarrow> k < r \<Longrightarrow> k \<in> set xs" for k r :: nat
  by (auto simp: sorted_wrt_append)

definition covered :: "tree_arrays \<Rightarrow> nat list \<Rightarrow> nat \<Rightarrow> bool" where
  "covered t ks x \<longleftrightarrow> te_leftmost t ! x \<in> (!) (te_leftmost t) ` set ks"

definition tables_inv :: "tree_arrays \<Rightarrow> tree_arrays \<Rightarrow> (nat \<Rightarrow> nat \<Rightarrow> bool) \<Rightarrow> table \<times> table \<Rightarrow> bool" where
  "tables_inv a b D x \<longleftrightarrow> dims (te_size a) (te_size b) (fst x) \<and> dims (te_size a) (te_size b) (snd x) \<and> trees_done a b D (snd x)"

lemma inner_step:
  assumes ok: "arrays_ok a" "arrays_ok b" and ka: "te_keyroots a = xs @ ra # xs'" and kb: "te_keyroots b = ys @ rb # ys'"
    and inv: "tables_inv a b (\<lambda>x y. covered a xs x \<or> te_leftmost a ! x = te_leftmost a ! ra \<and> covered b ys y) s"
  shows "tables_inv a b (\<lambda>x y. covered a xs x \<or> te_leftmost a ! x = te_leftmost a ! ra \<and> covered b (ys @ [rb]) y) (dp_pass a b ra rb s)"
proof -
  have kr: "ra \<in> set (te_keyroots a)" "rb \<in> set (te_keyroots b)" using ka kb by auto
  have D: "covered a xs x \<or> te_leftmost a ! x = te_leftmost a ! ra \<and> covered b ys y"
    if h: "te_leftmost a ! ra \<le> x" "x \<le> ra" "te_leftmost b ! rb \<le> y" "y \<le> rb"
      "\<not> on_spines a b (te_leftmost a ! ra) (te_leftmost b ! rb) x y" for x y
  proof (cases "te_leftmost a ! x = te_leftmost a ! ra")
    case True
    then have "te_leftmost b ! y \<noteq> te_leftmost b ! rb" using h(5) by (simp add: on_spines_def)
    then obtain k where "k \<in> set (te_keyroots b)" "te_leftmost b ! k = te_leftmost b ! y" "k < rb"
      using off_spine_earlier [OF ok(2) kr(2) h(3,4)] by blast
    then have "covered b ys y"
      using earlier_in_prefix [OF keyroots_ascending [OF ok(2)] kb] by (metis covered_def imageI)
    then show ?thesis using True by blast
  next
    case False
    then obtain k where "k \<in> set (te_keyroots a)" "te_leftmost a ! k = te_leftmost a ! x" "k < ra"
      using off_spine_earlier [OF ok(1) kr(1) h(1,2)] by blast
    then have "covered a xs x"
      using earlier_in_prefix [OF keyroots_ascending [OF ok(1)] ka] by (metis covered_def imageI)
    then show ?thesis by blast
  qed
  obtain f t f' t' where s: "s = (f, t)" and r: "dp_pass a b ra rb (f, t) = (f', t')" by (metis surj_pair)
  have i: "dims (te_size a) (te_size b) f" "dims (te_size a) (te_size b) t"
    "trees_done a b (\<lambda>x y. covered a xs x \<or> te_leftmost a ! x = te_leftmost a ! ra \<and> covered b ys y) t"
    using inv by (simp_all add: tables_inv_def s)
  note p = pass_step [OF ok kr D i r]
  have "(covered a xs x \<or> te_leftmost a ! x = te_leftmost a ! ra \<and> covered b (ys @ [rb]) y)
      = ((covered a xs x \<or> te_leftmost a ! x = te_leftmost a ! ra \<and> covered b ys y)
         \<or> on_spines a b (te_leftmost a ! ra) (te_leftmost b ! rb) x y)" for x y
    by (auto simp: covered_def on_spines_def)
  then show ?thesis using p by (simp add: tables_inv_def s r)
qed

lemma outer_step:
  assumes ok: "arrays_ok a" "arrays_ok b" and ka: "te_keyroots a = xs @ ra # xs'"
    and inv: "tables_inv a b (\<lambda>x y. covered a xs x) s"
  shows "tables_inv a b (\<lambda>x y. covered a (xs @ [ra]) x) (fold (dp_pass a b ra) (te_keyroots b) s)"
proof -
  let ?P = "\<lambda>ys. tables_inv a b (\<lambda>x y. covered a xs x \<or> te_leftmost a ! x = te_leftmost a ! ra \<and> covered b ys y)"
  have "?P (te_keyroots b) (fold (dp_pass a b ra) (te_keyroots b) s)"
    by (rule fold_list_inv [where P = ?P]) (use inv inner_step [OF ok ka] in \<open>auto simp: covered_def\<close>)
  moreover have "covered b (te_keyroots b) y" if "1 \<le> y" "y \<le> te_size b" for y
    using keyroot_covers [OF ok(2) that] by (metis covered_def image_eqI)
  ultimately show ?thesis unfolding tables_inv_def trees_done_def by (auto simp: covered_def)
qed

lemma distance_of_arrays:
  assumes ok: "arrays_ok a" "arrays_ok b" and pos: "te_size a \<noteq> 0" "te_size b \<noteq> 0"
  shows "tree_edit_distance a b = te_dist a b (te_size a) (te_size b)"
proof -
  let ?zero = "replicate (te_size a + 1) (replicate (te_size b + 1) 0)"
  let ?s = "fold (\<lambda>root_a. fold (dp_pass a b root_a) (te_keyroots b)) (te_keyroots a) (?zero, ?zero)"
  have "dims (te_size a) (te_size b) ?zero" by (simp add: dims_def del: replicate_Suc)
  then have "tables_inv a b (\<lambda>x y. covered a [] x) (?zero, ?zero)"
    by (simp add: tables_inv_def trees_done_def covered_def del: replicate_Suc)
  then have "tables_inv a b (\<lambda>x y. covered a (te_keyroots a) x) ?s"
    by (rule fold_list_inv [where P = "\<lambda>xs. tables_inv a b (\<lambda>x y. covered a xs x)"]) (use outer_step [OF ok] in auto)
  moreover have "covered a (te_keyroots a) (te_size a)"
    using keyroot_covers [OF ok(1), of "te_size a"] pos(1) by (metis covered_def image_eqI less_one not_le order_refl)
  ultimately have "cell (snd ?s) (te_size a) (te_size b) = te_dist a b (te_size a) (te_size b)"
    using pos unfolding tables_inv_def trees_done_def by auto
  then show ?thesis using pos unfolding tree_edit_distance_def Let_def by (simp add: split_def del: replicate_Suc)
qed

end
