(* ===== verification/Tree_Distance.thy ===== *)
theory Tree_Distance
  imports Tree_Edit
begin

text \<open>
  Correctness of tree edit distance: what the parser of \<^verbatim>\<open>src/app/eval/ted.py\<close> makes of an object, and that the
  score of two objects carries the least number of edits between the documents they stand for.
\<close>

section \<open>The document an object stands for\<close>

function to_docs :: "string \<Rightarrow> string \<Rightarrow> json list \<Rightarrow> exc + json doc list" where
  "to_docs lk ck [] = Inr []"
| "to_docs lk ck (n # ns) =
     (case children_of ck n of
        Inl e \<Rightarrow> Inl e
      | Inr cs \<Rightarrow>
          sum_bind (to_docs lk ck cs) (\<lambda>ds. sum_bind (label_of lk n) (\<lambda>l.
            sum_bind (to_docs lk ck ns) (\<lambda>ts. Inr (Node l ds # ts)))))"
  by pat_completeness auto
termination by (relation "measure (\<lambda>(_, _, ns). size_list size ns)") (use children_smaller in fastforce)+

fun post :: "'l doc list \<Rightarrow> 'l list" where
  "post [] = []"
| "post (Node a cs # ts) = post cs @ a # post ts"

fun lefts :: "nat \<Rightarrow> 'l doc list \<Rightarrow> nat list" where
  "lefts b [] = []"
| "lefts b (Node a cs # ts) = lefts b cs @ b # lefts (b + fsize cs + 1) ts"

fun height :: "nat \<Rightarrow> 'l doc list \<Rightarrow> nat" where
  "height d [] = 0"
| "height d (Node a cs # ts) = max (max d (height (d + 1) cs)) (height d ts)"

lemma length_post [simp]: "length (post F) = fsize F"
  by (induction F rule: post.induct) auto

lemma length_lefts [simp]: "length (lefts b F) = fsize F"
  by (induction b F rule: lefts.induct) auto

text \<open>The stack machine walks a list of siblings as the recursion does.\<close>

lemma parse_loop_docs:
  "parse_loop lk ck (map (\<lambda>c. (c, False, 0, d)) ns @ st) labels leftmost md =
     (case to_docs lk ck ns of
        Inl e \<Rightarrow> Inl e
      | Inr ds \<Rightarrow> parse_loop lk ck st (labels @ post ds) (leftmost @ lefts (length labels) ds) (max md (height d ds)))"
proof (induction lk ck ns arbitrary: d st labels leftmost md rule: to_docs.induct)
  case (2 lk ck n ns)
  show ?case
  proof (cases "children_of ck n")
    case (Inr cs)
    note IH = "2.IH"(1) [OF Inr, of "d + 1" "(n, True, length labels, d) # map (\<lambda>c. (c, False, 0, d)) ns @ st" labels leftmost "max md d"]
    show ?thesis
    proof (cases "to_docs lk ck cs")
      case ds: (Inr ds)
      show ?thesis
      proof (cases "label_of lk n")
        case l: (Inr l)
        note IH2 = "2.IH"(2) [OF Inr, of d st "labels @ post ds @ [l]" "leftmost @ lefts (length labels) ds @ [length labels]"
            "max (max md d) (height (d + 1) ds)"]
        show ?thesis
          using IH IH2 Inr ds l
          by (auto simp: sum_bind_def max.assoc max.left_commute split: sum.splits)
      qed (use IH Inr ds in \<open>simp add: sum_bind_def\<close>)
    qed (use IH Inr in \<open>simp add: sum_bind_def\<close>)
  qed simp
qed simp

lemma parse_tree_eq:
  "parse_tree lk ck docroot =
     (case docroot of
        None \<Rightarrow> Inr \<lparr>te_labels = [JNull], te_leftmost = [0], te_keyroots = [], te_depth = 0\<rparr>
      | Some node \<Rightarrow>
          sum_bind (to_docs lk ck [node]) (\<lambda>F.
            Inr \<lparr>te_labels = JNull # post F, te_leftmost = 0 # lefts 1 F, te_keyroots = keyroots_of (0 # lefts 1 F),
                 te_depth = height 1 F\<rparr>))"
  using parse_loop_docs [of lk ck 1 "[the docroot]" "[]" "[JNull]" "[0]" 0]
  by (auto simp: parse_tree_def sum_bind_def split: option.splits sum.splits simp del: to_docs.simps)

section \<open>The arrays are a postorder numbering\<close>

lemma lefts_bounds: "i < fsize F \<Longrightarrow> b \<le> lefts b F ! i \<and> lefts b F ! i \<le> b + i"
proof (induction b F arbitrary: i rule: lefts.induct)
  case (2 b a cs ts)
  consider "i < fsize cs" | "i = fsize cs" | "fsize cs < i" by linarith
  then show ?case
  proof cases
    case 1
    then show ?thesis using "2.IH"(1) [of i] by (simp add: nth_append)
  next
    case 2
    then show ?thesis by (simp add: nth_append)
  next
    case 3
    have "i - fsize cs - 1 < fsize ts" using 3 "2.prems" by simp
    then show ?thesis using "2.IH"(2) [of "i - fsize cs - 1"] 3 by (simp add: nth_append nth_Cons')
  qed
qed simp

lemma lefts_nested:
  "i < fsize F \<Longrightarrow> k \<le> i \<Longrightarrow> lefts b F ! i \<le> b + k \<Longrightarrow> lefts b F ! i \<le> lefts b F ! k"
proof (induction b F arbitrary: i k rule: lefts.induct)
  case (2 b a cs ts)
  consider "i < fsize cs" | "i = fsize cs" | "fsize cs < i" by linarith
  then show ?case
  proof cases
    case 1
    then show ?thesis using "2.IH"(1) [of i k] "2.prems" by (simp add: nth_append)
  next
    case 2
    then show ?thesis using lefts_bounds [of k cs b] "2.prems" by (cases "k = i") (auto simp: nth_append)
  next
    case 3
    have i: "lefts b (Node a cs # ts) ! i = lefts (b + fsize cs + 1) ts ! (i - fsize cs - 1)"
      using 3 by (simp add: nth_append nth_Cons')
    have "i - fsize cs - 1 < fsize ts" using 3 "2.prems"(1) by simp
    then have "b + fsize cs + 1 \<le> b + k" using lefts_bounds [of "i - fsize cs - 1" ts "b + fsize cs + 1"] "2.prems"(3) i by linarith
    then show ?thesis using "2.IH"(2) [of "i - fsize cs - 1" "k - fsize cs - 1"] "2.prems" 3
      by (auto simp: nth_append nth_Cons')
  qed
qed simp

lemma lefts_postorder: "postorder (fsize F) ((!) (0 # lefts 1 F))"
proof -
  have "1 \<le> (0 # lefts 1 F) ! k \<and> (0 # lefts 1 F) ! k \<le> k" if "1 \<le> k" "k \<le> fsize F" for k
    using lefts_bounds [of "k - 1" F 1] that by (simp add: nth_Cons')
  moreover have "(0 # lefts 1 F) ! i \<le> (0 # lefts 1 F) ! k"
    if "i \<le> fsize F" "(0 # lefts 1 F) ! i \<le> k" "k \<le> i" "1 \<le> i" for i k
  proof (cases k)
    case 0
    then show ?thesis using lefts_bounds [of "i - 1" F 1] that by (simp add: nth_Cons')
  next
    case (Suc j)
    then show ?thesis using lefts_nested [of "i - 1" F j 1] that by (simp add: nth_Cons')
  qed
  ultimately show ?thesis unfolding postorder_def by blast
qed

lemma lefts_snoc: "lefts b (F @ [Node a cs]) = lefts b F @ lefts (b + fsize F) cs @ [b + fsize F]"
  by (induction b F rule: lefts.induct) (auto simp: add.assoc add.left_commute)

lemma post_append: "post (F @ G) = post F @ post G"
  by (induction F rule: post.induct) auto

lemma forest_of_post:
  assumes "postorder n left" "1 \<le> b" "b + fsize F \<le> n + 1"
    and "\<And>i. i < fsize F \<Longrightarrow> left (b + i) = lefts b F ! i" and "\<And>i. i < fsize F \<Longrightarrow> lab (b + i) = post F ! i"
  shows "forest_of lab left b (b + fsize F - 1) = F"
  using assms(2-5)
proof (induction "fsize F" arbitrary: F b rule: less_induct)
  case less
  show ?case
  proof (cases F rule: forest_snoc)
    case Nil
    then show ?thesis using less.prems(1) by simp
  next
    case (snoc A a cs)
    let ?i = "b + fsize F - 1"
    have sz: "fsize F = fsize A + fsize cs + 1" using snoc by simp
    have li: "left ?i = b + fsize A" and ai: "lab ?i = a"
      using less.prems(3) [of "fsize F - 1"] less.prems(4) [of "fsize F - 1"] snoc
      by (simp_all add: lefts_snoc post_append nth_append)
    have A: "forest_of lab left b (b + fsize A - 1) = A"
    proof (rule less.hyps)
      show "left (b + i) = lefts b A ! i" "lab (b + i) = post A ! i" if "i < fsize A" for i
        using less.prems(3,4) [of i] that snoc by (simp_all add: lefts_snoc post_append nth_append)
    qed (use less.prems sz in auto)
    have C: "forest_of lab left (b + fsize A) (b + fsize A + fsize cs - 1) = cs"
    proof (rule less.hyps)
      show "left (b + fsize A + i) = lefts (b + fsize A) cs ! i" "lab (b + fsize A + i) = post cs ! i" if "i < fsize cs" for i
        using less.prems(3,4) [of "fsize A + i"] that snoc by (simp_all add: lefts_snoc post_append nth_append add.assoc)
    qed (use less.prems sz in auto)
    have "b \<le> ?i" "?i \<le> n" using less.prems(1,2) sz by auto
    then have "forest_of lab left b ?i = forest_of lab left b (left ?i - 1) @ [Node (lab ?i) (forest_of lab left (left ?i) (?i - 1))]"
      by (rule forest_last [OF assms(1) less.prems(1)])
    moreover have "?i - 1 = b + fsize A + fsize cs - 1" using sz by simp
    ultimately show ?thesis using A C li ai snoc by (simp del: fsize_append)
  qed
qed

section \<open>The score is the least number of edits\<close>

definition arrays_of :: "json doc list \<Rightarrow> nat \<Rightarrow> tree_arrays" where
  "arrays_of F d = \<lparr>te_labels = JNull # post F, te_leftmost = 0 # lefts 1 F, te_keyroots = keyroots_of (0 # lefts 1 F), te_depth = d\<rparr>"

lemma arrays_of_ok: "arrays_ok (arrays_of F d)" and arrays_of_size: "te_size (arrays_of F d) = fsize F"
  using lefts_postorder [of F] by (simp_all add: arrays_ok_def arrays_of_def te_size_def)

lemma fsize_map: "fsize (map (map_doc f) F) = fsize F"
  by (induction F rule: fsize.induct) auto

lemma post_map: "post (map (map_doc f) F) = map f (post F)"
  by (induction F rule: post.induct) auto

lemma lefts_map: "lefts b (map (map_doc f) F) = lefts b F"
  by (induction b F rule: lefts.induct) (auto simp: fsize_map)

lemma arrays_forest:
  assumes "F = [Node l cs]"
  shows "te_forest (arrays_of F d) (te_leftmost (arrays_of F d) ! fsize F) (fsize F) = map (map_doc py_norm) F"
proof -
  let ?G = "map (map_doc py_norm) F"
  have "forest_of (te_lab (arrays_of F d)) ((!) (te_leftmost (arrays_of F d))) 1 (1 + fsize ?G - 1) = ?G"
  proof (rule forest_of_post)
    show "postorder (fsize F) ((!) (te_leftmost (arrays_of F d)))" using lefts_postorder [of F] by (simp add: arrays_of_def)
    show "te_leftmost (arrays_of F d) ! (1 + i) = lefts 1 ?G ! i" for i by (simp add: arrays_of_def lefts_map)
    show "te_lab (arrays_of F d) (1 + i) = post ?G ! i" if "i < fsize ?G" for i
      using that by (simp add: te_lab_def arrays_of_def post_map fsize_map)
  qed (simp_all add: fsize_map)
  moreover have "te_leftmost (arrays_of F d) ! fsize F = 1" using assms by (simp add: arrays_of_def nth_append)
  ultimately show ?thesis by (simp add: te_forest_def fsize_map)
qed

text \<open>The documents on the two sides, labels up to Python's equality; \<^const>\<open>None\<close> is the empty one.\<close>

definition document :: "string \<Rightarrow> string \<Rightarrow> json option \<Rightarrow> exc + json doc list" where
  "document lk ck docroot =
     (case docroot of None \<Rightarrow> Inr [] | Some node \<Rightarrow> sum_bind (to_docs lk ck [node]) (\<lambda>F. Inr (map (map_doc py_norm) F)))"

definition edit_distance :: "'l doc list \<Rightarrow> 'l doc list \<Rightarrow> nat" where
  "edit_distance F G = (LEAST n. (edit1 ^^ n) F G)"

lemma to_docs_single: "to_docs lk ck [n] = Inr F \<Longrightarrow> \<exists>l cs. F = [Node l cs]"
  by (auto simp: sum_bind_def split: sum.splits)

lemma parse_document:
  "(\<exists>e. parse_tree lk ck r = Inl e \<and> document lk ck r = Inl e) \<or>
   (\<exists>a F. parse_tree lk ck r = Inr a \<and> document lk ck r = Inr F \<and> arrays_ok a \<and> te_size a = fsize F \<and>
      (F = [] \<or> te_forest a (te_leftmost a ! te_size a) (te_size a) = F))"
proof (cases r)
  case None
  then show ?thesis
    by (auto simp: parse_tree_def document_def arrays_ok_def te_size_def postorder_def keyroots_of_eq)
next
  case (Some n)
  show ?thesis
  proof (cases "to_docs lk ck [n]")
    case (Inl e)
    then show ?thesis using Some by (simp add: parse_tree_eq document_def sum_bind_def del: to_docs.simps)
  next
    case (Inr F)
    then obtain l cs where F: "F = [Node l cs]" using to_docs_single by blast
    have p: "parse_tree lk ck r = Inr (arrays_of F (height 1 F))"
      using Some Inr by (simp add: parse_tree_eq sum_bind_def arrays_of_def del: to_docs.simps)
    have d: "document lk ck r = Inr (map (map_doc py_norm) F)" using Some Inr by (simp add: document_def sum_bind_def del: to_docs.simps)
    show ?thesis using p d arrays_of_ok arrays_of_size arrays_forest [OF F] by (auto simp: fsize_map)
  qed
qed

lemma distance_of_documents:
  assumes "parse_tree lk ck p = Inr a" "parse_tree lk ck t = Inr b" "document lk ck p = Inr F" "document lk ck t = Inr G"
  shows "tree_edit_distance a b = edit_distance F G" "te_size a = fsize F" "te_size b = fsize G"
proof -
  have A: "arrays_ok a" "te_size a = fsize F" "F = [] \<or> te_forest a (te_leftmost a ! te_size a) (te_size a) = F"
    using parse_document [of lk ck p] assms(1,3) by auto
  have B: "arrays_ok b" "te_size b = fsize G" "G = [] \<or> te_forest b (te_leftmost b ! te_size b) (te_size b) = G"
    using parse_document [of lk ck t] assms(2,4) by auto
  show "te_size a = fsize F" "te_size b = fsize G" by (fact A(2) B(2))+
  show "tree_edit_distance a b = edit_distance F G"
  proof (cases "F = [] \<or> G = []")
    case True
    then show ?thesis using A B unfolding tree_edit_distance_def Let_def edit_distance_def fd_is_least [symmetric] by auto
  next
    case False
    then have "tree_edit_distance a b = te_dist a b (te_size a) (te_size b)" using A B by (intro distance_of_arrays) auto
    also have "\<dots> = fd F G" using False A(3) B(3) by (simp add: te_dist_def subtree_dist_def te_forest_def)
    finally show ?thesis by (simp add: edit_distance_def fd_is_least)
  qed
qed

text \<open>
  C24. The score carries the least number of edits. For any two objects, empty or not, the score is
  refused exactly when one of them is not a tree, and otherwise its distance is the least number
  of node insertions, deletions and relabellings that turn one document into the other, and its
  sizes are the numbers of their nodes.
\<close>

theorem tree_score_is_least_edits:
  "tree_score_of lk ck predicted truth =
     sum_bind (document lk ck predicted) (\<lambda>P. sum_bind (document lk ck truth) (\<lambda>T.
       Inr \<lparr>tsc_distance = (LEAST n. (edit1 ^^ n) P T), tsc_truth_nodes = fsize T, tsc_predicted_nodes = fsize P\<rparr>))"
proof (cases "document lk ck predicted")
  case (Inl e)
  then show ?thesis using parse_document [of lk ck predicted] by (auto simp: tree_score_of_def sum_bind_def)
next
  case P: (Inr P)
  then obtain a where a: "parse_tree lk ck predicted = Inr a" using parse_document [of lk ck predicted] by auto
  show ?thesis
  proof (cases "document lk ck truth")
    case (Inl e)
    then show ?thesis using P a parse_document [of lk ck truth] by (auto simp: tree_score_of_def sum_bind_def)
  next
    case T: (Inr T)
    then obtain b where b: "parse_tree lk ck truth = Inr b" using parse_document [of lk ck truth] by auto
    show ?thesis
      using distance_of_documents [OF a b P T] P T a b by (simp add: tree_score_of_def sum_bind_def edit_distance_def)
  qed
qed

text \<open>
  The distance between parsed documents is a metric: zero on equal documents, symmetric, subject
  to the triangle inequality, at least the difference of the sizes and at most their sum.
\<close>

theorem tree_distance_is_metric:
  assumes "parse_tree lk ck p = Inr a" "parse_tree lk ck q = Inr b" "parse_tree lk ck r = Inr c"
  shows "tree_edit_distance a a = 0 \<and> tree_edit_distance a b = tree_edit_distance b a \<and>
         tree_edit_distance a c \<le> tree_edit_distance a b + tree_edit_distance b c \<and>
         te_size a \<le> te_size b + tree_edit_distance a b \<and> tree_edit_distance a b \<le> te_size a + te_size b"
proof -
  obtain F G H where d: "document lk ck p = Inr F" "document lk ck q = Inr G" "document lk ck r = Inr H"
    using parse_document [of lk ck p] parse_document [of lk ck q] parse_document [of lk ck r] assms by auto
  note e = edit_distance_def fd_is_least [symmetric]
  show ?thesis
    using distance_of_documents [OF assms(1,1) d(1,1)] distance_of_documents [OF assms(1,2) d(1,2)]
      distance_of_documents [OF assms(2,1) d(2,1)] distance_of_documents [OF assms(2,3) d(2,3)]
      distance_of_documents [OF assms(1,3) d(1,3)] fd_self [of F] fd_sym [of F G] fd_triangle [of F H G]
      fsize_le_fd [of F G] fd_le_sizes [of F G]
    unfolding e by simp
qed

section \<open>The work\<close>

text \<open>How many cells the passes fill, and that it is the product the endpoint refuses on.\<close>

definition cells_filled :: "tree_arrays \<Rightarrow> tree_arrays \<Rightarrow> nat" where
  "cells_filled a b =
     sum_list (map (\<lambda>ra. sum_list (map (\<lambda>rb.
       (ra - (te_leftmost a ! ra - 1)) * (rb - (te_leftmost b ! rb - 1))) (te_keyroots b))) (te_keyroots a))"

lemma cells_filled_product:
  assumes "arrays_ok a" "arrays_ok b"
  shows "cells_filled a b = keyroot_weight a * keyroot_weight b"
proof -
  have w: "keyroot_weight t = sum_list (map (\<lambda>k. k - (te_leftmost t ! k - 1)) (te_keyroots t))" if "arrays_ok t" for t
    unfolding keyroot_weight_def
    by (intro arg_cong [where f = sum_list] map_cong refl) (use keyroot_facts(3,4) [OF that] in fastforce)
  have "sum_list (map (\<lambda>x. sum_list (map (\<lambda>y. f x * g y) ys)) xs) = sum_list (map f xs) * sum_list (map g ys)"
    for f g :: "nat \<Rightarrow> nat" and xs ys
    by (induction xs) (simp_all add: sum_list_const_mult algebra_simps)
  then show ?thesis unfolding cells_filled_def w [OF assms(1)] w [OF assms(2)] .
qed

section \<open>Normalisation\<close>

definition chain3 :: json where
  "chain3 = JObj [(''type'', JStr ''a''), (''children'', JArr [JObj [(''type'', JStr ''b''), (''children'', JArr [JStr ''c''])]])]"

definition star3 :: json where
  "star3 = JObj [(''type'', JStr ''x''), (''children'', JArr [JStr ''y'', JStr ''z''])]"

lemma chain3_parsed: "parse_tree ''type'' ''children'' (Some chain3)
    = Inr \<lparr>te_labels = [JNull, JStr ''c'', JStr ''b'', JStr ''a''], te_leftmost = [0, 1, 1, 1], te_keyroots = [3], te_depth = 3\<rparr>"
  by (simp add: parse_tree_def chain3_def sum_bind_def keyroots_of_def upt_rec)

lemma star3_parsed: "parse_tree ''type'' ''children'' (Some star3)
    = Inr \<lparr>te_labels = [JNull, JStr ''y'', JStr ''z'', JStr ''x''], te_leftmost = [0, 1, 2, 1], te_keyroots = [2, 3], te_depth = 2\<rparr>"
  by (simp add: parse_tree_def star3_def sum_bind_def keyroots_of_def upt_rec)

lemma chain3_star3:
  "tree_edit_distance
     \<lparr>te_labels = [JNull, JStr ''c'', JStr ''b'', JStr ''a''], te_leftmost = [0, 1, 1, 1], te_keyroots = [3], te_depth = 3\<rparr>
     \<lparr>te_labels = [JNull, JStr ''y'', JStr ''z'', JStr ''x''], te_leftmost = [0, 1, 2, 1], te_keyroots = [2, 3], te_depth = 2\<rparr> = 4"
  by code_simp

text \<open>
  The normalised score is not confined to the unit interval: a chain and a star of three nodes each
  are four edits apart.
\<close>

theorem normalised_above_one:
  "\<exists>s. tree_score_of ''type'' ''children'' (Some chain3) (Some star3) = Inr s \<and> tsc_distance s = 4 \<and> normalised s > 1"
  unfolding tree_score_of_def chain3_parsed star3_parsed sum_bind_def sum.case chain3_star3 by (simp add: normalised_def te_size_def)

end
