(* ===== verification/Text_Metrics.thy ===== *)
theory Text_Metrics
  imports Orch_Prelude
begin

text \<open>
  Character and word error rates, \<^verbatim>\<open>src/app/eval/text.py\<close>. A text is a list of code points. What
  \<^verbatim>\<open>unicodedata\<close> says of a code point is the parameter \<open>unicode\<close>: whether its category is a mark,
  its canonical combining class, and whether \<^verbatim>\<open>str.split\<close> treats it as white space. A rate is an
  option, \<^const>\<open>None\<close> standing for \<^verbatim>\<open>float("inf")\<close>.

  The two-row computation of the edit distance is proved equal to the recursive definition, and
  that to the least cost of an edit script.
\<close>

section \<open>Segmentation\<close>

type_synonym codepoint = nat

record unicode =
  uc_mark :: "codepoint \<Rightarrow> bool"
  uc_combining :: "codepoint \<Rightarrow> nat"
  uc_space :: "codepoint \<Rightarrow> bool"

definition ZWJ :: codepoint where "ZWJ = 8205"
definition ZWNJ :: codepoint where "ZWNJ = 8204"
definition VIRAMA_COMBINING_CLASS :: nat where "VIRAMA_COMBINING_CLASS = 9"

definition joins_following :: "unicode \<Rightarrow> codepoint \<Rightarrow> bool" where
  "joins_following u ch \<longleftrightarrow> ch = ZWJ \<or> uc_combining u ch = VIRAMA_COMBINING_CLASS"

text \<open>One round of the loop, on the clusters so far and the flag \<^verbatim>\<open>join_next\<close>.\<close>

definition grapheme_step ::
  "unicode \<Rightarrow> codepoint \<Rightarrow> codepoint list list \<times> bool \<Rightarrow> codepoint list list \<times> bool" where
  "grapheme_step u ch = (\<lambda>(clusters, join_next).
     (if clusters \<noteq> [] \<and> (join_next \<or> ch = ZWJ \<or> ch = ZWNJ \<or> uc_mark u ch)
      then butlast clusters @ [last clusters @ [ch]]
      else clusters @ [[ch]],
      joins_following u ch))"

definition graphemes :: "unicode \<Rightarrow> codepoint list \<Rightarrow> codepoint list list" where
  "graphemes u text = fst (fold (grapheme_step u) text ([], False))"

text \<open>\<^verbatim>\<open>text.split()\<close>: the maximal runs of code points that are no white space.\<close>

function words :: "unicode \<Rightarrow> codepoint list \<Rightarrow> codepoint list list" where
  "words u text =
     (let rest = dropWhile (uc_space u) text
      in if rest = [] then []
         else takeWhile (\<lambda>c. \<not> uc_space u c) rest # words u (dropWhile (\<lambda>c. \<not> uc_space u c) rest))"
  by pat_completeness auto

termination
proof (relation "measure (length \<circ> snd)", simp)
  fix u :: unicode and xs rest
  assume rest: "rest = dropWhile (uc_space u) xs" and "rest \<noteq> []"
  then have "\<not> uc_space u (hd rest)" using hd_dropWhile by blast
  with \<open>rest \<noteq> []\<close> have "length (dropWhile (\<lambda>c. \<not> uc_space u c) rest) < length rest"
    by (cases rest) (simp_all add: length_dropWhile_le le_imp_less_Suc)
  also have "\<dots> \<le> length xs" by (simp add: rest length_dropWhile_le)
  finally show "((u, dropWhile (\<lambda>c. \<not> uc_space u c) rest), (u, xs)) \<in> measure (length \<circ> snd)" by simp
qed

declare words.simps [simp del]

datatype seg_unit = grapheme | codepoint_unit

definition units :: "unicode \<Rightarrow> codepoint list \<Rightarrow> seg_unit \<Rightarrow> codepoint list list" where
  "units u text un = (case un of grapheme \<Rightarrow> graphemes u text | codepoint_unit \<Rightarrow> map (\<lambda>c. [c]) text)"

section \<open>The edit distance\<close>

text \<open>
  The inner loop: the entries of the current row after the first, given the previous row, the
  unit of the reference and what is left of the hypothesis. \<open>lft\<close> is \<^verbatim>\<open>current[j - 1]\<close>.
\<close>

fun lev_row :: "'a \<Rightarrow> 'a list \<Rightarrow> nat list \<Rightarrow> nat \<Rightarrow> nat list" where
  "lev_row r (h # hs) (diag # up # prev) lft =
     (let v = min (min (up + 1) (lft + 1)) (diag + (if r \<noteq> h then 1 else 0))
      in v # lev_row r hs (up # prev) v)"
| "lev_row r _ _ lft = []"

fun lev_rows :: "nat \<Rightarrow> 'a list \<Rightarrow> 'a list \<Rightarrow> nat list \<Rightarrow> nat list" where
  "lev_rows i [] hyp prev = prev"
| "lev_rows i (r # rs) hyp prev = lev_rows (i + 1) rs hyp (i # lev_row r hyp prev i)"

definition levenshtein :: "'a list \<Rightarrow> 'a list \<Rightarrow> nat" where
  "levenshtein reference hypothesis =
     (let (ref, hyp) = (if length reference < length hypothesis then (hypothesis, reference)
                        else (reference, hypothesis))
      in if hyp = [] then length ref
         else last (lev_rows 1 ref hyp [0..<length hyp + 1]))"

section \<open>Scores\<close>

record text_score =
  ts_errors :: nat
  ts_length :: nat
  ts_unit :: string

definition text_rate :: "text_score \<Rightarrow> real option" where
  "text_rate s =
     (if ts_length s = 0 then if ts_errors s = 0 then Some 0 else None
      else Some (real (ts_errors s) / real (ts_length s)))"

definition unit_name :: "seg_unit \<Rightarrow> string" where
  "unit_name un = (case un of grapheme \<Rightarrow> ''grapheme'' | codepoint_unit \<Rightarrow> ''codepoint'')"

definition cer_score :: "unicode \<Rightarrow> codepoint list \<Rightarrow> codepoint list \<Rightarrow> seg_unit \<Rightarrow> text_score" where
  "cer_score u reference hypothesis un =
     (let ref_units = units u reference un; hyp_units = units u hypothesis un
      in \<lparr>ts_errors = levenshtein ref_units hyp_units, ts_length = length ref_units, ts_unit = unit_name un\<rparr>)"

definition wer_score :: "unicode \<Rightarrow> codepoint list \<Rightarrow> codepoint list \<Rightarrow> text_score" where
  "wer_score u reference hypothesis =
     \<lparr>ts_errors = levenshtein (words u reference) (words u hypothesis),
      ts_length = length (words u reference), ts_unit = ''word''\<rparr>"

definition cer :: "unicode \<Rightarrow> codepoint list \<Rightarrow> codepoint list \<Rightarrow> seg_unit \<Rightarrow> real option" where
  "cer u reference hypothesis un = text_rate (cer_score u reference hypothesis un)"

definition wer :: "unicode \<Rightarrow> codepoint list \<Rightarrow> codepoint list \<Rightarrow> real option" where
  "wer u reference hypothesis = text_rate (wer_score u reference hypothesis)"

definition aggregate_text :: "text_score list \<Rightarrow> exc + text_score" where
  "aggregate_text scores =
     (if scores = [] then Inr \<lparr>ts_errors = 0, ts_length = 0, ts_unit = ''empty''\<rparr>
      else if card (set (map ts_unit scores)) > 1 then Inl (OtherException ''ValueError'')
      else Inr \<lparr>ts_errors = sum_list (map ts_errors scores), ts_length = sum_list (map ts_length scores),
                ts_unit = ts_unit (hd scores)\<rparr>)"

section \<open>The rows compute the recursive distance\<close>

text \<open>
  \<open>lev_spec\<close> is the distance by recursion on both sequences from the end, written on reversed
  lists.
\<close>

fun lev_spec :: "'a list \<Rightarrow> 'a list \<Rightarrow> nat" where
  "lev_spec [] hs = length hs"
| "lev_spec rs [] = length rs"
| "lev_spec (r # rs) (h # hs) =
     min (min (lev_spec rs (h # hs) + 1) (lev_spec (r # rs) hs + 1))
         (lev_spec rs hs + (if r \<noteq> h then 1 else 0))"

lemma lev_spec_Nil2 [simp]: "lev_spec rs [] = length rs"
  by (cases rs) simp_all

lemma lev_spec_sym: "lev_spec rs hs = lev_spec hs rs"
  by (induction rs hs rule: lev_spec.induct) (auto simp: min.commute min.left_commute min.assoc)

text \<open>The row of a reference prefix: its distances to every prefix of the hypothesis.\<close>

definition row_of :: "'a list \<Rightarrow> 'a list \<Rightarrow> nat list" where
  "row_of rs hyp = map (\<lambda>j. lev_spec rs (rev (take j hyp))) [0..<length hyp + 1]"

lemma lev_row_spec:
  assumes "length pre + length hs = n"
  shows "lev_row r hs (map (\<lambda>j. lev_spec rs (rev (take j (pre @ hs)))) [length pre..<n + 1])
       (lev_spec (r # rs) (rev pre))
     = map (\<lambda>j. lev_spec (r # rs) (rev (take j (pre @ hs)))) [length pre + 1..<n + 1]"
  using assms
proof (induction hs arbitrary: pre)
  case (Cons h hs)
  have up: "[length pre..<n + 1] = length pre # (length pre + 1) # [length pre + 2..<n + 1]"
    using Cons.prems by (simp add: upt_conv_Cons)
  have up1: "[length pre + 1..<n + 1] = (length pre + 1) # [length (pre @ [h]) + 1..<n + 1]"
    using Cons.prems by (simp add: upt_conv_Cons)
  have up2: "(length pre + 1) # [length pre + 2..<n + 1] = [length (pre @ [h])..<n + 1]"
    using Cons.prems by (simp add: upt_conv_Cons)
  have "length (pre @ [h]) + length hs = n" using Cons.prems by simp
  note ih = Cons.IH [OF this]
  show ?case
    unfolding up up1 using ih unfolding up2 [symmetric]
    by (simp add: Let_def min.assoc min.left_commute min.commute)
qed simp

lemma row_of_Nil: "row_of [] hyp = [0..<length hyp + 1]"
  unfolding row_of_def by (rule map_idI) auto

lemma row_of_step: "length rs # lev_row r hyp (row_of rs hyp) (Suc (length rs)) = length rs # tl (row_of (r # rs) hyp)"
  using lev_row_spec [of "[]" hyp "length hyp" r rs] by (simp add: row_of_def upt_rec)

lemma row_of_Cons: "row_of (r # rs) hyp = Suc (length rs) # lev_row r hyp (row_of rs hyp) (Suc (length rs))"
  using row_of_step [of rs r hyp] by (simp add: row_of_def upt_rec)

lemma lev_rows_spec: "lev_rows (Suc (length rs)) rest hyp (row_of rs hyp) = row_of (rev rest @ rs) hyp"
proof (induction rest arbitrary: rs)
  case (Cons r rest)
  show ?case using Cons.IH [of "r # rs"] by (simp add: row_of_Cons [symmetric])
qed simp

lemma levenshtein_spec: "levenshtein reference hypothesis = lev_spec (rev reference) (rev hypothesis)"
proof -
  have "last (lev_rows 1 ref hyp [0..<length hyp + 1]) = lev_spec (rev ref) (rev hyp)" for ref hyp :: "'a list"
    using lev_rows_spec [of "[]" ref hyp] by (simp add: row_of_Nil) (simp add: row_of_def)
  then show ?thesis
    by (auto simp: levenshtein_def lev_spec_sym [of "rev hypothesis"])
qed

section \<open>The recursive distance is the least cost of an edit script\<close>

text \<open>\<open>edits xs ys n\<close>: some script of insertions, deletions and substitutions turns \<open>xs\<close> into \<open>ys\<close> at cost \<open>n\<close>.\<close>

inductive edits :: "'a list \<Rightarrow> 'a list \<Rightarrow> nat \<Rightarrow> bool" where
  done_ed: "edits [] [] 0"
| keep_ed: "edits xs ys n \<Longrightarrow> edits (x # xs) (x # ys) n"
| subst_ed: "edits xs ys n \<Longrightarrow> edits (x # xs) (y # ys) (Suc n)"
| ins_ed: "edits xs ys n \<Longrightarrow> edits xs (y # ys) (Suc n)"
| del_ed: "edits xs ys n \<Longrightarrow> edits (x # xs) ys (Suc n)"

lemma edits_append: "edits a b m \<Longrightarrow> edits c d n \<Longrightarrow> edits (a @ c) (b @ d) (m + n)"
  by (induction a b m rule: edits.induct) (auto intro: edits.intros)

lemma edits_rev: "edits xs ys n \<Longrightarrow> edits (rev xs) (rev ys) n"
proof (induction rule: edits.induct)
  case (keep_ed xs ys n x)
  then show ?case using edits_append [OF keep_ed.IH edits.keep_ed [OF edits.done_ed]] by simp
next
  case (subst_ed xs ys n x y)
  then show ?case using edits_append [OF subst_ed.IH edits.subst_ed [OF edits.done_ed]] by simp
next
  case (ins_ed xs ys n y)
  then show ?case using edits_append [OF ins_ed.IH edits.ins_ed [OF edits.done_ed]] by simp
next
  case (del_ed xs ys n x)
  then show ?case using edits_append [OF del_ed.IH edits.del_ed [OF edits.done_ed]] by simp
qed (simp add: edits.done_ed)

lemma lev_spec_edits: "edits rs hs (lev_spec rs hs)"
proof (induction rs hs rule: lev_spec.induct)
  case (1 hs)
  show ?case by (induction hs) (auto intro: edits.intros)
next
  case (2 r rs)
  have "edits xs [] (length xs)" for xs :: "'a list" by (induction xs) (auto intro: edits.intros)
  from this [of "r # rs"] show ?case by simp
next
  case (3 r rs h hs)
  then show ?case by (auto simp: min_def intro: edits.intros)
qed

lemma lev_spec_ins: "lev_spec rs (h # hs) \<le> Suc (lev_spec rs hs)"
  by (cases rs) simp_all

lemma lev_spec_del: "lev_spec (r # rs) hs \<le> Suc (lev_spec rs hs)"
  by (cases hs) simp_all

lemma lev_spec_least: "edits rs hs n \<Longrightarrow> lev_spec rs hs \<le> n"
proof (induction rule: edits.induct)
  case (ins_ed xs ys n y)
  then show ?case using lev_spec_ins [of xs y ys] by simp
next
  case (del_ed xs ys n x)
  then show ?case using lev_spec_del [of x xs ys] by simp
qed auto

text \<open>
  C23. The two-row computation is exact: the distance it returns, with the sequences swapped to keep
  the shorter row, is the cost of some script of insertions, deletions and substitutions from
  the reference to the hypothesis, and no script is cheaper.
\<close>

theorem levenshtein_is_least_cost:
  "edits reference hypothesis (levenshtein reference hypothesis)
   \<and> (\<forall>n. edits reference hypothesis n \<longrightarrow> levenshtein reference hypothesis \<le> n)"
proof -
  have "edits (rev (rev reference)) (rev (rev hypothesis)) (levenshtein reference hypothesis)"
    unfolding levenshtein_spec by (intro edits_rev lev_spec_edits)
  moreover have "levenshtein reference hypothesis \<le> n" if "edits reference hypothesis n" for n
    unfolding levenshtein_spec by (rule lev_spec_least [OF edits_rev [OF that]])
  ultimately show ?thesis by simp
qed

theorem levenshtein_is_least_cost_witness:
  "levenshtein ''kitten'' ''sitting'' = 3 \<and> levenshtein ''kitten'' ''sitting'' \<le> 4"
proof
  show "levenshtein ''kitten'' ''sitting'' = 3" by code_simp
  have "edits ''kitten'' ''sitting'' 4"
    using subst_ed [OF keep_ed [OF keep_ed [OF keep_ed [OF subst_ed [OF subst_ed [OF ins_ed [OF done_ed]]]]]]]
    by (simp add: numeral_eq_Suc)
  then show "levenshtein ''kitten'' ''sitting'' \<le> 4" using levenshtein_is_least_cost by blast
qed

text \<open>The distance is at least the difference of the lengths and at most the longer one.\<close>

lemma levenshtein_bounds:
  "levenshtein xs ys \<le> max (length xs) (length ys)"
  "length xs \<le> length ys + levenshtein xs ys" "length ys \<le> length xs + levenshtein xs ys"
proof -
  have up: "lev_spec rs hs \<le> max (length rs) (length hs)" for rs hs :: "'a list"
    by (induction rs hs rule: lev_spec.induct) auto
  have "length rs \<le> length hs + n \<and> length hs \<le> length rs + n" if "edits rs hs n" for rs hs :: "'a list" and n
    using that by (induction rule: edits.induct) auto
  with lev_spec_edits have "length rs \<le> length hs + lev_spec rs hs \<and> length hs \<le> length rs + lev_spec rs hs" for rs hs :: "'a list"
    by blast
  then show "levenshtein xs ys \<le> max (length xs) (length ys)"
    "length xs \<le> length ys + levenshtein xs ys" "length ys \<le> length xs + levenshtein xs ys"
    using up [of "rev xs" "rev ys"] by (metis levenshtein_spec length_rev)+
qed

section \<open>Segmentation loses nothing\<close>

lemma grapheme_step_concat:
  "concat (fst (grapheme_step u ch st)) = concat (fst st) @ [ch]"
  "[] \<notin> set (fst st) \<Longrightarrow> [] \<notin> set (fst (grapheme_step u ch st))"
proof -
  obtain cs j where st: "st = (cs, j)" by fastforce
  have "concat (butlast cs) @ last cs = concat cs" if "cs \<noteq> []"
    using that by (metis append_butlast_last_id concat.simps concat_append append_Nil2)
  then show "concat (fst (grapheme_step u ch st)) = concat (fst st) @ [ch]"
    by (simp add: grapheme_step_def st flip: append_assoc)
  show "[] \<notin> set (fst (grapheme_step u ch st))" if "[] \<notin> set (fst st)"
    using that by (auto simp: grapheme_step_def st dest: in_set_butlastD)
qed

text \<open>
  Segmentation loses nothing and invents nothing: the grapheme clusters of a text, put back
  together, are the text, and none is empty; the words are the text without its white space, and
  none is empty or contains any. So the reference length an error rate is divided by is
  the number of units really in the text.
\<close>

theorem segmentation_roundtrip:
  "concat (graphemes u xs) = xs \<and> [] \<notin> set (graphemes u xs)
   \<and> concat (words u xs) = filter (\<lambda>c. \<not> uc_space u c) xs
   \<and> list_all (\<lambda>w. w \<noteq> [] \<and> list_all (\<lambda>c. \<not> uc_space u c) w) (words u xs)"
proof -
  have gr: "concat (fst (fold (grapheme_step u) ys st)) = concat (fst st) @ ys
      \<and> ([] \<notin> set (fst st) \<longrightarrow> [] \<notin> set (fst (fold (grapheme_step u) ys st)))" for ys st
    by (induction ys arbitrary: st) (simp_all add: grapheme_step_concat)
  have wd: "concat (words u xs) = filter (\<lambda>c. \<not> uc_space u c) xs
      \<and> list_all (\<lambda>w. w \<noteq> [] \<and> list_all (\<lambda>c. \<not> uc_space u c) w) (words u xs)"
  proof (induction u xs rule: words.induct)
    case (1 u xs)
    define rest where "rest = dropWhile (uc_space u) xs"
    have keep: "filter (\<lambda>c. \<not> uc_space u c) xs = filter (\<lambda>c. \<not> uc_space u c) rest"
      unfolding rest_def by (induction xs) auto
    have split: "filter (\<lambda>c. \<not> uc_space u c) rest =
        takeWhile (\<lambda>c. \<not> uc_space u c) rest @ filter (\<lambda>c. \<not> uc_space u c) (dropWhile (\<lambda>c. \<not> uc_space u c) rest)"
      by (induction rest) auto
    have hd: "rest \<noteq> [] \<Longrightarrow> \<not> uc_space u (hd rest)" unfolding rest_def by (rule hd_dropWhile)
    have ne: "takeWhile (\<lambda>c. \<not> uc_space u c) rest \<noteq> []" if "rest \<noteq> []"
      using hd [OF that] that by (cases rest) auto
    have all: "list_all (\<lambda>c. \<not> uc_space u c) (takeWhile (\<lambda>c. \<not> uc_space u c) rest)"
      by (auto simp: list_all_iff dest: set_takeWhileD)
    show ?case
    proof (cases "rest = []")
      case True
      then show ?thesis using keep by (simp add: words.simps [of u xs] rest_def [symmetric])
    next
      case False
      from 1 [OF rest_def False] ne [OF False] all show ?thesis
        by (simp add: words.simps [of u xs] rest_def [symmetric] False keep split)
    qed
  qed
  show ?thesis using gr [of xs "([], False)"] wd by (simp add: graphemes_def)
qed

end
