(* ===== verification/Box_Metrics.thy ===== *)
theory Box_Metrics
  imports Orch_Prelude "HOL-Library.Product_Lexorder"
begin

text \<open>
  Bounding-box overlap and matching, \<^verbatim>\<open>src/app/eval/iou.py\<close>. Coordinates are reals; a box arrives as a
  \<^verbatim>\<open>Box\<close>, a mapping, a sequence or something else, with its numbers already read by \<^verbatim>\<open>float\<close>.
  Exceptions are values of the sum type. The infinite mean of an empty ground truth is \<^const>\<open>None\<close>.
\<close>

section \<open>Boxes\<close>

record box =
  bx_x :: real
  bx_y :: real
  bx_w :: real
  bx_h :: real

definition from_xyxy :: "real \<Rightarrow> real \<Rightarrow> real \<Rightarrow> real \<Rightarrow> box" where
  "from_xyxy x1 y1 x2 y2 = \<lparr>bx_x = min x1 x2, bx_y = min y1 y2, bx_w = \<bar>x2 - x1\<bar>, bx_h = \<bar>y2 - y1\<bar>\<rparr>"

definition bx_area :: "box \<Rightarrow> real" where "bx_area b = bx_w b * bx_h b"
definition bx_x2 :: "box \<Rightarrow> real" where "bx_x2 b = bx_x b + bx_w b"
definition bx_y2 :: "box \<Rightarrow> real" where "bx_y2 b = bx_y b + bx_h b"

datatype box_obj = BoxObj box | MapObj "(string \<times> real) list" | SeqObj "real list" | OtherObj

definition as_box :: "box_obj \<Rightarrow> exc + box" where
  "as_box obj =
     (case (case obj of
              BoxObj b \<Rightarrow> Inr b
            | MapObj kvs \<Rightarrow>
                (case (map_of kvs ''x'', map_of kvs ''y'', map_of kvs ''w'', map_of kvs ''h'') of
                   (Some x, Some y, Some w, Some h) \<Rightarrow> Inr \<lparr>bx_x = x, bx_y = y, bx_w = w, bx_h = h\<rparr>
                 | _ \<Rightarrow> Inl (OtherException ''ValueError''))
            | SeqObj vs \<Rightarrow>
                (case vs of
                   [x, y, w, h] \<Rightarrow> Inr \<lparr>bx_x = x, bx_y = y, bx_w = w, bx_h = h\<rparr>
                 | _ \<Rightarrow> Inl (OtherException ''ValueError''))
            | OtherObj \<Rightarrow> Inl (OtherException ''TypeError'')) of
        Inl e \<Rightarrow> Inl e
      | Inr b \<Rightarrow> if bx_w b < 0 \<or> bx_h b < 0 then Inl (OtherException ''ValueError'') else Inr b)"

fun as_boxes :: "box_obj list \<Rightarrow> exc + box list" where
  "as_boxes [] = Inr []"
| "as_boxes (ob # obs) =
     (case as_box ob of
        Inl e \<Rightarrow> Inl e
      | Inr b \<Rightarrow> (case as_boxes obs of Inl e \<Rightarrow> Inl e | Inr bs \<Rightarrow> Inr (b # bs)))"

definition box_iou :: "box \<Rightarrow> box \<Rightarrow> real" where
  "box_iou a b =
     (let overlap_w = max 0 (min (bx_x2 a) (bx_x2 b) - max (bx_x a) (bx_x b));
          overlap_h = max 0 (min (bx_y2 a) (bx_y2 b) - max (bx_y a) (bx_y b));
          inter = overlap_w * overlap_h;
          uni = bx_area a + bx_area b - inter
      in if uni \<le> 0 then 0 else inter / uni)"

definition iou :: "box_obj \<Rightarrow> box_obj \<Rightarrow> exc + real" where
  "iou a b =
     (case as_box a of
        Inl e \<Rightarrow> Inl e
      | Inr ba \<Rightarrow> (case as_box b of Inl e \<Rightarrow> Inl e | Inr bb \<Rightarrow> Inr (box_iou ba bb)))"

section \<open>Matching\<close>

record box_match =
  bm_predicted :: nat
  bm_truth :: nat
  bm_iou :: real

record matching =
  mt_matches :: "box_match list"
  mt_unmatched_predicted :: "nat list"
  mt_unmatched_truth :: "nat list"

definition iou_sum :: "matching \<Rightarrow> real" where
  "iou_sum m = sum_list (map bm_iou (mt_matches m))"

definition candidates :: "box list \<Rightarrow> box list \<Rightarrow> (real \<times> nat \<times> nat) list" where
  "candidates ps ts =
     concat (map (\<lambda>i. concat (map (\<lambda>j.
       let score = box_iou (ps ! i) (ts ! j) in if score > 0 then [(score, i, j)] else [])
       [0..<length ts])) [0..<length ps])"

text \<open>
  The loop over the sorted candidates. Both sets of claimed indices are read off the matches made
  so far, which are the only places that add to them.
\<close>

fun greedy :: "(real \<times> nat \<times> nat) list \<Rightarrow> box_match list \<Rightarrow> box_match list" where
  "greedy [] ms = ms"
| "greedy ((score, i, j) # cs) ms =
     (if i \<in> bm_predicted ` set ms \<or> j \<in> bm_truth ` set ms then greedy cs ms
      else greedy cs (ms @ [\<lparr>bm_predicted = i, bm_truth = j, bm_iou = score\<rparr>]))"

definition match_valid :: "box list \<Rightarrow> box list \<Rightarrow> matching" where
  "match_valid ps ts =
     (let ms = greedy (sort_key (\<lambda>(score, i, j). (- score, i, j)) (candidates ps ts)) []
      in \<lparr>mt_matches = ms,
          mt_unmatched_predicted = filter (\<lambda>i. i \<notin> bm_predicted ` set ms) [0..<length ps],
          mt_unmatched_truth = filter (\<lambda>j. j \<notin> bm_truth ` set ms) [0..<length ts]\<rparr>)"

definition match_boxes :: "box_obj list \<Rightarrow> box_obj list \<Rightarrow> exc + matching" where
  "match_boxes predicted truth =
     (case as_boxes predicted of
        Inl e \<Rightarrow> Inl e
      | Inr ps \<Rightarrow> (case as_boxes truth of Inl e \<Rightarrow> Inl e | Inr ts \<Rightarrow> Inr (match_valid ps ts)))"

section \<open>Scores\<close>

record box_report =
  br_true_positives :: nat
  br_false_positives :: nat
  br_false_negatives :: nat
  br_iou_sum :: real
  br_matched_count :: nat
  br_truth_count :: nat
  br_threshold :: real

definition br_precision :: "box_report \<Rightarrow> real" where
  "br_precision r =
     (let predicted = br_true_positives r + br_false_positives r
      in if predicted = 0 then 1 else real (br_true_positives r) / real predicted)"

definition br_recall :: "box_report \<Rightarrow> real" where
  "br_recall r =
     (let relevant = br_true_positives r + br_false_negatives r
      in if relevant = 0 then 1 else real (br_true_positives r) / real relevant)"

definition br_f1 :: "box_report \<Rightarrow> real" where
  "br_f1 r =
     (let p = br_precision r; q = br_recall r
      in if p + q = 0 then 0 else 2 * p * q / (p + q))"

definition br_mean_iou :: "box_report \<Rightarrow> real option" where
  "br_mean_iou r =
     (if br_truth_count r = 0 then if br_iou_sum r = 0 then Some 0 else None
      else Some (br_iou_sum r / real (br_truth_count r)))"

definition br_mean_matched_iou :: "box_report \<Rightarrow> real" where
  "br_mean_matched_iou r =
     (if br_matched_count r = 0 then 0 else br_iou_sum r / real (br_matched_count r))"

definition report_of :: "real \<Rightarrow> matching \<Rightarrow> box_report" where
  "report_of threshold m =
     (let tp = length (filter (\<lambda>x. bm_iou x \<ge> threshold) (mt_matches m));
          weak = length (mt_matches m) - tp
      in \<lparr>br_true_positives = tp,
          br_false_positives = length (mt_unmatched_predicted m) + weak,
          br_false_negatives = length (mt_unmatched_truth m) + weak,
          br_iou_sum = iou_sum m,
          br_matched_count = length (mt_matches m),
          br_truth_count = length (mt_matches m) + length (mt_unmatched_truth m),
          br_threshold = threshold\<rparr>)"

definition score_boxes :: "box_obj list \<Rightarrow> box_obj list \<Rightarrow> real \<Rightarrow> exc + box_report" where
  "score_boxes predicted truth threshold =
     (case match_boxes predicted truth of Inl e \<Rightarrow> Inl e | Inr m \<Rightarrow> Inr (report_of threshold m))"

definition aggregate_boxes :: "box_report list \<Rightarrow> exc + box_report" where
  "aggregate_boxes reports =
     (if reports = []
      then Inr \<lparr>br_true_positives = 0, br_false_positives = 0, br_false_negatives = 0, br_iou_sum = 0,
                br_matched_count = 0, br_truth_count = 0, br_threshold = 1 / 2\<rparr>
      else if card (set (map br_threshold reports)) > 1 then Inl (OtherException ''ValueError'')
      else Inr \<lparr>br_true_positives = sum_list (map br_true_positives reports),
                br_false_positives = sum_list (map br_false_positives reports),
                br_false_negatives = sum_list (map br_false_negatives reports),
                br_iou_sum = sum_list (map br_iou_sum reports),
                br_matched_count = sum_list (map br_matched_count reports),
                br_truth_count = sum_list (map br_truth_count reports),
                br_threshold = br_threshold (hd reports)\<rparr>)"

section \<open>Overlap\<close>

definition box_valid :: "box \<Rightarrow> bool" where
  "box_valid b \<longleftrightarrow> 0 \<le> bx_w b \<and> 0 \<le> bx_h b"

lemma as_box_valid: "as_box ob = Inr b \<Longrightarrow> box_valid b"
  by (auto simp: as_box_def box_valid_def split: sum.splits if_splits)

lemma as_boxes_valid: "as_boxes obs = Inr bs \<Longrightarrow> list_all box_valid bs"
  by (induction obs arbitrary: bs) (auto split: sum.splits dest: as_box_valid)

lemma as_boxes_length: "as_boxes obs = Inr bs \<Longrightarrow> length obs = length bs"
  by (induction obs arbitrary: bs) (auto split: sum.splits)

lemma from_xyxy_valid: "box_valid (from_xyxy x1 y1 x2 y2)"
  by (simp add: box_valid_def from_xyxy_def)

lemma overlap_bounds:
  fixes x w x' w' :: real
  assumes "0 \<le> w"
  shows "0 \<le> max 0 (min (x + w) (x' + w') - max x x')" and "max 0 (min (x + w) (x' + w') - max x x') \<le> w"
  using assms by auto

lemma overlap_area_bounds:
  assumes "box_valid a" and "box_valid b"
  defines "ov \<equiv> max 0 (min (bx_x2 a) (bx_x2 b) - max (bx_x a) (bx_x b))
      * max 0 (min (bx_y2 a) (bx_y2 b) - max (bx_y a) (bx_y b))"
  shows "0 \<le> ov" and "ov \<le> bx_area a" and "ov \<le> bx_area b"
proof -
  show "0 \<le> ov" by (simp add: ov_def)
  show "ov \<le> bx_area a"
    unfolding ov_def bx_area_def bx_x2_def bx_y2_def
    by (rule mult_mono) (use assms(1) in \<open>auto simp: box_valid_def\<close>)
  show "ov \<le> bx_area b"
    unfolding ov_def bx_area_def bx_x2_def bx_y2_def
    by (rule mult_mono) (use assms(2) in \<open>auto simp: box_valid_def\<close>)
qed

lemma box_iou_bounds:
  assumes "box_valid a" and "box_valid b"
  shows "0 \<le> box_iou a b" and "box_iou a b \<le> 1"
proof -
  have frac: "0 \<le> (if p + q - v \<le> 0 then 0 else v / (p + q - v)) \<and> (if p + q - v \<le> 0 then 0 else v / (p + q - v)) \<le> 1"
    if "0 \<le> v" "v \<le> p" "v \<le> q" for p q v :: real
    using that by (simp add: divide_le_eq_1)
  show "0 \<le> box_iou a b" and "box_iou a b \<le> 1"
    unfolding box_iou_def Let_def
    using frac [OF overlap_area_bounds [OF assms]] by simp_all
qed

lemma box_iou_sym: "box_iou a b = box_iou b a"
  by (simp add: box_iou_def min.commute max.commute add.commute)

lemma box_iou_self:
  assumes "box_valid a" and "0 < bx_area a"
  shows "box_iou a a = 1"
proof -
  have "max 0 (bx_w a) * max 0 (bx_h a) = bx_area a" using assms(1) by (simp add: box_valid_def bx_area_def max_def)
  moreover have "bx_w a * bx_h a = bx_area a" by (simp add: bx_area_def)
  ultimately show ?thesis using assms(2) by (simp add: box_iou_def bx_x2_def bx_y2_def Let_def mult.commute)
qed

lemma box_iou_disjoint:
  assumes "bx_x2 a \<le> bx_x b \<or> bx_x2 b \<le> bx_x a \<or> bx_y2 a \<le> bx_y b \<or> bx_y2 b \<le> bx_y a"
  shows "box_iou a b = 0"
  using assms by (auto simp: box_iou_def Let_def max_def min_def)

text \<open>
  The overlap is a similarity: for every pair of objects that are accepted as boxes it lies between 0
  and 1, it does not depend on the order, a box with positive area scores 1 against itself, and
  boxes that are apart on either axis score 0.
\<close>

theorem iou_is_similarity:
  assumes "as_box oa = Inr a" and "as_box ob = Inr b"
  shows "\<exists>v. iou oa ob = Inr v \<and> iou ob oa = Inr v \<and> 0 \<le> v \<and> v \<le> 1
     \<and> (a = b \<and> 0 < bx_area a \<longrightarrow> v = 1)
     \<and> (bx_x2 a \<le> bx_x b \<or> bx_x2 b \<le> bx_x a \<or> bx_y2 a \<le> bx_y b \<or> bx_y2 b \<le> bx_y a \<longrightarrow> v = 0)"
  using assms box_iou_bounds box_iou_self box_iou_disjoint as_box_valid
  by (auto simp: iou_def box_iou_sym [of b a])

theorem iou_is_similarity_witness:
  "\<exists>v. iou (SeqObj [0, 0, 2, 2]) (SeqObj [1, 1, 2, 2]) = Inr v \<and> 0 \<le> v \<and> v \<le> 1 \<and> v = 1 / 7"
proof -
  let ?a = "\<lparr>bx_x = 0, bx_y = 0, bx_w = 2, bx_h = 2\<rparr> :: box" and ?b = "\<lparr>bx_x = 1, bx_y = 1, bx_w = 2, bx_h = 2\<rparr> :: box"
  have ab: "as_box (SeqObj [0, 0, 2, 2]) = Inr ?a" "as_box (SeqObj [1, 1, 2, 2]) = Inr ?b" by (simp_all add: as_box_def)
  have "box_iou ?a ?b = 1 / 7" by (simp add: box_iou_def bx_area_def bx_x2_def bx_y2_def Let_def)
  then show ?thesis using iou_is_similarity [OF ab] ab by (auto simp: iou_def)
qed

section \<open>The greedy matching\<close>

lemma greedy_keeps: "set ms \<subseteq> set (greedy cs ms)"
proof (induction cs ms rule: greedy.induct)
  case (2 score i j cs ms)
  then show ?case by auto
qed simp

lemma greedy_from: "x \<in> set (greedy cs ms) \<Longrightarrow> x \<in> set ms \<or> (bm_iou x, bm_predicted x, bm_truth x) \<in> set cs"
  by (induction cs ms rule: greedy.induct) (auto split: if_splits)

lemma greedy_distinct:
  "distinct (map bm_predicted ms) \<Longrightarrow> distinct (map bm_truth ms) \<Longrightarrow>
   distinct (map bm_predicted (greedy cs ms)) \<and> distinct (map bm_truth (greedy cs ms))"
  by (induction cs ms rule: greedy.induct) (auto simp: image_iff)

lemma greedy_dominates:
  assumes "sorted_wrt (\<lambda>c d. fst d \<le> fst c) cs" and "\<forall>x \<in> set ms. \<forall>c \<in> set cs. fst c \<le> bm_iou x"
    and "(s, i, j) \<in> set cs"
  shows "\<exists>x \<in> set (greedy cs ms). (bm_predicted x = i \<or> bm_truth x = j) \<and> s \<le> bm_iou x"
  using assms
proof (induction cs ms rule: greedy.induct)
  case (2 score i' j' cs ms)
  let ?ms = "if i' \<in> bm_predicted ` set ms \<or> j' \<in> bm_truth ` set ms then ms
     else ms @ [\<lparr>bm_predicted = i', bm_truth = j', bm_iou = score\<rparr>]"
  have g: "greedy ((score, i', j') # cs) ms = greedy cs ?ms" by simp
  show ?case
  proof (cases "(s, i, j) = (score, i', j')")
    case True
    then have "\<exists>x \<in> set ?ms. (bm_predicted x = i \<or> bm_truth x = j) \<and> s \<le> bm_iou x"
      using 2(4) by fastforce
    then show ?thesis unfolding g using greedy_keeps [of ?ms cs] by blast
  next
    case False
    then have "(s, i, j) \<in> set cs" using 2(5) by auto
    moreover have "\<forall>x \<in> set ?ms. \<forall>c \<in> set cs. fst c \<le> bm_iou x" using 2(3,4) by auto
    ultimately show ?thesis using 2(1,2,3) by (auto split: if_splits)
  qed
qed simp

lemma mem_candidates:
  "(s, i, j) \<in> set (candidates ps ts) \<longleftrightarrow> i < length ps \<and> j < length ts \<and> s = box_iou (ps ! i) (ts ! j) \<and> 0 < s"
  by (auto simp: candidates_def Let_def split: if_splits)

lemma sorted_candidates:
  "sorted_wrt (\<lambda>c d. fst d \<le> fst c) (sort_key (\<lambda>(score, i, j). (- score, i :: nat, j :: nat)) (cs :: (real \<times> nat \<times> nat) list))"
proof -
  have "sorted_wrt (\<lambda>c d. (\<lambda>(score, i, j). (- score, i, j)) c \<le> (\<lambda>(score, i, j). (- score, i, j)) d)
      (sort_key (\<lambda>(score, i, j). (- score, i :: nat, j :: nat)) cs)"
    using sorted_sort_key [of "\<lambda>(score, i, j). (- score, i :: nat, j :: nat)" cs] by (simp only: sorted_map)
  then show ?thesis
    by (rule sorted_wrt_mono_rel [rotated]) (auto simp: less_eq_prod_def)
qed

lemma match_valid_entries:
  assumes "x \<in> set (mt_matches (match_valid ps ts))"
  shows "bm_predicted x < length ps \<and> bm_truth x < length ts
    \<and> bm_iou x = box_iou (ps ! bm_predicted x) (ts ! bm_truth x) \<and> 0 < bm_iou x"
proof -
  have "(bm_iou x, bm_predicted x, bm_truth x) \<in> set (candidates ps ts)"
    using greedy_from [of x "sort_key (\<lambda>(score, i, j). (- score, i, j)) (candidates ps ts)" "[]"] assms
    by (simp add: match_valid_def Let_def)
  then show ?thesis unfolding mem_candidates by simp
qed

lemma match_valid_dominates:
  assumes "i < length ps" and "j < length ts" and "0 < box_iou (ps ! i) (ts ! j)"
  shows "\<exists>x \<in> set (mt_matches (match_valid ps ts)).
    (bm_predicted x = i \<or> bm_truth x = j) \<and> box_iou (ps ! i) (ts ! j) \<le> bm_iou x"
  unfolding match_valid_def Let_def matching.simps
  by (rule greedy_dominates [OF sorted_candidates]) (use assms in \<open>simp_all add: mem_candidates\<close>)

lemma match_valid_distinct:
  "distinct (map bm_predicted (mt_matches (match_valid ps ts)))" "distinct (map bm_truth (mt_matches (match_valid ps ts)))"
  using greedy_distinct [of "[]"] by (simp_all add: match_valid_def Let_def)

lemma match_valid_unmatched:
  "set (mt_unmatched_predicted (match_valid ps ts)) = {..<length ps} - bm_predicted ` set (mt_matches (match_valid ps ts))"
  "set (mt_unmatched_truth (match_valid ps ts)) = {..<length ts} - bm_truth ` set (mt_matches (match_valid ps ts))"
  "distinct (mt_unmatched_predicted (match_valid ps ts))" "distinct (mt_unmatched_truth (match_valid ps ts))"
  by (auto simp: match_valid_def Let_def)

text \<open>
  C37. The matching is one to one and leaves no better pair unused. No predicted and no true box is
  matched twice, every match is a pair with positive overlap, every other box is reported as
  unmatched, and for every pair that overlaps some match uses one of the two boxes and overlaps
  at least as much.
\<close>

theorem matching_is_stable:
  assumes "as_boxes predicted = Inr ps" and "as_boxes truth = Inr ts" and "match_boxes predicted truth = Inr m"
  shows "distinct (map bm_predicted (mt_matches m)) \<and> distinct (map bm_truth (mt_matches m))
    \<and> (\<forall>x \<in> set (mt_matches m). bm_predicted x < length ps \<and> bm_truth x < length ts
         \<and> bm_iou x = box_iou (ps ! bm_predicted x) (ts ! bm_truth x) \<and> 0 < bm_iou x)
    \<and> set (mt_unmatched_predicted m) = {..<length ps} - bm_predicted ` set (mt_matches m)
    \<and> set (mt_unmatched_truth m) = {..<length ts} - bm_truth ` set (mt_matches m)
    \<and> (\<forall>i < length ps. \<forall>j < length ts. 0 < box_iou (ps ! i) (ts ! j) \<longrightarrow>
         (\<exists>x \<in> set (mt_matches m). (bm_predicted x = i \<or> bm_truth x = j) \<and> box_iou (ps ! i) (ts ! j) \<le> bm_iou x))"
proof -
  have m: "m = match_valid ps ts" using assms by (simp add: match_boxes_def)
  show ?thesis
    unfolding m by (intro conjI ballI allI impI match_valid_distinct match_valid_unmatched match_valid_dominates)
      (use match_valid_entries in blast)+
qed

theorem matching_is_stable_witness:
  "\<exists>m. match_boxes [SeqObj [0, 0, 2, 2]] [SeqObj [1, 1, 2, 2], SeqObj [0, 0, 2, 2]] = Inr m
     \<and> (\<exists>x \<in> set (mt_matches m). 1 \<le> bm_iou x)"
proof -
  let ?a = "\<lparr>bx_x = 0, bx_y = 0, bx_w = 2, bx_h = 2\<rparr> :: box" and ?b = "\<lparr>bx_x = 1, bx_y = 1, bx_w = 2, bx_h = 2\<rparr> :: box"
  have ab: "as_boxes [SeqObj [0, 0, 2, 2]] = Inr [?a]" "as_boxes [SeqObj [1, 1, 2, 2], SeqObj [0, 0, 2, 2]] = Inr [?b, ?a]"
    by (simp_all add: as_box_def)
  have "box_iou ?a ?a = 1" by (simp add: box_iou_def bx_area_def bx_x2_def bx_y2_def Let_def)
  then have "box_iou ([?a] ! 0) ([?b, ?a] ! 1) = 1" by simp
  moreover obtain m where m: "match_boxes [SeqObj [0, 0, 2, 2]] [SeqObj [1, 1, 2, 2], SeqObj [0, 0, 2, 2]] = Inr m"
    using ab by (simp add: match_boxes_def)
  moreover from matching_is_stable [OF ab m]
  have "\<forall>i < length [?a]. \<forall>j < length [?b, ?a]. 0 < box_iou ([?a] ! i) ([?b, ?a] ! j) \<longrightarrow>
      (\<exists>x \<in> set (mt_matches m). (bm_predicted x = i \<or> bm_truth x = j) \<and> box_iou ([?a] ! i) ([?b, ?a] ! j) \<le> bm_iou x)"
    by (elim conjE)
  then have "\<forall>j < length [?b, ?a]. 0 < box_iou ([?a] ! 0) ([?b, ?a] ! j) \<longrightarrow>
      (\<exists>x \<in> set (mt_matches m). (bm_predicted x = 0 \<or> bm_truth x = j) \<and> box_iou ([?a] ! 0) ([?b, ?a] ! j) \<le> bm_iou x)"
    by simp
  then have "0 < box_iou ([?a] ! 0) ([?b, ?a] ! 1) \<longrightarrow>
      (\<exists>x \<in> set (mt_matches m). (bm_predicted x = 0 \<or> bm_truth x = 1) \<and> box_iou ([?a] ! 0) ([?b, ?a] ! 1) \<le> bm_iou x)"
    by (rule allE [where x = 1]) simp
  ultimately show ?thesis by auto
qed

section \<open>The scores of a page\<close>

lemma match_count:
  assumes "distinct (map f ms)" and "f ` set ms \<subseteq> {..<n}" and "set us = {..<n} - f ` set ms" and "distinct us"
  shows "length ms + length us = n"
proof -
  have "length ms = card (f ` set ms)" using assms(1) by (metis distinct_card length_map set_map)
  moreover have "length us = card ({..<n} - f ` set ms)" using assms(3,4) by (metis distinct_card)
  moreover have "card ({..<n} - f ` set ms) = n - card (f ` set ms)" using assms(2) by (simp add: card_Diff_subset)
  moreover have "card (f ` set ms) \<le> n" using card_mono [OF _ assms(2)] by simp
  ultimately show ?thesis by simp
qed

lemma match_valid_count:
  "length (mt_matches (match_valid ps ts)) + length (mt_unmatched_predicted (match_valid ps ts)) = length ps"
  "length (mt_matches (match_valid ps ts)) + length (mt_unmatched_truth (match_valid ps ts)) = length ts"
  by (rule match_count [OF match_valid_distinct(1) _ match_valid_unmatched(1,3)], use match_valid_entries in blast)
     (rule match_count [OF match_valid_distinct(2) _ match_valid_unmatched(2,4)], use match_valid_entries in blast)

lemma match_valid_iou_sum:
  assumes "list_all box_valid ps" and "list_all box_valid ts"
  shows "0 \<le> iou_sum (match_valid ps ts)" and "iou_sum (match_valid ps ts) \<le> real (length (mt_matches (match_valid ps ts)))"
proof -
  let ?ms = "mt_matches (match_valid ps ts)"
  have "bm_iou x \<le> 1 \<and> 0 \<le> bm_iou x" if "x \<in> set ?ms" for x
    using match_valid_entries [OF that] assms box_iou_bounds(2) by (fastforce simp: list_all_length)
  then show "0 \<le> iou_sum (match_valid ps ts)" and "iou_sum (match_valid ps ts) \<le> real (length ?ms)"
    unfolding iou_sum_def using sum_list_nonneg [of "map bm_iou ?ms"] sum_list_mono [of ?ms bm_iou "\<lambda>_. 1"]
    by (auto simp: sum_list_triv)
qed

definition report_ok :: "nat \<Rightarrow> nat \<Rightarrow> box_report \<Rightarrow> bool" where
  "report_ok np nt r \<longleftrightarrow>
     br_true_positives r + br_false_positives r = np \<and> br_true_positives r + br_false_negatives r = nt
     \<and> br_truth_count r = nt \<and> br_true_positives r \<le> br_matched_count r \<and> br_matched_count r \<le> min np nt
     \<and> 0 \<le> br_iou_sum r \<and> br_iou_sum r \<le> real (br_matched_count r)"

definition unit_interval :: "real \<Rightarrow> bool" where
  "unit_interval v \<longleftrightarrow> 0 \<le> v \<and> v \<le> 1"

lemma report_of_ok:
  assumes "list_all box_valid ps" and "list_all box_valid ts"
  shows "report_ok (length ps) (length ts) (report_of threshold (match_valid ps ts))"
  using match_valid_count [of ps ts] match_valid_iou_sum [OF assms]
    length_filter_le [of "\<lambda>x. threshold \<le> bm_iou x" "mt_matches (match_valid ps ts)"]
  unfolding report_ok_def report_of_def Let_def box_report.simps by linarith

lemma ratio_unit: "a \<le> b \<Longrightarrow> unit_interval (if b = 0 then 1 else real a / real b)"
  by (simp add: unit_interval_def divide_le_eq_1)

lemma harmonic_unit:
  assumes "unit_interval p" and "unit_interval q"
  shows "unit_interval (if p + q = 0 then 0 else 2 * p * q / (p + q))"
proof (cases "p + q = 0")
  case False
  then have pos: "0 < p + q" using assms by (auto simp: unit_interval_def)
  have "p * q \<le> p" "p * q \<le> q" using assms by (simp_all add: unit_interval_def mult_left_le mult_left_le_one_le)
  then have "2 * p * q \<le> p + q" by simp
  then show ?thesis using pos assms by (simp add: unit_interval_def divide_le_eq_1)
qed (simp add: unit_interval_def)

lemma report_scores:
  assumes "report_ok np nt r"
  shows "unit_interval (br_precision r)" "unit_interval (br_recall r)" "unit_interval (br_f1 r)"
    "\<exists>v. br_mean_iou r = Some v \<and> unit_interval v" "unit_interval (br_mean_matched_iou r)"
proof -
  show p: "unit_interval (br_precision r)" and q: "unit_interval (br_recall r)"
    unfolding br_precision_def br_recall_def Let_def by (rule ratio_unit, simp)+
  show "unit_interval (br_f1 r)" unfolding br_f1_def Let_def by (rule harmonic_unit [OF p q])
  show "\<exists>v. br_mean_iou r = Some v \<and> unit_interval v"
    using assms by (auto simp: br_mean_iou_def report_ok_def unit_interval_def divide_le_eq_1)
  show "unit_interval (br_mean_matched_iou r)"
    using assms by (auto simp: br_mean_matched_iou_def report_ok_def unit_interval_def divide_le_eq_1)
qed

lemma report_ok_sum:
  assumes "list_all2 (\<lambda>r (np, nt). report_ok np nt r) rs ns"
  shows "(\<Sum>r\<leftarrow>rs. br_true_positives r) + (\<Sum>r\<leftarrow>rs. br_false_positives r) = sum_list (map fst ns)
    \<and> (\<Sum>r\<leftarrow>rs. br_true_positives r) + (\<Sum>r\<leftarrow>rs. br_false_negatives r) = sum_list (map snd ns)
    \<and> (\<Sum>r\<leftarrow>rs. br_truth_count r) = sum_list (map snd ns)
    \<and> (\<Sum>r\<leftarrow>rs. br_true_positives r) \<le> (\<Sum>r\<leftarrow>rs. br_matched_count r)
    \<and> (\<Sum>r\<leftarrow>rs. br_matched_count r) \<le> sum_list (map fst ns) \<and> (\<Sum>r\<leftarrow>rs. br_matched_count r) \<le> sum_list (map snd ns)
    \<and> 0 \<le> (\<Sum>r\<leftarrow>rs. br_iou_sum r) \<and> (\<Sum>r\<leftarrow>rs. br_iou_sum r) \<le> real (\<Sum>r\<leftarrow>rs. br_matched_count r)"
  using assms by (induction rule: list_all2_induct) (auto simp: report_ok_def)

text \<open>
  Scoring a page accounts for every box. Whenever both lists are accepted the true and false
  positives add up to the predicted boxes and the true positives and false negatives to the true
  ones, at every threshold, and precision, recall, F1 and both mean overlaps are numbers between 0
  and 1.
\<close>

theorem box_scores_account:
  assumes "as_boxes predicted = Inr ps" and "as_boxes truth = Inr ts"
  shows "\<exists>r. score_boxes predicted truth threshold = Inr r \<and> report_ok (length predicted) (length truth) r
    \<and> unit_interval (br_precision r) \<and> unit_interval (br_recall r) \<and> unit_interval (br_f1 r)
    \<and> (\<exists>v. br_mean_iou r = Some v \<and> unit_interval v) \<and> unit_interval (br_mean_matched_iou r)"
proof -
  let ?r = "report_of threshold (match_valid ps ts)"
  have "length predicted = length ps" "length truth = length ts" using assms as_boxes_length by auto
  moreover have "report_ok (length ps) (length ts) ?r" using assms as_boxes_valid report_of_ok by blast
  moreover have "score_boxes predicted truth threshold = Inr ?r" by (simp add: score_boxes_def match_boxes_def assms)
  ultimately show ?thesis using report_scores by metis
qed

theorem box_scores_account_witness:
  "\<exists>r. score_boxes [SeqObj [0, 0, 2, 2]] [SeqObj [1, 1, 2, 2], OtherObj] (1 / 2) = Inl (OtherException ''TypeError'')
     \<and> score_boxes [SeqObj [0, 0, 2, 2]] [SeqObj [1, 1, 2, 2], SeqObj [0, 0, 2, 2]] (1 / 2) = Inr r
     \<and> report_ok 1 2 r \<and> unit_interval (br_f1 r)"
proof -
  have ab: "as_boxes [SeqObj [0, 0, 2, 2]] = Inr [\<lparr>bx_x = 0, bx_y = 0, bx_w = 2, bx_h = 2\<rparr>]"
    "as_boxes [SeqObj [1, 1, 2, 2], SeqObj [0, 0, 2, 2]]
      = Inr [\<lparr>bx_x = 1, bx_y = 1, bx_w = 2, bx_h = 2\<rparr>, \<lparr>bx_x = 0, bx_y = 0, bx_w = 2, bx_h = 2\<rparr>]"
    by (simp_all add: as_box_def)
  have "score_boxes [SeqObj [0, 0, 2, 2]] [SeqObj [1, 1, 2, 2], OtherObj] (1 / 2) = Inl (OtherException ''TypeError'')"
    by (simp add: score_boxes_def match_boxes_def as_box_def)
  then show ?thesis using box_scores_account [OF ab, of "1 / 2"] by (auto simp: numeral_2_eq_2)
qed

lemma aggregate_boxes_ok:
  assumes "list_all2 (\<lambda>r (np, nt). report_ok np nt r) rs ns" and "aggregate_boxes rs = Inr r"
  shows "report_ok (sum_list (map fst ns)) (sum_list (map snd ns)) r"
  using report_ok_sum [OF assms(1)] assms(2)
  by (auto simp: aggregate_boxes_def report_ok_def split: if_splits)

end
