(* ===== verification/Evaluate.thy ===== *)
theory Evaluate
  imports Tree_Distance Text_Metrics Box_Metrics Metrics_Flow
begin

text \<open>
  The evaluation endpoint, \<^verbatim>\<open>src/app/api/evaluate.py\<close>: the walk that collects text and boxes in document order,
  the guards on size and work, the computation of the three scores and the errors it answers with.
  The clock readings around the three computations are arguments, the text of a float
  (\<^verbatim>\<open>float(str)\<close>) the parameter \<open>pf\<close>, the Unicode database the parameter \<open>u\<close> of the text metrics. An infinite
  rate is \<^const>\<open>None\<close>, as in the text metrics.
\<close>

section \<open>Requests and limits\<close>

record eval_request =
  rq_predicted :: "json option"
  rq_truth :: "json option"
  rq_iou_threshold :: real
  rq_cer_unit :: seg_unit
  rq_label_key :: string
  rq_children_key :: string
  rq_text_key :: string
  rq_bbox_key :: string

fun is_dict :: "json option \<Rightarrow> bool" where
  "is_dict None \<longleftrightarrow> True"
| "is_dict (Some (JObj kvs)) \<longleftrightarrow> True"
| "is_dict _ \<longleftrightarrow> False"

definition EvaluateRequest :: "eval_request \<Rightarrow> bool" where
  "EvaluateRequest rq \<longleftrightarrow>
     is_dict (rq_predicted rq) \<and> is_dict (rq_truth rq) \<and> 0 \<le> rq_iou_threshold rq \<and> rq_iou_threshold rq \<le> 1
     \<and> length (rq_label_key rq) \<le> 64 \<and> length (rq_children_key rq) \<le> 64 \<and> length (rq_text_key rq) \<le> 64
     \<and> length (rq_bbox_key rq) \<le> 64"

record eval_settings =
  es_max_nodes :: int
  es_ted_budget_ms :: real
  es_ted_work_per_ms :: int

definition eval_max_ted_work :: "eval_settings \<Rightarrow> int" where
  "eval_max_ted_work es = \<lfloor>es_ted_budget_ms es * of_int (es_ted_work_per_ms es)\<rfloor>"

section \<open>Text and boxes in document order\<close>

definition listed_children :: "string \<Rightarrow> (string \<times> json) list \<Rightarrow> json list" where
  "listed_children ck kvs = (case map_of kvs ck of Some (JArr cs) \<Rightarrow> cs | _ \<Rightarrow> [])"

definition node_text :: "string \<Rightarrow> (string \<times> json) list \<Rightarrow> string list" where
  "node_text tk kvs = (case map_of kvs tk of Some (JStr s) \<Rightarrow> if s \<noteq> [] then [s] else [] | _ \<Rightarrow> [])"

definition node_box :: "string \<Rightarrow> (string \<times> json) list \<Rightarrow> json list" where
  "node_box bk kvs = (case map_of kvs bk of None \<Rightarrow> [] | Some JNull \<Rightarrow> [] | Some b \<Rightarrow> [b])"

lemma listed_children_smaller: "size_list size (listed_children ck kvs) < size (JObj kvs)"
proof (cases "\<exists>cs. map_of kvs ck = Some (JArr cs)")
  case True
  then obtain cs where cs: "map_of kvs ck = Some (JArr cs)" by blast
  have "(ck, JArr cs) \<in> set kvs" using cs by (rule map_of_SomeD)
  then have "size (JArr cs) < size (JObj kvs)" by (induction kvs) auto
  then show ?thesis using cs by (simp add: listed_children_def)
next
  case False
  then have "listed_children ck kvs = []" by (auto simp: listed_children_def split: option.split json.split)
  then show ?thesis by simp
qed

function collect_loop ::
  "string \<Rightarrow> string \<Rightarrow> string \<Rightarrow> json list \<Rightarrow> string list \<Rightarrow> json list \<Rightarrow> string list \<times> json list" where
  "collect_loop ck tk bk [] parts boxes = (parts, boxes)"
| "collect_loop ck tk bk (node # stack) parts boxes =
     (case node of
        JObj kvs \<Rightarrow>
          collect_loop ck tk bk (listed_children ck kvs @ stack) (parts @ node_text tk kvs) (boxes @ node_box bk kvs)
      | _ \<Rightarrow> collect_loop ck tk bk stack parts boxes)"
  by pat_completeness auto
termination
  by (relation "measure (\<lambda>(_, _, _, st, _). size_list size st)")
     (auto simp: size_list_append less_SucI listed_children_smaller simp del: json.size)

definition collect :: "string \<Rightarrow> string \<Rightarrow> string \<Rightarrow> json option \<Rightarrow> string \<times> json list" where
  "collect ck tk bk docroot =
     (case docroot of
        None \<Rightarrow> ([], [])
      | Some node \<Rightarrow> (let (parts, boxes) = collect_loop ck tk bk [node] [] [] in (join [CHR 0x0A] parts, boxes)))"

section \<open>Boxes as they arrive\<close>

fun to_float :: "(string \<Rightarrow> real option) \<Rightarrow> json \<Rightarrow> exc + real" where
  "to_float pf (JNum x) = Inr x"
| "to_float pf (JBool b) = Inr (if b then 1 else 0)"
| "to_float pf (JStr s) = (case pf s of None \<Rightarrow> Inl (OtherException ''ValueError'') | Some x \<Rightarrow> Inr x)"
| "to_float pf _ = Inl (OtherException ''TypeError'')"

fun float_fields :: "(string \<Rightarrow> real option) \<Rightarrow> (string \<times> json) list \<Rightarrow> string list \<Rightarrow> exc + (string \<times> real) list" where
  "float_fields pf kvs [] = Inr []"
| "float_fields pf kvs (k # ks) =
     (case map_of kvs k of
        None \<Rightarrow> Inl (OtherException ''ValueError'')
      | Some v \<Rightarrow> sum_bind (to_float pf v) (\<lambda>x. sum_bind (float_fields pf kvs ks) (\<lambda>r. Inr ((k, x) # r))))"

fun floats :: "(string \<Rightarrow> real option) \<Rightarrow> json list \<Rightarrow> exc + real list" where
  "floats pf [] = Inr []"
| "floats pf (v # vs) = sum_bind (to_float pf v) (\<lambda>x. sum_bind (floats pf vs) (\<lambda>r. Inr (x # r)))"

fun box_of_json :: "(string \<Rightarrow> real option) \<Rightarrow> json \<Rightarrow> exc + box" where
  "box_of_json pf (JObj kvs) =
     sum_bind (float_fields pf kvs [''x'', ''y'', ''w'', ''h'']) (\<lambda>r. as_box (MapObj r))"
| "box_of_json pf (JArr vs) =
     (if length vs \<noteq> 4 then Inl (OtherException ''ValueError'') else sum_bind (floats pf vs) (\<lambda>r. as_box (SeqObj r)))"
| "box_of_json pf _ = as_box OtherObj"

fun boxes_of_json :: "(string \<Rightarrow> real option) \<Rightarrow> json list \<Rightarrow> exc + box list" where
  "boxes_of_json pf [] = Inr []"
| "boxes_of_json pf (j # js) = sum_bind (box_of_json pf j) (\<lambda>b. sum_bind (boxes_of_json pf js) (\<lambda>bs. Inr (b # bs)))"

section \<open>The computation\<close>

record eval_result =
  er_cer :: text_score
  er_wer :: text_score
  er_boxes :: box_report
  er_predicted_boxes :: nat
  er_truth_boxes :: nat
  er_distance :: nat
  er_normalised :: real
  er_predicted_nodes :: nat
  er_truth_nodes :: nat
  er_predicted_depth :: nat
  er_truth_depth :: nat
  er_ted_work :: nat

definition codepoints :: "string \<Rightarrow> codepoint list" where "codepoints s = map of_char s"

definition compute ::
  "unicode \<Rightarrow> (string \<Rightarrow> real option) \<Rightarrow> eval_request \<Rightarrow> tree_arrays \<Rightarrow> tree_arrays \<Rightarrow> nat \<Rightarrow> exc + eval_result" where
  "compute u pf rq predicted_tree truth_tree ted_work =
     (let (predicted_text, predicted_boxes) = collect (rq_children_key rq) (rq_text_key rq) (rq_bbox_key rq) (rq_predicted rq);
          (truth_text, truth_boxes) = collect (rq_children_key rq) (rq_text_key rq) (rq_bbox_key rq) (rq_truth rq);
          cer = cer_score u (codepoints truth_text) (codepoints predicted_text) (rq_cer_unit rq);
          wer = wer_score u (codepoints truth_text) (codepoints predicted_text)
      in sum_bind (boxes_of_json pf predicted_boxes) (\<lambda>ps. sum_bind (boxes_of_json pf truth_boxes) (\<lambda>ts.
         sum_bind (score_boxes (map BoxObj ps) (map BoxObj ts) (rq_iou_threshold rq)) (\<lambda>box_report.
           let distance = tree_edit_distance predicted_tree truth_tree
           in Inr \<lparr>er_cer = cer, er_wer = wer, er_boxes = box_report, er_predicted_boxes = length predicted_boxes,
                   er_truth_boxes = length truth_boxes, er_distance = distance,
                   er_normalised = normalised \<lparr>tsc_distance = distance, tsc_truth_nodes = te_size truth_tree,
                     tsc_predicted_nodes = te_size predicted_tree\<rparr>,
                   er_predicted_nodes = te_size predicted_tree, er_truth_nodes = te_size truth_tree,
                   er_predicted_depth = te_depth predicted_tree, er_truth_depth = te_depth truth_tree,
                   er_ted_work = ted_work\<rparr>))))"

definition parse_side :: "eval_settings \<Rightarrow> eval_request \<Rightarrow> json option \<Rightarrow> exc + tree_arrays" where
  "parse_side es rq tree =
     (case parse_tree (rq_label_key rq) (rq_children_key rq) tree of
        Inl e \<Rightarrow> Inl (if e = OtherException ''ValueError'' then HTTPException 422 None else e)
      | Inr parsed \<Rightarrow> if int (te_size parsed) > es_max_nodes es then Inl (HTTPException 413 None) else Inr parsed)"

record timings =
  tm_ted_ms :: real
  tm_text_ms :: real
  tm_boxes_ms :: real

definition observe_timings :: "timings \<Rightarrow> histogram option \<Rightarrow> exc + histogram option" where
  "observe_timings tm h =
     (case h of
        None \<Rightarrow> Inr None
      | Some h0 \<Rightarrow>
          sum_bind (observe (tm_ted_ms tm / 1000) [(''metric'', ''ted'')] h0) (\<lambda>h1.
          sum_bind (observe (tm_text_ms tm / 1000) [(''metric'', ''text'')] h1) (\<lambda>h2.
          sum_bind (observe (tm_boxes_ms tm / 1000) [(''metric'', ''boxes'')] h2) (\<lambda>h3. Inr (Some h3)))))"

definition evaluate_trees ::
  "unicode \<Rightarrow> (string \<Rightarrow> real option) \<Rightarrow> eval_settings \<Rightarrow> eval_request \<Rightarrow> timings \<Rightarrow> histogram option
   \<Rightarrow> exc + eval_result \<times> histogram option" where
  "evaluate_trees u pf es rq tm h =
     sum_bind (parse_side es rq (rq_predicted rq)) (\<lambda>predicted_tree.
     sum_bind (parse_side es rq (rq_truth rq)) (\<lambda>truth_tree.
     let ted_work = keyroot_weight predicted_tree * keyroot_weight truth_tree
     in if int ted_work > eval_max_ted_work es then Inl (HTTPException 413 None)
        else
          case compute u pf rq predicted_tree truth_tree ted_work of
            Inl e \<Rightarrow> Inl (if e = OtherException ''ValueError'' then HTTPException 422 None else e)
          | Inr result \<Rightarrow> sum_bind (observe_timings tm h) (\<lambda>h'. Inr (result, h'))))"

section \<open>Document order\<close>

text \<open>The dict nodes of a forest in pre-order, left to right.\<close>

function walk :: "string \<Rightarrow> json list \<Rightarrow> (string \<times> json) list list" where
  "walk ck [] = []"
| "walk ck (n # ns) = (case n of JObj kvs \<Rightarrow> kvs # walk ck (listed_children ck kvs) @ walk ck ns | _ \<Rightarrow> walk ck ns)"
  by pat_completeness auto
termination
  by (relation "measure (\<lambda>(_, st). size_list size st)")
     (auto simp: less_SucI listed_children_smaller trans_less_add1 simp del: json.size)

lemma collect_loop_walk:
  "collect_loop ck tk bk (ns @ st) parts boxes =
     collect_loop ck tk bk st (parts @ concat (map (node_text tk) (walk ck ns))) (boxes @ concat (map (node_box bk) (walk ck ns)))"
proof (induction ck ns arbitrary: st parts boxes rule: walk.induct)
  case (2 ck n ns)
  show ?case
  proof (cases n)
    case (JObj kvs)
    then show ?thesis
      using "2.IH"(6) [OF JObj, of "ns @ st"] "2.IH"(7) [OF JObj, of st] by simp
  qed (use "2.IH"(1-5) in simp_all)
qed simp

definition reading_order :: "string \<Rightarrow> json option \<Rightarrow> (string \<times> json) list list" where
  "reading_order ck docroot = (case docroot of None \<Rightarrow> [] | Some n \<Rightarrow> walk ck [n])"

lemma collect_eq:
  "collect ck tk bk docroot =
     (join [CHR 0x0A] (concat (map (node_text tk) (reading_order ck docroot))), concat (map (node_box bk) (reading_order ck docroot)))"
  using collect_loop_walk [of ck tk bk "[the docroot]" "[]" "[]" "[]"]
  by (auto simp: collect_def reading_order_def Let_def split: option.split simp del: walk.simps collect_loop.simps(2))

section \<open>What an answer says\<close>

definition doc_text :: "eval_request \<Rightarrow> json option \<Rightarrow> codepoint list" where
  "doc_text rq docroot = codepoints (join [CHR 0x0A] (concat (map (node_text (rq_text_key rq)) (reading_order (rq_children_key rq) docroot))))"

lemma parse_side_facts:
  assumes "parse_side es rq r = Inr a"
  shows "parse_tree (rq_label_key rq) (rq_children_key rq) r = Inr a" "int (te_size a) \<le> es_max_nodes es"
  using assms by (auto simp: parse_side_def split: sum.splits if_splits)

lemma compute_facts:
  assumes "compute u pf rq a b w = Inr r"
  shows "er_distance r = tree_edit_distance a b" "er_predicted_nodes r = te_size a" "er_truth_nodes r = te_size b" "er_ted_work r = w"
    "er_cer r = cer_score u (doc_text rq (rq_truth rq)) (doc_text rq (rq_predicted rq)) (rq_cer_unit rq)"
    "er_wer r = wer_score u (doc_text rq (rq_truth rq)) (doc_text rq (rq_predicted rq))"
  using assms by (auto simp: compute_def collect_eq doc_text_def Let_def sum_bind_def split: sum.splits)

text \<open>
  C29. An answer is sound and was affordable. Whenever the endpoint answers, both sides are trees
  within the node limit, the tree distance is the least number of edits between them, the number
  of table cells the computation filled is the work it reports and lies within the configured
  budget, and the text scores compare the texts of the two trees in reading order.
\<close>

theorem evaluation_sound:
  assumes "evaluate_trees u pf es rq tm h = Inr (r, h')"
  shows "\<exists>a b P T.
    parse_tree (rq_label_key rq) (rq_children_key rq) (rq_predicted rq) = Inr a \<and>
    parse_tree (rq_label_key rq) (rq_children_key rq) (rq_truth rq) = Inr b \<and>
    document (rq_label_key rq) (rq_children_key rq) (rq_predicted rq) = Inr P \<and>
    document (rq_label_key rq) (rq_children_key rq) (rq_truth rq) = Inr T \<and>
    er_distance r = (LEAST n. (edit1 ^^ n) P T) \<and>
    er_predicted_nodes r = fsize P \<and> er_truth_nodes r = fsize T \<and>
    int (fsize P) \<le> es_max_nodes es \<and> int (fsize T) \<le> es_max_nodes es \<and>
    er_ted_work r = cells_filled a b \<and> int (cells_filled a b) \<le> eval_max_ted_work es \<and>
    er_cer r = cer_score u (doc_text rq (rq_truth rq)) (doc_text rq (rq_predicted rq)) (rq_cer_unit rq) \<and>
    er_wer r = wer_score u (doc_text rq (rq_truth rq)) (doc_text rq (rq_predicted rq))"
proof -
  obtain a b where a: "parse_side es rq (rq_predicted rq) = Inr a" and b: "parse_side es rq (rq_truth rq) = Inr b"
    and w: "int (keyroot_weight a * keyroot_weight b) \<le> eval_max_ted_work es"
    and c: "compute u pf rq a b (keyroot_weight a * keyroot_weight b) = Inr r"
    using assms by (auto simp: evaluate_trees_def sum_bind_def Let_def split: sum.splits if_splits)
  note A = parse_side_facts [OF a] and B = parse_side_facts [OF b]
  obtain P T where P: "document (rq_label_key rq) (rq_children_key rq) (rq_predicted rq) = Inr P" "arrays_ok a"
    and T: "document (rq_label_key rq) (rq_children_key rq) (rq_truth rq) = Inr T" "arrays_ok b"
    using parse_document [of "rq_label_key rq" "rq_children_key rq" "rq_predicted rq"]
      parse_document [of "rq_label_key rq" "rq_children_key rq" "rq_truth rq"] A(1) B(1) by auto
  note d = distance_of_documents [OF A(1) B(1) P(1) T(1), unfolded edit_distance_def]
  show ?thesis
    using A B P T d w compute_facts [OF c] cells_filled_product [OF P(2) T(2)]
    by (intro exI [of _ a] exI [of _ b] exI [of _ P] exI [of _ T]) simp
qed

section \<open>What a refusal says\<close>

lemma to_docs_error: "to_docs lk ck ns = Inl e \<Longrightarrow> e = OtherException ''ValueError''"
proof (induction lk ck ns rule: to_docs.induct)
  case (2 lk ck n ns)
  have "e = OtherException ''ValueError''" if "children_of ck n = Inl e"
    using that by (cases n) (auto split: option.splits if_splits json.splits)
  moreover have "e = OtherException ''ValueError''" if "label_of lk n = Inl e"
    using that by (cases n) (auto split: option.splits)
  ultimately show ?case using 2 by (auto simp: sum_bind_def split: sum.splits)
qed simp

lemma parse_side_error: "parse_side es rq r = Inl e \<Longrightarrow> e = HTTPException 413 None \<or> e = HTTPException 422 None"
  by (auto simp: parse_side_def parse_tree_eq sum_bind_def simp del: to_docs.simps split: sum.splits if_splits option.splits
      dest!: to_docs_error)

definition box_error :: "exc \<Rightarrow> bool" where
  "box_error e \<longleftrightarrow> e = OtherException ''ValueError'' \<or> e = OtherException ''TypeError''"

lemma to_float_error: "to_float pf v = Inl e \<Longrightarrow> box_error e"
  by (cases v) (auto simp: box_error_def split: option.splits)

lemma float_fields_error: "float_fields pf kvs ks = Inl e \<Longrightarrow> box_error e"
  by (induction ks) (auto simp: sum_bind_def split: option.splits sum.splits dest: to_float_error, simp add: box_error_def)

lemma floats_error: "floats pf vs = Inl e \<Longrightarrow> box_error e"
  by (induction vs) (auto simp: sum_bind_def split: sum.splits dest: to_float_error)

lemma as_box_error: "as_box x = Inl e \<Longrightarrow> box_error e"
  by (auto simp: as_box_def box_error_def split: box_obj.splits list.splits option.splits if_splits)

lemma box_of_json_error: "box_of_json pf j = Inl e \<Longrightarrow> box_error e"
  by (cases j) (auto simp: sum_bind_def box_error_def [of "OtherException ''ValueError''"] simp del: float_fields.simps
      split: sum.splits if_splits dest: float_fields_error floats_error as_box_error)

lemma boxes_of_json_error: "boxes_of_json pf js = Inl e \<Longrightarrow> box_error e"
  by (induction js) (auto simp: sum_bind_def split: sum.splits dest: box_of_json_error)

lemma as_box_ok: "as_box x = Inr b \<Longrightarrow> as_box (BoxObj b) = Inr b"
  by (auto simp: as_box_def split: sum.splits if_splits)

lemma boxes_of_json_ok: "boxes_of_json pf js = Inr bs \<Longrightarrow> as_boxes (map BoxObj bs) = Inr bs"
proof (induction js arbitrary: bs)
  case (Cons j js)
  obtain b bs' where b: "box_of_json pf j = Inr b" "boxes_of_json pf js = Inr bs'" "bs = b # bs'"
    using Cons.prems by (auto simp: sum_bind_def split: sum.splits)
  have "as_box (BoxObj b) = Inr b"
    using b(1) by (cases j) (auto simp: sum_bind_def simp del: float_fields.simps split: sum.splits if_splits dest: as_box_ok)
  then show ?case using Cons.IH [OF b(2)] b(3) by simp
qed simp

lemma compute_error: "compute u pf rq a b w = Inl e \<Longrightarrow> box_error e"
  by (auto simp: compute_def Let_def sum_bind_def score_boxes_def match_boxes_def split: sum.splits prod.splits
      dest: boxes_of_json_error boxes_of_json_ok)

text \<open>
  A request is refused in three ways only: too large or too costly (413), malformed (422), or a
  \<^verbatim>\<open>TypeError\<close> from a box value of the wrong kind, which nothing handles.
\<close>

theorem evaluation_refusals:
  assumes "evaluate_trees u pf es rq tm h = Inl e" and "\<forall>g. h = Some g \<longrightarrow> hg_labelnames g = [''metric'']"
  shows "e = HTTPException 413 None \<or> e = HTTPException 422 None \<or> e = OtherException ''TypeError''"
proof -
  have obs: "\<exists>h'. observe_timings tm h = Inr h'"
  proof (cases h)
    case (Some g)
    obtain g1 where 1: "observe (tm_ted_ms tm / 1000) [(''metric'', ''ted'')] g = Inr g1" "hg_labelnames g1 = [''metric'']"
      using observe_fits [of "[(''metric'', ''ted'')]" g] assms(2) Some by auto
    obtain g2 where 2: "observe (tm_text_ms tm / 1000) [(''metric'', ''text'')] g1 = Inr g2" "hg_labelnames g2 = [''metric'']"
      using observe_fits [of "[(''metric'', ''text'')]" g1] 1(2) by auto
    obtain g3 where 3: "observe (tm_boxes_ms tm / 1000) [(''metric'', ''boxes'')] g2 = Inr g3"
      using observe_fits [of "[(''metric'', ''boxes'')]" g2] 2(2) by auto
    show ?thesis using Some 1 2 3 by (simp add: observe_timings_def sum_bind_def)
  qed (simp add: observe_timings_def)
  then show ?thesis
    using assms(1)
    by (auto simp: evaluate_trees_def sum_bind_def Let_def box_error_def split: sum.splits if_splits
        dest!: parse_side_error compute_error)
qed

section \<open>Examples\<close>

definition demo_eval :: "json option \<Rightarrow> json option \<Rightarrow> eval_request" where
  "demo_eval p t = \<lparr>rq_predicted = p, rq_truth = t, rq_iou_threshold = 1 / 2, rq_cer_unit = codepoint_unit, rq_label_key = ''type'',
     rq_children_key = ''children'', rq_text_key = ''text'', rq_bbox_key = ''bbox''\<rparr>"

definition demo_limits :: eval_settings where
  "demo_limits = \<lparr>es_max_nodes = 2000, es_ted_budget_ms = 100, es_ted_work_per_ms = 1800\<rparr>"

definition ascii :: unicode where "ascii = \<lparr>uc_mark = \<lambda>_. False, uc_combining = \<lambda>_. 0, uc_space = \<lambda>c. c = 32 \<or> c = 10\<rparr>"

lemma demo_evaluated:
  "\<exists>r. evaluate_trees ascii (\<lambda>_. None) demo_limits (demo_eval (Some chain3) (Some star3)) tm None = Inr (r, None) \<and> er_ted_work r = 12"
proof -
  have "keyroot_weight \<lparr>te_labels = l, te_leftmost = [0, 1, 1, 1], te_keyroots = [3], te_depth = 3\<rparr> = 3"
    "keyroot_weight \<lparr>te_labels = l, te_leftmost = [0, 1, 2, 1], te_keyroots = [2, 3], te_depth = 2\<rparr> = 4" for l
    by (simp_all add: keyroot_weight_def)
  moreover have "snd (collect ''children'' ''text'' ''bbox'' (Some chain3)) = []" "snd (collect ''children'' ''text'' ''bbox'' (Some star3)) = []"
    by (simp_all add: collect_def chain3_def star3_def listed_children_def node_box_def node_text_def)
  ultimately show ?thesis
    by (simp add: evaluate_trees_def parse_side_def demo_eval_def demo_limits_def chain3_parsed [simplified] star3_parsed [simplified]
        sum_bind_def te_size_def eval_max_ted_work_def compute_def observe_timings_def Let_def split_def score_boxes_def match_boxes_def)
qed

theorem evaluation_sound_witness:
  "\<exists>r P T. evaluate_trees ascii (\<lambda>_. None) demo_limits (demo_eval (Some chain3) (Some star3)) \<lparr>tm_ted_ms = 1, tm_text_ms = 1, tm_boxes_ms = 1\<rparr> None
       = Inr (r, None) \<and>
     document ''type'' ''children'' (Some chain3) = Inr P \<and> document ''type'' ''children'' (Some star3) = Inr T \<and>
     er_distance r = (LEAST n. (edit1 ^^ n) P T) \<and> er_ted_work r = 12"
proof -
  let ?tm = "\<lparr>tm_ted_ms = 1, tm_text_ms = 1, tm_boxes_ms = 1\<rparr>"
  obtain r where r: "evaluate_trees ascii (\<lambda>_. None) demo_limits (demo_eval (Some chain3) (Some star3)) ?tm None = Inr (r, None)"
    "er_ted_work r = 12" using demo_evaluated by blast
  have k: "rq_label_key (demo_eval p t) = ''type''" "rq_children_key (demo_eval p t) = ''children''"
    "rq_predicted (demo_eval p t) = p" "rq_truth (demo_eval p t) = t" for p t by (simp_all add: demo_eval_def)
  show ?thesis using r evaluation_sound [OF r(1), unfolded k] by blast
qed

text \<open>
  A box that is a plain number, or has a null coordinate, is not refused as malformed: the
  \<^verbatim>\<open>TypeError\<close> leaves the handler and the client is told that the server failed.
\<close>

lemma scalar_box_not_refused:
  "evaluate_trees ascii (\<lambda>_. None) demo_limits
     (demo_eval (Some (JObj [(''type'', JStr ''p''), (''bbox'', JNum 5)])) None) tm h = Inl (OtherException ''TypeError'')"
  by (simp add: evaluate_trees_def parse_side_def demo_eval_def demo_limits_def parse_tree_def sum_bind_def keyroots_of_def te_size_def
      keyroot_weight_def eval_max_ted_work_def compute_def collect_def listed_children_def node_text_def node_box_def as_box_def upt_rec)

theorem evaluation_refusals_witness:
  "evaluate_trees ascii (\<lambda>_. None) demo_limits
     (demo_eval (Some (JObj [(''type'', JStr ''p''), (''bbox'', JArr [JNum 1])])) None) \<lparr>tm_ted_ms = 1, tm_text_ms = 1, tm_boxes_ms = 1\<rparr> None
     = Inl (HTTPException 422 None)
   \<and> (HTTPException 422 None = HTTPException 413 None \<or> HTTPException 422 None = HTTPException 422 None
      \<or> HTTPException 422 None = OtherException ''TypeError'')"
proof -
  have e: "evaluate_trees ascii (\<lambda>_. None) demo_limits
     (demo_eval (Some (JObj [(''type'', JStr ''p''), (''bbox'', JArr [JNum 1])])) None) \<lparr>tm_ted_ms = 1, tm_text_ms = 1, tm_boxes_ms = 1\<rparr> None
     = Inl (HTTPException 422 None)"
    by (simp add: evaluate_trees_def parse_side_def demo_eval_def demo_limits_def parse_tree_def sum_bind_def keyroots_of_def te_size_def
      keyroot_weight_def eval_max_ted_work_def compute_def collect_def listed_children_def node_text_def node_box_def as_box_def upt_rec)
  show ?thesis using e evaluation_refusals [OF e] by blast
qed

end
