(* ===== verification/Mock_Payloads.thy ===== *)
theory Mock_Payloads
  imports Evaluate
begin

text \<open>
  The synthetic answers of the mock models, \<^verbatim>\<open>src/mock_model/payloads.py\<close>: a page of boxes for the layout
  model and a document tree over the same boxes for the vision model. Every draw of the source is
  made in the source's order. The generator is \<^verbatim>\<open>random.Random\<close>, seeded from a digest: its two
  primitives are parameters, and \<^verbatim>\<open>uniform\<close>, \<^verbatim>\<open>randint\<close> and \<^verbatim>\<open>choice\<close> are defined from them as the
  library does.
\<close>

section \<open>Draws\<close>

text \<open>
  \<open>rg_seed\<close> is the generator seeded from the digest of a text, \<open>rg_random\<close> draws a number in the unit
  interval and \<open>rg_below n\<close> a number below \<open>n\<close>.
\<close>

record 'g rng =
  rg_seed :: "string \<Rightarrow> 'g"
  rg_random :: "'g \<Rightarrow> real \<times> 'g"
  rg_below :: "nat \<Rightarrow> 'g \<Rightarrow> nat \<times> 'g"

definition rng_lawful :: "'g rng \<Rightarrow> bool" where
  "rng_lawful R \<longleftrightarrow> (\<forall>g. 0 \<le> fst (rg_random R g) \<and> fst (rg_random R g) < 1) \<and> (\<forall>n g. 0 < n \<longrightarrow> fst (rg_below R n g) < n)"

definition uniform :: "'g rng \<Rightarrow> real \<Rightarrow> real \<Rightarrow> 'g \<Rightarrow> real \<times> 'g" where
  "uniform R a b g = (let (u, g') = rg_random R g in (a + (b - a) * u, g'))"

definition randint :: "'g rng \<Rightarrow> nat \<Rightarrow> nat \<Rightarrow> 'g \<Rightarrow> nat \<times> 'g" where
  "randint R a b g = (let (k, g') = rg_below R (b - a + 1) g in (a + k, g'))"

definition choice :: "'g rng \<Rightarrow> 'a list \<Rightarrow> 'g \<Rightarrow> 'a \<times> 'g" where
  "choice R xs g = (let (k, g') = rg_below R (length xs) g in (xs ! k, g'))"

fun draws :: "nat \<Rightarrow> ('g \<Rightarrow> 'a \<times> 'g) \<Rightarrow> 'g \<Rightarrow> 'a list \<times> 'g" where
  "draws 0 d g = ([], g)"
| "draws (Suc n) d g = (let (x, g1) = d g; (xs, g2) = draws n d g1 in (x # xs, g2))"

text \<open>\<^verbatim>\<open>round(x, n)\<close>.\<close>

definition round_to :: "nat \<Rightarrow> real \<Rightarrow> real" where
  "round_to n x = of_int (round_half_even (x * 10 ^ n)) / 10 ^ n"

definition PAGE_WIDTH :: real where "PAGE_WIDTH = 612"
definition PAGE_HEIGHT :: real where "PAGE_HEIGHT = 792"

definition WORDS :: "string list" where
  "WORDS = [''invoice'', ''total'', ''amount'', ''due'', ''date'', ''vendor'', ''address'', ''quantity'', ''unit'', ''price'', ''tax'',
     ''subtotal'', ''discount'', ''payment'', ''terms'', ''net'', ''remittance'', ''purchase'', ''order'', ''item'',
     ''description'', ''reference'', ''account'', ''currency'', ''balance'', ''credit'', ''debit'']"

definition payload_rng :: "'g rng \<Rightarrow> string \<Rightarrow> int \<Rightarrow> string \<Rightarrow> 'g" where
  "payload_rng R job_id page_index salt = rg_seed R (job_id @ '':'' @ str_int page_index @ '':'' @ salt)"

definition sentence :: "'g rng \<Rightarrow> nat \<Rightarrow> 'g \<Rightarrow> string \<times> 'g" where
  "sentence R n g = (let (ws, g') = draws n (choice R WORDS) g in (join '' '' ws, g'))"

section \<open>The layout model\<close>

record layout_box =
  lb_id :: nat
  lb_type :: string
  lb_x :: real
  lb_y :: real
  lb_w :: real
  lb_h :: real
  lb_confidence :: real

definition BOX_TYPES :: "string list" where
  "BOX_TYPES = [''title'', ''paragraph'', ''paragraph'', ''table'', ''figure'']"

text \<open>The loop over the blocks: \<open>n\<close> are left, the next has id \<open>i\<close> and starts at \<open>y\<close>; the page's end breaks it.\<close>

fun layout_boxes :: "'g rng \<Rightarrow> nat \<Rightarrow> nat \<Rightarrow> real \<Rightarrow> 'g \<Rightarrow> layout_box list" where
  "layout_boxes R i 0 y g = []"
| "layout_boxes R i (Suc n) y g =
     (let (height, g1) = uniform R 30 90 g
      in if y + height > PAGE_HEIGHT - 40 then []
         else
           let (kind, g2) = choice R BOX_TYPES g1;
               (x, g3) = uniform R 40 80 g2;
               (w, g4) = uniform R 400 500 g3;
               (conf, g5) = uniform R (82 / 100) (99 / 100) g4;
               (gap, g6) = uniform R 8 20 g5
           in \<lparr>lb_id = i, lb_type = kind, lb_x = round_to 2 x, lb_y = round_to 2 y, lb_w = round_to 2 w, lb_h = round_to 2 height,
               lb_confidence = round_to 3 conf\<rparr> # layout_boxes R (Suc i) n (y + (height + gap)) g6)"

definition page_boxes :: "'g rng \<Rightarrow> string \<Rightarrow> int \<Rightarrow> layout_box list" where
  "page_boxes R job_id page_index =
     (let (n_blocks, g) = randint R 4 9 (payload_rng R job_id page_index ''layout'') in layout_boxes R 0 n_blocks 40 g)"

definition box_json :: "layout_box \<Rightarrow> json" where
  "box_json b = JObj [(''id'', JNum (of_nat (lb_id b))), (''type'', JStr (lb_type b)), (''x'', JNum (lb_x b)), (''y'', JNum (lb_y b)),
     (''w'', JNum (lb_w b)), (''h'', JNum (lb_h b)), (''confidence'', JNum (lb_confidence b))]"

definition layout_payload :: "'g rng \<Rightarrow> string \<Rightarrow> int \<Rightarrow> json" where
  "layout_payload R job_id page_index =
     (let boxes = page_boxes R job_id page_index
      in JObj [(''model'', JStr ''fast-layout''), (''page_index'', JNum (of_int page_index)), (''boxes'', JArr (map box_json boxes)),
           (''reading_order'', JArr (map (\<lambda>b. JNum (of_nat (lb_id b))) boxes)),
           (''page_size'', JObj [(''w'', JNum PAGE_WIDTH), (''h'', JNum PAGE_HEIGHT)])])"

section \<open>The vision model\<close>

definition bbox_json :: "layout_box \<Rightarrow> json" where
  "bbox_json b = JArr [JNum (lb_x b), JNum (lb_y b), JNum (lb_w b), JNum (lb_h b)]"

definition row_json :: "string list \<Rightarrow> json" where
  "row_json cells = JObj [(''type'', JStr ''row''),
     (''children'', JArr (map (\<lambda>c. JObj [(''type'', JStr ''cell''), (''text'', JStr c)]) cells))]"

definition md_row :: "string list \<Rightarrow> string" where
  "md_row cells = ''| '' @ join '' | '' cells @ '' |''"

text \<open>A table: its rows of cells as nodes, and as markdown with the separator behind the first row.\<close>

definition draw_table :: "'g rng \<Rightarrow> 'g \<Rightarrow> (json list \<times> string) \<times> 'g" where
  "draw_table R g =
     (let (n_rows, g1) = randint R 2 4 g;
          (n_cols, g2) = randint R 2 4 g1;
          (grid, g3) = draws n_rows (draws n_cols (sentence R 1)) g2;
          md_rows = map md_row grid;
          md = take 1 md_rows @ [''|'' @ join ''|'' (replicate n_cols ''---'') @ ''|''] @ drop 1 md_rows
      in ((map row_json grid, join [CHR 0x0A] md), g3))"

record drawn_page =
  dp_children :: "json list"
  dp_text_parts :: "string list"
  dp_tables :: "string list"

fun draw_page :: "'g rng \<Rightarrow> layout_box list \<Rightarrow> 'g \<Rightarrow> drawn_page \<times> 'g" where
  "draw_page R [] g = (\<lparr>dp_children = [], dp_text_parts = [], dp_tables = []\<rparr>, g)"
| "draw_page R (b # bs) g =
     (if lb_type b = ''table''
      then
        let ((rows, md), g1) = draw_table R g; (p, g2) = draw_page R bs g1
        in (p\<lparr>dp_children := JObj [(''type'', JStr ''table''), (''bbox'', bbox_json b), (''children'', JArr rows)] # dp_children p,
              dp_tables := md # dp_tables p\<rparr>, g2)
      else if lb_type b = ''figure''
      then
        let (p, g2) = draw_page R bs g
        in (p\<lparr>dp_children := JObj [(''type'', JStr ''figure''), (''bbox'', bbox_json b), (''text'', JStr [])] # dp_children p\<rparr>, g2)
      else
        let (n, g1) = randint R 6 14 g; (body, g2) = sentence R n g1; (p, g3) = draw_page R bs g2
        in (p\<lparr>dp_children := JObj [(''type'', JStr (lb_type b)), (''bbox'', bbox_json b), (''text'', JStr body)] # dp_children p,
              dp_text_parts := body # dp_text_parts p\<rparr>, g3))"

text \<open>The key-value pairs: a dict, in which a later pair replaces the value of an equal key.\<close>

definition draw_pair :: "'g rng \<Rightarrow> 'g \<Rightarrow> (string \<times> string) \<times> 'g" where
  "draw_pair R g = (let (k, g1) = choice R WORDS g; (v, g2) = sentence R 2 g1 in ((k, v), g2))"

definition page_tree :: "json list \<Rightarrow> json" where
  "page_tree children = JObj [(''type'', JStr ''page''), (''bbox'', JArr [JNum 0, JNum 0, JNum PAGE_WIDTH, JNum PAGE_HEIGHT]),
     (''children'', JArr children)]"

definition vlm_payload :: "'g rng \<Rightarrow> string \<Rightarrow> int \<Rightarrow> json" where
  "vlm_payload R job_id page_index =
     (let (p, g1) = draw_page R (page_boxes R job_id page_index) (payload_rng R job_id page_index ''vlm'');
          (n_kv, g2) = randint R 1 3 g1;
          (pairs, g3) = draws n_kv (draw_pair R) g2;
          (conf, _) = uniform R (88 / 100) (99 / 100) g3
      in JObj [(''model'', JStr ''heavy-vlm''), (''page_index'', JNum (of_int page_index)),
           (''text'', JStr (join [CHR 0x0A] (dp_text_parts p))), (''tables'', JArr (map JStr (dp_tables p))),
           (''key_values'', JObj (map (\<lambda>(k, v). (k, JStr v)) (fold (\<lambda>(k, v). AList.update k v) pairs []))),
           (''tree'', page_tree (dp_children p)), (''confidence'', JNum (round_to 3 conf))])"

section \<open>What a draw can be\<close>

lemma uniform_bounds:
  assumes "rng_lawful R" "a \<le> b"
  shows "a \<le> fst (uniform R a b g)" "fst (uniform R a b g) \<le> b"
proof -
  have "0 \<le> fst (rg_random R g)" "fst (rg_random R g) \<le> 1" using assms(1) by (auto simp: rng_lawful_def less_imp_le)
  from mult_nonneg_nonneg [OF _ this(1), of "b - a"] mult_left_le [OF this(2), of "b - a"] assms(2)
  show "a \<le> fst (uniform R a b g)" "fst (uniform R a b g) \<le> b" by (simp_all add: uniform_def split_def Let_def)
qed

lemma randint_bounds:
  assumes "rng_lawful R" "a \<le> b"
  shows "a \<le> fst (randint R a b g)" "fst (randint R a b g) \<le> b"
proof -
  have "fst (rg_below R (b - a + 1) g) < b - a + 1" using assms(1) by (simp add: rng_lawful_def)
  then show "a \<le> fst (randint R a b g)" "fst (randint R a b g) \<le> b" using assms(2) by (simp_all add: randint_def split_def Let_def)
qed

lemma choice_in: "rng_lawful R \<Longrightarrow> xs \<noteq> [] \<Longrightarrow> fst (choice R xs g) \<in> set xs"
  by (simp add: choice_def rng_lawful_def split_def Let_def)

lemma draws_length: "length (fst (draws n d g)) = n"
  by (induction n arbitrary: g) (simp_all add: split_def Let_def)

lemma draws_all: "(\<And>g. P (fst (d g))) \<Longrightarrow> x \<in> set (fst (draws n d g)) \<Longrightarrow> P x"
  by (induction n arbitrary: g) (auto simp: split_def Let_def)

lemma round_half_even_near: "x - 1 / 2 \<le> of_int (round_half_even x)" "of_int (round_half_even x) \<le> x + 1 / 2"
  using of_int_floor_le [of x] real_of_int_floor_add_one_gt [of x]
  by (simp_all only: round_half_even_def Let_def of_int_add of_int_1 split: if_split) linarith+

lemma round_to_near: "x - 1 / 200 \<le> round_to 2 x" "round_to 2 x \<le> x + 1 / 200"
  using round_half_even_near [of "x * 100"] by (simp_all add: round_to_def field_simps)

section \<open>Pages of boxes\<close>

definition on_page :: "layout_box \<Rightarrow> bool" where
  "on_page b \<longleftrightarrow> 0 \<le> lb_x b \<and> 0 < lb_w b \<and> lb_x b + lb_w b \<le> PAGE_WIDTH \<and> 0 \<le> lb_y b \<and> 0 < lb_h b \<and> lb_y b + lb_h b \<le> PAGE_HEIGHT \<and>
     lb_type b \<in> set BOX_TYPES"

definition above :: "layout_box \<Rightarrow> layout_box \<Rightarrow> bool" where
  "above b b' \<longleftrightarrow> lb_y b + lb_h b < lb_y b'"

lemma layout_boxes_sound:
  assumes "rng_lawful R" "40 \<le> y"
  shows "list_all on_page (layout_boxes R i n y g) \<and> list_all (\<lambda>b. y - 1 / 200 \<le> lb_y b) (layout_boxes R i n y g) \<and>
    sorted_wrt above (layout_boxes R i n y g) \<and>
    map lb_id (layout_boxes R i n y g) = [i..<i + length (layout_boxes R i n y g)] \<and> length (layout_boxes R i n y g) \<le> n \<and>
    (\<forall>k < n. y + 110 * real k + 90 \<le> 752 \<longrightarrow> k < length (layout_boxes R i n y g))"
  using assms(2)
proof (induction n arbitrary: i y g)
  case (Suc n)
  define h where "h = fst (uniform R 30 90 g)"
  define g1 where "g1 = snd (uniform R 30 90 g)"
  have h: "30 \<le> h" "h \<le> 90" unfolding h_def by (rule uniform_bounds [OF assms(1)], simp)+
  show ?case
  proof (cases "y + h > PAGE_HEIGHT - 40")
    case True
    then have "layout_boxes R i (Suc n) y g = []" by (simp add: h_def split_def Let_def)
    then show ?thesis using True h by (auto simp: PAGE_HEIGHT_def)
  next
    case False
    define kind g2 where "kind = fst (choice R BOX_TYPES g1)" and "g2 = snd (choice R BOX_TYPES g1)"
    define x g3 where "x = fst (uniform R 40 80 g2)" and "g3 = snd (uniform R 40 80 g2)"
    define wd g4 where "wd = fst (uniform R 400 500 g3)" and "g4 = snd (uniform R 400 500 g3)"
    define conf g5 where "conf = fst (uniform R (82 / 100) (99 / 100) g4)" and "g5 = snd (uniform R (82 / 100) (99 / 100) g4)"
    define gap g6 where "gap = fst (uniform R 8 20 g5)" and "g6 = snd (uniform R 8 20 g5)"
    note defs = h_def g1_def kind_def g2_def x_def g3_def wd_def g4_def conf_def g5_def gap_def g6_def
    let ?b = "\<lparr>lb_id = i, lb_type = kind, lb_x = round_to 2 x, lb_y = round_to 2 y, lb_w = round_to 2 wd, lb_h = round_to 2 h,
        lb_confidence = round_to 3 conf\<rparr>"
    let ?r = "layout_boxes R (Suc i) n (y + (h + gap)) g6"
    have e: "layout_boxes R i (Suc n) y g = ?b # ?r" using False by (simp add: defs split_def Let_def)
    have k: "kind \<in> set BOX_TYPES" unfolding kind_def by (rule choice_in [OF assms(1)]) (simp add: BOX_TYPES_def)
    have x: "40 \<le> x" "x \<le> 80" and wd: "400 \<le> wd" "wd \<le> 500" and gap: "8 \<le> gap" "gap \<le> 20"
      unfolding x_def wd_def gap_def by (rule uniform_bounds [OF assms(1)], simp)+
    note near = round_to_near [of x] round_to_near [of y] round_to_near [of wd] round_to_near [of h]
    have "round_to 2 y + round_to 2 h \<le> 792" using near False by (simp add: PAGE_HEIGHT_def)
    then have b: "on_page ?b" unfolding on_page_def PAGE_WIDTH_def PAGE_HEIGHT_def layout_box.simps
      using k x wd h near Suc.prems by (intro conjI) linarith+
    have y': "40 \<le> y + (h + gap)" using h gap Suc.prems by simp
    have IH: "list_all on_page ?r \<and> list_all (\<lambda>b. y + (h + gap) - 1 / 200 \<le> lb_y b) ?r \<and> sorted_wrt above ?r \<and>
        map lb_id ?r = [Suc i..<Suc i + length ?r] \<and> length ?r \<le> n \<and>
        (\<forall>k < n. y + (h + gap) + 110 * real k + 90 \<le> 752 \<longrightarrow> k < length ?r)"
      by (rule Suc.IH [OF y'])
    have first: "\<forall>b' \<in> set ?r. above ?b b'" using IH near h gap by (fastforce simp: list_all_iff above_def)
    have low: "list_all (\<lambda>b. y - 1 / 200 \<le> lb_y b) (?b # ?r)" using IH near h gap by (fastforce simp: list_all_iff)
    have len: "k < length (?b # ?r)" if "k < Suc n" "y + 110 * real k + 90 \<le> 752" for k
    proof (cases k)
      case (Suc k')
      then have "y + (h + gap) + 110 * real k' + 90 \<le> 752" using that h gap by (simp add: algebra_simps)
      then show ?thesis using IH Suc that by simp
    qed simp
    have ids: "map lb_id (?b # ?r) = [i..<i + length (?b # ?r)]" using IH by (simp add: upt_conv_Cons del: upt_Suc)
    show ?thesis unfolding e using IH b first low len ids by (simp del: upt_Suc)
  qed
qed simp

text \<open>
  A mock page looks like a page. Whatever the generator draws, the layout model's answer has four to
  nine boxes, numbered from zero, each of a known type and inside the page, one above the other
  with room between them.
\<close>

theorem mock_layout_is_a_page:
  assumes "rng_lawful R"
  shows "length (page_boxes R job_id page_index) \<in> {4..9} \<and> list_all on_page (page_boxes R job_id page_index) \<and>
    sorted_wrt above (page_boxes R job_id page_index) \<and>
    map lb_id (page_boxes R job_id page_index) = [0..<length (page_boxes R job_id page_index)]"
proof -
  obtain n g where r: "randint R 4 9 (payload_rng R job_id page_index ''layout'') = (n, g)" by fastforce
  have n: "4 \<le> n" "n \<le> 9" using randint_bounds [OF assms, of 4 9 "payload_rng R job_id page_index ''layout''"] r by simp_all
  have "page_boxes R job_id page_index = layout_boxes R 0 n 40 g" by (simp add: page_boxes_def r)
  then show ?thesis using layout_boxes_sound [OF assms, of 40 0 n g] n
    by (auto simp: dest: spec [of _ 3])
qed

section \<open>Trees the evaluation can read\<close>

text \<open>An object that is a tree of at most \<open>m\<close> nodes.\<close>

definition parses :: "nat \<Rightarrow> json \<Rightarrow> bool" where
  "parses m c \<longleftrightarrow> (\<exists>d. to_docs ''type'' ''children'' [c] = Inr [d] \<and> fsize [d] \<le> m)"

lemma parses_mono: "parses m c \<Longrightarrow> m \<le> n \<Longrightarrow> parses n c"
  by (fastforce simp: parses_def simp del: to_docs.simps)

lemma parses_list:
  assumes "\<forall>c \<in> set cs. parses m c"
  shows "\<exists>F. to_docs ''type'' ''children'' cs = Inr F \<and> fsize F \<le> m * length cs"
  using assms
proof (induction cs)
  case (Cons c cs)
  then obtain d F where d: "to_docs ''type'' ''children'' [c] = Inr [d]" "fsize [d] \<le> m"
      and F: "to_docs ''type'' ''children'' cs = Inr F" "fsize F \<le> m * length cs"
    by (auto simp: parses_def simp del: to_docs.simps)
  have "to_docs ''type'' ''children'' (c # cs) = Inr (d # F)"
    using d(1) F(1) by (auto simp: sum_bind_def split: sum.splits)
  moreover have "fsize (d # F) = fsize [d] + fsize F" using fsize_append [of "[d]" F] by simp
  ultimately show ?case using d(2) F(2) by auto
qed simp

lemma parses_node:
  assumes "map_of kvs ''type'' = Some l" "map_of kvs ''children'' = Some (JArr cs)" "\<forall>c \<in> set cs. parses m c" "length cs \<le> k"
  shows "parses (Suc (m * k)) (JObj kvs)"
proof -
  obtain F where F: "to_docs ''type'' ''children'' cs = Inr F" "fsize F \<le> m * length cs" using parses_list [OF assms(3)] by blast
  have "to_docs ''type'' ''children'' [JObj kvs] = Inr [Node l F]" using assms(1,2) F(1) by (cases cs) (auto simp: sum_bind_def)
  moreover have "fsize [Node l F] \<le> Suc (m * k)"
    using order_trans [OF F(2) mult_le_mono2 [OF assms(4)]] by simp
  ultimately show ?thesis unfolding parses_def by blast
qed

lemma parses_leaf: "map_of kvs ''type'' = Some l \<Longrightarrow> map_of kvs ''children'' = None \<Longrightarrow> parses 1 (JObj kvs)"
  by (simp add: parses_def sum_bind_def)

text \<open>The boxes of a forest, in reading order, and those the evaluation takes.\<close>

definition boxes_in :: "json list \<Rightarrow> json list" where
  "boxes_in ns = concat (map (node_box ''bbox'') (walk ''children'' ns))"

definition box_fine :: "json \<Rightarrow> bool" where
  "box_fine b \<longleftrightarrow> (\<exists>x y w h. b = JArr [JNum x, JNum y, JNum w, JNum h] \<and> 0 \<le> w \<and> 0 \<le> h)"

lemma boxes_in_simps [simp]:
  "boxes_in [] = []"
  "boxes_in (JObj kvs # ns) = node_box ''bbox'' kvs @ boxes_in (listed_children ''children'' kvs) @ boxes_in ns"
  by (simp_all add: boxes_in_def)

lemma box_fine_read: "box_fine b \<Longrightarrow> \<exists>v. box_of_json pf b = Inr v"
  by (auto simp: box_fine_def as_box_def sum_bind_def)

lemma boxes_fine_read: "list_all box_fine bs \<Longrightarrow> \<exists>vs. boxes_of_json pf bs = Inr vs"
proof (induction bs)
  case (Cons b bs)
  then obtain v vs where "box_of_json pf b = Inr v" "boxes_of_json pf bs = Inr vs" using box_fine_read by fastforce
  then show ?case by (simp add: sum_bind_def)
qed simp

lemma bbox_fine: "on_page b \<Longrightarrow> box_fine (bbox_json b)"
  by (auto simp: on_page_def box_fine_def bbox_json_def)

lemma row_parses: "length cells \<le> 4 \<Longrightarrow> parses 5 (row_json cells)"
  unfolding row_json_def
  by (rule parses_mono [OF parses_node [of _ "JStr ''row''" _ 1 4]]) (auto intro!: parses_leaf [where l = "JStr ''cell''", unfolded One_nat_def])

lemma rows_no_boxes: "boxes_in (map row_json grid) = []"
proof -
  have "boxes_in (map (\<lambda>c. JObj [(''type'', JStr ''cell''), (''text'', JStr c)]) cells) = []" for cells
    by (induction cells) (simp_all add: node_box_def listed_children_def)
  then show ?thesis by (induction grid) (simp_all add: row_json_def node_box_def listed_children_def)
qed

lemma table_rows:
  assumes "rng_lawful R"
  shows "\<exists>grid. fst (fst (draw_table R g)) = map row_json grid \<and> length grid \<le> 4 \<and> (\<forall>cells \<in> set grid. length cells \<le> 4)"
proof -
  obtain n g1 where n: "randint R 2 4 g = (n, g1)" by fastforce
  obtain c g2 where c: "randint R 2 4 g1 = (c, g2)" by fastforce
  let ?grid = "fst (draws n (draws c (sentence R 1)) g2)"
  have "n \<le> 4" "c \<le> 4" using randint_bounds(2) [OF assms, of 2 4 g] randint_bounds(2) [OF assms, of 2 4 g1] n c by simp_all
  moreover have "fst (fst (draw_table R g)) = map row_json ?grid" by (simp add: draw_table_def n c split_def Let_def)
  moreover have "\<forall>cells \<in> set ?grid. length cells = c" 
    using draws_all [of "\<lambda>cells. length cells = c" "draws c (sentence R 1)", OF draws_length] by blast
  ultimately show ?thesis using draws_length [of n "draws c (sentence R 1)" g2] by fastforce
qed

lemma draw_page_fine:
  assumes "rng_lawful R" "list_all on_page bs"
  shows "(\<forall>c \<in> set (dp_children (fst (draw_page R bs g))). parses 21 c) \<and>
    length (dp_children (fst (draw_page R bs g))) = length bs \<and> list_all box_fine (boxes_in (dp_children (fst (draw_page R bs g))))"
  using assms(2)
proof (induction bs arbitrary: g)
  case (Cons b bs)
  obtain grid where grid: "fst (fst (draw_table R g)) = map row_json grid" "length grid \<le> 4" "\<forall>cells \<in> set grid. length cells \<le> 4"
    using table_rows [OF assms(1)] by blast
  have "parses 21 (JObj [(''type'', JStr ''table''), (''bbox'', bbox_json b), (''children'', JArr (map row_json grid))])"
    using parses_node [of _ "JStr ''table''" "map row_json grid" 5 4] grid(2,3) row_parses by simp
  moreover have "parses 21 (JObj [(''type'', JStr t), (''bbox'', bbox_json b), (''text'', JStr x)])" for t x
    by (rule parses_mono [OF parses_leaf]) simp_all
  moreover have "box_fine (bbox_json b)" "bbox_json b \<noteq> JNull" using Cons.prems bbox_fine by (simp_all add: bbox_json_def)
  ultimately show ?case
    using Cons.IH Cons.prems grid(1)
    by (auto simp: split_def Let_def node_box_def listed_children_def rows_no_boxes bbox_json_def)
qed simp

definition mock_tree :: "'g rng \<Rightarrow> string \<Rightarrow> int \<Rightarrow> json" where
  "mock_tree R job_id page_index =
     page_tree (dp_children (fst (draw_page R (page_boxes R job_id page_index) (payload_rng R job_id page_index ''vlm''))))"

lemma vlm_payload_tree: "json_get ''tree'' (vlm_payload R job_id page_index) = Some (mock_tree R job_id page_index)"
  by (simp add: vlm_payload_def mock_tree_def split_def Let_def)

lemma page_boxes_fine:
  assumes "rng_lawful R"
  shows "list_all on_page (page_boxes R job_id page_index)" "length (page_boxes R job_id page_index) \<le> 9"
proof -
  obtain n g where r: "randint R 4 9 (payload_rng R job_id page_index ''layout'') = (n, g)" by fastforce
  have "n \<le> 9" using randint_bounds(2) [OF assms, of 4 9 "payload_rng R job_id page_index ''layout''"] r by simp
  then show "list_all on_page (page_boxes R job_id page_index)" "length (page_boxes R job_id page_index) \<le> 9"
    using layout_boxes_sound [OF assms, of 40 0 n g] by (auto simp: page_boxes_def r)
qed

lemma mock_tree_fine:
  assumes "rng_lawful R"
  shows "parses 190 (mock_tree R job_id page_index)" "list_all box_fine (boxes_in [mock_tree R job_id page_index])"
proof -
  let ?cs = "dp_children (fst (draw_page R (page_boxes R job_id page_index) (payload_rng R job_id page_index ''vlm'')))"
  have f: "\<forall>c \<in> set ?cs. parses 21 c" "length ?cs \<le> 9" "list_all box_fine (boxes_in ?cs)"
    using draw_page_fine [OF assms page_boxes_fine(1) [OF assms]] page_boxes_fine(2) [OF assms] by auto
  show "parses 190 (mock_tree R job_id page_index)"
    unfolding mock_tree_def page_tree_def using parses_node [OF _ _ f(1,2)] by simp
  show "list_all box_fine (boxes_in [mock_tree R job_id page_index])"
    using f(3) by (auto simp: mock_tree_def page_tree_def node_box_def listed_children_def box_fine_def PAGE_WIDTH_def PAGE_HEIGHT_def)
qed

lemma mock_tree_read:
  assumes "rng_lawful R" "190 \<le> es_max_nodes es"
    and "rq_label_key rq = ''type''" "rq_children_key rq = ''children''" "rq_bbox_key rq = ''bbox''"
  shows "\<exists>a. parse_side es rq (Some (mock_tree R j i)) = Inr a"
    and "\<exists>vs. boxes_of_json pf (snd (collect ''children'' (rq_text_key rq) ''bbox'' (Some (mock_tree R j i)))) = Inr vs"
proof -
  obtain d where d: "to_docs ''type'' ''children'' [mock_tree R j i] = Inr [d]" "fsize [d] \<le> 190"
    using mock_tree_fine(1) [OF assms(1)] unfolding parses_def by blast
  then show "\<exists>a. parse_side es rq (Some (mock_tree R j i)) = Inr a"
    using assms(2-4) by (simp add: parse_side_def parse_tree_eq sum_bind_def te_size_def del: to_docs.simps)
  show "\<exists>vs. boxes_of_json pf (snd (collect ''children'' (rq_text_key rq) ''bbox'' (Some (mock_tree R j i)))) = Inr vs"
    using boxes_fine_read [OF mock_tree_fine(2) [OF assms(1)]]
    by (simp add: collect_eq reading_order_def boxes_in_def [symmetric] del: walk.simps boxes_in_simps)
qed

lemma compute_answers:
  assumes "boxes_of_json pf (snd (collect (rq_children_key rq) (rq_text_key rq) (rq_bbox_key rq) (rq_predicted rq))) = Inr ps"
    and "boxes_of_json pf (snd (collect (rq_children_key rq) (rq_text_key rq) (rq_bbox_key rq) (rq_truth rq))) = Inr ts"
  shows "\<exists>res. compute u pf rq a b w = Inr res"
  using assms boxes_of_json_ok [OF assms(1)] boxes_of_json_ok [OF assms(2)]
  by (simp add: compute_def Let_def sum_bind_def score_boxes_def match_boxes_def split_def)

section \<open>Scores of equal documents\<close>

lemma levenshtein_self: "levenshtein xs xs = 0"
proof -
  have "edits ys ys 0" for ys :: "'a list" by (induction ys) (auto intro: edits.intros)
  from lev_spec_least [OF this] show ?thesis unfolding levenshtein_spec by (metis le_zero_eq)
qed

lemma same_document_perfect:
  assumes "parse_side es rq (rq_truth rq) = Inr a" "rq_predicted rq = rq_truth rq" "compute u pf rq a a w = Inr res"
  shows "er_distance res = 0 \<and> ts_errors (er_cer res) = 0 \<and> ts_errors (er_wer res) = 0"
proof -
  obtain F where F: "document (rq_label_key rq) (rq_children_key rq) (rq_truth rq) = Inr F"
    using parse_document [of "rq_label_key rq" "rq_children_key rq" "rq_truth rq"] parse_side_facts(1) [OF assms(1)] by auto
  have "tree_edit_distance a a = 0"
    using distance_of_documents(1) [OF parse_side_facts(1) [OF assms(1)] parse_side_facts(1) [OF assms(1)] F F] fd_self [of F]
    by (simp add: edit_distance_def fd_is_least)
  then show ?thesis using compute_facts [OF assms(3)] assms(2) by (simp add: cer_score_def wer_score_def levenshtein_self Let_def)
qed


section \<open>One generator\<close>

text \<open>A generator that counts up, for the examples.\<close>

definition counting_rng :: "nat rng" where
  "counting_rng = \<lparr>rg_seed = length, rg_random = (\<lambda>g. (real (g mod 10) / 10, Suc g)), rg_below = (\<lambda>n g. (g mod n, Suc g))\<rparr>"

lemma counting_lawful: "rng_lawful counting_rng"
  by (simp add: rng_lawful_def counting_rng_def)

theorem mock_layout_is_a_page_witness: "length (page_boxes counting_rng ''job'' 0) \<in> {4..9}"
  using mock_layout_is_a_page [OF counting_lawful] by blast

definition demo_comparison :: eval_request where
  "demo_comparison = \<lparr>rq_predicted = json_get ''tree'' (vlm_payload counting_rng ''job'' 0),
     rq_truth = json_get ''tree'' (vlm_payload counting_rng ''job'' 0), rq_iou_threshold = 1 / 2, rq_cer_unit = grapheme,
     rq_label_key = ''type'', rq_children_key = ''children'', rq_text_key = ''text'', rq_bbox_key = ''bbox''\<rparr>"

lemma demo_comparison_keys:
  "rq_label_key demo_comparison = ''type''" "rq_children_key demo_comparison = ''children''" "rq_bbox_key demo_comparison = ''bbox''"
  "rq_predicted demo_comparison = json_get ''tree'' (vlm_payload counting_rng ''job'' 0)"
  "rq_truth demo_comparison = json_get ''tree'' (vlm_payload counting_rng ''job'' 0)"
  by (simp_all add: demo_comparison_def)


end
