(* ===== verification/Mock_Server.thy ===== *)
theory Mock_Server
  imports Mock_Model Mock_Payloads Model_Client Page_State
begin

text \<open>
  The mock server as it is put together: its settings (\<^verbatim>\<open>src/mock_model/config.py\<close>), the request bodies
  it accepts (\<^verbatim>\<open>src/mock_model/schemas.py\<close>) and \<^verbatim>\<open>create_app\<close> with its routes (\<^verbatim>\<open>src/mock_model/main.py\<close>),
  over the server of \<open>Mock_Model\<close> and the answers of \<open>Mock_Payloads\<close>. The theorems say what the worker's
  client gets from it.
\<close>

section \<open>Settings and request bodies\<close>

record mock_settings =
  mo_log_level :: string
  mo_layout_latency_ms :: real
  mo_layout_rps :: real
  mo_layout_burst :: int
  mo_layout_failure_rate :: real
  mo_vlm_latency_min_ms :: real
  mo_vlm_latency_max_ms :: real
  mo_vlm_rps :: real
  mo_vlm_burst :: int
  mo_vlm_failure_rate :: real
  mo_idempotency_ttl_s :: real
  mo_idempotency_max_entries :: int

definition default_mock_settings :: mock_settings where
  "default_mock_settings = \<lparr>mo_log_level = ''INFO'', mo_layout_latency_ms = 50, mo_layout_rps = 100, mo_layout_burst = 100,
     mo_layout_failure_rate = 2 / 100, mo_vlm_latency_min_ms = 1500, mo_vlm_latency_max_ms = 3000, mo_vlm_rps = 10, mo_vlm_burst = 10,
     mo_vlm_failure_rate = 5 / 100, mo_idempotency_ttl_s = 300, mo_idempotency_max_entries = 20000\<rparr>"

text \<open>What validation answers: the names of the fields outside their range, or the value.\<close>

definition validated :: "(string \<times> bool) list \<Rightarrow> 'a \<Rightarrow> string list + 'a" where
  "validated checks x = (let bad = map fst (filter (\<lambda>(_, inside). \<not> inside) checks) in if bad = [] then Inr x else Inl bad)"

definition MockSettings :: "mock_settings \<Rightarrow> string list + mock_settings" where
  "MockSettings ms = validated
     [(''layout_latency_ms'', 0 \<le> mo_layout_latency_ms ms), (''layout_rps'', 0 < mo_layout_rps ms), (''layout_burst'', 0 < mo_layout_burst ms),
      (''layout_failure_rate'', 0 \<le> mo_layout_failure_rate ms \<and> mo_layout_failure_rate ms \<le> 1),
      (''vlm_latency_min_ms'', 0 \<le> mo_vlm_latency_min_ms ms), (''vlm_latency_max_ms'', 0 \<le> mo_vlm_latency_max_ms ms),
      (''vlm_rps'', 0 < mo_vlm_rps ms), (''vlm_burst'', 0 < mo_vlm_burst ms),
      (''vlm_failure_rate'', 0 \<le> mo_vlm_failure_rate ms \<and> mo_vlm_failure_rate ms \<le> 1),
      (''idempotency_ttl_s'', 0 < mo_idempotency_ttl_s ms), (''idempotency_max_entries'', 0 < mo_idempotency_max_entries ms)] ms"

record predict_request =
  pr_job_id :: string
  pr_page_index :: int
  pr_page_ref :: "string option"
  pr_text_hint :: "string option"

definition PredictRequest :: "predict_request \<Rightarrow> string list + predict_request" where
  "PredictRequest q = validated
     [(''job_id'', 1 \<le> length (pr_job_id q) \<and> length (pr_job_id q) \<le> 128), (''page_index'', 0 \<le> pr_page_index q),
      (''text_hint'', case pr_text_hint q of None \<Rightarrow> True | Some t \<Rightarrow> length t \<le> 4096)] q"

record chaos_request =
  cr_endpoint :: string
  cr_status :: int
  cr_ratio :: real
  cr_seconds :: real
  cr_extra_latency_ms :: real

definition ChaosRequest :: "chaos_request \<Rightarrow> string list + chaos_request" where
  "ChaosRequest q = validated
     [(''endpoint'', cr_endpoint q = LAYOUT \<or> cr_endpoint q = VLM), (''status'', 200 \<le> cr_status q \<and> cr_status q \<le> 599),
      (''ratio'', 0 \<le> cr_ratio q \<and> cr_ratio q \<le> 1), (''seconds'', 0 < cr_seconds q \<and> cr_seconds q \<le> 600),
      (''extra_latency_ms'', 0 \<le> cr_extra_latency_ms q \<and> cr_extra_latency_ms q \<le> 60000)] q"

section \<open>The application\<close>

text \<open>
  \<^verbatim>\<open>create_app\<close>: a bucket per endpoint, no chaos, an empty store. A bucket refuses a rate or burst that is
  not positive with a \<^verbatim>\<open>ValueError\<close>, which ends the process. Only the two endpoints are ever looked up.
\<close>

definition create_app :: "mock_settings \<Rightarrow> real \<Rightarrow> 'b mock option" where
  "create_app ms now =
     (case (new_bucket (mo_layout_rps ms) (mo_layout_burst ms) now, new_bucket (mo_vlm_rps ms) (mo_vlm_burst ms) now) of
        (Some lb, Some vb) \<Rightarrow>
          Some (mock_start (\<lambda>ep. if ep = LAYOUT then lb else vb) (mo_idempotency_ttl_s ms) (nat (mo_idempotency_max_entries ms)))
      | _ \<Rightarrow> None)"

text \<open>The failure rate and the generator that each prediction route hands to \<^verbatim>\<open>_handle\<close>.\<close>

definition route_failure_rate :: "mock_settings \<Rightarrow> string \<Rightarrow> real" where
  "route_failure_rate ms ep = (if ep = LAYOUT then mo_layout_failure_rate ms else mo_vlm_failure_rate ms)"

definition route_payload :: "'g rng \<Rightarrow> string \<Rightarrow> string \<Rightarrow> int \<Rightarrow> json" where
  "route_payload R ep = (if ep = LAYOUT then layout_payload R else vlm_payload R)"

text \<open>
  What reaches the server: the requests of its routes, and the resumption or cancellation of a handler
  that awaits. A body that fails validation is answered 422 before the handler runs. The routes of the
  predictions are the paths of the worker's client.
\<close>

datatype server_event =
    Predict real real rid string "string option" predict_request
  | Chaos_Post real chaos_request
  | Handler mock_event

definition endpoint_of :: "string \<Rightarrow> string option" where
  "endpoint_of path = (if path = LAYOUT_PATH then Some LAYOUT else if path = VLM_PATH then Some VLM else None)"

fun handled :: "server_event \<Rightarrow> mock_event option" where
  "handled (Predict now rnd r path key q) =
     (case (endpoint_of path, PredictRequest q) of
        (Some endpoint, Inr q) \<Rightarrow> Some (Arrive now rnd r endpoint key (pr_job_id q) (pr_page_index q))
      | _ \<Rightarrow> None)"
| "handled (Chaos_Post now q) =
     (case ChaosRequest q of
        Inl bad \<Rightarrow> None
      | Inr q \<Rightarrow> Some (Set_Chaos now (cr_endpoint q) (cr_status q) (cr_ratio q) (cr_seconds q) (cr_extra_latency_ms q)))"
| "handled (Handler e) = (case e of Arrive _ _ _ _ _ _ _ \<Rightarrow> None | Set_Chaos _ _ _ _ _ _ \<Rightarrow> None | _ \<Rightarrow> Some e)"

definition server_step :: "'g rng \<Rightarrow> mock_settings \<Rightarrow> server_event \<Rightarrow> json mock \<Rightarrow> json mock option" where
  "server_step R ms e m = (case handled e of None \<Rightarrow> Some m | Some e' \<Rightarrow> mock_step (route_failure_rate ms) (route_payload R) e' m)"

fun server_run :: "'g rng \<Rightarrow> mock_settings \<Rightarrow> server_event list \<Rightarrow> json mock \<Rightarrow> json mock option" where
  "server_run R ms [] m = Some m"
| "server_run R ms (e # es) m = Option.bind (server_step R ms e m) (server_run R ms es)"

section \<open>Every answer belongs to its request\<close>

text \<open>The body a request asks for, when \<open>pl\<close> generates the bodies.\<close>

definition req_body :: "(string \<Rightarrow> string \<Rightarrow> int \<Rightarrow> 'b) \<Rightarrow> 'b mtask \<Rightarrow> 'b" where
  "req_body pl tk = pl (mt_endpoint tk) (mt_job tk) (mt_page tk)"

text \<open>
  With \<open>K\<close> the body that each key stands for: every finished request has its own body, a follower waits
  for a request with its key, every outcome that is published belongs to its leader and every cached
  body to its key.
\<close>

definition task_genuine :: "(string \<Rightarrow> string \<Rightarrow> int \<Rightarrow> 'b) \<Rightarrow> (string \<Rightarrow> 'b) \<Rightarrow> (rid \<rightharpoonup> 'b mtask) \<Rightarrow> 'b mtask \<Rightarrow> bool" where
  "task_genuine pl K T tk \<longleftrightarrow>
     (\<forall>k. mt_key tk = Some k \<longrightarrow> req_body pl tk = K k) \<and> (\<forall>b. mt_phase tk = Finished (Inr b) \<longrightarrow> b = req_body pl tk) \<and>
     (\<forall>l. mt_phase tk = Waiting l \<longrightarrow> (\<exists>ltk k. T l = Some ltk \<and> mt_key ltk = Some k \<and> mt_key tk = Some k))"

definition genuine_parts where
  "genuine_parts pl K T H C \<longleftrightarrow>
     (\<forall>r tk. T r = Some tk \<longrightarrow> task_genuine pl K T tk) \<and>
     (\<forall>l h b ltk. H l = Some h \<and> if_outcome h = Some (Inr b) \<and> T l = Some ltk \<longrightarrow> b = req_body pl ltk) \<and>
     (\<forall>k t b. (k, t, b) \<in> set C \<longrightarrow> b = K k)"

definition genuine :: "(string \<Rightarrow> string \<Rightarrow> int \<Rightarrow> 'b) \<Rightarrow> (string \<Rightarrow> 'b) \<Rightarrow> 'b mock \<Rightarrow> bool" where
  "genuine pl K m \<longleftrightarrow> genuine_parts pl K (mk_tasks m) (id_handles (mk_idem m)) (id_cache (mk_idem m))"

lemma genuine_partsD:
  assumes "genuine_parts pl K T H C"
  shows "T r = Some tk \<Longrightarrow> task_genuine pl K T tk"
    and "H l = Some h \<Longrightarrow> if_outcome h = Some (Inr b) \<Longrightarrow> T l = Some ltk \<Longrightarrow> b = req_body pl ltk"
    and "(k, t, b) \<in> set C \<Longrightarrow> b = K k"
  using assms unfolding genuine_parts_def by blast+

lemma req_body_phase [simp]: "req_body pl (tk\<lparr>mt_phase := ph\<rparr>) = req_body pl tk"
  by (simp add: req_body_def)

lemma genuine_add:
  assumes "genuine_parts pl K T H C" "T r = None" "H r = None" "mt_phase tk = Sleeping" "\<And>k. mt_key tk = Some k \<Longrightarrow> req_body pl tk = K k"
  shows "genuine_parts pl K (T(r \<mapsto> tk)) H C"
proof -
  have "task_genuine pl K (T(r \<mapsto> tk)) tk" using assms(4,5) by (simp add: task_genuine_def)
  moreover have "task_genuine pl K (T(r \<mapsto> tk)) tk'" if "T r' = Some tk'" for r' tk'
    using genuine_partsD(1) [OF assms(1) that] assms(2) unfolding task_genuine_def by (metis fun_upd_other option.distinct(1))
  ultimately show ?thesis using genuine_partsD [OF assms(1)] assms(3) unfolding genuine_parts_def by (auto split: if_splits)
qed

lemma genuine_phase:
  assumes "genuine_parts pl K T H C" "T r = Some tk" "\<And>b. ph = Finished (Inr b) \<Longrightarrow> b = req_body pl tk"
    "\<And>l. ph = Waiting l \<Longrightarrow> \<exists>ltk k. T l = Some ltk \<and> mt_key ltk = Some k \<and> mt_key tk = Some k"
  shows "genuine_parts pl K (T(r \<mapsto> tk\<lparr>mt_phase := ph\<rparr>)) H C"
proof -
  let ?T = "T(r \<mapsto> tk\<lparr>mt_phase := ph\<rparr>)"
  have key: "\<exists>ltk'. ?T l = Some ltk' \<and> mt_key ltk' = Some k" if "T l = Some ltk" "mt_key ltk = Some k" for l ltk k
    using that assms(2) by (cases "l = r") auto
  have "task_genuine pl K ?T (tk\<lparr>mt_phase := ph\<rparr>)"
    using genuine_partsD(1) [OF assms(1,2)] assms(3,4) key by (fastforce simp: task_genuine_def)
  moreover have "task_genuine pl K ?T tk'" if "T r' = Some tk'" for r' tk'
    using genuine_partsD(1) [OF assms(1) that] key unfolding task_genuine_def by meson
  ultimately show ?thesis using genuine_partsD [OF assms(1)] assms(2) unfolding genuine_parts_def by (auto split: if_splits)
qed

lemma genuine_handle:
  assumes "genuine_parts pl K T H C" "\<And>h b ltk. h' = Some h \<Longrightarrow> if_outcome h = Some (Inr b) \<Longrightarrow> T l = Some ltk \<Longrightarrow> b = req_body pl ltk"
  shows "genuine_parts pl K T (H(l := h')) C"
  using genuine_partsD [OF assms(1)] assms(2) unfolding genuine_parts_def by (auto split: if_splits)

lemma genuine_cache: "genuine_parts pl K T H C \<Longrightarrow> (\<And>k t b. (k, t, b) \<in> set C' \<Longrightarrow> (k, t, b) \<in> set C \<or> b = K k) \<Longrightarrow> genuine_parts pl K T H C'"
  unfolding genuine_parts_def by blast

lemma idem_put_cache: "(k', e) \<in> set (id_cache (idem_put now k b s)) \<Longrightarrow> (k', e) \<in> set (id_cache s) \<or> k' = k \<and> e = (now, b)"
proof -
  have "x \<in> set (AList.update k v xs) \<Longrightarrow> x = (k, v) \<or> x \<in> set xs" for x and v :: 'w and xs
    by (induction xs) (auto split: if_splits)
  then show "(k', e) \<in> set (id_cache (idem_put now k b s)) \<Longrightarrow> (k', e) \<in> set (id_cache s) \<or> k' = k \<and> e = (now, b)"
    by (fastforce simp: idem_put_def evict_def dest!: in_set_dropD)
qed

lemma record_execution_frame:
  "id_handles (snd (record_execution k s)) = id_handles s" "id_cache (snd (record_execution k s)) = id_cache s"
  "id_inflight (snd (record_execution k s)) = id_inflight s"
  by (simp_all add: record_execution_def Let_def)

lemma settle_genuine:
  assumes g: "genuine pl K m" and tk: "mk_tasks m r = Some tk" and out: "\<And>b. out = Inr b \<Longrightarrow> b = req_body pl tk"
    and lead: "\<And>k. mt_key tk = Some k \<Longrightarrow> id_inflight (mk_idem m) k = Some r"
  shows "genuine pl K (settle_task now r tk out m)"
proof -
  note G = g [unfolded genuine_def]
  note ph = genuine_phase [where T = "mk_tasks m" and r = r and tk = tk and ph = "Finished out" and pl = pl and K = K, OF _ tk]
  show ?thesis
  proof (cases "mt_key tk")
    case None
    then show ?thesis using ph [OF G] out tk by (simp add: genuine_def settle_task_def set_phase_def)
  next
    case (Some k)
    have K: "req_body pl tk = K k" using genuine_partsD(1) [OF G tk] Some by (simp add: task_genuine_def)
    let ?H = "(id_handles (mk_idem m))(r := map_option (\<lambda>h. h\<lparr>if_outcome := Some out\<rparr>) (id_handles (mk_idem m) r))"
    have H: "genuine_parts pl K (mk_tasks m) ?H (id_cache (mk_idem m))"
      by (rule genuine_handle [OF G]) (use tk out in auto)
    show ?thesis
    proof (cases out)
      case (Inl e)
      then show ?thesis using ph [OF H] out tk lead [OF Some] Some
        by (simp add: genuine_def settle_task_def set_phase_def settle_def idem_abandon_def idem_settle_def)
    next
      case (Inr b)
      let ?s = "idem_put now k b (snd (record_execution k (mk_idem m)))"
      have i: "id_inflight ?s k = Some r" "id_handles ?s = id_handles (mk_idem m)"
        using lead [OF Some] by (simp_all add: idem_put_def record_execution_frame)
      have "genuine_parts pl K (mk_tasks m) ?H (id_cache ?s)"
        by (rule genuine_cache [OF H]) (use idem_put_cache K out Inr in \<open>fastforce simp: record_execution_frame\<close>)
      from ph [OF this] show ?thesis using out tk Some Inr i
        by (simp add: genuine_def settle_task_def set_phase_def settle_def idem_finish_def idem_settle_def)
    qed
  qed
qed

lemma start_genuine:
  assumes "genuine pl K m" "mk_tasks m r = Some tk" "\<And>k. mt_key tk = Some k \<Longrightarrow> id_inflight (mk_idem m) k = Some r"
  shows "genuine pl K (let (err, m') = execute_start now rnd ep m in case err of None \<Rightarrow> m' | Some e \<Rightarrow> settle_task now r tk (Inl e) m')"
proof -
  let ?m = "snd (execute_start now rnd ep m)"
  have g: "genuine pl K ?m" using assms(1) by (simp add: genuine_def execute_start_frame)
  have "genuine pl K (settle_task now r tk (Inl e) ?m)" for e
    by (rule settle_genuine [OF g]) (use assms(2,3) in \<open>simp_all add: execute_start_frame\<close>)
  then show ?thesis using g by (simp add: Let_def split_def split: option.split)
qed

lemma idem_get_cache:
  "fst (idem_get now k s) = Some b \<Longrightarrow> \<exists>t. (k, t, b) \<in> set (id_cache s)" "set (id_cache (snd (idem_get now k s))) \<subseteq> set (id_cache s)"
  by (auto simp: idem_get_def split: option.splits prod.splits if_splits dest: map_of_SomeD)

lemma arrive_genuine:
  assumes g: "genuine pl K m" and fl: "flights m" and r: "mk_tasks m r = None"
    and key: "\<And>k. ik = Some k \<Longrightarrow> k \<noteq> [] \<Longrightarrow> pl ep job page = K k"
  shows "genuine pl K (arrive now rnd r ep ik job page m)"
proof -
  define ky where "ky = (if ik = Some [] then None else ik)"
  define tk where "tk = (\<lparr>mt_endpoint = ep, mt_key = ky, mt_job = job, mt_page = page, mt_phase = Sleeping, mt_epoch = mk_epoch m\<rparr> :: 'a mtask)"
  define m0 where "m0 = m\<lparr>mk_stats := bump_stat ep (\<lambda>s. s\<lparr>sn_requests := sn_requests s + 1\<rparr>) (mk_stats m), mk_tasks := (mk_tasks m)(r \<mapsto> tk)\<rparr>"
  define start where "start = (\<lambda>m. let (err, m') = execute_start now rnd ep m in case err of None \<Rightarrow> m' | Some e \<Rightarrow> settle_task now r tk (Inl e) m')"
  let ?s = "\<lambda>k. snd (idem_get now k (mk_idem m))"
  have T: "mk_tasks m0 = (mk_tasks m)(r \<mapsto> tk)" "mk_idem m0 = mk_idem m" "mk_idem (m0\<lparr>mk_idem := s\<rparr>) = s" for s by (simp_all add: m0_def)
  have "arrive now rnd r ep ik job page m =
      (case ky of None \<Rightarrow> start m0
       | Some k \<Rightarrow>
           (let (cached, s1) = idem_get now k (mk_idem m0); m1 = m0\<lparr>mk_idem := s1\<rparr>
            in case cached of
                 Some body \<Rightarrow> set_phase r (Finished (Inr body)) (replayed ep m1)
               | None \<Rightarrow>
                   (let (leader, s2) = idem_begin r k (mk_idem m1); m2 = m1\<lparr>mk_idem := s2\<rparr>
                    in case leader of Some l \<Rightarrow> set_phase r (Waiting l) (replayed ep m2) | None \<Rightarrow> start m2)))"
    unfolding arrive_def Let_def ky_def tk_def m0_def start_def by (rule refl)
  note a = this [unfolded Let_def split_def T(2,3)]
  note ok = flight_okD [OF fl [unfolded flights_def]]
  have body: "req_body pl tk = K k" if "ky = Some k" for k
    using key [of k] that by (simp add: tk_def req_body_def ky_def split: if_splits)
  have g0: "genuine_parts pl K ((mk_tasks m)(r \<mapsto> tk)) (id_handles (mk_idem m)) (id_cache (mk_idem m))"
    by (rule genuine_add [OF g [unfolded genuine_def] r ok(5) [OF r]]) (use body in \<open>simp_all add: tk_def\<close>)
  show ?thesis
  proof (cases ky)
    case None
    have "genuine pl K (start m0)" unfolding start_def
      by (rule start_genuine) (use g0 None in \<open>simp_all add: genuine_def T tk_def\<close>)
    then show ?thesis using a None by simp
  next
    case (Some k)
    have g1: "genuine_parts pl K ((mk_tasks m)(r \<mapsto> tk)) (id_handles (mk_idem m)) (id_cache (?s k))"
      by (rule genuine_cache [OF g0]) (use idem_get_cache(2) in blast)
    have I: "id_inflight (?s k) = id_inflight (mk_idem m)" "id_handles (?s k) = id_handles (mk_idem m)" by (simp_all add: idem_get_flight)
    show ?thesis
    proof (cases "fst (idem_get now k (mk_idem m))")
      case cached: (Some b)
      have "b = req_body pl tk" using idem_get_cache(1) [OF cached] genuine_partsD(3) [OF g0] body [OF Some] by auto
      then have "genuine pl K (set_phase r (Finished (Inr b)) (replayed ep (m0\<lparr>mk_idem := ?s k\<rparr>)))"
        using genuine_phase [OF g1, of r tk "Finished (Inr b)"] by (simp add: genuine_def set_phase_def replayed_def T I)
      then show ?thesis using a Some cached by simp
    next
      case miss: None
      show ?thesis
      proof (cases "id_inflight (mk_idem m) k")
        case l: (Some l)
        obtain ltk where ltk: "mk_tasks m l = Some ltk" "mt_key ltk = Some k" using ok(1) [OF l] by blast
        then have lr: "l \<noteq> r" using r by auto
        have "genuine_parts pl K ((mk_tasks m)(r \<mapsto> tk))
            ((id_handles (mk_idem m))(l := map_option (\<lambda>h. h\<lparr>if_followers := if_followers h + 1\<rparr>) (id_handles (mk_idem m) l))) (id_cache (?s k))"
          by (rule genuine_handle [OF g1]) (use genuine_partsD(2) [OF g1] in auto)
        from genuine_phase [OF this, of r tk "Waiting l"]
        have "genuine pl K (set_phase r (Waiting l) (replayed ep (m0\<lparr>mk_idem := snd (idem_begin r k (?s k))\<rparr>)))"
          using l ltk lr Some by (simp add: genuine_def set_phase_def replayed_def T I idem_begin_def tk_def)
        then show ?thesis using a Some miss l by (simp add: idem_begin_def I)
      next
        case lead: None
        have "genuine_parts pl K ((mk_tasks m)(r \<mapsto> tk)) ((id_handles (mk_idem m))(r \<mapsto> \<lparr>if_outcome = None, if_followers = 0\<rparr>)) (id_cache (?s k))"
          by (rule genuine_handle [OF g1]) auto
        then have "genuine pl K (start (m0\<lparr>mk_idem := snd (idem_begin r k (?s k))\<rparr>))" unfolding start_def
          by (intro start_genuine) (use lead Some in \<open>auto simp: genuine_def T idem_get_flight idem_begin_def tk_def\<close>)
        then show ?thesis using a Some miss lead by (simp add: idem_begin_def I)
      qed
    qed
  qed
qed

text \<open>A request whose key, if it has one, stands for the body it asks for.\<close>

fun keyed :: "(string \<Rightarrow> string \<Rightarrow> int \<Rightarrow> 'b) \<Rightarrow> (string \<Rightarrow> 'b) \<Rightarrow> mock_event \<Rightarrow> bool" where
  "keyed pl K (Arrive now rnd r ep ik job page) \<longleftrightarrow> (case ik of None \<Rightarrow> True | Some k \<Rightarrow> k = [] \<or> pl ep job page = K k)"
| "keyed pl K _ \<longleftrightarrow> True"

lemma step_genuine:
  assumes g: "genuine pl K m" and fl: "flights m" and st: "mock_step fr pl e m = Some m'" and "keyed pl K e"
  shows "genuine pl K m'"
proof (cases e)
  case (Arrive now rnd r ep ik job page)
  then have "\<And>k. ik = Some k \<Longrightarrow> k \<noteq> [] \<Longrightarrow> pl ep job page = K k" using assms(4) by simp
  then show ?thesis using st Arrive arrive_genuine [OF g fl, of r ik ep job page now rnd] by (simp split: if_splits)
next
  case (Wake now rnd r)
  obtain tk where tk: "mk_tasks m r = Some tk" "mt_phase tk = Sleeping"
    "m' = settle_task now r tk (fst (execute_end fr pl rnd tk m)) (snd (execute_end fr pl rnd tk m))"
    using st Wake by (auto simp: split_def Let_def split: option.splits phase.splits)
  have "genuine pl K (snd (execute_end fr pl rnd tk m))" using g by (simp add: genuine_def execute_end_frame)
  then show ?thesis unfolding tk(3)
    by (rule settle_genuine) (use tk flight_okD(3) [OF fl [unfolded flights_def] tk(1,2)] in
        \<open>auto simp: execute_end_frame execute_end_def req_body_def Let_def split: if_splits\<close>)
next
  case (Resume r)
  then obtain tk l out h where tk: "mk_tasks m r = Some tk" "mt_phase tk = Waiting l" "m' = set_phase r (Finished out) m"
      "id_handles (mk_idem m) l = Some h" "if_outcome h = Some out"
    using st by (auto simp: bind_eq_Some_conv split: option.splits phase.splits)
  note G = genuine_partsD [OF g [unfolded genuine_def]]
  obtain ltk k where ltk: "mk_tasks m l = Some ltk" "mt_key ltk = Some k" "mt_key tk = Some k"
    using G(1) [OF tk(1)] tk(2) by (auto simp: task_genuine_def)
  have "req_body pl ltk = req_body pl tk" using G(1) [OF tk(1)] G(1) [OF ltk(1)] ltk by (simp add: task_genuine_def)
  then have "b = req_body pl tk" if "out = Inr b" for b using G(2) [OF tk(4) _ ltk(1)] tk(5) that by simp
  then show ?thesis using genuine_phase [OF g [unfolded genuine_def] tk(1), of "Finished out"] tk(1,3) by (simp add: genuine_def set_phase_def)
next
  case (Cancel now r)
  then obtain tk where tk: "mk_tasks m r = Some tk"
    "mt_phase tk = Sleeping \<and> m' = settle_task now r tk (Inl Cancelled) m \<or> m' = set_phase r (Finished (Inl Cancelled)) m"
    using st by (auto split: option.splits phase.splits)
  from tk(2) show ?thesis
  proof
    assume s: "mt_phase tk = Sleeping \<and> m' = settle_task now r tk (Inl Cancelled) m"
    then show ?thesis using settle_genuine [OF g tk(1), of "Inl Cancelled" now] flight_okD(3) [OF fl [unfolded flights_def] tk(1)] by simp
  next
    assume "m' = set_phase r (Finished (Inl Cancelled)) m"
    then show ?thesis using genuine_phase [OF g [unfolded genuine_def] tk(1), of "Finished (Inl Cancelled)"] tk(1)
      by (simp add: genuine_def set_phase_def)
  qed
next
  case Reset
  then show ?thesis using st genuine_cache [OF g [unfolded genuine_def], of "[]"] by (auto simp: genuine_def idem_reset_def)
qed (use st g in \<open>auto simp: genuine_def poll_buckets_def\<close>)

lemma server_run_mock: "server_run R ms es m = mock_run (route_failure_rate ms) (route_payload R) (List.map_filter handled es) m"
proof (induction es arbitrary: m)
  case (Cons e es)
  have "server_run R ms es = mock_run (route_failure_rate ms) (route_payload R) (List.map_filter handled es)" by (rule ext) (rule Cons.IH)
  then show ?case by (simp add: server_step_def split: option.split)
qed simp

lemma run_genuine:
  assumes "genuine pl K m" "flights m" "list_all (keyed pl K) es" "mock_run fr pl es m = Some m'"
  shows "genuine pl K m'"
  using assms
proof (induction es arbitrary: m)
  case (Cons e es)
  then obtain m1 where "mock_step fr pl e m = Some m1" "mock_run fr pl es m1 = Some m'" by (auto split: bind_splits)
  then show ?case using Cons.IH [of m1] Cons.prems step_genuine [OF Cons.prems(1,2)] step_flights [OF Cons.prems(2)] by simp
qed simp

text \<open>The worker's client sends the key of the page and the stage; \<open>hashed_text\<close> is what that key is the digest of.\<close>

fun from_client :: "(string \<Rightarrow> string) \<Rightarrow> server_event \<Rightarrow> bool" where
  "from_client digest (Predict now rnd r path key q) \<longleftrightarrow>
     (case endpoint_of path of
        None \<Rightarrow> True
      | Some stage \<Rightarrow> key = Some (idempotency_key digest (pr_job_id q) (pr_page_index q) stage))"
| "from_client digest _ \<longleftrightarrow> True"

definition key_text :: "string \<times> int \<times> string \<Rightarrow> string" where
  "key_text w = (case w of (job, page, stage) \<Rightarrow> job @ '':'' @ str_int page @ '':'' @ stage)"

fun work :: "mock_event \<Rightarrow> (string \<times> int \<times> string) option" where
  "work (Arrive now rnd r ep ik job page) = Some (job, page, ep)"
| "work _ = None"

definition works :: "server_event list \<Rightarrow> (string \<times> int \<times> string) list" where
  "works es = List.map_filter work (List.map_filter handled es)"

lemma key_text_inj:
  assumes "key_text (j, i, s) = key_text (j', i', s')" "CHR '':'' \<notin> set s" "CHR '':'' \<notin> set s'"
  shows "(j, i, s) = (j', i', s')"
proof -
  have "(j @ '':'' @ str_int i) @ CHR '':'' # s = (j' @ '':'' @ str_int i') @ CHR '':'' # s'" using assms(1) by (simp add: key_text_def)
  from split_last [OF assms(2,3) this] have a: "j @ CHR '':'' # str_int i = j' @ CHR '':'' # str_int i'" "s = s'" by simp_all
  then have "j = j' \<and> str_int i = str_int i'" using split_last [OF colon_not_in_str_int colon_not_in_str_int] by blast
  then show ?thesis using a(2) py_int_str_int by (metis option.inject)
qed

lemma handled_arrive:
  "handled e = Some (Arrive now rnd r ep ik job page) \<Longrightarrow>
     \<exists>path q. e = Predict now rnd r path ik q \<and> endpoint_of path = Some ep \<and> job = pr_job_id q \<and> page = pr_page_index q"
proof -
  have v: "PredictRequest q = Inr q' \<Longrightarrow> q' = q" for q q' by (simp add: PredictRequest_def validated_def Let_def split: if_splits)
  assume "handled e = Some (Arrive now rnd r ep ik job page)"
  then show ?thesis
  proof (cases e)
    case (Predict now' rnd' r' path key q)
    then show ?thesis using \<open>handled e = _\<close> v [of q] by (cases "endpoint_of path"; cases "PredictRequest q") simp_all
  next
    case (Chaos_Post now' q)
    then show ?thesis using \<open>handled e = _\<close> by (cases "ChaosRequest q") simp_all
  next
    case (Handler e')
    then show ?thesis using \<open>handled e = _\<close> by (cases e') simp_all
  qed
qed

lemma in_map_filter: "y \<in> set (List.map_filter f xs) \<longleftrightarrow> (\<exists>x \<in> set xs. f x = Some y)"
  by (induction xs) (auto split: option.split)

lemma works_stage: "(j, i, s) \<in> set (works es) \<Longrightarrow> CHR '':'' \<notin> set s"
proof -
  assume "(j, i, s) \<in> set (works es)"
  then obtain e e' where "handled e = Some e'" "work e' = Some (j, i, s)" by (auto simp: works_def in_map_filter)
  then show ?thesis by (cases e') (auto simp: endpoint_of_def LAYOUT_def VLM_def dest!: handled_arrive split: if_splits)
qed

lemma client_keys:
  assumes "list_all (from_client digest) es" "inj_on (\<lambda>t. take 32 (digest t)) (set (map key_text (works es)))"
  shows "\<exists>K. list_all (keyed pl K) (List.map_filter handled es)"
proof -
  define f where "f = (\<lambda>w. take 32 (digest (key_text w)))"
  have "inj_on key_text (set (works es))"
  proof (rule inj_onI)
    fix x y assume w: "x \<in> set (works es)" "y \<in> set (works es)" "key_text x = key_text y"
    obtain j i s j' i' s' where xy: "x = (j, i, s)" "y = (j', i', s')" by (cases x, cases y) simp
    show "x = y" using key_text_inj [OF w(3) [unfolded xy]] works_stage w(1,2) xy by simp
  qed
  then have inj: "inj_on f (set (works es))" using comp_inj_on [OF _ assms(2) [unfolded set_map]] by (simp add: f_def comp_def)
  define K where "K = (\<lambda>k. case inv_into (set (works es)) f k of (job, page, ep) \<Rightarrow> pl ep job page)"
  have "keyed pl K e'" if e: "e \<in> set es" "handled e = Some e'" for e e'
  proof (cases e')
    case (Arrive now rnd r ep ik job page)
    obtain path q where q: "e = Predict now rnd r path ik q" "endpoint_of path = Some ep" "job = pr_job_id q" "page = pr_page_index q"
      using handled_arrive e(2) Arrive by blast
    have "ik = Some (f (job, page, ep))" using assms(1) e(1) q by (auto simp: list_all_iff f_def key_text_def idempotency_key_def)
    moreover have "(job, page, ep) \<in> set (works es)" unfolding works_def using e Arrive by (auto simp: in_map_filter intro!: bexI [of _ e'] bexI [of _ e])
    ultimately show ?thesis using Arrive inv_into_f_f [OF inj] by (simp add: K_def)
  qed simp_all
  then show ?thesis by (intro exI [of _ K]) (auto simp: list_all_iff in_map_filter)
qed

text \<open>
  C19. The mock answers every request with its own page. The client's keys digest job, page and stage;
  if no two of the texts digested collide, then whatever requests race, are coalesced, replayed from
  the cache, fail or are cancelled, a request that is answered with a body gets the generator's answer
  for its own endpoint, job and page. The answer depends on nothing else, so a page sent again, even
  after the server was restarted, gets the same one.
\<close>

theorem answers_belong_to_requests:
  assumes "create_app ms now = Some m0" "server_run R ms es m0 = Some m" "list_all (from_client digest) es"
    and "inj_on (\<lambda>t. take 32 (digest t)) (set (map key_text (works es)))"
    and "mk_tasks m r = Some tk" "mt_phase tk = Finished (Inr body)"
  shows "body = route_payload R (mt_endpoint tk) (mt_job tk) (mt_page tk)"
proof -
  obtain K where K: "list_all (keyed (route_payload R) K) (List.map_filter handled es)" using client_keys [OF assms(3,4)] by blast
  obtain bs ttl mx where m0: "m0 = mock_start bs ttl mx" using assms(1) by (auto simp: create_app_def split: option.splits)
  have "genuine (route_payload R) K m0" "flights m0" using start_ok by (simp_all add: m0 mock_start_def genuine_def genuine_parts_def)
  from run_genuine [OF this K assms(2) [unfolded server_run_mock]] have "genuine (route_payload R) K m" .
  from genuine_partsD(1) [OF this [unfolded genuine_def] assms(5)] show ?thesis using assms(6) by (simp add: task_genuine_def req_body_def)
qed

section \<open>Chaos ends\<close>

lemma handled_chaos:
  assumes "handled e = Some (Set_Chaos t ep st ra sec ex)"
  shows "\<exists>q. e = Chaos_Post t q" "sec \<le> 600"
proof -
  have v: "ChaosRequest q = Inr q' \<Longrightarrow> cr_seconds q' \<le> 600" for q q' by (simp add: ChaosRequest_def validated_def Let_def split: if_splits)
  have "(\<exists>q. e = Chaos_Post t q) \<and> sec \<le> 600"
  proof (cases e)
    case (Predict now' rnd' r' path key q)
    then show ?thesis using assms by (cases "endpoint_of path"; cases "PredictRequest q") simp_all
  next
    case (Chaos_Post now' q)
    then show ?thesis using assms v [of q] by (cases "ChaosRequest q") simp_all
  next
    case (Handler e')
    then show ?thesis using assms by (cases e') simp_all
  qed
  then show "\<exists>q. e = Chaos_Post t q" "sec \<le> 600" by blast+
qed

text \<open>
  A rule stays for at most ten minutes after the last request that set one: \<open>T\<close> bounds the times of those
  requests.
\<close>

fun chaos_until :: "real \<Rightarrow> server_event \<Rightarrow> bool" where
  "chaos_until T (Chaos_Post now q) \<longleftrightarrow> now \<le> T"
| "chaos_until T _ \<longleftrightarrow> True"

definition expiring :: "real \<Rightarrow> (string \<rightharpoonup> chaos_rule) \<Rightarrow> bool" where
  "expiring T rules \<longleftrightarrow> (\<forall>ep rule. rules ep = Some rule \<longrightarrow> ch_expires_at rule \<le> T)"

lemma expiring_sub: "expiring T rules \<Longrightarrow> rules' \<subseteq>\<^sub>m rules \<Longrightarrow> expiring T rules'"
  unfolding expiring_def map_le_def by (metis domI)

lemma chaos_active_sub: "snd (chaos_active now ep rules) \<subseteq>\<^sub>m rules"
  by (auto simp: chaos_active_def map_le_def split: option.split)

lemma chaos_snapshot_sub: "chaos_snapshot now rules \<subseteq>\<^sub>m rules"
  by (auto simp: chaos_snapshot_def chaos_active_def map_le_def split: option.splits if_splits)

lemma chaos_clear_sub: "chaos_clear ep rules \<subseteq>\<^sub>m rules"
  by (auto simp: chaos_clear_def map_le_def split: option.splits if_splits)

lemma take_token_chaos: "mk_chaos (snd (take_token now ep m)) = mk_chaos m"
  by (simp add: take_token_def Let_def split_def)

lemma execute_start_chaos: "mk_chaos (snd (execute_start now rnd ep m)) \<subseteq>\<^sub>m mk_chaos m"
proof -
  obtain rule rules1 where r: "chaos_active now ep (mk_chaos m) = (rule, rules1)" by fastforce
  have r1: "rules1 \<subseteq>\<^sub>m mk_chaos m" using chaos_active_sub [of now ep "mk_chaos m"] r by simp
  have r2: "snd (chaos_roll now rnd ep rules1) \<subseteq>\<^sub>m mk_chaos m"
    using map_le_trans [OF chaos_active_sub r1] by (simp add: chaos_roll_def Let_def split_def)
  show ?thesis using r1 r2 by (auto simp: execute_start_def r Let_def split_def take_token_chaos split: option.split)
qed

lemma settle_task_chaos: "mk_chaos (settle_task now r tk out m) = mk_chaos m"
  by (auto simp: settle_task_def set_phase_def settle_def split: option.split sum.split)

lemma arrive_chaos: "mk_chaos (arrive now rnd r ep ik job page m) \<subseteq>\<^sub>m mk_chaos m"
proof -
  have "mk_chaos (snd (execute_start now rnd ep m1)) \<subseteq>\<^sub>m mk_chaos m" if "mk_chaos m1 = mk_chaos m" for m1 :: "'a mock"
    using execute_start_chaos [of now rnd ep m1] that by simp
  then show ?thesis
    by (simp add: arrive_def Let_def split_def set_phase_def replayed_def settle_task_chaos split: option.split)
qed

lemma step_expiring:
  assumes "expiring T (mk_chaos m)" "mock_step fr pl e m = Some m'" "\<And>now ep st ra sec ex. e = Set_Chaos now ep st ra sec ex \<Longrightarrow> now + sec \<le> T"
  shows "expiring T (mk_chaos m')"
proof (cases e)
  case (Arrive now rnd r ep ik job page)
  then show ?thesis using assms(2) expiring_sub [OF assms(1) arrive_chaos] by (auto split: if_splits)
next
  case (Wake now rnd r)
  have "mk_chaos (snd (execute_end fr pl rnd tk m)) = mk_chaos m" for tk by (simp add: execute_end_def Let_def)
  then show ?thesis using assms(1,2) Wake by (auto simp: settle_task_chaos Let_def split_def split: option.splits phase.splits)
next
  case (Set_Chaos now ep st ra sec ex)
  have "expiring T (chaos_set now ep st ra sec ex (mk_chaos m))"
    using assms(1) assms(3) [OF Set_Chaos] by (simp add: expiring_def chaos_set_def)
  then show ?thesis using assms(2) Set_Chaos expiring_sub [OF _ chaos_snapshot_sub] by auto
next
  case (Clear_Chaos now ep)
  then show ?thesis using assms(2) expiring_sub [OF expiring_sub [OF assms(1) chaos_clear_sub] chaos_snapshot_sub] by auto
next
  case (Get_Chaos now)
  then show ?thesis using assms(2) expiring_sub [OF assms(1) chaos_snapshot_sub] by auto
next
  case Reset
  then show ?thesis using assms(2) by (auto simp: expiring_def)
qed (use assms(1,2) in \<open>auto simp: settle_task_chaos set_phase_def poll_buckets_def split: option.splits phase.splits\<close>)

text \<open>
  A forgotten chaos rule wears off. Once ten minutes have passed since the last request that set a
  rule, no rule is in force, whatever else was asked of the server: a request then runs into the token
  bucket exactly as if there had never been one.
\<close>

theorem chaos_wears_off:
  assumes "create_app ms t0 = Some m0" "server_run R ms es m0 = Some m" "list_all (chaos_until T) es" "T + 600 \<le> now"
  shows "chaos_snapshot now (mk_chaos m) = Map.empty \<and> fst (execute_start now rnd ep m) = fst (take_token now ep m)"
proof -
  have "expiring (T + 600) (mk_chaos m1) \<Longrightarrow> list_all (chaos_until T) es \<Longrightarrow> server_run R ms es m1 = Some m \<Longrightarrow> expiring (T + 600) (mk_chaos m)" for m1
  proof (induction es arbitrary: m1)
    case (Cons e es)
    then obtain m2 where m2: "server_step R ms e m1 = Some m2" "server_run R ms es m2 = Some m" by (auto split: bind_splits)
    have "expiring (T + 600) (mk_chaos m2)"
    proof (cases "handled e")
      case None
      then show ?thesis using m2(1) Cons.prems(1) by (simp add: server_step_def)
    next
      case (Some e')
      have "t + sec \<le> T + 600" if "e' = Set_Chaos t ep st ra sec ex" for t ep st ra sec ex
        using handled_chaos Some that Cons.prems(2) by fastforce
      then show ?thesis using step_expiring [OF Cons.prems(1)] m2(1) Some by (simp add: server_step_def)
    qed
    then show ?case using Cons.IH [of m2] Cons.prems(2) m2(2) by simp
  qed simp
  moreover have "expiring (T + 600) (mk_chaos m0)" using assms(1) by (auto simp: create_app_def mock_start_def expiring_def split: option.splits)
  ultimately have e: "expiring (T + 600) (mk_chaos m)" using assms(2,3) by blast
  have "fst (chaos_active now ep' (mk_chaos m)) = None" for ep'
    using e assms(4) by (fastforce simp: expiring_def chaos_active_def split: option.split)
  moreover from this [of ep] have "fst (execute_start now rnd ep m) = fst (take_token now ep m)"
    by (simp add: execute_start_def take_token_def Let_def split_def)
  ultimately show ?thesis by (auto simp: chaos_snapshot_def)
qed

section \<open>A page sent twice\<close>

lemma valid_settings_start: "MockSettings ms = Inr ms' \<Longrightarrow> \<exists>m. create_app ms now = Some m"
  by (simp add: MockSettings_def validated_def Let_def create_app_def new_bucket_def split: if_splits)

text \<open>A worker asks for the layout of a page, another asks again while the first request runs, and chaos is set and forgotten.\<close>

definition demo_predict :: "real \<Rightarrow> rid \<Rightarrow> server_event" where
  "demo_predict now r = Predict now 0 r LAYOUT_PATH (Some (idempotency_key id ''job'' 0 LAYOUT))
     \<lparr>pr_job_id = ''job'', pr_page_index = 0, pr_page_ref = None, pr_text_hint = None\<rparr>"

definition demo_storm :: chaos_request where
  "demo_storm = \<lparr>cr_endpoint = VLM, cr_status = 429, cr_ratio = 8 / 10, cr_seconds = 30, cr_extra_latency_ms = 0\<rparr>"

definition demo_session :: "server_event list" where
  "demo_session = [demo_predict 1 1, demo_predict 2 2, Chaos_Post 3 demo_storm, Handler (Wake 4 (1 / 2) 1), Handler (Resume 2)]"

definition small_settings :: mock_settings where
  "small_settings = default_mock_settings\<lparr>mo_layout_burst := 5, mo_idempotency_max_entries := 5\<rparr>"

definition demo_app :: "json mock" where "demo_app = the (create_app small_settings 0)"

lemma demo_app_created: "create_app small_settings 0 = Some demo_app"
  by (simp add: demo_app_def create_app_def new_bucket_def small_settings_def default_mock_settings_def)

lemma demo_handled:
  "List.map_filter handled demo_session =
     [Arrive 1 0 1 LAYOUT (Some (idempotency_key id ''job'' 0 LAYOUT)) ''job'' 0, Arrive 2 0 2 LAYOUT (Some (idempotency_key id ''job'' 0 LAYOUT)) ''job'' 0,
      Set_Chaos 3 VLM 429 (8 / 10) 30 0, Wake 4 (1 / 2) 1, Resume 2]"
  by (simp add: demo_session_def demo_predict_def demo_storm_def endpoint_of_def PredictRequest_def ChaosRequest_def validated_def LAYOUT_PATH_def)

lemma demo_key: "idempotency_key id ''job'' 0 LAYOUT = ''job:0:layout''"
  by code_simp

text \<open>The run of the session, whatever the bodies are: the second request is answered with one.\<close>

lemma demo_replayed:
  "case mock_run (route_failure_rate small_settings) pl (List.map_filter handled demo_session) (the (create_app small_settings 0)) of
     None \<Rightarrow> False
   | Some m \<Rightarrow>
       (case mk_tasks m 2 of
          None \<Rightarrow> False
        | Some tk \<Rightarrow> mt_endpoint tk = LAYOUT \<and> mt_job tk = ''job'' \<and> mt_page tk = 0 \<and> (case mt_phase tk of Finished (Inr _) \<Rightarrow> True | _ \<Rightarrow> False))"
  unfolding demo_handled demo_key by code_simp

lemma demo_served:
  obtains m tk b where "server_run counting_rng small_settings demo_session demo_app = Some m" "mk_tasks m 2 = Some tk"
    "mt_endpoint tk = LAYOUT" "mt_job tk = ''job''" "mt_page tk = 0" "mt_phase tk = Finished (Inr b)"
  using demo_replayed [of "route_payload counting_rng", folded demo_app_def]
  by (auto simp: server_run_mock split: option.splits phase.splits sum.splits)

lemma demo_client: "list_all (from_client id) demo_session"
  by (simp add: demo_session_def demo_predict_def endpoint_of_def)

lemma demo_works: "works demo_session = [(''job'', 0, LAYOUT), (''job'', 0, LAYOUT)]"
  by (simp add: works_def demo_handled)

theorem answers_belong_to_requests_witness:
  "\<exists>m tk. server_run counting_rng small_settings demo_session demo_app = Some m \<and> mk_tasks m 2 = Some tk \<and>
     mt_phase tk = Finished (Inr (layout_payload counting_rng ''job'' 0))"
proof -
  obtain m tk b where d: "server_run counting_rng small_settings demo_session demo_app = Some m" "mk_tasks m 2 = Some tk"
    "mt_endpoint tk = LAYOUT" "mt_job tk = ''job''" "mt_page tk = 0" "mt_phase tk = Finished (Inr b)" by (rule demo_served)
  have "inj_on (\<lambda>t. take 32 (id t)) (set (map key_text (works demo_session)))" by (simp add: demo_works)
  from answers_belong_to_requests [OF demo_app_created d(1) demo_client this d(2,6)] show ?thesis
    using d by (auto simp: route_payload_def)
qed

theorem chaos_wears_off_witness:
  "\<exists>m. server_run counting_rng small_settings demo_session demo_app = Some m \<and> chaos_snapshot 603 (mk_chaos m) = Map.empty"
proof -
  obtain m tk b where d: "server_run counting_rng small_settings demo_session demo_app = Some m" by (rule demo_served)
  have "list_all (chaos_until 3) demo_session" by (simp add: demo_session_def demo_predict_def)
  from chaos_wears_off [OF demo_app_created d this, of 603] d show ?thesis by simp
qed

end
