(* ===== verification/Metrics_Export.thy ===== *)
theory Metrics_Export
  imports Metrics_Flow Circuit_Breaker Adaptive_Rate Admission Sse_Stream
begin

text \<open>
  The scrape, \<^verbatim>\<open>src/app/api/metrics.py\<close>: the families rebuilt from the hashes the workers flush into,
  the queue's lanes, breakers, rate controllers, admission, liveness, the process's own metrics,
  and the route that assembles them. A reply of \<^verbatim>\<open>HGETALL\<close> is the list of its fields in the order the
  server gives them, a source whose Redis call fails is \<^const>\<open>Inl\<close>. \<open>rp\<close> is \<^verbatim>\<open>repr\<close> of a float that is
  not an integer, \<open>nan\<close> the float that stands for an unknown lag; nothing computes with it.
\<close>

section \<open>The families of the workers\<close>

type_synonym reply = "(string \<times> real) list"

fun decode_all :: "reply \<Rightarrow> exc + (string \<times> labels \<times> real) list" where
  "decode_all [] = Inr []"
| "decode_all ((f, v) # r) =
     (case decode_field f of
        None \<Rightarrow> Inl ValueError
      | Some (name, ls) \<Rightarrow> sum_bind (decode_all r) (\<lambda>xs. Inr ((name, ls, v) # xs)))"

text \<open>\<^verbatim>\<open>d.setdefault(k, [])\<close> and \<^verbatim>\<open>d.setdefault(k, {})\<close>.\<close>

definition getl :: "('k \<times> 'v list) list \<Rightarrow> 'k \<Rightarrow> 'v list" where
  "getl d k = (case map_of d k of None \<Rightarrow> [] | Some vs \<Rightarrow> vs)"

definition WORKER_COUNTER_HELP :: "(string \<times> string) list" where
  "WORKER_COUNTER_HELP =
     [(''orch_page_attempts_total'',
       ''Page processing attempts by outcome; a two-stage page yields handoff then resumed, so this is attempts and not pages.''),
      (''orch_pages_terminal_total'',
       ''Pages reaching a terminal state: success (incl. degraded), failed, or duplicate redelivery.''),
      (''orch_rate_limit_wait_seconds_total'', ''Cumulative seconds spent waiting for rate-limit tokens.''),
      (''orch_model_requests_total'', ''Model calls attempted, by endpoint and outcome.''),
      (''orch_model_retries_total'', ''Retry attempts issued, by endpoint.''),
      (''orch_rate_limit_waits_total'', ''Times a worker waited on a rate-limit token.''),
      (''orch_fallbacks_total'', ''Pages degraded to the layout model after VLM exhaustion.''),
      (''orch_reaper_actions_total'', ''Orphaned entries handled by the reaper, by action.''),
      (''orch_requeues_total'', ''Pages returned to the queue rather than failed.'')]"

definition WORKER_GAUGE_HELP :: "(string \<times> string) list" where
  "WORKER_GAUGE_HELP =
     [(''orch_worker_in_flight'', ''Pages a worker is currently processing.''),
      (''orch_worker_prefetch_limit'', ''Configured concurrency ceiling per worker.'')]"

definition WORKER_HISTOGRAMS :: "(string \<times> string) list" where
  "WORKER_HISTOGRAMS =
     [(''orch_model_request_duration_seconds'', ''Latency of one model call, including the wait for a rate-limit token.''),
      (''orch_page_duration_seconds'', ''Wall time from a page being claimed to reaching a terminal state.'')]"

definition help_of :: "(string \<times> string) list \<Rightarrow> string \<Rightarrow> string \<Rightarrow> string" where
  "help_of table name other = (case map_of table name of None \<Rightarrow> other | Some h \<Rightarrow> h)"

definition group_counter :: "string \<times> labels \<times> real \<Rightarrow> (string \<times> sample list) list \<Rightarrow> (string \<times> sample list) list" where
  "group_counter x g =
     (let (name, ls, v) = x in AList.update name (getl g name @ [\<lparr>sm_name = name, sm_labels = ls, sm_value = v\<rparr>]) g)"

definition counter_families :: "(string \<times> labels \<times> real) list \<Rightarrow> metric_family list" where
  "counter_families xs =
     map (\<lambda>(name, samples). \<lparr>mf_name = name, mf_kind = ''counter'', mf_help = help_of WORKER_COUNTER_HELP name ''Worker-sourced counter.'',
            mf_samples = sort_key (\<lambda>s. sort (sm_labels s)) samples\<rparr>)
       (sort_key fst (fold group_counter xs []))"

definition group_gauge :: "string \<times> labels \<times> real \<Rightarrow> (string \<times> (series \<times> real) list) list \<Rightarrow> (string \<times> (series \<times> real) list) list" where
  "group_gauge x g = (let (name, ls, v) = x in AList.update name (add_at (sort ls) v (getl g name)) g)"

definition gauge_families :: "(string \<times> labels \<times> real) list \<Rightarrow> metric_family list" where
  "gauge_families xs =
     map (\<lambda>(name, vals). \<lparr>mf_name = name, mf_kind = ''gauge'', mf_help = help_of WORKER_GAUGE_HELP name ''Worker-sourced gauge, summed.'',
            mf_samples = map (\<lambda>(k, v). \<lparr>sm_name = name, sm_labels = k, sm_value = v\<rparr>) (sort_key fst vals)\<rparr>)
       (sort_key fst (fold group_gauge xs []))"

type_synonym by_metric = "(string \<times> (series \<times> (string \<times> real) list) list) list"

definition group_bucket :: "string \<times> labels \<times> real \<Rightarrow> by_metric \<Rightarrow> by_metric" where
  "group_bucket x g =
     (let (name, ls, v) = x
      in case map_of ls ''le'' of
           None \<Rightarrow> g
         | Some bound \<Rightarrow>
             let k = sort (AList.delete ''le'' ls); m = getl g name
             in AList.update name (AList.update k (AList.update bound v (getl m k)) m) g)"

definition group_sum :: "string \<times> labels \<times> real \<Rightarrow> (string \<times> (series \<times> real) list) list \<Rightarrow> (string \<times> (series \<times> real) list) list" where
  "group_sum x g = (let (name, ls, v) = x in AList.update name (AList.update (sort ls) v (getl g name)) g)"

definition label_bound :: "(real \<Rightarrow> string) \<Rightarrow> real \<Rightarrow> string" where
  "label_bound rp b = (if of_int \<lfloor>b\<rfloor> = b then str_int \<lfloor>b\<rfloor> else rp b)"

definition labelled_bounds :: "(real \<Rightarrow> string) \<Rightarrow> string list" where
  "labelled_bounds rp = map (label_bound rp) DEFAULT_BUCKETS @ [''+Inf'']"

definition histogram_families :: "(real \<Rightarrow> string) \<Rightarrow> (string \<times> labels \<times> real) list \<Rightarrow> (string \<times> labels \<times> real) list \<Rightarrow> metric_family list" where
  "histogram_families rp buckets sums_raw =
     (let sums_of = fold group_sum sums_raw []
      in map (\<lambda>(name, by_labels).
           let counts = map (\<lambda>(k, by_bound). (k, map (get0 by_bound) (labelled_bounds rp))) by_labels
           in \<lparr>mf_name = name, mf_kind = ''histogram'', mf_help = help_of WORKER_HISTOGRAMS name ''Worker-sourced histogram.'',
               mf_samples = histogram_samples rp name DEFAULT_BUCKETS counts (getl sums_of name)\<rparr>)
         (sort_key fst (fold group_bucket buckets [])))"

text \<open>
  The keys found by \<^verbatim>\<open>scan_iter\<close>; a dead worker's hash has expired. The hash of a key that expires
  between the scan and the read is empty.
\<close>

definition ALIVE_PREFIX :: string where "ALIVE_PREFIX = GAUGE_KEY_PREFIX @ '':alive:''"

definition worker_keys :: "string list \<Rightarrow> string list" where
  "worker_keys scanned = filter (\<lambda>k. take (length ALIVE_PREFIX) k \<noteq> ALIVE_PREFIX) scanned"

definition gauge_rows :: "int \<Rightarrow> metrics_db \<Rightarrow> string list \<Rightarrow> reply" where
  "gauge_rows t db scanned =
     concat (map (\<lambda>k. case get_live t (db_gauges db k) of None \<Rightarrow> [] | Some h \<Rightarrow> h) (worker_keys scanned))"

record worker_replies =
  wr_counters :: reply
  wr_buckets :: reply
  wr_sums :: reply
  wr_gauges :: reply

definition worker_families :: "(real \<Rightarrow> string) \<Rightarrow> worker_replies \<Rightarrow> exc + metric_family list" where
  "worker_families rp r =
     sum_bind (decode_all (wr_counters r)) (\<lambda>cs.
     sum_bind (decode_all (wr_gauges r)) (\<lambda>gs.
     sum_bind (decode_all (wr_buckets r)) (\<lambda>bs.
     sum_bind (decode_all (wr_sums r)) (\<lambda>ss.
       Inr (counter_families cs @ gauge_families gs @ histogram_families rp bs ss)))))"

section \<open>The other sources\<close>

definition one_sample :: "string \<Rightarrow> labels \<Rightarrow> real \<Rightarrow> sample" where
  "one_sample name ls v = \<lparr>sm_name = name, sm_labels = ls, sm_value = v\<rparr>"

definition family :: "string \<Rightarrow> string \<Rightarrow> string \<Rightarrow> sample list \<Rightarrow> metric_family" where
  "family name kind help samples = \<lparr>mf_name = name, mf_kind = kind, mf_help = help, mf_samples = samples\<rparr>"

text \<open>
  The three replies per lane: the length, the pending count if the summary is a dict, and the groups
  with their lag, which Redis may not know.
\<close>

record lane_reply =
  ln_length :: int
  ln_pending :: "int option"
  ln_groups :: "(string \<times> real option) list"

record queue_replies =
  qr_lead :: lane_reply
  qr_main :: lane_reply
  qr_poison :: "int option"

definition group_lag :: "real \<Rightarrow> string \<Rightarrow> (string \<times> real option) list \<Rightarrow> real" where
  "group_lag nan grp groups =
     fold (\<lambda>(name, lag) acc. if name = grp then (case lag of None \<Rightarrow> nan | Some l \<Rightarrow> l) else acc) groups 0"

definition queue_families :: "real \<Rightarrow> string \<Rightarrow> queue_replies \<Rightarrow> metric_family list" where
  "queue_families nan grp q =
     (let lanes = [(''lead'', qr_lead q), (''main'', qr_main q)]
      in [family ''orch_queue_backlog'' ''gauge'' ''Entries published to a lane and not yet delivered to any consumer.''
            (map (\<lambda>(lane, r). one_sample ''orch_queue_backlog'' [(''lane'', lane)] (of_int (ln_length r))) lanes),
          family ''orch_queue_pending'' ''gauge'' ''Entries delivered to a consumer and not yet acknowledged.''
            (map (\<lambda>(lane, r). one_sample ''orch_queue_pending'' [(''lane'', lane)]
               (of_int (case ln_pending r of None \<Rightarrow> 0 | Some n \<Rightarrow> n))) lanes),
          family ''orch_queue_lag'' ''gauge'' ''Consumer-group lag as reported by Redis; NaN when uncomputable.''
            (map (\<lambda>(lane, r). one_sample ''orch_queue_lag'' [(''lane'', lane)] (group_lag nan grp (ln_groups r))) lanes),
          family ''orch_poison_entries_total'' ''counter'' ''Stream entries quarantined because they could not be parsed.''
            [one_sample ''orch_poison_entries_total'' [] (of_int (case qr_poison q of None \<Rightarrow> 0 | Some n \<Rightarrow> n))]])"

fun state_code :: "breaker_state \<Rightarrow> real" where
  "state_code CLOSED = 0"
| "state_code HALF_OPEN = 1"
| "state_code OPEN = 2"

text \<open>
  Reading a breaker or a rate runs the same scripts the workers run. \<open>fails\<close> says which calls raise,
  and then whether the script had run.
\<close>

definition peek_one ::
  "(string \<Rightarrow> bool option) \<Rightarrow> real \<Rightarrow> string \<times> breaker_args \<Rightarrow> sample list \<times> (string \<Rightarrow> breaker_hash cell)
   \<Rightarrow> sample list \<times> (string \<Rightarrow> breaker_hash cell)" where
  "peek_one fails now ea x =
     (let (endpoint, a) = ea; (samples, cells) = x; (v, c) = breaker_peek a now (cells endpoint)
      in case fails endpoint of
           None \<Rightarrow> (samples @ [one_sample ''orch_breaker_state'' [(''endpoint'', endpoint)] (state_code (bv_state v))], cells(endpoint := c))
         | Some landed \<Rightarrow> (samples, if landed then cells(endpoint := c) else cells))"

definition rate_one ::
  "(string \<Rightarrow> bool option) \<Rightarrow> real \<Rightarrow> string \<times> aimd_args \<Rightarrow> sample list \<times> (string \<Rightarrow> aimd_cells)
   \<Rightarrow> sample list \<times> (string \<Rightarrow> aimd_cells)" where
  "rate_one fails now ea x =
     (let (endpoint, a) = ea; (samples, cells) = x; (r, c) = current_rate a now (cells endpoint)
      in case fails endpoint of
           None \<Rightarrow> (samples @ [one_sample ''orch_adaptive_rate_limit'' [(''endpoint'', endpoint)] r], cells(endpoint := c))
         | Some landed \<Rightarrow> (samples, if landed then cells(endpoint := c) else cells))"

record scrape_env =
  se_breakers :: "(string \<times> breaker_args) list"
  se_limiters :: "(string \<times> aimd_args) list"
  se_fails :: "string \<Rightarrow> bool option"
  se_rate_fails :: "string \<Rightarrow> bool option"
  se_high_watermark :: int
  se_low_watermark :: int
  se_build_info :: labels

record gates =
  gt_breakers :: "string \<Rightarrow> breaker_hash cell"
  gt_rates :: "string \<Rightarrow> aimd_cells"

definition breaker_and_rate_families :: "scrape_env \<Rightarrow> real \<Rightarrow> gates \<Rightarrow> metric_family list \<times> gates" where
  "breaker_and_rate_families env now g =
     (let (bs, cells) = fold (peek_one (se_fails env) now) (se_breakers env) ([], gt_breakers g);
          (rs, rates) = fold (rate_one (se_rate_fails env) now) (se_limiters env) ([], gt_rates g)
      in ([family ''orch_breaker_state'' ''gauge'' ''Circuit breaker: 0 closed, 1 half-open, 2 open, -1 unknown.'' bs,
           family ''orch_adaptive_rate_limit'' ''gauge'' ''Requests per second the AIMD controller currently permits.'' rs],
          \<lparr>gt_breakers = cells, gt_rates = rates\<rparr>))"

definition admission_families :: "int \<Rightarrow> int \<Rightarrow> admission_hash \<Rightarrow> metric_family list" where
  "admission_families high low h =
     [family ''orch_jobs_total'' ''counter'' ''Jobs seen at the edge, by admission decision.''
        [one_sample ''orch_jobs_total'' [(''decision'', ''admitted'')] (of_int (ad_admitted_jobs h)),
         one_sample ''orch_jobs_total'' [(''decision'', ''shed'')] (of_int (ad_shed_jobs h))],
      family ''orch_admitted_pages_total'' ''counter'' ''Pages accepted or refused at the edge.''
        [one_sample ''orch_admitted_pages_total'' [(''decision'', ''admitted'')] (of_int (ad_admitted_pages h)),
         one_sample ''orch_admitted_pages_total'' [(''decision'', ''shed'')] (of_int (ad_shed_pages h))],
      family ''orch_admission_shedding'' ''gauge'' ''1 while the edge is refusing work because the queue is too deep.''
        [one_sample ''orch_admission_shedding'' [] (if ad_shedding h then 1 else 0)],
      family ''orch_admission_transitions_total'' ''counter'' ''Watermark crossings: shedding started (trip) or stopped (recovery).''
        [one_sample ''orch_admission_transitions_total'' [(''kind'', ''trip'')] (of_int (ad_trips h)),
         one_sample ''orch_admission_transitions_total'' [(''kind'', ''recovery'')] (of_int (ad_recoveries h))],
      family ''orch_queue_watermark'' ''gauge'' ''Configured admission watermarks, for comparison against depth.''
        [one_sample ''orch_queue_watermark'' [(''edge'', ''high'')] (of_int high),
         one_sample ''orch_queue_watermark'' [(''edge'', ''low'')] (of_int low)]]"

definition liveness_family :: "string list \<Rightarrow> metric_family" where
  "liveness_family alive =
     family ''orch_workers_reporting'' ''gauge'' ''Workers whose metrics flush is recent enough to still be counted.''
       [one_sample ''orch_workers_reporting'' [] (real (length alive))]"

definition local_families :: "(real \<Rightarrow> string) \<Rightarrow> subscriber_slots \<Rightarrow> registry option \<Rightarrow> metric_family list" where
  "local_families rp slots rg =
     [family ''orch_sse_subscribers'' ''gauge'' ''SSE clients currently attached.''
        [one_sample ''orch_sse_subscribers'' [] (real (sl_active slots))],
      family ''orch_sse_subscribers_peak'' ''gauge'' ''High-water mark of concurrent SSE clients since start.''
        [one_sample ''orch_sse_subscribers_peak'' [] (real (sl_peak slots))],
      family ''orch_sse_refusals_total'' ''counter'' ''SSE connections refused because the subscriber cap was full.''
        [one_sample ''orch_sse_refusals_total'' [] (real (sl_refused slots))],
      family ''orch_sse_subscriber_limit'' ''gauge'' ''Configured concurrent SSE subscriber cap.''
        [one_sample ''orch_sse_subscriber_limit'' [] (real (sl_limit slots))]]
     @ (case rg of None \<Rightarrow> [] | Some r \<Rightarrow> registry_families rp r)"

section \<open>The route\<close>

text \<open>One source after the other; a failing one is counted and contributes nothing.\<close>

definition gather :: "exc + metric_family list \<Rightarrow> metric_family list \<times> nat \<Rightarrow> metric_family list \<times> nat" where
  "gather src x = (let (families, errors) = x in case src of Inl _ \<Rightarrow> (families, errors + 1) | Inr fs \<Rightarrow> (families @ fs, errors))"

record scrape_replies =
  rs_queue :: "exc + queue_replies"
  rs_worker :: "exc + worker_replies"
  rs_admission :: "exc + admission_hash"
  rs_alive :: "exc + string list"

definition metrics_families ::
  "(real \<Rightarrow> string) \<Rightarrow> real \<Rightarrow> string \<Rightarrow> scrape_env \<Rightarrow> real \<Rightarrow> scrape_replies \<Rightarrow> subscriber_slots \<Rightarrow> registry option \<Rightarrow> gates
   \<Rightarrow> metric_family list \<times> gates" where
  "metrics_families rp nan grp env now r slots rg g =
     (let (bf, g') = breaker_and_rate_families env now g;
          (families, errors) =
            fold gather
              [map_sum id (queue_families nan grp) (rs_queue r),
               sum_bind (rs_worker r) (worker_families rp),
               Inr bf,
               map_sum id (admission_families (se_high_watermark env) (se_low_watermark env)) (rs_admission r),
               map_sum id (\<lambda>alive. [liveness_family alive]) (rs_alive r),
               Inr (local_families rp slots rg)] ([], 0)
      in (families
          @ [family ''orch_metrics_scrape_errors'' ''gauge'' ''Metric sources that failed during this scrape.''
               [one_sample ''orch_metrics_scrape_errors'' [] (real errors)],
             family ''orch_build_info'' ''gauge'' ''Static configuration, as labels on a constant 1.''
               [one_sample ''orch_build_info'' (se_build_info env) 1]], g'))"

definition metrics ::
  "(real \<Rightarrow> string) \<Rightarrow> real \<Rightarrow> string \<Rightarrow> scrape_env \<Rightarrow> real \<Rightarrow> scrape_replies \<Rightarrow> subscriber_slots \<Rightarrow> registry option \<Rightarrow> gates
   \<Rightarrow> string \<times> gates" where
  "metrics rp nan grp env now r slots rg g =
     (let (families, g') = metrics_families rp nan grp env now r slots rg g in (render rp families, g'))"

section \<open>Fields of histograms\<close>

definition hist_field :: "string \<Rightarrow> series \<Rightarrow> string \<Rightarrow> string" where
  "hist_field name k le = encode_field name (AList.update ''le'' le k)"

text \<open>A series that a histogram can have: sorted, and without the label of the bounds.\<close>

definition series_ok :: "series \<Rightarrow> bool" where
  "series_ok k \<longleftrightarrow> sorted k \<and> ''le'' \<notin> fst ` set k"

lemma update_le: "series_ok k \<Longrightarrow> AList.update ''le'' l k = k @ [(''le'', l)]"
  by (simp add: series_ok_def update_absent)

lemma filter_le:
  assumes "series_ok k"
  shows "filter (\<lambda>x. fst x \<noteq> ''le'') (sort (AList.update ''le'' l k)) = k"
    and "filter (\<lambda>x. fst x = ''le'') (sort (AList.update ''le'' l k)) = [(''le'', l)]"
proof -
  have "filter (\<lambda>x. fst x \<noteq> ''le'') k = k" "filter (\<lambda>x. fst x = ''le'') k = []"
    using assms by (force simp: series_ok_def filter_id_conv filter_empty_conv)+
  then show "filter (\<lambda>x. fst x \<noteq> ''le'') (sort (AList.update ''le'' l k)) = k"
    and "filter (\<lambda>x. fst x = ''le'') (sort (AList.update ''le'' l k)) = [(''le'', l)]"
    using assms unfolding update_le [OF assms] filter_sort by (simp_all add: series_ok_def sorted_sort_id)
qed

lemma delete_filter: "AList.delete a xs = filter (\<lambda>x. fst x \<noteq> a) xs"
  by (induction xs) auto

lemma delete_le: "series_ok k \<Longrightarrow> sort (AList.delete ''le'' (sort (AList.update ''le'' l k))) = k"
  by (simp add: delete_filter filter_le(1)) (simp add: series_ok_def sorted_sort_id)

lemma lookup_le:
  assumes "series_ok k"
  shows "map_of (sort (AList.update ''le'' l k)) ''le'' = Some l"
proof -
  have "map_of xs a = map_of (filter (\<lambda>x. fst x = a) xs) a" for xs :: labels and a by (induction xs) auto
  from this [of "sort (AList.update ''le'' l k)" "''le''"] show ?thesis unfolding filter_le(2) [OF assms] by simp
qed

lemma decode_hist_field: "SEP \<notin> set n \<Longrightarrow> decode_field (hist_field n k l) = Some (n, sort (AList.update ''le'' l k))"
  by (simp add: hist_field_def decode_encode)

lemma hist_field_inj:
  assumes "SEP \<notin> set n" "SEP \<notin> set n'" "series_ok k" "series_ok k'"
  shows "hist_field n k l = hist_field n' k' l' \<longleftrightarrow> n = n' \<and> k = k' \<and> l = l'"
proof
  assume "hist_field n k l = hist_field n' k' l'"
  then have "(n, sort (AList.update ''le'' l k)) = (n', sort (AList.update ''le'' l' k'))"
    using decode_hist_field [OF assms(1)] decode_hist_field [OF assms(2)] by (metis option.inject)
  then show "n = n' \<and> k = k' \<and> l = l'"
    using filter_le [OF assms(3), of l] filter_le [OF assms(4), of l'] by auto
qed simp

section \<open>What the flushes of a fleet leave in the hashes\<close>

lemma mass_Nil [simp]: "mass f [] = 0" and mass_Cons: "mass f ((g, d) # ds) = (if g = f then d else 0) + mass f ds"
  and mass_append [simp]: "mass f (xs @ ys) = mass f xs + mass f ys"
  by (simp_all add: mass_def)

lemma mass_concat: "mass f (concat xss) = sum_list (map (mass f) xss)"
  by (induction xss) simp_all

lemma mass_nonzero: "mass f ds \<noteq> 0 \<Longrightarrow> f \<in> fst ` set ds"
  by (induction ds) (auto simp: mass_Cons split: if_splits)

lemma mass_map_of: "distinct (map fst ds) \<Longrightarrow> mass f ds = get0 ds f"
proof (induction ds)
  case (Cons x ds)
  have "get0 ds (fst x) = 0" using Cons.prems by (simp add: get0_def iffD2 [OF map_of_eq_None_iff])
  then show ?case using Cons by (cases x) (auto simp: mass_Cons get0_def)
qed (simp add: get0_def)

lemma add_at_distinct: "distinct (map fst ds) \<Longrightarrow> distinct (map fst (add_at k d ds))"
  by (simp add: add_at_def distinct_update)

lemma mass_fold_add:
  "distinct (map fst ds) \<Longrightarrow>
   mass f (fold (\<lambda>(k, v) ds. if v \<noteq> 0 then add_at k v ds else ds) l ds) = mass f ds + mass f l"
proof (induction l arbitrary: ds)
  case (Cons x l)
  obtain k v where x: "x = (k, v)" by (cases x)
  show ?case
  proof (cases "v = 0")
    case False
    have "mass f (add_at k v ds) = mass f ds + (if k = f then v else 0)"
      using Cons.prems by (simp add: mass_map_of add_at_distinct get0_add_at)
    then show ?thesis using Cons.IH [OF add_at_distinct [OF Cons.prems], of k v] False by (simp add: x mass_Cons)
  qed (use Cons in \<open>simp add: x mass_Cons\<close>)
qed simp

definition bucket_fields :: "(real \<Rightarrow> string) \<Rightarrow> histogram \<Rightarrow> (string \<times> real) list" where
  "bucket_fields rp h =
     concat (map (\<lambda>(k, cs). map (\<lambda>(le, n). (hist_field (hg_name h) k le, n)) (zip (bucket_labels rp (hg_bounds h)) cs)) (hg_counts h))"

definition sum_fields :: "histogram \<Rightarrow> (string \<times> real) list" where
  "sum_fields h = map (\<lambda>(k, v). (encode_field (hg_name h) k, v)) (hg_sums h)"

lemma fold_fold_map: "fold (\<lambda>x. fold (\<lambda>y. f (g x y)) (h x)) xs z = fold f (concat (map (\<lambda>x. map (g x) (h x)) xs)) z"
  by (induction xs arbitrary: z) (auto simp: fold_map comp_def)

lemma mass_bucket_deltas: "mass f (bucket_deltas rp hs) = sum_list (map (mass f \<circ> bucket_fields rp) hs)"
proof -
  let ?add = "\<lambda>(k, v) ds. if v \<noteq> 0 then add_at k v ds else ds"
  have "bucket_deltas rp hs = fold ?add (concat (map (bucket_fields rp) hs)) []"
    unfolding bucket_deltas_def bucket_fields_def fold_fold_concat [symmetric]
    by (intro arg_cong2 [of _ _ _ _ "\<lambda>f xs. fold f xs []"] ext)
      (auto simp: fold_fold_concat [symmetric] fold_map comp_def split_def hist_field_def cong: if_cong)
  then show ?thesis using mass_fold_add [of "[]" f] by (simp add: mass_concat comp_def)
qed

lemma mass_sum_deltas: "mass f (sum_deltas hs) = sum_list (map (mass f \<circ> sum_fields) hs)"
proof -
  let ?add = "\<lambda>(k, v) ds. if v \<noteq> 0 then add_at k v ds else ds"
  have "sum_deltas hs = fold ?add (concat (map sum_fields hs)) []"
    unfolding sum_deltas_def sum_fields_def fold_fold_concat [symmetric]
    by (simp add: fold_map comp_def split_def cong: if_cong)
  then show ?thesis using mass_fold_add [of "[]" f] by (simp add: mass_concat comp_def)
qed

lemma flush_hashes:
  assumes "sink_flush rp w ttl now t None (rg, db) = (r, rg', db')"
  shows "db_hash db' HISTOGRAM_COUNT_KEY f = db_hash db HISTOGRAM_COUNT_KEY f + sum_list (map (mass f \<circ> bucket_fields rp) (rg_histograms rg))"
    and "db_hash db' HISTOGRAM_SUM_KEY f = db_hash db HISTOGRAM_SUM_KEY f + sum_list (map (mass f \<circ> sum_fields) (rg_histograms rg))"
proof -
  have k: "HISTOGRAM_COUNT_KEY \<noteq> COUNTER_KEY" "HISTOGRAM_SUM_KEY \<noteq> COUNTER_KEY" "HISTOGRAM_SUM_KEY \<noteq> HISTOGRAM_COUNT_KEY"
    by (simp_all add: HISTOGRAM_COUNT_KEY_def HISTOGRAM_SUM_KEY_def COUNTER_KEY_def)
  have db': "db' = fold (exec_cmd t) (flush_cmds rp w ttl now rg) db" using assms by (auto simp: sink_flush_def Let_def)
  show "db_hash db' HISTOGRAM_COUNT_KEY f = db_hash db HISTOGRAM_COUNT_KEY f + sum_list (map (mass f \<circ> bucket_fields rp) (rg_histograms rg))"
    and "db_hash db' HISTOGRAM_SUM_KEY f = db_hash db HISTOGRAM_SUM_KEY f + sum_list (map (mass f \<circ> sum_fields) (rg_histograms rg))"
    using k k [symmetric]
    unfolding db' exec_cmds_hash by (simp_all add: flush_cmds_def Let_def mass_incr mass_bucket_deltas mass_sum_deltas)
qed

text \<open>The keys of a histogram are series of its own labels.\<close>

definition hist_ok :: "histogram \<Rightarrow> bool" where
  "hist_ok h \<longleftrightarrow> distinct (map fst (hg_counts h)) \<and> distinct (map fst (hg_sums h)) \<and>
     (\<forall>k \<in> fst ` set (hg_counts h) \<union> fst ` set (hg_sums h). series_ok k)"

lemma update_keys: "fst ` set (AList.update k x xs) = insert k (fst ` set xs)"
  by (induction xs) auto

lemma observe_hist_ok:
  assumes "observe v ls h = Inr h'" "hist_ok h" "''le'' \<notin> set (hg_labelnames h)"
  shows "hist_ok h' \<and> set (map fst ls) = set (hg_labelnames h)"
proof -
  have fit: "set (map fst ls) = set (hg_labelnames h)"
    using assms(1) by (auto simp: observe_def series_key_def sum_bind_def split: if_splits)
  then have "series_ok (sort ls)" using assms(3) by (simp add: series_ok_def)
  moreover obtain cs where "h' = h\<lparr>hg_counts := AList.update (sort ls) cs (hg_counts h), hg_sums := add_at (sort ls) v (hg_sums h)\<rparr>"
    using assms(1) fit by (auto simp: observe_def series_key_def sum_bind_def Let_def)
  ultimately show ?thesis using assms(2) fit by (simp add: hist_ok_def add_at_def distinct_update update_keys)
qed

lemma observe_all_ok:
  assumes "observe_all obs h = Inr h'" "hist_shows before h" "hist_ok h" "''le'' \<notin> set (hg_labelnames h)"
  shows "hist_shows (before @ obs) h' \<and> hist_ok h' \<and> hg_bounds h' = hg_bounds h \<and> hg_name h' = hg_name h"
  using assms
proof (induction obs arbitrary: before h)
  case (Cons x obs)
  obtain v ls where x: "x = (v, ls)" by (cases x)
  have stuck: "fold (\<lambda>(v, ls) r. sum_bind r (observe v ls)) xs (Inl e) = Inl e" for xs and e :: exc by (induction xs) (auto simp: sum_bind_def)
  then obtain h1 where h1: "observe v ls h = Inr h1" "observe_all obs h1 = Inr h'"
    using Cons.prems(1) by (cases "observe v ls h") (auto simp: observe_all_def x sum_bind_def)
  have ok: "hist_ok h1" "set (map fst ls) = set (hg_labelnames h)" using observe_hist_ok [OF h1(1) Cons.prems(3,4)] by auto
  have s: "hist_shows (before @ [(v, ls)]) h1" "hg_bounds h1 = hg_bounds h" "hg_labelnames h1 = hg_labelnames h" "hg_name h1 = hg_name h"
    using observe_shows [OF Cons.prems(2) ok(2), of v] h1(1) by auto
  show ?case using Cons.IH [OF h1(2) s(1) ok(1)] Cons.prems(4) s x by simp
qed (simp add: observe_all_def)

text \<open>
  One round of one worker: the registry it flushes and what its histograms have observed since the
  last flush, by name.
\<close>

type_synonym round = "string \<times> registry \<times> (string \<Rightarrow> (real \<times> labels) list)"

definition observed :: "histogram \<Rightarrow> (real \<times> labels) list \<Rightarrow> bool" where
  "observed h obs \<longleftrightarrow>
     (\<exists>help names. SEP \<notin> set (hg_name h) \<and> ''le'' \<notin> set names \<and>
        sum_bind (new_histogram (hg_name h) help names DEFAULT_BUCKETS) (observe_all obs) = Inr h)"

fun reports :: "round \<Rightarrow> bool" where
  "reports (w, rg, obs) \<longleftrightarrow>
     distinct (map hg_name (rg_histograms rg)) \<and> (\<forall>h \<in> set (rg_histograms rg). observed h (obs (hg_name h))) \<and>
     (\<forall>n. n \<notin> hg_name ` set (rg_histograms rg) \<longrightarrow> obs n = [])"

lemma sorted_DEFAULT: "sorted DEFAULT_BUCKETS"
  by (simp add: DEFAULT_BUCKETS_def)

lemma observedD:
  assumes "observed h obs"
  shows "SEP \<notin> set (hg_name h)" "hist_shows obs h" "hist_ok h" "hg_bounds h = DEFAULT_BUCKETS"
proof -
  obtain hlp names where n: "SEP \<notin> set (hg_name h)" "''le'' \<notin> set names"
    and s: "sum_bind (new_histogram (hg_name h) hlp names DEFAULT_BUCKETS) (observe_all obs) = Inr h"
    using assms unfolding observed_def by blast
  obtain h0 where h: "new_histogram (hg_name h) hlp names DEFAULT_BUCKETS = Inr h0" "observe_all obs h0 = Inr h"
    using s by (cases "new_histogram (hg_name h) hlp names DEFAULT_BUCKETS") (simp_all add: sum_bind_def)
  have h0: "hg_bounds h0 = DEFAULT_BUCKETS" "hg_labelnames h0 = names" "hist_shows [] h0" "hist_ok h0"
    using h(1) by (auto simp: new_histogram_def hist_shows_def seen_def get0_def hist_ok_def sorted_sort_id [OF sorted_DEFAULT] split: if_splits)
  then show "SEP \<notin> set (hg_name h)" "hist_shows obs h" "hist_ok h" "hg_bounds h = DEFAULT_BUCKETS"
    using observe_all_ok [OF h(2) h0(3,4)] h(1) h0(1,2) n by simp_all
qed

lemma sum_one_key:
  fixes F :: "'k \<times> 'v \<Rightarrow> real"
  assumes "distinct (map fst xs)" "\<And>k' v. (k', v) \<in> set xs \<Longrightarrow> k' \<noteq> k \<Longrightarrow> F (k', v) = 0"
  shows "sum_list (map F xs) = (case map_of xs k of None \<Rightarrow> 0 | Some v \<Rightarrow> F (k, v))"
  using assms
proof (induction xs)
  case (Cons x xs)
  obtain k' v where x: "x = (k', v)" by (cases x)
  have IH: "sum_list (map F xs) = (case map_of xs k of None \<Rightarrow> 0 | Some v \<Rightarrow> F (k, v))"
    using Cons.IH Cons.prems by (metis distinct.simps(2) list.simps(9) list.set_intros(2))
  show ?case
  proof (cases "k' = k")
    case True
    then have "map_of xs k = None" using Cons.prems(1) x by (simp add: map_of_eq_None_iff)
    then show ?thesis using IH True x by simp
  qed (use IH Cons.prems(2) [of k' v] x in simp)
qed simp

lemma mass_bucket_fields:
  assumes "observed h obs" "SEP \<notin> set n" "series_ok k" "distinct (bucket_labels rp DEFAULT_BUCKETS)" "i < length (bucket_labels rp DEFAULT_BUCKETS)"
  shows "mass (hist_field n k (bucket_labels rp DEFAULT_BUCKETS ! i)) (bucket_fields rp h)
    = (if n = hg_name h then in_bucket DEFAULT_BUCKETS (seen k obs) i else 0)"
proof -
  note o = observedD [OF assms(1)]
  let ?L = "bucket_labels rp DEFAULT_BUCKETS" and ?f = "hist_field n k (bucket_labels rp DEFAULT_BUCKETS ! i)"
  let ?F = "\<lambda>(k', cs). mass ?f (map (\<lambda>(le, m). (hist_field (hg_name h) k' le, m)) (zip ?L cs))"
  have ok: "series_ok k'" if "(k', cs) \<in> set (hg_counts h)" for k' cs using o(3) that by (force simp: hist_ok_def)
  have other: "?F (k', cs) = 0" if "(k', cs) \<in> set (hg_counts h)" "k' \<noteq> k \<or> n \<noteq> hg_name h" for k' cs
    using that hist_field_inj [OF assms(2) o(1) assms(3) ok [OF that(1)]] mass_nonzero [of ?f] by fastforce
  have tot: "mass ?f (bucket_fields rp h) = sum_list (map ?F (hg_counts h))"
    by (simp add: bucket_fields_def mass_concat o(4) comp_def split_def)
  show ?thesis
  proof (cases "n = hg_name h")
    case False
    then have z: "map ?F (hg_counts h) = map (\<lambda>_. 0) (hg_counts h)" using other by (intro map_cong refl) auto
    show ?thesis unfolding tot z using False by simp
  next
    case True
    let ?cs = "map (in_bucket DEFAULT_BUCKETS (seen k obs)) [0..<Suc (length DEFAULT_BUCKETS)]"
    have len: "length ?L = Suc (length DEFAULT_BUCKETS)" by (simp add: bucket_labels_def)
    have at: "?F (k, ?cs) = ?cs ! i"
    proof -
      let ?Z = "map (\<lambda>(le, m). (hist_field n k le, m)) (zip ?L ?cs)"
      have keys: "map fst ?Z = map (hist_field n k) ?L" using len by (intro nth_equalityI) (simp_all del: upt_Suc)
      have "inj_on (hist_field n k) (set ?L)" using hist_field_inj [OF assms(2,2,3,3)] by (simp add: inj_on_def)
      then have d: "distinct (map fst ?Z)" unfolding keys using assms(4) by (simp add: distinct_map)
      have "?Z ! i = (?f, ?cs ! i)" using assms(5) len by (simp del: upt_Suc)
      moreover have "?Z ! i \<in> set ?Z" using assms(5) len by (intro nth_mem) (simp del: upt_Suc)
      ultimately have "(?f, ?cs ! i) \<in> set ?Z" by (simp only:)
      then have "map_of ?Z ?f = Some (?cs ! i)" using d by simp
      then show ?thesis using mass_map_of [OF d] True by (simp add: get0_def del: upt_Suc)
    qed
    have "map_of (hg_counts h) k = (if seen k obs = [] then None else Some ?cs)" using o(2) unfolding hist_shows_def o(4) by blast
    moreover have "in_bucket DEFAULT_BUCKETS [] i = 0" by (simp add: in_bucket_def)
    moreover have "sum_list (map ?F (hg_counts h)) = (case map_of (hg_counts h) k of None \<Rightarrow> 0 | Some v \<Rightarrow> ?F (k, v))"
      using o(3) other by (intro sum_one_key) (auto simp: hist_ok_def)
    ultimately show ?thesis using at True assms(5) len tot by (auto simp del: upt_Suc)
  qed
qed

lemma mass_sum_fields:
  assumes "observed h obs" "SEP \<notin> set n" "series_ok k"
  shows "mass (encode_field n k) (sum_fields h) = (if n = hg_name h then sum_list (seen k obs) else 0)"
proof -
  note o = observedD [OF assms(1)]
  let ?F = "\<lambda>(k', v). if encode_field (hg_name h) k' = encode_field n k then v else 0"
  have other: "?F (k', v) = 0" if "(k', v) \<in> set (hg_sums h)" "k' \<noteq> k \<or> n \<noteq> hg_name h" for k' v
  proof -
    have "sorted k'" "sorted k" using o(3) that(1) assms(3) by (force simp: hist_ok_def series_ok_def)+
    then show ?thesis using that(2) encode_field_inj [OF o(1) assms(2)] by auto
  qed
  have tot: "mass (encode_field n k) (sum_fields h) = sum_list (map ?F (hg_sums h))"
    unfolding sum_fields_def by (simp add: mass_def comp_def split_def sum_list_map_filter' filter_map)
  have "sum_list (map ?F (hg_sums h)) = (case map_of (hg_sums h) k of None \<Rightarrow> 0 | Some v \<Rightarrow> ?F (k, v))"
    using o(3) other by (intro sum_one_key) (auto simp: hist_ok_def)
  moreover have "get0 (hg_sums h) k = sum_list (seen k obs)" using o(2) unfolding hist_shows_def by blast
  moreover have "sum_list (map ?F (hg_sums h)) = 0" if "n \<noteq> hg_name h"
  proof -
    have z: "map ?F (hg_sums h) = map (\<lambda>_. 0) (hg_sums h)" using that other by (intro map_cong refl) auto
    show ?thesis unfolding z by simp
  qed
  ultimately show ?thesis unfolding tot by (auto simp: get0_def split: option.splits)
qed

definition flush_round :: "(real \<Rightarrow> string) \<Rightarrow> real \<Rightarrow> real \<Rightarrow> int \<Rightarrow> round \<Rightarrow> metrics_db \<Rightarrow> metrics_db" where
  "flush_round rp ttl now t r db = (let (w, rg, obs) = r in snd (snd (sink_flush rp w ttl now t None (rg, db))))"

definition fleet_values :: "round list \<Rightarrow> string \<Rightarrow> series \<Rightarrow> real list" where
  "fleet_values rounds n k = concat (map (\<lambda>(w, rg, obs). seen k (obs n)) rounds)"

lemma in_bucket_append: "in_bucket bs (xs @ ys) i = in_bucket bs xs i + in_bucket bs ys i"
  by (simp add: in_bucket_def)

lemma sum_names:
  fixes X :: real
  assumes "distinct (map hg_name hs)" "n \<notin> hg_name ` set hs \<Longrightarrow> X = 0"
  shows "sum_list (map (\<lambda>h. if n = hg_name h then X else 0) hs) = X"
  using assms
proof (induction hs)
  case (Cons h hs)
  show ?case
  proof (cases "n = hg_name h")
    case True
    then have z: "map (\<lambda>h. if n = hg_name h then X else 0) hs = map (\<lambda>_. 0) hs" using Cons.prems(1) by (intro map_cong refl) auto
    show ?thesis unfolding list.map(2) z using True by simp
  qed (use Cons in auto)
qed simp

lemma round_hashes:
  assumes "reports r" "SEP \<notin> set n" "series_ok k" "distinct (bucket_labels rp DEFAULT_BUCKETS)"
    and db': "db' = flush_round rp ttl now t r db"
  shows "i < length (bucket_labels rp DEFAULT_BUCKETS) \<Longrightarrow>
      db_hash db' HISTOGRAM_COUNT_KEY (hist_field n k (bucket_labels rp DEFAULT_BUCKETS ! i))
      = db_hash db HISTOGRAM_COUNT_KEY (hist_field n k (bucket_labels rp DEFAULT_BUCKETS ! i)) + in_bucket DEFAULT_BUCKETS (fleet_values [r] n k) i"
    and "db_hash db' HISTOGRAM_SUM_KEY (encode_field n k) = db_hash db HISTOGRAM_SUM_KEY (encode_field n k) + sum_list (fleet_values [r] n k)"
proof -
  obtain w rg obs where r: "r = (w, rg, obs)" by (cases r)
  obtain e rg' where s: "sink_flush rp w ttl now t None (rg, db) = (e, rg', db')"
    by (cases "sink_flush rp w ttl now t None (rg, db)") (auto simp: db' flush_round_def r)
  have rep: "distinct (map hg_name (rg_histograms rg))" "\<And>h. h \<in> set (rg_histograms rg) \<Longrightarrow> observed h (obs (hg_name h))"
    "n \<notin> hg_name ` set (rg_histograms rg) \<Longrightarrow> obs n = []" using assms(1) by (auto simp: r)
  have one: "fleet_values [r] n k = seen k (obs n)" by (simp add: fleet_values_def r)
  show "db_hash db' HISTOGRAM_COUNT_KEY (hist_field n k (bucket_labels rp DEFAULT_BUCKETS ! i))
      = db_hash db HISTOGRAM_COUNT_KEY (hist_field n k (bucket_labels rp DEFAULT_BUCKETS ! i)) + in_bucket DEFAULT_BUCKETS (fleet_values [r] n k) i"
    if i: "i < length (bucket_labels rp DEFAULT_BUCKETS)"
  proof -
    have m: "map (mass (hist_field n k (bucket_labels rp DEFAULT_BUCKETS ! i)) \<circ> bucket_fields rp) (rg_histograms rg)
        = map (\<lambda>h. if n = hg_name h then in_bucket DEFAULT_BUCKETS (seen k (obs n)) i else 0) (rg_histograms rg)"
      using mass_bucket_fields [OF rep(2) assms(2-4) i] by (intro map_cong refl) auto
    have "n \<notin> hg_name ` set (rg_histograms rg) \<Longrightarrow> in_bucket DEFAULT_BUCKETS (seen k (obs n)) i = 0"
      using rep(3) by (simp add: seen_def in_bucket_def)
    with sum_names [OF rep(1), of n] show ?thesis unfolding flush_hashes(1) [OF s] one m by simp
  qed
  have m: "map (mass (encode_field n k) \<circ> sum_fields) (rg_histograms rg)
      = map (\<lambda>h. if n = hg_name h then sum_list (seen k (obs n)) else 0) (rg_histograms rg)"
    using mass_sum_fields [OF rep(2) assms(2,3)] by (intro map_cong refl) auto
  have "n \<notin> hg_name ` set (rg_histograms rg) \<Longrightarrow> sum_list (seen k (obs n)) = 0" using rep(3) by (simp add: seen_def)
  with sum_names [OF rep(1), of n]
  show "db_hash db' HISTOGRAM_SUM_KEY (encode_field n k) = db_hash db HISTOGRAM_SUM_KEY (encode_field n k) + sum_list (fleet_values [r] n k)"
    unfolding flush_hashes(2) [OF s] one m by simp
qed

definition bucket_field_ok :: "(real \<Rightarrow> string) \<Rightarrow> string \<Rightarrow> bool" where
  "bucket_field_ok rp f \<longleftrightarrow>
     (\<exists>n k l. SEP \<notin> set n \<and> series_ok k \<and> l \<in> set (bucket_labels rp DEFAULT_BUCKETS) \<and> f = hist_field n k l)"

definition sum_field_ok :: "string \<Rightarrow> bool" where
  "sum_field_ok f \<longleftrightarrow> (\<exists>n k. SEP \<notin> set n \<and> series_ok k \<and> f = encode_field n k)"

lemma sum_list_nonzero: "sum_list (map F xs) \<noteq> (0 :: real) \<Longrightarrow> \<exists>x \<in> set xs. F x \<noteq> 0"
  by (induction xs) auto

lemma round_fields:
  assumes "reports r" and db': "db' = flush_round rp ttl now t r db"
  shows "db_hash db' HISTOGRAM_COUNT_KEY f \<noteq> db_hash db HISTOGRAM_COUNT_KEY f \<Longrightarrow> bucket_field_ok rp f"
    and "db_hash db' HISTOGRAM_SUM_KEY f \<noteq> db_hash db HISTOGRAM_SUM_KEY f \<Longrightarrow> sum_field_ok f"
proof -
  obtain w rg obs where r: "r = (w, rg, obs)" by (cases r)
  obtain e rg' where s: "sink_flush rp w ttl now t None (rg, db) = (e, rg', db')"
    by (cases "sink_flush rp w ttl now t None (rg, db)") (auto simp: db' flush_round_def r)
  have o: "observed h (obs (hg_name h))" if "h \<in> set (rg_histograms rg)" for h using assms(1) that by (auto simp: r)
  show "bucket_field_ok rp f" if "db_hash db' HISTOGRAM_COUNT_KEY f \<noteq> db_hash db HISTOGRAM_COUNT_KEY f"
  proof -
    have "sum_list (map (mass f \<circ> bucket_fields rp) (rg_histograms rg)) \<noteq> 0" using that unfolding flush_hashes(1) [OF s] by simp
    then obtain h where h: "h \<in> set (rg_histograms rg)" "mass f (bucket_fields rp h) \<noteq> 0" using sum_list_nonzero by fastforce
    note O = observedD [OF o [OF h(1)]]
    obtain k cs le m where "(k, cs) \<in> set (hg_counts h)" "(le, m) \<in> set (zip (bucket_labels rp DEFAULT_BUCKETS) cs)"
      "f = hist_field (hg_name h) k le"
      using mass_nonzero [OF h(2)] unfolding bucket_fields_def O(4) by auto
    moreover have "series_ok k" using O(3) calculation(1) by (force simp: hist_ok_def)
    ultimately show ?thesis unfolding bucket_field_ok_def using O(1) set_zip_leftD by metis
  qed
  show "sum_field_ok f" if "db_hash db' HISTOGRAM_SUM_KEY f \<noteq> db_hash db HISTOGRAM_SUM_KEY f"
  proof -
    have "sum_list (map (mass f \<circ> sum_fields) (rg_histograms rg)) \<noteq> 0" using that unfolding flush_hashes(2) [OF s] by simp
    then obtain h where h: "h \<in> set (rg_histograms rg)" "mass f (sum_fields h) \<noteq> 0" using sum_list_nonzero by fastforce
    note O = observedD [OF o [OF h(1)]]
    obtain k v where "(k, v) \<in> set (hg_sums h)" "f = encode_field (hg_name h) k"
      using mass_nonzero [OF h(2)] unfolding sum_fields_def by auto
    moreover have "series_ok k" using O(3) calculation(1) by (force simp: hist_ok_def)
    ultimately show ?thesis unfolding sum_field_ok_def using O(1) by metis
  qed
qed

text \<open>The rounds of all workers, each with the worker's clock and the server's.\<close>

definition flush_rounds :: "(real \<Rightarrow> string) \<Rightarrow> real \<Rightarrow> ((real \<times> int) \<times> round) list \<Rightarrow> metrics_db \<Rightarrow> metrics_db" where
  "flush_rounds rp ttl rounds db = fold (\<lambda>((now, t), r). flush_round rp ttl now t r) rounds db"

lemma fleet_hashes:
  assumes "\<forall>x \<in> set rounds. reports (snd x)" "distinct (bucket_labels rp DEFAULT_BUCKETS)" "SEP \<notin> set n" "series_ok k"
  shows "i < length (bucket_labels rp DEFAULT_BUCKETS) \<Longrightarrow>
      db_hash (flush_rounds rp ttl rounds db) HISTOGRAM_COUNT_KEY (hist_field n k (bucket_labels rp DEFAULT_BUCKETS ! i))
      = db_hash db HISTOGRAM_COUNT_KEY (hist_field n k (bucket_labels rp DEFAULT_BUCKETS ! i))
        + in_bucket DEFAULT_BUCKETS (fleet_values (map snd rounds) n k) i"
    and "db_hash (flush_rounds rp ttl rounds db) HISTOGRAM_SUM_KEY (encode_field n k)
      = db_hash db HISTOGRAM_SUM_KEY (encode_field n k) + sum_list (fleet_values (map snd rounds) n k)"
  using assms(1)
proof (induction rounds arbitrary: db)
  case Nil
  { case 1 show ?case by (simp add: flush_rounds_def fleet_values_def in_bucket_def) }
  { case 2 show ?case by (simp add: flush_rounds_def fleet_values_def) }
next
  case (Cons x rounds)
  obtain now t r where x: "x = ((now, t), r)" by (metis prod.exhaust)
  have f: "flush_rounds rp ttl (x # rounds) db = flush_rounds rp ttl rounds (flush_round rp ttl now t r db)"
    "fleet_values (map snd (x # rounds)) n k = fleet_values [r] n k @ fleet_values (map snd rounds) n k" for db
    by (simp_all add: flush_rounds_def fleet_values_def x)
  { case (1 db)
    then show ?case using Cons.IH(1) [of "flush_round rp ttl now t r db"] round_hashes(1) [OF _ assms(3,4,2) refl, of r i ttl now t db] x unfolding f in_bucket_append by auto }
  { case (2 db)
    then show ?case using Cons.IH(2) [of "flush_round rp ttl now t r db"] round_hashes(2) [OF _ assms(3,4,2) refl, of r ttl now t db] x unfolding f by auto }
qed

lemma fleet_fields:
  assumes "\<forall>x \<in> set rounds. reports (snd x)"
  shows "db_hash (flush_rounds rp ttl rounds db) HISTOGRAM_COUNT_KEY f \<noteq> db_hash db HISTOGRAM_COUNT_KEY f \<Longrightarrow> bucket_field_ok rp f"
    and "db_hash (flush_rounds rp ttl rounds db) HISTOGRAM_SUM_KEY f \<noteq> db_hash db HISTOGRAM_SUM_KEY f \<Longrightarrow> sum_field_ok f"
  using assms
proof (induction rounds arbitrary: db)
  case (Cons x rounds)
  obtain now t r where x: "x = ((now, t), r)" by (metis prod.exhaust)
  have f: "flush_rounds rp ttl (x # rounds) db = flush_rounds rp ttl rounds (flush_round rp ttl now t r db)" for db by (simp add: flush_rounds_def x)
  { case (1 db) then show ?case using Cons.IH(1) [of "flush_round rp ttl now t r db"] round_fields(1) [OF _ refl, of r rp ttl now t db f] x unfolding f by force }
  { case (2 db) then show ?case using Cons.IH(2) [of "flush_round rp ttl now t r db"] round_fields(2) [OF _ refl, of r rp ttl now t db f] x unfolding f by force }
qed (simp_all add: flush_rounds_def)

section \<open>Rebuilding the histograms\<close>

text \<open>
  The reply of \<^verbatim>\<open>HGETALL\<close>: each field of the hash once, in any order. A field holds a value other than
  zero exactly when it was incremented, up to a sum that has cancelled, which reads as the default.
\<close>

definition hgetall_reply :: "(string \<Rightarrow> real) \<Rightarrow> reply \<Rightarrow> bool" where
  "hgetall_reply h items \<longleftrightarrow> distinct (map fst items) \<and> (\<forall>f v. (f, v) \<in> set items \<longleftrightarrow> h f = v \<and> v \<noteq> 0)"

lemma decode_all_ok:
  assumes "\<forall>(f, v) \<in> set r. decode_field f = Some (D f)"
  shows "decode_all r = Inr (map (\<lambda>(f, v). (fst (D f), snd (D f), v)) r)"
  using assms
proof (induction r)
  case (Cons x r)
  then show ?case by (cases x; cases "D (fst x)") (auto simp: sum_bind_def)
qed simp

definition put3 :: "string \<Rightarrow> series \<Rightarrow> string \<Rightarrow> real \<Rightarrow> by_metric \<Rightarrow> by_metric" where
  "put3 n k l v g = AList.update n (AList.update k (AList.update l v (getl (getl g n) k)) (getl g n)) g"

lemma group_bucket_field: "series_ok k \<Longrightarrow> group_bucket (n, sort (AList.update ''le'' l k), v) g = put3 n k l v g"
  by (simp add: group_bucket_def lookup_le delete_le put3_def Let_def)

lemma getl_update: "getl (AList.update a x m) b = (if b = a then x else getl m b)"
  by (simp add: getl_def update_conv')

text \<open>What the nested dict holds after the entries \<open>ys\<close>, whose values are given by \<open>H\<close>.\<close>

definition built :: "(string \<Rightarrow> series \<Rightarrow> string \<Rightarrow> real) \<Rightarrow> (string \<times> series \<times> string \<times> real) list \<Rightarrow> by_metric \<Rightarrow> bool" where
  "built H ys g \<longleftrightarrow>
     distinct (map fst g) \<and> (\<forall>n. distinct (map fst (getl g n))) \<and>
     (\<forall>n. map_of g n = None \<longrightarrow> (\<forall>k l v. (n, k, l, v) \<notin> set ys)) \<and>
     (\<forall>n k. k \<in> fst ` set (getl g n) \<longleftrightarrow> (\<exists>l v. (n, k, l, v) \<in> set ys)) \<and>
     (\<forall>n k l. get0 (getl (getl g n) k) l = (if \<exists>v. (n, k, l, v) \<in> set ys then H n k l else 0))"

lemma built_put3:
  assumes "built H ys g" "v = H n k l"
  shows "built H (ys @ [(n, k, l, v)]) (put3 n k l v g)"
  using assms unfolding built_def put3_def
  by (auto simp: getl_update get0_update distinct_update update_keys update_conv' simp flip: map_of_eq_None_iff)

lemma built_fold:
  assumes "\<forall>(n, k, l, v) \<in> set ys. v = H n k l"
  shows "built H ys (fold (\<lambda>(n, k, l, v). put3 n k l v) ys [])"
  using assms
proof (induction ys rule: rev_induct)
  case (snoc y ys)
  obtain n k l v where y: "y = (n, k, l, v)" by (metis prod.exhaust)
  have "\<forall>(n, k, l, v) \<in> set ys. v = H n k l" "v = H n k l" using snoc.prems y by auto
  then show ?case using built_put3 [OF snoc.IH] y by simp
qed (simp add: built_def getl_def get0_def)

lemma filter_one_key:
  assumes "distinct (map fst xs)"
  shows "filter (\<lambda>x. fst x = a) xs = (case map_of xs a of None \<Rightarrow> [] | Some v \<Rightarrow> [(a, v)])"
  using assms
proof (induction xs)
  case (Cons x xs)
  have "filter (\<lambda>y. fst y = fst x) xs = []" using Cons.prems by (auto simp: filter_empty_conv) (metis fst_conv imageI)
  then show ?case using Cons by (cases x) auto
qed simp

lemma concat_one:
  assumes "distinct ks"
  shows "concat (map (\<lambda>k. if k = a then X else []) ks) = (if a \<in> set ks then X else [])"
  using assms
proof (induction ks)
  case (Cons k ks)
  have "concat (map (\<lambda>k. if k = a then X else []) ks) = []" if "k = a" using that Cons.prems by (auto simp: concat_eq_Nil_conv)
  then show ?case using Cons by auto
qed simp

text \<open>The values a scrape shows for one series of a histogram.\<close>

definition of_series :: "series \<Rightarrow> sample \<Rightarrow> bool" where
  "of_series k s \<longleftrightarrow> AList.delete ''le'' (sm_labels s) = k"

definition scraped :: "metric_family list \<Rightarrow> string \<Rightarrow> series \<Rightarrow> real list" where
  "scraped fs n k =
     map sm_value (filter (of_series k) (concat (map mf_samples (filter (\<lambda>f. mf_kind f = ''histogram'' \<and> mf_name f = n) fs))))"

lemma samples_of_series:
  assumes "series_ok k'"
  shows "filter (of_series k) (series_samples rp n bounds tots (k', cs)) = (if k' = k then series_samples rp n bounds tots (k', cs) else [])"
proof -
  have "AList.delete ''le'' k' = k'" using assms by (intro delete_id) (simp add: series_ok_def)
  moreover have "AList.delete ''le'' (AList.update ''le'' l k') = k'" for l
    using calculation by (simp add: update_le [OF assms] delete_filter)
  ultimately have "\<forall>s \<in> set (series_samples rp n bounds tots (k', cs)). AList.delete ''le'' (sm_labels s) = k'"
    by (auto simp: series_samples_def Let_def)
  then show ?thesis by (auto simp: of_series_def filter_id_conv filter_empty_conv)
qed

lemma histogram_samples_of_series:
  assumes "distinct (map fst counts)" "\<forall>k \<in> fst ` set counts. series_ok k"
  shows "filter (of_series k) (histogram_samples rp n bounds counts tots)
    = (case map_of counts k of None \<Rightarrow> [] | Some cs \<Rightarrow> series_samples rp n bounds tots (k, cs))"
proof -
  let ?X = "case map_of counts k of None \<Rightarrow> [] | Some cs \<Rightarrow> series_samples rp n bounds tots (k, cs)"
  have "filter (of_series k) (histogram_samples rp n bounds counts tots)
      = concat (map (\<lambda>k'. if k' = k then ?X else []) (sort (map fst counts)))"
    unfolding histogram_samples_def filter_concat map_map comp_def
    using assms(2) by (intro arg_cong [of _ _ concat] map_cong refl) (auto simp: samples_of_series split: option.split dest: map_of_SomeD)
  also have "\<dots> = (if k \<in> fst ` set counts then ?X else [])" using assms(1) by (subst concat_one) auto
  also have "\<dots> = ?X" using map_of_eq_None_iff [of counts k] by (auto split: option.split)
  finally show ?thesis .
qed

lemma labels_agree: "labelled_bounds rp = bucket_labels rp DEFAULT_BUCKETS"
  by (simp add: labelled_bounds_def bucket_labels_def DEFAULT_BUCKETS_def label_bound_def format_value_def)

lemma scraped_app [simp]: "scraped (fs @ gs) n k = scraped fs n k @ scraped gs n k"
  by (simp add: scraped_def)

lemma scraped_other: "\<forall>f \<in> set fs. mf_kind f \<noteq> ''histogram'' \<Longrightarrow> scraped fs n k = []"
  by (simp add: scraped_def filter_False)

text \<open>The families rebuilt from the entries \<open>ys\<close> of the bucket hash.\<close>

lemma scraped_histograms:
  assumes ok: "\<forall>(n, k, l, v) \<in> set ys. v = H n k l \<and> series_ok k"
    and bs: "bs = map (\<lambda>(n, k, l, v). (n, sort (AList.update ''le'' l k), v)) ys"
    and "series_ok k"
  shows "scraped (histogram_families rp bs ss) n k =
    (if \<exists>l v. (n, k, l, v) \<in> set ys
     then map sm_value (series_samples rp n DEFAULT_BUCKETS (getl (fold group_sum ss []) n)
       (k, map (\<lambda>l. if \<exists>v. (n, k, l, v) \<in> set ys then H n k l else 0) (bucket_labels rp DEFAULT_BUCKETS)))
     else [])"
proof -
  define g where "g = fold group_bucket bs []"
  have "g = fold (\<lambda>(n, k, l, v). put3 n k l v) ys []"
    unfolding g_def bs fold_map using ok by (intro fold_cong refl ext) (auto simp: group_bucket_field)
  moreover have "\<forall>(n, k, l, v) \<in> set ys. v = H n k l" using ok by fast
  ultimately have B: "built H ys g" using built_fold [of ys H] by simp
  then have d: "distinct (map fst g)" "distinct (map fst (getl g n))"
    and keys: "k' \<in> fst ` set (getl g n) \<longleftrightarrow> (\<exists>l v. (n, k', l, v) \<in> set ys)"
    and vals: "get0 (getl (getl g n) k') l = (if \<exists>v. (n, k', l, v) \<in> set ys then H n k' l else 0)" for k' l
    by (simp_all add: built_def)
  let ?C = "map (\<lambda>(k, by_bound). (k, map (get0 by_bound) (bucket_labels rp DEFAULT_BUCKETS))) (getl g n)"
  let ?S = "getl (fold group_sum ss []) n"
  have fam: "scraped (histogram_families rp bs ss) n k = map sm_value (filter (of_series k) (histogram_samples rp n DEFAULT_BUCKETS ?C ?S))"
  proof -
    have "filter (\<lambda>x. fst x = n) (sort_key fst g) = (case map_of g n of None \<Rightarrow> [] | Some m \<Rightarrow> [(n, m)])"
      unfolding filter_sort filter_one_key [OF d(1)] by (simp split: option.split)
    then have one: "filter (\<lambda>f. mf_kind f = ''histogram'' \<and> mf_name f = n) (histogram_families rp bs ss)
        = (case map_of g n of None \<Rightarrow> [] | Some m \<Rightarrow> [\<lparr>mf_name = n, mf_kind = ''histogram'',
            mf_help = help_of WORKER_HISTOGRAMS n ''Worker-sourced histogram.'', mf_samples = histogram_samples rp n DEFAULT_BUCKETS
              (map (\<lambda>(k, by_bound). (k, map (get0 by_bound) (bucket_labels rp DEFAULT_BUCKETS))) m) ?S\<rparr>])"
      by (cases "map_of g n") (simp_all add: histogram_families_def g_def [symmetric] Let_def labels_agree filter_map comp_def split_def)
    have "histogram_samples rp n DEFAULT_BUCKETS [] ?S = []" by (simp add: histogram_samples_def)
    then show ?thesis unfolding scraped_def one by (cases "map_of g n") (simp_all add: getl_def [of g])
  qed
  have dC: "distinct (map fst ?C)" using d(2) by (simp add: comp_def split_def)
  have "series_ok k'" if key: "k' \<in> fst ` set (getl g n)" for k'
  proof -
    obtain l v where "(n, k', l, v) \<in> set ys" using keys [of k'] key by blast
    from bspec [OF ok this] show ?thesis by simp
  qed
  then have okC: "\<forall>k \<in> fst ` set ?C. series_ok k" by force
  have "map_of ?C k = map_option (\<lambda>b. map (get0 b) (bucket_labels rp DEFAULT_BUCKETS)) (map_of (getl g n) k)" by (simp add: map_of_map)
  moreover have "map_of (getl g n) k = (if \<exists>l v. (n, k, l, v) \<in> set ys then Some (getl (getl g n) k) else None)"
    using keys [of k] map_of_eq_None_iff [of "getl g n" k] by (auto simp: getl_def [of _ k] split: option.split)
  moreover have "get0 (getl (getl g n) k) = (\<lambda>l. if \<exists>v. (n, k, l, v) \<in> set ys then H n k l else 0)" by (intro ext vals)
  ultimately show ?thesis unfolding fam histogram_samples_of_series [OF dC okC] by simp
qed

lemma group_sums:
  assumes "\<forall>(n, ls, v) \<in> set ss. v = S n (sort ls)"
  shows "get0 (getl (fold group_sum ss []) n) k = (if \<exists>ls v. (n, ls, v) \<in> set ss \<and> sort ls = k then S n k else 0)"
  using assms
proof (induction ss rule: rev_induct)
  case (snoc x ss)
  obtain n' ls v where x: "x = (n', ls, v)" by (metis prod.exhaust)
  have "v = S n' (sort ls)" "\<forall>(n, ls, v) \<in> set ss. v = S n (sort ls)" using snoc.prems x by auto
  then have IH: "get0 (getl (fold group_sum ss []) n) k = (if \<exists>ls v. (n, ls, v) \<in> set ss \<and> sort ls = k then S n k else 0)"
    and v: "v = S n' (sort ls)" using snoc.IH by simp_all
  show ?case
  proof (cases "n = n' \<and> k = sort ls")
    case True
    then show ?thesis using v by (auto simp: x group_sum_def getl_update get0_update)
  next
    case False
    then have "(\<exists>ls v. (n, ls, v) \<in> set (ss @ [x]) \<and> sort ls = k) \<longleftrightarrow> (\<exists>ls v. (n, ls, v) \<in> set ss \<and> sort ls = k)"
      by (auto simp: x)
    moreover have "get0 (getl (fold group_sum (ss @ [x]) []) n) k = get0 (getl (fold group_sum ss []) n) k"
      using False by (auto simp: x group_sum_def getl_update get0_update)
    ultimately show ?thesis using IH by simp
  qed
qed (simp add: getl_def get0_def)

lemma in_bucket_zero: "(\<forall>i < Suc (length bs). in_bucket bs vs i = 0) \<longleftrightarrow> vs = []"
proof
  assume z: "\<forall>i < Suc (length bs). in_bucket bs vs i = 0"
  show "vs = []"
  proof (cases vs)
    case (Cons v vs')
    then have "in_bucket bs vs (find_bucket bs v) > 0" by (simp add: in_bucket_def)
    then show ?thesis using z find_bucket_le [of bs v] by (simp add: less_Suc_eq_le)
  qed simp
qed (simp add: in_bucket_def)

text \<open>The entries behind a reply of the bucket hash and of the sum hash.\<close>

lemma bucket_entries:
  fixes h rp
  defines "L \<equiv> bucket_labels rp DEFAULT_BUCKETS"
  assumes "hgetall_reply h r" and "\<And>f. h f \<noteq> 0 \<Longrightarrow> bucket_field_ok rp f"
  shows "\<exists>ys. decode_all r = Inr (map (\<lambda>(n, k, l, v). (n, sort (AList.update ''le'' l k), v)) ys) \<and>
    (\<forall>n k l v. (n, k, l, v) \<in> set ys \<longleftrightarrow> SEP \<notin> set n \<and> series_ok k \<and> l \<in> set L \<and> h (hist_field n k l) = v \<and> v \<noteq> 0)"
proof -
  note R = assms(2) [unfolded hgetall_reply_def]
  let ?P = "\<lambda>f n k l. SEP \<notin> set n \<and> series_ok k \<and> l \<in> set L \<and> f = hist_field n k l"
  have "\<exists>N K M. \<forall>f. h f \<noteq> 0 \<longrightarrow> ?P f (N f) (K f) (M f)"
    using assms(3) unfolding bucket_field_ok_def L_def [symmetric] by metis
  then obtain N K M where P: "\<And>f. h f \<noteq> 0 \<Longrightarrow> ?P f (N f) (K f) (M f)" by blast
  define ys where "ys = map (\<lambda>(f, v). (N f, K f, M f, v)) r"
  have "\<forall>(f, v) \<in> set r. decode_field f = Some (N f, sort (AList.update ''le'' (M f) (K f)))"
  proof (clarify)
    fix f v assume "(f, v) \<in> set r"
    then have "h f \<noteq> 0" using R by auto
    from P [OF this] show "decode_field f = Some (N f, sort (AList.update ''le'' (M f) (K f)))" using decode_hist_field by metis
  qed
  from decode_all_ok [OF this] have "decode_all r = Inr (map (\<lambda>(n, k, l, v). (n, sort (AList.update ''le'' l k), v)) ys)"
    by (simp add: ys_def comp_def split_def)
  moreover have "(n, k, l, v) \<in> set ys \<longleftrightarrow> SEP \<notin> set n \<and> series_ok k \<and> l \<in> set L \<and> h (hist_field n k l) = v \<and> v \<noteq> 0" for n k l v
  proof
    assume "(n, k, l, v) \<in> set ys"
    then obtain f where "(f, v) \<in> set r" "n = N f" "k = K f" "l = M f" by (auto simp: ys_def)
    then show "SEP \<notin> set n \<and> series_ok k \<and> l \<in> set L \<and> h (hist_field n k l) = v \<and> v \<noteq> 0" using P [of f] R by auto
  next
    assume e: "SEP \<notin> set n \<and> series_ok k \<and> l \<in> set L \<and> h (hist_field n k l) = v \<and> v \<noteq> 0"
    let ?f = "hist_field n k l"
    have m: "(?f, v) \<in> set r" using R e by auto
    have "N ?f = n" "K ?f = k" "M ?f = l" using P [of ?f] e hist_field_inj [of n "N ?f" k "K ?f" l "M ?f"] by auto
    then show "(n, k, l, v) \<in> set ys" using m by (force simp: ys_def)
  qed
  ultimately show ?thesis by blast
qed

lemma sum_entries:
  assumes "hgetall_reply h r" and "\<And>f. h f \<noteq> 0 \<Longrightarrow> sum_field_ok f" and "SEP \<notin> set n" "series_ok k"
  shows "\<exists>ss. decode_all r = Inr ss \<and> get0 (getl (fold group_sum ss []) n) k = h (encode_field n k)"
proof -
  note R = assms(1) [unfolded hgetall_reply_def]
  let ?P = "\<lambda>f n k. SEP \<notin> set n \<and> series_ok k \<and> f = encode_field n k"
  have "\<exists>N K. \<forall>f. h f \<noteq> 0 \<longrightarrow> ?P f (N f) (K f)" using assms(2) unfolding sum_field_ok_def by metis
  then obtain N K where P: "\<And>f. h f \<noteq> 0 \<Longrightarrow> ?P f (N f) (K f)" by blast
  define ss where "ss = map (\<lambda>(f, v). (N f, K f, v)) r"
  have sorted: "sort (K f) = K f" if "h f \<noteq> 0" for f using P [OF that] by (simp add: series_ok_def sorted_sort_id)
  have "\<forall>(f, v) \<in> set r. decode_field f = Some (N f, K f)"
  proof (clarify)
    fix f v assume "(f, v) \<in> set r"
    then have f: "h f \<noteq> 0" using R by auto
    from P [OF f] show "decode_field f = Some (N f, K f)" using decode_encode sorted [OF f] by metis
  qed
  from decode_all_ok [OF this] have D: "decode_all r = Inr ss" by (simp add: ss_def)
  have S: "\<forall>(n, ls, v) \<in> set ss. v = h (encode_field n (sort ls))" using R P sorted by (fastforce simp: ss_def)
  have "(\<exists>ls v. (n, ls, v) \<in> set ss \<and> sort ls = k) \<longleftrightarrow> h (encode_field n k) \<noteq> 0"
  proof
    assume "\<exists>ls v. (n, ls, v) \<in> set ss \<and> sort ls = k"
    then obtain f v where f: "(f, v) \<in> set r" "n = N f" "k = sort (K f)" by (auto simp: ss_def)
    then show "h (encode_field n k) \<noteq> 0" using R P [of f] sorted [of f] by auto
  next
    assume e: "h (encode_field n k) \<noteq> 0"
    let ?f = "encode_field n k"
    have "N ?f = n" "K ?f = k"
      using P [OF e] encode_field_inj [of n "N ?f" k "K ?f"] assms(3,4) by (auto simp: series_ok_def)
    moreover have "(?f, h ?f) \<in> set r" using R e by auto
    ultimately have "(n, k, h ?f) \<in> set ss" by (force simp: ss_def)
    then show "\<exists>ls v. (n, ls, v) \<in> set ss \<and> sort ls = k" using assms(4) by (auto simp: series_ok_def sorted_sort_id)
  qed
  then show ?thesis using D group_sums [OF S, of n k] by auto
qed

definition decodable :: "reply \<Rightarrow> bool" where
  "decodable r \<longleftrightarrow> (\<forall>(f, v) \<in> set r. decode_field f \<noteq> None)"

lemma decodable_decodes: "decodable r \<Longrightarrow> \<exists>xs. decode_all r = Inr xs"
  using decode_all_ok [of r "the \<circ> decode_field"] by (fastforce simp: decodable_def)


section \<open>A scrape changes no decision\<close>

text \<open>A loop over endpoints that touches one cell each.\<close>

lemma fold_cells:
  assumes "distinct (map fst as)" and step: "\<And>x ss cells. snd (step x (ss, cells)) = cells(fst x := upd x (cells (fst x)))"
  shows "snd (fold step as (ss, cells)) e = (case map_of as e of None \<Rightarrow> cells e | Some a \<Rightarrow> upd (e, a) (cells e))"
  using assms(1)
proof (induction as arbitrary: ss cells)
  case (Cons x as)
  obtain ss' cells' where s: "step x (ss, cells) = (ss', cells')" by (cases "step x (ss, cells)")
  have c: "cells' = cells(fst x := upd x (cells (fst x)))" using step [of x ss cells] s by simp
  have "map_of as (fst x) = None" using Cons.prems by (simp add: map_of_eq_None_iff)
  moreover have "snd (fold step (x # as) (ss, cells)) e = (case map_of as e of None \<Rightarrow> cells' e | Some a \<Rightarrow> upd (e, a) (cells' e))"
    using Cons.IH [of ss' cells'] Cons.prems s by simp
  ultimately show ?case using c by (cases x; cases "e = fst x") (auto split: option.split)
qed simp

text \<open>
  What the scrape relies on in a gate kept in Redis: a script that workers run, a look at its state
  that runs the same script, and when a look goes unnoticed. \<open>quiet a' a now now' c\<close> says that a look
  with arguments \<open>a'\<close> at time \<open>now\<close> at the cell \<open>c\<close> makes no difference to a call with arguments \<open>a\<close> at \<open>now'\<close>.
\<close>

locale observable_gate =
  fixes run :: "'a \<Rightarrow> 'o \<Rightarrow> real \<Rightarrow> 'c \<Rightarrow> 'v \<times> 'c"
    and look :: "'a \<Rightarrow> real \<Rightarrow> 'c \<Rightarrow> 's \<times> 'c"
    and quiet :: "'a \<Rightarrow> 'a \<Rightarrow> real \<Rightarrow> real \<Rightarrow> 'c \<Rightarrow> bool"
  assumes unseen: "quiet a' a now now' c \<Longrightarrow> fst (run a op now' (snd (look a' now c))) = fst (run a op now' c)"
begin

text \<open>A loop of looks over distinct endpoints, any of which may fail before or after its script has run.\<close>

lemma survey_unseen:
  assumes "distinct (map fst as)"
    and step: "\<And>x ss cells. snd (step x (ss, cells)) =
      cells(fst x := if fails (fst x) = Some False then cells (fst x) else snd (look (snd x) now (cells (fst x))))"
    and "\<And>a'. (e, a') \<in> set as \<Longrightarrow> quiet a' a now now' (cells e)"
  shows "fst (run a op now' (snd (fold step as (ss, cells)) e)) = fst (run a op now' (cells e))"
proof -
  have "snd (fold step as (ss, cells)) e =
      (case map_of as e of None \<Rightarrow> cells e | Some a' \<Rightarrow> if fails e = Some False then cells e else snd (look a' now (cells e)))"
    using fold_cells [of as step "\<lambda>x c. if fails (fst x) = Some False then c else snd (look (snd x) now c)" ss cells e] assms(1) step
    by (cases "map_of as e") simp_all
  then show ?thesis using unseen assms(3) by (auto split: option.split dest: map_of_SomeD)
qed

end

text \<open>Two breaker hashes that differ at most in the start of the window.\<close>

definition same_but_window :: "breaker_hash \<Rightarrow> breaker_hash \<Rightarrow> bool" where
  "same_but_window h h' \<longleftrightarrow> h\<lparr>bh_window_start := 0\<rparr> = h'\<lparr>bh_window_start := 0\<rparr>"

lemma same_but_windowD:
  assumes "same_but_window h h'"
  shows "bh_state h = bh_state h'" "bh_failures h = bh_failures h'" "bh_successes h = bh_successes h'"
    "bh_opened_at h = bh_opened_at h'" "bh_probes h = bh_probes h'" "bh_probe_ok h = bh_probe_ok h'"
  using assms by (auto simp: same_but_window_def dest: arg_cong [of _ _ bh_state] arg_cong [of _ _ bh_failures]
      arg_cong [of _ _ bh_successes] arg_cong [of _ _ bh_opened_at] arg_cong [of _ _ bh_probes] arg_cong [of _ _ bh_probe_ok])

lemma expiries_again:
  assumes "now \<le> now'" "ba_window_ms a' = ba_window_ms a" "ba_cooldown_ms a' = ba_cooldown_ms a"
  shows "same_but_window (breaker_cool a now' (breaker_roll a now' (breaker_cool a' now (breaker_roll a' now h))))
    (breaker_cool a now' (breaker_roll a now' h))"
  using assms by (cases "bh_state h") (auto simp: same_but_window_def breaker_cool_def breaker_roll_def)

definition verdict_of :: "bool \<times> real \<times> breaker_hash \<Rightarrow> breaker_verdict" where
  "verdict_of x = (let (allowed, retry_ms, h) = x in \<lparr>bv_allowed = allowed, bv_state = bh_state h,
     bv_retry_after_s = of_int \<lfloor>retry_ms\<rfloor> / 1000, bv_failures = bh_failures h, bv_successes = bh_successes h\<rparr>)"

lemma dispatch_same:
  assumes "same_but_window h h'"
  shows "verdict_of (breaker_dispatch a op now h) = verdict_of (breaker_dispatch a op now h')"
  using same_but_windowD [OF assms]
  by (cases op; cases "bh_state h") (auto simp: verdict_of_def open_retry_ms_def trip_def Let_def)

lemma breaker_verdict: "fst (breaker_lua a op now c) = verdict_of (breaker_dispatch a op now (breaker_cool a now (breaker_roll a now (breaker_load now c))))"
  by (simp add: breaker_lua_def verdict_of_def Let_def split_def)

definition quiet_peek :: "breaker_args \<Rightarrow> breaker_args \<Rightarrow> real \<Rightarrow> real \<Rightarrow> breaker_hash cell \<Rightarrow> bool" where
  "quiet_peek a' a now now' c \<longleftrightarrow> now \<le> now' \<and> ba_window_ms a' = ba_window_ms a \<and> ba_cooldown_ms a' = ba_cooldown_ms a \<and>
     get_live \<lfloor>now'\<rfloor> c = get_live \<lfloor>now\<rfloor> c \<and> \<lfloor>now'\<rfloor> < \<lfloor>now\<rfloor> + ba_ttl_ms a'"

definition quiet_read :: "aimd_args \<Rightarrow> aimd_args \<Rightarrow> real \<Rightarrow> real \<Rightarrow> aimd_cells \<Rightarrow> bool" where
  "quiet_read b' b now now' cs \<longleftrightarrow> aa_max_rate b' = aa_max_rate b \<and>
     get_live \<lfloor>now'\<rfloor> (fst cs) = get_live \<lfloor>now\<rfloor> (fst cs) \<and> \<lfloor>now'\<rfloor> < \<lfloor>now\<rfloor> + aa_ttl_ms b'"

text \<open>A report to a rate controller: its kind and the latency.\<close>

definition aimd_report :: "aimd_args \<Rightarrow> aimd_op \<times> real \<Rightarrow> real \<Rightarrow> aimd_cells \<Rightarrow> rate_verdict \<times> aimd_cells" where
  "aimd_report b r now cs = aimd_lua b (fst r) (snd r) now cs"

lemma peek_unseen:
  assumes "now \<le> now'" "ba_window_ms a' = ba_window_ms a" "ba_cooldown_ms a' = ba_cooldown_ms a"
    and "get_live \<lfloor>now'\<rfloor> c = get_live \<lfloor>now\<rfloor> c" "\<lfloor>now'\<rfloor> < \<lfloor>now\<rfloor> + ba_ttl_ms a'"
  shows "fst (breaker_lua a op now' (snd (breaker_peek a' now c))) = fst (breaker_lua a op now' c)"
proof -
  let ?h = "breaker_cool a' now (breaker_roll a' now (breaker_load now c))"
  have "snd (snd (breaker_dispatch a' op_peek now ?h)) = ?h" by (cases "bh_state ?h") simp_all
  then have "breaker_load now' (snd (breaker_peek a' now c)) = ?h"
    using assms(5) by (simp add: breaker_load_def breaker_peek_def breaker_lua_def cell_simps Let_def split_def)
  moreover have "same_but_window (breaker_cool a now' (breaker_roll a now' ?h)) (breaker_cool a now' (breaker_roll a now' (breaker_load now' c)))"
  proof (cases "get_live \<lfloor>now\<rfloor> c")
    case None
    then show ?thesis using assms(4) by (auto simp: breaker_load_def same_but_window_def breaker_cool_def breaker_roll_def)
  next
    case (Some h)
    then have "breaker_load now' c = breaker_load now c" using assms(4) by (simp add: breaker_load_def)
    then show ?thesis using expiries_again [OF assms(1-3)] by simp
  qed
  ultimately show ?thesis unfolding breaker_verdict by (simp add: dispatch_same)
qed

lemma read_unseen:
  assumes "aa_max_rate b' = aa_max_rate b"
    and "get_live \<lfloor>now'\<rfloor> (fst cs) = get_live \<lfloor>now\<rfloor> (fst cs)" "\<lfloor>now'\<rfloor> < \<lfloor>now\<rfloor> + aa_ttl_ms b'"
  shows "fst (aimd_lua b op lat now' (snd (current_rate b' now cs))) = fst (aimd_lua b op lat now' cs)"
proof -
  obtain c ring where cs: "cs = (c, ring)" by (cases cs)
  have "snd (current_rate b' now cs) = (pexpire \<lfloor>now\<rfloor> (aa_ttl_ms b') (put_fields \<lfloor>now\<rfloor> ((aimd_load b' now c)\<lparr>ah_updated_at := now\<rparr>)
      (\<lambda>_. (aimd_load b' now c)\<lparr>ah_updated_at := now\<rparr>) c), ring)"
    by (simp add: current_rate_def aimd_lua_def aimd_latency_def aimd_update_def cs Let_def)
  moreover have "aimd_load b now' (fst (snd (current_rate b' now cs))) = (aimd_load b' now c)\<lparr>ah_updated_at := now\<rparr>"
    using assms(3) calculation by (simp add: aimd_load_def cell_simps)
  moreover have "(aimd_load b' now c)\<lparr>ah_updated_at := u\<rparr> = (aimd_load b now' c)\<lparr>ah_updated_at := u\<rparr>" for u
    using assms(1,2) by (simp add: aimd_load_def cs split: option.split)
  moreover have "aimd_update b op p now' (h\<lparr>ah_updated_at := u\<rparr>) = (let (ch, rs, h') = aimd_update b op p now' h in (ch, rs, h'\<lparr>ah_updated_at := u\<rparr>))" for p h u
    by (simp add: aimd_update_def aimd_congested_def aimd_succeeded_def Let_def)
  ultimately show ?thesis by (simp add: aimd_lua_def cs Let_def split_def)
qed

interpretation breaker_gate: observable_gate breaker_lua breaker_peek quiet_peek
  by unfold_locales (simp add: quiet_peek_def peek_unseen)

interpretation rate_gate: observable_gate aimd_report current_rate quiet_read
  by unfold_locales (simp add: quiet_read_def read_unseen aimd_report_def)

lemma gates_after:
  assumes "metrics rp nan grp env now r slots rg g = (out, g')"
  shows "gt_breakers g' = snd (fold (peek_one (se_fails env) now) (se_breakers env) ([], gt_breakers g))"
    and "gt_rates g' = snd (fold (rate_one (se_rate_fails env) now) (se_limiters env) ([], gt_rates g))"
  using assms by (auto simp: metrics_def metrics_families_def breaker_and_rate_families_def Let_def split_def)

lemma peek_one_cells: "snd (peek_one fails now x (ss, cells)) =
    cells(fst x := if fails (fst x) = Some False then cells (fst x) else snd (breaker_peek (snd x) now (cells (fst x))))"
  and rate_one_cells: "snd (rate_one fails now y (ss, rates)) =
    rates(fst y := if fails (fst y) = Some False then rates (fst y) else snd (current_rate (snd y) now (rates (fst y))))"
  by (auto simp: peek_one_def rate_one_def Let_def split_def split: option.split)

text \<open>
  A scrape runs the breakers' and rate controllers' own scripts on the workers' keys. Whichever of its
  calls fail and whether or not their scripts ran, the next call on any endpoint gets the verdict it
  would have got without the scrape.
\<close>

lemma scrape_unseen:
  assumes "metrics rp nan grp env now r slots rg g = (out, g')"
    and "distinct (map fst (se_breakers env))" "distinct (map fst (se_limiters env))"
    and "\<And>a'. (e, a') \<in> set (se_breakers env) \<Longrightarrow> quiet_peek a' a now now' (gt_breakers g e)"
    and "\<And>b'. (e, b') \<in> set (se_limiters env) \<Longrightarrow> quiet_read b' b now now' (gt_rates g e)"
  shows "fst (breaker_lua a op now' (gt_breakers g' e)) = fst (breaker_lua a op now' (gt_breakers g e)) \<and>
    fst (aimd_lua b op' lat now' (gt_rates g' e)) = fst (aimd_lua b op' lat now' (gt_rates g e))"
proof -
  have "fst (breaker_lua a op now' (gt_breakers g' e)) = fst (breaker_lua a op now' (gt_breakers g e))"
    unfolding gates_after [OF assms(1)] by (rule breaker_gate.survey_unseen, rule assms(2), rule peek_one_cells, rule assms(4))
  moreover have "fst (aimd_report b (op', lat) now' (gt_rates g' e)) = fst (aimd_report b (op', lat) now' (gt_rates g e))"
    unfolding gates_after [OF assms(1)] by (rule rate_gate.survey_unseen, rule assms(3), rule rate_one_cells, rule assms(5))
  ultimately show ?thesis by (simp add: aimd_report_def)
qed

section \<open>A scrape degrades source by source\<close>

definition source_families ::
  "(real \<Rightarrow> string) \<Rightarrow> real \<Rightarrow> string \<Rightarrow> scrape_env \<Rightarrow> scrape_replies \<Rightarrow> (exc + metric_family list) list" where
  "source_families rp nan grp env r =
     [map_sum id (queue_families nan grp) (rs_queue r), sum_bind (rs_worker r) (worker_families rp),
      map_sum id (admission_families (se_high_watermark env) (se_low_watermark env)) (rs_admission r),
      map_sum id (\<lambda>alive. [liveness_family alive]) (rs_alive r)]"

lemma gather_fold:
  "fold gather srcs (fs, n) = (fs @ concat (map (case_sum (\<lambda>_. []) id) srcs), n + length (filter isl srcs))"
  by (induction srcs arbitrary: fs n) (auto simp: gather_def split: sum.split)


section \<open>One worker, one observation\<close>

definition demo_repr :: "real \<Rightarrow> string" where
  "demo_repr v =
     (if v = 0.01 then ''0.01'' else if v = 0.025 then ''0.025'' else if v = 0.05 then ''0.05'' else if v = 0.1 then ''0.1''
      else if v = 0.25 then ''0.25'' else if v = 0.5 then ''0.5'' else ''1.5'')"

definition demo_histogram :: histogram where
  "demo_histogram = \<lparr>hg_name = ''d'', hg_help = [], hg_labelnames = [], hg_bounds = DEFAULT_BUCKETS,
     hg_counts = [([], [0, 0, 0, 0, 0, 1, 0, 0, 0, 0, 0, 0, 0, 0])], hg_sums = [([], 0.3)]\<rparr>"

definition demo_obs :: "string \<Rightarrow> (real \<times> labels) list" where
  "demo_obs n = (if n = ''d'' then [(0.3, [])] else [])"

definition demo_round :: round where
  "demo_round = (''w'', \<lparr>rg_counters = [], rg_gauges = [], rg_histograms = [demo_histogram]\<rparr>, demo_obs)"

definition demo_db :: metrics_db where
  "demo_db = \<lparr>db_hash = \<lambda>_ _. 0, db_gauges = \<lambda>_. None, db_alive = \<lambda>_. None\<rparr>"

lemma demo_digits: "str_int 1 = ''1''" "str_int 2 = ''2''" "str_int 3 = ''3''" "str_int 5 = ''5''" "str_int 10 = ''10''" "str_int 30 = ''30''"
  by code_simp+

lemma demo_labels: "bucket_labels demo_repr DEFAULT_BUCKETS =
    [''0.01'', ''0.025'', ''0.05'', ''0.1'', ''0.25'', ''0.5'', ''1'', ''1.5'', ''2'', ''3'', ''5'', ''10'', ''30'', ''+Inf'']"
  by (simp add: bucket_labels_def DEFAULT_BUCKETS_def format_value_def demo_repr_def demo_digits)

lemma demo_reports: "reports demo_round"
proof -
  have "observed demo_histogram [(0.3, [])]"
    unfolding observed_def
    by (intro exI [of _ "[]"])
      (simp add: demo_histogram_def SEP_def new_histogram_def DEFAULT_BUCKETS_def sum_bind_def observe_all_def observe_def
        series_key_def Let_def add_at_def get0_def)
  then show ?thesis by (simp add: demo_round_def demo_obs_def demo_histogram_def)
qed

lemma demo_flushed:
  "db_hash (flush_rounds demo_repr 30 [((0, 0), demo_round)] demo_db) HISTOGRAM_COUNT_KEY f = (if f = hist_field ''d'' [] ''0.5'' then 1 else 0)"
  "db_hash (flush_rounds demo_repr 30 [((0, 0), demo_round)] demo_db) HISTOGRAM_SUM_KEY f = (if f = encode_field ''d'' [] then 0.3 else 0)"
proof -
  obtain e rg' db' where s: "sink_flush demo_repr ''w'' 30 0 0 None (\<lparr>rg_counters = [], rg_gauges = [], rg_histograms = [demo_histogram]\<rparr>, demo_db)
      = (e, rg', db')" by (metis prod_cases3)
  have db': "flush_rounds demo_repr 30 [((0, 0), demo_round)] demo_db = db'"
    by (simp add: flush_rounds_def flush_round_def demo_round_def s)
  show "db_hash (flush_rounds demo_repr 30 [((0, 0), demo_round)] demo_db) HISTOGRAM_COUNT_KEY f = (if f = hist_field ''d'' [] ''0.5'' then 1 else 0)"
    unfolding db' flush_hashes(1) [OF s] by (simp add: demo_histogram_def bucket_fields_def demo_labels mass_Cons demo_db_def)
  show "db_hash (flush_rounds demo_repr 30 [((0, 0), demo_round)] demo_db) HISTOGRAM_SUM_KEY f = (if f = encode_field ''d'' [] then 0.3 else 0)"
    unfolding db' flush_hashes(2) [OF s] by (simp add: demo_histogram_def sum_fields_def mass_Cons demo_db_def)
qed


section \<open>A scrape of an open breaker\<close>

definition demo_breaker_args :: breaker_args where
  "demo_breaker_args = \<lparr>ba_window_ms = 30000, ba_min_volume = 10, ba_failure_ratio = 1 / 2, ba_cooldown_ms = 5000, ba_max_probes = 2,
     ba_probe_successes = 2, ba_ttl_ms = 300000\<rparr>"

definition demo_aimd_args :: aimd_args where
  "demo_aimd_args = \<lparr>aa_min_rate = 1, aa_max_rate = 10, aa_decrease_factor = 7 / 10, aa_increase_step = 1, aa_increase_after = 20,
     aa_refractory_ms = 1000, aa_ttl_ms = 300000, aa_latency_slo_ms = 0, aa_ring_size = 100, aa_min_samples = 20, aa_latency_floor = 5\<rparr>"

definition demo_gates :: gates where
  "demo_gates = \<lparr>gt_breakers = (\<lambda>_. Some (\<lparr>bh_state = OPEN, bh_window_start = 0, bh_failures = 10, bh_successes = 0, bh_opened_at = 1000,
       bh_probes = 0, bh_probe_ok = 0\<rparr>, Some 300000)), gt_rates = (\<lambda>_. (None, None))\<rparr>"

definition demo_env :: scrape_env where
  "demo_env = \<lparr>se_breakers = [(''layout'', demo_breaker_args), (''vlm'', demo_breaker_args)], se_limiters = [(''vlm'', demo_aimd_args)],
     se_fails = (\<lambda>e. if e = ''layout'' then Some True else None), se_rate_fails = (\<lambda>_. None),
     se_high_watermark = 100, se_low_watermark = 50, se_build_info = []\<rparr>"

definition demo_replies :: scrape_replies where
  "demo_replies = \<lparr>rs_queue = Inl RedisError, rs_worker = Inr \<lparr>wr_counters = [], wr_buckets = [], wr_sums = [], wr_gauges = []\<rparr>,
     rs_admission = Inr empty_admission, rs_alive = Inr [''metrics:gauges:alive:w'']\<rparr>"

text \<open>The keys do change: here the peek turns the open breaker's hash over to half-open.\<close>

lemma scrape_writes_unseen:
  "let g' = snd (metrics demo_repr 0 ''g'' demo_env 7000 demo_replies (new_slots 8) None demo_gates)
   in fst (breaker_lua demo_breaker_args op_allow 8000 (gt_breakers g' ''vlm''))
        = fst (breaker_lua demo_breaker_args op_allow 8000 (gt_breakers demo_gates ''vlm'')) \<and>
      bv_state (fst (breaker_lua demo_breaker_args op_allow 8000 (gt_breakers demo_gates ''vlm''))) = HALF_OPEN \<and>
      gt_breakers g' ''vlm'' \<noteq> gt_breakers demo_gates ''vlm''"
proof -
  obtain out g' where s: "metrics demo_repr 0 ''g'' demo_env 7000 demo_replies (new_slots 8) None demo_gates = (out, g')" by (metis prod.exhaust)
  have "fst (breaker_lua demo_breaker_args op_allow 8000 (gt_breakers g' ''vlm'')) = fst (breaker_lua demo_breaker_args op_allow 8000 (gt_breakers demo_gates ''vlm''))"
    by (rule conjunct1 [OF scrape_unseen [OF s, where b = demo_aimd_args]])
      (auto simp: demo_env_def demo_breaker_args_def demo_aimd_args_def demo_gates_def cell_simps quiet_peek_def quiet_read_def)
  moreover have "bv_state (fst (breaker_lua demo_breaker_args op_allow 8000 (gt_breakers demo_gates ''vlm''))) = HALF_OPEN"
    by (simp add: breaker_lua_def breaker_load_def demo_gates_def cell_simps breaker_roll_def breaker_cool_def demo_breaker_args_def)
  moreover have "gt_breakers g' ''vlm'' = snd (breaker_peek demo_breaker_args 7000 (gt_breakers demo_gates ''vlm''))"
    unfolding gates_after [OF s] by (simp add: demo_env_def peek_one_cells [of _ _ _ "fst p" "snd p" for p, unfolded prod.collapse])
  moreover have "\<dots> \<noteq> gt_breakers demo_gates ''vlm''"
    by (simp add: breaker_peek_def breaker_lua_def breaker_load_def demo_gates_def cell_simps breaker_roll_def breaker_cool_def demo_breaker_args_def)
  ultimately show ?thesis unfolding s by simp
qed


text \<open>
  A breaker that cannot be read leaves no trace in the error gauge: here every breaker call fails and
  no breaker sample is shown, and the source still counts as having answered.
\<close>

lemma unread_breaker_not_counted:
  "\<exists>fs g'. breaker_and_rate_families (demo_env\<lparr>se_fails := \<lambda>_. Some False\<rparr>) now g = (fs, g') \<and> mf_samples (hd fs) = []"
  by (simp add: breaker_and_rate_families_def demo_env_def peek_one_def family_def Let_def split_def)

text \<open>\<^verbatim>\<open>SCAN\<close> may return a key more than once; its gauges are then counted once per occurrence.\<close>

lemma repeated_key_counts_twice:
  "get_live t (db_gauges db ''metrics:gauges:w'') = Some [(encode_field ''orch_worker_in_flight'' [(''worker'', ''w'')], 4)] \<Longrightarrow>
   \<exists>f. sum_bind (decode_all (gauge_rows t db [''metrics:gauges:w'', ''metrics:gauges:w''])) (Inr \<circ> gauge_families) = Inr [f] \<and>
     map sm_value (mf_samples f) = [8]"
  by (simp add: gauge_rows_def worker_keys_def ALIVE_PREFIX_def GAUGE_KEY_PREFIX_def decode_encode SEP_def sum_bind_def gauge_families_def
      group_gauge_def add_at_def getl_def get0_def)

text \<open>
  The rate controllers of the scrape keep the default floor of one request per second, whatever the
  configured one, so with an advertised rate below that the API process does not start.
\<close>

lemma scrape_controller_refused: "AdaptiveRate (1 / 2) 1 (7 / 10) 1 20 1000 0 None 100 20 300 = None"
  and worker_controller_accepted: "AdaptiveRate (1 / 2) (1 / 10) (7 / 10) 1 20 1000 0 (Some (1 / 4)) 100 20 300 \<noteq> None"
  by (simp_all add: AdaptiveRate_def)

end
