(* ===== verification/Tracing.thy ===== *)
theory Tracing
  imports Orch_Prelude
begin

text \<open>
  Trace context, \<^verbatim>\<open>src/common/tracing.py\<close> and \<^verbatim>\<open>src/common/middleware.py\<close>: the ids bound to the running
  task, the \<^verbatim>\<open>traceparent\<close> header that carries them between processes, and the middleware that binds
  them for a request. The header is decoded as Latin-1, so its characters are those up to 255. The
  ids drawn by \<^verbatim>\<open>uuid.uuid4().hex\<close> are arguments.
\<close>

section \<open>Contexts and headers\<close>

record trace_ctx =
  tx_trace_id :: string
  tx_span_id :: string

definition no_trace :: trace_ctx where "no_trace = \<lparr>tx_trace_id = [], tx_span_id = []\<rparr>"

text \<open>\<open>fresh\<close> is the span id \<^verbatim>\<open>new_span_id\<close> would draw.\<close>

definition set_trace_context :: "string \<Rightarrow> string \<Rightarrow> string option \<Rightarrow> trace_ctx" where
  "set_trace_context fresh trace_id span_id =
     \<lparr>tx_trace_id = trace_id, tx_span_id = (case span_id of Some s \<Rightarrow> if s = [] then fresh else s | None \<Rightarrow> fresh)\<rparr>"

definition format_traceparent :: "string \<Rightarrow> string \<Rightarrow> trace_ctx \<Rightarrow> string" where
  "format_traceparent fresh_trace fresh_span c =
     (let trace_id = (if tx_trace_id c = [] then fresh_trace else tx_trace_id c);
          span_id = (if tx_span_id c = [] then fresh_span else tx_span_id c)
      in ''00-'' @ trace_id @ ''-'' @ span_id @ ''-01'')"

definition latin_space :: "char \<Rightarrow> bool" where
  "latin_space c \<longleftrightarrow> is_space c \<or> of_char c \<in> {133, 160 :: nat}"

definition latin_strip :: "string \<Rightarrow> string" where
  "latin_strip s = rev (dropWhile latin_space (rev (dropWhile latin_space s)))"

text \<open>
  Lower case. A Latin-1 letter outside ASCII stays outside ASCII and no such character can match, so
  only the ASCII letters are mapped.
\<close>

definition lower :: "char \<Rightarrow> char" where
  "lower c = (let n = of_char c :: nat in if 65 \<le> n \<and> n \<le> 90 then char_of (n + 32) else c)"

definition is_hex :: "char \<Rightarrow> bool" where
  "is_hex c = (let n = of_char c :: nat in 48 \<le> n \<and> n \<le> 57 \<or> 97 \<le> n \<and> n \<le> 102)"

text \<open>The expression \<^verbatim>\<open>^00-([0-9a-f]{32})-([0-9a-f]{16})-[0-9a-f]{2}$\<close> on a text without a final newline.\<close>

definition match_traceparent :: "string \<Rightarrow> (string \<times> string) option" where
  "match_traceparent s =
     (let trace_id = take 32 (drop 3 s); span_id = take 16 (drop 36 s); flags = drop 53 s
      in if length s = 55 \<and> take 3 s = ''00-'' \<and> list_all is_hex trace_id \<and> s ! 35 = CHR ''-''
            \<and> list_all is_hex span_id \<and> s ! 52 = CHR ''-'' \<and> list_all is_hex flags
         then Some (trace_id, span_id) else None)"

definition parse_traceparent :: "string option \<Rightarrow> (string \<times> string) option" where
  "parse_traceparent header =
     (case header of
        None \<Rightarrow> None
      | Some h \<Rightarrow> if h = [] then None else match_traceparent (map lower (latin_strip h)))"

section \<open>The middleware\<close>

datatype asgi_message = Response_Start int "(string \<times> string) list" | Other_Message

record request_trace =
  rt_trace_id :: string
  rt_context :: trace_ctx
  rt_status :: int

text \<open>\<open>fresh_trace\<close>, \<open>fresh_span\<close>: the ids the request would draw; \<open>headers\<close>: the items of the request's headers, of which the last one counts.\<close>

definition bind_request :: "string \<Rightarrow> string \<Rightarrow> (string \<times> string) list \<Rightarrow> request_trace" where
  "bind_request fresh_trace fresh_span headers =
     (let incoming = map_of (rev headers) ''traceparent'';
          parsed = parse_traceparent (case incoming of Some h \<Rightarrow> if h = [] then None else Some h | None \<Rightarrow> None)
      in case parsed of
           Some (trace_id, _) \<Rightarrow>
             \<lparr>rt_trace_id = trace_id, rt_context = set_trace_context fresh_span trace_id (Some fresh_span), rt_status = 500\<rparr>
         | None \<Rightarrow>
             \<lparr>rt_trace_id = fresh_trace, rt_context = set_trace_context fresh_span fresh_trace None, rt_status = 500\<rparr>)"

text \<open>
  The worker's binding for a task that carries the trace id of the request that created it, and the
  reaper's.
\<close>

definition bind_task :: "string \<Rightarrow> string \<Rightarrow> string \<Rightarrow> trace_ctx" where
  "bind_task fresh_trace fresh_span trace_id =
     set_trace_context fresh_span (if trace_id = [] then fresh_trace else trace_id) (Some fresh_span)"

definition bind_recovery :: "string \<Rightarrow> string \<Rightarrow> trace_ctx" where
  "bind_recovery fresh_span trace_id = set_trace_context fresh_span trace_id (Some fresh_span)"

text \<open>\<^verbatim>\<open>send_wrapper\<close>: assigning a header replaces the one of that name.\<close>

fun send_wrapper :: "asgi_message \<Rightarrow> request_trace \<Rightarrow> asgi_message \<times> request_trace" where
  "send_wrapper (Response_Start status hs) q =
     (Response_Start status (filter (\<lambda>kv. fst kv \<noteq> ''x-trace-id'') hs @ [(''x-trace-id'', rt_trace_id q)]), q\<lparr>rt_status := status\<rparr>)"
| "send_wrapper Other_Message q = (Other_Message, q)"

section \<open>Ids\<close>

definition trace_id_ok :: "string \<Rightarrow> bool" where "trace_id_ok s \<longleftrightarrow> length s = 32 \<and> list_all is_hex s"
definition span_id_ok :: "string \<Rightarrow> bool" where "span_id_ok s \<longleftrightarrow> length s = 16 \<and> list_all is_hex s"

definition ctx_ok :: "trace_ctx \<Rightarrow> bool" where
  "ctx_ok c \<longleftrightarrow> trace_id_ok (tx_trace_id c) \<and> span_id_ok (tx_span_id c)"

lemma lower_hex: "is_hex c \<Longrightarrow> lower c = c"
  by (auto simp: is_hex_def lower_def Let_def)

lemma map_lower_hex: "list_all is_hex s \<Longrightarrow> map lower s = s"
  by (induction s) (auto simp: lower_hex)

lemma match_ok: "match_traceparent s = Some (t, p) \<Longrightarrow> trace_id_ok t \<and> span_id_ok p"
  by (auto simp: match_traceparent_def trace_id_ok_def span_id_ok_def Let_def split: if_splits)

lemma parse_ok: "parse_traceparent h = Some (t, p) \<Longrightarrow> trace_id_ok t \<and> span_id_ok p"
  by (auto simp: parse_traceparent_def match_ok split: option.splits if_splits)

lemma strip_header: "latin_strip (''00-'' @ x @ ''-01'') = ''00-'' @ x @ ''-01''"
  by (simp add: latin_strip_def latin_space_def is_space_def)

lemma match_header:
  assumes "trace_id_ok t" "span_id_ok p"
  shows "match_traceparent (''00-'' @ t @ ''-'' @ p @ ''-01'') = Some (t, p)"
proof -
  have l: "length t = 32" "length p = 16" using assms by (simp_all add: trace_id_ok_def span_id_ok_def)
  let ?s = "''00-'' @ t @ ''-'' @ p @ ''-01''"
  have d: "drop 3 ?s = t @ ''-'' @ p @ ''-01''" by simp
  have "drop 36 ?s = drop 33 (drop 3 ?s)" "drop 53 ?s = drop 50 (drop 3 ?s)" "?s ! 35 = drop 3 ?s ! 32" "?s ! 52 = drop 3 ?s ! 49"
    using l by simp_all
  then have "take 32 (drop 3 ?s) = t" "take 16 (drop 36 ?s) = p" "drop 53 ?s = ''01''" "?s ! 35 = CHR ''-''" "?s ! 52 = CHR ''-''"
    unfolding d using l by (simp_all add: nth_append)
  moreover have "list_all is_hex ''01''" by (simp add: is_hex_def)
  ultimately show ?thesis using assms l by (simp add: match_traceparent_def trace_id_ok_def span_id_ok_def Let_def)
qed

lemma parse_padded:
  assumes "ctx_ok c" and "map lower h = format_traceparent ft fs c" and "list_all latin_space pre" "list_all latin_space post"
  shows "parse_traceparent (Some (pre @ h @ post)) = Some (tx_trace_id c, tx_span_id c)"
proof -
  have ok: "trace_id_ok (tx_trace_id c)" "span_id_ok (tx_span_id c)" using assms(1) by (simp_all add: ctx_ok_def)
  then have f: "format_traceparent ft fs c = ''00-'' @ tx_trace_id c @ ''-'' @ tx_span_id c @ ''-01''"
    by (auto simp: format_traceparent_def trace_id_ok_def span_id_ok_def Let_def)
  have h: "h \<noteq> []" "lower (hd h) = CHR ''0''" "lower (last h) = CHR ''1''"
  proof -
    show "h \<noteq> []" using assms(2) f by auto
    then have "lower (hd h) = hd (map lower h)" "lower (last h) = last (map lower h)" by (simp_all add: hd_map last_map)
    then show "lower (hd h) = CHR ''0''" "lower (last h) = CHR ''1''" unfolding assms(2) f by simp_all
  qed
  have sp: "\<not> latin_space d" if "lower d = CHR ''0'' \<or> lower d = CHR ''1''" for d
  proof
    assume "latin_space d"
    then have "lower d = d" by (auto simp: latin_space_def is_space_def lower_def)
    then show False using that \<open>latin_space d\<close> by (auto simp: latin_space_def is_space_def)
  qed
  have "dropWhile latin_space (pre @ h @ post) = h @ post"
    using assms(3) h sp by (cases h) (auto simp: list_all_iff dropWhile_append)
  moreover have "dropWhile latin_space (rev (h @ post)) = rev h"
    using assms(4) h sp [of "last h"] by (cases h rule: rev_cases) (auto simp: list_all_iff dropWhile_append)
  ultimately have "latin_strip (pre @ h @ post) = h" by (simp add: latin_strip_def)
  then show ?thesis using h(1) match_header [OF ok] by (simp add: parse_traceparent_def assms(2) f)
qed

text \<open>
  A context survives the wire: parsing the header formatted from a well-formed context gives back
  its trace id and span id, also when the header was upper-cased on the way or padded with white space.
\<close>

theorem traceparent_roundtrip:
  assumes "ctx_ok c" and "map lower h = format_traceparent ft fs c" and "list_all latin_space pre" "list_all latin_space post"
  shows "parse_traceparent (Some (pre @ h @ post)) = Some (tx_trace_id c, tx_span_id c)"
  using assms by (rule parse_padded)


section \<open>Hops\<close>

text \<open>
  A hop: a process calls the next one with its context's header, or leaves its trace id in a task of
  the queue, which a worker or the reaper takes up. Each hop draws its own ids.
\<close>

datatype hop = Http_Hop string string | Task_Hop string string | Recovery_Hop string

fun follow :: "hop \<Rightarrow> trace_ctx \<Rightarrow> trace_ctx" where
  "follow (Http_Hop ft fs) c = rt_context (bind_request ft fs [(''traceparent'', format_traceparent ft fs c)])"
| "follow (Task_Hop ft fs) c = bind_task ft fs (tx_trace_id c)"
| "follow (Recovery_Hop fs) c = bind_recovery fs (tx_trace_id c)"

fun hop_ok :: "hop \<Rightarrow> bool" where
  "hop_ok (Http_Hop ft fs) = span_id_ok fs"
| "hop_ok (Task_Hop ft fs) = span_id_ok fs"
| "hop_ok (Recovery_Hop fs) = span_id_ok fs"

lemma hop_keeps:
  assumes "ctx_ok c" "span_id_ok fs"
  shows "ctx_ok (rt_context (bind_request ft fs [(''traceparent'', format_traceparent ft' fs' c)])) \<and>
    tx_trace_id (rt_context (bind_request ft fs [(''traceparent'', format_traceparent ft' fs' c)])) = tx_trace_id c"
proof -
  let ?h = "format_traceparent ft' fs' c"
  have ok: "trace_id_ok (tx_trace_id c)" "span_id_ok (tx_span_id c)" using assms(1) by (simp_all add: ctx_ok_def)
  then have f: "?h = ''00-'' @ tx_trace_id c @ ''-'' @ tx_span_id c @ ''-01''"
    by (auto simp: format_traceparent_def trace_id_ok_def span_id_ok_def Let_def)
  have dash: "map lower ''00-'' = ''00-''" "map lower ''-'' = ''-''" "map lower ''-01'' = ''-01''" by (simp_all add: lower_def)
  have "map lower ?h = ?h" unfolding f map_append dash
    using ok map_lower_hex by (simp only: trace_id_ok_def span_id_ok_def)
  from parse_padded [OF assms(1) this, of "[]" "[]"]
  have "parse_traceparent (Some ?h) = Some (tx_trace_id c, tx_span_id c)" by simp
  moreover have "?h \<noteq> []" by (simp add: f)
  ultimately show ?thesis using assms ok by (simp add: bind_request_def set_trace_context_def ctx_ok_def span_id_ok_def Let_def)
qed

text \<open>
  One trace from end to end. Over any number of hops between processes, each of which starts its
  own span, the trace id stays the one the first process bound, and every context on the way is
  well-formed.
\<close>

theorem trace_spans_hops:
  assumes "ctx_ok c" and "list_all hop_ok hs"
  shows "ctx_ok (fold follow hs c) \<and> tx_trace_id (fold follow hs c) = tx_trace_id c"
  using assms
proof (induction hs arbitrary: c)
  case (Cons h hs)
  have "ctx_ok (follow h c) \<and> tx_trace_id (follow h c) = tx_trace_id c"
    using Cons.prems hop_keeps [OF Cons.prems(1)]
    by (cases h) (auto simp: bind_task_def bind_recovery_def set_trace_context_def ctx_ok_def trace_id_ok_def span_id_ok_def)
  then show ?case using Cons by simp
qed simp

section \<open>A request on its way\<close>

definition demo_trace :: string where "demo_trace = replicate 31 (CHR ''a'') @ ''7''"
definition demo_span :: string where "demo_span = replicate 15 (CHR ''0'') @ ''b''"

lemma demo_ids: "trace_id_ok demo_trace" "span_id_ok demo_span"
  by (simp_all add: demo_trace_def demo_span_def trace_id_ok_def span_id_ok_def is_hex_def list_all_iff)

theorem traceparent_roundtrip_witness:
  "parse_traceparent (Some ('' '' @ format_traceparent [] [] \<lparr>tx_trace_id = demo_trace, tx_span_id = demo_span\<rparr> @ [CHR 0x0A]))
     = Some (demo_trace, demo_span)"
proof -
  let ?c = "\<lparr>tx_trace_id = demo_trace, tx_span_id = demo_span\<rparr>"
  have "map lower (format_traceparent [] [] ?c) = format_traceparent [] [] ?c"
    by (simp add: format_traceparent_def demo_trace_def demo_span_def lower_def)
  from traceparent_roundtrip [OF _ this, of "'' ''" "[CHR 0x0A]"] demo_ids show ?thesis
    by (simp add: ctx_ok_def latin_space_def is_space_def)
qed


theorem trace_spans_hops_witness:
  "tx_trace_id (fold follow [Task_Hop [] demo_span, Http_Hop [] demo_span] \<lparr>tx_trace_id = demo_trace, tx_span_id = demo_span\<rparr>) = demo_trace"
  using trace_spans_hops [of "\<lparr>tx_trace_id = demo_trace, tx_span_id = demo_span\<rparr>" "[Task_Hop [] demo_span, Http_Hop [] demo_span]"] demo_ids
  by (simp add: ctx_ok_def del: fold.simps)

end
