(* ===== verification/Configuration.thy ===== *)
theory Configuration
  imports Worker Evaluate
begin

text \<open>
  The settings of both processes, \<^verbatim>\<open>src/app/config.py\<close>: every field with its default and its declared
  range. The fields the worker reads are the record \<open>settings\<close> of \<open>Fleet\<close>; the others extend it in the
  order of the source's sections. Reading the environment and converting its strings is done by
  pydantic; what it hands over is an argument.
\<close>

section \<open>Fields\<close>

record conn_settings = settings +
  cf_log_level :: string
  cf_redis_url :: string
  cf_redis_max_connections :: int
  cf_redis_pool_timeout :: real
  cf_mock_base_url :: string
  cf_http_timeout_s :: real
  cf_http_connect_timeout_s :: real
  cf_http_max_connections :: int

record rate_settings = conn_settings +
  cf_layout_rps :: real
  cf_layout_burst :: int
  cf_vlm_rps :: real
  cf_vlm_burst :: int
  cf_rate_limit_max_wait_s :: real
  cf_rate_limit_jitter_ms :: real
  cf_rate_limit_bucket_ttl_s :: int
  cf_max_attempts :: int
  cf_backoff_base_ms :: int
  cf_backoff_max_ms :: int

record control_settings = rate_settings +
  cf_adaptive_enabled :: bool
  cf_aimd_min_rate :: real
  cf_aimd_decrease_factor :: real
  cf_aimd_increase_step :: real
  cf_aimd_increase_after :: int
  cf_aimd_refractory_ms :: real
  cf_vlm_latency_slo_ms :: real
  cf_layout_latency_slo_ms :: real
  cf_aimd_latency_samples :: int
  cf_aimd_latency_floor_fraction :: real
  cf_aimd_latency_min_samples :: int
  cf_breaker_window_s :: real
  cf_breaker_min_volume :: int
  cf_breaker_failure_ratio :: real
  cf_breaker_cooldown_s :: real
  cf_breaker_max_probes :: int
  cf_breaker_probe_successes :: int

record orch_settings = control_settings +
  cf_lease_renew_interval_s :: real
  cf_result_stream_maxlen :: int
  cf_sse_block_ms :: int
  cf_sse_batch :: int
  cf_sse_history_limit :: int
  cf_sse_retry_ms :: int
  cf_sse_max_subscribers :: int
  cf_sse_max_duration_s :: real
  cf_queue_high_watermark :: int
  cf_queue_low_watermark_fraction :: real
  cf_retry_after_cap_s :: int
  cf_retry_after_jitter :: real
  cf_metrics_flush_interval_s :: real
  cf_eval_max_nodes :: int
  cf_eval_ted_budget_ms :: real
  cf_eval_ted_work_per_ms :: int

definition default_settings :: orch_settings where
  "default_settings = \<lparr>
     se_degrade_after_s = 90, se_page_deadline_s = 300, se_max_requeues = 50, se_max_requeues_given = False,
     se_saturation_pause_s = 1 / 2, se_stage_handoff = True, se_reaper_min_idle_s = 30, se_reaper_batch = 64,
     se_worker_concurrency = 16, se_worker_prefetch = 8, se_worker_lead_reserve = 4, se_worker_block_ms = 2000,
     se_worker_lead_poll_ms = 100, se_data_dir = [''/'', ''data''], se_pdf_text_sample_chars = 0,
     se_orphan_sweep_interval_s = 120, se_orphan_sweep_age_s = 900, se_reaper_enabled = True, se_reaper_interval_s = 15,
     se_max_pages = 100, se_max_upload_mb = 120, se_upload_chunk_bytes = 1048576, se_result_ttl_s = 3600,
     cf_log_level = ''INFO'', cf_redis_url = ''redis://redis:6379/0'', cf_redis_max_connections = 32, cf_redis_pool_timeout = 10,
     cf_mock_base_url = ''http://mock-model:8001'', cf_http_timeout_s = 10, cf_http_connect_timeout_s = 2, cf_http_max_connections = 64,
     cf_layout_rps = 100, cf_layout_burst = 100, cf_vlm_rps = 10, cf_vlm_burst = 10, cf_rate_limit_max_wait_s = 30,
     cf_rate_limit_jitter_ms = 25, cf_rate_limit_bucket_ttl_s = 300, cf_max_attempts = 3, cf_backoff_base_ms = 200,
     cf_backoff_max_ms = 5000,
     cf_adaptive_enabled = True, cf_aimd_min_rate = 1, cf_aimd_decrease_factor = 7 / 10, cf_aimd_increase_step = 1,
     cf_aimd_increase_after = 20, cf_aimd_refractory_ms = 1000, cf_vlm_latency_slo_ms = 4500, cf_layout_latency_slo_ms = 500,
     cf_aimd_latency_samples = 100, cf_aimd_latency_floor_fraction = 1 / 2, cf_aimd_latency_min_samples = 20,
     cf_breaker_window_s = 10, cf_breaker_min_volume = 10, cf_breaker_failure_ratio = 1 / 2, cf_breaker_cooldown_s = 5,
     cf_breaker_max_probes = 3, cf_breaker_probe_successes = 2,
     cf_lease_renew_interval_s = 5, cf_result_stream_maxlen = 256, cf_sse_block_ms = 15000, cf_sse_batch = 64,
     cf_sse_history_limit = 512, cf_sse_retry_ms = 2000, cf_sse_max_subscribers = 64, cf_sse_max_duration_s = 900,
     cf_queue_high_watermark = 5000, cf_queue_low_watermark_fraction = 8 / 10, cf_retry_after_cap_s = 300,
     cf_retry_after_jitter = 2 / 10, cf_metrics_flush_interval_s = 5, cf_eval_max_nodes = 2000, cf_eval_ted_budget_ms = 100,
     cf_eval_ted_work_per_ms = 1800\<rparr>"

section \<open>Ranges\<close>

text \<open>Every field that carries a \<^verbatim>\<open>Field\<close> with bounds, by name, and whether its value is inside them.\<close>

definition worker_checks :: "orch_settings \<Rightarrow> (string \<times> bool) list" where
  "worker_checks cf =
     [(''page_deadline_s'', 0 < se_page_deadline_s cf), (''degrade_after_s'', 0 < se_degrade_after_s cf),
      (''saturation_pause_s'', 0 \<le> se_saturation_pause_s cf), (''max_requeues'', 1 \<le> se_max_requeues cf),
      (''worker_concurrency'', 0 < se_worker_concurrency cf), (''worker_prefetch'', 0 < se_worker_prefetch cf),
      (''worker_lead_reserve'', 0 \<le> se_worker_lead_reserve cf), (''worker_lead_poll_ms'', 0 \<le> se_worker_lead_poll_ms cf),
      (''worker_block_ms'', 0 < se_worker_block_ms cf), (''reaper_interval_s'', 0 < se_reaper_interval_s cf),
      (''reaper_min_idle_s'', 0 < se_reaper_min_idle_s cf), (''reaper_batch'', 0 < se_reaper_batch cf),
      (''lease_renew_interval_s'', 0 < cf_lease_renew_interval_s cf), (''max_pages'', 0 < se_max_pages cf),
      (''max_upload_mb'', 0 < se_max_upload_mb cf), (''upload_chunk_bytes'', 0 < se_upload_chunk_bytes cf),
      (''orphan_sweep_interval_s'', 0 < se_orphan_sweep_interval_s cf), (''orphan_sweep_age_s'', 0 < se_orphan_sweep_age_s cf),
      (''pdf_text_sample_chars'', 0 \<le> se_pdf_text_sample_chars cf), (''result_ttl_s'', 0 < se_result_ttl_s cf)]"

definition gate_checks :: "orch_settings \<Rightarrow> (string \<times> bool) list" where
  "gate_checks cf =
     [(''layout_rps'', 0 < cf_layout_rps cf), (''layout_burst'', 0 < cf_layout_burst cf),
      (''vlm_rps'', 0 < cf_vlm_rps cf), (''vlm_burst'', 0 < cf_vlm_burst cf),
      (''rate_limit_max_wait_s'', 0 < cf_rate_limit_max_wait_s cf), (''rate_limit_jitter_ms'', 0 \<le> cf_rate_limit_jitter_ms cf),
      (''rate_limit_bucket_ttl_s'', 0 < cf_rate_limit_bucket_ttl_s cf), (''max_attempts'', 1 \<le> cf_max_attempts cf),
      (''backoff_base_ms'', 0 < cf_backoff_base_ms cf), (''backoff_max_ms'', 0 < cf_backoff_max_ms cf),
      (''aimd_min_rate'', 0 < cf_aimd_min_rate cf),
      (''aimd_decrease_factor'', 0 < cf_aimd_decrease_factor cf \<and> cf_aimd_decrease_factor cf < 1),
      (''aimd_increase_step'', 0 < cf_aimd_increase_step cf), (''aimd_increase_after'', 1 \<le> cf_aimd_increase_after cf),
      (''aimd_refractory_ms'', 0 \<le> cf_aimd_refractory_ms cf), (''vlm_latency_slo_ms'', 0 \<le> cf_vlm_latency_slo_ms cf),
      (''layout_latency_slo_ms'', 0 \<le> cf_layout_latency_slo_ms cf), (''aimd_latency_samples'', 1 \<le> cf_aimd_latency_samples cf),
      (''aimd_latency_floor_fraction'', 0 < cf_aimd_latency_floor_fraction cf \<and> cf_aimd_latency_floor_fraction cf \<le> 1),
      (''aimd_latency_min_samples'', 1 \<le> cf_aimd_latency_min_samples cf),
      (''breaker_window_s'', 0 < cf_breaker_window_s cf), (''breaker_min_volume'', 1 \<le> cf_breaker_min_volume cf),
      (''breaker_failure_ratio'', 0 < cf_breaker_failure_ratio cf \<and> cf_breaker_failure_ratio cf \<le> 1),
      (''breaker_cooldown_s'', 0 < cf_breaker_cooldown_s cf), (''breaker_max_probes'', 1 \<le> cf_breaker_max_probes cf),
      (''breaker_probe_successes'', 1 \<le> cf_breaker_probe_successes cf)]"

definition service_checks :: "orch_settings \<Rightarrow> (string \<times> bool) list" where
  "service_checks cf =
     [(''redis_max_connections'', 0 < cf_redis_max_connections cf), (''redis_pool_timeout'', 0 < cf_redis_pool_timeout cf),
      (''http_timeout_s'', 0 < cf_http_timeout_s cf), (''http_connect_timeout_s'', 0 < cf_http_connect_timeout_s cf),
      (''http_max_connections'', 0 < cf_http_max_connections cf), (''result_stream_maxlen'', 0 < cf_result_stream_maxlen cf),
      (''sse_block_ms'', 0 < cf_sse_block_ms cf), (''sse_batch'', 0 < cf_sse_batch cf),
      (''sse_history_limit'', 0 < cf_sse_history_limit cf), (''sse_retry_ms'', 0 < cf_sse_retry_ms cf),
      (''sse_max_subscribers'', 0 < cf_sse_max_subscribers cf), (''sse_max_duration_s'', 0 < cf_sse_max_duration_s cf),
      (''queue_high_watermark'', 0 < cf_queue_high_watermark cf),
      (''queue_low_watermark_fraction'', 0 < cf_queue_low_watermark_fraction cf \<and> cf_queue_low_watermark_fraction cf < 1),
      (''retry_after_cap_s'', 0 < cf_retry_after_cap_s cf), (''retry_after_jitter'', 0 \<le> cf_retry_after_jitter cf),
      (''metrics_flush_interval_s'', 0 < cf_metrics_flush_interval_s cf), (''eval_max_nodes'', 0 < cf_eval_max_nodes cf),
      (''eval_ted_budget_ms'', 0 < cf_eval_ted_budget_ms cf), (''eval_ted_work_per_ms'', 0 < cf_eval_ted_work_per_ms cf)]"

text \<open>\<^verbatim>\<open>Settings()\<close>: a validation error names every field outside its range, and the process does not start.\<close>

definition Settings :: "orch_settings \<Rightarrow> string list + orch_settings" where
  "Settings cf =
     (let bad = map fst (filter (\<lambda>(_, inside). \<not> inside) (worker_checks cf @ gate_checks cf @ service_checks cf))
      in if bad = [] then Inr cf else Inl bad)"

text \<open>The views of one settings object that the worker, the evaluation and the stream endpoint take.\<close>

definition worker_view :: "orch_settings \<Rightarrow> settings" where
  "worker_view cf = settings.truncate cf"

definition eval_view :: "orch_settings \<Rightarrow> eval_settings" where
  "eval_view cf = \<lparr>es_max_nodes = cf_eval_max_nodes cf, es_ted_budget_ms = cf_eval_ted_budget_ms cf,
     es_ted_work_per_ms = cf_eval_ted_work_per_ms cf\<rparr>"

end
