(* ===== verification/Startup.thy ===== *)
theory Startup
  imports Configuration Worker_Loop Admission Sse_Stream Metrics_Export
begin

text \<open>
  How the two processes are put together: the Redis connections of \<^verbatim>\<open>src/app/core/redis_client.py\<close>, the
  API's \<^verbatim>\<open>lifespan\<close> and \<^verbatim>\<open>/health\<close> in \<^verbatim>\<open>src/app/main.py\<close> and the worker's \<^verbatim>\<open>main\<close> in
  \<^verbatim>\<open>src/app/worker/main.py\<close>. Each constructor is the one of its component's theory, called with the
  arguments the source passes. What Redis answers to a ping and whether the consumer group could be
  created are arguments.
\<close>

section \<open>Connections\<close>

text \<open>
  A pool and the module's three globals. \<open>rm_open\<close> are the pools that have not been disposed of and
  \<open>rm_made\<close> counts the pools built; a script handle is bound to the client it was registered on.
\<close>

record pool =
  po_id :: nat
  po_url :: string
  po_max_connections :: int
  po_timeout :: real
  po_socket_timeout :: real
  po_health_check_interval :: int

record redis_module =
  rm_client :: "pool option"
  rm_stream :: "pool option"
  rm_scripts :: "(string \<times> string \<times> pool) list"
  rm_open :: "nat list"
  rm_made :: nat

definition fresh_module :: redis_module where
  "fresh_module = \<lparr>rm_client = None, rm_stream = None, rm_scripts = [], rm_open = [], rm_made = 0\<rparr>"

definition answered :: "exc + bool \<Rightarrow> 'a \<Rightarrow> exc + 'a" where
  "answered pong x = (case pong of Inl e \<Rightarrow> Inl e | Inr _ \<Rightarrow> Inr x)"

definition init_redis :: "string \<Rightarrow> int \<Rightarrow> real \<Rightarrow> real \<Rightarrow> exc + bool \<Rightarrow> (redis_module, pool) io" where
  "init_redis url max_connections pool_timeout socket_timeout pong = (\<lambda>m.
     let p = \<lparr>po_id = rm_made m, po_url = url, po_max_connections = max_connections, po_timeout = pool_timeout,
              po_socket_timeout = socket_timeout, po_health_check_interval = 30\<rparr>
     in (answered pong p, m\<lparr>rm_client := Some p, rm_open := rm_open m @ [po_id p], rm_made := Suc (rm_made m)\<rparr>))"

definition init_stream_redis :: "string \<Rightarrow> int \<Rightarrow> int \<Rightarrow> real \<Rightarrow> exc + bool \<Rightarrow> (redis_module, pool) io" where
  "init_stream_redis url max_connections block_ms pool_timeout pong = (\<lambda>m.
     let p = \<lparr>po_id = rm_made m, po_url = url, po_max_connections = max_connections, po_timeout = pool_timeout,
              po_socket_timeout = of_int block_ms / 1000 + 5, po_health_check_interval = 0\<rparr>
     in (answered pong p, m\<lparr>rm_stream := Some p, rm_open := rm_open m @ [po_id p], rm_made := Suc (rm_made m)\<rparr>))"

definition get_redis :: "(redis_module, pool) io" where
  "get_redis = (\<lambda>m. (case rm_client m of None \<Rightarrow> Inl (OtherException ''RuntimeError'') | Some p \<Rightarrow> Inr p, m))"

definition get_stream_redis :: "(redis_module, pool) io" where
  "get_stream_redis = (\<lambda>m. case rm_stream m of Some p \<Rightarrow> (Inr p, m) | None \<Rightarrow> get_redis m)"

definition dispose :: "pool option \<Rightarrow> redis_module \<Rightarrow> redis_module" where
  "dispose p m = (case p of None \<Rightarrow> m | Some p \<Rightarrow> m\<lparr>rm_open := filter (\<lambda>i. i \<noteq> po_id p) (rm_open m)\<rparr>)"

definition close_redis :: "redis_module \<Rightarrow> redis_module" where
  "close_redis m =
     (let m1 = (dispose (rm_stream m) m)\<lparr>rm_stream := None\<rparr>
      in if rm_client m1 = None then m1 else (dispose (rm_client m1) m1)\<lparr>rm_client := None, rm_scripts := []\<rparr>)"

definition register_script :: "string \<Rightarrow> string \<Rightarrow> (redis_module, string \<times> pool) io" where
  "register_script name source = (\<lambda>m.
     case map_of (rm_scripts m) name of
       Some handle \<Rightarrow> (Inr handle, m)
     | None \<Rightarrow>
         (case get_redis m of
            (Inl e, m') \<Rightarrow> (Inl e, m')
          | (Inr p, m') \<Rightarrow> (Inr (source, p), m'\<lparr>rm_scripts := (name, source, p) # rm_scripts m'\<rparr>)))"

text \<open>\<open>str\<close> is \<^verbatim>\<open>str(exc)\<close>.\<close>

definition healthcheck :: "(exc \<Rightarrow> string) \<Rightarrow> exc + bool \<Rightarrow> redis_module \<Rightarrow> (string \<times> string) list" where
  "healthcheck str pong m =
     (case (case fst (get_redis m) of Inl e \<Rightarrow> Inl e | Inr _ \<Rightarrow> pong) of
        Inr ok \<Rightarrow> [(''redis'', if ok then ''ok'' else ''unreachable'')]
      | Inl e \<Rightarrow> [(''redis'', ''error''), (''detail'', str e)])"

definition health :: "(exc \<Rightarrow> string) \<Rightarrow> exc + bool \<Rightarrow> redis_module \<Rightarrow> int \<times> (string \<times> string) list" where
  "health str pong m =
     (let deps = healthcheck str pong m; ok = (map_of deps ''redis'' = Some ''ok'')
      in (if ok then 200 else 503, (''status'', if ok then ''ok'' else ''degraded'') # deps))"

section \<open>The API process\<close>

definition built :: "'a option \<Rightarrow> ('w, 'a) io" where
  "built x = (\<lambda>m. (case x of None \<Rightarrow> Inl (OtherException ''ValueError'') | Some a \<Rightarrow> Inr a, m))"

record api_parts =
  ap_ttl_s :: int
  ap_reader :: pool
  ap_slots :: subscriber_slots
  ap_admission :: admission_config
  ap_breakers :: "(string \<times> breaker_args) list"
  ap_limiters :: "(string \<times> aimd_args) list"
  ap_evaluate_duration :: histogram

text \<open>The rate controllers of this process get only the advertised rate; the rest are the class's defaults.\<close>

definition api_controller :: "real \<Rightarrow> aimd_args option" where
  "api_controller max_rate = AdaptiveRate max_rate 1 (7 / 10) 1 20 1000 0 None 100 20 300"

definition api_breaker :: "orch_settings \<Rightarrow> breaker_args option" where
  "api_breaker cf = CircuitBreaker (cf_breaker_window_s cf) (cf_breaker_min_volume cf) (cf_breaker_failure_ratio cf)
     (cf_breaker_cooldown_s cf) 3 2 (se_result_ttl_s cf)"

definition api_limiters :: "orch_settings \<Rightarrow> (string \<times> aimd_args) list option" where
  "api_limiters cf =
     (if cf_adaptive_enabled cf
      then case (api_controller (cf_layout_rps cf), api_controller (cf_vlm_rps cf)) of
             (Some l, Some v) \<Rightarrow> Some [(LAYOUT, l), (VLM, v)]
           | _ \<Rightarrow> None
      else Some [])"

definition api_admission :: "orch_settings \<Rightarrow> admission_config option" where
  "api_admission cf =
     (if cf_adaptive_enabled cf \<and> api_controller (cf_vlm_rps cf) = None then None
      else AdmissionController (cf_queue_high_watermark cf) (cf_queue_low_watermark_fraction cf) (cf_vlm_rps cf)
             (cf_adaptive_enabled cf) (cf_retry_after_cap_s cf) (cf_retry_after_jitter cf) (se_result_ttl_s cf))"

definition api_startup :: "orch_settings \<Rightarrow> exc + bool \<Rightarrow> exc + bool \<Rightarrow> exc + unit \<Rightarrow> (redis_module, api_parts) io" where
  "api_startup cf pong pong' grouped =
     io_seq (init_redis (cf_redis_url cf) (cf_redis_max_connections cf) (cf_redis_pool_timeout cf) 5 pong)
     (io_seq (init_stream_redis (cf_redis_url cf) (cf_sse_max_subscribers cf + 8) (cf_sse_block_ms cf) (cf_redis_pool_timeout cf) pong')
     (io_bind get_stream_redis (\<lambda>reader.
      io_bind (built (api_admission cf)) (\<lambda>admission.
      io_bind (built (api_breaker cf)) (\<lambda>breaker.
      io_bind (built (api_limiters cf)) (\<lambda>limiters.
      io_bind (\<lambda>m. (new_histogram ''orch_evaluate_duration_seconds'' ''Time spent computing one evaluation metric, by metric.''
                        [''metric''] DEFAULT_BUCKETS, m)) (\<lambda>evaluate_duration.
      \<lambda>m. (map_sum id (\<lambda>_. \<lparr>ap_ttl_s = se_result_ttl_s cf, ap_reader = reader, ap_slots = new_slots (nat (cf_sse_max_subscribers cf)),
             ap_admission = admission, ap_breakers = [(LAYOUT, breaker), (VLM, breaker)], ap_limiters = limiters,
             ap_evaluate_duration = evaluate_duration\<rparr>) grouped, m))))))))"

text \<open>\<^verbatim>\<open>lifespan\<close>: serving starts behind the start-up, and only serving is inside the \<^verbatim>\<open>try\<close>.\<close>

definition lifespan ::
  "orch_settings \<Rightarrow> exc + bool \<Rightarrow> exc + bool \<Rightarrow> exc + unit \<Rightarrow> (api_parts \<Rightarrow> (redis_module, unit) io) \<Rightarrow> (redis_module, unit) io" where
  "lifespan cf pong pong' grouped serve =
     io_bind (api_startup cf pong pong' grouped) (\<lambda>parts m. let (r, m') = serve parts m in (r, close_redis m'))"

section \<open>The worker process\<close>

definition make_limiter :: "orch_settings \<Rightarrow> string \<Rightarrow> limiter option" where
  "make_limiter cf endpoint =
     TokenBucketLimiter endpoint (if endpoint = VLM then cf_vlm_rps cf else cf_layout_rps cf)
       (if endpoint = VLM then cf_vlm_burst cf else cf_layout_burst cf) (cf_rate_limit_bucket_ttl_s cf) (cf_rate_limit_jitter_ms cf)"

definition make_breaker :: "orch_settings \<Rightarrow> breaker_args option" where
  "make_breaker cf = CircuitBreaker (cf_breaker_window_s cf) (cf_breaker_min_volume cf) (cf_breaker_failure_ratio cf)
     (cf_breaker_cooldown_s cf) (cf_breaker_max_probes cf) (cf_breaker_probe_successes cf) (cf_rate_limit_bucket_ttl_s cf)"

definition make_controller :: "orch_settings \<Rightarrow> real \<Rightarrow> real \<Rightarrow> aimd_args option" where
  "make_controller cf max_rate slo_ms = AdaptiveRate max_rate (cf_aimd_min_rate cf) (cf_aimd_decrease_factor cf)
     (cf_aimd_increase_step cf) (cf_aimd_increase_after cf) (cf_aimd_refractory_ms cf) slo_ms
     (Some (max_rate * cf_aimd_latency_floor_fraction cf)) (cf_aimd_latency_samples cf) (cf_aimd_latency_min_samples cf)
     (cf_rate_limit_bucket_ttl_s cf)"

definition make_controllers :: "orch_settings \<Rightarrow> (string \<times> aimd_args) list option" where
  "make_controllers cf =
     (if cf_adaptive_enabled cf
      then case (make_controller cf (cf_layout_rps cf) (cf_layout_latency_slo_ms cf),
                 make_controller cf (cf_vlm_rps cf) (cf_vlm_latency_slo_ms cf)) of
             (Some l, Some v) \<Rightarrow> Some [(LAYOUT, l), (VLM, v)]
           | _ \<Rightarrow> None
      else Some [])"

record worker_parts =
  wp_ttl_s :: int
  wp_publisher :: publisher
  wp_client :: client_config
  wp_gauge_ttl_s :: real
  wp_settings :: settings

definition worker_startup :: "orch_settings \<Rightarrow> exc + bool \<Rightarrow> (redis_module, worker_parts) io" where
  "worker_startup cf pong =
     io_seq (init_redis (cf_redis_url cf) (cf_redis_max_connections cf) (cf_redis_pool_timeout cf) 5 pong)
     (io_bind (built (make_limiter cf LAYOUT)) (\<lambda>layout.
      io_bind (built (make_limiter cf VLM)) (\<lambda>vlm.
      io_bind (built (make_breaker cf)) (\<lambda>breaker.
      io_bind (built (make_controllers cf)) (\<lambda>controllers.
      io_ret \<lparr>wp_ttl_s = se_result_ttl_s cf,
        wp_publisher = \<lparr>pb_maxlen = nat (cf_result_stream_maxlen cf), pb_ttl_s = se_result_ttl_s cf\<rparr>,
        wp_client = \<lparr>cc_limiters = map_of [(LAYOUT, layout), (VLM, vlm)], cc_breakers = map_of [(LAYOUT, breaker), (VLM, breaker)],
          cc_controllers = map_of controllers, cc_max_wait_s = cf_rate_limit_max_wait_s cf, cc_max_attempts = nat (cf_max_attempts cf),
          cc_backoff_base_ms = of_int (cf_backoff_base_ms cf), cc_backoff_max_ms = of_int (cf_backoff_max_ms cf)\<rparr>,
        wp_gauge_ttl_s = cf_metrics_flush_interval_s cf * 3, wp_settings = worker_view cf\<rparr>)))))"

definition worker_main :: "orch_settings \<Rightarrow> exc + bool \<Rightarrow> (worker_parts \<Rightarrow> (redis_module, unit) io) \<Rightarrow> (redis_module, unit) io" where
  "worker_main cf pong work =
     io_bind (worker_startup cf pong) (\<lambda>parts m. let (r, m') = work parts m in (r, close_redis m'))"

section \<open>What the checked ranges give\<close>

lemma Settings_checked:
  assumes "Settings raw = Inr cf"
  shows "list_all snd (worker_checks cf)" "list_all snd (gate_checks cf)" "list_all snd (service_checks cf)"
  using assms by (auto simp: Settings_def Let_def filter_empty_conv list_all_iff split: if_splits)

lemma accepted_rates:
  assumes "Settings raw = Inr cf"
  shows "0 < cf_layout_rps cf" "0 < cf_layout_burst cf" "0 < cf_vlm_rps cf" "0 < cf_vlm_burst cf" "0 < cf_rate_limit_bucket_ttl_s cf"
    "1 \<le> cf_max_attempts cf" "0 < cf_aimd_min_rate cf" "0 < cf_aimd_decrease_factor cf" "cf_aimd_decrease_factor cf < 1"
    "0 < cf_aimd_increase_step cf" "1 \<le> cf_aimd_increase_after cf" "0 < cf_aimd_latency_floor_fraction cf"
    "cf_aimd_latency_floor_fraction cf \<le> 1"
  using Settings_checked(2) [OF assms] by (simp_all add: gate_checks_def)

lemma accepted_breaker:
  assumes "Settings raw = Inr cf"
  shows "0 < cf_breaker_window_s cf" "1 \<le> cf_breaker_min_volume cf" "0 < cf_breaker_failure_ratio cf" "cf_breaker_failure_ratio cf \<le> 1"
    "0 < cf_breaker_cooldown_s cf" "1 \<le> cf_breaker_max_probes cf" "1 \<le> cf_breaker_probe_successes cf"
  using Settings_checked(2) [OF assms] by (simp_all add: gate_checks_def)

lemma accepted_services:
  assumes "Settings raw = Inr cf"
  shows "0 < cf_sse_max_subscribers cf" "0 < cf_queue_high_watermark cf" "0 < cf_queue_low_watermark_fraction cf"
    "cf_queue_low_watermark_fraction cf < 1" "0 < cf_sse_block_ms cf"
  using Settings_checked(3) [OF assms] by (simp_all add: service_checks_def)

lemmas accepted = accepted_rates accepted_breaker accepted_services

lemma controller_built:
  assumes "Settings raw = Inr cf" "0 < max_rate"
  shows "make_controller cf max_rate slo \<noteq> None \<longleftrightarrow> cf_aimd_min_rate cf \<le> max_rate * cf_aimd_latency_floor_fraction cf"
proof -
  have "max_rate * cf_aimd_latency_floor_fraction cf \<le> max_rate" using accepted [OF assms(1)] assms(2) by simp
  from order_trans [OF _ this, of "cf_aimd_min_rate cf"] show ?thesis using accepted [OF assms(1)] assms(2) by (auto simp: make_controller_def AdaptiveRate_def Let_def)
qed

lemma api_controller_built: "api_controller max_rate \<noteq> None \<longleftrightarrow> 2 \<le> max_rate"
  by (auto simp: api_controller_def AdaptiveRate_def Let_def)

lemma gates_built:
  assumes "Settings raw = Inr cf"
  shows "\<exists>l. make_limiter cf e = Some l" "\<exists>b. make_breaker cf = Some b" "\<exists>b. api_breaker cf = Some b"
  using accepted [OF assms] by (auto simp: make_limiter_def TokenBucketLimiter_def make_breaker_def api_breaker_def CircuitBreaker_def)

lemma controllers_built:
  assumes "Settings raw = Inr cf"
  shows "make_controllers cf \<noteq> None \<longleftrightarrow>
    (cf_adaptive_enabled cf \<longrightarrow> cf_aimd_min_rate cf \<le> min (cf_layout_rps cf) (cf_vlm_rps cf) * cf_aimd_latency_floor_fraction cf)"
proof -
  have f: "0 < cf_aimd_latency_floor_fraction cf" by (rule accepted [OF assms])
  have "min (cf_layout_rps cf) (cf_vlm_rps cf) * cf_aimd_latency_floor_fraction cf =
      min (cf_layout_rps cf * cf_aimd_latency_floor_fraction cf) (cf_vlm_rps cf * cf_aimd_latency_floor_fraction cf)"
    using f by (simp add: min_mult_distrib_right)
  moreover note controller_built [OF assms accepted(1) [OF assms], of "cf_layout_latency_slo_ms cf"]
    controller_built [OF assms accepted(3) [OF assms], of "cf_vlm_latency_slo_ms cf"]
  ultimately show ?thesis by (auto simp: make_controllers_def split: option.splits)
qed

lemma views_built:
  "api_limiters cf \<noteq> None \<longleftrightarrow> (cf_adaptive_enabled cf \<longrightarrow> 2 \<le> min (cf_layout_rps cf) (cf_vlm_rps cf))"
  using api_controller_built [of "cf_layout_rps cf"] api_controller_built [of "cf_vlm_rps cf"]
  by (auto simp: api_limiters_def split: option.splits)

lemma admission_built:
  assumes "Settings raw = Inr cf"
  shows "api_admission cf \<noteq> None \<longleftrightarrow> (cf_adaptive_enabled cf \<longrightarrow> 2 \<le> cf_vlm_rps cf)"
  using accepted [OF assms] api_controller_built [of "cf_vlm_rps cf"] by (auto simp: api_admission_def AdmissionController_def)

lemma worker_starts:
  assumes "Settings raw = Inr cf"
  shows "(\<exists>parts. fst (worker_startup cf (Inr pong) m) = Inr parts) \<longleftrightarrow>
    (cf_adaptive_enabled cf \<longrightarrow> cf_aimd_min_rate cf \<le> min (cf_layout_rps cf) (cf_vlm_rps cf) * cf_aimd_latency_floor_fraction cf)"
proof -
  obtain l v b where "make_limiter cf LAYOUT = Some l" "make_limiter cf VLM = Some v" "make_breaker cf = Some b"
    using gates_built [OF assms] by metis
  then have "(\<exists>parts. fst (worker_startup cf (Inr pong) m) = Inr parts) \<longleftrightarrow> make_controllers cf \<noteq> None"
    by (auto simp: worker_startup_def init_redis_def built_def answered_def io_simps Let_def split: option.split)
  then show ?thesis unfolding controllers_built [OF assms] .
qed

lemma api_starts:
  assumes "Settings raw = Inr cf"
  shows "(\<exists>parts. fst (api_startup cf (Inr pong) (Inr pong') (Inr ()) m) = Inr parts) \<longleftrightarrow>
    (cf_adaptive_enabled cf \<longrightarrow> 2 \<le> min (cf_layout_rps cf) (cf_vlm_rps cf))"
proof -
  obtain b where "api_breaker cf = Some b" using gates_built [OF assms] by metis
  then have "(\<exists>parts. fst (api_startup cf (Inr pong) (Inr pong') (Inr ()) m) = Inr parts) \<longleftrightarrow>
      api_admission cf \<noteq> None \<and> api_limiters cf \<noteq> None"
    by (auto simp: api_startup_def init_redis_def init_stream_redis_def get_stream_redis_def built_def answered_def io_simps Let_def
        new_histogram_def DEFAULT_BUCKETS_def split: option.split)
  then show ?thesis unfolding admission_built [OF assms] views_built by auto
qed

text \<open>
  C28. Which configurations run. With Redis reachable, a configuration inside the declared ranges
  starts the worker exactly if the adaptive controller is off or its floor is at most the latency
  floor of the slower endpoint, and it starts the API exactly if the controller is off or both
  advertised rates are at least two requests per second.
\<close>

theorem processes_start_iff:
  assumes "Settings raw = Inr cf"
  shows "((\<exists>parts. fst (worker_startup cf (Inr pong) m) = Inr parts) \<longleftrightarrow>
       (cf_adaptive_enabled cf \<longrightarrow> cf_aimd_min_rate cf \<le> min (cf_layout_rps cf) (cf_vlm_rps cf) * cf_aimd_latency_floor_fraction cf)) \<and>
     ((\<exists>parts. fst (api_startup cf (Inr pong) (Inr pong') (Inr ()) m) = Inr parts) \<longleftrightarrow>
       (cf_adaptive_enabled cf \<longrightarrow> 2 \<le> min (cf_layout_rps cf) (cf_vlm_rps cf)))"
  using worker_starts [OF assms] api_starts [OF assms] by blast

section \<open>Connections over a process's life\<close>

definition all_closed :: "redis_module \<Rightarrow> bool" where
  "all_closed m \<longleftrightarrow> rm_client m = None \<and> rm_stream m = None \<and> rm_scripts m = [] \<and> rm_open m = []"

text \<open>Work that uses the connections: it registers scripts and neither opens nor closes a pool.\<close>

definition same_pools :: "redis_module \<Rightarrow> redis_module \<Rightarrow> bool" where
  "same_pools m m' \<longleftrightarrow> rm_client m' = rm_client m \<and> rm_stream m' = rm_stream m \<and> rm_open m' = rm_open m"

lemma register_same_pools: "same_pools m (snd (register_script name source m))"
  by (simp add: same_pools_def register_script_def get_redis_def split: option.split)

lemma api_startup_pools:
  assumes "api_startup cf (Inr pong) (Inr pong') grouped m = (r, m')"
  shows "\<exists>p q. rm_client m' = Some p \<and> rm_stream m' = Some q \<and> rm_scripts m' = rm_scripts m \<and> rm_open m' = rm_open m @ [po_id p, po_id q] \<and>
    po_id p = rm_made m \<and> po_id q = Suc (rm_made m) \<and> po_max_connections q = cf_sse_max_subscribers cf + 8 \<and>
    po_socket_timeout q = of_int (cf_sse_block_ms cf) / 1000 + 5 \<and>
    (\<forall>parts. r = Inr parts \<longrightarrow> ap_reader parts = q \<and> ap_slots parts = new_slots (nat (cf_sse_max_subscribers cf)))"
  using assms
  by (cases grouped) (auto simp: api_startup_def init_redis_def init_stream_redis_def get_stream_redis_def built_def answered_def
      io_simps Let_def split: option.splits sum.splits)

lemma worker_startup_pools:
  assumes "worker_startup cf pong m = (r, m')"
  shows "\<exists>p. rm_client m' = Some p \<and> rm_stream m' = rm_stream m \<and> rm_open m' = rm_open m @ [po_id p]"
  using assms
  by (auto simp: worker_startup_def init_redis_def built_def answered_def io_simps Let_def split: option.splits sum.splits)

lemma close_all:
  assumes "rm_client m = Some p" "rm_open m = (case rm_stream m of None \<Rightarrow> [po_id p] | Some q \<Rightarrow> [po_id p, po_id q])"
  shows "all_closed (close_redis m)"
  using assms by (auto simp: all_closed_def close_redis_def dispose_def Let_def split: option.splits)

text \<open>
  A process that has started gives its connections back. Whatever serving or working does, on
  return and on an exception, the API ends with both of its pools and the worker with its one pool
  disposed of, and no script handle survives its client.
\<close>

theorem pools_released:
  assumes "all_closed m" and "\<And>parts m. same_pools m (snd (serve parts m))" and "\<And>parts m. same_pools m (snd (work parts m))"
  shows "(fst (api_startup cf (Inr pong) (Inr pong') grouped m) = Inr api \<longrightarrow>
        all_closed (snd (lifespan cf (Inr pong) (Inr pong') grouped serve m))) \<and>
     (fst (worker_startup cf (Inr pong) m) = Inr wps \<longrightarrow> all_closed (snd (worker_main cf (Inr pong) work m)))"
proof (intro conjI impI)
  assume "fst (api_startup cf (Inr pong) (Inr pong') grouped m) = Inr api"
  then obtain m1 where s: "api_startup cf (Inr pong) (Inr pong') grouped m = (Inr api, m1)" by (metis prod.collapse)
  obtain p q where "rm_client m1 = Some p" "rm_stream m1 = Some q" "rm_open m1 = [po_id p, po_id q]"
    using api_startup_pools [OF s] assms(1) by (auto simp: all_closed_def)
  then have "all_closed (close_redis (snd (serve api m1)))"
    using assms(2) [of m1 api] by (intro close_all [of _ p]) (simp_all add: same_pools_def)
  then show "all_closed (snd (lifespan cf (Inr pong) (Inr pong') grouped serve m))"
    by (simp add: lifespan_def io_simps s split_def Let_def)
next
  assume "fst (worker_startup cf (Inr pong) m) = Inr wps"
  then obtain m1 where s: "worker_startup cf (Inr pong) m = (Inr wps, m1)" by (metis prod.collapse)
  obtain p where "rm_client m1 = Some p" "rm_stream m1 = None" "rm_open m1 = [po_id p]"
    using worker_startup_pools [OF s] assms(1) by (auto simp: all_closed_def)
  then have "all_closed (close_redis (snd (work wps m1)))"
    using assms(3) [of m1 wps] by (intro close_all [of _ p]) (simp_all add: same_pools_def)
  then show "all_closed (snd (worker_main cf (Inr pong) work m))"
    by (simp add: worker_main_def io_simps s split_def Let_def)
qed

text \<open>
  A start-up that fails after the pools were opened leaves them open: the \<^verbatim>\<open>try\<close> of \<^verbatim>\<open>lifespan\<close> begins
  behind the last resource.
\<close>

lemma failed_start_leaks:
  assumes "fst (api_startup cf (Inr pong) (Inr pong') grouped fresh_module) = Inl e"
  shows "rm_open (snd (lifespan cf (Inr pong) (Inr pong') grouped serve fresh_module)) = [0, 1]"
proof -
  obtain m1 where s: "api_startup cf (Inr pong) (Inr pong') grouped fresh_module = (Inl e, m1)" using assms by (metis prod.collapse)
  moreover have "rm_open fresh_module = []" "rm_made fresh_module = 0" by (simp_all add: fresh_module_def)
  ultimately show ?thesis using api_startup_pools [OF s] by (auto simp: lifespan_def io_simps)
qed

text \<open>
  The subscribers' connections: one each and some to spare, from a pool of their own, whose socket
  timeout a blocking read cannot reach.
\<close>

lemma subscribers_own_connections:
  assumes "Settings raw = Inr cf" "api_startup cf (Inr pong) (Inr pong') grouped m = (Inr parts, m')"
  shows "\<exists>p. rm_client m' = Some p \<and> po_id (ap_reader parts) \<noteq> po_id p \<and>
    int (sl_limit (ap_slots parts)) < po_max_connections (ap_reader parts) \<and>
    of_int (cf_sse_block_ms cf) / 1000 < po_socket_timeout (ap_reader parts)"
  using api_startup_pools [OF assms(2)] accepted [OF assms(1)] by (auto simp: new_slots_def)

section \<open>Script handles\<close>

definition scripts_current :: "redis_module \<Rightarrow> bool" where
  "scripts_current m \<longleftrightarrow> (\<forall>(name, source, p) \<in> set (rm_scripts m). rm_client m = Some p)"

lemma scripts_current_keep:
  "scripts_current m \<Longrightarrow> scripts_current (snd (register_script name source m))"
  "scripts_current m \<Longrightarrow> scripts_current (close_redis m)"
  "all_closed m \<Longrightarrow> scripts_current (snd (init_redis url mc pt st pong m))"
  "scripts_current m \<Longrightarrow> scripts_current (snd (init_stream_redis url mc bl pt pong m))"
  by (auto simp: scripts_current_def register_script_def get_redis_def close_redis_def dispose_def init_redis_def init_stream_redis_def
      all_closed_def Let_def split: option.splits)

lemma registered_on_client:
  assumes "scripts_current m" "register_script name source m = (Inr (source', p), m')"
  shows "rm_client m = Some p" and "register_script name source'' m' = (Inr (source', p), m')"
  using assms by (auto simp: scripts_current_def register_script_def get_redis_def dest: map_of_SomeD split: option.splits)

section \<open>Health\<close>

lemma health_code: "fst (health str pong m) = 200 \<longleftrightarrow> rm_client m \<noteq> None \<and> pong = Inr True"
  by (auto simp: health_def healthcheck_def get_redis_def Let_def split: option.splits sum.splits)

section \<open>One configuration, two processes\<close>

lemma worker_gates:
  assumes "worker_startup cf (Inr pong) m = (Inr wps, m')"
  shows "cc_breakers (wp_client wps) e = Some a \<Longrightarrow> make_breaker cf = Some a"
    and "cc_controllers (wp_client wps) e = Some b \<Longrightarrow> aa_max_rate b = (if e = VLM then cf_vlm_rps cf else cf_layout_rps cf)"
  using assms
  by (auto simp: worker_startup_def init_redis_def built_def answered_def io_simps Let_def make_controllers_def make_controller_def
      AdaptiveRate_def LAYOUT_def VLM_def split: option.splits if_splits)

lemma api_startup_built:
  assumes "api_startup cf (Inr pong) (Inr pong') grouped m = (Inr api, m')"
  shows "api_admission cf = Some (ap_admission api)" "api_limiters cf = Some (ap_limiters api)"
    "\<exists>a. api_breaker cf = Some a \<and> ap_breakers api = [(LAYOUT, a), (VLM, a)]"
  using assms
  by (cases grouped; auto simp: api_startup_def init_redis_def init_stream_redis_def get_stream_redis_def built_def answered_def
      io_simps Let_def split: option.splits sum.splits)+

lemma api_limiters_cases:
  assumes "api_limiters cf = Some ls"
  shows "ls = [] \<or> (\<exists>l v. ls = [(LAYOUT, l), (VLM, v)] \<and> api_controller (cf_layout_rps cf) = Some l \<and> api_controller (cf_vlm_rps cf) = Some v)"
  using assms by (auto simp: api_limiters_def split: if_splits option.splits)

lemma api_controller_args: "api_controller r = Some b \<Longrightarrow> aa_max_rate b = r \<and> aa_ttl_ms b = 300000"
  by (auto simp: api_controller_def AdaptiveRate_def Let_def split: if_splits)

lemma api_views:
  assumes "api_startup cf (Inr pong) (Inr pong') grouped m = (Inr api, m')"
  shows "distinct (map fst (ap_breakers api))" "distinct (map fst (ap_limiters api))"
    and "(e, a) \<in> set (ap_breakers api) \<Longrightarrow> api_breaker cf = Some a"
    and "(e, b) \<in> set (ap_limiters api) \<Longrightarrow>
      aa_max_rate b = (if e = VLM then cf_vlm_rps cf else cf_layout_rps cf) \<and> aa_ttl_ms b = 300000"
  using api_startup_built(3) [OF assms] api_limiters_cases [OF api_startup_built(2) [OF assms]]
  by (auto simp: LAYOUT_def VLM_def dest: api_controller_args)

lemma same_timing:
  "make_breaker cf = Some a \<Longrightarrow> api_breaker cf = Some a' \<Longrightarrow>
    ba_window_ms a' = ba_window_ms a \<and> ba_cooldown_ms a' = ba_cooldown_ms a \<and> ba_ttl_ms a' = se_result_ttl_s cf * 1000"
  by (auto simp: make_breaker_def api_breaker_def CircuitBreaker_def split: if_splits)


section \<open>The defaults\<close>

lemma default_accepted: "Settings default_settings = Inr default_settings"
  by (simp add: Settings_def worker_checks_def gate_checks_def service_checks_def default_settings_def)

theorem processes_start_iff_witness:
  "\<exists>wps api. fst (worker_startup default_settings (Inr True) fresh_module) = Inr wps \<and>
     fst (api_startup default_settings (Inr True) (Inr True) (Inr ()) fresh_module) = Inr api"
  using processes_start_iff [OF default_accepted, of True fresh_module True] by (auto simp: default_settings_def)

lemma default_starts:
  "\<exists>wps m. worker_startup default_settings (Inr True) fresh_module = (Inr wps, m)"
  "\<exists>api m. api_startup default_settings (Inr True) (Inr True) (Inr ()) fresh_module = (Inr api, m)"
  using worker_starts [OF default_accepted, of True fresh_module] api_starts [OF default_accepted, of True True fresh_module]
  by (auto simp: default_settings_def) (metis prod.collapse)+

theorem pools_released_witness:
  "all_closed (snd (lifespan default_settings (Inr True) (Inr True) (Inr ())
       (\<lambda>_. io_seq (register_script ''admission'' ''lua'') (io_raise RedisError)) fresh_module))"
proof -
  have closed: "all_closed fresh_module" by (simp add: all_closed_def fresh_module_def)
  have serve: "same_pools m (snd (io_seq (register_script ''admission'' ''lua'') (io_raise RedisError) m))" for m
    using register_same_pools [of m "''admission''" "''lua''"]
    by (auto simp: io_simps same_pools_def split: prod.split sum.split)
  obtain api m where "api_startup default_settings (Inr True) (Inr True) (Inr ()) fresh_module = (Inr api, m)"
    using default_starts(2) by blast
  then show ?thesis using pools_released [OF closed serve serve, of default_settings True True "Inr ()" api] by simp
qed

lemma worker_has_gates:
  assumes "worker_startup cf (Inr pong) m = (Inr wps, m')" "cf_adaptive_enabled cf"
  shows "cc_breakers (wp_client wps) VLM = make_breaker cf"
    and "cc_controllers (wp_client wps) VLM = make_controller cf (cf_vlm_rps cf) (cf_vlm_latency_slo_ms cf)"
  using assms
  by (auto simp: worker_startup_def init_redis_def built_def answered_def io_simps Let_def make_controllers_def
      LAYOUT_def VLM_def split: option.splits)


section \<open>What the ranges leave open\<close>

text \<open>
  Requirements between fields that the sources state or the components' theorems assume: a live worker
  renews several times before the reaper would take its entries over, the sweep waits longer than a
  page may take, a result stream holds every event of the largest job and a catch-up read covers it,
  the keys of breaker and controller outlive cooldown and refractory window, and a bucket's key outlives its longest queue.
\<close>

definition coherent :: "orch_settings \<Rightarrow> bool" where
  "coherent cf \<longleftrightarrow>
     cf_lease_renew_interval_s cf < se_reaper_min_idle_s cf \<and> se_page_deadline_s cf < se_orphan_sweep_age_s cf \<and>
     2 * se_max_pages cf + 1 \<le> cf_result_stream_maxlen cf \<and> cf_result_stream_maxlen cf < cf_sse_history_limit cf \<and>
     cf_breaker_cooldown_s cf * 1000 + 1 \<le> of_int (cf_rate_limit_bucket_ttl_s cf * 1000) \<and>
     cf_aimd_refractory_ms cf + 1 \<le> of_int (cf_rate_limit_bucket_ttl_s cf * 1000) \<and>
     (\<forall>(rate, burst) \<in> {(cf_layout_rps cf, cf_layout_burst cf), (cf_vlm_rps cf, cf_vlm_burst cf)}.
        of_int burst + cf_rate_limit_max_wait_s cf * rate \<le> (of_int (cf_rate_limit_bucket_ttl_s cf * 1000) - 1) * rate / 1000)"

lemma default_coherent: "coherent default_settings"
  by (simp add: coherent_def default_settings_def)

text \<open>The ranges check each field alone, so a configuration that breaks all of these starts both processes.\<close>

lemma incoherent_starts:
  "\<exists>cf wps api. Settings cf = Inr cf \<and> fst (worker_startup cf (Inr True) fresh_module) = Inr wps \<and>
     fst (api_startup cf (Inr True) (Inr True) (Inr ()) fresh_module) = Inr api \<and>
     se_reaper_min_idle_s cf \<le> cf_lease_renew_interval_s cf \<and> se_orphan_sweep_age_s cf < se_page_deadline_s cf \<and>
     cf_result_stream_maxlen cf < 2 * se_max_pages cf + 1 \<and>
     of_int (cf_rate_limit_bucket_ttl_s cf * 1000) < cf_breaker_cooldown_s cf * 1000"
proof -
  let ?cf = "default_settings\<lparr>cf_lease_renew_interval_s := 60, se_orphan_sweep_age_s := 60, cf_result_stream_maxlen := 10,
      cf_rate_limit_bucket_ttl_s := 1\<rparr>"
  have ok: "Settings ?cf = Inr ?cf"
    by (simp add: Settings_def worker_checks_def gate_checks_def service_checks_def default_settings_def)
  show ?thesis
    using worker_starts [OF ok, of True fresh_module] api_starts [OF ok, of True True fresh_module] ok
    by (intro exI [of _ ?cf]) (auto simp: default_settings_def)
qed

text \<open>
  The interval of the metrics flush sets only how long the gauges live; a flush happens in every round
  of maintenance, whose pace is the lease interval.
\<close>

lemma gauges_can_lapse:
  assumes "worker_startup cf (Inr pong) m = (Inr wps, m')" "3 * cf_metrics_flush_interval_s cf < cf_lease_renew_interval_s cf"
  shows "wp_gauge_ttl_s wps < cf_lease_renew_interval_s cf"
  using assms
  by (auto simp: worker_startup_def init_redis_def built_def answered_def io_simps Let_def split: option.splits)

text \<open>
  Age, not the requeue count, ends a page's life. Under every accepted configuration that does not set the count itself,
  the derived ceiling times the pause per requeue is at least the age at which a page degrades or
  expires, however short the pause and the ages are.
\<close>

theorem requeues_outlast_age:
  assumes "Settings raw = Inr cf" "\<not> se_max_requeues_given cf"
  shows "min (se_degrade_after_s cf) (se_page_deadline_s cf)
    \<le> of_int (effective_max_requeues (worker_view cf)) * max (se_saturation_pause_s cf) (5 / 100)"
proof -
  have v: "se_degrade_after_s (worker_view cf) = se_degrade_after_s cf" "se_page_deadline_s (worker_view cf) = se_page_deadline_s cf"
      "se_saturation_pause_s (worker_view cf) = se_saturation_pause_s cf" "se_max_requeues (worker_view cf) = se_max_requeues cf"
      "se_max_requeues_given (worker_view cf) = se_max_requeues_given cf"
    by (simp_all add: worker_view_def settings.truncate_def)
  have "0 < se_degrade_after_s cf" "0 < se_page_deadline_s cf" "1 \<le> se_max_requeues cf"
    using Settings_checked(1) [OF assms(1)] by (simp_all add: worker_checks_def)
  then show ?thesis using effective_max_requeues_default [of "worker_view cf"] assms(2) by (simp add: v)
qed

theorem requeues_outlast_age_witness:
  "90 \<le> of_int (effective_max_requeues (worker_view default_settings)) * (1 / 2 :: real)"
  using requeues_outlast_age [OF default_accepted] by (simp add: default_settings_def)

end
