(* ===== verification/Fleet_System.thy ===== *)
theory Fleet_System
  imports Worker Intake_System
begin

text \<open>
  The fleet as a whole: jobs come in through the API, workers handle pages and may die at any await,
  reapers recover what is left, entries are delivered, claimed and renewed, and time passes. Each step
  is the whole procedure of its component (\<^verbatim>\<open>src/app/api/jobs.py\<close>, \<^verbatim>\<open>src/app/worker/main.py\<close>,
  \<^verbatim>\<open>src/app/worker/reaper.py\<close>) run on the shared state. Procedures for different pages touch different
  rows and entries, which is proved first; that no page is lost follows by induction over the steps.
\<close>

section \<open>A procedure keeps to its page\<close>

definition page_frame :: "string \<Rightarrow> int \<Rightarrow> pworld \<Rightarrow> pworld \<Rightarrow> bool" where
  "page_frame job i p p' \<longleftrightarrow> pw_now p' = pw_now p \<and>
     (\<forall>j n. (j, n) \<noteq> (job, i) \<or> cur j n p = None \<longrightarrow> cur j n p' = cur j n p)"

interpretation pf: world_order "page_frame job i" for job i
  by unfold_locales (auto simp: page_frame_def)

lemma page_frame_same: "pw_now p' = pw_now p \<Longrightarrow> pw_store p' = pw_store p \<Longrightarrow> page_frame job i p p'"
  by (simp add: page_frame_def cur_def)

lemma pf_await:
  assumes "pl_alone pl" and "\<And>p. page_frame job i p (snd (f p))"
  shows "guarantees (page_frame job i) (pw_await pl f)"
proof (unfold guarantees_def, intro allI)
  fix p :: pworld
  obtain fo where e: "pl_env pl (pw_tick p) p = (fo, p)" using assms(1) by (metis pl_alone_def prod.collapse)
  let ?p = "p\<lparr>pw_tick := Suc (pw_tick p)\<rparr>"
  have "page_frame job i p ?p" by (rule page_frame_same) simp_all
  with pf.trans [OF this assms(2)] show "page_frame job i p (snd (pw_await pl f p))"
    by (auto simp: pw_await_def e Let_def split: option.split fault.split)
qed

lemma pf_transition:
  assumes "pl_alone pl"
  shows "guarantees (page_frame job i) (st_transition pl job i to al fvs)"
  unfolding st_transition_def
proof (rule pf_await [OF assms])
  fix p
  have "page_frame job i p (p\<lparr>pw_store := s\<rparr>)"
    if tr: "transition (pw_now p) (pw_now p) (pl_ttl_s pl) sw job i to al fvs (pw_store p) = Some (r, s)" for sw r s
  proof -
    have "cur j n (p\<lparr>pw_store := s\<rparr>) = cur j n p" if "(j, n) \<noteq> (job, i)" for j n
      using transition_frame(2) [OF tr that] assms by (simp add: cur_def pl_alone_def)
    moreover have "cur job i (p\<lparr>pw_store := s\<rparr>) = None" if "cur job i p = None"
    proof -
      have "\<not> tr_ok r" using that by (auto simp: cur_def elim: transition_commit_raw [OF tr])
      then show ?thesis using transition_reject_same [OF tr] that by simp
    qed
    ultimately have "cur j n (p\<lparr>pw_store := s\<rparr>) = cur j n p" if "(j, n) \<noteq> (job, i) \<or> cur j n p = None" for j n
      using that by (cases "(j, n) = (job, i)") auto
    then show ?thesis by (simp add: page_frame_def)
  qed
  then show "page_frame job i p (snd (case transition (pw_now p) (pw_now p) (pl_ttl_s pl) (pl_swept pl (pw_tick p)) job i to al fvs
            (pw_store p) of
       None \<Rightarrow> (Inl (OtherException ''ValueError''), p)
     | Some (r, s) \<Rightarrow> (Inr r, p\<lparr>pw_store := s\<rparr>)))"
    by (auto simp: pf.refl split: option.split)
qed

lemma pf_get_page: "pl_alone pl \<Longrightarrow> guarantees (page_frame job i) (st_get_page pl j n)"
  unfolding st_get_page_def by (rule pf_await) (simp_all add: pf.refl)

lemma pf_progress: "pl_alone pl \<Longrightarrow> guarantees (page_frame job i) (st_progress pl j)"
  unfolding st_progress_def by (rule pf_await) (simp_all add: pf.refl)

lemma pf_publish: "pl_alone pl \<Longrightarrow> guarantees (page_frame job i) (pub_publish pl pb j ev payload)"
  unfolding pub_publish_def by (rule pf_await) (simp_all add: page_frame_same)

lemma pf_emit: "pl_alone pl \<Longrightarrow> guarantees (page_frame job i) (emit pl ev tr j n payload)"
  unfolding emit_def by (intro pf.g_rules pf_publish)

lemma pf_client: "guarantees (page_frame job i) (call_client m)"
  by (auto simp: guarantees_def call_client_def page_frame_same split: prod.split)

lemma pf_hash: "guarantees (page_frame job i) (hash_state h)"
  unfolding hash_state_def by (intro pf.g_rules)

lemma pf_confidence: "guarantees (page_frame job i) (vlm_confidence v)"
  unfolding vlm_confidence_def by (cases v) (auto intro: pf.g_rules)

lemma pf_release: "pl_alone pl \<Longrightarrow> guarantees (page_frame job i) (release_claim pl job i)"
  unfolding release_claim_def by (intro pf.g_rules pf_get_page pf_hash pf_transition)

lemma pf_force: "pl_alone pl \<Longrightarrow> guarantees (page_frame job i) (force_terminal pl job i reason)"
  unfolding force_terminal_def Let_def by (intro pf.g_rules pf_get_page pf_hash pf_transition pf_emit)

lemma pf_process_page: "pl_alone pl \<Longrightarrow> guarantees (page_frame job i) (process_page pl job i pr ct fa ho rc)"
  unfolding process_page_def run_stages_def layout_stage_def vlm_stage_def vlm_call_def degrade_def fail_page_def on_saturated_def
    on_exception_def Let_def
  by (intro pf.g_rules pf_get_page pf_hash pf_transition pf_emit pf_release pf_client pf_confidence)

text \<open>The same for the combined world: besides its page a procedure may touch its own entry, and add entries.\<close>

definition entries_kept where
  "entries_kept ent t s s' \<longleftrightarrow> (\<forall>st n f. (st, n) \<noteq> (pt_stream t, pt_entry_id t) \<and> ent s st n = Some f \<longrightarrow> ent s' st n = Some f)"

definition fleet_frame ::
  "('s \<Rightarrow> bool) \<Rightarrow> ('s \<Rightarrow> string \<Rightarrow> entry_id \<Rightarrow> fields option) \<Rightarrow> page_task \<Rightarrow> 's fleet \<Rightarrow> 's fleet \<Rightarrow> bool" where
  "fleet_frame ok ent t w w' \<longleftrightarrow> page_frame (pt_job_id t) (pt_page_index t) (fl_pages w) (fl_pages w') \<and>
     (ok (fl_queue w) \<longrightarrow> ok (fl_queue w') \<and> entries_kept ent t (fl_queue w) (fl_queue w'))"

lemma entries_kept_refl: "entries_kept ent t s s"
  by (simp add: entries_kept_def)

interpretation ff: world_order "fleet_frame ok ent t" for ok ent t
proof
  show "fleet_frame ok ent t w w" for w by (simp add: fleet_frame_def pf.refl entries_kept_def)
  show "fleet_frame ok ent t a c" if "fleet_frame ok ent t a b" "fleet_frame ok ent t b c" for a b c
    using that pf.trans unfolding fleet_frame_def entries_kept_def by meson
qed

context world_order
begin

lemma g_prod: "(\<And>a b. guarantees R (f a b)) \<Longrightarrow> guarantees R (case x of (a, b) \<Rightarrow> f a b)"
  by (cases x) simp

lemma g_mapM: "(\<And>x. guarantees R (f x)) \<Longrightarrow> guarantees R (io_mapM f xs)"
  by (induction xs) (auto intro!: g_rules)

end

lemma ff_same: "fl_pages w' = fl_pages w \<Longrightarrow> fl_queue w' = fl_queue w \<Longrightarrow> fleet_frame ok ent t w w'"
  by (simp add: fleet_frame_def pf.refl entries_kept_refl)

lemma ff_pages:
  assumes "guarantees (page_frame (pt_job_id t) (pt_page_index t)) m"
  shows "guarantees (fleet_frame ok ent t) (on_pages m)"
  using assms by (auto simp: guarantees_def fleet_frame_def on_pages_def entries_kept_refl split_def Let_def)

lemma ff_local:
  "guarantees (fleet_frame ok ent t) (remove_document se job)" "guarantees (fleet_frame ok ent t) (record_outcome oc)"
  "guarantees (fleet_frame ok ent t) (bump f)" "guarantees (fleet_frame ok ent t) (resolve_page wk t')"
  by (auto simp: guarantees_def remove_document_def record_outcome_def bump_def resolve_page_def io_simps Let_def ff_same ff.refl
      split: prod.split sum.split)

context stream_server
begin

lemma ff_ack: "guarantees (fleet_frame ok ent t) (ack_task ops t)"
proof (unfold guarantees_def, intro allI)
  fix w :: "'s fleet"
  obtain r q where a: "ack ops (pt_entry_id t) (pt_stream t) (fl_queue w) = (r, q)" by fastforce
  have "ok q \<and> entries_kept ent t (fl_queue w) q" if "ok (fl_queue w)"
    using ack_others [OF that a] by (auto simp: entries_kept_def)
  then show "fleet_frame ok ent t w (snd (ack_task ops t w))" by (simp add: ack_task_def on_queue_def a fleet_frame_def pf.refl)
qed

lemma requeue_others:
  assumes "ok s" and "requeue ops now t b s = (r, s')"
  shows "ok s' \<and> entries_kept ent t s s'"
proof -
  obtain r1 s1 where add: "xadd ops STREAM (requeue_fields now t b) s = (r1, s1)" by fastforce
  have gr: "grows (ent s) (ent s1)" and s1: "ok s1" using xadd_grows [OF assms(1) add] xadd_ok [OF assms(1) add] by auto
  show ?thesis
  proof (cases r1)
    case (Inr new)
    obtain r2 where "ack ops (pt_entry_id t) (pt_stream t) s1 = (r2, s')"
      using assms(2) add Inr by (auto simp: requeue_def io_bind_apply io_seq_apply io_ret_apply split: prod.splits sum.splits)
    from ack_others [OF s1 this] show ?thesis using growsD [OF gr] by (auto simp: entries_kept_def)
  qed (use assms(2) add gr s1 in \<open>auto simp: requeue_def io_bind_apply entries_kept_def grows_def\<close>)
qed

lemma ff_requeue: "guarantees (fleet_frame ok ent t) (requeue_task ops t b)"
proof (unfold guarantees_def, intro allI)
  fix w :: "'s fleet"
  obtain r q where a: "requeue ops (pw_now (fl_pages w)) t b (fl_queue w) = (r, q)" by fastforce
  show "fleet_frame ok ent t w (snd (requeue_task ops t b w))"
    using requeue_others [OF _ a] by (cases r) (simp_all add: requeue_task_def on_queue_def io_simps a fleet_frame_def pf.refl)
qed

lemma ff_delete: "pl_alone (wk_pipeline wk) \<Longrightarrow> guarantees (fleet_frame ok ent t) (maybe_delete_document wk job)"
  unfolding maybe_delete_document_def by (intro ff.g_rules ff.g_prod ff_pages pf_progress ff_local)

lemma ff_handle:
  assumes "wk_ops wk = ops" and "pl_alone (wk_pipeline wk)"
  shows "guarantees (fleet_frame ok ent t) (handle_page wk t)"
  unfolding handle_page_def settle_result_def page_crashed_def Let_def assms(1)
  by (intro ff.g_rules ff.g_prod ff_pages ff_local ff_ack ff_requeue ff_delete pf_process_page pf_force pf_release assms(2))

lemma ff_recover:
  assumes "pl_alone pl"
  shows "guarantees (fleet_frame ok ent t) (recover se pl ops t)"
  unfolding recover_def
  by (intro ff.g_rules ff_pages ff_local ff_ack ff_requeue pf_get_page pf_hash pf_force pf_release assms)

end


section \<open>Taking in a job\<close>

text \<open>What the intake of a job leaves of the rest: other jobs' rows, and every entry.\<close>

definition api_frame ::
  "('s \<Rightarrow> bool) \<Rightarrow> ('s \<Rightarrow> string \<Rightarrow> entry_id \<Rightarrow> fields option) \<Rightarrow> string \<Rightarrow> 's api_world \<Rightarrow> 's api_world \<Rightarrow> bool" where
  "api_frame ok ent job a a' \<longleftrightarrow> aw_now a' = aw_now a \<and>
     (\<forall>j n. j \<noteq> job \<longrightarrow> st_pages (aw_store a') (j, n) = st_pages (aw_store a) (j, n)) \<and>
     (ok (aw_queue a) \<longrightarrow> ok (aw_queue a') \<and> grows (ent (aw_queue a)) (ent (aw_queue a')))"

interpretation af: world_order "api_frame ok ent job" for ok ent job
proof
  show "api_frame ok ent job a a" for a by (simp add: api_frame_def)
  show "api_frame ok ent job a c" if "api_frame ok ent job a b" "api_frame ok ent job b c" for a b c
    using that grows_trans [of "ent (aw_queue a)" "ent (aw_queue b)" "ent (aw_queue c)"] by (auto simp: api_frame_def)
qed

definition queue_grows where
  "queue_grows ok ent s s' \<longleftrightarrow> (ok s \<longrightarrow> ok s' \<and> grows (ent s) (ent s'))"

interpretation qg: world_order "queue_grows ok ent" for ok ent
  by unfold_locales (auto simp: queue_grows_def grows_def)

lemma af_tasks: "guarantees (queue_grows ok ent) m \<Longrightarrow> guarantees (api_frame ok ent job) (on_tasks m)"
  by (auto simp: guarantees_def api_frame_def queue_grows_def on_tasks_def split_def Let_def)

lemma af_fault: "guarantees (api_frame ok ent job) m \<Longrightarrow> guarantees (api_frame ok ent job) (with_fault fo m)"
  by (auto simp: guarantees_def with_fault_def af.refl split: option.split fault.split)

context stream_server
begin

lemma qg_ops: "guarantees (queue_grows ok ent) (xadd ops st f)" "guarantees (queue_grows ok ent) (xlen ops st)"
  using xadd_ok xadd_grows xlen_law unfolding guarantees_def queue_grows_def by (metis grows_refl prod.collapse)+

lemma af_admit: "aa_ops api = ops \<Longrightarrow> guarantees (api_frame ok ent job) (admit_and_enqueue api job pages fn tr)"
  unfolding admit_and_enqueue_def
proof (intro af.g_rules)
  assume o: "aa_ops api = ops"
  have "guarantees (api_frame ok ent job) (\<lambda>w. let (v, c) = evaluate (aa_admission api) pages lanes (aa_rate api) (aa_random api) (aw_now w) (aw_admission w)
          in (Inr v, w\<lparr>aw_admission := c\<rparr>))" for lanes
    by (auto simp: guarantees_def api_frame_def split: prod.split)
  then show "guarantees (api_frame ok ent job) (admit_pages api pages)"
    unfolding admit_pages_def o by (intro af_fault af.g_bind af_tasks qg.g_mapM qg_ops)
  show "guarantees (api_frame ok ent job) (write_job api job pages fn tr)"
    unfolding write_job_def by (intro af_fault af.g_modify) (simp add: api_frame_def init_job_def)
  have "guarantees (api_frame ok ent job) (on_tasks (enqueue_pages ops now job pages tr))" for now
    unfolding enqueue_pages_def by (intro af_tasks qg.g_rules qg.g_mapM qg_ops)
  then show "guarantees (api_frame ok ent job) (put_tasks api job pages tr)"
    unfolding put_tasks_def o by (simp add: guarantees_def)
qed

end

section \<open>The system\<close>

text \<open>
  The shared state, the entries that have been delivered to a consumer so far, and the pages of the jobs
  accepted so far. The last two are only there to speak about the history.
\<close>

record 's sys =
  sy_world :: "'s fleet"
  sy_admission :: "admission_hash cell"
  sy_delivered :: "(string \<times> entry_id) set"
  sy_pages :: "(string \<times> int) set"

definition api_view :: "'s sys \<Rightarrow> 's api_world" where
  "api_view x = \<lparr>aw_store = pw_store (fl_pages (sy_world x)), aw_queue = fl_queue (sy_world x), aw_admission = sy_admission x,
     aw_disk = fl_disk (sy_world x), aw_now = pw_now (fl_pages (sy_world x))\<rparr>"

definition api_write :: "'s api_world \<Rightarrow> 's sys \<Rightarrow> 's sys" where
  "api_write a x = x\<lparr>sy_world := (sy_world x)\<lparr>fl_pages := (fl_pages (sy_world x))\<lparr>pw_store := aw_store a\<rparr>, fl_queue := aw_queue a,
     fl_disk := aw_disk a\<rparr>, sy_admission := aw_admission a\<rparr>"

definition task_entry :: "page_task \<Rightarrow> string \<times> entry_id" where
  "task_entry t = (pt_stream t, pt_entry_id t)"

text \<open>
  A handler gets a task from a read of new entries, which delivers each entry once, or from the
  worker's own pending list. The reaper gets its tasks by claiming. What the queue's commands for
  reading, claiming and renewing do between procedures is \<open>sys_queue\<close>: entries that decode stay.
\<close>

inductive sys_step ::
  "'s stream_ops \<Rightarrow> ('s \<Rightarrow> bool) \<Rightarrow> ('s \<Rightarrow> string \<Rightarrow> entry_id \<Rightarrow> fields option) \<Rightarrow> 's sys \<Rightarrow> 's sys \<Rightarrow> bool"
  for ops ok ent where
  sys_submit: "aa_ops api = ops \<Longrightarrow> redis_errors_only api \<Longrightarrow> 0 < se_result_ttl_s (aa_settings api) \<Longrightarrow> 0 \<le> pages \<Longrightarrow>
    job \<notin> fst ` sy_pages x \<Longrightarrow> admit_and_enqueue api job pages filename trace_id (api_view x) = (res, a) \<Longrightarrow>
    sys_step ops ok ent x ((api_write a x)\<lparr>sy_pages := sy_pages x \<union> (if isl res then {} else job_pages job pages)\<rparr>)"
| sys_handle: "wk_ops wk = ops \<Longrightarrow> pl_mortal (wk_pipeline wk) \<Longrightarrow> holds_entry ent t (fl_queue (sy_world x)) \<Longrightarrow>
    pt_recovered t \<or> task_entry t \<notin> sy_delivered x \<Longrightarrow> handle_page wk t (sy_world x) = (res, w) \<Longrightarrow>
    sys_step ops ok ent x (x\<lparr>sy_world := w, sy_delivered := insert (task_entry t) (sy_delivered x)\<rparr>)"
| sys_recover: "pl_alone pl \<Longrightarrow> holds_entry ent t (fl_queue (sy_world x)) \<Longrightarrow> recover se pl ops t (sy_world x) = (res, w) \<Longrightarrow>
    sys_step ops ok ent x (x\<lparr>sy_world := w, sy_delivered := insert (task_entry t) (sy_delivered x)\<rparr>)"
| sys_queue: "ok q \<Longrightarrow> (\<And>st n f. ent (fl_queue (sy_world x)) st n = Some f \<Longrightarrow> page_of f \<noteq> None \<Longrightarrow> ent q st n = Some f) \<Longrightarrow>
    sys_step ops ok ent x (x\<lparr>sy_world := (sy_world x)\<lparr>fl_queue := q\<rparr>, sy_delivered := sy_delivered x \<union> D\<rparr>)"
| sys_time: "pw_store p = pw_store (fl_pages (sy_world x)) \<Longrightarrow> pw_now (fl_pages (sy_world x)) \<le> pw_now p \<Longrightarrow>
    sys_step ops ok ent x (x\<lparr>sy_world := (sy_world x)\<lparr>fl_pages := p, fl_disk := d\<rparr>\<rparr>)"

inductive sys_reach ::
  "'s stream_ops \<Rightarrow> ('s \<Rightarrow> bool) \<Rightarrow> ('s \<Rightarrow> string \<Rightarrow> entry_id \<Rightarrow> fields option) \<Rightarrow> 's sys \<Rightarrow> bool"
  for ops ok ent where
  sys_start: "ok (fl_queue (sy_world x)) \<Longrightarrow> sy_pages x = {} \<Longrightarrow> sys_reach ops ok ent x"
| sys_more: "sys_reach ops ok ent x \<Longrightarrow> sys_step ops ok ent x y \<Longrightarrow> sys_reach ops ok ent y"

section \<open>No page is lost\<close>

definition stands_for where
  "stands_for ent s k e \<longleftrightarrow> fst e \<in> set STREAMS \<and> (\<exists>f. ent s (fst e) (snd e) = Some f \<and> page_of f = Some k)"

text \<open>
  A page is kept: its row has expired, or it is terminal, or it has an entry, and if somebody has
  claimed it, an entry that was delivered, which the reaper can claim when the claimant is dead.
\<close>

definition page_kept ::
  "('s \<Rightarrow> string \<Rightarrow> entry_id \<Rightarrow> fields option) \<Rightarrow> (string \<times> entry_id) set \<Rightarrow> string \<times> int \<Rightarrow> 's fleet \<Rightarrow> bool" where
  "page_kept ent D k w \<longleftrightarrow>
     (case cur (fst k) (snd k) (fl_pages w) of
        None \<Rightarrow> True
      | Some c \<Rightarrow> c \<in> set TERMINAL_STATES
          \<or> (\<exists>e. stands_for ent (fl_queue w) k e) \<and> (c \<in> set RUNNING_STATES \<longrightarrow> (\<exists>e \<in> D. stands_for ent (fl_queue w) k e)))"

lemma queued_stands: "queued (ent s) k \<longleftrightarrow> (\<exists>e. stands_for ent s k e)"
  by (auto simp: queued_def stands_for_def)

lemma holds_stands: "holds_entry ent t s \<longleftrightarrow> stands_for ent s (pt_job_id t, pt_page_index t) (task_entry t)"
  by (simp add: holds_entry_def stands_for_def task_entry_def)

lemma page_kept_mono:
  assumes "page_kept ent D k w" and "D \<subseteq> D'"
    and "cur (fst k) (snd k) (fl_pages w') = None \<or> cur (fst k) (snd k) (fl_pages w') = cur (fst k) (snd k) (fl_pages w)"
    and "\<And>e. stands_for ent (fl_queue w) k e \<Longrightarrow> stands_for ent (fl_queue w') k e"
  shows "page_kept ent D' k w'"
  using assms unfolding page_kept_def by (auto split: option.splits) blast+

lemma page_kept_other:
  assumes "fleet_frame ok ent t w w'" "ok (fl_queue w)" "holds_entry ent t (fl_queue w)" "k \<noteq> (pt_job_id t, pt_page_index t)" "page_kept ent D k w"
  shows "page_kept ent (insert e D) k w'"
proof (rule page_kept_mono [OF assms(5)])
  show "cur (fst k) (snd k) (fl_pages w') = None \<or> cur (fst k) (snd k) (fl_pages w') = cur (fst k) (snd k) (fl_pages w)"
    using assms(1,4) by (cases k) (simp add: fleet_frame_def page_frame_def)
  fix e' assume e': "stands_for ent (fl_queue w) k e'"
  have "e' \<noteq> task_entry t" using e' assms(3,4) by (auto simp: holds_stands stands_for_def)
  then show "stands_for ent (fl_queue w') k e'"
    using e' assms(1,2) by (cases e') (auto simp: fleet_frame_def entries_kept_def stands_for_def task_entry_def)
qed blast

lemma page_kept_own:
  assumes "fleet_frame ok ent t w w'" "k = (pt_job_id t, pt_page_index t)"
    and "\<And>c. cur (fst k) (snd k) (fl_pages w) = Some c \<Longrightarrow> not_stranded ent t w' \<or> (\<exists>e \<in> D. stands_for ent (fl_queue w') k e)"
  shows "page_kept ent (insert (task_entry t) D) k w'"
proof (cases "cur (fst k) (snd k) (fl_pages w)")
  case None
  then have "cur (fst k) (snd k) (fl_pages w') = None" using assms(1,2) by (simp add: fleet_frame_def page_frame_def)
  then show ?thesis by (simp add: page_kept_def)
next
  case (Some c)
  from assms(3) [OF this] show ?thesis
    using assms(2) by (auto simp: page_kept_def not_stranded_def holds_stands queued_stands split: option.split
        simp del: set_TERMINAL_STATES set_RUNNING_STATES)
qed

lemma cur_later:
  assumes "pw_store p' = pw_store p" "pw_now p \<le> pw_now p'"
  shows "cur j n p' = None \<or> cur j n p' = cur j n p"
  using assms by (auto simp: cur_def page_st_def get_page_def get_live_def expired_def split: option.splits if_splits)

definition sys_inv :: "('s \<Rightarrow> bool) \<Rightarrow> ('s \<Rightarrow> string \<Rightarrow> entry_id \<Rightarrow> fields option) \<Rightarrow> 's sys \<Rightarrow> bool" where
  "sys_inv ok ent x \<longleftrightarrow> ok (fl_queue (sy_world x)) \<and> (\<forall>k \<in> sy_pages x. page_kept ent (sy_delivered x) k (sy_world x))"

context stream_server
begin

lemma inv_procedure:
  assumes "sys_inv ok ent x" and "fleet_frame ok ent t (sy_world x) w" and "holds_entry ent t (fl_queue (sy_world x))"
    and "\<And>c. cur (pt_job_id t) (pt_page_index t) (fl_pages (sy_world x)) = Some c \<Longrightarrow> (pt_job_id t, pt_page_index t) \<in> sy_pages x \<Longrightarrow>
       not_stranded ent t w \<or> (\<exists>e \<in> sy_delivered x. stands_for ent (fl_queue w) (pt_job_id t, pt_page_index t) e)"
  shows "sys_inv ok ent (x\<lparr>sy_world := w, sy_delivered := insert (task_entry t) (sy_delivered x)\<rparr>)"
proof -
  have ok: "ok (fl_queue (sy_world x))" using assms(1) by (simp add: sys_inv_def)
  have "page_kept ent (insert (task_entry t) (sy_delivered x)) k w" if "k \<in> sy_pages x" for k
    using page_kept_other [OF assms(2) ok assms(3)] page_kept_own [OF assms(2)] assms(1,4) that
    by (cases "k = (pt_job_id t, pt_page_index t)") (auto simp: sys_inv_def)
  then show ?thesis using assms(2) ok by (auto simp: sys_inv_def fleet_frame_def)
qed

lemma inv_handle:
  assumes "sys_inv ok ent x" and "wk_ops wk = ops" "pl_mortal (wk_pipeline wk)" "holds_entry ent t (fl_queue (sy_world x))"
    and "pt_recovered t \<or> task_entry t \<notin> sy_delivered x" and run: "handle_page wk t (sy_world x) = (res, w)"
  shows "sys_inv ok ent (x\<lparr>sy_world := w, sy_delivered := insert (task_entry t) (sy_delivered x)\<rparr>)"
proof -
  let ?k = "(pt_job_id t, pt_page_index t)"
  have ok: "ok (fl_queue (sy_world x))" using assms(1) by (simp add: sys_inv_def)
  have fr: "fleet_frame ok ent t (sy_world x) w" by (rule guaranteesD [OF ff_handle [OF assms(2) mortal_alone [OF assms(3)]] run])
  show ?thesis
  proof (rule inv_procedure [OF assms(1) fr assms(4)])
    fix c assume c: "cur (pt_job_id t) (pt_page_index t) (fl_pages (sy_world x)) = Some c" and k: "?k \<in> sy_pages x"
    show "not_stranded ent t w \<or> (\<exists>e \<in> sy_delivered x. stands_for ent (fl_queue w) ?k e)"
    proof (cases "c \<in> set RUNNING_STATES \<and> \<not> pt_recovered t")
      case False
      then show ?thesis using wpD [OF handle_safe [OF assms(2,3) ok assms(4) c] run] by blast
    next
      case True
      then have "c \<notin> set TERMINAL_STATES" by auto
      then obtain e where e: "e \<in> sy_delivered x" "stands_for ent (fl_queue (sy_world x)) ?k e"
        using assms(1) c k True by (auto simp: sys_inv_def page_kept_def simp del: set_TERMINAL_STATES set_RUNNING_STATES dest!: bspec [OF _ k])
      then have "e \<noteq> task_entry t" using assms(5) True by blast
      then have "stands_for ent (fl_queue w) ?k e"
        using e(2) fr ok by (cases e) (auto simp: fleet_frame_def entries_kept_def stands_for_def task_entry_def)
      then show ?thesis using e(1) by blast
    qed
  qed
qed

lemma inv_submit:
  assumes "sys_inv ok ent x" and api: "aa_ops api = ops" "redis_errors_only api" "0 < se_result_ttl_s (aa_settings api)" "0 \<le> pages"
    and "job \<notin> fst ` sy_pages x" and run: "admit_and_enqueue api job pages fn tr (api_view x) = (res, a)"
  shows "sys_inv ok ent ((api_write a x)\<lparr>sy_pages := sy_pages x \<union> (if isl res then {} else job_pages job pages)\<rparr>)"
proof -
  let ?w = "sy_world (api_write a x)"
  have w: "fl_queue ?w = aw_queue a" "pw_now (fl_pages ?w) = pw_now (fl_pages (sy_world x))" "pw_store (fl_pages ?w) = aw_store a"
    "sy_delivered (api_write a x) = sy_delivered x" by (simp_all add: api_write_def)
  have v: "aw_queue (api_view x) = fl_queue (sy_world x)" "aw_store (api_view x) = pw_store (fl_pages (sy_world x))"
    "aw_now (api_view x) = pw_now (fl_pages (sy_world x))" by (simp_all add: api_view_def)
  have ok: "ok (aw_queue (api_view x))" using assms(1) v by (simp add: sys_inv_def)
  have fr: "api_frame ok ent job (api_view x) a" by (rule guaranteesD [OF af_admit [OF api(1)] run])
  have old: "page_kept ent (sy_delivered x) k ?w" if k: "k \<in> sy_pages x" for k
  proof (rule page_kept_mono)
    show "page_kept ent (sy_delivered x) k (sy_world x)" using assms(1) k by (simp add: sys_inv_def)
    have "fst k \<noteq> job" using k assms(6) by auto
    then show "cur (fst k) (snd k) (fl_pages ?w) = None \<or> cur (fst k) (snd k) (fl_pages ?w) = cur (fst k) (snd k) (fl_pages (sy_world x))"
      using fr v by (cases k) (simp add: cur_def page_st_def get_page_def w api_frame_def)
    show "stands_for ent (fl_queue (sy_world x)) k e \<Longrightarrow> stands_for ent (fl_queue ?w) k e" for e
      using fr ok growsD unfolding api_frame_def v w stands_for_def by metis
  qed simp
  have new: "page_kept ent (sy_delivered x) (job, n) ?w" if "res = Inr r" "0 \<le> n" "n < pages" for r n
  proof -
    have "section_post ent (ac_high (aa_admission api)) job pages tr (api_view x) res a"
      by (rule wpD [OF section_spec [OF api(1-3) ok api(4)] run])
    then have "page_st (aw_now a) (aw_store a) job n = Some PENDING" "\<exists>i. ent (aw_queue a) (lane_of n) i = Some (page_fields job n (aw_now a) tr)"
      "aw_now a = aw_now (api_view x)" using that by (auto simp: section_post_def job_whole_def)
    then obtain i where i: "cur job n (fl_pages ?w) = Some PENDING" "ent (fl_queue ?w) (lane_of n) i = Some (page_fields job n (aw_now a) tr)"
      using v w by (auto simp: cur_def)
    have "stands_for ent (fl_queue ?w) (job, n) (lane_of n, i)"
      using i(2) by (simp add: stands_for_def lane_of_def STREAMS_def)
    then show ?thesis using i(1) by (auto simp: page_kept_def)
  qed
  have "ok (aw_queue a)" using fr ok by (simp add: api_frame_def)
  then show ?thesis using old new w by (cases res) (auto simp: sys_inv_def job_pages_def)
qed

lemma inv_step:
  assumes "sys_step ops ok ent x y" and inv: "sys_inv ok ent x"
  shows "sys_inv ok ent y"
  using assms(1)
proof cases
  case (sys_submit api pages job filename trace_id res a)
  then show ?thesis using inv_submit [OF inv] by blast
next
  case (sys_handle wk t res w)
  then show ?thesis using inv_handle [OF inv] by blast
next
  case (sys_recover pl t se res w)
  have ok: "ok (fl_queue (sy_world x))" using inv by (simp add: sys_inv_def)
  have "not_stranded ent t w" if "cur (pt_job_id t) (pt_page_index t) (fl_pages (sy_world x)) = Some c" for c
    using wpD [OF recover_safe [OF sys_recover(2) ok sys_recover(3) that] sys_recover(4)] by blast
  then show ?thesis
    unfolding sys_recover(1) using inv_procedure [OF inv guaranteesD [OF ff_recover [OF sys_recover(2)] sys_recover(4)] sys_recover(3)] by blast
next
  case (sys_queue q D)
  have "page_kept ent (sy_delivered x \<union> D) k (sy_world x\<lparr>fl_queue := q\<rparr>)" if "k \<in> sy_pages x" for k
    by (rule page_kept_mono [of ent "sy_delivered x" k "sy_world x"])
      (use inv that sys_queue(3) in \<open>auto simp: sys_inv_def stands_for_def\<close>)
  then show ?thesis using sys_queue by (simp add: sys_inv_def)
next
  case (sys_time p d)
  have "page_kept ent (sy_delivered x) k (sy_world x\<lparr>fl_pages := p, fl_disk := d\<rparr>)" if "k \<in> sy_pages x" for k
    by (rule page_kept_mono [of ent "sy_delivered x" k "sy_world x"])
      (use inv that cur_later [OF sys_time(2,3)] in \<open>auto simp: sys_inv_def\<close>)
  then show ?thesis using sys_time inv by (simp add: sys_inv_def)
qed

lemma inv_reach: "sys_reach ops ok ent x \<Longrightarrow> sys_inv ok ent x"
  by (induction rule: sys_reach.induct) (simp add: sys_inv_def, rule inv_step)

end


section \<open>A worker that dies\<close>

text \<open>A job of two pages is submitted, and the worker that takes the first dies before it commits the layout.\<close>

definition dying_worker :: "mem_server worker" where
  "dying_worker = demo_worker\<lparr>wk_pipeline := demo_pipeline\<lparr>pl_env :=
     (\<lambda>n p. (if n \<ge> 2 then Some (Lost_Request CancelledError) else None, p))\<rparr>\<rparr>"

definition sys_zero :: "mem_server sys" where
  "sys_zero = \<lparr>sy_world = demo_fleet\<lparr>fl_pages := demo_pworld\<lparr>pw_store := empty_store, pw_now := 50\<rparr>, fl_queue := empty_mem\<rparr>,
     sy_admission = None, sy_delivered = {}, sy_pages = {}\<rparr>"

definition sys_one :: "mem_server sys" where
  "sys_one = (api_write (snd (admit_and_enqueue demo_api ''j'' 2 [] ''tr'' (api_view sys_zero))) sys_zero)
     \<lparr>sy_pages := sy_pages sys_zero \<union> job_pages ''j'' 2\<rparr>"

definition sys_two :: "mem_server sys" where
  "sys_two = sys_one\<lparr>sy_world := snd (handle_page dying_worker demo_task (sy_world sys_one)),
     sy_delivered := insert (task_entry demo_task) (sy_delivered sys_one)\<rparr>"

lemma dying_mortal: "pl_mortal (wk_pipeline dying_worker)" "wk_ops dying_worker = mem_ops"
  by (simp_all add: pl_mortal_def dying_worker_def demo_pipeline_def demo_worker_def)

lemma sys_one_reached: "sys_reach mem_ops mem_ok mem_ent sys_one"
proof -
  have z: "sys_reach mem_ops mem_ok mem_ent sys_zero"
    by (rule sys_start) (simp_all add: sys_zero_def mem_ok_def empty_mem_def)
  have a: "\<not> isl (fst (admit_and_enqueue demo_api ''j'' 2 [] ''tr'' (api_view sys_zero)))" by code_simp
  have "sys_step mem_ops mem_ok mem_ent sys_zero
      ((api_write (snd (admit_and_enqueue demo_api ''j'' 2 [] ''tr'' (api_view sys_zero))) sys_zero)\<lparr>sy_pages := sy_pages sys_zero \<union>
         (if isl (fst (admit_and_enqueue demo_api ''j'' 2 [] ''tr'' (api_view sys_zero))) then {} else job_pages ''j'' 2)\<rparr>)"
    by (rule sys_submit [OF _ demo_redis demo_ttl _ _ prod.collapse [symmetric]]) (simp_all add: demo_api_def sys_zero_def)
  then show ?thesis using sys_more [OF z] a by (simp add: sys_one_def)
qed

lemma sys_one_holds: "holds_entry mem_ent demo_task (fl_queue (sy_world sys_one))"
proof -
  have "mem_ent (fl_queue (sy_world sys_one)) LEAD_STREAM ''1'' = Some (page_fields ''j'' 0 50 ''tr'')" by code_simp
  then show ?thesis by (simp add: holds_entry_def demo_task_def STREAMS_def)
qed

lemma sys_two_reached: "sys_reach mem_ops mem_ok mem_ent sys_two"
  unfolding sys_two_def
  by (rule sys_more [OF sys_one_reached sys_handle [OF dying_mortal(2,1) sys_one_holds _ prod.collapse [symmetric]]])
    (simp add: sys_one_def sys_zero_def api_write_def)



end
