(* ===== verification/Pdf_Fixture.thy ===== *)
theory Pdf_Fixture
  imports Mock_Payloads
begin

text \<open>
  The generator of large documents for the benchmark, \<^verbatim>\<open>src/bench/make_pdf.py\<close>: a PDF file put together
  byte by byte, with a cross-reference table of offsets. Bytes are characters; the text on the pages
  is drawn from the pseudo-random generator of \<open>Mock_Payloads\<close>, whose state is an argument.
\<close>

section \<open>Objects\<close>

definition NL :: string where "NL = [CHR 0x0A]"

definition ALPHABET :: string where
  "ALPHABET = ''abcdefghijklmnopqrstuvwxyzABCDEFGHIJKLMNOPQRSTUVWXYZ0123456789 ''"

definition text_line :: "'g rng \<Rightarrow> 'g \<Rightarrow> string \<times> 'g" where
  "text_line R g = (let (body, g') = draws 60 (choice R ALPHABET) g in (''('' @ body @ '') Tj T*'' @ NL, g'))"

definition page_text :: "'g rng \<Rightarrow> nat \<Rightarrow> 'g \<Rightarrow> string \<times> 'g" where
  "page_text R ops g = (let (rows, g') = draws ops (text_line R) g
     in (''BT /F1 9 Tf 12 TL 40 750 Td'' @ NL @ concat rows @ ''ET'', g'))"

definition stream_object :: "string \<Rightarrow> string" where
  "stream_object content =
     ''<< /Length '' @ str_nat (length content) @ '' >>'' @ NL @ ''stream'' @ NL @ content @ NL @ ''endstream''"

definition page_object :: "nat \<Rightarrow> nat \<Rightarrow> string" where
  "page_object font_num stream_num =
     ''<< /Type /Page /Parent 2 0 R /MediaBox [0 0 612 792] /Resources << /Font << /F1 '' @ str_nat font_num
       @ '' 0 R >> >> /Contents '' @ str_nat stream_num @ '' 0 R >>''"

text \<open>The loop over the pages: two objects each, numbered from one in the order they are added.\<close>

fun add_pages :: "'g rng \<Rightarrow> nat \<Rightarrow> nat \<Rightarrow> nat \<Rightarrow> string list \<Rightarrow> nat list \<Rightarrow> 'g \<Rightarrow> string list \<times> nat list" where
  "add_pages R ops font_num 0 objects kids g = (objects, kids)"
| "add_pages R ops font_num (Suc n) objects kids g =
     (let (content, g') = page_text R ops g;
          objects1 = objects @ [stream_object content];
          stream_num = length objects1;
          objects2 = objects1 @ [page_object font_num stream_num]
      in add_pages R ops font_num n objects2 (kids @ [length objects2]) g')"

definition build_objects :: "'g rng \<Rightarrow> 'g \<Rightarrow> int \<Rightarrow> int \<Rightarrow> string list" where
  "build_objects R g pages kb_per_page =
     (let (row, g1) = text_line R g;
          ops_per_page = nat (max 1 (kb_per_page * 1024 div int (length row)));
          (objects, kids) = add_pages R ops_per_page 3 (nat pages)
             [[], [], ''<< /Type /Font /Subtype /Type1 /BaseFont /Helvetica >>''] [] g1;
          catalog = ''<< /Type /Catalog /Pages 2 0 R >>'';
          tree = ''<< /Type /Pages /Count '' @ str_int pages @ '' /Kids ['' @ join '' '' (map (\<lambda>k. str_nat k @ '' 0 R'') kids) @ ''] >>''
      in objects[0 := catalog, 1 := tree])"

section \<open>The file\<close>

definition object_text :: "nat \<Rightarrow> string \<Rightarrow> string" where
  "object_text number body = str_nat number @ '' 0 obj'' @ NL @ body @ NL @ ''endobj'' @ NL"

fun write_objects :: "nat \<Rightarrow> string list \<Rightarrow> string \<Rightarrow> nat list \<Rightarrow> string \<times> nat list" where
  "write_objects number [] out offsets = (out, offsets)"
| "write_objects number (body # objects) out offsets =
     write_objects (Suc number) objects (out @ object_text number body) (offsets @ [length out])"

text \<open>\<^verbatim>\<open>f"{off:010d}"\<close>.\<close>

definition pad10 :: "nat \<Rightarrow> string" where
  "pad10 n = replicate (10 - length (str_nat n)) (CHR ''0'') @ str_nat n"

definition xref_row :: "nat \<Rightarrow> string" where
  "xref_row off = pad10 off @ '' 00000 n '' @ NL"

definition xref_head :: "string list \<Rightarrow> string" where
  "xref_head objects = ''xref'' @ NL @ ''0 '' @ str_nat (length objects + 1) @ NL"

definition free_row :: string where "free_row = ''0000000000 65535 f '' @ NL"

definition trailer :: "string list \<Rightarrow> nat \<Rightarrow> string" where
  "trailer objects xref_at = ''trailer'' @ NL @ ''<< /Size '' @ str_nat (length objects + 1) @ '' /Root 1 0 R >>'' @ NL
     @ ''startxref'' @ NL @ str_nat xref_at @ NL @ ''%%EOF'' @ NL"

definition pdf_file :: "string list \<Rightarrow> string" where
  "pdf_file objects =
     (let (out, offsets) = write_objects 1 objects (''%PDF-1.4'' @ NL) []; xref_at = length out
      in out @ xref_head objects @ free_row @ concat (map xref_row offsets) @ trailer objects xref_at)"

definition build :: "'g rng \<Rightarrow> 'g \<Rightarrow> int \<Rightarrow> int \<Rightarrow> string" where
  "build R g pages kb_per_page = pdf_file (build_objects R g pages kb_per_page)"

section \<open>Reading it back\<close>

text \<open>
  How a reader finds object \<open>n\<close>: the last lines give the place of the table, whose rows after the head
  line are twenty bytes each; the first ten of row \<open>n\<close> are the place of the object.
\<close>

definition xref_place :: "string \<Rightarrow> nat \<Rightarrow> nat \<Rightarrow> nat \<Rightarrow> nat option" where
  "xref_place file xref_at head n = py_nat (take 10 (drop (xref_at + head + 20 * n) file))"

definition starts_at :: "string \<Rightarrow> nat \<Rightarrow> string \<Rightarrow> bool" where
  "starts_at file place s \<longleftrightarrow> take (length s) (drop place file) = s"

lemma starts_at_append: "starts_at (a @ s @ b) (length a) s"
  by (simp add: starts_at_def)

lemma write_objects_spec:
  "write_objects n objects out offsets =
     (out @ concat (map (\<lambda>i. object_text (n + i) (objects ! i)) [0..<length objects]),
      offsets @ map (\<lambda>i. length out + length (concat (map (\<lambda>j. object_text (n + j) (objects ! j)) [0..<i]))) [0..<length objects])"
proof (induction objects arbitrary: n out offsets)
  case (Cons b objects)
  have "[0..<length (b # objects)] = 0 # map Suc [0..<length objects]" by (simp add: map_Suc_upt upt_conv_Cons del: upt_Suc)
  moreover have "[0..<Suc i] = 0 # map Suc [0..<i]" for i by (simp add: map_Suc_upt upt_conv_Cons del: upt_Suc)
  ultimately show ?case by (simp add: Cons.IH comp_def del: upt_Suc)
qed simp

lemma str_nat_length: "n < 10 ^ k \<Longrightarrow> 0 < k \<Longrightarrow> length (str_nat n) \<le> k"
proof (induction k arbitrary: n)
  case (Suc k)
  show ?case
  proof (cases "n < 10")
    case False
    then have "0 < k" using Suc.prems(1) by (cases k) auto
    then have "length (str_nat (n div 10)) \<le> k" using Suc.prems(1) by (intro Suc.IH) (auto simp: less_mult_imp_div_less mult.commute)
    then show ?thesis using False by (simp add: str_nat_step)
  qed (simp add: str_nat_small)
qed simp

lemma pad10_length: "n < 10 ^ 10 \<Longrightarrow> length (pad10 n) = 10"
  using str_nat_length [of n 10] by (simp add: pad10_def)

lemma pad10_reads: "py_nat (pad10 n) = Some n"
proof -
  have z: "foldl (\<lambda>a c. 10 * a + digit_val c) 0 (replicate k (CHR ''0'') @ s) = foldl (\<lambda>a c. 10 * a + digit_val c) 0 s" for k s
    by (induction k) (simp_all add: digit_val_def)
  have "list_all is_digit (pad10 n)" using str_nat_digits [of n] by (auto simp: pad10_def list_all_iff is_digit_def)
  moreover obtain c cs where "pad10 n = c # cs" using str_nat_digits [of n] by (cases "pad10 n") (auto simp: pad10_def)
  ultimately show ?thesis using z [of "10 - length (str_nat n)" "str_nat n"] foldl_str_nat [of n]
    by (simp add: dec_digits_foldl flip: pad10_def)
qed

lemma starts_at_later: "starts_at b place s \<Longrightarrow> starts_at (a @ b) (length a + place) s"
  by (simp add: starts_at_def)

lemma starts_at_longer: "starts_at a place s \<Longrightarrow> starts_at (a @ b) place s"
  unfolding starts_at_def by (metis append_assoc append_take_drop_id append_eq_conv_conj drop_append take_append take_take min.idem length_take)

lemma starts_at_concat: "k < length xs \<Longrightarrow> starts_at (concat xs) (length (concat (take k xs))) (xs ! k)"
  using starts_at_append [of "concat (take k xs)" "xs ! k" "concat (drop (Suc k) xs)"]
  by (metis concat.simps(2) concat_append id_take_nth_drop append_assoc)

lemma length_rows: "(\<And>x. x \<in> set xs \<Longrightarrow> length x = m) \<Longrightarrow> k \<le> length xs \<Longrightarrow> length (concat (take k xs)) = m * k"
proof (induction xs arbitrary: k)
  case (Cons x xs)
  then show ?case by (cases k) simp_all
qed simp

text \<open>
  The table of the document is exact. In a file of less than ten gigabytes the last lines name the
  place where the table starts, and for every object the row of the table with its number names the
  place where exactly that object, with that number, stands.
\<close>

theorem xref_table_exact:
  assumes "length (pdf_file objects) < 10 ^ 10" and "1 \<le> n" and "n \<le> length objects"
  shows "\<exists>pre xref_at place. pdf_file objects = pre @ ''startxref'' @ NL @ str_nat xref_at @ NL @ ''%%EOF'' @ NL
    \<and> starts_at (pdf_file objects) xref_at (xref_head objects)
    \<and> xref_place (pdf_file objects) xref_at (length (xref_head objects)) n = Some place
    \<and> starts_at (pdf_file objects) place (object_text n (objects ! (n - 1)))"
proof -
  define head where "head = ''%PDF-1.4'' @ NL"
  define parts where "parts = map (\<lambda>i. object_text (1 + i) (objects ! i)) [0..<length objects]"
  define out where "out = head @ concat parts"
  define offs where "offs = map (\<lambda>i. length head + length (concat (take i parts))) [0..<length objects]"
  have tk: "take i parts = map (\<lambda>j. object_text (1 + j) (objects ! j)) [0..<i]" if "i \<le> length objects" for i
    using that by (simp add: parts_def take_map)
  have w: "write_objects 1 objects head [] = (out, offs)"
    unfolding write_objects_spec out_def offs_def parts_def [symmetric] using tk by (auto simp: less_imp_le)
  define pdf where "pdf = out @ xref_head objects @ free_row @ concat (map xref_row offs) @ trailer objects (length out)"
  have f: "pdf_file objects = pdf" unfolding pdf_file_def pdf_def head_def [symmetric] w by simp
  have k: "n - 1 < length objects" "n - 1 < length parts" using assms(2,3) by (simp_all add: parts_def)
  let ?place = "offs ! (n - 1)"
  have place: "?place = length head + length (concat (take (n - 1) parts))" using k by (simp add: offs_def)
  have object: "starts_at pdf ?place (object_text n (objects ! (n - 1)))"
  proof -
    have "starts_at (concat parts) (length (concat (take (n - 1) parts))) (object_text n (objects ! (n - 1)))"
      using starts_at_concat [OF k(2)] k assms(2) by (simp add: parts_def)
    then show ?thesis unfolding pdf_def out_def place append_assoc
      by (intro starts_at_later starts_at_longer)
  qed
  have small: "off < 10 ^ 10" if "off \<in> set offs" for off
  proof -
    have "length (concat (take i parts)) \<le> length (concat parts)" for i by (metis append_take_drop_id concat_append length_append le_add1)
    then have "off \<le> length out" using that by (auto simp: offs_def out_def)
    also have "length out \<le> length (pdf_file objects)" by (simp add: f pdf_def)
    finally show ?thesis using assms(1) by simp
  qed
  have rows: "length r = 20" if "r \<in> set (free_row # map xref_row offs)" for r
    using that small pad10_length by (auto simp: free_row_def xref_row_def NL_def)
  have "starts_at (concat (free_row # map xref_row offs)) (20 * n) (xref_row ?place)"
    using starts_at_concat [of n "free_row # map xref_row offs"] length_rows [of "free_row # map xref_row offs" 20 n, OF rows] k assms(2,3)
    by (simp add: offs_def nth_Cons')
  from starts_at_longer [OF starts_at_later [OF this, of "out @ xref_head objects"], of "trailer objects (length out)"]
  have row: "starts_at pdf (length out + length (xref_head objects) + 20 * n) (xref_row ?place)" by (simp add: pdf_def)
  have "take 10 (xref_row ?place) = pad10 ?place" using pad10_length [of ?place] small k by (simp add: xref_row_def offs_def)
  moreover have "take 20 (drop (length out + length (xref_head objects) + 20 * n) pdf) = xref_row ?place"
    using row rows [of "xref_row ?place"] k by (simp add: starts_at_def offs_def)
  ultimately have "take 10 (drop (length out + length (xref_head objects) + 20 * n) pdf) = pad10 ?place"
    using take_take [of 10 20 "drop (length out + length (xref_head objects) + 20 * n) pdf"] by simp
  then have "xref_place pdf (length out) (length (xref_head objects)) n = Some ?place"
    unfolding xref_place_def using pad10_reads [of ?place] by simp
  moreover have "starts_at pdf (length out) (xref_head objects)" unfolding pdf_def by (rule starts_at_append)
  moreover have "\<exists>pre. pdf = pre @ ''startxref'' @ NL @ str_nat (length out) @ NL @ ''%%EOF'' @ NL"
    unfolding pdf_def trailer_def by (simp only: append_assoc [symmetric]) blast
  ultimately show ?thesis using object unfolding f by blast
qed

section \<open>The pages\<close>

lemma text_line_length: "length (fst (text_line R g)) = 69"
  by (simp add: text_line_def split_def Let_def draws_length NL_def)

lemma add_pages_spec:
  assumes "add_pages R ops font n objects kids g = (objects', kids')"
  shows "length objects' = length objects + 2 * n \<and> take (length objects) objects' = objects
    \<and> kids' = kids @ map (\<lambda>p. length objects + 2 * p + 2) [0..<n]
    \<and> (\<forall>p < n. objects' ! (length objects + 2 * p + 1) = page_object font (length objects + 2 * p + 1)
         \<and> (\<exists>content. objects' ! (length objects + 2 * p) = stream_object content \<and> length content = 30 + 69 * ops))"
  using assms
proof (induction n arbitrary: objects kids g)
  case (Suc n)
  obtain content g1 where c: "page_text R ops g = (content, g1)" by fastforce
  have len: "length content = 30 + 69 * ops"
  proof -
    have "length (concat (fst (draws m (text_line R) g'))) = 69 * m" for m g'
      by (induction m arbitrary: g') (simp_all add: split_def Let_def text_line_length)
    then show ?thesis using c by (auto simp: page_text_def split_def Let_def NL_def)
  qed
  let ?o = "objects @ [stream_object content, page_object font (Suc (length objects))]"
  have IH: "length objects' = length ?o + 2 * n \<and> take (length ?o) objects' = ?o
    \<and> kids' = (kids @ [length ?o]) @ map (\<lambda>p. length ?o + 2 * p + 2) [0..<n]
    \<and> (\<forall>p < n. objects' ! (length ?o + 2 * p + 1) = page_object font (length ?o + 2 * p + 1)
         \<and> (\<exists>content. objects' ! (length ?o + 2 * p) = stream_object content \<and> length content = 30 + 69 * ops))"
    by (rule Suc.IH) (use Suc.prems c in \<open>simp add: Let_def\<close>)
  have first: "objects' ! length objects = stream_object content" "objects' ! (length objects + 1) = page_object font (length objects + 1)"
    "take (length objects) objects' = objects"
    using IH nth_take [of "length objects" "length ?o" objects'] nth_take [of "length objects + 1" "length ?o" objects']
      take_take [of "length objects" "length ?o" objects'] by (simp_all add: nth_append)
  have rest: "objects' ! (length objects + 2 * p + 1) = page_object font (length objects + 2 * p + 1)
       \<and> (\<exists>content. objects' ! (length objects + 2 * p) = stream_object content \<and> length content = 30 + 69 * ops)" if "p < Suc n" for p
  proof (cases p)
    case (Suc q)
    then show ?thesis using IH that by (auto simp: algebra_simps dest!: spec [of _ q])
  qed (use first len in auto)
  have "[0..<Suc n] = 0 # map Suc [0..<n]" by (simp add: map_Suc_upt upt_conv_Cons del: upt_Suc)
  then show ?case using IH first(3) rest by (simp add: comp_def del: upt_Suc)
qed simp

text \<open>
  The document has the pages it claims. Besides catalog, page tree and font there are two objects
  per page; the tree counts the pages asked for and lists exactly the page objects, each of which
  refers to the content object before it, and that object declares the length its content has.
\<close>

theorem document_has_its_pages:
  assumes "0 \<le> pages"
  shows "length (build_objects R g pages kb) = 3 + 2 * nat pages
    \<and> build_objects R g pages kb ! 1 = ''<< /Type /Pages /Count '' @ str_int pages @ '' /Kids [''
         @ join '' '' (map (\<lambda>p. str_nat (2 * p + 5) @ '' 0 R'') [0..<nat pages]) @ ''] >>''
    \<and> (\<forall>p < nat pages. build_objects R g pages kb ! (2 * p + 5 - 1) = page_object 3 (2 * p + 4)
         \<and> (\<exists>content. build_objects R g pages kb ! (2 * p + 4 - 1) = stream_object content
              \<and> kb * 1024 < int (length content) + 39))"
proof -
  define ops where "ops = nat (max 1 (kb * 1024 div 69))"
  obtain objects kids where a: "add_pages R ops 3 (nat pages) [[], [], ''<< /Type /Font /Subtype /Type1 /BaseFont /Helvetica >>''] []
      (snd (text_line R g)) = (objects, kids)" by fastforce
  note spec = add_pages_spec [OF a]
  have b: "build_objects R g pages kb = objects[0 := ''<< /Type /Catalog /Pages 2 0 R >>'', 1 := ''<< /Type /Pages /Count '' @ str_int pages @ '' /Kids [''
         @ join '' '' (map (\<lambda>k. str_nat k @ '' 0 R'') kids) @ ''] >>'']"
    using a by (simp add: build_objects_def split_def Let_def text_line_length ops_def)
  have kb: "kb * 1024 < int (30 + 69 * ops) + 39"
  proof -
    have "kb * 1024 < 69 * (kb * 1024 div 69) + 69"
      using div_mult_mod_eq [of "kb * 1024" 69] pos_mod_bound [of 69 "kb * 1024"] by linarith
    moreover have "int ops = max 1 (kb * 1024 div 69)" by (simp add: ops_def)
    ultimately show ?thesis by linarith
  qed
  have kids: "map (\<lambda>k. str_nat k @ '' 0 R'') kids = map (\<lambda>p. str_nat (2 * p + 5) @ '' 0 R'') [0..<nat pages]"
    using spec by (auto simp: comp_def numeral_eq_Suc)
  have page: "build_objects R g pages kb ! (2 * p + 5 - 1) = page_object 3 (2 * p + 4)
         \<and> (\<exists>content. build_objects R g pages kb ! (2 * p + 4 - 1) = stream_object content \<and> kb * 1024 < int (length content) + 39)"
    if "p < nat pages" for p
  proof -
    have i: "2 * p + 5 - 1 = 3 + 2 * p + 1" "2 * p + 4 = 3 + 2 * p + 1" "2 * p + 4 - 1 = 3 + 2 * p" by simp_all
    have three: "length [[], [], ''<< /Type /Font /Subtype /Type1 /BaseFont /Helvetica >>''] = 3" by simp
    from spec that have "objects ! (3 + 2 * p + 1) = page_object 3 (3 + 2 * p + 1)"
      "\<exists>content. objects ! (3 + 2 * p) = stream_object content \<and> length content = 30 + 69 * ops" unfolding three by blast+
    moreover have "build_objects R g pages kb ! (3 + 2 * p + m) = objects ! (3 + 2 * p + m)" for m unfolding b by simp
    from this [of 1] this [of 0] have "build_objects R g pages kb ! (3 + 2 * p + 1) = objects ! (3 + 2 * p + 1)"
      "build_objects R g pages kb ! (3 + 2 * p) = objects ! (3 + 2 * p)" by simp_all
    ultimately show ?thesis using kb unfolding i add_diff_cancel_right' by metis
  qed
  have len: "length objects = 3 + 2 * nat pages" using spec by simp
  have "build_objects R g pages kb ! 1 = ''<< /Type /Pages /Count '' @ str_int pages @ '' /Kids [''
         @ join '' '' (map (\<lambda>p. str_nat (2 * p + 5) @ '' 0 R'') [0..<nat pages]) @ ''] >>''"
    unfolding b kids by (simp add: len)
  then show ?thesis using len page by (simp add: b)
qed

theorem document_has_its_pages_witness: "length (build_objects counting_rng 0 7 1) = 17"
  using document_has_its_pages [of 7 counting_rng 0 1] by simp

lemma demo_pdf_length: "length (pdf_file [''<< >>'', ''(a)'']) < 200"
  by code_simp

theorem xref_table_exact_witness:
  "\<exists>xref_at place. xref_place (pdf_file [''<< >>'', ''(a)'']) xref_at (length (xref_head [''<< >>'', ''(a)''])) 2 = Some place
     \<and> starts_at (pdf_file [''<< >>'', ''(a)'']) place (object_text 2 ''(a)'')"
proof -
  have "length (pdf_file [''<< >>'', ''(a)'']) < 10 ^ 10" using demo_pdf_length by simp
  from xref_table_exact [OF this, of 2] show ?thesis by auto
qed

end
