(* ===== verification/Sse_Wire.thy ===== *)
theory Sse_Wire
  imports Sse_Stream Page_Pipeline Metrics_Text "HOL-Library.AList"
begin

text \<open>
  What goes over the wire between the SSE endpoint and a client: the text of every frame
  (\<^verbatim>\<open>_frame\<close> and \<^verbatim>\<open>_heartbeat\<close> of \<^verbatim>\<open>src/app/api/stream.py\<close>, \<^verbatim>\<open>ResultEvent.sse\<close> of
  \<^verbatim>\<open>src/app/queue/results.py\<close>), and the client of the benchmark, \<^verbatim>\<open>run_job\<close> of \<^verbatim>\<open>src/bench/benchmark.py\<close>, which
  takes the text in chunks of any size, cuts it into frames and counts events. The text of a number
  (\<^verbatim>\<open>repr\<close>) is a parameter.
\<close>

section \<open>The text of a frame\<close>

definition LF :: char where "LF = CHR 0x0A"

definition STREAM_OPEN :: string where "STREAM_OPEN = ''stream.open''"
definition GAP :: string where "GAP = ''stream.gap''"

text \<open>\<^verbatim>\<open>json.dumps(value, separators=(",", ":"))\<close>.\<close>

primrec json_text :: "(real \<Rightarrow> string) \<Rightarrow> json \<Rightarrow> string" where
  "json_text num JNull = ''null''"
| "json_text num (JBool b) = (if b then ''true'' else ''false'')"
| "json_text num (JNum x) = num x"
| "json_text num (JStr s) = dumps_string s"
| "json_text num (JArr xs) = ''['' @ join '','' (map (json_text num) xs) @ '']''"
| "json_text num (JObj kvs) =
     ''{'' @ join '','' (map (\<lambda>(k, t). dumps_string k @ '':'' @ t) (map (map_prod id (json_text num)) kvs)) @ ''}''"

record wire =
  wi_num :: "real \<Rightarrow> string"
  wi_job :: string
  wi_trace :: string

definition json_opt :: "string option \<Rightarrow> json" where
  "json_opt v = (case v of None \<Rightarrow> JNull | Some s \<Rightarrow> JStr s)"

definition json_int :: "int \<Rightarrow> json" where
  "json_int n = JNum (of_int n)"

definition frame_of :: "wire \<Rightarrow> string \<Rightarrow> (string \<times> json) list \<Rightarrow> string" where
  "frame_of W event payload = ''event: '' @ event @ [LF] @ ''data: '' @ json_text (wi_num W) (JObj payload) @ [LF, LF]"

definition heartbeat_text :: "int \<Rightarrow> string" where
  "heartbeat_text now_ms = '': heartbeat '' @ str_int now_ms @ [LF, LF]"

text \<open>\<^verbatim>\<open>ResultEvent.sse\<close>; \<^const>\<open>None\<close> is the \<^verbatim>\<open>TypeError\<close> of unpacking data that is not a dictionary.\<close>

definition sse_text :: "wire \<Rightarrow> result_event \<Rightarrow> string option" where
  "sse_text W e =
     (case re_data e of
        JObj kvs \<Rightarrow>
          let body = AList.update ''stream_id'' (JStr (id_str (re_id e))) (AList.update ''seq'' (json_int (re_seq e)) kvs)
          in Some (''id: '' @ id_str (re_id e) @ [LF] @ ''event: '' @ re_event e @ [LF]
                   @ ''data: '' @ json_text (wi_num W) (JObj body) @ [LF, LF])
      | _ \<Rightarrow> None)"

fun gap_message :: "string \<Rightarrow> gap_reason \<Rightarrow> string" where
  "gap_message job Window_Trimmed =
     ''Events before window_lo were trimmed. Re-read GET /jobs/'' @ job @ '' for authoritative page state; page state is never trimmed.''"
| "gap_message job Duration_Limit = ''Stream duration limit reached; reconnect with Last-Event-ID to continue.''"
| "gap_message job Redis_Lost =
     ''The result stream became unavailable. Re-read GET /jobs/'' @ job @ '' for authoritative page state, then reconnect.''"

fun frame_text :: "wire \<Rightarrow> frame \<Rightarrow> string option" where
  "frame_text W (Retry_Frame ms) = Some (''retry: '' @ str_int ms @ [LF, LF])"
| "frame_text W (Open_Frame tot done_n cursor lo hi) = Some (frame_of W STREAM_OPEN
     [(''job_id'', JStr (wi_job W)), (''total_pages'', json_int tot), (''done'', json_int done_n),
      (''resumed_from'', json_opt cursor), (''window_lo'', json_opt lo), (''window_hi'', json_opt hi),
      (''trace_id'', JStr (wi_trace W))])"
| "frame_text W (Gap_Frame reason lo) = Some (frame_of W GAP
     [(''job_id'', JStr (wi_job W)), (''message'', JStr (gap_message (wi_job W) reason)), (''window_lo'', json_opt lo)])"
| "frame_text W (Event_Frame e) = sse_text W e"
| "frame_text W (Heartbeat now_ms) = Some (heartbeat_text now_ms)"
| "frame_text W (Derived_Complete tot done_n) = Some (frame_of W JOB_COMPLETE_EVENT
     [(''job_id'', JStr (wi_job W)), (''total_pages'', json_int tot), (''done'', json_int done_n), (''derived'', JBool True)])"

fun event_name :: "frame \<Rightarrow> string" where
  "event_name (Open_Frame _ _ _ _ _) = STREAM_OPEN"
| "event_name (Gap_Frame _ _) = GAP"
| "event_name (Event_Frame e) = re_event e"
| "event_name (Derived_Complete _ _) = JOB_COMPLETE_EVENT"
| "event_name _ = []"

section \<open>The client\<close>

text \<open>\<^verbatim>\<open>"\n\n" in buffer\<close> and \<^verbatim>\<open>buffer.split("\n\n", 1)\<close>.\<close>

fun split_frame :: "string \<Rightarrow> (string \<times> string) option" where
  "split_frame [] = None"
| "split_frame [c] = None"
| "split_frame (c # d # ds) =
     (if c = LF \<and> d = LF then Some ([], ds) else map_option (\<lambda>(raw, rest). (c # raw, rest)) (split_frame (d # ds)))"

lemma split_frame_shorter: "split_frame s = Some (raw, rest) \<Longrightarrow> length rest < length s"
  by (induction s arbitrary: raw rule: split_frame.induct) (fastforce split: if_splits)+

text \<open>The inner \<^verbatim>\<open>while\<close>: the frames in the buffer, and what is left of it.\<close>

function frames_in :: "string \<Rightarrow> string list \<times> string" where
  "frames_in buffer =
     (case split_frame buffer of
        None \<Rightarrow> ([], buffer)
      | Some (raw, rest) \<Rightarrow> (let (raws, b) = frames_in rest in (raw # raws, b)))"
  by pat_completeness auto
termination by (relation "measure length") (auto simp: split_frame_shorter)

declare frames_in.simps [simp del]

text \<open>\<^verbatim>\<open>str.splitlines\<close>, on characters up to 255.\<close>

definition is_break :: "char \<Rightarrow> bool" where
  "is_break c \<longleftrightarrow> (of_char c :: nat) \<in> {10, 11, 12, 13, 28, 29, 30, 133}"

fun splitlines_from :: "string \<Rightarrow> string \<Rightarrow> string list" where
  "splitlines_from acc [] = (if acc = [] then [] else [acc])"
| "splitlines_from acc (c # cs) =
     (if is_break c
      then acc # splitlines_from [] (if c = CHR 0x0D \<and> take 1 cs = [LF] then tl cs else cs)
      else splitlines_from (acc @ [c]) cs)"

definition splitlines :: "string \<Rightarrow> string list" where
  "splitlines s = splitlines_from [] s"

definition frame_event :: "string \<Rightarrow> string" where
  "frame_event raw = fold (\<lambda>row event. if take 7 row = ''event: '' then drop 7 row else event) (splitlines raw) []"

record job_result =
  jr_job_id :: string
  jr_pages :: int
  jr_submitted_at :: real
  jr_post_ms :: real
  jr_connect_ms :: real
  jr_first_byte_ms :: real
  jr_ttfp_ms :: real
  jr_first_event :: string
  jr_partials :: nat
  jr_finals :: nat
  jr_complete :: bool
  jr_page_latencies_ms :: "real list"
  jr_error :: string

text \<open>Every reading of the clock is the next value of \<open>clk\<close>; the counter is passed along.\<close>

definition since :: "(nat \<Rightarrow> real) \<Rightarrow> real \<Rightarrow> nat \<Rightarrow> real" where
  "since clk started n = (clk n - started) * 1000"

definition on_event :: "(nat \<Rightarrow> real) \<Rightarrow> real \<Rightarrow> string \<Rightarrow> job_result \<times> nat \<Rightarrow> job_result \<times> nat" where
  "on_event clk started event rn =
     (let (r, n) = rn;
          r1 = (if jr_first_event r = [] \<and> event \<noteq> [] then r\<lparr>jr_first_event := event\<rparr> else r);
          (r2, n2) = (if event \<in> {PAGE_PARTIAL, PAGE_FINAL} \<and> jr_ttfp_ms r1 = 0
                      then (r1\<lparr>jr_ttfp_ms := since clk started n\<rparr>, Suc n) else (r1, n))
      in if event = PAGE_PARTIAL then (r2\<lparr>jr_partials := jr_partials r2 + 1\<rparr>, n2)
         else if event = PAGE_FINAL
         then (r2\<lparr>jr_finals := jr_finals r2 + 1,
                 jr_page_latencies_ms := jr_page_latencies_ms r2 @ [since clk started n2]\<rparr>, Suc n2)
         else if event = JOB_COMPLETE_EVENT then (r2\<lparr>jr_complete := True\<rparr>, n2)
         else (r2, n2))"

definition stream_failed :: "exc \<Rightarrow> job_result \<Rightarrow> exc + job_result" where
  "stream_failed e r = (if is_Exception e then Inr (r\<lparr>jr_error := ''stream: '' @ exc_type e\<rparr>) else Inl e)"

text \<open>The chunks that arrive, and the exception that ends the stream if it does not end by itself.\<close>

fun read_stream ::
  "(nat \<Rightarrow> real) \<Rightarrow> real \<Rightarrow> exc option \<Rightarrow> string list \<Rightarrow> bool \<Rightarrow> string \<Rightarrow> job_result \<times> nat \<Rightarrow> exc + job_result" where
  "read_stream clk started ending [] seen_first buffer (r, n) =
     (case ending of None \<Rightarrow> Inr r | Some e \<Rightarrow> stream_failed e r)"
| "read_stream clk started ending (chunk # chunks) seen_first buffer (r, n) =
     (let (r1, n1) = (if seen_first then (r, n) else (r\<lparr>jr_first_byte_ms := since clk started n\<rparr>, Suc n));
          (raws, buffer') = frames_in (buffer @ chunk);
          (r2, n2) = fold (on_event clk started) (map frame_event raws) (r1, n1)
      in if jr_complete r2 then Inr r2 else read_stream clk started ending chunks True buffer' (r2, n2))"

text \<open>
  \<open>post\<close> is what the submission gives: an exception, or the status and what \<^verbatim>\<open>response.json()["job_id"]\<close>
  gives; \<open>stream\<close> is an exception on opening, or the chunks and the end.
\<close>

definition run_job ::
  "(nat \<Rightarrow> real) \<Rightarrow> int \<Rightarrow> exc + int \<times> (exc + string) \<Rightarrow> exc + string list \<times> exc option \<Rightarrow> exc + job_result" where
  "run_job clk pages post stream =
     (let started = clk 0;
          result = \<lparr>jr_job_id = [], jr_pages = pages, jr_submitted_at = started, jr_post_ms = 0, jr_connect_ms = 0,
            jr_first_byte_ms = 0, jr_ttfp_ms = 0, jr_first_event = [], jr_partials = 0, jr_finals = 0,
            jr_complete = False, jr_page_latencies_ms = [], jr_error = []\<rparr>;
          submit_failed = (\<lambda>e r. if is_Exception e then Inr (r\<lparr>jr_error := ''submit: '' @ exc_type e\<rparr>) else Inl e)
      in case post of
           Inl e \<Rightarrow> submit_failed e result
         | Inr (status, body) \<Rightarrow>
             let result1 = result\<lparr>jr_post_ms := since clk started 1\<rparr>
             in if status = 503 then Inr (result1\<lparr>jr_error := ''shed''\<rparr>)
                else if status < 200 \<or> 300 \<le> status then submit_failed (HTTPStatusError status []) result1
                else (case body of
                        Inl e \<Rightarrow> submit_failed e result1
                      | Inr job \<Rightarrow>
                          let result2 = result1\<lparr>jr_job_id := job\<rparr>; connect_started = clk 2
                          in case stream of
                               Inl e \<Rightarrow> stream_failed e result2
                             | Inr (chunks, ending) \<Rightarrow>
                                 read_stream clk started ending chunks False []
                                   (result2\<lparr>jr_connect_ms := since clk connect_started 3\<rparr>, 4)))"

section \<open>Frames do not run into each other\<close>

lemma split_frame_more: "split_frame s = Some (raw, rest) \<Longrightarrow> split_frame (s @ t) = Some (raw, rest @ t)"
  by (induction s arbitrary: raw rule: split_frame.induct) (fastforce split: if_splits)+

lemma frames_in_none: "split_frame s = None \<Longrightarrow> frames_in s = ([], s)"
  by (simp add: frames_in.simps)

lemma frames_in_left: "split_frame (snd (frames_in s)) = None"
proof (induction s rule: frames_in.induct)
  case (1 s)
  then show ?case by (subst frames_in.simps) (simp split: option.split prod.split, metis snd_conv)
qed

text \<open>Cutting a text in two and reading the parts one after the other gives the frames of the whole.\<close>

lemma frames_in_append:
  "frames_in (s @ t) = (let (raws, b) = frames_in s; (raws', b') = frames_in (b @ t) in (raws @ raws', b'))"
proof (induction s rule: frames_in.induct)
  case (1 s)
  show ?case
  proof (cases "split_frame s")
    case None
    then show ?thesis by (simp add: frames_in_none Let_def split_def)
  next
    case (Some p)
    obtain raw rest where p: "p = (raw, rest)" by fastforce
    have "frames_in (s @ t) = (let (raws, b) = frames_in (rest @ t) in (raw # raws, b))"
      using split_frame_more [of s raw rest t] Some p by (subst frames_in.simps) simp
    moreover have "frames_in s = (let (raws, b) = frames_in rest in (raw # raws, b))"
      using Some p by (subst frames_in.simps) simp
    ultimately show ?thesis using "1.IH" [OF Some p [symmetric]] by (simp add: Let_def split_def)
  qed
qed


definition unbroken :: "string \<Rightarrow> bool" where
  "unbroken s \<longleftrightarrow> list_all (\<lambda>c. \<not> is_break c) s"

lemma unbroken_simps [simp]: "unbroken []" "unbroken (c # s) \<longleftrightarrow> \<not> is_break c \<and> unbroken s" "unbroken (s @ t) \<longleftrightarrow> unbroken s \<and> unbroken t"
  by (simp_all add: unbroken_def)

lemma LF_break [simp]: "is_break LF"
  by (simp add: is_break_def LF_def)

lemma LF_not_CR [simp]: "LF \<noteq> CHR 0x0D"
  by (simp add: LF_def)

lemma splitlines_unbroken: "unbroken s \<Longrightarrow> splitlines_from acc s = (if acc @ s = [] then [] else [acc @ s])"
  by (induction s arbitrary: acc) simp_all

lemma splitlines_line: "unbroken s \<Longrightarrow> splitlines_from acc (s @ LF # t) = (acc @ s) # splitlines_from [] t"
  by (induction s arbitrary: acc) simp_all

text \<open>A text of clean lines, none of them empty, has no frame in it, and the blank line behind it ends one.\<close>

lemma split_frame_line:
  "unbroken s \<Longrightarrow> s \<noteq> [] \<Longrightarrow> split_frame (s @ LF # t) =
     (case t of [] \<Rightarrow> None
      | c # u \<Rightarrow> if c = LF then Some (s, u) else map_option (\<lambda>(raw, rest). (s @ LF # raw, rest)) (split_frame t))"
proof (induction s)
  case (Cons a s)
  have "a \<noteq> LF" using Cons.prems(1) by auto
  show ?case
  proof (cases s)
    case Nil
    then show ?thesis using \<open>a \<noteq> LF\<close> by (cases t) (auto simp: option.map_comp comp_def split_def)
  next
    case (Cons b u)
    then show ?thesis using Cons.IH Cons.prems \<open>a \<noteq> LF\<close> by (auto simp: option.map_comp comp_def split_def split: list.split)
  qed
qed simp


lemma unbroken_head: "unbroken s \<Longrightarrow> s \<noteq> [] \<Longrightarrow> hd s \<noteq> LF"
  by (cases s) auto

lemma join_head: "x \<noteq> [] \<Longrightarrow> \<exists>u. join [LF] (x # xs) @ t = hd x # u"
  by (cases x; cases xs) simp_all

lemma lines_make_a_frame:
  "ls \<noteq> [] \<Longrightarrow> \<forall>x \<in> set ls. unbroken x \<and> x \<noteq> [] \<Longrightarrow>
     split_frame (join [LF] ls @ LF # LF # rest) = Some (join [LF] ls, rest) \<and> splitlines (join [LF] ls) = ls"
proof (induction "[LF]" ls rule: join.induct)
  case (2 x)
  then show ?case by (simp add: split_frame_line splitlines_unbroken splitlines_def)
next
  case (3 x y ys)
  obtain u where u: "join [LF] (y # ys) @ LF # LF # rest = hd y # u" using join_head [of y ys] "3.prems" by auto
  have "hd y \<noteq> LF" using "3.prems" unbroken_head by simp
  moreover have "split_frame (join [LF] (y # ys) @ LF # LF # rest) = Some (join [LF] (y # ys), rest) \<and> splitlines (join [LF] (y # ys)) = y # ys"
    using 3 by simp
  ultimately show ?case using "3.prems" u by (simp add: split_frame_line splitlines_line splitlines_def)
qed simp

lemma unbroken_join: "unbroken sep \<Longrightarrow> \<forall>x \<in> set xs. unbroken x \<Longrightarrow> unbroken (join sep xs)"
  by (induction sep xs rule: join.induct) simp_all

lemma printable_unbroken: "32 \<le> (of_char c :: nat) \<Longrightarrow> (of_char c :: nat) \<le> 126 \<Longrightarrow> \<not> is_break c"
  by (auto simp: is_break_def)

lemma unbroken_digits: "list_all is_digit s \<Longrightarrow> unbroken s"
  by (auto simp: unbroken_def list_all_iff is_digit_def is_break_def)

lemma unbroken_str_nat [simp]: "unbroken (str_nat n)"
  using str_nat_digits unbroken_digits by blast

lemma unbroken_str_int [simp]: "unbroken (str_int n)"
  by (simp add: str_int_def is_break_def)

lemma unbroken_id_str [simp]: "unbroken (id_str i)"
  by (simp add: id_str_def is_break_def)

lemma unbroken_escape: "unbroken (json_escape c)"
proof -
  have "\<not> is_break (hex_digit k)" if "k < 16" for k
    using that by (intro printable_unbroken) (auto simp: hex_digit_def of_char_small simp del: of_char_of)
  moreover have "(of_char c :: nat) div 16 < 16" using less_mult_imp_div_less [of "of_char c" 16 16] by simp
  ultimately have "\<not> is_break (hex_digit (of_char c div 16))" "\<not> is_break (hex_digit (of_char c mod 16))" by simp_all
  then show ?thesis unfolding json_escape_def Let_def by (auto simp: is_break_def)
qed

lemma unbroken_dumps_string [simp]: "unbroken (dumps_string s)"
proof -
  have "unbroken (concat (map json_escape s))" by (induction s) (simp_all add: unbroken_escape)
  then show ?thesis by (simp add: dumps_string_def is_break_def)
qed

definition wire_ok :: "wire \<Rightarrow> bool" where
  "wire_ok W \<longleftrightarrow> (\<forall>x. unbroken (wi_num W x))"

lemma unbroken_json: "wire_ok W \<Longrightarrow> unbroken (json_text (wi_num W) v)"
proof (induction v)
  case (JNum x)
  then show ?case by (simp add: wire_ok_def)
next
  case (JArr xs)
  then show ?case by (simp add: is_break_def unbroken_join)
next
  case (JObj kvs)
  have "unbroken (join '','' (map (\<lambda>(k, t). dumps_string k @ '':'' @ t) (map (map_prod id (json_text (wi_num W))) kvs)))"
    by (rule unbroken_join) (use JObj in \<open>force simp: is_break_def snds.simps\<close>)+
  then show ?case by (simp add: is_break_def)
qed (simp_all add: is_break_def)

definition name_row :: "string \<Rightarrow> string \<Rightarrow> string" where
  "name_row row event = (if take 7 row = ''event: '' then drop 7 row else event)"

lemma frame_event_lines: "ls \<noteq> [] \<Longrightarrow> \<forall>x \<in> set ls. unbroken x \<and> x \<noteq> [] \<Longrightarrow> frame_event (join [LF] ls) = fold name_row ls []"
  using lines_make_a_frame by (simp add: frame_event_def name_row_def [abs_def])

lemma frame_is_lines:
  assumes "frame_text W f = Some t" and "wire_ok W" and "unbroken (event_name f)"
  shows "\<exists>ls. ls \<noteq> [] \<and> (\<forall>x \<in> set ls. unbroken x \<and> x \<noteq> []) \<and> t = join [LF] ls @ [LF, LF] \<and> fold name_row ls [] = event_name f"
proof -
  have two: ?thesis if "t = frame_of W (event_name f) payload" for payload
    by (rule exI [of _ "[''event: '' @ event_name f, ''data: '' @ json_text (wi_num W) (JObj payload)]"])
      (use that assms(3) unbroken_json [OF assms(2), of "JObj payload"] in \<open>simp add: frame_of_def name_row_def is_break_def del: json_text.simps\<close>)
  show ?thesis
  proof (cases f)
    case (Retry_Frame ms)
    then show ?thesis using assms(1)
      by (intro exI [of _ "[''retry: '' @ str_int ms]"]) (simp add: name_row_def is_break_def)
  next
    case (Heartbeat ms)
    then show ?thesis using assms(1)
      by (intro exI [of _ "['': heartbeat '' @ str_int ms]"]) (simp add: name_row_def is_break_def heartbeat_text_def)
  next
    case (Event_Frame e)
    then obtain body where "t = ''id: '' @ id_str (re_id e) @ [LF] @ ''event: '' @ re_event e @ [LF]
        @ ''data: '' @ json_text (wi_num W) (JObj body) @ [LF, LF]"
      using assms(1) by (auto simp: sse_text_def Let_def split: json.splits simp del: json_text.simps)
    then show ?thesis using assms(3) Event_Frame unbroken_json [OF assms(2), of "JObj body"]
      by (intro exI [of _ "[''id: '' @ id_str (re_id e), ''event: '' @ re_event e, ''data: '' @ json_text (wi_num W) (JObj body)]"])
        (simp add: name_row_def is_break_def del: json_text.simps)
  qed (use two assms(1) in \<open>auto simp del: json_text.simps\<close>)
qed

lemma frames_of_texts:
  assumes "wire_ok W" and "\<forall>f \<in> set fs. unbroken (event_name f)" and "those (map (frame_text W) fs) = Some texts"
  shows "\<exists>raws. frames_in (concat texts) = (raws, []) \<and> map frame_event raws = map event_name fs"
  using assms(2,3)
proof (induction fs arbitrary: texts)
  case Nil
  then show ?case by (simp add: frames_in.simps)
next
  case (Cons f fs)
  from Cons.prems(2) obtain t ts where t: "frame_text W f = Some t" "those (map (frame_text W) fs) = Some ts" "texts = t # ts"
    by (auto split: option.splits)
  obtain ls where ls: "ls \<noteq> []" "\<forall>x \<in> set ls. unbroken x \<and> x \<noteq> []" "t = join [LF] ls @ [LF, LF]" "fold name_row ls [] = event_name f"
    using frame_is_lines [OF t(1) assms(1)] Cons.prems(1) by auto
  obtain raws where raws: "frames_in (concat ts) = (raws, [])" "map frame_event raws = map event_name fs"
    using Cons.IH [OF _ t(2)] Cons.prems(1) by auto
  have "split_frame (concat texts) = Some (join [LF] ls, concat ts)"
    using lines_make_a_frame [OF ls(1,2), of "concat ts"] by (simp add: t(3) ls(3))
  then have "frames_in (concat texts) = (join [LF] ls # raws, [])" using raws(1) by (subst frames_in.simps) simp
  then show ?case using raws(2) frame_event_lines [OF ls(1,2)] ls(4) by simp
qed

section \<open>The client counts what was sent\<close>

fun first_named :: "string list \<Rightarrow> string" where
  "first_named [] = []"
| "first_named (ev # evs) = (if ev = [] then first_named evs else ev)"

lemma first_named_append: "first_named (xs @ ys) = (if first_named xs = [] then first_named ys else first_named xs)"
  by (induction xs) simp_all

definition counted :: "string list \<Rightarrow> job_result \<Rightarrow> job_result \<Rightarrow> bool" where
  "counted evs r r' \<longleftrightarrow>
     jr_partials r' = jr_partials r + count_list evs PAGE_PARTIAL
   \<and> jr_finals r' = jr_finals r + count_list evs PAGE_FINAL
   \<and> length (jr_page_latencies_ms r') = length (jr_page_latencies_ms r) + count_list evs PAGE_FINAL
   \<and> jr_complete r' = (jr_complete r \<or> JOB_COMPLETE_EVENT \<in> set evs)
   \<and> jr_first_event r' = (if jr_first_event r = [] then first_named evs else jr_first_event r)
   \<and> jr_error r' = jr_error r \<and> jr_job_id r' = jr_job_id r \<and> jr_pages r' = jr_pages r"

lemma counted_Nil: "counted [] r r" "counted [] r (r\<lparr>jr_first_byte_ms := x\<rparr>)"
  by (simp_all add: counted_def)

lemma counted_trans: "counted xs a b \<Longrightarrow> counted ys b c \<Longrightarrow> counted (xs @ ys) a c"
  by (auto simp: counted_def first_named_append)

lemma counted_event: "on_event clk started ev (r, n) = (r', n') \<Longrightarrow> counted [ev] r r'"
  by (auto simp: on_event_def counted_def Let_def PAGE_PARTIAL_def PAGE_FINAL_def JOB_COMPLETE_EVENT_def
      split: if_splits prod.splits)

lemma counted_fold: "fold (on_event clk started) evs (r, n) = (r', n') \<Longrightarrow> counted evs r r'"
proof (induction evs arbitrary: r n)
  case (Cons ev evs)
  obtain r1 n1 where e: "on_event clk started ev (r, n) = (r1, n1)" by fastforce
  then show ?case using counted_trans [OF counted_event [OF e], of evs r'] Cons by simp
qed (simp add: counted_Nil)

lemma read_stream_counts:
  assumes "split_frame buffer = None" and "\<not> jr_complete r"
    and "read_stream clk started None chunks seen buffer (r, n) = Inr r'"
  shows "\<exists>k. (length chunks \<le> k \<or> jr_complete r')
    \<and> counted (map frame_event (fst (frames_in (buffer @ concat (take k chunks))))) r r'"
  using assms
proof (induction chunks arbitrary: seen buffer r n)
  case Nil
  then show ?case by (simp add: frames_in_none counted_Nil)
next
  case (Cons chunk chunks)
  define r1 n1 where "r1 = (if seen then r else r\<lparr>jr_first_byte_ms := since clk started n\<rparr>)" and "n1 = (if seen then n else Suc n)"
  obtain raws b where f: "frames_in (buffer @ chunk) = (raws, b)" by fastforce
  obtain r2 n2 where o: "fold (on_event clk started) (map frame_event raws) (r1, n1) = (r2, n2)" by fastforce
  have c: "counted (map frame_event raws) r r2"
    using counted_trans [OF _ counted_fold [OF o], of "[]" r] counted_Nil by (simp add: r1_def)
  have step: "(if jr_complete r2 then Inr r2 else read_stream clk started None chunks True b (r2, n2)) = Inr r'"
    using Cons.prems(3) f o by (simp add: r1_def n1_def split: if_splits)
  show ?case
  proof (cases "jr_complete r2")
    case True
    then show ?thesis using step c f by (intro exI [of _ 1]) simp
  next
    case False
    have "split_frame b = None" using frames_in_left [of "buffer @ chunk"] f by simp
    from Cons.IH [OF this False, of True n2] step False obtain k where
      k: "length chunks \<le> k \<or> jr_complete r'" "counted (map frame_event (fst (frames_in (b @ concat (take k chunks))))) r2 r'"
      by auto
    have "fst (frames_in (buffer @ concat (take (Suc k) (chunk # chunks)))) = raws @ fst (frames_in (b @ concat (take k chunks)))"
      using frames_in_append [of "buffer @ chunk" "concat (take k chunks)"] f by (simp add: Let_def split_def)
    then show ?thesis using k counted_trans [OF c k(2)] by (intro exI [of _ "Suc k"]) simp
  qed
qed

lemma read_stream_returns: "\<exists>r'. read_stream clk started None chunks seen buffer (r, n) = Inr r'"
proof (induction chunks arbitrary: seen buffer r n)
  case (Cons chunk chunks)
  then show ?case by (simp add: Let_def split_def) (metis prod.collapse)
qed simp

text \<open>
  C38. The client counts what the server sent. Let a job be accepted and its stream be sent as the texts of any
  frames, cut into chunks anywhere. Then the client's numbers of partial and final pages are
  exactly those among the frames it has read, which are all frames, or at least those up to the one
  that says the job is complete; it has noticed the end exactly if it has read that frame, there is
  one latency per final page, and no error is recorded.
\<close>

theorem client_counts_what_was_sent:
  assumes "wire_ok W" and "\<forall>f \<in> set fs. unbroken (event_name f)" and "those (map (frame_text W) fs) = Some texts"
    and "concat chunks = concat texts" and "200 \<le> status" and "status < 300"
  shows "\<exists>r k. run_job clk pages (Inr (status, Inr job)) (Inr (chunks, None)) = Inr r
    \<and> (length fs \<le> k \<or> JOB_COMPLETE_EVENT \<in> event_name ` set (take k fs))
    \<and> jr_partials r = length (filter (\<lambda>f. event_name f = PAGE_PARTIAL) (take k fs))
    \<and> jr_finals r = length (filter (\<lambda>f. event_name f = PAGE_FINAL) (take k fs))
    \<and> length (jr_page_latencies_ms r) = jr_finals r
    \<and> (jr_complete r \<longleftrightarrow> JOB_COMPLETE_EVENT \<in> event_name ` set (take k fs))
    \<and> jr_first_event r = first_named (map event_name (take k fs)) \<and> jr_error r = [] \<and> jr_job_id r = job"
proof -
  obtain raws where raws: "frames_in (concat texts) = (raws, [])" "map frame_event raws = map event_name fs"
    using frames_of_texts [OF assms(1-3)] by blast
  define r0 where "r0 = \<lparr>jr_job_id = job, jr_pages = pages, jr_submitted_at = clk 0, jr_post_ms = since clk (clk 0) 1,
    jr_connect_ms = since clk (clk 2) 3, jr_first_byte_ms = 0, jr_ttfp_ms = 0, jr_first_event = [], jr_partials = 0,
    jr_finals = 0, jr_complete = False, jr_page_latencies_ms = [], jr_error = []\<rparr>"
  obtain r where r: "read_stream clk (clk 0) None chunks False [] (r0, 4) = Inr r" using read_stream_returns by blast
  then have returns: "run_job clk pages (Inr (status, Inr job)) (Inr (chunks, None)) = Inr r"
    using assms(5,6) by (simp add: run_job_def Let_def r0_def)
  from read_stream_counts [OF _ _ r] obtain j where
    j: "length chunks \<le> j \<or> jr_complete r" "counted (map frame_event (fst (frames_in (concat (take j chunks))))) r0 r"
    by (auto simp: r0_def)
  define k where "k = length (fst (frames_in (concat (take j chunks))))"
  have "concat texts = concat (take j chunks) @ concat (drop j chunks)"
    by (metis append_take_drop_id assms(4) concat_append)
  then have p: "fst (frames_in (concat (take j chunks))) = take k raws"
    using raws(1) frames_in_append [of "concat (take j chunks)" "concat (drop j chunks)"]
    by (auto simp: k_def Let_def split_def)
  then have evs: "map frame_event (fst (frames_in (concat (take j chunks)))) = map event_name (take k fs)"
    using raws(2) by (metis take_map)
  have all: "length fs \<le> k" if "length chunks \<le> j"
    using that p raws assms(4) by (simp add: k_def) (metis length_map order_refl)
  have count: "count_list (map event_name gs) name = length (filter (\<lambda>f. event_name f = name) gs)" for gs name
    by (induction gs) simp_all
  have "counted (map event_name (take k fs)) r0 r" using j(2) evs by simp
  then have c: "jr_partials r = length (filter (\<lambda>f. event_name f = PAGE_PARTIAL) (take k fs))"
    "jr_finals r = length (filter (\<lambda>f. event_name f = PAGE_FINAL) (take k fs))"
    "length (jr_page_latencies_ms r) = jr_finals r"
    "jr_complete r \<longleftrightarrow> JOB_COMPLETE_EVENT \<in> event_name ` set (take k fs)" "jr_first_event r = first_named (map event_name (take k fs))" "jr_error r = []" "jr_job_id r = job"
    unfolding counted_def count by (simp_all add: r0_def)
  then show ?thesis using returns j(1) all by blast
qed

definition demo_wire :: wire where
  "demo_wire = \<lparr>wi_num = (\<lambda>x. str_int \<lfloor>x\<rfloor>), wi_job = ''j'', wi_trace = []\<rparr>"

definition demo_sent :: "frame list" where
  "demo_sent = [Retry_Frame 2000, Event_Frame \<lparr>re_id = (100, 0), re_seq = 1, re_event = PAGE_FINAL, re_data = JObj [(''page_index'', JNum 0)]\<rparr>,
     Heartbeat 7, Derived_Complete 1 1]"

lemma demo_wire_ok: "wire_ok demo_wire"
  by (simp add: wire_ok_def demo_wire_def)

lemma demo_texts: "\<exists>texts. those (map (frame_text demo_wire) demo_sent) = Some texts"
  by (simp add: demo_sent_def sse_text_def Let_def)

text \<open>The chunks are single characters.\<close>

theorem client_counts_what_was_sent_witness:
  "\<exists>r texts. those (map (frame_text demo_wire) demo_sent) = Some texts
     \<and> run_job real 1 (Inr (202, Inr ''j'')) (Inr (map (\<lambda>c. [c]) (concat texts), None)) = Inr r \<and> jr_finals r = 1 \<and> jr_complete r"
proof -
  obtain texts where t: "those (map (frame_text demo_wire) demo_sent) = Some texts" using demo_texts by blast
  have names: "map event_name demo_sent = [[], PAGE_FINAL, [], JOB_COMPLETE_EVENT]" by (simp add: demo_sent_def)
  then have "\<forall>f \<in> set demo_sent. unbroken (event_name f)"
    by (simp add: demo_sent_def PAGE_FINAL_def JOB_COMPLETE_EVENT_def is_break_def)
  moreover have "concat (map (\<lambda>c. [c]) (concat texts)) = concat texts" by simp
  ultimately obtain r k where
    r: "run_job real 1 (Inr (202, Inr ''j'')) (Inr (map (\<lambda>c. [c]) (concat texts), None)) = Inr r"
    and k: "length demo_sent \<le> k \<or> JOB_COMPLETE_EVENT \<in> event_name ` set (take k demo_sent)"
    and c: "jr_finals r = length (filter (\<lambda>f. event_name f = PAGE_FINAL) (take k demo_sent))"
      "jr_complete r \<longleftrightarrow> JOB_COMPLETE_EVENT \<in> event_name ` set (take k demo_sent)"
    using client_counts_what_was_sent [OF demo_wire_ok _ t, of "map (\<lambda>c. [c]) (concat texts)" 202 real 1 "''j''"] by auto
  have "take k demo_sent = demo_sent"
  proof (cases "k \<le> 3")
    case True
    then have "k \<in> {0, 1, 2, 3}" by auto
    then have "JOB_COMPLETE_EVENT \<notin> event_name ` set (take k demo_sent)" "\<not> length demo_sent \<le> k"
      by (auto simp: demo_sent_def PAGE_FINAL_def JOB_COMPLETE_EVENT_def)
    then show ?thesis using k by blast
  qed (simp add: demo_sent_def)
  then show ?thesis using r t c by (auto simp: demo_sent_def PAGE_FINAL_def JOB_COMPLETE_EVENT_def)
qed

end
