(* ===== verification/Benchmark.thy ===== *)
theory Benchmark
  imports Sse_Wire Mock_Payloads Adaptive_Rate
begin

text \<open>
  The load benchmark, \<^verbatim>\<open>src/bench/benchmark.py\<close>, behind its client (\<open>run_job\<close> of \<open>Sse_Wire\<close>): the memory
  samples, the percentiles, the tally and the grades. What \<^verbatim>\<open>docker stats\<close> prints, the answers of the API
  and the clocks are arguments; the reader of floats is the parameter \<open>fl\<close>. The printed report is
  left out, the summary and the exit code are kept.
\<close>

section \<open>Memory samples\<close>

definition MIB_FACTORS :: "(string \<times> real) list" where
  "MIB_FACTORS =
     [(''GiB'', 1024), (''MiB'', 1), (''KiB'', 1 / 1024), (''GB'', 1000 * 1000 * 1000 / (1024 * 1024)),
      (''MB'', 1000 * 1000 / (1024 * 1024)), (''kB'', 1000 / (1024 * 1024)), (''B'', 1 / (1024 * 1024))]"

definition ends_with :: "string \<Rightarrow> string \<Rightarrow> bool" where
  "ends_with suffix s \<longleftrightarrow> length suffix \<le> length s \<and> drop (length s - length suffix) s = suffix"

fun mib_loop :: "(string \<Rightarrow> real option) \<Rightarrow> (string \<times> real) list \<Rightarrow> string \<Rightarrow> real option" where
  "mib_loop fl [] raw = None"
| "mib_loop fl ((suffix, factor) # rest) raw =
     (if ends_with suffix raw
      then map_option (\<lambda>x. x * factor) (fl (str_strip (take (length raw - length suffix) raw)))
      else mib_loop fl rest raw)"

text \<open>\<^verbatim>\<open>_to_mib\<close>; \<^const>\<open>None\<close> is \<^verbatim>\<open>ValueError\<close>.\<close>

definition to_mib :: "(string \<Rightarrow> real option) \<Rightarrow> string \<Rightarrow> real option" where
  "to_mib fl raw = mib_loop fl MIB_FACTORS (str_strip raw)"

type_synonym usage = "(string \<times> real) list"

text \<open>\<^verbatim>\<open>_snapshot\<close>; \<open>stdout\<close> is \<^const>\<open>None\<close> when the command could not be run.\<close>

definition snapshot_row :: "(string \<Rightarrow> real option) \<Rightarrow> string \<Rightarrow> usage \<Rightarrow> usage" where
  "snapshot_row fl row usage =
     (if CHR 0x09 \<notin> set row then usage
      else let (name, mem) = partition_at (CHR 0x09) row; raw = str_strip (fst (partition_at (CHR ''/'') mem))
           in case to_mib fl raw of None \<Rightarrow> usage | Some v \<Rightarrow> AList.update name v usage)"

definition snapshot :: "(string \<Rightarrow> real option) \<Rightarrow> string option \<Rightarrow> usage" where
  "snapshot fl stdout =
     (case stdout of None \<Rightarrow> [] | Some out \<Rightarrow> fold (snapshot_row fl) (splitlines out) [])"

text \<open>The loop of the sampler keeps the snapshots that are not empty.\<close>

definition sampled :: "(string \<Rightarrow> real option) \<Rightarrow> string option list \<Rightarrow> usage list" where
  "sampled fl outs = filter (\<lambda>u. u \<noteq> []) (map (snapshot fl) outs)"

definition usage_sum :: "usage \<Rightarrow> real" where
  "usage_sum u = sum_list (map snd u)"

definition raise_peak :: "string \<times> real \<Rightarrow> usage \<Rightarrow> usage" where
  "raise_peak nv acc =
     AList.update (fst nv) (max (case map_of acc (fst nv) of None \<Rightarrow> 0 | Some x \<Rightarrow> x) (snd nv)) acc"

definition per_container :: "usage list \<Rightarrow> usage" where
  "per_container samples = fold (fold raise_peak) samples []"

definition rss_report :: "usage list \<Rightarrow> usage" where
  "rss_report samples =
     (if samples = [] then [(''peak_total_mb'', 0), (''samples'', 0)]
      else let totals = map usage_sum samples
           in fold (\<lambda>(k, v) d. AList.update (''peak_'' @ k @ ''_mb'') v d) (sort (per_container samples))
                [(''peak_total_mb'', Max (set totals)), (''mean_total_mb'', sum_list totals / real (length totals)),
                 (''samples'', real (length samples))])"

section \<open>Percentiles\<close>

definition percentile_index :: "nat \<Rightarrow> real \<Rightarrow> nat" where
  "percentile_index n fraction = nat (min (int n - 1) (max 0 (round_half_even (fraction * (real n - 1)))))"

definition percentile :: "real list \<Rightarrow> real \<Rightarrow> real" where
  "percentile values fraction =
     (if values = [] then 0 else sort values ! percentile_index (length values) fraction)"

section \<open>Tally and grades\<close>

text \<open>\<^verbatim>\<open>int(value or 0)\<close> of a value out of an answer.\<close>

fun int_or_zero :: "json option \<Rightarrow> exc + int" where
  "int_or_zero (Some (JBool b)) = Inr (if b then 1 else 0)"
| "int_or_zero (Some (JNum x)) = Inr (if 0 \<le> x then \<lfloor>x\<rfloor> else \<lceil>x\<rceil>)"
| "int_or_zero (Some (JStr s)) =
     (if s = [] then Inr 0 else case py_int s of None \<Rightarrow> Inl (OtherException ''ValueError'') | Some n \<Rightarrow> Inr n)"
| "int_or_zero (Some (JArr xs)) = (if xs = [] then Inr 0 else Inl (OtherException ''TypeError''))"
| "int_or_zero (Some (JObj kvs)) = (if kvs = [] then Inr 0 else Inl (OtherException ''TypeError''))"
| "int_or_zero _ = Inr 0"

fun server_view :: "json list \<Rightarrow> int \<times> int \<Rightarrow> exc + int \<times> int" where
  "server_view [] acc = Inr acc"
| "server_view (body # bodies) (pages, done_n) =
     (case int_or_zero (json_get ''total_pages'' body) of
        Inl e \<Rightarrow> Inl e
      | Inr p \<Rightarrow> (case int_or_zero (json_get ''done'' body) of
                   Inl e \<Rightarrow> Inl e | Inr d \<Rightarrow> server_view bodies (pages + p, done_n + d)))"

text \<open>\<^verbatim>\<open>metric_value\<close>: the number behind the last space of the first line that starts with the text.\<close>

fun metric_rows :: "(string \<Rightarrow> real option) \<Rightarrow> string list \<Rightarrow> string \<Rightarrow> real" where
  "metric_rows fl [] needle = 0"
| "metric_rows fl (row # rows) needle =
     (if take (length needle) row = needle
      then (if CHR '' '' \<in> set row
            then (case fl (rev (takeWhile (\<lambda>c. c \<noteq> CHR '' '') (rev row))) of None \<Rightarrow> 0 | Some v \<Rightarrow> v) else 0)
      else metric_rows fl rows needle)"

definition metric_value :: "(string \<Rightarrow> real option) \<Rightarrow> string \<Rightarrow> string \<Rightarrow> real" where
  "metric_value fl text needle = metric_rows fl (splitlines text) needle"

record bench_run =
  bn_jobs :: int
  bn_pages :: int
  bn_solo :: "job_result list"
  bn_results :: "job_result list"
  bn_bodies :: "job_result \<Rightarrow> json"
  bn_before :: string
  bn_after :: string
  bn_samples :: "usage list"
  bn_wall_s :: real
  bn_cpu_s :: real

record bench_summary =
  bs_jobs :: int
  bs_pages_per_job :: int
  bs_total_pages :: int
  bs_admitted_pages :: int
  bs_shed_jobs :: nat
  bs_errored_jobs :: nat
  bs_wall_s :: real
  bs_pages_per_sec :: real
  bs_peak_rss_mb :: real
  bs_solo_ttfp_p50_ms :: real
  bs_solo_ttfp_p95_ms :: real
  bs_solo_samples :: nat
  bs_solo_first_byte_p95_ms :: real
  bs_ttfp_ms :: "real \<Rightarrow> real"
  bs_page_ms :: "real \<Rightarrow> real"
  bs_post_p95_ms :: real
  bs_connect_p95_ms :: real
  bs_sse_finals :: nat
  bs_server_done :: int
  bs_metrics_success :: int
  bs_metrics_failed :: int
  bs_unhandled_pages :: int
  bs_client_cpu_s :: real
  bs_client_cpu_ratio :: real
  bs_rss :: usage

definition int_trunc :: "real \<Rightarrow> int" where
  "int_trunc x = (if 0 \<le> x then \<lfloor>x\<rfloor> else \<lceil>x\<rceil>)"

definition TERMINAL_SUCCESS :: string where
  "TERMINAL_SUCCESS = ''orch_pages_terminal_total{result='' @ [CHR 0x22] @ ''success'' @ [CHR 0x22] @ ''}''"
definition TERMINAL_FAILED :: string where
  "TERMINAL_FAILED = ''orch_pages_terminal_total{result='' @ [CHR 0x22] @ ''failed'' @ [CHR 0x22] @ ''}''"

definition solo_ttfps :: "job_result list \<Rightarrow> real list" where
  "solo_ttfps solo = filter (\<lambda>x. x > 0) (map jr_ttfp_ms solo)"

definition admitted_pages :: "job_result list \<Rightarrow> int" where
  "admitted_pages results = sum_list (map jr_pages (filter (\<lambda>r. jr_error r = []) results))"

text \<open>
  The tally of \<^verbatim>\<open>main\<close>. The jobs asked about are those with an id, whatever became of their stream. The
  percentiles of one quantity at a half, 95 and 99 hundredths are one field, a function of the fraction.
\<close>

definition tally :: "(string \<Rightarrow> real option) \<Rightarrow> bench_run \<Rightarrow> exc + bench_summary" where
  "tally fl b =
     (let results = bn_results b;
          statuses = map (bn_bodies b) (filter (\<lambda>r. jr_job_id r \<noteq> []) results);
          ttfps = filter (\<lambda>x. x > 0) (map jr_ttfp_ms results);
          latencies = concat (map jr_page_latencies_ms results);
          solo = solo_ttfps (bn_solo b);
          p = (\<lambda>values fraction. round_to 1 (percentile values fraction));
          admitted = admitted_pages results;
          delta = (\<lambda>needle. metric_value fl (bn_after b) needle - metric_value fl (bn_before b) needle);
          rss = rss_report (bn_samples b);
          peak_rss = (case map_of rss ''peak_total_mb'' of None \<Rightarrow> 0 | Some v \<Rightarrow> v)
      in case server_view statuses (0, 0) of
           Inl e \<Rightarrow> Inl e
         | Inr (server_pages, server_done) \<Rightarrow> Inr
             \<lparr>bs_jobs = bn_jobs b, bs_pages_per_job = bn_pages b, bs_total_pages = bn_jobs b * bn_pages b,
              bs_admitted_pages = admitted,
              bs_shed_jobs = length (filter (\<lambda>r. jr_error r = ''shed'') results),
              bs_errored_jobs = length (filter (\<lambda>r. jr_error r \<noteq> [] \<and> jr_error r \<noteq> ''shed'') results),
              bs_wall_s = round_to 2 (bn_wall_s b),
              bs_pages_per_sec = (if bn_wall_s b \<noteq> 0 then round_to 2 (of_int server_done / bn_wall_s b) else 0),
              bs_peak_rss_mb = round_to 1 peak_rss,
              bs_solo_ttfp_p50_ms = p solo (1 / 2), bs_solo_ttfp_p95_ms = p solo (95 / 100),
              bs_solo_samples = length solo,
              bs_solo_first_byte_p95_ms = p (filter (\<lambda>x. x > 0) (map jr_first_byte_ms (bn_solo b))) (95 / 100),
              bs_ttfp_ms = p ttfps, bs_page_ms = p latencies,
              bs_post_p95_ms = p (map jr_post_ms results) (95 / 100),
              bs_connect_p95_ms = p (filter (\<lambda>x. x \<noteq> 0) (map jr_connect_ms results)) (95 / 100),
              bs_sse_finals = sum_list (map jr_finals results), bs_server_done = server_done,
              bs_metrics_success = int_trunc (delta TERMINAL_SUCCESS), bs_metrics_failed = int_trunc (delta TERMINAL_FAILED),
              bs_unhandled_pages = admitted - server_done,
              bs_client_cpu_s = round_to 2 (bn_cpu_s b),
              bs_client_cpu_ratio = (if bn_wall_s b \<noteq> 0 then round_to 3 (bn_cpu_s b / bn_wall_s b) else 0),
              bs_rss = map (map_prod id (round_to 1)) rss\<rparr>)"

text \<open>\<^verbatim>\<open>GRADED\<close> and the exit code.\<close>

definition targets_met :: "bench_summary \<Rightarrow> bool" where
  "targets_met s \<longleftrightarrow> bs_peak_rss_mb s < 500 \<and> bs_unhandled_pages s = 0 \<and> bs_solo_ttfp_p95_ms s < 200"

definition exit_code :: "bench_summary \<Rightarrow> int" where
  "exit_code s = (if targets_met s then 0 else 1)"

section \<open>The peak of the sum\<close>

lemma raise_peak_lookup:
  "map_of (raise_peak nv acc) k =
     (if k = fst nv then Some (max (case map_of acc k of None \<Rightarrow> 0 | Some x \<Rightarrow> x) (snd nv)) else map_of acc k)"
  by (simp add: raise_peak_def update_conv')

lemma raise_peak_distinct: "distinct (map fst acc) \<Longrightarrow> distinct (map fst (raise_peak nv acc))"
  by (simp add: raise_peak_def distinct_update)

text \<open>\<open>covers acc u\<close>: the peaks so far are at least the values of the sample.\<close>

definition covers :: "usage \<Rightarrow> usage \<Rightarrow> bool" where
  "covers acc u \<longleftrightarrow> (\<forall>(k, v) \<in> set u. \<exists>x. map_of acc k = Some x \<and> v \<le> x)"

definition peaks_ok :: "usage \<Rightarrow> bool" where
  "peaks_ok acc \<longleftrightarrow> distinct (map fst acc) \<and> (\<forall>(k, v) \<in> set acc. 0 \<le> v)"

lemma raise_peak_ok: "peaks_ok acc \<Longrightarrow> peaks_ok (raise_peak nv acc)"
proof -
  assume a: "peaks_ok acc"
  have d: "distinct (map fst (raise_peak nv acc))" using a raise_peak_distinct by (simp add: peaks_ok_def)
  have "0 \<le> v" if "(k, v) \<in> set (raise_peak nv acc)" for k v
  proof -
    have "map_of (raise_peak nv acc) k = Some v" using that d by simp
    then show ?thesis using a by (auto simp: raise_peak_lookup peaks_ok_def split: if_splits option.splits dest!: map_of_SomeD)
  qed
  then show ?thesis using d by (auto simp: peaks_ok_def)
qed

lemma raise_peak_covers: "covers acc u \<Longrightarrow> covers (raise_peak nv acc) u" "covers (raise_peak nv acc) [nv]"
  by (force simp: covers_def raise_peak_lookup max_def split: option.split)+

lemma fold_peaks:
  "peaks_ok acc \<Longrightarrow> peaks_ok (fold raise_peak u acc) \<and> covers (fold raise_peak u acc) u
     \<and> (\<forall>w. covers acc w \<longrightarrow> covers (fold raise_peak u acc) w)"
proof (induction u arbitrary: acc)
  case (Cons nv u)
  note IH = Cons.IH [OF raise_peak_ok [OF Cons.prems, of nv]]
  have "covers (fold raise_peak u (raise_peak nv acc)) [nv]" using IH raise_peak_covers(2) by blast
  then have "covers (fold raise_peak (nv # u) acc) (nv # u)" using IH by (simp add: covers_def)
  then show ?case using IH raise_peak_covers(1) by simp
qed (simp add: covers_def)

lemma per_container_covers: "peaks_ok (per_container samples) \<and> (\<forall>u \<in> set samples. covers (per_container samples) u)"
proof -
  have "peaks_ok acc \<Longrightarrow> peaks_ok (fold (fold raise_peak) samples acc)
      \<and> (\<forall>u. u \<in> set samples \<or> covers acc u \<longrightarrow> covers (fold (fold raise_peak) samples acc) u)" for acc
  proof (induction samples arbitrary: acc)
    case (Cons s samples)
    from Cons.IH [of "fold raise_peak s acc"] fold_peaks [OF Cons.prems, of s] show ?case by auto
  qed simp
  from this [of "[]"] show ?thesis by (simp add: per_container_def peaks_ok_def)
qed

lemma usage_sum_keys: "distinct (map fst u) \<Longrightarrow> usage_sum u = (\<Sum>k \<in> fst ` set u. the (map_of u k))"
proof (induction u)
  case (Cons kv u)
  then have "(\<Sum>k \<in> fst ` set u. the (map_of (kv # u) k)) = (\<Sum>k \<in> fst ` set u. the (map_of u k))"
    by (intro sum.cong) (force simp: image_iff)+
  then show ?case using Cons by (simp add: usage_sum_def)
qed (simp add: usage_sum_def)

lemma covers_sum:
  assumes "peaks_ok acc" and "covers acc u" and "distinct (map fst u)"
  shows "usage_sum u \<le> usage_sum acc"
proof -
  have "usage_sum u = (\<Sum>k \<in> fst ` set u. the (map_of u k))" using usage_sum_keys assms(3) by blast
  also have "\<dots> \<le> (\<Sum>k \<in> fst ` set u. the (map_of acc k))"
  proof (rule sum_mono)
    fix k assume "k \<in> fst ` set u"
    then obtain v where "(k, v) \<in> set u" by force
    moreover from this assms(3) have "map_of u k = Some v" by simp
    ultimately show "the (map_of u k) \<le> the (map_of acc k)" using assms(2) by (force simp: covers_def)
  qed
  also have "\<dots> \<le> (\<Sum>k \<in> fst ` set acc. the (map_of acc k))"
  proof (rule sum_mono2)
    show "fst ` set u \<subseteq> fst ` set acc" using assms(2) by (force simp: covers_def dest: map_of_SomeD)
    show "0 \<le> the (map_of acc k)" if "k \<in> fst ` set acc - fst ` set u" for k
      using that assms(1) by (force simp: peaks_ok_def)
  qed simp
  also have "\<dots> = usage_sum acc" using usage_sum_keys assms(1) by (simp add: peaks_ok_def)
  finally show ?thesis .
qed

lemma report_total:
  assumes "samples \<noteq> []" and "\<forall>u \<in> set samples. ''total'' \<notin> fst ` set u"
  shows "map_of (rss_report samples) ''peak_total_mb'' = Some (Max (usage_sum ` set samples))"
proof -
  have keys: "fst ` set (fold raise_peak u acc) \<subseteq> fst ` set u \<union> fst ` set acc" for u acc
  proof (induction u arbitrary: acc)
    case (Cons nv u)
    have "fst ` set (raise_peak nv acc) = insert (fst nv) (fst ` set acc)" by (simp add: raise_peak_def dom_update)
    with Cons.IH [of "raise_peak nv acc"] show ?case by auto
  qed simp
  have "fst ` set (fold (fold raise_peak) ss acc) \<subseteq> (\<Union>u \<in> set ss. fst ` set u) \<union> fst ` set acc" for ss acc
  proof (induction ss arbitrary: acc)
    case (Cons s ss)
    from Cons.IH [of "fold raise_peak s acc"] keys [of s acc] show ?case
      unfolding fold.simps comp_apply list.set UN_insert by blast
  qed simp
  from this [of samples "[]"] assms(2) have t: "''total'' \<notin> fst ` set (sort (per_container samples))"
    by (auto simp: per_container_def)
  have "map_of (fold (\<lambda>(k, v) d. AList.update (''peak_'' @ k @ ''_mb'') v d) kvs d) ''peak_total_mb'' = map_of d ''peak_total_mb''"
    if "''total'' \<notin> fst ` set kvs" for kvs d
    using that
  proof (induction kvs arbitrary: d)
    case (Cons kv kvs)
    have "''peak_'' @ fst kv @ ''_mb'' \<noteq> ''peak_'' @ ''total'' @ ''_mb''" using Cons.prems by (auto simp del: append_Cons)
    then have "''peak_'' @ fst kv @ ''_mb'' \<noteq> ''peak_total_mb''" by simp
    then show ?case using Cons by (simp add: split_def update_conv')
  qed simp
  from this [OF t] show ?thesis using assms(1) by (simp add: rss_report_def Let_def)
qed

text \<open>
  The peak of the report is the peak of the sum. With samples that name each container once, none of
  them called \<^verbatim>\<open>total\<close>, the reported peak is the total of some sample, no sample has more, and it is at
  most the sum of the peaks of the containers.
\<close>

theorem report_is_peak_of_sum:
  assumes "samples \<noteq> []" and "\<forall>u \<in> set samples. distinct (map fst u) \<and> ''total'' \<notin> fst ` set u"
  shows "\<exists>peak. map_of (rss_report samples) ''peak_total_mb'' = Some peak \<and> peak \<in> usage_sum ` set samples
    \<and> (\<forall>u \<in> set samples. usage_sum u \<le> peak) \<and> peak \<le> usage_sum (per_container samples)"
proof -
  let ?peak = "Max (usage_sum ` set samples)"
  have "?peak \<in> usage_sum ` set samples" using assms(1) by (intro Max_in) auto
  moreover from this have "?peak \<le> usage_sum (per_container samples)"
    using covers_sum per_container_covers [of samples] assms(2) by fastforce
  ultimately show ?thesis using report_total [OF assms(1)] assms(2) by auto
qed

theorem report_is_peak_of_sum_witness:
  "\<exists>peak. map_of (rss_report [[(''api'', 100), (''worker'', 300)], [(''api'', 200), (''worker'', 150)]]) ''peak_total_mb'' = Some peak
     \<and> peak \<in> {400, 350} \<and> 400 \<le> peak"
proof -
  have "\<forall>u \<in> set [[(''api'', 100), (''worker'', 300)], [(''api'', 200), (''worker'', 150 :: real)]]. distinct (map fst u) \<and> ''total'' \<notin> fst ` set u"
    by simp
  from report_is_peak_of_sum [OF _ this] show ?thesis by (auto simp: usage_sum_def)
qed

text \<open>A container of that name takes the place of the total in the report.\<close>

lemma container_named_total_hides_peak:
  "map_of (rss_report [[(''total'', 1), (''worker'', 600)]]) ''peak_total_mb'' = Some 1"
  by (simp add: rss_report_def per_container_def raise_peak_def usage_sum_def insort_key.simps)

section \<open>Ranks\<close>

text \<open>
  The percentile of a list that is not empty is one of its values; up to half a value, at least the
  given share of the other values is not above it, and at most that share is below it.
\<close>

theorem percentile_is_rank:
  assumes "values \<noteq> []" and "0 \<le> fraction" and "fraction \<le> 1"
  shows "percentile values fraction \<in> set values
    \<and> fraction * (real (length values) - 1) + 1 / 2 \<le> real (length (filter (\<lambda>x. x \<le> percentile values fraction) values))
    \<and> real (length (filter (\<lambda>x. x < percentile values fraction) values)) \<le> fraction * (real (length values) - 1) + 1 / 2"
proof -
  define n where "n = length values"
  define i where "i = round_half_even (fraction * (real n - 1))"
  have n: "1 \<le> n" using assms(1) by (simp add: n_def Suc_le_eq)
  have f: "0 \<le> fraction * (real n - 1)" "fraction * (real n - 1) \<le> real n - 1"
    using assms(2,3) n by (simp_all add: mult_left_le_one_le)
  have r: "fraction * (real n - 1) - 1 / 2 \<le> of_int i" "of_int i \<le> fraction * (real n - 1) + 1 / 2"
    using round_half_even_near by (simp_all add: i_def)
  have "- 1 < (of_int i :: real)" "(of_int i :: real) < real n" using r f by linarith+
  then have b: "0 \<le> i" "i \<le> int n - 1" by linarith+
  then have k: "percentile_index n fraction = nat i" by (simp add: percentile_index_def i_def)
  have lt: "nat i < length (sort values)" using b n by (simp add: n_def)
  have p: "percentile values fraction = sort values ! nat i" using assms(1) k by (simp add: percentile_def n_def)
  note rank = sorted_rank_le [OF sorted_sort lt, unfolded length_filter_sort, folded p]
  have "percentile values fraction \<in> set values" using nth_mem [OF lt] by (simp add: p)
  moreover have "real (nat i) = of_int i" using b by simp
  ultimately show ?thesis using rank r unfolding n_def by (auto simp: of_nat_diff)
qed

theorem percentile_is_rank_witness: "percentile [30, 10, 20] (1 / 2) \<in> {10, 20, 30 :: real}"
  using percentile_is_rank [of "[30, 10, 20]" "1 / 2"] by auto

section \<open>What the grades say\<close>

lemma int_or_zero_int: "int_or_zero (Some (json_int d)) = Inr d"
  by (simp add: json_int_def)

lemma server_view_done:
  assumes "server_view (map body rs) (p, d0) = Inr (p', d')"
    and "\<forall>r \<in> set rs. json_get ''done'' (body r) = Some (json_int (done_n r))"
  shows "d' = d0 + sum_list (map done_n rs)"
  using assms
proof (induction rs arbitrary: p d0)
  case (Cons r rs)
  from Cons.prems obtain q where "server_view (map body rs) (q, d0 + done_n r) = Inr (p', d')"
    by (auto simp: int_or_zero_int split: sum.splits)
  from Cons.IH [OF this] Cons.prems(2) show ?case by simp
qed simp

lemma tally_unhandled:
  assumes "tally fl b = Inr s"
  shows "\<exists>p d. server_view (map (bn_bodies b) (filter (\<lambda>r. jr_job_id r \<noteq> []) (bn_results b))) (0, 0) = Inr (p, d)
    \<and> bs_unhandled_pages s = admitted_pages (bn_results b) - d"
  using assms by (auto simp: tally_def Let_def split: sum.splits)

text \<open>
  C39. The graded number of unhandled pages is exact when no accepted job ended in an error: it is the
  sum over the accepted jobs of the pages the server has not finished, and it is zero exactly if
  every accepted job is finished.
\<close>

theorem unhandled_exact:
  assumes "tally fl b = Inr s" and "\<forall>r \<in> set (bn_results b). jr_error r = [] \<longleftrightarrow> jr_job_id r \<noteq> []"
    and "\<forall>r \<in> set (bn_results b). jr_job_id r \<noteq> [] \<longrightarrow>
          json_get ''done'' (bn_bodies b r) = Some (json_int (done_n r)) \<and> done_n r \<le> jr_pages r"
  shows "bs_unhandled_pages s = sum_list (map (\<lambda>r. jr_pages r - done_n r) (filter (\<lambda>r. jr_job_id r \<noteq> []) (bn_results b)))
    \<and> (bs_unhandled_pages s = 0 \<longleftrightarrow> (\<forall>r \<in> set (bn_results b). jr_job_id r \<noteq> [] \<longrightarrow> done_n r = jr_pages r))"
proof -
  define acc where "acc = filter (\<lambda>r. jr_job_id r \<noteq> []) (bn_results b)"
  obtain p d where v: "server_view (map (bn_bodies b) acc) (0, 0) = Inr (p, d)"
    and u: "bs_unhandled_pages s = admitted_pages (bn_results b) - d"
    using tally_unhandled [OF assms(1)] by (auto simp: acc_def)
  have "d = sum_list (map done_n acc)" using server_view_done [OF v, of done_n] assms(3) by (simp add: acc_def)
  moreover have "filter (\<lambda>r. jr_error r = []) (bn_results b) = acc"
    unfolding acc_def by (rule filter_cong) (use assms(2) in auto)
  ultimately have e: "bs_unhandled_pages s = sum_list (map (\<lambda>r. jr_pages r - done_n r) acc)"
    using u by (simp add: admitted_pages_def sum_list_subtractf)
  moreover have "\<forall>x \<in> set (map (\<lambda>r. jr_pages r - done_n r) acc). 0 \<le> x" using assms(3) by (auto simp: acc_def)
  then have "sum_list (map (\<lambda>r. jr_pages r - done_n r) acc) = 0 \<longleftrightarrow> (\<forall>x \<in> set (map (\<lambda>r. jr_pages r - done_n r) acc). x = 0)"
    by (intro sum_list_nonneg_eq_0_iff) auto
  ultimately show ?thesis by (auto simp: acc_def)
qed

text \<open>
  The grades do not ask whether anything was measured: if the API answers every submission with an
  error status and no memory sample was taken, all targets count as met.
\<close>

lemma refused_job_result:
  assumes "status < 200 \<or> 300 \<le> status" and "run_job clk pages (Inr (status, body)) stream = Inr r"
  shows "jr_error r \<noteq> [] \<and> jr_job_id r = [] \<and> jr_ttfp_ms r = 0"
  using assms by (auto simp: run_job_def Let_def is_Exception_def split: if_splits)

lemma tally_returns:
  assumes "server_view (map (bn_bodies b) (filter (\<lambda>r. jr_job_id r \<noteq> []) (bn_results b))) (0, 0) = Inr (p, d)"
  shows "\<exists>s. tally fl b = Inr s \<and> bs_unhandled_pages s = admitted_pages (bn_results b) - d
    \<and> bs_peak_rss_mb s = round_to 1 (case map_of (rss_report (bn_samples b)) ''peak_total_mb'' of None \<Rightarrow> 0 | Some v \<Rightarrow> v)
    \<and> bs_solo_ttfp_p95_ms s = round_to 1 (percentile (solo_ttfps (bn_solo b)) (95 / 100))"
  unfolding tally_def Let_def assms by simp

theorem failed_run_meets_targets:
  assumes "\<forall>r \<in> set (bn_solo b) \<union> set (bn_results b). \<exists>clk pages status body stream.
      (status < 200 \<or> 300 \<le> status) \<and> run_job clk pages (Inr (status, body)) stream = Inr r"
    and "bn_samples b = []"
  shows "\<exists>s. tally fl b = Inr s \<and> exit_code s = 0"
proof -
  have f: "jr_error r \<noteq> [] \<and> jr_job_id r = [] \<and> jr_ttfp_ms r = 0" if "r \<in> set (bn_solo b) \<union> set (bn_results b)" for r
    using refused_job_result assms(1) that by blast
  then have e: "filter (\<lambda>r. jr_job_id r \<noteq> []) (bn_results b) = []" "filter (\<lambda>r. jr_error r = []) (bn_results b) = []"
    "solo_ttfps (bn_solo b) = []"
    by (auto simp: filter_empty_conv solo_ttfps_def)
  have z: "round_to 1 0 = 0" by (simp add: round_to_def round_half_even_def)
  have v: "server_view (map (bn_bodies b) (filter (\<lambda>r. jr_job_id r \<noteq> []) (bn_results b))) (0, 0) = Inr (0, 0)" by (simp add: e)
  have "map_of (rss_report (bn_samples b)) ''peak_total_mb'' = Some 0" by (simp add: assms(2) rss_report_def)
  moreover have "percentile (solo_ttfps (bn_solo b)) x = 0" for x by (simp add: e percentile_def)
  moreover have "admitted_pages (bn_results b) = 0" by (simp add: e admitted_pages_def)
  ultimately show ?thesis using tally_returns [OF v, of fl] z by (auto simp: exit_code_def targets_met_def)
qed

definition demo_result :: "string \<Rightarrow> string \<Rightarrow> job_result" where
  "demo_result job err = \<lparr>jr_job_id = job, jr_pages = 2, jr_submitted_at = 0, jr_post_ms = 1, jr_connect_ms = 1,
     jr_first_byte_ms = 1, jr_ttfp_ms = 1, jr_first_event = [], jr_partials = 0, jr_finals = 0, jr_complete = False,
     jr_page_latencies_ms = [], jr_error = err\<rparr>"

definition demo_bench :: "(string \<times> string) list \<Rightarrow> (string \<Rightarrow> int) \<Rightarrow> bench_run" where
  "demo_bench rs d = \<lparr>bn_jobs = 2, bn_pages = 2, bn_solo = [], bn_results = map (\<lambda>(j, e). demo_result j e) rs,
     bn_bodies = (\<lambda>r. JObj [(''total_pages'', json_int 2), (''done'', json_int (d (jr_job_id r)))]),
     bn_before = [], bn_after = [], bn_samples = [], bn_wall_s = 1, bn_cpu_s = 0\<rparr>"

lemma demo_returns:
  "\<exists>s. tally fl (demo_bench [(''a'', []), (''b'', e)] d) = Inr s
     \<and> bs_unhandled_pages s = (if e = [] then 4 else 2) - d ''a'' - d ''b''"
  using tally_returns [of "demo_bench [(''a'', []), (''b'', e)] d" 4 "d ''a'' + d ''b''" fl]
  by (auto simp: demo_bench_def demo_result_def int_or_zero_int admitted_pages_def)

theorem unhandled_exact_witness:
  "\<exists>s. tally (\<lambda>_. None) (demo_bench [(''a'', []), (''b'', [])] (\<lambda>j. if j = ''a'' then 2 else 1)) = Inr s
     \<and> bs_unhandled_pages s = 1 \<and> bs_unhandled_pages s \<noteq> 0"
proof -
  let ?d = "\<lambda>j. if j = ''a'' then 2 else 1 :: int"
  obtain s where s: "tally (\<lambda>_. None) (demo_bench [(''a'', []), (''b'', [])] ?d) = Inr s" using demo_returns by blast
  from unhandled_exact [OF this, of "\<lambda>r. ?d (jr_job_id r)"] have "bs_unhandled_pages s = 1"
    by (simp add: demo_bench_def demo_result_def)
  with s show ?thesis by auto
qed

theorem failed_run_meets_targets_witness:
  "\<exists>s. tally (\<lambda>_. None) ((demo_bench [] (\<lambda>_. 0))\<lparr>bn_results := [projr (run_job real 2 (Inr (500, Inr [])) (Inr ([], None)))]\<rparr>) = Inr s
     \<and> exit_code s = 0"
proof -
  let ?b = "(demo_bench [] (\<lambda>_. 0))\<lparr>bn_results := [projr (run_job real 2 (Inr (500, Inr [])) (Inr ([], None)))]\<rparr>"
  have "run_job real 2 (Inr (500, Inr [])) (Inr ([], None)) = Inr (projr (run_job real 2 (Inr (500, Inr [])) (Inr ([], None))))"
    by (simp add: run_job_def Let_def is_Exception_def)
  then have "\<forall>r \<in> set (bn_solo ?b) \<union> set (bn_results ?b). \<exists>clk pages status body stream.
      (status < 200 \<or> 300 \<le> status) \<and> run_job clk pages (Inr (status, body)) stream = Inr r"
    by (simp add: demo_bench_def) (rule exI [of _ real], rule exI [of _ 2], rule exI [of _ 500], auto)
  from failed_run_meets_targets [OF this] show ?thesis by (simp add: demo_bench_def)
qed

text \<open>
  An accepted job whose stream broke is left out of the pages that were admitted while its finished
  pages are counted: here one of the two pages of the first job is lost, and the grade says none is.
\<close>

lemma errored_job_masks_dropped_page:
  "\<exists>s. tally fl (demo_bench [(''a'', []), (''b'', ''stream: ReadError'')] (\<lambda>_. 1)) = Inr s \<and> bs_unhandled_pages s = 0"
  using demo_returns [of fl "''stream: ReadError''" "\<lambda>_. 1"] by simp


end
