(* ===== verification/Logging_Setup.thy ===== *)
theory Logging_Setup
  imports Tracing "HOL-Library.AList"
begin

text \<open>
  Logging, \<^verbatim>\<open>src/common/logging.py\<close>: the tree of loggers of the standard library as \<open>configure_logging\<close> leaves it,
  and the two processors that stamp an event. A logger nobody has touched has no handler, no level
  and hands its records to its parent; the root has the empty name. The other processors of the chain
  belong to structlog and are parameters.
\<close>

section \<open>The tree of loggers\<close>

datatype handler = Json_Handler string | Other_Handler string | Last_Resort

record logger =
  lg_handlers :: "handler list"
  lg_propagate :: bool
  lg_level :: nat

definition fresh_logger :: logger where
  "fresh_logger = \<lparr>lg_handlers = [], lg_propagate = True, lg_level = 0\<rparr>"

type_synonym log_tree = "string \<Rightarrow> logger"

text \<open>The name up to the last dot; a name without a dot is right below the root.\<close>

definition parent :: "string \<Rightarrow> string" where
  "parent name = rev (drop 1 (dropWhile (\<lambda>c. c \<noteq> CHR ''.'') (rev name)))"

lemma parent_shorter: "name \<noteq> [] \<Longrightarrow> length (parent name) < length name"
proof -
  assume "name \<noteq> []"
  then have "0 < length name" by simp
  moreover have "length (dropWhile (\<lambda>c. c \<noteq> CHR ''.'') (rev name)) \<le> length name" by (metis length_dropWhile_le length_rev)
  ultimately show ?thesis unfolding parent_def length_rev length_drop by linarith
qed

text \<open>\<^verbatim>\<open>getEffectiveLevel\<close> and \<^verbatim>\<open>callHandlers\<close>.\<close>

function effective_level :: "log_tree \<Rightarrow> string \<Rightarrow> nat" where
  "effective_level t name =
     (if lg_level (t name) \<noteq> 0 then lg_level (t name) else if name = [] then 0 else effective_level t (parent name))"
  by pat_completeness auto
termination by (relation "measure (\<lambda>(t, name). length name)") (auto simp: parent_shorter)

function reached :: "log_tree \<Rightarrow> string \<Rightarrow> handler list" where
  "reached t name =
     lg_handlers (t name) @ (if name \<noteq> [] \<and> lg_propagate (t name) then reached t (parent name) else [])"
  by pat_completeness auto
termination by (relation "measure (\<lambda>(t, name). length name)") (auto simp: parent_shorter)

declare effective_level.simps [simp del] reached.simps [simp del]

text \<open>
  The handlers that print a record. If there is none on the way to the root, the library prints
  warnings and above by itself.
\<close>

definition emitted :: "log_tree \<Rightarrow> string \<Rightarrow> nat \<Rightarrow> handler list" where
  "emitted t name level =
     (if level < effective_level t name then []
      else if reached t name = [] then (if 30 \<le> level then [Last_Resort] else [])
      else reached t name)"

section \<open>configure_logging\<close>

text \<open>The levels the library has by name, for \<^verbatim>\<open>getattr(logging, level.upper(), logging.INFO)\<close>.\<close>

definition LEVELS :: "(string \<times> nat) list" where
  "LEVELS = [(''CRITICAL'', 50), (''FATAL'', 50), (''ERROR'', 40), (''WARNING'', 30), (''WARN'', 30), (''INFO'', 20),
     (''DEBUG'', 10), (''NOTSET'', 0)]"

definition upper :: "char \<Rightarrow> char" where
  "upper c = (let n = of_char c :: nat in if 97 \<le> n \<and> n \<le> 122 then char_of (n - 32) else c)"

definition numeric_level :: "string \<Rightarrow> nat" where
  "numeric_level level = (case map_of LEVELS (map upper level) of None \<Rightarrow> 20 | Some n \<Rightarrow> n)"

definition configure_logging :: "string \<Rightarrow> string \<Rightarrow> log_tree \<Rightarrow> log_tree" where
  "configure_logging service level t =
     (let t1 = t([] := (t [])\<lparr>lg_handlers := [Json_Handler service], lg_level := numeric_level level\<rparr>);
          t2 = fold (\<lambda>name t. t(name := (t name)\<lparr>lg_handlers := [], lg_propagate := True\<rparr>)) [''uvicorn'', ''uvicorn.error''] t1
      in t2(''uvicorn.access'' := (t2 ''uvicorn.access'')\<lparr>lg_handlers := [], lg_propagate := False\<rparr>))"

section \<open>Stamping\<close>

type_synonym event = "(string \<times> string) list"

definition add_trace_context :: "trace_ctx \<Rightarrow> event \<Rightarrow> event" where
  "add_trace_context tx event =
     (let event1 = (if tx_trace_id tx \<noteq> [] then AList.update ''trace_id'' (tx_trace_id tx) event else event)
      in if tx_span_id tx \<noteq> [] then AList.update ''span_id'' (tx_span_id tx) event1 else event1)"

definition service_stamper :: "string \<Rightarrow> event \<Rightarrow> event" where
  "service_stamper service event = AList.update ''service'' service event"

text \<open>
  The chain shared by the program's own loggers and by those of the libraries: context variables are
  merged first, the rest of the processors run last.
\<close>

definition shared_chain :: "(event \<Rightarrow> event) \<Rightarrow> (event \<Rightarrow> event) list \<Rightarrow> string \<Rightarrow> trace_ctx \<Rightarrow> event \<Rightarrow> event" where
  "shared_chain merge_contextvars others service tx event =
     fold (\<lambda>p e. p e) others (add_trace_context tx (service_stamper service (merge_contextvars event)))"

section \<open>Every record is printed once\<close>

lemma reached_root: "reached t [] = lg_handlers (t [])"
  by (subst reached.simps) simp

lemma configured_root: "configure_logging service level t [] = (t [])\<lparr>lg_handlers := [Json_Handler service], lg_level := numeric_level level\<rparr>"
  by (simp add: configure_logging_def)

text \<open>Loggers of which only the two of the web server have handlers of their own.\<close>

definition plain :: "log_tree \<Rightarrow> string \<Rightarrow> bool" where
  "plain t name \<longleftrightarrow> name \<in> {''uvicorn'', ''uvicorn.error'', ''uvicorn.access''} \<or> (lg_handlers (t name) = [] \<and> lg_propagate (t name))"

function under_access :: "string \<Rightarrow> bool" where
  "under_access name \<longleftrightarrow> name = ''uvicorn.access'' \<or> (if name = [] then False else under_access (parent name))"
  by pat_completeness auto
termination by (relation "measure length") (auto simp: parent_shorter)

declare under_access.simps [simp del]

lemma reached_configured:
  assumes "\<forall>n. n \<noteq> [] \<longrightarrow> plain t n"
  shows "reached (configure_logging service level t) name = (if under_access name then [] else [Json_Handler service])"
proof (induction "length name" arbitrary: name rule: less_induct)
  case less
  let ?t = "configure_logging service level t"
  show ?case
  proof (cases "name = [] \<or> name = ''uvicorn.access''")
    case True
    then show ?thesis by (subst reached.simps, subst under_access.simps) (auto simp: configure_logging_def)
  next
    case False
    then have "lg_handlers (?t name) = [] \<and> lg_propagate (?t name)"
      using assms by (auto simp: configure_logging_def plain_def)
    then show ?thesis using less [of "parent name"] False parent_shorter [of name]
      by (subst reached.simps, subst under_access.simps) simp
  qed
qed

text \<open>
  Every record is printed once. Let the loggers of the libraries be as they are made, except those of
  the web server. After \<open>configure_logging\<close> a record of any logger, the web server's too, that passes its
  level is printed by the one JSON handler and by nothing else; the access log prints nothing below a
  warning; and configuring again changes nothing.
\<close>

theorem records_printed_once:
  assumes "\<forall>n. n \<noteq> [] \<longrightarrow> plain t n"
  shows "(\<not> under_access name \<and> effective_level (configure_logging service level t) name \<le> lv
            \<longrightarrow> emitted (configure_logging service level t) name lv = [Json_Handler service])
    \<and> (under_access name \<and> lv < 30 \<longrightarrow> emitted (configure_logging service level t) name lv = [])
    \<and> configure_logging service level (configure_logging service level t) = configure_logging service level t"
proof (intro conjI impI)
  show "configure_logging service level (configure_logging service level t) = configure_logging service level t"
    by (rule ext) (simp add: configure_logging_def)
qed (use reached_configured [OF assms] in \<open>auto simp: emitted_def\<close>)

theorem records_printed_once_witness:
  "emitted (configure_logging ''api'' ''info'' (\<lambda>n. if n = ''uvicorn'' then fresh_logger\<lparr>lg_handlers := [Other_Handler ''text'']\<rparr> else fresh_logger))
     ''uvicorn.error'' 20 = [Json_Handler ''api'']"
proof -
  let ?t = "\<lambda>n. if n = ''uvicorn'' then fresh_logger\<lparr>lg_handlers := [Other_Handler ''text'']\<rparr> else fresh_logger"
  have "\<forall>n. n \<noteq> [] \<longrightarrow> plain ?t n" by (simp add: plain_def fresh_logger_def)
  moreover have "\<not> under_access ''uvicorn.error''" by code_simp
  moreover have "effective_level (configure_logging ''api'' ''info'' ?t) ''uvicorn.error'' \<le> 20" by code_simp
  ultimately show ?thesis using records_printed_once [of ?t "''uvicorn.error''" "''api''" "''info''" 20] by blast
qed

text \<open>
  Every line says where it comes from. If the processors behind the stamps keep the keys that are
  there, a line carries its service and, while a trace is bound, its trace and span ids, whatever the
  caller or the context variables put under those names.
\<close>

theorem lines_are_stamped:
  assumes "\<forall>p \<in> set others. \<forall>e k. map_of e k \<noteq> None \<longrightarrow> map_of (p e) k = map_of e k"
  shows "map_of (shared_chain merge others service tx event) ''service'' = Some service
    \<and> (tx_trace_id tx \<noteq> [] \<longrightarrow> map_of (shared_chain merge others service tx event) ''trace_id'' = Some (tx_trace_id tx))
    \<and> (tx_span_id tx \<noteq> [] \<longrightarrow> map_of (shared_chain merge others service tx event) ''span_id'' = Some (tx_span_id tx))"
proof -
  have keep: "map_of (fold (\<lambda>p e. p e) others e) k = Some v" if "map_of e k = Some v" for e k v
    using assms that by (induction others arbitrary: e) simp_all
  show ?thesis unfolding shared_chain_def
    by (intro conjI impI keep) (simp_all add: add_trace_context_def service_stamper_def Let_def update_conv')
qed

theorem lines_are_stamped_witness:
  "map_of (shared_chain id [\<lambda>e. e @ [(''level'', ''info'')]] ''api'' \<lparr>tx_trace_id = ''t'', tx_span_id = []\<rparr>
     [(''event'', ''x''), (''trace_id'', ''forged'')]) ''trace_id'' = Some ''t''"
proof -
  have "\<forall>p \<in> set [\<lambda>e. e @ [(''level'', ''info'')]]. \<forall>e k. map_of e k \<noteq> None \<longrightarrow> map_of (p e) k = map_of e k"
    by (auto simp: map_add_def)
  from lines_are_stamped [OF this, of id "''api''" "\<lparr>tx_trace_id = ''t'', tx_span_id = []\<rparr>"
      "[(''event'', ''x''), (''trace_id'', ''forged'')]"] show ?thesis by simp
qed

end
