(* ===== verification/Spec2Isabelle.thy ===== *)
theory Spec2Isabelle
  imports Worker_Loop Admission Intake_System Sse_Stream Metrics_Flow Mock_Server Metrics_Export Tracing Startup
    Fleet_System Pdf_Fixture Benchmark Logging_Setup
begin

text \<open>
  A verification library for the OCR orchestrator, the Python program under \<^verbatim>\<open>src/app\<close>,
  \<^verbatim>\<open>src/common\<close> and \<^verbatim>\<open>src/mock_model\<close>. The program takes in PDF documents over HTTP, splits each into
  pages, puts one task per page on a queue in Redis, and lets any number of worker processes run
  each page through two model calls (a fast layout model, then a slow vision model), with the
  results streamed back to subscribers. All shared state lives in Redis; every change to it that
  must be atomic is a Lua script.

  \<^bold>\<open>The parts and their theories.\<close> Each theory opens with what it holds and translates the named file
  function by function, the definitions keeping the source's names where they can.

  \<^item> \<open>Orch_Prelude\<close>: what the components share. JSON values, exceptions, strings and integers as
    Python reads and prints them, a Redis key with a time to live (\<open>cell\<close>: reading, writing,
    expiring, collected in \<open>cell_simps\<close>), and the small language of stateful, fallible procedures
    (\<open>io_bind\<close>, \<open>io_catch\<close>, ...) with its weakest preconditions \<open>wp\<close>, in which the asynchronous
    procedures are written: between two awaits other processes may act, and an await may fail.
  \<^item> \<open>Page_State\<close>, \<open>Page_Protocol\<close>: \<^verbatim>\<open>app/queue/state.py\<close>. The state machine of a page, its transition
    table, the compare-and-set script and the store; then what the script gives its users over whole
    runs, through the locale \<open>cas_store\<close> interpreted on it: a job completes exactly once.
  \<^item> \<open>Redis_Streams\<close>, \<open>Task_Queue\<close>: \<^verbatim>\<open>app/queue/streams.py\<close>. The stream server is not part of the
    repository: it is the locale \<open>stream_server\<close>, whose laws are the documented behaviour of the
    commands, with a server in memory as one interpretation. Over it every operation of \<^verbatim>\<open>PageQueue\<close>.
  \<^item> \<open>Result_Stream\<close>: \<^verbatim>\<open>app/queue/results.py\<close>. Publishing, cursors, history and gaps of a job's events.
  \<^item> \<open>Token_Bucket\<close>, \<open>Circuit_Breaker\<close>, \<open>Adaptive_Rate\<close>, \<open>Retry_Policy\<close>: \<^verbatim>\<open>app/ratelimit\<close>. The three
    scripts and their classes, and the classification of failures.
  \<^item> \<open>Model_Client\<close>: \<^verbatim>\<open>app/worker/client.py\<close>. The gates before a call, the call, the reports, the retries.
  \<^item> \<open>Page_Pipeline\<close>: \<^verbatim>\<open>app/worker/pipeline.py\<close>. One page through its stages with every handler.
    \<open>Page_Death\<close> lets the worker die at any await of it: a run is the run of a worker that does not die, or
    it ended in the death.
  \<^item> \<open>Fleet\<close>, \<open>Reaper\<close>, \<open>Worker\<close>: \<^verbatim>\<open>app/worker/reaper.py\<close>, \<^verbatim>\<open>app/worker/main.py\<close> and the settings they read.
    Recovery of orphaned tasks; what happens to a delivered task on every outcome; dispatch budgets,
    resumption and the maintenance rounds. \<open>Worker_Loop\<close> is the life of the process: main task,
    handlers, maintenance and a stop signal as a step relation. \<open>Fleet_System\<close> puts the whole together:
    submissions, handlers, recoveries, deliveries and time in any order over one page store and one
    queue, by frames that say what each leaves untouched.
  \<^item> \<open>Configuration\<close>, \<open>Startup\<close>: \<^verbatim>\<open>app/config.py\<close>, \<^verbatim>\<open>app/core/redis_client.py\<close>, \<^verbatim>\<open>app/main.py\<close> and the worker's
    \<^verbatim>\<open>main\<close>. All settings with their ranges, the connection pools, and both processes assembled from the
    constructors of the other theories, so that what those assume of their arguments is traced back
    to the configuration.
  \<^item> \<open>Documents\<close>: \<^verbatim>\<open>app/pdf/splitter.py\<close>. The upload directory as an explicit disk, refined to a set of
    documents (locale \<open>document_store\<close>); pypdf is a parameter.
  \<^item> \<open>Admission\<close>, \<open>Job_Api\<close>, \<open>Intake_System\<close>: \<^verbatim>\<open>app/api/admission.py\<close>, \<^verbatim>\<open>app/api/jobs.py\<close> and several
    API processes as a step relation.
  \<^item> \<open>Sse_Stream\<close>: \<^verbatim>\<open>app/api/stream.py\<close>. Subscriber slots and the generator of frames. \<open>Sse_Wire\<close> has the text
    of every frame, and the client of \<^verbatim>\<open>bench/benchmark.py\<close> that reads it in chunks.
  \<^item> \<open>Text_Metrics\<close>, \<open>Box_Metrics\<close>, \<open>Tree_Edit\<close>, \<open>Evaluate\<close>: \<^verbatim>\<open>app/eval\<close> and \<^verbatim>\<open>app/api/evaluate.py\<close>.
    \<open>Forest_Distance\<close> is the specification of the tree distance (least number of edits), and
    \<open>Tree_Distance\<close> proves the program's tables equal to it.
  \<^item> \<open>Metrics_Text\<close>, \<open>Metrics_Flow\<close>, \<open>Metrics_Export\<close>: \<^verbatim>\<open>common/metrics.py\<close>, \<^verbatim>\<open>app/worker/metrics.py\<close> and
    \<^verbatim>\<open>app/api/metrics.py\<close>. From an observation in a worker through the flush into Redis to the scrape.
  \<^item> \<open>Tracing\<close>, \<open>Logging_Setup\<close>: \<^verbatim>\<open>common/tracing.py\<close>, \<^verbatim>\<open>common/middleware.py\<close> and \<^verbatim>\<open>common/logging.py\<close>.
  \<^item> \<open>Mock_Model\<close>, \<open>Mock_Payloads\<close>, \<open>Mock_Server\<close>: \<^verbatim>\<open>src/mock_model\<close>, the stand-in for the models. The server with
    its idempotency store, the answers it makes up (for any pseudo-random generator: its primitives
    are parameters), and both put together with the settings, the routes and their validation.
  \<^item> \<open>Pdf_Fixture\<close>, \<open>Benchmark\<close>: \<^verbatim>\<open>bench/make_pdf.py\<close>, the generator of large documents, and the samples,
    percentiles, tally and grades of \<^verbatim>\<open>bench/benchmark.py\<close>.

  \<^bold>\<open>How state and operations correspond.\<close> A Redis hash is a record in a \<open>cell\<close>; a Lua script is a pure
  function from arguments, the server's clock and the cell to a reply and the cell. A class is a
  record of its attributes and its methods are functions of it. A coroutine is a procedure of the
  prelude's language over a world; the interference of other processes at each await, and the
  commands that fail there, are parameters of the procedure, so the theorems hold for all of them. A
  request of the mock server is split at its awaits into steps. Exceptions are values: \<^const>\<open>Inl\<close> of an
  exception, \<^const>\<open>None\<close> where a constructor raises.

  \<^bold>\<open>What the theorems show.\<close> No page is lost: after the worker's handler, the requeue and the reaper, a
  delivered page is terminal or still queued, whatever call fails and wherever the worker dies, and a
  delivery whose budget is spent settles the page. A handler touches no page and no entry but its
  own, so that the whole system, over any order of its events, drops no page of an accepted job. A worker's slots and leases are accounted for at every moment, and a stop
  request drains and ends it. No page is settled twice and a job is reported complete exactly once. An
  accepted job has all its rows and tasks, a refused one leaves no trace, a document is on disk
  exactly when it should be, and replicas overshoot the queue's limit by a bounded amount only. A
  client call sends a bounded number of identical requests; the fleet as a whole keeps the rate, the
  breaker keeps its cooldown and recovers, the controller stays in its band. A subscriber gets the
  events in order without a hole, its loop ends, and a client that cuts the text into frames reads
  back what was sent, however it was cut into chunks. The edit distances are the least numbers of
  edits, the matching of boxes is stable, and an evaluation does not exceed the work it was admitted
  for. A scrape shows exactly what the fleet observed and disturbs nothing it reads. It is settled
  which configurations start the processes. One trace id
  goes end to end, every log line carries it and is printed once. The mock executes a key once, answers every request with its own page, its answers
  can be scored, and chaos wears off. The cross-reference table of a generated document is exact; the
  benchmark's peak is the peak of the sum and its number of unhandled pages is right if no stream
  broke. Lemmas that record how the program falls short of
  its comments stand beside these: \<open>lost_claim_strands_page\<close>, \<open>stale_commit_revokes_claim\<close>,
  \<open>saturated_call_leaks_probe\<close>, \<open>latency_breach_can_raise_rate\<close>, \<open>derived_completion_skips_page\<close>,
  \<open>normalised_above_one\<close>, \<open>scalar_box_not_refused\<close>, \<open>scrape_controller_refused\<close>, \<open>drained_without_leases\<close>,
  \<open>failed_start_leaks\<close>, \<open>incoherent_starts\<close>, \<open>failed_run_meets_targets\<close>, \<open>errored_job_masks_dropped_page\<close> and others.

  \<^bold>\<open>Numbers, bounds and fuel.\<close> Python integers are unbounded and are \<^typ>\<open>int\<close> or \<^typ>\<open>nat\<close>; floats and Lua
  numbers are \<^typ>\<open>real\<close>, so rounding is not modelled and values are finite. Loops are structural
  recursions or have a termination proof, with two exceptions that take fuel: the reader of JSON
  items, whose fuel is the length of its text, which is more than the number of items
  (\<open>field_roundtrip\<close>), and the tailing loop of a stream, which may run until its maximum duration;
  \<open>tail_loop_ends\<close> proves that enough fuel for an advancing clock ends it.

  \<^bold>\<open>Not modelled.\<close> Reading the environment into settings, and the sockets behind a connection pool, which
  belong to libraries; the registration of signal handlers; the content of log lines beyond their stamps;
  HTTP routing and response serialisation, which belong to the web framework; how long the mock's
  simulated latency lasts (any duration is allowed); the command line, the scheduling and the printed
  report of the benchmark; the verification scripts and the tests, which only drive a running
  deployment and print what they see.
\<close>

end
